(* ===== verification/Prelude.thy ===== *)
theory Prelude
  imports "HOL-Library.Word"
begin

text \<open>
  Types and generic facts shared by every component: the fixed-width integers of the C code,
  the result type of a reader (a value or a failure, together with the advanced cursor), and
  the big- and little-endian readings of byte strings, over which the properties of the
  readers and writers are stated.
\<close>

unbundle bit_operations_syntax

type_synonym u8 = "8 word"
type_synonym u16 = "16 word"
type_synonym u32 = "32 word"
type_synonym u64 = "64 word"
type_synonym bytes = "u8 list"

text \<open>
  The allocator is a parameter: \<open>al n\<close> says whether a request for \<open>n\<close> bytes succeeds.
\<close>

type_synonym allocator = "nat \<Rightarrow> bool"

text \<open>The largest value of \<open>size_t\<close> plus one, on the 64-bit targets of the app.\<close>

abbreviation size_lim :: nat where
  "size_lim \<equiv> 2 ^ 64"

named_theorems reader_defs \<open>definitions of the functions that read from a byte cursor\<close>
named_theorems writer_defs \<open>definitions of the functions that append to a buffer\<close>

subsection \<open>Big-endian and little-endian byte strings\<close>

definition be_val :: "bytes \<Rightarrow> nat" where
  "be_val bs = foldl (\<lambda>a b. a * 256 + unat b) 0 bs"

fun be_bytes :: "nat \<Rightarrow> nat \<Rightarrow> bytes" where
  "be_bytes 0 v = []"
| "be_bytes (Suc n) v = be_bytes n (v div 256) @ [word_of_nat v]"

definition le_val :: "bytes \<Rightarrow> nat" where
  "le_val bs = be_val (rev bs)"

definition le_bytes :: "nat \<Rightarrow> nat \<Rightarrow> bytes" where
  "le_bytes n v = rev (be_bytes n v)"

lemma unat_u8_bound [simp]: "unat (b :: u8) < 256"
  using unsigned_less [of b, where ?'a = nat] by simp

lemma unat_u8_le [simp]: "unat (b :: u8) \<le> 255"
  using unat_u8_bound [of b] by linarith

lemma be_val_Nil [simp]: "be_val [] = 0"
  by (simp add: be_val_def)

lemma be_val_snoc [simp]: "be_val (bs @ [b]) = be_val bs * 256 + unat b"
  by (simp add: be_val_def)

lemma be_val_single [simp]: "be_val [b] = unat b"
  by (simp add: be_val_def)

lemma be_val_append: "be_val (xs @ ys) = be_val xs * 256 ^ length ys + be_val ys"
proof (induction ys rule: rev_induct)
  case (snoc y ys)
  then show ?case
    by (simp add: append_assoc [symmetric] distrib_right del: append_assoc)
qed simp

lemma be_val_Cons: "be_val (b # bs) = unat b * 256 ^ length bs + be_val bs"
  using be_val_append [of "[b]" bs] by simp

lemma be_val_bound: "be_val bs < 256 ^ length bs"
proof (induction bs rule: rev_induct)
  case (snoc b bs)
  have "be_val bs * 256 + unat b < (be_val bs + 1) * 256"
    using unat_u8_bound [of b] by simp
  also have "\<dots> \<le> 256 ^ length bs * 256"
    using snoc by (intro mult_right_mono) auto
  finally show ?case by simp
qed simp

lemma length_be_bytes [simp]: "length (be_bytes n v) = n"
  by (induction n arbitrary: v) auto

lemma unat_word_of_nat_u8 [simp]: "unat (word_of_nat v :: u8) = v mod 256"
  by (simp add: unat_of_nat)

lemma be_val_be_bytes: "be_val (be_bytes n v) = v mod 256 ^ n"
proof (induction n arbitrary: v)
  case (Suc n)
  have "v mod (256 * 256 ^ n) = 256 * (v div 256 mod 256 ^ n) + v mod 256"
    by (rule mod_mult2_eq)
  then show ?case
    by (simp add: Suc mult.commute)
qed simp

lemma be_val_be_bytes_id: "v < 256 ^ n \<Longrightarrow> be_val (be_bytes n v) = v"
  by (simp add: be_val_be_bytes)

lemma be_bytes_be_val: "be_bytes (length bs) (be_val bs) = bs"
proof (induction bs rule: rev_induct)
  case (snoc b bs)
  have "(be_val bs * 256 + unat b) div 256 = be_val bs"
    using unat_u8_bound [of b] by (simp add: div_mult_self3)
  moreover have "word_of_nat (be_val bs * 256 + unat b) = b"
    by (rule word_unat_eq_iff [THEN iffD2]) (simp add: unsigned_of_nat take_bit_eq_mod flip: of_nat_mult of_nat_add)
  ultimately show ?case
    using snoc by simp
qed simp

lemma be_val_inj: "length xs = length ys \<Longrightarrow> be_val xs = be_val ys \<Longrightarrow> xs = ys"
  by (metis be_bytes_be_val)

lemma be_bytes_eqI: "length bs = n \<Longrightarrow> be_val bs = v \<Longrightarrow> be_bytes n v = bs"
  by (metis be_bytes_be_val)

lemma append_longer_split:
  "xs @ ys = zs @ ws \<Longrightarrow> length xs \<le> length zs \<Longrightarrow> zs = xs @ drop (length xs) zs"
  by (metis append_eq_append_conv_if append_take_drop_id)

subsection \<open>Memory blocks\<close>

text \<open>Overwriting the elements of a block from position \<open>pos\<close> (\<open>memcpy\<close>, \<open>memset\<close>, stores).\<close>

definition blit :: "nat \<Rightarrow> 'a list \<Rightarrow> 'a list \<Rightarrow> 'a list" where
  "blit pos xs b = take pos b @ xs @ drop (pos + length xs) b"

lemma blit_append:
  "length xs = length ys \<Longrightarrow> blit (length pre) ys (pre @ xs @ post) = pre @ ys @ post"
  by (simp add: blit_def)

lemma blit_Nil [simp]: "blit n [] b = b"
  by (simp add: blit_def)

lemma length_blit [simp]: "pos + length xs \<le> length b \<Longrightarrow> length (blit pos xs b) = length b"
  by (simp add: blit_def)

lemma take_blit: "pos + length xs \<le> length b \<Longrightarrow> take (pos + length xs) (blit pos xs b) = take pos b @ xs"
  by (simp add: blit_def)

subsection \<open>Bitwise operations as arithmetic\<close>

lemma disjoint_or_add:
  "x AND y = 0 \<Longrightarrow> x OR y = x + (y :: 'a :: len word)"
  by (simp add: disjunctive_add_eq_or)

lemma word_xor_eq_0: "x XOR y = 0 \<longleftrightarrow> x = (y :: 'a :: len word)"
  by (metis xor.right_neutral xor_self_eq xor.assoc)

lemma word_or_eq_0: "x OR y = 0 \<longleftrightarrow> x = 0 \<and> y = (0 :: 'a :: len word)"
  by (auto simp: bit_eq_iff bit_or_iff)

lemma bit_imp_less_bound:
  assumes "unat (b :: 'a :: len word) < 2 ^ k" "bit b n"
  shows "n < k"
proof -
  have "take_bit k b = b"
    by (rule word_unat_eq_iff [THEN iffD2]) (use assms(1) in \<open>simp add: unsigned_take_bit_eq take_bit_nat_eq_self\<close>)
  with assms(2) show ?thesis
    by (metis bit_take_bit_iff)
qed

lemma push_bit_and_low:
  "unat (b :: 'a :: len word) < 2 ^ k \<Longrightarrow> push_bit k r AND b = 0"
  by (rule bit_word_eqI) (auto simp: bit_simps dest: bit_imp_less_bound)

lemma unat_push_bit:
  assumes "unat (r :: 'a :: len word) < 2 ^ (LENGTH('a) - k)" "k \<le> LENGTH('a)"
  shows "unat (push_bit k r) = unat r * 2 ^ k"
proof -
  have "unat r * 2 ^ k < 2 ^ (LENGTH('a) - k) * 2 ^ k"
    using assms(1) by simp
  also have "\<dots> = 2 ^ LENGTH('a)"
    using assms(2) by (simp flip: power_add)
  finally show ?thesis
    by (simp add: unsigned_push_bit_eq push_bit_eq_mult [where ?'a = nat] take_bit_nat_eq_self)
qed

text \<open>Shifting in \<open>k\<close> fresh low bits is multiplication and addition, as long as nothing is lost.\<close>

lemma unat_push_bit_or:
  assumes r: "unat (r :: 'a :: len word) < 2 ^ (LENGTH('a) - k)" and k: "k \<le> LENGTH('a)"
    and b: "unat (b :: 'a word) < 2 ^ k"
  shows "unat (push_bit k r OR b) = unat r * 2 ^ k + unat b"
proof -
  have "unat r * 2 ^ k + unat b < (unat r + 1) * 2 ^ k"
    using b by simp
  also have "\<dots> \<le> 2 ^ (LENGTH('a) - k) * 2 ^ k"
    using r by (intro mult_right_mono) auto
  also have "\<dots> = 2 ^ LENGTH('a)"
    using k by (simp flip: power_add)
  finally have lt: "unat (push_bit k r) + unat b < 2 ^ LENGTH('a)"
    by (simp add: unat_push_bit [OF r k])
  have "push_bit k r OR b = push_bit k r + b"
    by (rule disjoint_or_add) (rule push_bit_and_low [OF b])
  with lt show ?thesis
    by (simp add: unat_add_lem [THEN iffD1] unat_push_bit [OF r k])
qed

lemma unat_ucast_up:
  "LENGTH('a) \<le> LENGTH('b) \<Longrightarrow> unat (ucast (b :: 'a :: len word) :: 'b :: len word) = unat b"
  by (simp add: unsigned_ucast_eq take_bit_nat_eq_self_iff)
     (meson le_trans less_le_trans one_le_numeral power_increasing unsigned_less)

lemma unat_ucast_down:
  "unat (ucast (b :: 'a :: len word) :: 'b :: len word) = unat b mod 2 ^ LENGTH('b)"
  by (simp add: unsigned_ucast_eq take_bit_eq_mod)

lemma unat_drop_bit: "unat (drop_bit n (w :: 'a :: len word)) = unat w div 2 ^ n"
  by (simp add: unsigned_drop_bit_eq drop_bit_eq_div [where ?'a = nat] take_bit_nat_eq_self)

lemma unat_and_mask: "unat (w AND mask n :: 'a :: len word) = unat w mod 2 ^ n"
  by (simp flip: take_bit_eq_mask take_bit_eq_mod add: unsigned_take_bit_eq)

lemma drop_bit_eq_0_iff: "drop_bit n (w :: 'a :: len word) = 0 \<longleftrightarrow> unat w < 2 ^ n"
proof -
  have "drop_bit n w = 0 \<longleftrightarrow> unat (drop_bit n w) = 0"
    by (simp add: unsigned_eq_0_iff)
  then show ?thesis
    by (simp add: unat_drop_bit div_eq_0_iff)
qed

end
