(* ===== verification/Const_Time.thy ===== *)
theory Const_Time
  imports Prelude
begin

text \<open>
  The branch-free primitives of \<open>crypto/internal.h\<close> (\<open>crypto_word_t\<close> is 64 bits wide on the
  targets of the app) and the memory helpers of \<open>crypto/mem.c\<close> that the byte-string code calls.
  The lemmas show that each mask is all ones or all zeros exactly when its comparison says so,
  for every pair of words: the header only quotes an SMT query for two of them.
\<close>

unbundle bit_operations_syntax

subsection \<open>Masks\<close>

text \<open>\<open>value_barrier_w\<close> stops the optimiser; it returns its argument.\<close>

definition value_barrier_w :: "u64 \<Rightarrow> u64" where
  "value_barrier_w a = a"

definition constant_time_msb_w :: "u64 \<Rightarrow> u64" where
  "constant_time_msb_w a = 0 - drop_bit (64 - 1) a"

definition constant_time_lt_w :: "u64 \<Rightarrow> u64 \<Rightarrow> u64" where
  "constant_time_lt_w a b = constant_time_msb_w (a XOR ((a XOR b) OR ((a - b) XOR a)))"

definition constant_time_lt_8 :: "u64 \<Rightarrow> u64 \<Rightarrow> u8" where
  "constant_time_lt_8 a b = ucast (constant_time_lt_w a b)"

definition constant_time_ge_w :: "u64 \<Rightarrow> u64 \<Rightarrow> u64" where
  "constant_time_ge_w a b = NOT (constant_time_lt_w a b)"

definition constant_time_ge_8 :: "u64 \<Rightarrow> u64 \<Rightarrow> u8" where
  "constant_time_ge_8 a b = ucast (constant_time_ge_w a b)"

definition constant_time_is_zero_w :: "u64 \<Rightarrow> u64" where
  "constant_time_is_zero_w a = constant_time_msb_w (NOT a AND (a - 1))"

definition constant_time_is_zero_8 :: "u64 \<Rightarrow> u8" where
  "constant_time_is_zero_8 a = ucast (constant_time_is_zero_w a)"

definition constant_time_eq_w :: "u64 \<Rightarrow> u64 \<Rightarrow> u64" where
  "constant_time_eq_w a b = constant_time_is_zero_w (a XOR b)"

definition constant_time_eq_8 :: "u64 \<Rightarrow> u64 \<Rightarrow> u8" where
  "constant_time_eq_8 a b = ucast (constant_time_eq_w a b)"

definition constant_time_select_w :: "u64 \<Rightarrow> u64 \<Rightarrow> u64 \<Rightarrow> u64" where
  "constant_time_select_w m a b =
     (value_barrier_w m AND a) OR (value_barrier_w (NOT m) AND b)"

definition constant_time_select_8 :: "u8 \<Rightarrow> u8 \<Rightarrow> u8 \<Rightarrow> u8" where
  "constant_time_select_8 m a b =
     ucast (constant_time_select_w (ucast m) (ucast a) (ucast b))"

lemma odd_div_half:
  assumes "0 \<le> x" "x < 2 * h"
  shows "odd (x div h) \<longleftrightarrow> h \<le> (x :: int)"
proof (cases "x < h")
  case True
  with assms show ?thesis by (simp add: div_pos_pos_trivial)
next
  case False
  with assms have "x div h = 1"
    by (intro int_div_pos_eq [where r = "x - h"]) auto
  with False show ?thesis by simp
qed

lemma diff_mod_half:
  assumes "0 \<le> x" "x < 2 * h" "0 \<le> y" "y < 2 * h" and "h \<le> x \<longleftrightarrow> h \<le> y"
  shows "h \<le> (x - y) mod (2 * h) \<longleftrightarrow> x < (y :: int)"
proof (cases "x < y")
  case True
  with assms have "(x - y) mod (2 * h) = x - y + 2 * h"
    by (intro int_mod_pos_eq [where q = "-1"]) auto
  with True assms show ?thesis by auto
next
  case False
  with assms have "(x - y) mod (2 * h) = x - y"
    by (intro mod_pos_pos_trivial) auto
  with False assms show ?thesis by auto
qed

lemma bit63_iff: "bit (w :: u64) 63 \<longleftrightarrow> 2 ^ 63 \<le> uint w"
proof -
  have "bit w 63 \<longleftrightarrow> bit (uint w) 63"
    by (simp add: bit_uint_iff)
  then have "bit w 63 \<longleftrightarrow> odd (uint w div 2 ^ 63)"
    by (simp only: bit_iff_odd)
  moreover have "uint w < 2 ^ 64" "0 \<le> uint w"
    using unsigned_less [of w, where ?'a = int] by auto
  ultimately show ?thesis
    using odd_div_half [of "uint w" "2 ^ 63"] by simp
qed

lemma constant_time_msb_w_mask:
  "constant_time_msb_w a = (if bit a 63 then -1 else 0)"
proof -
  have "drop_bit 63 a = of_bool (bit a 63)"
  proof (rule bit_word_eqI)
    fix n
    show "bit (drop_bit 63 a) n \<longleftrightarrow> bit (of_bool (bit a 63) :: u64) n"
      by (cases n) (auto simp: bit_drop_bit_eq bit_of_bool_iff dest: bit_imp_le_length)
  qed
  then show ?thesis
    by (simp add: constant_time_msb_w_def)
qed

lemma bit63_diff:
  assumes "bit a 63 = bit b 63"
  shows "bit (a - b) 63 \<longleftrightarrow> (a :: u64) < b"
proof -
  have a: "0 \<le> uint a" "uint a < 2 ^ 64" and b: "0 \<le> uint b" "uint b < 2 ^ 64"
    using unsigned_less [of a, where ?'a = int] unsigned_less [of b, where ?'a = int] by auto
  have d: "uint (a - b) = (uint a - uint b) mod 2 ^ 64"
    by (simp add: uint_word_ariths)
  show ?thesis
    using assms a b diff_mod_half [of "uint a" "2 ^ 63" "uint b"]
    unfolding bit63_iff d word_less_alt by simp
qed

lemma constant_time_lt_w_mask: "constant_time_lt_w a b = (if a < b then -1 else 0)"
proof -
  have "bit (a XOR ((a XOR b) OR ((a - b) XOR a))) 63 \<longleftrightarrow> a < b"
  proof (cases "bit a 63 = bit b 63")
    case True
    then show ?thesis
      by (auto simp: bit_xor_iff bit_or_iff bit63_diff)
  next
    case False
    then have "bit b 63 \<longleftrightarrow> a < b"
      unfolding bit63_iff word_less_alt by linarith
    with False show ?thesis
      by (auto simp: bit_xor_iff bit_or_iff)
  qed
  then show ?thesis
    by (simp add: constant_time_lt_w_def constant_time_msb_w_mask)
qed

lemma constant_time_ge_w_mask: "constant_time_ge_w a b = (if b \<le> a then -1 else 0)"
  by (auto simp: constant_time_ge_w_def constant_time_lt_w_mask)

lemma constant_time_is_zero_w_mask: "constant_time_is_zero_w a = (if a = 0 then -1 else 0)"
proof -
  have "bit (NOT a AND (a - 1)) 63 \<longleftrightarrow> a = 0"
  proof (cases "a = 0")
    case True
    then show ?thesis by (simp add: bit_and_iff)
  next
    case False
    then have "0 < uint a" "uint a < 2 ^ 64"
      using unsigned_less [of a, where ?'a = int] by (auto simp: less_le unsigned_eq_0_iff)
    then have "uint (a - 1) = uint a - 1"
      by (simp add: uint_word_ariths)
    then have "bit (a - 1) 63 \<Longrightarrow> bit a 63"
      unfolding bit63_iff by linarith
    with False show ?thesis
      by (auto simp: bit_and_iff bit_not_iff)
  qed
  then show ?thesis
    by (simp add: constant_time_is_zero_w_def constant_time_msb_w_mask)
qed

lemma constant_time_eq_w_mask: "constant_time_eq_w a b = (if a = b then -1 else 0)"
  by (simp add: constant_time_eq_w_def constant_time_is_zero_w_mask word_xor_eq_0)

lemma ucast_minus_1_u8 [simp]: "(ucast (- 1 :: u64) :: u8) = - 1"
  by (rule bit_word_eqI) (simp add: bit_simps)

lemma constant_time_eq_8_mask: "constant_time_eq_8 a b = (if a = b then -1 else 0)"
  by (simp add: constant_time_eq_8_def constant_time_eq_w_mask)

lemma constant_time_select_w_true: "constant_time_select_w (-1) a b = a"
  and constant_time_select_w_false: "constant_time_select_w 0 a b = b"
  by (simp_all add: constant_time_select_w_def value_barrier_w_def)

lemma ucast_select_bits:
  "ucast ((ucast (m :: u8) AND ucast (a :: u8)) OR (NOT (ucast m) AND ucast (b :: u8) :: u64))
    = (m AND a) OR (NOT m AND b)"
  by (rule bit_word_eqI) (auto simp: bit_simps)

lemma ucast_u64_u8 [simp]: "ucast (ucast (b :: u8) :: u64) = b"
  by (rule bit_word_eqI) (simp add: bit_simps)

lemma constant_time_select_8_true [simp]: "constant_time_select_8 (-1) a b = a"
  and constant_time_select_8_false [simp]: "constant_time_select_8 0 a b = b"
  by (simp_all add: constant_time_select_8_def constant_time_select_w_def value_barrier_w_def
      ucast_select_bits)

lemma constant_time_select_8_mask:
  "constant_time_select_8 (if p then -1 else 0) a b = (if p then a else b)"
  by simp

lemmas constant_time_masks =
  constant_time_lt_w_mask constant_time_ge_w_mask constant_time_is_zero_w_mask
  constant_time_eq_w_mask constant_time_eq_8_mask constant_time_select_8_mask

subsection \<open>Memory helpers\<close>

text \<open>
  \<open>CRYPTO_memcmp\<close> accumulates the differences of all byte pairs, so its running time does not
  depend on where they differ; the returned \<open>int\<close> is the accumulated byte.
\<close>

fun memcmp_acc :: "u8 \<Rightarrow> bytes \<Rightarrow> bytes \<Rightarrow> nat \<Rightarrow> u8" where
  "memcmp_acc x a b 0 = x"
| "memcmp_acc x a b (Suc n) = memcmp_acc (x OR (hd a XOR hd b)) (tl a) (tl b) n"

definition CRYPTO_memcmp :: "bytes \<Rightarrow> bytes \<Rightarrow> nat \<Rightarrow> u8" where
  "CRYPTO_memcmp a b n = memcmp_acc 0 a b n"

text \<open>\<open>OPENSSL_memcmp\<close> is C's \<open>memcmp\<close>: the sign of the first differing byte pair.\<close>

fun OPENSSL_memcmp :: "bytes \<Rightarrow> bytes \<Rightarrow> nat \<Rightarrow> int" where
  "OPENSSL_memcmp a b 0 = 0"
| "OPENSSL_memcmp a b (Suc n) =
     (if hd a < hd b then -1 else if hd b < hd a then 1 else OPENSSL_memcmp (tl a) (tl b) n)"

text \<open>\<open>OPENSSL_hash32\<close>: 32-bit FNV-1a.\<close>

fun hash32_loop :: "u32 \<Rightarrow> bytes \<Rightarrow> u32" where
  "hash32_loop h [] = h"
| "hash32_loop h (b # bs) = hash32_loop ((h XOR ucast b) * 16777619) bs"

definition OPENSSL_hash32 :: "bytes \<Rightarrow> u32" where
  "OPENSSL_hash32 bs = hash32_loop 2166136261 bs"

text \<open>\<open>OPENSSL_strnlen\<close> on the readable bytes \<open>s\<close>, of which at most \<open>n\<close> are inspected.\<close>

fun OPENSSL_strnlen :: "bytes \<Rightarrow> nat \<Rightarrow> nat" where
  "OPENSSL_strnlen s 0 = 0"
| "OPENSSL_strnlen [] (Suc n) = 0"
| "OPENSSL_strnlen (b # s) (Suc n) = (if b = 0 then 0 else Suc (OPENSSL_strnlen s n))"

definition OPENSSL_memdup :: "allocator \<Rightarrow> bytes \<Rightarrow> bytes option" where
  "OPENSSL_memdup al data =
     (if data = [] then None else if al (length data) then Some data else None)"

definition OPENSSL_strndup :: "allocator \<Rightarrow> bytes \<Rightarrow> nat \<Rightarrow> bytes option" where
  "OPENSSL_strndup al s sz =
     (let n = OPENSSL_strnlen s sz; alloc_size = (n + 1) mod size_lim
      in if alloc_size < n then None
         else if al alloc_size then Some (take n s @ [0]) else None)"

lemma memcmp_acc_zero:
  "n \<le> length a \<Longrightarrow> n \<le> length b \<Longrightarrow> memcmp_acc x a b n = 0 \<longleftrightarrow> x = 0 \<and> take n a = take n b"
proof (induction n arbitrary: x a b)
  case (Suc n)
  then obtain p a' q b' where [simp]: "a = p # a'" "b = q # b'"
    by (metis Suc_le_length_iff)
  have "x OR (p XOR q) = 0 \<longleftrightarrow> x = 0 \<and> p = q"
    by (simp add: word_or_eq_0 word_xor_eq_0)
  with Suc show ?case by simp
qed simp

lemma CRYPTO_memcmp_take:
  "n \<le> length a \<Longrightarrow> n \<le> length b \<Longrightarrow> CRYPTO_memcmp a b n = 0 \<longleftrightarrow> take n a = take n b"
  by (simp add: CRYPTO_memcmp_def memcmp_acc_zero)

lemma CRYPTO_memcmp_eq_0:
  "length a = n \<Longrightarrow> length b = n \<Longrightarrow> CRYPTO_memcmp a b n = 0 \<longleftrightarrow> a = b"
  by (simp add: CRYPTO_memcmp_take)

lemma OPENSSL_strnlen_takeWhile:
  "n \<le> length s \<Longrightarrow> OPENSSL_strnlen s n = length (takeWhile (\<lambda>b. b \<noteq> 0) (take n s))"
  by (induction s n rule: OPENSSL_strnlen.induct) auto

end
