(* ===== verification/Cbs.thy ===== *)
theory Cbs
  imports Const_Time
begin

text \<open>
  \<open>crypto/bytestring/cbs.c\<close>: the cursor \<open>CBS\<close> over a read-only byte string and the functions
  that take integers, length-prefixed strings and DER elements from its front.

  A \<open>CBS\<close> is a pointer into a constant buffer and a length; the model is the list of the bytes
  it spans. A reader takes the cursor and returns its result, \<open>None\<close> where the C function
  returns 0, together with the cursor as the call leaves it, which for several functions has
  moved although the call failed. Out-parameters of a failed call are not part of the result:
  no caller reads them.
\<close>

unbundle bit_operations_syntax

type_synonym cbs = bytes
type_synonym 'a reader = "cbs \<Rightarrow> 'a option \<times> cbs"

subsection \<open>Fixed-size reads\<close>

definition CBS_init :: "bytes \<Rightarrow> nat \<Rightarrow> cbs" where
  "CBS_init data n = take n data"

definition cbs_get :: "nat \<Rightarrow> bytes reader" where
  [reader_defs]: "cbs_get n cbs =
     (if length cbs < n then (None, cbs) else (Some (take n cbs), drop n cbs))"

definition CBS_skip :: "nat \<Rightarrow> unit reader" where
  [reader_defs]: "CBS_skip n cbs =
     (case cbs_get n cbs of (None, c) \<Rightarrow> (None, c) | (Some _, c) \<Rightarrow> (Some (), c))"

definition CBS_data :: "cbs \<Rightarrow> bytes" where
  "CBS_data cbs = cbs"

definition CBS_len :: "cbs \<Rightarrow> nat" where
  "CBS_len cbs = length cbs"

text \<open>The copy \<open>CBS_stow\<close> makes: \<open>None\<close> on allocation failure, an absent buffer when empty.\<close>

definition CBS_stow :: "allocator \<Rightarrow> cbs \<Rightarrow> (bytes option \<times> nat) option" where
  "CBS_stow al cbs =
     (if CBS_len cbs = 0 then Some (None, 0)
      else case OPENSSL_memdup al (CBS_data cbs) of
             None \<Rightarrow> None
           | Some p \<Rightarrow> Some (Some p, CBS_len cbs))"

definition CBS_strdup :: "allocator \<Rightarrow> cbs \<Rightarrow> bytes option" where
  "CBS_strdup al cbs = OPENSSL_strndup al (CBS_data cbs) (CBS_len cbs)"

definition CBS_contains_zero_byte :: "cbs \<Rightarrow> bool" where
  "CBS_contains_zero_byte cbs = (0 \<in> set (CBS_data cbs))"

definition CBS_mem_equal :: "cbs \<Rightarrow> bytes \<Rightarrow> bool" where
  "CBS_mem_equal cbs data =
     (if length data \<noteq> CBS_len cbs then False
      else CRYPTO_memcmp (CBS_data cbs) data (length data) = 0)"

text \<open>The accumulation loop of \<open>cbs_get_u\<close>.\<close>

fun get_u_loop :: "u64 \<Rightarrow> bytes \<Rightarrow> u64" where
  "get_u_loop result [] = result"
| "get_u_loop result (b # data) = get_u_loop (push_bit 8 result OR ucast b) data"

definition cbs_get_u :: "nat \<Rightarrow> u64 reader" where
  [reader_defs]: "cbs_get_u n cbs =
     (case cbs_get n cbs of
        (None, c) \<Rightarrow> (None, c)
      | (Some data, c) \<Rightarrow> (Some (get_u_loop 0 data), c))"

definition CBS_get_u8 :: "u8 reader" where
  [reader_defs]: "CBS_get_u8 cbs =
     (case cbs_get 1 cbs of (None, c) \<Rightarrow> (None, c) | (Some v, c) \<Rightarrow> (Some (hd v), c))"

definition CBS_get_u16 :: "u16 reader" where
  [reader_defs]: "CBS_get_u16 cbs =
     (case cbs_get_u 2 cbs of (None, c) \<Rightarrow> (None, c) | (Some v, c) \<Rightarrow> (Some (ucast v), c))"

definition CRYPTO_bswap2 :: "u16 \<Rightarrow> u16" where
  "CRYPTO_bswap2 x = drop_bit 8 x OR push_bit 8 x"

definition CRYPTO_bswap4 :: "u32 \<Rightarrow> u32" where
  "CRYPTO_bswap4 x0 =
     (let x = drop_bit 16 x0 OR push_bit 16 x0
      in drop_bit 8 (x AND 0xff00ff00) OR push_bit 8 (x AND 0x00ff00ff))"

definition CRYPTO_bswap8 :: "u64 \<Rightarrow> u64" where
  "CRYPTO_bswap8 x =
     ucast (CRYPTO_bswap4 (ucast (drop_bit 32 x))) OR push_bit 32 (ucast (CRYPTO_bswap4 (ucast x)))"

definition CBS_get_u16le :: "u16 reader" where
  [reader_defs]: "CBS_get_u16le cbs =
     (case CBS_get_u16 cbs of (None, c) \<Rightarrow> (None, c) | (Some v, c) \<Rightarrow> (Some (CRYPTO_bswap2 v), c))"

definition CBS_get_u24 :: "u32 reader" where
  [reader_defs]: "CBS_get_u24 cbs =
     (case cbs_get_u 3 cbs of (None, c) \<Rightarrow> (None, c) | (Some v, c) \<Rightarrow> (Some (ucast v), c))"

definition CBS_get_u32 :: "u32 reader" where
  [reader_defs]: "CBS_get_u32 cbs =
     (case cbs_get_u 4 cbs of (None, c) \<Rightarrow> (None, c) | (Some v, c) \<Rightarrow> (Some (ucast v), c))"

definition CBS_get_u32le :: "u32 reader" where
  [reader_defs]: "CBS_get_u32le cbs =
     (case CBS_get_u32 cbs of (None, c) \<Rightarrow> (None, c) | (Some v, c) \<Rightarrow> (Some (CRYPTO_bswap4 v), c))"

definition CBS_get_u64 :: "u64 reader" where
  [reader_defs]: "CBS_get_u64 cbs = cbs_get_u 8 cbs"

definition CBS_get_u64le :: "u64 reader" where
  [reader_defs]: "CBS_get_u64le cbs =
     (case cbs_get_u 8 cbs of (None, c) \<Rightarrow> (None, c) | (Some v, c) \<Rightarrow> (Some (CRYPTO_bswap8 v), c))"

definition CBS_get_last_u8 :: "u8 reader" where
  [reader_defs]: "CBS_get_last_u8 cbs =
     (if CBS_len cbs = 0 then (None, cbs) else (Some (last cbs), butlast cbs))"

definition CBS_get_bytes :: "nat \<Rightarrow> cbs reader" where
  [reader_defs]: "CBS_get_bytes n cbs =
     (case cbs_get n cbs of (None, c) \<Rightarrow> (None, c) | (Some v, c) \<Rightarrow> (Some (CBS_init v n), c))"

definition CBS_copy_bytes :: "nat \<Rightarrow> bytes reader" where
  [reader_defs]: "CBS_copy_bytes n cbs =
     (case cbs_get n cbs of (None, c) \<Rightarrow> (None, c) | (Some v, c) \<Rightarrow> (Some v, c))"

definition cbs_get_length_prefixed :: "nat \<Rightarrow> cbs reader" where
  [reader_defs]: "cbs_get_length_prefixed len_len cbs =
     (case cbs_get_u len_len cbs of
        (None, c) \<Rightarrow> (None, c)
      | (Some n, c) \<Rightarrow> CBS_get_bytes (unat n) c)"

definition CBS_get_u8_length_prefixed :: "cbs reader" where
  [reader_defs]: "CBS_get_u8_length_prefixed cbs = cbs_get_length_prefixed 1 cbs"

definition CBS_get_u16_length_prefixed :: "cbs reader" where
  [reader_defs]: "CBS_get_u16_length_prefixed cbs = cbs_get_length_prefixed 2 cbs"

definition CBS_get_u24_length_prefixed :: "cbs reader" where
  [reader_defs]: "CBS_get_u24_length_prefixed cbs = cbs_get_length_prefixed 3 cbs"

subsection \<open>Tags and DER elements\<close>

text \<open>
  The loop of \<open>parse_base128_integer\<close>; the pattern match on the cursor is its
  \<open>CBS_get_u8\<close>, as \<open>base128_loop_step\<close> shows.
\<close>

fun base128_loop :: "u64 \<Rightarrow> u64 reader" where
  "base128_loop v [] = (None, [])"
| "base128_loop v (b # c) =
     (if drop_bit (64 - 7) v \<noteq> 0 then (None, c)
      else if v = 0 \<and> b = 0x80 then (None, c)
      else let v' = push_bit 7 v OR ucast (b AND 0x7f)
           in if b AND 0x80 \<noteq> 0 then base128_loop v' c else (Some v', c))"

definition parse_base128_integer :: "u64 reader" where
  "parse_base128_integer cbs = base128_loop 0 cbs"

abbreviation CBS_ASN1_TAG_SHIFT :: nat where "CBS_ASN1_TAG_SHIFT \<equiv> 24"
abbreviation CBS_ASN1_CONSTRUCTED :: u32 where "CBS_ASN1_CONSTRUCTED \<equiv> 0x20000000"
abbreviation CBS_ASN1_TAG_NUMBER_MASK :: u32 where "CBS_ASN1_TAG_NUMBER_MASK \<equiv> 0x1fffffff"
abbreviation CBS_ASN1_BOOLEAN :: u32 where "CBS_ASN1_BOOLEAN \<equiv> 0x1"
abbreviation CBS_ASN1_INTEGER :: u32 where "CBS_ASN1_INTEGER \<equiv> 0x2"
abbreviation CBS_ASN1_BITSTRING :: u32 where "CBS_ASN1_BITSTRING \<equiv> 0x3"
abbreviation CBS_ASN1_OCTETSTRING :: u32 where "CBS_ASN1_OCTETSTRING \<equiv> 0x4"

definition parse_asn1_tag :: "u32 reader" where
  "parse_asn1_tag cbs =
     (case CBS_get_u8 cbs of
        (None, c) \<Rightarrow> (None, c)
      | (Some tag_byte, c) \<Rightarrow>
          let tag = push_bit CBS_ASN1_TAG_SHIFT (ucast tag_byte AND 0xe0 :: u32);
              tag_number = ucast (tag_byte AND 0x1f) :: u32
          in if tag_number = 0x1f then
               (case parse_base128_integer c of
                  (None, c') \<Rightarrow> (None, c')
                | (Some v, c') \<Rightarrow>
                    if v > ucast CBS_ASN1_TAG_NUMBER_MASK \<or> v < 0x1f then (None, c')
                    else (Some (tag OR ucast v), c'))
             else (Some (tag OR tag_number), c))"

text \<open>
  The result is the element with its header, the tag and the length of the header. The header
  is read through a copy of the cursor, so a failure leaves the cursor where it was.
  \<open>take_element\<close> is the final \<open>return CBS_get_bytes(cbs, out, len)\<close>, with the values the
  out-parameters have by then.
\<close>

definition take_element :: "nat \<Rightarrow> u32 \<Rightarrow> nat \<Rightarrow> (cbs \<times> u32 \<times> nat) reader" where
  "take_element len out_tag out_header_len cbs =
     (case CBS_get_bytes len cbs of
        (None, c) \<Rightarrow> (None, c)
      | (Some out, c) \<Rightarrow> (Some (out, out_tag, out_header_len), c))"

definition cbs_get_any_asn1_element :: "bool \<Rightarrow> (cbs \<times> u32 \<times> nat) reader" where
  "cbs_get_any_asn1_element ber_ok cbs =
     (case parse_asn1_tag cbs of
        (None, _) \<Rightarrow> (None, cbs)
      | (Some tag, header) \<Rightarrow>
     (case CBS_get_u8 header of
        (None, _) \<Rightarrow> (None, cbs)
      | (Some length_byte, header) \<Rightarrow>
     (let header_len = CBS_len cbs - CBS_len header
      in if length_byte AND 0x80 = 0
         then take_element (unat length_byte + header_len) tag header_len cbs
         else
           let num_bytes = unat (length_byte AND 0x7f)
           in if ber_ok \<and> tag AND CBS_ASN1_CONSTRUCTED \<noteq> 0 \<and> num_bytes = 0
              then take_element header_len tag header_len cbs
              else if num_bytes = 0 \<or> num_bytes > 4 then (None, cbs)
              else case cbs_get_u num_bytes header of
                (None, _) \<Rightarrow> (None, cbs)
              | (Some len64, _) \<Rightarrow>
                  if len64 < 128 then (None, cbs)
                  else if drop_bit ((num_bytes - 1) * 8) len64 = 0 then (None, cbs)
                  else if len64 + of_nat header_len + of_nat num_bytes < len64 then (None, cbs)
                  else take_element (unat (len64 + (of_nat header_len + of_nat num_bytes)))
                         tag (header_len + num_bytes) cbs)))"

definition CBS_get_any_asn1_element :: "(cbs \<times> u32 \<times> nat) reader" where
  "CBS_get_any_asn1_element cbs = cbs_get_any_asn1_element False cbs"

definition CBS_get_any_ber_asn1_element :: "(cbs \<times> u32 \<times> nat) reader" where
  "CBS_get_any_ber_asn1_element cbs = cbs_get_any_asn1_element True cbs"

definition CBS_get_any_asn1 :: "(cbs \<times> u32) reader" where
  "CBS_get_any_asn1 cbs =
     (case CBS_get_any_asn1_element cbs of
        (None, c) \<Rightarrow> (None, c)
      | (Some (out, tag, header_len), c) \<Rightarrow>
          (case CBS_skip header_len out of
             (None, _) \<Rightarrow> (None, c)
           | (Some _, out') \<Rightarrow> (Some (out', tag), c)))"

definition cbs_get_asn1 :: "u32 \<Rightarrow> bool \<Rightarrow> cbs reader" where
  "cbs_get_asn1 tag_value skip_header cbs =
     (case CBS_get_any_asn1_element cbs of
        (None, c) \<Rightarrow> (None, c)
      | (Some (out, tag, header_len), c) \<Rightarrow>
          if tag \<noteq> tag_value then (None, c)
          else if skip_header then
            (case CBS_skip header_len out of
               (None, _) \<Rightarrow> (None, c)
             | (Some _, out') \<Rightarrow> (Some out', c))
          else (Some out, c))"

definition CBS_get_asn1 :: "u32 \<Rightarrow> cbs reader" where
  "CBS_get_asn1 tag_value cbs = cbs_get_asn1 tag_value True cbs"

definition CBS_get_asn1_element :: "u32 \<Rightarrow> cbs reader" where
  "CBS_get_asn1_element tag_value cbs = cbs_get_asn1 tag_value False cbs"

definition CBS_peek_asn1_tag :: "cbs \<Rightarrow> u32 \<Rightarrow> bool" where
  "CBS_peek_asn1_tag cbs tag_value =
     (if CBS_len cbs < 1 then False
      else case parse_asn1_tag cbs of
             (None, _) \<Rightarrow> False
           | (Some actual_tag, _) \<Rightarrow> tag_value = actual_tag)"

subsection \<open>DER integers and booleans\<close>

fun asn1_uint64_loop :: "u64 \<Rightarrow> bytes \<Rightarrow> u64 option" where
  "asn1_uint64_loop out [] = Some out"
| "asn1_uint64_loop out (b # data) =
     (if drop_bit 56 out \<noteq> 0 then None
      else asn1_uint64_loop (push_bit 8 out OR ucast b) data)"

definition CBS_get_asn1_uint64 :: "u64 reader" where
  "CBS_get_asn1_uint64 cbs =
     (case CBS_get_asn1 CBS_ASN1_INTEGER cbs of
        (None, c) \<Rightarrow> (None, c)
      | (Some data, c) \<Rightarrow>
          if CBS_len data = 0 then (None, c)
          else if data ! 0 AND 0x80 \<noteq> 0 then (None, c)
          else if data ! 0 = 0 \<and> CBS_len data > 1 \<and> data ! 1 AND 0x80 = 0 then (None, c)
          else (asn1_uint64_loop 0 data, c))"

text \<open>
  \<open>CBS_get_asn1_int64\<close> fills the eight bytes of a little-endian \<open>int64_t\<close>: the contents
  reversed, then the sign. The result is the bit pattern, read as signed by \<open>sint\<close>.
\<close>

definition CBS_get_asn1_int64 :: "u64 reader" where
  "CBS_get_asn1_int64 cbs =
     (case CBS_get_asn1 CBS_ASN1_INTEGER cbs of
        (None, c) \<Rightarrow> (None, c)
      | (Some data, c) \<Rightarrow>
          let len = CBS_len data in
          if len = 0 \<or> len > 8 then (None, c)
          else if len > 1 \<and> data ! 0 = 0 \<and> data ! 1 AND 0x80 = 0 then (None, c)
          else if len > 1 \<and> data ! 0 = 0xff \<and> data ! 1 AND 0x80 \<noteq> 0 then (None, c)
          else let is_negative = data ! 0 AND 0x80 \<noteq> 0;
                   sx = replicate 8 (if is_negative then 0xff else 0);
                   u = rev data @ drop len sx
               in (Some (of_nat (le_val u)), c))"

definition CBS_get_asn1_bool :: "bool reader" where
  "CBS_get_asn1_bool cbs =
     (case CBS_get_asn1 CBS_ASN1_BOOLEAN cbs of
        (None, c) \<Rightarrow> (None, c)
      | (Some data, c) \<Rightarrow>
          if CBS_len data \<noteq> 1 then (None, c)
          else let v = data ! 0
               in if v \<noteq> 0 \<and> v \<noteq> 0xff then (None, c) else (Some (v \<noteq> 0), c))"

subsection \<open>Optional elements\<close>

text \<open>\<open>Some None\<close> is success with \<open>*out_present\<close> false.\<close>

definition CBS_get_optional_asn1 :: "u32 \<Rightarrow> cbs option reader" where
  "CBS_get_optional_asn1 tag cbs =
     (if CBS_peek_asn1_tag cbs tag then
        (case CBS_get_asn1 tag cbs of
           (None, c) \<Rightarrow> (None, c)
         | (Some out, c) \<Rightarrow> (Some (Some out), c))
      else (Some None, cbs))"

definition CBS_get_optional_asn1_octet_string :: "u32 \<Rightarrow> (cbs \<times> bool) reader" where
  "CBS_get_optional_asn1_octet_string tag cbs =
     (case CBS_get_optional_asn1 tag cbs of
        (None, c) \<Rightarrow> (None, c)
      | (Some (Some child), c) \<Rightarrow>
          (case CBS_get_asn1 CBS_ASN1_OCTETSTRING child of
             (None, _) \<Rightarrow> (None, c)
           | (Some out, child') \<Rightarrow>
               if CBS_len child' \<noteq> 0 then (None, c) else (Some (out, True), c))
      | (Some None, c) \<Rightarrow> (Some (CBS_init [] 0, False), c))"

definition CBS_get_optional_asn1_uint64 :: "u32 \<Rightarrow> u64 \<Rightarrow> u64 reader" where
  "CBS_get_optional_asn1_uint64 tag default_value cbs =
     (case CBS_get_optional_asn1 tag cbs of
        (None, c) \<Rightarrow> (None, c)
      | (Some (Some child), c) \<Rightarrow>
          (case CBS_get_asn1_uint64 child of
             (None, _) \<Rightarrow> (None, c)
           | (Some out, child') \<Rightarrow>
               if CBS_len child' \<noteq> 0 then (None, c) else (Some out, c))
      | (Some None, c) \<Rightarrow> (Some default_value, c))"

definition CBS_get_optional_asn1_bool :: "u32 \<Rightarrow> int \<Rightarrow> int reader" where
  "CBS_get_optional_asn1_bool tag default_value cbs =
     (case CBS_get_optional_asn1 tag cbs of
        (None, c) \<Rightarrow> (None, c)
      | (Some (Some child), c) \<Rightarrow>
          (case CBS_get_asn1 CBS_ASN1_BOOLEAN child of
             (None, _) \<Rightarrow> (None, c)
           | (Some child2, child') \<Rightarrow>
               if CBS_len child2 \<noteq> 1 \<or> CBS_len child' \<noteq> 0 then (None, c)
               else let boolean = child2 ! 0
                    in if boolean = 0 then (Some 0, c)
                       else if boolean = 0xff then (Some 1, c)
                       else (None, c))
      | (Some None, c) \<Rightarrow> (Some default_value, c))"

subsection \<open>Bit strings\<close>

definition CBS_is_valid_asn1_bitstring :: "cbs \<Rightarrow> bool" where
  "CBS_is_valid_asn1_bitstring cbs =
     (case CBS_get_u8 cbs of
        (None, _) \<Rightarrow> False
      | (Some num_unused_bits, c) \<Rightarrow>
          if num_unused_bits > 7 then False
          else if num_unused_bits = 0 then True
          else (case CBS_get_last_u8 c of
                  (None, _) \<Rightarrow> False
                | (Some lst, _) \<Rightarrow>
                    ucast lst AND (push_bit (unat num_unused_bits) 1 - 1 :: u32) = 0))"

definition CBS_asn1_bitstring_has_bit :: "cbs \<Rightarrow> u32 \<Rightarrow> bool" where
  "CBS_asn1_bitstring_has_bit cbs b =
     (if \<not> CBS_is_valid_asn1_bitstring cbs then False
      else let byte_num = drop_bit 3 b + 1; bit_num = 7 - (b AND 7)
           in unat byte_num < CBS_len cbs \<and>
              ucast (CBS_data cbs ! unat byte_num) AND (push_bit (unat bit_num) 1 :: u32) \<noteq> 0)"

end
