(* ===== verification/Codec.thy ===== *)
theory Codec
  imports Prelude
begin

text \<open>
  The contract between a writer and the reader that inverts it, as two locales, and what
  follows from the contract alone: unique parsing, prefix freedom, and the correctness of the
  loop that reads items until the cursor is empty. Every pair of a reader and a writer of the
  development (DER elements, base-128 integers, length-prefixed strings, UTF-8 code points)
  is an interpretation, so its sequences are covered by the lemmas here.
\<close>

text \<open>
  The loop \<open>while (CBS_len(&cbs) != 0) read one item\<close>; the fuel bounds the number of items,
  and the length of the input is always enough for a reader that makes progress.
\<close>

fun read_all :: "nat \<Rightarrow> (bytes \<Rightarrow> 'a option \<times> bytes) \<Rightarrow> bytes \<Rightarrow> 'a list option" where
  "read_all n dec [] = Some []"
| "read_all 0 dec (b # bs) = None"
| "read_all (Suc n) dec (b # bs) =
     (case dec (b # bs) of
        (None, _) \<Rightarrow> None
      | (Some x, r) \<Rightarrow> map_option (Cons x) (read_all n dec r))"

locale prefix_code =
  fixes enc :: "'a \<Rightarrow> bytes"
    and dec :: "bytes \<Rightarrow> 'a option \<times> bytes"
    and ok :: "'a \<Rightarrow> bool"
  assumes dec_enc: "ok x \<Longrightarrow> dec (enc x @ r) = (Some x, r)"
    and enc_nonempty: "ok x \<Longrightarrow> enc x \<noteq> []"
begin

lemma enc_append_inject:
  "ok x \<Longrightarrow> ok y \<Longrightarrow> enc x @ r = enc y @ s \<Longrightarrow> x = y \<and> r = s"
  by (metis dec_enc option.inject prod.inject)

lemma enc_inject: "ok x \<Longrightarrow> ok y \<Longrightarrow> enc x = enc y \<Longrightarrow> x = y"
  using enc_append_inject [of x y "[]" "[]"] by simp

text \<open>No encoding is a proper prefix of another.\<close>

lemma enc_prefix_free: "ok x \<Longrightarrow> ok y \<Longrightarrow> enc y = enc x @ r \<Longrightarrow> r = [] \<and> x = y"
  using enc_append_inject [of x y r "[]"] by simp

lemma read_all_enc:
  "(\<And>x. x \<in> set xs \<Longrightarrow> ok x) \<Longrightarrow> length (concat (map enc xs)) \<le> n \<Longrightarrow>
    read_all n dec (concat (map enc xs)) = Some xs"
proof (induction xs arbitrary: n)
  case Nil
  then show ?case by simp
next
  case (Cons x xs)
  then have ok: "ok x" by simp
  then obtain b bs where e: "enc x = b # bs"
    using enc_nonempty by (cases "enc x") auto
  with Cons.prems obtain m where n: "n = Suc m" and m: "length (concat (map enc xs)) \<le> m"
    by (cases n) auto
  have "read_all m dec (concat (map enc xs)) = Some xs"
    using Cons.prems m by (intro Cons.IH) auto
  then show ?case
    using dec_enc [OF ok, of "concat (map enc xs)"] by (simp add: e n)
qed

end

text \<open>A canonical code: the reader accepts nothing but what the writer produces.\<close>

locale canonical_code = prefix_code +
  assumes enc_dec: "dec bs = (Some x, r) \<Longrightarrow> ok x \<and> bs = enc x @ r"
begin

lemma dec_iff: "dec bs = (Some x, r) \<longleftrightarrow> ok x \<and> bs = enc x @ r"
  using dec_enc enc_dec by metis

lemma dec_consumes: "dec bs = (Some x, r) \<Longrightarrow> length r < length bs"
  using enc_dec [of bs x r] enc_nonempty [of x] by auto

lemma read_all_sound:
  "read_all n dec bs = Some xs \<Longrightarrow> bs = concat (map enc xs) \<and> (\<forall>x\<in>set xs. ok x)"
proof (induction n arbitrary: bs xs)
  case 0
  then show ?case by (cases bs) auto
next
  case (Suc n)
  show ?case
  proof (cases bs)
    case Nil
    with Suc.prems show ?thesis by simp
  next
    case (Cons b bs')
    with Suc.prems obtain x r ys where d: "dec bs = (Some x, r)"
      and r: "read_all n dec r = Some ys" and xs: "xs = x # ys"
      by (auto split: prod.splits option.splits)
    from Suc.IH [OF r] enc_dec [OF d] xs show ?thesis
      by auto
  qed
qed

lemma read_all_iff:
  "read_all (length bs) dec bs = Some xs \<longleftrightarrow> bs = concat (map enc xs) \<and> (\<forall>x\<in>set xs. ok x)"
  using read_all_sound read_all_enc [of xs "length bs"] by blast

lemma read_all_unique:
  "concat (map enc xs) = concat (map enc ys) \<Longrightarrow> (\<And>x. x \<in> set xs \<Longrightarrow> ok x) \<Longrightarrow>
    (\<And>x. x \<in> set ys \<Longrightarrow> ok x) \<Longrightarrow> xs = ys"
  by (metis option.inject order_refl read_all_enc)

end

end
