(* ===== verification/Der.thy ===== *)
theory Der
  imports Cbs Codec
begin

text \<open>
  What \<open>cbs.c\<close> accepts: the distinguished encoding rules as functions from values to bytes
  (base-128 integers, tags, lengths, elements), and the proof that the readers of \<open>Cbs\<close>
  accept exactly these encodings and return the values they encode.
\<close>

unbundle bit_operations_syntax

subsection \<open>Fixed-size reads return big-endian values\<close>

lemma cbs_get_append [simp]: "length xs = n \<Longrightarrow> cbs_get n (xs @ ys) = (Some xs, ys)"
  by (simp add: cbs_get_def)

lemma cbs_get_short [simp]: "length cbs < n \<Longrightarrow> cbs_get n cbs = (None, cbs)"
  by (simp add: cbs_get_def)

lemma cbs_get_iff: "cbs_get n cbs = (Some xs, r) \<longleftrightarrow> length xs = n \<and> cbs = xs @ r"
  by (auto simp: cbs_get_def not_less split: if_splits)

lemma cbs_get_fails: "cbs_get n cbs = (None, c) \<longleftrightarrow> length cbs < n \<and> c = cbs"
  by (auto simp: cbs_get_def)

lemma get_u_loop_val:
  "length bs + k \<le> 8 \<Longrightarrow> unat acc < 256 ^ k \<Longrightarrow>
    unat (get_u_loop acc bs) = unat acc * 256 ^ length bs + be_val bs"
proof (induction acc bs arbitrary: k rule: get_u_loop.induct)
  case (2 acc b bs)
  then have "unat acc < 256 ^ 7"
    by (intro less_le_trans [OF "2.prems"(2) power_increasing]) auto
  then have step: "unat (push_bit 8 acc OR ucast b) = unat acc * 256 + unat b"
    by (simp add: unat_push_bit_or unat_ucast_up)
  have "unat acc * 256 + unat b < 256 ^ Suc k"
    using "2.prems"(2) unat_u8_bound [of b] unfolding power_Suc by linarith
  with "2.IH" [of "Suc k"] "2.prems"(1) step show ?case
    by (simp add: be_val_Cons algebra_simps)
qed simp

lemma get_u_loop_be_val: "length bs \<le> 8 \<Longrightarrow> unat (get_u_loop 0 bs) = be_val bs"
  using get_u_loop_val [of bs 0 0] by simp

lemma cbs_get_u_iff:
  assumes n: "n \<le> 8"
  shows "cbs_get_u n cbs = (Some v, r) \<longleftrightarrow> cbs = be_bytes n (unat v) @ r \<and> unat v < 256 ^ n"
proof
  assume "cbs_get_u n cbs = (Some v, r)"
  then obtain xs where xs: "length xs = n" "cbs = xs @ r" "v = get_u_loop 0 xs"
    by (auto simp: cbs_get_u_def cbs_get_iff split: prod.splits option.splits)
  then have "unat v = be_val xs"
    using n by (simp add: get_u_loop_be_val)
  with xs show "cbs = be_bytes n (unat v) @ r \<and> unat v < 256 ^ n"
    using be_bytes_be_val [of xs] be_val_bound [of xs] by simp
next
  assume r: "cbs = be_bytes n (unat v) @ r \<and> unat v < 256 ^ n"
  then have "unat (get_u_loop 0 (be_bytes n (unat v))) = unat v"
    using n by (simp add: get_u_loop_be_val be_val_be_bytes_id)
  then have "get_u_loop 0 (be_bytes n (unat v)) = v"
    by (simp only: word_unat_eq_iff)
  with r show "cbs_get_u n cbs = (Some v, r)"
    by (simp add: cbs_get_u_def)
qed

lemma CBS_get_u8_Cons [simp]: "CBS_get_u8 (b # c) = (Some b, c)"
  by (simp add: CBS_get_u8_def cbs_get_def)

lemma CBS_get_u8_Nil [simp]: "CBS_get_u8 [] = (None, [])"
  by (simp add: CBS_get_u8_def cbs_get_def)

lemma CBS_get_u8_iff: "CBS_get_u8 cbs = (Some b, c) \<longleftrightarrow> cbs = b # c"
  by (cases cbs) auto

lemma base128_loop_step:
  "base128_loop v cbs =
     (case CBS_get_u8 cbs of
        (None, c) \<Rightarrow> (None, c)
      | (Some b, c) \<Rightarrow>
          if drop_bit (64 - 7) v \<noteq> 0 then (None, c)
          else if v = 0 \<and> b = 0x80 then (None, c)
          else let v' = push_bit 7 v OR ucast (b AND 0x7f)
               in if b AND 0x80 \<noteq> 0 then base128_loop v' c else (Some v', c))"
  by (cases cbs) auto

lemma CBS_get_bytes_iff: "CBS_get_bytes n cbs = (Some out, r) \<longleftrightarrow> length out = n \<and> cbs = out @ r"
  by (auto simp: CBS_get_bytes_def CBS_init_def cbs_get_iff cbs_get_def split: if_splits)

lemma CBS_get_bytes_append: "length out = n \<Longrightarrow> CBS_get_bytes n (out @ r) = (Some out, r)"
  by (simp add: CBS_get_bytes_iff)

lemma CBS_get_bytes_fails: "CBS_get_bytes n cbs = (None, c) \<longleftrightarrow> length cbs < n \<and> c = cbs"
  by (auto simp: CBS_get_bytes_def cbs_get_def)

lemma CBS_skip_iff: "CBS_skip n cbs = (Some u, r) \<longleftrightarrow> n \<le> length cbs \<and> r = drop n cbs"
  by (auto simp: CBS_skip_def cbs_get_def)

subsection \<open>Base-128 integers\<close>

fun base128_hi :: "nat \<Rightarrow> bytes" where
  "base128_hi n =
     (if n = 0 then [] else base128_hi (n div 128) @ [word_of_nat (n mod 128) OR 0x80])"

declare base128_hi.simps [simp del]

definition base128_bytes :: "nat \<Rightarrow> bytes" where
  "base128_bytes n = base128_hi (n div 128) @ [word_of_nat (n mod 128)]"

lemma base128_hi_0 [simp]: "base128_hi 0 = []"
  by (simp add: base128_hi.simps)

lemma base128_bytes_nonempty [simp]: "base128_bytes n \<noteq> []"
  by (simp add: base128_bytes_def)

lemma u8_mask7: "(0x7f :: u8) = mask 7" and u8_mask5: "(0x1f :: u8) = mask 5"
  by (simp_all add: mask_eq_exp_minus_1)

lemma u8_bit7: "bit (b :: u8) 7 \<longleftrightarrow> 128 \<le> unat b"
proof -
  have "bit b 7 \<longleftrightarrow> bit (unat b) 7"
    by (simp add: bit_unsigned_iff)
  also have "\<dots> \<longleftrightarrow> odd (unat b div 128)"
    by (simp add: bit_iff_odd)
  also have "\<dots> \<longleftrightarrow> 128 \<le> unat b"
  proof (cases "unat b < 128")
    case False
    then have "unat b - 128 < 128" using unat_u8_bound [of b] by linarith
    with False show ?thesis using le_div_geq [of 128 "unat b"] by simp
  qed simp
  finally show ?thesis .
qed

lemma u8_high_mod: "128 \<le> unat (b :: u8) \<Longrightarrow> unat b = unat b mod 128 + 128"
proof -
  assume "128 \<le> unat b"
  moreover from this have "unat b - 128 < 128" using unat_u8_bound [of b] by linarith
  ultimately show ?thesis using le_mod_geq [of 128 "unat b"] by simp
qed

lemma and_0x80_iff: "(b :: u8) AND 0x80 = 0 \<longleftrightarrow> unat b < 128"
  using and_exp_eq_0_iff_not_bit [of b 7] by (simp add: u8_bit7 not_le)

lemma unat_and_0x7f: "unat ((b :: u8) AND 0x7f) = unat b mod 128"
  using unat_and_mask [of b 7] by (simp add: u8_mask7)

lemma unat_or_0x80: "v < 128 \<Longrightarrow> unat (word_of_nat v OR 0x80 :: u8) = v + 128"
  using unat_push_bit_or [of "1 :: u8" 7 "word_of_nat v"]
  by (simp add: or.commute)

text \<open>One digit of the loop, as arithmetic.\<close>

lemma base128_loop_digit:
  assumes "unat v < 2 ^ 57"
  shows "unat (push_bit 7 v OR ucast ((b :: u8) AND 0x7f) :: u64) = unat v * 128 + unat b mod 128"
  using assms unat_push_bit_or [of v 7 "ucast (b AND 0x7f)"]
  by (simp add: unat_ucast_up unat_and_0x7f)

lemma base128_hi_snoc:
  "v * 128 + unat b mod 128 \<noteq> 0 \<Longrightarrow> 128 \<le> unat b \<Longrightarrow>
    base128_hi (v * 128 + unat b mod 128) = base128_hi v @ [b]"
proof -
  assume nz: "v * 128 + unat b mod 128 \<noteq> 0" and b: "128 \<le> unat b"
  have "word_of_nat (unat b mod 128) OR 0x80 = b"
    by (rule word_unat_eq_iff [THEN iffD2])
       (use u8_high_mod [OF b] in \<open>simp add: unat_or_0x80\<close>)
  with nz show ?thesis
    by (simp add: base128_hi.simps [of "v * 128 + unat b mod 128"])
qed

lemma base128_bytes_snoc:
  "unat b < 128 \<Longrightarrow> base128_bytes (v * 128 + unat b) = base128_hi v @ [b]"
  by (simp add: base128_bytes_def)

lemma base128_loop_sound:
  "base128_loop v cbs = (Some w, r) \<Longrightarrow>
    \<exists>bs. cbs = bs @ r \<and> base128_hi (unat v) @ bs = base128_bytes (unat w)"
proof (induction v cbs rule: base128_loop.induct)
  case (2 v b c)
  let ?v = "push_bit 7 v OR ucast (b AND 0x7f) :: u64"
  from "2.prems" have small: "unat v < 2 ^ 57" and b: "v = 0 \<Longrightarrow> b \<noteq> 0x80"
    by (auto simp: drop_bit_eq_0_iff split: if_splits)
  note digit = base128_loop_digit [OF small, of b]
  show ?case
  proof (cases "b AND 0x80 = 0")
    case True
    with "2.prems" have "w = ?v" "r = c"
      by (auto simp: Let_def split: if_splits)
    moreover have "unat b < 128"
      using True by (simp add: and_0x80_iff)
    ultimately show ?thesis
      using digit base128_bytes_snoc [of b "unat v"] by (auto intro!: exI [of _ "[b]"])
  next
    case False
    then have big: "128 \<le> unat b"
      by (simp add: and_0x80_iff)
    have "unat v * 128 + unat b mod 128 \<noteq> 0"
    proof
      assume z: "unat v * 128 + unat b mod 128 = 0"
      then have "v = 0" by (simp add: unsigned_eq_0_iff)
      moreover have "unat b = 128"
        using z u8_high_mod [OF big] by simp
      ultimately show False
        using b by (simp add: word_unat_eq_iff)
    qed
    note hi = base128_hi_snoc [OF this big]
    from "2.prems" False have "base128_loop ?v c = (Some w, r)"
      by (auto simp: Let_def split: if_splits)
    then obtain bs where "c = bs @ r" "base128_hi (unat ?v) @ bs = base128_bytes (unat w)"
      using "2.IH" [OF _ _ refl False] small b by (auto simp: drop_bit_eq_0_iff)
    with hi digit show ?thesis
      by (intro exI [of _ "b # bs"]) simp
  qed
qed simp

lemma base128_loop_hi:
  "n < 2 ^ 57 \<Longrightarrow> base128_loop 0 (base128_hi n @ xs) = base128_loop (of_nat n) xs"
proof (induction n arbitrary: xs rule: base128_hi.induct)
  case (1 n)
  show ?case
  proof (cases "n = 0")
    case False
    let ?b = "word_of_nat (n mod 128) OR 0x80 :: u8"
    have ub: "unat ?b = n mod 128 + 128"
      by (simp add: unat_or_0x80)
    have v: "unat (of_nat (n div 128) :: u64) = n div 128"
      using "1.prems" by (simp add: unat_of_nat)
    have small: "unat (of_nat (n div 128) :: u64) < 2 ^ 57"
      using "1.prems" v by simp
    have "push_bit 7 (of_nat (n div 128)) OR ucast (?b AND 0x7f) = (of_nat n :: u64)"
      using base128_loop_digit [OF small, of ?b] "1.prems"
      by (intro word_unat_eq_iff [THEN iffD2]) (simp add: v ub unat_of_nat)
    moreover have "\<not> (of_nat (n div 128) = (0 :: u64) \<and> ?b = 0x80)"
    proof
      assume a: "of_nat (n div 128) = (0 :: u64) \<and> ?b = 0x80"
      then have "n div 128 = 0" using v by simp
      moreover have "n mod 128 = 0" using a ub by simp
      ultimately show False using False by (simp add: div_eq_0_iff)
    qed
    moreover have "?b AND 0x80 \<noteq> 0"
      by (simp add: and_0x80_iff ub)
    moreover have "drop_bit (64 - 7) (of_nat (n div 128) :: u64) = 0"
      using small by (simp add: drop_bit_eq_0_iff)
    ultimately have "base128_loop (of_nat (n div 128)) (?b # xs) = base128_loop (of_nat n) xs"
      by (auto simp: Let_def)
    then show ?thesis
      using "1.IH" [OF False, of "?b # xs"] "1.prems" False
      by (simp add: base128_hi.simps [of n])
  qed simp
qed

lemma parse_base128_complete:
  "parse_base128_integer (base128_bytes (unat w) @ r) = (Some w, r)"
proof -
  let ?n = "unat w" and ?b = "word_of_nat (unat w mod 128) :: u8"
  have n: "?n div 128 < 2 ^ 57"
    using unsigned_less [of w, where ?'a = nat] by (simp add: less_mult_imp_div_less)
  then have v: "unat (of_nat (?n div 128) :: u64) = ?n div 128"
    by (simp add: unat_of_nat)
  have small: "unat (of_nat (?n div 128) :: u64) < 2 ^ 57"
    using n v by simp
  have "push_bit 7 (of_nat (?n div 128)) OR ucast (?b AND 0x7f) = w"
    using base128_loop_digit [OF small, of ?b]
    by (intro word_unat_eq_iff [THEN iffD2]) (simp add: v)
  moreover have "?b AND 0x80 = 0"
    by (simp add: and_0x80_iff)
  moreover have "?b \<noteq> 0x80"
    by (simp add: word_unat_eq_iff)
  moreover have "drop_bit (64 - 7) (of_nat (?n div 128) :: u64) = 0"
    using small by (simp add: drop_bit_eq_0_iff)
  ultimately have "base128_loop (of_nat (?n div 128)) (?b # r) = (Some w, r)"
    by (simp add: Let_def)
  then show ?thesis
    using base128_loop_hi [OF n, of "?b # r"]
    by (simp add: parse_base128_integer_def base128_bytes_def)
qed

interpretation base128: canonical_code "\<lambda>v :: u64. base128_bytes (unat v)" parse_base128_integer "\<lambda>_. True"
proof
  show "parse_base128_integer (base128_bytes (unat x) @ r) = (Some x, r)" for x r
    by (rule parse_base128_complete)
  show "True \<and> bs = base128_bytes (unat x) @ r" if "parse_base128_integer bs = (Some x, r)" for bs x r
    using base128_loop_sound [of 0 bs x r] that by (auto simp: parse_base128_integer_def)
qed simp

subsection \<open>Tags\<close>

definition der_tag_bytes :: "u32 \<Rightarrow> bytes" where
  "der_tag_bytes tag =
     (let top = ucast (drop_bit 24 tag) AND 0xe0 :: u8; n = tag AND 0x1fffffff
      in if n \<ge> 0x1f then (top OR 0x1f) # base128_bytes (unat n) else [top OR ucast n])"

lemma mask_constants:
  "(0xe0 :: u32) = push_bit 5 (mask 3)" "(0xe0 :: u8) = push_bit 5 (mask 3)"
  "(0x1f :: u8) = mask 5" "(0x1fffffff :: u32) = mask 29"
  by (simp_all add: mask_eq_exp_minus_1)

lemma unat_less_29_bit: "unat (v :: u32) < 2 ^ 29 \<Longrightarrow> bit v n \<Longrightarrow> n < 29"
  by (rule bit_imp_less_bound)

lemma tag_join:
  "push_bit 24 (ucast (ucast (drop_bit 24 tag) AND 0xe0 OR v AND 0x1f :: u8) AND 0xe0)
     OR (tag AND 0x1fffffff) = (tag :: u32)"
  unfolding mask_constants
  by (rule bit_word_eqI) (auto simp: bit_simps)

lemma tag_top:
  assumes "unat (v :: u32) < 2 ^ 29"
  shows "ucast (drop_bit 24 (push_bit 24 (ucast t AND 0xe0) OR v)) AND 0xe0 = (t :: u8) AND 0xe0"
  unfolding mask_constants
  by (rule bit_word_eqI) (auto simp: bit_simps dest!: unat_less_29_bit [OF assms])

lemma tag_number:
  assumes "unat (v :: u32) < 2 ^ 29"
  shows "(push_bit 24 (ucast (t :: u8) AND 0xe0) OR v) AND 0x1fffffff = v"
  unfolding mask_constants
  by (rule bit_word_eqI) (simp add: bit_simps, use unat_less_29_bit [OF assms] in auto)

lemma byte_join: "(t AND 0xe0) OR (t AND 0x1f) = (t :: u8)"
  unfolding mask_constants by (rule bit_word_eqI) (auto simp: bit_simps)

lemma byte_low: "((t AND 0xe0) OR (v AND 0x1f)) AND 0x1f = (v :: u8) AND 0x1f"
  unfolding mask_constants by (rule bit_word_eqI) (auto simp: bit_simps)

lemma parse_asn1_tag_sound:
  assumes "parse_asn1_tag cbs = (Some tag, r)"
  shows "cbs = der_tag_bytes tag @ r"
proof -
  from assms obtain t c where cbs: "cbs = t # c"
    by (cases cbs) (auto simp: parse_asn1_tag_def)
  show ?thesis
  proof (cases "t AND 0x1f = 0x1f")
    case False
    let ?v = "ucast (t AND 0x1f) :: u32"
    have uv: "unat ?v = unat t mod 32"
      using unat_and_mask [of t 5] by (simp add: unat_ucast_up u8_mask5)
    have ne: "unat t mod 32 \<noteq> 31"
    proof
      assume "unat t mod 32 = 31"
      then have "unat (t AND 0x1f) = unat (0x1f :: u8)"
        using uv by (simp add: unat_ucast_up)
      with False show False by (simp only: word_unat_eq_iff)
    qed
    have v: "?v \<noteq> 0x1f" "\<not> ?v \<ge> 0x1f" "unat ?v < 2 ^ 29"
      using ne uv mod_less_divisor [of 32 "unat t"]
      by (auto simp: word_le_nat_alt word_unat_eq_iff)
    have "ucast ?v = t AND 0x1f"
      by (rule bit_word_eqI) (simp add: bit_simps)
    moreover from assms False v(1) have
      tag: "tag = push_bit 24 (ucast t AND 0xe0) OR ?v" and "c = r"
      by (auto simp: cbs parse_asn1_tag_def Let_def simp del: push_bit_and)
    ultimately show ?thesis
      using v(2) byte_join [of t] tag_top [OF v(3), of t, folded tag] tag_number [OF v(3), of t, folded tag]
      by (simp add: cbs der_tag_bytes_def Let_def del: push_bit_and)
  next
    case True
    with assms obtain v where v: "parse_base128_integer c = (Some v, r)"
      and lim: "v \<le> ucast CBS_ASN1_TAG_NUMBER_MASK" "0x1f \<le> v"
      and tag: "tag = push_bit 24 (ucast t AND 0xe0) OR ucast v"
      by (auto simp: cbs parse_asn1_tag_def Let_def not_less simp del: push_bit_and
          split: prod.splits option.splits if_splits)
    from lim have uv: "unat v < 2 ^ 29" "31 \<le> unat v"
      by (auto simp: word_le_nat_alt unat_ucast_up)
    then have uw: "unat (ucast v :: u32) = unat v"
      by (simp add: unat_ucast_down)
    with uv have v29: "unat (ucast v :: u32) < 2 ^ 29" "(0x1f :: u32) \<le> ucast v"
      by (auto simp: word_le_nat_alt)
    have "c = base128_bytes (unat v) @ r"
      using base128.enc_dec [OF v] by simp
    then show ?thesis
      using True byte_join [of t] v29 uw
        tag_top [OF v29(1), of t, folded tag] tag_number [OF v29(1), of t, folded tag]
      by (simp add: cbs der_tag_bytes_def Let_def)
  qed
qed

lemma parse_asn1_tag_complete: "parse_asn1_tag (der_tag_bytes tag @ r) = (Some tag, r)"
proof -
  let ?top = "ucast (drop_bit 24 tag) AND 0xe0 :: u8" and ?n = "tag AND 0x1fffffff"
  have n29: "unat ?n < 2 ^ 29"
    using unat_and_mask [of tag 29] by (simp add: mask_constants(4))
  show ?thesis
  proof (cases "0x1f \<le> ?n")
    case True
    let ?v = "ucast ?n :: u64"
    have uv: "unat ?v = unat ?n" by (simp add: unat_ucast_up)
    then have lim: "\<not> ?v > ucast CBS_ASN1_TAG_NUMBER_MASK" "\<not> ?v < 0x1f"
      using n29 True by (auto simp: word_less_nat_alt word_le_nat_alt unat_ucast_up)
    have low: "(?top OR 0x1f) AND 0x1f = 0x1f"
      using byte_low [of "ucast (drop_bit 24 tag)" "0x1f"] by simp
    have "ucast ?v = ?n" by (rule bit_word_eqI) (simp add: bit_simps)
    then show ?thesis
      using True lim low uv parse_base128_complete [of ?v r] tag_join [of tag "0x1f"]
      by (simp add: der_tag_bytes_def parse_asn1_tag_def Let_def del: push_bit_and)
  next
    case False
    let ?b = "?top OR ucast ?n"
    have n: "unat ?n < 31"
      using False by (simp add: word_le_nat_alt)
    have b5: "ucast ?n AND 0x1f = (ucast ?n :: u8)"
      using n bit_imp_less_bound [of ?n 5] unfolding mask_constants
      by (intro bit_word_eqI) (auto simp: bit_simps)
    have low: "?b AND 0x1f = ucast ?n"
      using byte_low [of "ucast (drop_bit 24 tag)" "ucast ?n"] by (simp only: b5)
    have wide: "ucast (ucast ?n :: u8) = ?n"
      using n bit_imp_less_bound [of ?n 5] unfolding mask_constants
      by (intro bit_word_eqI) (fastforce simp: bit_simps)
    have ne: "?n \<noteq> 0x1f"
      using n by auto
    show ?thesis
      using False low wide ne tag_join [of tag "ucast ?n"]
      by (simp add: der_tag_bytes_def parse_asn1_tag_def Let_def b5 del: push_bit_and)
  qed
qed

lemma parse_asn1_tag_iff: "parse_asn1_tag cbs = (Some tag, r) \<longleftrightarrow> cbs = der_tag_bytes tag @ r"
  using parse_asn1_tag_sound parse_asn1_tag_complete by metis

interpretation der_tag: canonical_code der_tag_bytes parse_asn1_tag "\<lambda>_. True"
  by unfold_locales (auto simp: parse_asn1_tag_iff der_tag_bytes_def Let_def)

end
