(* ===== verification/Der_Element.thy ===== *)
theory Der_Element
  imports Der
begin

text \<open>
  DER elements: \<open>CBS_get_any_asn1_element\<close> accepts exactly the tag, the minimal length and
  that many content bytes, for every tag of the 32-bit representation and contents below 4 GiB.
  The readers built on it (\<open>CBS_get_asn1\<close>, integers, booleans, optional elements) follow.
\<close>

unbundle bit_operations_syntax

subsection \<open>Lengths\<close>

definition len_octets :: "nat \<Rightarrow> nat" where
  "len_octets n = (if n \<le> 0xff then 1 else if n \<le> 0xffff then 2 else if n \<le> 0xffffff then 3 else 4)"

definition der_len_bytes :: "nat \<Rightarrow> bytes" where
  "der_len_bytes n =
     (if n < 128 then [word_of_nat n]
      else word_of_nat (128 + len_octets n) # be_bytes (len_octets n) n)"

definition der_header :: "u32 \<Rightarrow> nat \<Rightarrow> bytes" where
  "der_header tag n = der_tag_bytes tag @ der_len_bytes n"

definition der_element :: "u32 \<Rightarrow> bytes \<Rightarrow> bytes" where
  "der_element tag body = der_header tag (length body) @ body"

text \<open>The contents an element can carry: four length octets.\<close>

abbreviation der_body_ok :: "bytes \<Rightarrow> bool" where
  "der_body_ok body \<equiv> length body < 2 ^ 32"

lemma len_octets_bounds:
  "1 \<le> len_octets n" "len_octets n \<le> 4" "n < 2 ^ 32 \<Longrightarrow> n < 256 ^ len_octets n"
  "128 \<le> n \<Longrightarrow> 256 ^ (len_octets n - 1) \<le> n"
  by (auto simp: len_octets_def)

lemma len_octets_unique:
  "1 \<le> k \<Longrightarrow> k \<le> 4 \<Longrightarrow> 128 \<le> n \<Longrightarrow> 256 ^ (k - 1) \<le> n \<Longrightarrow> n < 256 ^ k \<Longrightarrow> len_octets n = k"
proof -
  assume k: "1 \<le> k" "k \<le> 4" "128 \<le> n" "256 ^ (k - 1) \<le> n" "n < 256 ^ k"
  then consider "k = 1" | "k = 2" | "k = 3" | "k = 4" by linarith
  then show ?thesis
    using k by cases (auto simp: len_octets_def)
qed

lemma base128_hi_length: "n < 128 ^ k \<Longrightarrow> length (base128_hi n) \<le> k"
proof (induction n arbitrary: k rule: base128_hi.induct)
  case (1 n)
  show ?case
  proof (cases "n = 0")
    case False
    with "1.prems" obtain j where k: "k = Suc j"
      by (cases k) auto
    with "1.prems" have "n div 128 < 128 ^ j"
      by (simp add: less_mult_imp_div_less mult.commute)
    with "1.IH" [OF False] k False show ?thesis
      by (simp add: base128_hi.simps [of n])
  qed simp
qed

lemma base128_bytes_length: "n < 128 ^ k \<Longrightarrow> 0 < k \<Longrightarrow> length (base128_bytes n) \<le> k"
proof -
  assume n: "n < 128 ^ k" "0 < k"
  then obtain j where k: "k = Suc j" by (cases k) auto
  with n have "n div 128 < 128 ^ j"
    by (simp add: less_mult_imp_div_less mult.commute)
  then show ?thesis
    using base128_hi_length [of "n div 128" j] k by (simp add: base128_bytes_def)
qed

lemma der_tag_bytes_length: "1 \<le> length (der_tag_bytes tag)" "length (der_tag_bytes tag) \<le> 6"
proof -
  have "unat (tag AND 0x1fffffff) < 128 ^ 5"
    using unsigned_less [of "tag AND 0x1fffffff", where ?'a = nat] by simp
  then have "length (base128_bytes (unat (tag AND 0x1fffffff))) \<le> 5"
    by (rule base128_bytes_length) simp
  then show "length (der_tag_bytes tag) \<le> 6"
    by (simp add: der_tag_bytes_def Let_def)
  show "1 \<le> length (der_tag_bytes tag)"
    by (simp add: der_tag_bytes_def Let_def)
qed

lemma der_len_bytes_length: "1 \<le> length (der_len_bytes n)" "length (der_len_bytes n) \<le> 5"
  using len_octets_bounds(2) [of n] by (auto simp: der_len_bytes_def)

lemma der_header_length: "2 \<le> length (der_header tag n)" "length (der_header tag n) \<le> 11"
  using der_tag_bytes_length [of tag] der_len_bytes_length [of n] by (auto simp: der_header_def)

subsection \<open>Elements\<close>

lemma u8_or_0x80_low: "unat (b AND 0x7f) = unat b mod 128" for b :: u8
  by (rule unat_and_0x7f)

text \<open>The sum of the lengths cannot wrap: the overflow check of the code never fires.\<close>

lemma element_sum:
  assumes "unat (len64 :: u64) < 2 ^ 32" "h \<le> 100" "k \<le> 4"
  shows "unat (len64 + (of_nat h + of_nat k)) = unat len64 + (h + k)"
    and "\<not> len64 + of_nat h + of_nat k < len64"
proof -
  have hk: "unat (of_nat (h + k) :: u64) = h + k"
    using assms by (simp add: unat_of_nat del: of_nat_add)
  have "unat len64 + unat (of_nat (h + k) :: u64) < 2 ^ LENGTH(64)"
    using assms by (simp add: hk del: of_nat_add)
  then have "unat (len64 + of_nat (h + k)) = unat len64 + (h + k)"
    by (simp add: unat_add_lem [THEN iffD1] hk del: of_nat_add)
  then show s: "unat (len64 + (of_nat h + of_nat k)) = unat len64 + (h + k)"
    by simp
  then show "\<not> len64 + of_nat h + of_nat k < len64"
    by (simp add: word_less_nat_alt add.assoc)
qed

lemma take_element_iff:
  "take_element n tag hl cbs = (Some (out, t, h), r) \<longleftrightarrow>
    length out = n \<and> cbs = out @ r \<and> t = tag \<and> h = hl"
proof -
  have "take_element n tag hl cbs = (Some (out, t, h), r) \<longleftrightarrow>
      CBS_get_bytes n cbs = (Some out, r) \<and> t = tag \<and> h = hl"
    by (auto simp: take_element_def split: prod.splits option.splits)
  then show ?thesis by (simp add: CBS_get_bytes_iff)
qed

lemma any_element_short:
  "lb AND 0x80 = 0 \<Longrightarrow> cbs_get_any_asn1_element ber (der_tag_bytes tag @ lb # h2) =
     take_element (unat lb + Suc (length (der_tag_bytes tag))) tag (Suc (length (der_tag_bytes tag)))
       (der_tag_bytes tag @ lb # h2)"
  by (simp add: cbs_get_any_asn1_element_def parse_asn1_tag_complete CBS_len_def)

lemma any_element_long:
  "lb AND 0x80 \<noteq> 0 \<Longrightarrow> k = unat (lb AND 0x7f) \<Longrightarrow> h = Suc (length (der_tag_bytes tag)) \<Longrightarrow>
   cbs = der_tag_bytes tag @ lb # h2 \<Longrightarrow> cbs_get_any_asn1_element ber cbs =
     (if ber \<and> tag AND CBS_ASN1_CONSTRUCTED \<noteq> 0 \<and> k = 0 then take_element h tag h cbs
      else if k = 0 \<or> k > 4 then (None, cbs)
      else case cbs_get_u k h2 of
        (None, _) \<Rightarrow> (None, cbs)
      | (Some len64, _) \<Rightarrow>
          if len64 < 128 \<or> drop_bit ((k - 1) * 8) len64 = 0 \<or>
             len64 + of_nat h + of_nat k < len64 then (None, cbs)
          else take_element (unat (len64 + (of_nat h + of_nat k))) tag (h + k) cbs)"
proof -
  assume a: "lb AND 0x80 \<noteq> 0" "k = unat (lb AND 0x7f)" "h = Suc (length (der_tag_bytes tag))"
    "cbs = der_tag_bytes tag @ lb # h2"
  then have tag: "parse_asn1_tag cbs = (Some tag, lb # h2)" and h: "CBS_len cbs - CBS_len h2 = h"
    by (simp_all add: parse_asn1_tag_complete CBS_len_def)
  obtain v c where g: "cbs_get_u k h2 = (v, c)" by fastforce
  show ?thesis
    by (cases v) (simp_all add: cbs_get_any_asn1_element_def tag a(1) a(2) [symmetric] h g Let_def)
qed

lemma any_element_cases:
  assumes "cbs_get_any_asn1_element ber cbs = (Some (out, tag, hl), r)"
  obtains lb h2 where "cbs = der_tag_bytes tag @ lb # h2"
proof -
  obtain ot h1 where p: "parse_asn1_tag cbs = (ot, h1)" by fastforce
  with assms obtain tag' where ot: "ot = Some tag'"
    by (cases ot) (auto simp: cbs_get_any_asn1_element_def)
  with assms p obtain lb h2 where h1: "h1 = lb # h2"
    by (cases h1) (auto simp: cbs_get_any_asn1_element_def)
  have cbs: "cbs = der_tag_bytes tag' @ lb # h2"
    using parse_asn1_tag_sound p ot h1 by blast
  have "tag = tag'"
  proof (cases "lb AND 0x80 = 0")
    case True
    with assms show ?thesis
      by (simp add: cbs any_element_short take_element_iff)
  next
    case False
    show ?thesis
      using assms [unfolded any_element_long [OF False refl refl cbs]]
      by (auto simp: take_element_iff split: prod.splits option.splits if_splits)
  qed
  with cbs that show thesis by blast
qed

lemma element_sound:
  assumes "CBS_get_any_asn1_element cbs = (Some (out, tag, hl), r)"
  shows "\<exists>body. der_body_ok body \<and> out = der_element tag body \<and>
    hl = length (der_header tag (length body)) \<and> cbs = out @ r"
proof -
  note get = assms [unfolded CBS_get_any_asn1_element_def]
  obtain lb h2 where cbs: "cbs = der_tag_bytes tag @ lb # h2"
    using any_element_cases [OF get] .
  let ?t = "der_tag_bytes tag"
  show ?thesis
  proof (cases "lb AND 0x80 = 0")
    case True
    then have lb: "unat lb < 128" by (simp add: and_0x80_iff)
    from get have out: "length out = unat lb + length (?t @ [lb])"
      and r: "cbs = out @ r" and hl: "hl = length (?t @ [lb])"
      by (simp_all add: cbs any_element_short [OF True] take_element_iff)
    define body where "body = drop (length (?t @ [lb])) out"
    have "out = ?t @ [lb] @ body"
      using append_longer_split [of "?t @ [lb]" h2 out r] r out cbs by (simp add: body_def)
    moreover have "length body = unat lb"
      using out by (simp add: body_def)
    moreover have "der_len_bytes (unat lb) = [lb]"
      using lb by (simp add: der_len_bytes_def)
    ultimately show ?thesis
      using r hl lb by (intro exI [of _ body]) (simp add: der_element_def der_header_def)
  next
    case False
    then have lb: "128 \<le> unat lb" by (simp add: and_0x80_iff)
    let ?k = "unat (lb AND 0x7f)"
    let ?h = "Suc (length ?t)"
    note long = get [unfolded any_element_long [OF False refl refl cbs, of False]]
    then have k: "1 \<le> ?k" "?k \<le> 4"
      by (auto simp: not_less split: if_splits)
    with long obtain len64 h3 where len: "cbs_get_u ?k h2 = (Some len64, h3)" "128 \<le> len64"
        "drop_bit ((?k - 1) * 8) len64 \<noteq> 0"
      and out: "length out = unat (len64 + (of_nat ?h + of_nat ?k))"
      and r: "cbs = out @ r" and hl: "hl = ?h + ?k"
      by (auto simp: take_element_iff not_less split: prod.splits option.splits if_splits)
    have h2: "h2 = be_bytes ?k (unat len64) @ h3" and len256: "unat len64 < 256 ^ ?k"
      using len(1) k by (auto simp: cbs_get_u_iff)
    have "(256 :: nat) ^ ?k \<le> 256 ^ 4"
      using k by (intro power_increasing) auto
    with len256 have len32: "unat len64 < 2 ^ 32" by simp
    have "(2 :: nat) ^ ((?k - 1) * 8) = 256 ^ (?k - 1)"
      using power_mult [of "2 :: nat" 8 "?k - 1"] by (simp add: mult.commute)
    then have low: "256 ^ (?k - 1) \<le> unat len64"
      using len(3) by (simp add: drop_bit_eq_0_iff not_less)
    have l128: "128 \<le> unat len64"
      using len(2) by (simp add: word_le_nat_alt)
    have oct: "len_octets (unat len64) = ?k"
      by (rule len_octets_unique [OF k l128 low len256])
    have "?h \<le> 100" using der_tag_bytes_length [of tag] by simp
    with out len32 k have outl: "length out = unat len64 + (?h + ?k)"
      by (simp only: element_sum)
    have "lb = word_of_nat (128 + ?k)"
      using u8_high_mod [OF lb] by (intro word_unat_eq_iff [THEN iffD2]) (simp add: unat_and_0x7f del: of_nat_add)
    then have header: "der_header tag (unat len64) = ?t @ lb # be_bytes ?k (unat len64)"
      using l128 oct by (simp add: der_header_def der_len_bytes_def)
    define body where "body = drop (?h + ?k) out"
    have "out = (?t @ lb # be_bytes ?k (unat len64)) @ body"
      using append_longer_split [of "?t @ lb # be_bytes ?k (unat len64)" h3 out r] r outl cbs h2
      by (simp add: body_def)
    moreover have "length body = unat len64"
      using outl by (simp add: body_def)
    ultimately show ?thesis
      using r hl len32 header by (intro exI [of _ body]) (simp add: der_element_def)
  qed
qed

lemma element_complete_any:
  assumes body: "der_body_ok body"
  shows "cbs_get_any_asn1_element ber (der_element tag body @ r) =
    (Some (der_element tag body, tag, length (der_header tag (length body))), r)"
proof (cases "length body < 128")
  case True
  let ?lb = "word_of_nat (length body) :: u8"
  have ulb: "unat ?lb = length body" using True by simp
  have "?lb AND 0x80 = 0" using True by (simp add: and_0x80_iff)
  from any_element_short [OF this, of ber tag "body @ r"] show ?thesis
    using True ulb by (simp add: der_element_def der_header_def der_len_bytes_def take_element_iff)
next
  case False
  let ?n = "length body" and ?k = "len_octets (length body)"
  let ?lb = "word_of_nat (128 + ?k) :: u8" and ?len = "of_nat ?n :: u64"
  note k = len_octets_bounds(1,2) [of ?n]
  have ulb: "unat ?lb = 128 + ?k" using k by (simp del: of_nat_add)
  have lb: "?lb AND 0x80 \<noteq> 0" "?k = unat (?lb AND 0x7f)"
    using k ulb by (auto simp: and_0x80_iff unat_and_0x7f simp del: of_nat_add)
  have ulen: "unat ?len = ?n" using body by (simp add: unat_of_nat)
  have get: "cbs_get_u ?k (be_bytes ?k ?n @ body @ r) = (Some ?len, body @ r)"
    using k len_octets_bounds(3) [OF body] by (simp add: cbs_get_u_iff ulen)
  have min1: "\<not> ?len < 128" using False ulen by (simp add: word_less_nat_alt)
  have "(2 :: nat) ^ ((?k - 1) * 8) = 256 ^ (?k - 1)"
    using power_mult [of "2 :: nat" 8 "?k - 1"] by (simp add: mult.commute)
  then have min2: "drop_bit ((?k - 1) * 8) ?len \<noteq> 0"
    using len_octets_bounds(4) [of ?n] False ulen by (simp add: drop_bit_eq_0_iff)
  define h where "h = Suc (length (der_tag_bytes tag))"
  have h: "h \<le> 100" using der_tag_bytes_length [of tag] by (simp add: h_def)
  have l32: "unat ?len < 2 ^ 32" using body ulen by simp
  have elem: "der_element tag body @ r = der_tag_bytes tag @ ?lb # be_bytes ?k ?n @ body @ r"
    using False by (simp add: der_element_def der_header_def der_len_bytes_def)
  have len: "length (der_element tag body) = ?n + (h + ?k)"
    "length (der_header tag ?n) = h + ?k"
    using False by (simp_all add: der_element_def der_header_def der_len_bytes_def h_def)
  have "?k \<noteq> 0" "\<not> 4 < ?k" using k by auto
  with get min1 min2 element_sum [OF l32 h k(2)]
  have "cbs_get_any_asn1_element ber (der_element tag body @ r) =
      take_element (?n + (h + ?k)) tag (h + ?k) (der_element tag body @ r)"
    unfolding any_element_long [OF lb h_def elem, of ber] ulen
    by (simp only: simp_thms prod.case option.case if_False)
  then show ?thesis
    by (simp add: take_element_iff len)
qed

lemmas element_complete = element_complete_any [of _ False, folded CBS_get_any_asn1_element_def]

lemma element_iff:
  "CBS_get_any_asn1_element cbs = (Some (out, tag, hl), r) \<longleftrightarrow>
    (\<exists>body. der_body_ok body \<and> out = der_element tag body \<and>
       hl = length (der_header tag (length body)) \<and> cbs = out @ r)"
  by (auto simp: element_complete dest!: element_sound)

lemma skip_header [simp]:
  "CBS_skip (length (der_header tag (length body))) (der_element tag body) = (Some (), body)"
  by (simp add: der_element_def CBS_skip_iff)

lemma der_element_nonempty [simp]: "der_element tag body \<noteq> []"
  using der_header_length(1) [of tag "length body"] by (auto simp: der_element_def)

lemma CBS_get_any_asn1_iff:
  "CBS_get_any_asn1 cbs = (Some (body, tag), r) \<longleftrightarrow> der_body_ok body \<and> cbs = der_element tag body @ r"
proof
  assume "CBS_get_any_asn1 cbs = (Some (body, tag), r)"
  then obtain out hl where e: "CBS_get_any_asn1_element cbs = (Some (out, tag, hl), r)"
    and s: "body = drop hl out"
    by (auto simp: CBS_get_any_asn1_def CBS_skip_iff split: prod.splits option.splits)
  from element_sound [OF e] s show "der_body_ok body \<and> cbs = der_element tag body @ r"
    by (auto simp: der_element_def)
next
  assume "der_body_ok body \<and> cbs = der_element tag body @ r"
  then show "CBS_get_any_asn1 cbs = (Some (body, tag), r)"
    by (simp add: CBS_get_any_asn1_def element_complete)
qed

text \<open>The pair of \<open>CBS_get_any_asn1\<close> and the encoding is a canonical code.\<close>

interpretation der: canonical_code "\<lambda>(body, tag). der_element tag body" CBS_get_any_asn1
  "\<lambda>(body, tag). der_body_ok body"
  by unfold_locales (auto simp: CBS_get_any_asn1_iff)

lemma CBS_get_asn1_iff:
  "CBS_get_asn1 tag cbs = (Some body, r) \<longleftrightarrow> der_body_ok body \<and> cbs = der_element tag body @ r"
proof
  assume "CBS_get_asn1 tag cbs = (Some body, r)"
  then obtain out hl where e: "CBS_get_any_asn1_element cbs = (Some (out, tag, hl), r)"
    and s: "body = drop hl out"
    by (auto simp: CBS_get_asn1_def cbs_get_asn1_def CBS_skip_iff
        split: prod.splits option.splits if_splits)
  from element_sound [OF e] s show "der_body_ok body \<and> cbs = der_element tag body @ r"
    by (auto simp: der_element_def)
next
  assume "der_body_ok body \<and> cbs = der_element tag body @ r"
  then show "CBS_get_asn1 tag cbs = (Some body, r)"
    by (simp add: CBS_get_asn1_def cbs_get_asn1_def element_complete)
qed

lemma CBS_get_asn1_element_iff:
  "CBS_get_asn1_element tag cbs = (Some out, r) \<longleftrightarrow>
    (\<exists>body. der_body_ok body \<and> out = der_element tag body \<and> cbs = out @ r)"
proof
  assume "CBS_get_asn1_element tag cbs = (Some out, r)"
  then obtain hl where "CBS_get_any_asn1_element cbs = (Some (out, tag, hl), r)"
    by (auto simp: CBS_get_asn1_element_def cbs_get_asn1_def split: prod.splits option.splits if_splits)
  from element_sound [OF this]
  show "\<exists>body. der_body_ok body \<and> out = der_element tag body \<and> cbs = out @ r" by blast
qed (auto simp: CBS_get_asn1_element_def cbs_get_asn1_def element_complete)

lemma CBS_peek_asn1_tag_iff:
  "CBS_peek_asn1_tag cbs tag \<longleftrightarrow> (\<exists>r. cbs = der_tag_bytes tag @ r)"
proof
  assume "CBS_peek_asn1_tag cbs tag"
  then obtain r where "parse_asn1_tag cbs = (Some tag, r)"
    by (auto simp: CBS_peek_asn1_tag_def split: prod.splits option.splits if_splits)
  then show "\<exists>r. cbs = der_tag_bytes tag @ r"
    using parse_asn1_tag_sound by blast
next
  assume "\<exists>r. cbs = der_tag_bytes tag @ r"
  then show "CBS_peek_asn1_tag cbs tag"
    using der_tag_bytes_length(1) [of tag]
    by (auto simp: CBS_peek_asn1_tag_def CBS_len_def parse_asn1_tag_complete)
qed

text \<open>Two DER elements at the front of the same input are the same element.\<close>

lemma der_element_inject:
  "der_body_ok b1 \<Longrightarrow> der_body_ok b2 \<Longrightarrow> der_element t1 b1 @ r1 = der_element t2 b2 @ r2 \<Longrightarrow>
    t1 = t2 \<and> b1 = b2 \<and> r1 = r2"
  using der.enc_append_inject [of "(b1, t1)" "(b2, t2)" r1 r2] by simp

subsection \<open>Integers and booleans\<close>

text \<open>The contents of an INTEGER in the fewest bytes: no redundant sign byte in front.\<close>

definition minimal_int :: "bytes \<Rightarrow> bool" where
  "minimal_int body \<longleftrightarrow> body \<noteq> [] \<and>
     \<not> (length body > 1 \<and> body ! 0 = 0 \<and> unat (body ! 1) < 128) \<and>
     \<not> (length body > 1 \<and> body ! 0 = 0xff \<and> 128 \<le> unat (body ! 1))"

text \<open>Two's complement big-endian value.\<close>

definition twos_val :: "bytes \<Rightarrow> int" where
  "twos_val body =
     (if body \<noteq> [] \<and> 128 \<le> unat (hd body) then int (be_val body) - 256 ^ length body
      else int (be_val body))"

lemma asn1_uint64_loop_iff:
  "asn1_uint64_loop out data = Some v \<longleftrightarrow>
    unat out * 256 ^ length data + be_val data < 2 ^ 64 \<and>
    unat v = unat out * 256 ^ length data + be_val data"
proof (induction out data rule: asn1_uint64_loop.induct)
  case (1 out)
  show ?case
    using unsigned_less [of v, where ?'a = nat] by (auto simp: word_unat_eq_iff)
next
  case (2 out b data)
  show ?case
  proof (cases "drop_bit 56 out = 0")
    case True
    then have "unat (push_bit 8 out OR ucast b) = unat out * 256 + unat b"
      by (simp add: drop_bit_eq_0_iff unat_push_bit_or unat_ucast_up)
    with 2 True show ?thesis
      by (simp add: be_val_Cons algebra_simps)
  next
    case False
    then have "2 ^ 56 * 256 ^ Suc (length data) \<le> unat out * 256 ^ Suc (length data)"
      by (intro mult_right_mono) (auto simp: drop_bit_eq_0_iff not_less)
    moreover have "(2 :: nat) ^ 64 \<le> 2 ^ 56 * 256 ^ Suc (length data)"
      using one_le_power [of "256 :: nat" "length data"] by simp
    ultimately have "\<not> unat out * 256 ^ Suc (length data) + be_val (b # data) < 2 ^ 64"
      by linarith
    with False show ?thesis by simp
  qed
qed

lemma CBS_get_asn1_uint64_iff:
  "CBS_get_asn1_uint64 cbs = (Some v, r) \<longleftrightarrow>
    (\<exists>body. der_body_ok body \<and> cbs = der_element CBS_ASN1_INTEGER body @ r \<and>
       minimal_int body \<and> unat (body ! 0) < 128 \<and> be_val body = unat v)"
    (is "?L \<longleftrightarrow> ?R")
proof
  assume ?L
  then obtain body where g: "CBS_get_asn1 CBS_ASN1_INTEGER cbs = (Some body, r)"
    and "body \<noteq> []" "body ! 0 AND 0x80 = 0"
    and "\<not> (body ! 0 = 0 \<and> length body > 1 \<and> body ! 1 AND 0x80 = 0)"
    and l: "asn1_uint64_loop 0 body = Some v"
    by (auto simp: CBS_get_asn1_uint64_def CBS_len_def split: prod.splits option.splits if_splits)
  moreover have "body ! 0 \<noteq> 0xff" if "body ! 0 AND 0x80 = 0"
    using that by auto
  ultimately show ?R
    using l by (auto simp: CBS_get_asn1_iff minimal_int_def and_0x80_iff asn1_uint64_loop_iff)
next
  assume ?R
  then obtain body where g: "CBS_get_asn1 CBS_ASN1_INTEGER cbs = (Some body, r)"
    and m: "minimal_int body" "unat (body ! 0) < 128" and v: "be_val body = unat v"
    by (auto simp: CBS_get_asn1_iff)
  have "asn1_uint64_loop 0 body = Some v"
    using v unsigned_less [of v, where ?'a = nat] by (simp add: asn1_uint64_loop_iff)
  with g m show ?L
    by (auto simp: CBS_get_asn1_uint64_def CBS_len_def minimal_int_def and_0x80_iff)
qed

subsection \<open>Signed integers\<close>

lemma be_val_replicate_0: "be_val (replicate n 0 @ bs) = be_val bs"
  by (induction n) (auto simp: be_val_Cons)

lemma be_val_replicate_ff: "be_val (replicate n 0xff) = 256 ^ n - 1"
proof (induction n)
  case (Suc n)
  have "1 \<le> (256 :: nat) ^ n" by simp
  with Suc show ?case by (simp add: be_val_Cons)
qed simp

text \<open>The eight bytes the code assembles hold the sign-extended value modulo \<open>2 ^ 64\<close>.\<close>

lemma sign_extend_val:
  assumes "body \<noteq> []" "length body \<le> 8"
  shows "int (le_val (rev body @ drop (length body) (replicate 8 (if neg then 0xff else 0)))) =
    (if neg then int (be_val body) + 2 ^ 64 - 256 ^ length body else int (be_val body))"
proof -
  let ?n = "8 - length body"
  have pow: "(256 :: int) ^ ?n * 256 ^ length body = 2 ^ 64"
    using assms(2) by (simp flip: power_add)
  have "int (be_val (replicate ?n 0xff @ body)) = 2 ^ 64 - 256 ^ length body + int (be_val body)"
    by (simp add: be_val_append be_val_replicate_ff of_nat_diff left_diff_distrib pow)
  then show ?thesis
    by (simp add: le_val_def be_val_replicate_0)
qed

lemma sint_word_of_int_u64:
  "- (2 ^ 63) \<le> x \<Longrightarrow> x < 2 ^ 63 \<Longrightarrow> sint (word_of_int x :: u64) = x"
  by (simp add: sint_sbintrunc' signed_take_bit_int_eq_self)

lemma twos_val_range:
  assumes "body \<noteq> []" "length body \<le> 8"
  shows "- (2 ^ 63) \<le> twos_val body" "twos_val body < 2 ^ 63"
proof -
  obtain b bs where body: "body = b # bs" using assms(1) by (cases body) auto
  let ?m = "256 ^ length bs :: int"
  have m: "?m \<le> 256 ^ 7" "0 < ?m"
    by (rule power_increasing) (use assms(2) in \<open>auto simp: body\<close>)
  have bs: "int (be_val bs) < ?m"
    using be_val_bound [of bs] by (metis of_nat_less_iff of_nat_numeral of_nat_power)
  define x y where "x = uint b" and "y = int (be_val bs)"
  have y: "0 \<le> y" "y < ?m" using bs by (auto simp: y_def)
  have xb: "x = int (unat b)" by (simp add: x_def)
  then have "128 \<le> unat b \<longleftrightarrow> 128 \<le> x" by linarith
  then have val: "twos_val body = (if 128 \<le> x then x * ?m + y - 256 * ?m else x * ?m + y)"
    by (simp add: twos_val_def body be_val_Cons x_def y_def)
  have x: "0 \<le> x" "x \<le> 255"
    using unat_u8_le [of b] xb by linarith+
  have lo: "x * ?m \<le> 127 * ?m" if "\<not> 128 \<le> x"
    by (rule mult_right_mono) (use that m in linarith)+
  have hi: "128 * ?m \<le> x * ?m" if "128 \<le> x"
    by (rule mult_right_mono) (use that m in linarith)+
  have top: "x * ?m \<le> 255 * ?m"
    by (rule mult_right_mono) (use x m in linarith)+
  have pos: "0 \<le> x * ?m" using x m by simp
  have m': "?m \<le> 72057594037927936" using m(1) by simp
  have "-9223372036854775808 \<le> twos_val body \<and> twos_val body < 9223372036854775808"
  proof (cases "128 \<le> x")
    case True
    show ?thesis
      unfolding val using True hi [OF True] top y m' by (simp only: if_True) linarith
  next
    case False
    show ?thesis
      unfolding val using False lo [OF False] pos y m' by (simp only: if_False) linarith
  qed
  then show "- (2 ^ 63) \<le> twos_val body" "twos_val body < 2 ^ 63" by simp_all
qed

lemma assemble_int64:
  assumes "body \<noteq> []" "length body \<le> 8"
  shows "sint (of_nat (le_val (rev body @ drop (length body)
      (replicate 8 (if 128 \<le> unat (hd body) then 0xff else 0)))) :: u64) = twos_val body"
proof -
  let ?l = "le_val (rev body @ drop (length body)
      (replicate 8 (if 128 \<le> unat (hd body) then 0xff else 0)))"
  have l: "int ?l = twos_val body + (if 128 \<le> unat (hd body) then 2 ^ 64 else 0)"
    unfolding sign_extend_val [OF assms] using assms(1) by (simp add: twos_val_def)
  have "(of_nat ?l :: u64) = word_of_int (int ?l)"
    by simp
  also have "\<dots> = word_of_int (twos_val body)"
    unfolding l by (simp add: of_int_add)
  finally show ?thesis
    using twos_val_range [OF assms] by (simp add: sint_word_of_int_u64)
qed

lemma CBS_get_asn1_int64_iff:
  "CBS_get_asn1_int64 cbs = (Some v, r) \<longleftrightarrow>
    (\<exists>body. der_body_ok body \<and> cbs = der_element CBS_ASN1_INTEGER body @ r \<and>
       minimal_int body \<and> length body \<le> 8 \<and> sint v = twos_val body)"
    (is "?L \<longleftrightarrow> ?R")
proof
  assume ?L
  then obtain body where g: "CBS_get_asn1 CBS_ASN1_INTEGER cbs = (Some body, r)"
    and body: "body \<noteq> []" "length body \<le> 8"
    and m: "\<not> (length body > 1 \<and> body ! 0 = 0 \<and> body ! 1 AND 0x80 = 0)"
      "\<not> (length body > 1 \<and> body ! 0 = 0xff \<and> body ! 1 AND 0x80 \<noteq> 0)"
    and v: "v = of_nat (le_val (rev body @ drop (length body)
      (replicate 8 (if body ! 0 AND 0x80 \<noteq> 0 then 0xff else 0))))"
    by (auto simp: CBS_get_asn1_int64_def CBS_len_def Let_def split: prod.splits option.splits if_splits)
  have "sint v = twos_val body"
    using assemble_int64 [OF body] body(1) by (simp add: v hd_conv_nth and_0x80_iff not_less)
  moreover have "minimal_int body"
    using m body(1) by (auto simp: minimal_int_def and_0x80_iff)
  ultimately show ?R
    using g body(2) by (intro exI [of _ body]) (simp add: CBS_get_asn1_iff)
next
  assume ?R
  then obtain body where g: "CBS_get_asn1 CBS_ASN1_INTEGER cbs = (Some body, r)"
    and m: "minimal_int body" "length body \<le> 8" and v: "sint v = twos_val body"
    by (auto simp: CBS_get_asn1_iff)
  then have body: "body \<noteq> []" by (simp add: minimal_int_def)
  have "of_nat (le_val (rev body @ drop (length body)
      (replicate 8 (if 128 \<le> unat (hd body) then 0xff else 0)))) = v"
    by (rule word_eq_iff_signed [where ?'a = int, THEN iffD2]) (use assemble_int64 [OF body m(2)] v in simp)
  with g m body show ?L
    by (auto simp: CBS_get_asn1_int64_def CBS_len_def Let_def minimal_int_def and_0x80_iff
        hd_conv_nth not_less)
qed

end
