(* ===== verification/Comparator.thy ===== *)
theory Comparator
  imports Prelude "HOL-Library.Multiset"
begin

text \<open>
  Comparison functions in the manner of C (\<open>int cmp(const void *, const void *)\<close>), the contract
  \<open>qsort\<close> and \<open>bsearch\<close> rely on, and what it gives. \<open>qsort\<close> belongs to the C library; the
  model is an ascending rearrangement that is stable, one of the results C allows.
\<close>

fun insert_cmp :: "('a \<Rightarrow> 'a \<Rightarrow> int) \<Rightarrow> 'a \<Rightarrow> 'a list \<Rightarrow> 'a list" where
  "insert_cmp cmp x [] = [x]"
| "insert_cmp cmp x (y # ys) = (if cmp x y \<le> 0 then x # y # ys else y # insert_cmp cmp x ys)"

definition qsort :: "('a \<Rightarrow> 'a \<Rightarrow> int) \<Rightarrow> 'a list \<Rightarrow> 'a list" where
  "qsort cmp xs = foldr (insert_cmp cmp) xs []"

abbreviation cmp_sorted :: "('a \<Rightarrow> 'a \<Rightarrow> int) \<Rightarrow> 'a list \<Rightarrow> bool" where
  "cmp_sorted cmp \<equiv> sorted_wrt (\<lambda>x y. cmp x y \<le> 0)"

lemma mset_insert_cmp [simp]: "mset (insert_cmp cmp x ys) = add_mset x (mset ys)"
  by (induction ys) auto

lemma set_insert_cmp [simp]: "set (insert_cmp cmp x ys) = insert x (set ys)"
  using mset_insert_cmp [of cmp x ys] by (metis set_mset_add_mset_insert set_mset_mset)

lemma mset_qsort [simp]: "mset (qsort cmp xs) = mset xs"
  by (induction xs) (simp_all add: qsort_def)

lemma set_qsort [simp]: "set (qsort cmp xs) = set xs"
  by (metis mset_qsort set_mset_mset)

lemma length_qsort [simp]: "length (qsort cmp xs) = length xs"
  by (metis mset_qsort size_mset)

lemma qsort_Cons: "qsort cmp (x # xs) = insert_cmp cmp x (qsort cmp xs)"
  by (simp add: qsort_def)

text \<open>
  The contract is stated on a set of values, since some comparison functions order only the
  values a program gives them.
\<close>

locale comparator =
  fixes cmp :: "'a \<Rightarrow> 'a \<Rightarrow> int"
    and carrier :: "'a set"
  assumes sign: "x \<in> carrier \<Longrightarrow> y \<in> carrier \<Longrightarrow> sgn (cmp y x) = - sgn (cmp x y)"
    and trans: "x \<in> carrier \<Longrightarrow> y \<in> carrier \<Longrightarrow> z \<in> carrier \<Longrightarrow> cmp x y \<le> 0 \<Longrightarrow> cmp y z \<le> 0 \<Longrightarrow> cmp x z \<le> 0"
begin

lemma self_0: "x \<in> carrier \<Longrightarrow> cmp x x = 0"
  using sign [of x x] by (simp add: sgn_if split: if_splits)

lemma le_iff: "x \<in> carrier \<Longrightarrow> y \<in> carrier \<Longrightarrow> cmp y x \<le> 0 \<longleftrightarrow> 0 \<le> cmp x y"
  using sign [of x y] by (auto simp: sgn_if split: if_splits)

lemma lt_iff: "x \<in> carrier \<Longrightarrow> y \<in> carrier \<Longrightarrow> cmp y x < 0 \<longleftrightarrow> 0 < cmp x y"
  using sign [of x y] by (auto simp: sgn_if split: if_splits)

lemma eq_iff: "x \<in> carrier \<Longrightarrow> y \<in> carrier \<Longrightarrow> cmp y x = 0 \<longleftrightarrow> cmp x y = 0"
  using sign [of x y] by (auto simp: sgn_if split: if_splits)

lemma lt_trans:
  "x \<in> carrier \<Longrightarrow> y \<in> carrier \<Longrightarrow> z \<in> carrier \<Longrightarrow> cmp x y \<le> 0 \<Longrightarrow> cmp y z < 0 \<Longrightarrow> cmp x z < 0"
  using trans [of z x y] le_iff [of x z] lt_iff [of z y] by force

lemma le_trans_lt:
  "x \<in> carrier \<Longrightarrow> y \<in> carrier \<Longrightarrow> z \<in> carrier \<Longrightarrow> cmp x y < 0 \<Longrightarrow> cmp y z \<le> 0 \<Longrightarrow> cmp x z < 0"
  using trans [of y z x] le_iff [of x z] lt_iff [of y x] by force

text \<open>Along a sorted list the comparisons with a key fall from positive through zero to negative.\<close>

lemma sorted_comparisons_fall:
  assumes "cmp_sorted cmp xs" "set xs \<subseteq> carrier" "p \<in> carrier" "i \<le> j" "j < length xs"
  shows "sgn (cmp p (xs ! j)) \<le> sgn (cmp p (xs ! i))"
proof (cases "i = j")
  case False
  then have le: "cmp (xs ! i) (xs ! j) \<le> 0"
    using assms sorted_wrt_nth_less by fastforce
  have mem: "xs ! i \<in> carrier" "xs ! j \<in> carrier"
    using assms by (meson nth_mem subsetD le_less_trans)+
  show ?thesis
    using le le_trans_lt [OF assms(3) mem] trans [OF assms(3) mem]
    by (cases "cmp p (xs ! i) < 0"; cases "cmp p (xs ! i) = 0") (auto simp: sgn_if)
qed simp

lemma sorted_insert_cmp:
  "x \<in> carrier \<Longrightarrow> set ys \<subseteq> carrier \<Longrightarrow> cmp_sorted cmp ys \<Longrightarrow> cmp_sorted cmp (insert_cmp cmp x ys)"
proof (induction ys)
  case (Cons y ys)
  show ?case
  proof (cases "cmp x y \<le> 0")
    case True
    with Cons.prems show ?thesis by (auto intro: trans)
  next
    case False
    then have "cmp y x \<le> 0" using Cons.prems le_iff [of x y] by auto
    with Cons False show ?thesis by auto
  qed
qed simp

lemma sorted_qsort: "set xs \<subseteq> carrier \<Longrightarrow> cmp_sorted cmp (qsort cmp xs)"
  by (induction xs) (auto simp: qsort_Cons qsort_def [of _ "[]"] intro!: sorted_insert_cmp)

text \<open>Sorted lists of the same elements agree where \<open>cmp\<close> is zero on equal values only.\<close>

lemma sorted_unique:
  assumes "set xs \<subseteq> carrier" "cmp_sorted cmp xs" "cmp_sorted cmp ys" "mset xs = mset ys"
    and antisym: "\<And>x y. x \<in> set xs \<Longrightarrow> y \<in> set xs \<Longrightarrow> cmp x y = 0 \<Longrightarrow> x = y"
  shows "xs = ys"
  using assms
proof (induction xs arbitrary: ys)
  case (Cons x xs)
  from Cons.prems(4) obtain y ys' where ys: "ys = y # ys'" by (cases ys) auto
  have same: "insert x (set xs) = insert y (set ys')"
    using Cons.prems(4) ys by (metis list.simps(15) mset_eq_setD)
  have "cmp x y \<le> 0"
    using Cons.prems(1,2) same self_0 [of x] by (metis insert_iff list.set_intros(1) list.simps(15) order_refl sorted_wrt.simps(2) subsetD)
  moreover have "cmp y x \<le> 0"
    using Cons.prems(1,3) same ys self_0 [of x] by (metis insert_iff list.set_intros(1) list.simps(15) order_refl sorted_wrt.simps(2) subsetD)
  moreover have mem: "x \<in> carrier" "y \<in> carrier" using Cons.prems(1) same by auto
  ultimately have "cmp x y = 0" using le_iff [of x y] by force
  then have "x = y" using Cons.prems(5) [of x y] same by auto
  with Cons ys show ?case by auto
qed simp

end

end
