(* ===== verification/Cbb.thy ===== *)
theory Cbb
  imports Der_Element Comparator
begin

text \<open>
  \<open>crypto/bytestring/cbb.c\<close>: the builder \<open>CBB\<close> with its growing buffer and the chain of
  length-prefixed children.

  A root \<open>CBB\<close> owns a \<open>cbb_buffer_st\<close>; each open child hangs off its parent's \<open>child\<close> pointer,
  so the open children of one buffer form a chain. The state is the buffer (\<open>None\<close> after
  \<open>CBB_finish\<close> or \<open>CBB_cleanup\<close>) and that chain from the root downwards. The handle passed to an
  operation is its depth in the chain: 0 is the root, \<open>d\<close> the \<open>d\<close>-th child; a handle deeper than
  the chain is one whose \<open>base\<close> the flush has set to NULL. An operation returns whether the C
  function returned 1, and the state it leaves behind.
\<close>

unbundle bit_operations_syntax

subsection \<open>The buffer\<close>

text \<open>
  \<open>buf\<close> is the whole allocated block, so \<open>cap\<close> is its length. Bytes the allocator hands out
  are uninitialised in C; the model fills them with zeros, and no property depends on them.
\<close>

record cbb_buffer_st =
  buf :: bytes
  len :: nat
  can_resize :: bool
  error :: bool

abbreviation cap :: "cbb_buffer_st \<Rightarrow> nat" where
  "cap b \<equiv> length (buf b)"

record cbb_child =
  offset :: nat
  pending_len_len :: nat
  pending_is_asn1 :: bool

record cbb =
  base :: "cbb_buffer_st option"
  children :: "cbb_child list"

definition CBB_zero :: cbb where
  "CBB_zero = \<lparr>base = None, children = []\<rparr>"

definition cbb_init :: "allocator \<Rightarrow> bytes \<Rightarrow> cbb option" where
  "cbb_init al b =
     (if al 32 then
        Some (CBB_zero\<lparr>base := Some \<lparr>buf = b, len = 0, can_resize = True, error = False\<rparr>\<rparr>)
      else None)"

definition CBB_init :: "allocator \<Rightarrow> nat \<Rightarrow> cbb option" where
  "CBB_init al initial_capacity =
     (if initial_capacity > 0 \<and> \<not> al initial_capacity then None
      else cbb_init al (replicate initial_capacity 0))"

definition CBB_init_fixed :: "allocator \<Rightarrow> bytes \<Rightarrow> cbb option" where
  "CBB_init_fixed al b =
     (case cbb_init al b of
        None \<Rightarrow> None
      | Some s \<Rightarrow> Some (s\<lparr>base := map_option (\<lambda>bb. bb\<lparr>can_resize := False\<rparr>) (base s)\<rparr>))"

definition CBB_cleanup :: "cbb \<Rightarrow> cbb" where
  "CBB_cleanup s = s\<lparr>base := None\<rparr>"

definition cbb_buffer_reserve :: "allocator \<Rightarrow> nat \<Rightarrow> cbb_buffer_st \<Rightarrow> bool \<times> cbb_buffer_st" where
  "cbb_buffer_reserve al n b =
     (let newlen = (len b + n) mod size_lim
      in if newlen < len b then (False, b\<lparr>error := True\<rparr>)
         else if newlen > cap b then
           (let newcap0 = (cap b * 2) mod size_lim
            in if \<not> can_resize b then (False, b\<lparr>error := True\<rparr>)
               else let newcap = (if newcap0 < cap b \<or> newcap0 < newlen then newlen else newcap0)
                    in if \<not> al newcap then (False, b\<lparr>error := True\<rparr>)
                       else (True, b\<lparr>buf := buf b @ replicate (newcap - cap b) 0\<rparr>))
         else (True, b))"

definition cbb_buffer_add :: "allocator \<Rightarrow> nat \<Rightarrow> cbb_buffer_st \<Rightarrow> bool \<times> cbb_buffer_st" where
  "cbb_buffer_add al n b =
     (case cbb_buffer_reserve al n b of
        (False, b') \<Rightarrow> (False, b')
      | (True, b') \<Rightarrow> (True, b'\<lparr>len := len b' + n\<rparr>))"

text \<open>The store loop of \<open>cbb_buffer_add_u\<close>: the bytes from the last to the first, and what is left.\<close>

fun put_u_loop :: "nat \<Rightarrow> u64 \<Rightarrow> bytes \<Rightarrow> bytes \<times> u64" where
  "put_u_loop 0 v acc = (acc, v)"
| "put_u_loop (Suc i) v acc = put_u_loop i (drop_bit 8 v) (ucast v # acc)"

definition cbb_buffer_add_u :: "allocator \<Rightarrow> u64 \<Rightarrow> nat \<Rightarrow> cbb_buffer_st \<Rightarrow> bool \<times> cbb_buffer_st" where
  "cbb_buffer_add_u al v len_len b =
     (if len_len = 0 then (True, b)
      else case cbb_buffer_add al len_len b of
             (False, b') \<Rightarrow> (False, b')
           | (True, b') \<Rightarrow>
               (case put_u_loop len_len v [] of (bs, rest) \<Rightarrow>
                  let b'' = b'\<lparr>buf := blit (len b) bs (buf b')\<rparr>
                  in if rest \<noteq> 0 then (False, b''\<lparr>error := True\<rparr>) else (True, b'')))"

subsection \<open>Flushing\<close>

text \<open>The choice of the DER length form: \<open>len_len\<close>, the first byte and the length still to write.\<close>

definition asn1_length_form :: "nat \<Rightarrow> nat \<times> u8 \<times> nat" where
  "asn1_length_form n =
     (if n > 0xffffff then (5, 0x80 OR 4, n)
      else if n > 0xffff then (4, 0x80 OR 3, n)
      else if n > 0xff then (3, 0x80 OR 2, n)
      else if n > 0x7f then (2, 0x80 OR 1, n)
      else (1, word_of_nat n, 0))"

text \<open>The length bytes, last first; returns the part of the length that did not fit.\<close>

fun put_len_loop :: "nat \<Rightarrow> nat \<Rightarrow> bytes \<Rightarrow> bytes \<times> nat" where
  "put_len_loop 0 n acc = (acc, n)"
| "put_len_loop (Suc i) n acc = put_len_loop i (n div 256) (word_of_nat n # acc)"

text \<open>
  The tail of \<open>CBB_flush\<close> for one pending child, once its own children are flushed: the
  header is written, for an ASN.1 child after making room for a longer length.
\<close>

definition flush_one :: "allocator \<Rightarrow> cbb_child \<Rightarrow> cbb_buffer_st \<Rightarrow> bool \<times> cbb_child \<times> cbb_buffer_st" where
  "flush_one al c b =
     (let child_start = (offset c + pending_len_len c) mod size_lim
      in if child_start < offset c \<or> len b < child_start then (False, c, b\<lparr>error := True\<rparr>)
         else
           let n = len b - child_start;
               write = (\<lambda>c b n. case put_len_loop (pending_len_len c) n [] of (bs, rest) \<Rightarrow>
                  let b' = b\<lparr>buf := blit (offset c) bs (buf b)\<rparr>
                  in if rest \<noteq> 0 then (False, c, b'\<lparr>error := True\<rparr>) else (True, c, b'))
           in if pending_is_asn1 c then
                if n > 0xfffffffe then (False, c, b\<lparr>error := True\<rparr>)
                else case asn1_length_form n of (len_len, initial_length_byte, n') \<Rightarrow>
                  (case (if len_len \<noteq> 1 then cbb_buffer_add al (len_len - 1) b else (True, b)) of
                     (False, b') \<Rightarrow> (False, c, b'\<lparr>error := True\<rparr>)
                   | (True, b') \<Rightarrow>
                       let b1 = (if len_len \<noteq> 1
                                 then b'\<lparr>buf := blit (child_start + (len_len - 1))
                                          (take n (drop child_start (buf b'))) (buf b')\<rparr>
                                 else b');
                           b2 = b1\<lparr>buf := (buf b1)[offset c := initial_length_byte]\<rparr>;
                           c' = c\<lparr>offset := offset c + 1, pending_len_len := len_len - 1\<rparr>
                       in write c' b2 n')
              else write c b n)"

fun flush_chain :: "allocator \<Rightarrow> cbb_child list \<Rightarrow> cbb_buffer_st \<Rightarrow> bool \<times> cbb_child list \<times> cbb_buffer_st" where
  "flush_chain al [] b = (\<not> error b, [], b)"
| "flush_chain al (c # cs) b =
     (if error b then (False, c # cs, b)
      else if pending_len_len c = 0 then (True, c # cs, b)
      else case flush_chain al cs b of
             (False, cs', b') \<Rightarrow> (False, c # cs', b'\<lparr>error := True\<rparr>)
           | (True, cs', b') \<Rightarrow>
               (case flush_one al c b' of
                  (False, c', b'') \<Rightarrow> (False, c' # cs', b'')
                | (True, _, b'') \<Rightarrow> (True, [], b'')))"

definition CBB_flush :: "allocator \<Rightarrow> nat \<Rightarrow> cbb \<Rightarrow> bool \<times> cbb" where
  "CBB_flush al d s =
     (case base s of
        None \<Rightarrow> (False, s)
      | Some b \<Rightarrow>
          if d > length (children s) then (False, s)
          else case flush_chain al (drop d (children s)) b of
                 (ok, cs, b') \<Rightarrow> (ok, s\<lparr>base := Some b', children := take d (children s) @ cs\<rparr>))"

text \<open>A buffer operation behind a flush, as most of the \<open>CBB_add\<close> functions are.\<close>

definition flush_then ::
  "allocator \<Rightarrow> nat \<Rightarrow> (cbb_buffer_st \<Rightarrow> bool \<times> cbb_buffer_st) \<Rightarrow> cbb \<Rightarrow> bool \<times> cbb" where
  "flush_then al d f s =
     (case CBB_flush al d s of
        (False, s1) \<Rightarrow> (False, s1)
      | (True, s1) \<Rightarrow>
          (case base s1 of
             None \<Rightarrow> (False, s1)
           | Some b \<Rightarrow> (case f b of (ok, b') \<Rightarrow> (ok, s1\<lparr>base := Some b'\<rparr>))))"

definition CBB_finish :: "allocator \<Rightarrow> bool \<Rightarrow> nat \<Rightarrow> cbb \<Rightarrow> bytes option \<times> cbb" where
  "CBB_finish al want_out d s =
     (if d > 0 then (None, s)
      else case CBB_flush al 0 s of
             (False, s1) \<Rightarrow> (None, s1)
           | (True, s1) \<Rightarrow>
               (case base s1 of
                  None \<Rightarrow> (None, s1)
                | Some b \<Rightarrow>
                    if can_resize b \<and> \<not> want_out then (None, s1)
                    else (Some (take (len b) (buf b)), CBB_cleanup s1)))"

text \<open>
  The start of the contents of handle \<open>d\<close>; a root has \<open>offset\<close> and \<open>pending_len_len\<close> zero.
  \<open>CBB_data\<close> and \<open>CBB_len\<close> require (an assertion) that no child is open.
\<close>

definition content_start :: "nat \<Rightarrow> cbb \<Rightarrow> nat" where
  "content_start d s =
     (if d = 0 then 0
      else offset (children s ! (d - 1)) + pending_len_len (children s ! (d - 1)))"

definition CBB_data :: "nat \<Rightarrow> cbb \<Rightarrow> bytes" where
  "CBB_data d s =
     (case base s of None \<Rightarrow> [] | Some b \<Rightarrow> take (len b - content_start d s) (drop (content_start d s) (buf b)))"

definition CBB_len :: "nat \<Rightarrow> cbb \<Rightarrow> nat" where
  "CBB_len d s =
     (case base s of None \<Rightarrow> 0 | Some b \<Rightarrow> len b - content_start d s)"

subsection \<open>Appending\<close>

definition CBB_add_u8 :: "allocator \<Rightarrow> nat \<Rightarrow> u8 \<Rightarrow> cbb \<Rightarrow> bool \<times> cbb" where
  "CBB_add_u8 al d v s = flush_then al d (cbb_buffer_add_u al (ucast v) 1) s"

definition CBB_add_u16 :: "allocator \<Rightarrow> nat \<Rightarrow> u16 \<Rightarrow> cbb \<Rightarrow> bool \<times> cbb" where
  "CBB_add_u16 al d v s = flush_then al d (cbb_buffer_add_u al (ucast v) 2) s"

definition CBB_add_u16le :: "allocator \<Rightarrow> nat \<Rightarrow> u16 \<Rightarrow> cbb \<Rightarrow> bool \<times> cbb" where
  "CBB_add_u16le al d v s = CBB_add_u16 al d (CRYPTO_bswap2 v) s"

definition CBB_add_u24 :: "allocator \<Rightarrow> nat \<Rightarrow> u32 \<Rightarrow> cbb \<Rightarrow> bool \<times> cbb" where
  "CBB_add_u24 al d v s = flush_then al d (cbb_buffer_add_u al (ucast v) 3) s"

definition CBB_add_u32 :: "allocator \<Rightarrow> nat \<Rightarrow> u32 \<Rightarrow> cbb \<Rightarrow> bool \<times> cbb" where
  "CBB_add_u32 al d v s = flush_then al d (cbb_buffer_add_u al (ucast v) 4) s"

definition CBB_add_u32le :: "allocator \<Rightarrow> nat \<Rightarrow> u32 \<Rightarrow> cbb \<Rightarrow> bool \<times> cbb" where
  "CBB_add_u32le al d v s = CBB_add_u32 al d (CRYPTO_bswap4 v) s"

definition CBB_add_u64 :: "allocator \<Rightarrow> nat \<Rightarrow> u64 \<Rightarrow> cbb \<Rightarrow> bool \<times> cbb" where
  "CBB_add_u64 al d v s = flush_then al d (cbb_buffer_add_u al v 8) s"

definition CBB_add_u64le :: "allocator \<Rightarrow> nat \<Rightarrow> u64 \<Rightarrow> cbb \<Rightarrow> bool \<times> cbb" where
  "CBB_add_u64le al d v s = CBB_add_u64 al d (CRYPTO_bswap8 v) s"

definition buffer_add_bytes :: "allocator \<Rightarrow> bytes \<Rightarrow> cbb_buffer_st \<Rightarrow> bool \<times> cbb_buffer_st" where
  "buffer_add_bytes al data b =
     (case cbb_buffer_add al (length data) b of
        (False, b') \<Rightarrow> (False, b')
      | (True, b') \<Rightarrow> (True, b'\<lparr>buf := blit (len b) data (buf b')\<rparr>))"

definition CBB_add_bytes :: "allocator \<Rightarrow> nat \<Rightarrow> bytes \<Rightarrow> cbb \<Rightarrow> bool \<times> cbb" where
  "CBB_add_bytes al d data s = flush_then al d (buffer_add_bytes al data) s"

text \<open>The spaces \<open>CBB_add_space\<close> and \<open>CBB_reserve\<close> hand out start at the old \<open>len\<close>.\<close>

definition CBB_add_space :: "allocator \<Rightarrow> nat \<Rightarrow> nat \<Rightarrow> cbb \<Rightarrow> bool \<times> cbb" where
  "CBB_add_space al d n s = flush_then al d (cbb_buffer_add al n) s"

definition CBB_reserve :: "allocator \<Rightarrow> nat \<Rightarrow> nat \<Rightarrow> cbb \<Rightarrow> bool \<times> cbb" where
  "CBB_reserve al d n s = flush_then al d (cbb_buffer_reserve al n) s"

definition CBB_did_write :: "nat \<Rightarrow> nat \<Rightarrow> cbb \<Rightarrow> bool \<times> cbb" where
  "CBB_did_write d n s =
     (case base s of
        None \<Rightarrow> (False, s)
      | Some b \<Rightarrow>
          let newlen = (len b + n) mod size_lim
          in if d < length (children s) \<or> newlen < len b \<or> newlen > cap b then (False, s)
             else (True, s\<lparr>base := Some (b\<lparr>len := newlen\<rparr>)\<rparr>))"

definition CBB_discard_child :: "nat \<Rightarrow> cbb \<Rightarrow> cbb" where
  "CBB_discard_child d s =
     (if length (children s) \<le> d then s
      else s\<lparr>base := map_option (\<lambda>b. b\<lparr>len := offset (children s ! d)\<rparr>) (base s),
             children := take d (children s)\<rparr>)"

subsection \<open>Children\<close>

definition cbb_add_length_prefixed :: "allocator \<Rightarrow> nat \<Rightarrow> nat \<Rightarrow> cbb \<Rightarrow> bool \<times> cbb" where
  "cbb_add_length_prefixed al d len_len s =
     (case CBB_flush al d s of
        (False, s1) \<Rightarrow> (False, s1)
      | (True, s1) \<Rightarrow>
          (case base s1 of
             None \<Rightarrow> (False, s1)
           | Some b \<Rightarrow>
               (case cbb_buffer_add al len_len b of
                  (False, b') \<Rightarrow> (False, s1\<lparr>base := Some b'\<rparr>)
                | (True, b') \<Rightarrow>
                    (True, \<lparr>base = Some (b'\<lparr>buf := blit (len b) (replicate len_len 0) (buf b')\<rparr>),
                            children = take d (children s1) @
                              [\<lparr>offset = len b, pending_len_len = len_len,
                                pending_is_asn1 = False\<rparr>]\<rparr>))))"

definition CBB_add_u8_length_prefixed :: "allocator \<Rightarrow> nat \<Rightarrow> cbb \<Rightarrow> bool \<times> cbb" where
  "CBB_add_u8_length_prefixed al d s = cbb_add_length_prefixed al d 1 s"

definition CBB_add_u16_length_prefixed :: "allocator \<Rightarrow> nat \<Rightarrow> cbb \<Rightarrow> bool \<times> cbb" where
  "CBB_add_u16_length_prefixed al d s = cbb_add_length_prefixed al d 2 s"

definition CBB_add_u24_length_prefixed :: "allocator \<Rightarrow> nat \<Rightarrow> cbb \<Rightarrow> bool \<times> cbb" where
  "CBB_add_u24_length_prefixed al d s = cbb_add_length_prefixed al d 3 s"

text \<open>The digit count of \<open>add_base128_integer\<close> and its output loop, from digit \<open>i - 1\<close> down.\<close>

function base128_len :: "u64 \<Rightarrow> nat" where
  "base128_len copy = (if copy > 0 then Suc (base128_len (drop_bit 7 copy)) else 0)"
  by pat_completeness auto
termination
  by (relation "measure unat") (auto simp: unat_drop_bit word_less_nat_alt)

declare base128_len.simps [simp del]

fun add_base128_loop :: "allocator \<Rightarrow> nat \<Rightarrow> u64 \<Rightarrow> nat \<Rightarrow> cbb \<Rightarrow> bool \<times> cbb" where
  "add_base128_loop al d v 0 s = (True, s)"
| "add_base128_loop al d v (Suc i) s =
     (let b = ucast (drop_bit (7 * i) v) AND 0x7f;
          b' = (if i \<noteq> 0 then b OR 0x80 else b)
      in case CBB_add_u8 al d b' s of
           (False, s') \<Rightarrow> (False, s')
         | (True, s') \<Rightarrow> add_base128_loop al d v i s')"

definition add_base128_integer :: "allocator \<Rightarrow> nat \<Rightarrow> u64 \<Rightarrow> cbb \<Rightarrow> bool \<times> cbb" where
  "add_base128_integer al d v s =
     (let n = base128_len v; len_len = (if n = 0 then 1 else n)
      in add_base128_loop al d v len_len s)"

text \<open>The tag bytes \<open>CBB_add_asn1\<close> writes.\<close>

definition add_asn1_tag :: "allocator \<Rightarrow> nat \<Rightarrow> u32 \<Rightarrow> cbb \<Rightarrow> bool \<times> cbb" where
  "add_asn1_tag al d tag s =
     (let tag_bits = ucast (drop_bit CBS_ASN1_TAG_SHIFT tag AND 0xe0) :: u8;
          tag_number = tag AND CBS_ASN1_TAG_NUMBER_MASK
      in if tag_number \<ge> 0x1f then
           (case CBB_add_u8 al d (tag_bits OR 0x1f) s of
              (False, s1) \<Rightarrow> (False, s1)
            | (True, s1) \<Rightarrow> add_base128_integer al d (ucast tag_number) s1)
         else CBB_add_u8 al d (tag_bits OR ucast tag_number) s)"

definition CBB_add_asn1 :: "allocator \<Rightarrow> nat \<Rightarrow> u32 \<Rightarrow> cbb \<Rightarrow> bool \<times> cbb" where
  "CBB_add_asn1 al d tag s =
     (case CBB_flush al d s of
        (False, s1) \<Rightarrow> (False, s1)
      | (True, s1) \<Rightarrow>
     (case add_asn1_tag al d tag s1 of
        (False, s2) \<Rightarrow> (False, s2)
      | (True, s2) \<Rightarrow>
     (case base s2 of
        None \<Rightarrow> (False, s2)
      | Some b \<Rightarrow>
          let off = len b
          in case CBB_add_u8 al d 0 s2 of
               (False, s3) \<Rightarrow> (False, s3)
             | (True, s3) \<Rightarrow>
                 (True, s3\<lparr>children := take d (children s3) @
                    [\<lparr>offset = off, pending_len_len = 1, pending_is_asn1 = True\<rparr>]\<rparr>))))"

subsection \<open>DER values\<close>

text \<open>
  The loop of \<open>CBB_add_asn1_uint64\<close> over the eight bytes of the value, most significant
  first; the local \<open>child\<close> of the function is handle \<open>d + 1\<close>.
\<close>

fun asn1_uint64_bytes :: "allocator \<Rightarrow> nat \<Rightarrow> u64 \<Rightarrow> nat \<Rightarrow> bool \<Rightarrow> cbb \<Rightarrow> bool \<times> bool \<times> cbb" where
  "asn1_uint64_bytes al d v 0 started s = (True, started, s)"
| "asn1_uint64_bytes al d v (Suc i) started s =
     (let b = ucast (drop_bit (8 * i) v) :: u8
      in if \<not> started \<and> b = 0 then asn1_uint64_bytes al d v i started s
         else case (if \<not> started \<and> b AND 0x80 \<noteq> 0 then CBB_add_u8 al (d + 1) 0 s else (True, s)) of
                (False, s1) \<Rightarrow> (False, started, s1)
              | (True, s1) \<Rightarrow>
                  (case CBB_add_u8 al (d + 1) b s1 of
                     (False, s2) \<Rightarrow> (False, True, s2)
                   | (True, s2) \<Rightarrow> asn1_uint64_bytes al d v i True s2))"

definition CBB_add_asn1_uint64 :: "allocator \<Rightarrow> nat \<Rightarrow> u64 \<Rightarrow> cbb \<Rightarrow> bool \<times> cbb" where
  "CBB_add_asn1_uint64 al d v s =
     (case CBB_add_asn1 al d CBS_ASN1_INTEGER s of
        (False, s1) \<Rightarrow> (False, s1)
      | (True, s1) \<Rightarrow>
     (case asn1_uint64_bytes al d v 8 False s1 of
        (False, _, s2) \<Rightarrow> (False, s2)
      | (True, started, s2) \<Rightarrow>
     (case (if \<not> started then CBB_add_u8 al (d + 1) 0 s2 else (True, s2)) of
        (False, s3) \<Rightarrow> (False, s3)
      | (True, s3) \<Rightarrow> CBB_flush al d s3)))"

text \<open>The bytes of an \<open>int64_t\<close> on a little-endian machine, and the sign bytes to skip.\<close>

definition int64_bytes :: "u64 \<Rightarrow> bytes" where
  "int64_bytes v = le_bytes 8 (unat v)"

fun int64_start :: "bytes \<Rightarrow> nat \<Rightarrow> nat" where
  "int64_start u 0 = 0"
| "int64_start u (Suc i) =
     (if u ! Suc i = 0xff \<and> u ! i AND 0x80 \<noteq> 0 then int64_start u i else Suc i)"

fun add_bytes_down :: "allocator \<Rightarrow> nat \<Rightarrow> bytes \<Rightarrow> nat \<Rightarrow> cbb \<Rightarrow> bool \<times> cbb" where
  "add_bytes_down al d u 0 s = (True, s)"
| "add_bytes_down al d u (Suc i) s =
     (case CBB_add_u8 al d (u ! i) s of
        (False, s') \<Rightarrow> (False, s')
      | (True, s') \<Rightarrow> add_bytes_down al d u i s')"

definition CBB_add_asn1_int64 :: "allocator \<Rightarrow> nat \<Rightarrow> u64 \<Rightarrow> cbb \<Rightarrow> bool \<times> cbb" where
  "CBB_add_asn1_int64 al d v s =
     (if sint v \<ge> 0 then CBB_add_asn1_uint64 al d v s
      else let u = int64_bytes v; start = int64_start u 7
           in case CBB_add_asn1 al d CBS_ASN1_INTEGER s of
                (False, s1) \<Rightarrow> (False, s1)
              | (True, s1) \<Rightarrow>
             (case add_bytes_down al (d + 1) u (start + 1) s1 of
                (False, s2) \<Rightarrow> (False, s2)
              | (True, s2) \<Rightarrow> CBB_flush al d s2))"

definition CBB_add_asn1_octet_string :: "allocator \<Rightarrow> nat \<Rightarrow> bytes \<Rightarrow> cbb \<Rightarrow> bool \<times> cbb" where
  "CBB_add_asn1_octet_string al d data s =
     (case CBB_add_asn1 al d CBS_ASN1_OCTETSTRING s of
        (False, s1) \<Rightarrow> (False, s1)
      | (True, s1) \<Rightarrow>
     (case CBB_add_bytes al (d + 1) data s1 of
        (False, s2) \<Rightarrow> (False, s2)
      | (True, s2) \<Rightarrow> CBB_flush al d s2))"

definition CBB_add_asn1_bool :: "allocator \<Rightarrow> nat \<Rightarrow> int \<Rightarrow> cbb \<Rightarrow> bool \<times> cbb" where
  "CBB_add_asn1_bool al d v s =
     (case CBB_add_asn1 al d CBS_ASN1_BOOLEAN s of
        (False, s1) \<Rightarrow> (False, s1)
      | (True, s1) \<Rightarrow>
     (case CBB_add_u8 al (d + 1) (if v \<noteq> 0 then 0xff else 0) s1 of
        (False, s2) \<Rightarrow> (False, s2)
      | (True, s2) \<Rightarrow> CBB_flush al d s2))"

subsection \<open>Sets\<close>

text \<open>
  \<open>compare_set_of_element\<close>, the order of X.690 on encodings; \<open>qsort\<close> is in \<open>Comparator\<close>. Elements
  that compare equal are equal byte strings, so the order C leaves open does not matter.
\<close>

definition compare_set_of_element :: "cbs \<Rightarrow> cbs \<Rightarrow> int" where
  "compare_set_of_element a b =
     (let a_len = CBS_len a; b_len = CBS_len b;
          min_len = (if a_len < b_len then a_len else b_len);
          ret = OPENSSL_memcmp (CBS_data a) (CBS_data b) min_len
      in if ret \<noteq> 0 then ret
         else if a_len = b_len then 0
         else if a_len < b_len then -1 else 1)"

text \<open>One element, as the loops of \<open>CBB_flush_asn1_set_of\<close> take it.\<close>

definition get_element :: "cbs reader" where
  "get_element cbs =
     (case CBS_get_any_asn1_element cbs of
        (None, c) \<Rightarrow> (None, c)
      | (Some (out, _, _), c) \<Rightarrow> (Some out, c))"

fun add_all :: "allocator \<Rightarrow> nat \<Rightarrow> cbs list \<Rightarrow> cbb \<Rightarrow> bool \<times> cbb" where
  "add_all al d [] s = (True, s)"
| "add_all al d (c # cs) s =
     (case CBB_add_bytes al d (CBS_data c) s of
        (False, s') \<Rightarrow> (False, s')
      | (True, s') \<Rightarrow> add_all al d cs s')"

definition CBB_flush_asn1_set_of :: "allocator \<Rightarrow> nat \<Rightarrow> cbb \<Rightarrow> bool \<times> cbb" where
  "CBB_flush_asn1_set_of al d s =
     (case CBB_flush al d s of
        (False, s1) \<Rightarrow> (False, s1)
      | (True, s1) \<Rightarrow>
          let cbs = CBS_init (CBB_data d s1) (CBB_len d s1)
          in case read_all (length cbs) get_element cbs of
               None \<Rightarrow> (False, s1)
             | Some elements \<Rightarrow>
                 let num_children = length elements
                 in if num_children < 2 then (True, s1)
                    else if num_children > (size_lim - 1) div 16 then (False, s1)
                    else if OPENSSL_memdup al (CBB_data d s1) = None \<or> \<not> al (num_children * 16)
                    then (False, s1)
                    else add_all al d (qsort compare_set_of_element elements)
                           (s1\<lparr>base := map_option (\<lambda>b. b\<lparr>len := content_start d s1\<rparr>) (base s1)\<rparr>))"

end
