(* ===== verification/Cbb_Buffer.thy ===== *)
theory Cbb_Buffer
  imports Cbb
begin

text \<open>
  The buffer level of the builder: what \<open>cbb_buffer_reserve\<close>, \<open>cbb_buffer_add\<close> and the stores
  behind them do to the valid bytes, when they fail, and what \<open>CBB_flush\<close> makes of a chain of
  open children (\<open>collapse\<close>, the specification of nested length prefixes).
\<close>

unbundle bit_operations_syntax

definition content :: "cbb_buffer_st \<Rightarrow> bytes" where
  "content b = take (len b) (buf b)"

definition wf_buf :: "cbb_buffer_st \<Rightarrow> bool" where
  "wf_buf b \<longleftrightarrow> len b \<le> cap b \<and> cap b < size_lim"

text \<open>The same buffer except for its bytes: a result of a successful operation.\<close>

definition same_flags :: "cbb_buffer_st \<Rightarrow> cbb_buffer_st \<Rightarrow> bool" where
  "same_flags b b' \<longleftrightarrow> can_resize b' = can_resize b \<and> error b' = error b"

text \<open>Enough room for \<open>n\<close> bytes in all: in place, or by growing with an obliging allocator.\<close>

definition room :: "allocator \<Rightarrow> nat \<Rightarrow> cbb_buffer_st \<Rightarrow> bool" where
  "room al n b \<longleftrightarrow> n < size_lim \<and> (n \<le> cap b \<or> (can_resize b \<and> (\<forall>m. al m)))"

lemma length_content [simp]: "wf_buf b \<Longrightarrow> length (content b) = len b"
  by (simp add: content_def wf_buf_def)

lemma same_flags_refl [simp]: "same_flags b b"
  by (simp add: same_flags_def)

lemma same_flags_trans: "same_flags a b \<Longrightarrow> same_flags b c \<Longrightarrow> same_flags a c"
  by (simp add: same_flags_def)

lemma room_mono: "room al n b \<Longrightarrow> m \<le> n \<Longrightarrow> room al m b"
  by (auto simp: room_def)

subsection \<open>Reserving and adding\<close>

lemma newlen_no_overflow:
  "wf_buf b \<Longrightarrow> n < size_lim \<Longrightarrow> \<not> (len b + n) mod size_lim < len b \<Longrightarrow>
    (len b + n) mod size_lim = len b + n \<and> len b + n < size_lim"
proof -
  assume wf: "wf_buf b" and n: "n < size_lim" and no: "\<not> (len b + n) mod size_lim < len b"
  show ?thesis
  proof (cases "len b + n < size_lim")
    case False
    then have "(len b + n) mod size_lim = (len b + n - size_lim) mod size_lim"
      by (intro le_mod_geq) simp
    also have "\<dots> = len b + n - size_lim"
      using wf n unfolding wf_buf_def by (intro mod_less) linarith
    finally show ?thesis using n no False by linarith
  qed simp
qed

lemma cbb_buffer_reserve_ok:
  assumes "cbb_buffer_reserve al n b = (True, b')" "wf_buf b" "n < size_lim"
  shows "wf_buf b'" "len b' = len b" "len b + n \<le> cap b'" "same_flags b b'"
    "\<exists>k. buf b' = buf b @ replicate k 0"
proof -
  let ?new = "(len b + n) mod size_lim"
  from assms(1) have "\<not> ?new < len b"
    by (auto simp: cbb_buffer_reserve_def Let_def)
  note new = newlen_no_overflow [OF assms(2,3) this]
  have "wf_buf b' \<and> len b' = len b \<and> len b + n \<le> cap b' \<and> same_flags b b' \<and>
      (\<exists>k. buf b' = buf b @ replicate k 0)"
  proof (cases "len b + n > cap b")
    case False
    with assms(1) new have "b' = b"
      by (auto simp: cbb_buffer_reserve_def Let_def)
    with False assms(2) show ?thesis
      by (auto intro: exI [of _ 0])
  next
    case True
    let ?dbl = "(cap b * 2) mod size_lim"
    let ?c = "if ?dbl < cap b \<or> ?dbl < len b + n then len b + n else ?dbl"
    have b': "b' = b\<lparr>buf := buf b @ replicate (?c - cap b) 0\<rparr>"
      using assms(1) new True
      by (auto simp: cbb_buffer_reserve_def Let_def split: if_splits)
    have c0: "?dbl < size_lim" by simp
    have n: "len b + n < size_lim" using new by (rule conjunct2)
    have "?c < size_lim"
      by (cases "?dbl < cap b \<or> ?dbl < len b + n") (simp_all only: if_True if_False c0 n)
    moreover have "len b + n \<le> ?c" "cap b \<le> ?c"
      using True by auto
    ultimately have "?c < size_lim" "len b + n \<le> ?c" "cap b \<le> ?c" .
    then show ?thesis
      unfolding b' using assms(2) by (auto simp: wf_buf_def same_flags_def)
  qed
  then show "wf_buf b'" "len b' = len b" "len b + n \<le> cap b'" "same_flags b b'"
    "\<exists>k. buf b' = buf b @ replicate k 0" by auto
qed

lemma cbb_buffer_reserve_fails:
  "cbb_buffer_reserve al n b = (False, b') \<Longrightarrow> b' = b\<lparr>error := True\<rparr>"
  by (auto simp: cbb_buffer_reserve_def Let_def split: if_splits)

lemma cbb_buffer_reserve_room:
  assumes "wf_buf b" "room al (len b + n) b"
  shows "fst (cbb_buffer_reserve al n b)"
proof -
  have "(len b + n) mod size_lim = len b + n"
    using assms(2) by (simp add: room_def)
  then show ?thesis
    using assms by (auto simp: cbb_buffer_reserve_def Let_def room_def)
qed

lemma cbb_buffer_add_ok:
  assumes "cbb_buffer_add al n b = (True, b')" "wf_buf b" "n < size_lim"
  shows "wf_buf b'" "len b' = len b + n" "same_flags b b'"
    "\<exists>k. buf b' = buf b @ replicate k 0"
proof -
  from assms(1) obtain b1 where r: "cbb_buffer_reserve al n b = (True, b1)"
    and b': "b' = b1\<lparr>len := len b1 + n\<rparr>"
    by (auto simp: cbb_buffer_add_def split: prod.splits bool.splits)
  note ok = cbb_buffer_reserve_ok [OF r assms(2,3)]
  then show "wf_buf b'" "len b' = len b + n" "same_flags b b'"
    "\<exists>k. buf b' = buf b @ replicate k 0"
    by (auto simp: b' wf_buf_def same_flags_def)
qed

lemma cbb_buffer_add_fails:
  "cbb_buffer_add al n b = (False, b') \<Longrightarrow> b' = b\<lparr>error := True\<rparr>"
  by (auto simp: cbb_buffer_add_def dest: cbb_buffer_reserve_fails split: prod.splits bool.splits)

lemma cbb_buffer_add_room:
  "wf_buf b \<Longrightarrow> room al (len b + n) b \<Longrightarrow> fst (cbb_buffer_add al n b)"
  using cbb_buffer_reserve_room [of b al n]
  by (auto simp: cbb_buffer_add_def split: prod.splits bool.splits)

text \<open>Storing \<open>xs\<close> in the bytes just added appends them to the content.\<close>

lemma blit_fresh:
  assumes "wf_buf b" "wf_buf b'" "len b' = len b + length xs" "buf b' = buf b @ zs"
  shows "content (b'\<lparr>buf := blit (len b) xs (buf b')\<rparr>) = content b @ xs"
    "wf_buf (b'\<lparr>buf := blit (len b) xs (buf b')\<rparr>)"
  using assms by (auto simp: content_def wf_buf_def blit_def min_def)

lemma buffer_add_bytes_ok:
  assumes "buffer_add_bytes al data b = (True, b')" "wf_buf b" "length data < size_lim"
  shows "wf_buf b'" "content b' = content b @ data" "same_flags b b'"
proof -
  from assms(1) obtain b1 where a: "cbb_buffer_add al (length data) b = (True, b1)"
    and b': "b' = b1\<lparr>buf := blit (len b) data (buf b1)\<rparr>"
    by (auto simp: buffer_add_bytes_def split: prod.splits bool.splits)
  note ok = cbb_buffer_add_ok [OF a assms(2,3)]
  then obtain zs where "buf b1 = buf b @ zs" by blast
  from blit_fresh [OF assms(2) ok(1,2) this]
  show "wf_buf b'" "content b' = content b @ data"
    by (simp_all add: b')
  show "same_flags b b'"
    using ok(3) by (simp add: b' same_flags_def)
qed

lemma put_u_loop_be_bytes: "put_u_loop i v acc = (be_bytes i (unat v) @ acc, drop_bit (8 * i) v)"
proof (induction i v acc rule: put_u_loop.induct)
  case (2 i v acc)
  have "ucast v = (word_of_nat (unat v) :: u8)"
    by (rule word_unat_eq_iff [THEN iffD2]) (simp add: unat_ucast_down)
  moreover have "drop_bit (8 * i) (drop_bit 8 v) = drop_bit (8 * Suc i) v"
    by (simp only: drop_bit_drop_bit mult_Suc_right add.commute)
  ultimately show ?case
    using 2 by (simp add: unat_drop_bit del: mult_Suc_right)
qed simp

lemma put_len_loop_be_bytes: "put_len_loop i n acc = (be_bytes i n @ acc, n div 256 ^ i)"
  by (induction i n acc rule: put_len_loop.induct) (simp_all add: div_mult2_eq)

lemma drop_bit_bytes_0_iff: "drop_bit (8 * k) (v :: u64) = 0 \<longleftrightarrow> unat v < 256 ^ k"
  using power_mult [of "2 :: nat" 8 k] by (simp add: drop_bit_eq_0_iff)

text \<open>A store of \<open>k\<close> bytes is a store of the big-endian bytes, unless the value is too large.\<close>

lemma cbb_buffer_add_u_bytes:
  assumes "0 < k"
  shows "cbb_buffer_add_u al v k b =
    (case buffer_add_bytes al (be_bytes k (unat v)) b of
       (False, b') \<Rightarrow> (False, b')
     | (True, b') \<Rightarrow> if unat v < 256 ^ k then (True, b') else (False, b'\<lparr>error := True\<rparr>))"
proof -
  obtain ok b1 where a: "cbb_buffer_add al k b = (ok, b1)" by fastforce
  show ?thesis
    using assms by (cases ok)
      (simp_all add: cbb_buffer_add_u_def buffer_add_bytes_def a put_u_loop_be_bytes
        drop_bit_bytes_0_iff Let_def)
qed

lemma cbb_buffer_add_u_ok:
  assumes "cbb_buffer_add_u al v k b = (True, b')" "0 < k"
  shows "unat v < 256 ^ k" "buffer_add_bytes al (be_bytes k (unat v)) b = (True, b')"
  using assms by (auto simp: cbb_buffer_add_u_bytes split: prod.splits bool.splits if_splits)

lemma buffer_add_bytes_fails: "buffer_add_bytes al data b = (False, b') \<Longrightarrow> error b'"
  by (auto simp: buffer_add_bytes_def dest!: cbb_buffer_add_fails split: prod.splits bool.splits)

lemma cbb_buffer_add_u_fails: "cbb_buffer_add_u al v k b = (False, b') \<Longrightarrow> 0 < k \<Longrightarrow> error b'"
  by (auto simp: cbb_buffer_add_u_bytes dest: buffer_add_bytes_fails
      split: prod.splits bool.splits if_splits)

lemma buffer_add_bytes_room:
  "wf_buf b \<Longrightarrow> room al (len b + length data) b \<Longrightarrow> fst (buffer_add_bytes al data b)"
  using cbb_buffer_add_room [of b al "length data"]
  by (auto simp: buffer_add_bytes_def split: prod.splits bool.splits)

end
