(* ===== verification/Cbb_Flush.thy ===== *)
theory Cbb_Flush
  imports Cbb_Buffer
begin

text \<open>
  What \<open>CBB_flush\<close> promises. The specification of a builder with open children is a stack of
  frames (\<open>frame\<close>): the bytes of the root, and for every open child the kind of its length
  prefix and the bytes written to it so far. \<open>close_frames\<close> is the document they stand for:
  every child behind its length. \<open>represents\<close> says how the frames lie in the C buffer, with the
  placeholder bytes for the lengths; a successful flush replaces the frames by their document,
  also where the DER length needs more than the one byte set aside and the contents move.
\<close>

unbundle bit_operations_syntax

datatype prefix_kind = Fixed nat | Asn1

type_synonym frame = "prefix_kind \<times> bytes"

definition child_kind :: "cbb_child \<Rightarrow> prefix_kind" where
  "child_kind c = (if pending_is_asn1 c then Asn1 else Fixed (pending_len_len c))"

fun length_prefix :: "prefix_kind \<Rightarrow> nat \<Rightarrow> bytes option" where
  "length_prefix (Fixed k) n = (if n < 256 ^ k then Some (be_bytes k n) else None)"
| "length_prefix Asn1 n = (if n \<le> 0xfffffffe then Some (der_len_bytes n) else None)"

fun close_frames :: "bytes \<Rightarrow> frame list \<Rightarrow> bytes option" where
  "close_frames xs [] = Some xs"
| "close_frames xs ((k, ys) # fs) =
     (case close_frames ys fs of
        None \<Rightarrow> None
      | Some zs \<Rightarrow>
          (case length_prefix k (length zs) of None \<Rightarrow> None | Some h \<Rightarrow> Some (xs @ h @ zs)))"

text \<open>
  \<open>represents p cs ct xs fs\<close>: the bytes \<open>ct\<close>, lying at position \<open>p\<close> of the buffer, hold the
  bytes \<open>xs\<close> and then the frames \<open>fs\<close> of the open children \<open>cs\<close>.
\<close>

fun represents :: "nat \<Rightarrow> cbb_child list \<Rightarrow> bytes \<Rightarrow> bytes \<Rightarrow> frame list \<Rightarrow> bool" where
  "represents p [] ct xs [] \<longleftrightarrow> ct = xs"
| "represents p (c # cs) ct xs ((k, ys) # fs) \<longleftrightarrow>
     (\<exists>pad rest. ct = xs @ pad @ rest \<and> pad \<noteq> [] \<and> offset c = p + length xs \<and>
        pending_len_len c = length pad \<and> child_kind c = k \<and>
        (pending_is_asn1 c \<longrightarrow> length pad = 1) \<and>
        represents (p + length xs + length pad) cs rest ys fs)"
| "represents p _ ct xs _ \<longleftrightarrow> False"

lemma represents_length: "represents p cs ct xs fs \<Longrightarrow> length cs = length fs"
  by (induction p cs ct xs fs rule: represents.induct) auto

text \<open>The DER length is the one the length form of the code describes.\<close>

lemma asn1_length_form_bytes:
  assumes "n \<le> 0xfffffffe" "asn1_length_form n = (l, b0, n')"
  shows "der_len_bytes n = b0 # be_bytes (l - 1) n'" "n' < 256 ^ (l - 1)" "l \<noteq> 1 \<Longrightarrow> n' = n" "1 \<le> l" "l \<le> 5"
  using assms by (auto simp: asn1_length_form_def der_len_bytes_def len_octets_def split: if_splits)

lemma content_append: "buf b = xs @ ys \<Longrightarrow> len b = length xs \<Longrightarrow> content b = xs"
  by (simp add: content_def)

lemma buf_split: "wf_buf b \<Longrightarrow> buf b = content b @ drop (len b) (buf b)"
  by (simp add: content_def)

text \<open>The fixed-width case: a store into the placeholder.\<close>

lemma flush_one_fixed:
  assumes wf: "wf_buf b" and ct: "content b = pre @ pad @ body"
    and c: "offset c = length pre" "pending_len_len c = length pad" "\<not> pending_is_asn1 c"
    and f: "flush_one al c b = (ok, c', b')"
  shows "if length body < 256 ^ length pad
    then ok \<and> content b' = pre @ be_bytes (length pad) (length body) @ body \<and> wf_buf b' \<and>
      same_flags b b' \<and> cap b' = cap b
    else \<not> ok \<and> error b'"
proof -
  have len: "len b = length pre + length pad + length body"
    using length_content [OF wf] ct by simp
  have lt: "len b < size_lim" using wf by (simp add: wf_buf_def)
  have start: "(length pre + length pad) mod 0x10000000000000000 = length pre + length pad"
    using len lt by simp
  have buf: "buf b = pre @ pad @ body @ drop (len b) (buf b)"
    using buf_split [OF wf] ct by simp
  have blit: "blit (length pre) (be_bytes (length pad) n) (buf b) =
      pre @ be_bytes (length pad) n @ body @ drop (len b) (buf b)" for n
    by (subst buf) (simp add: blit_append)
  have zero: "length body div 256 ^ length pad = 0 \<longleftrightarrow> length body < 256 ^ length pad"
    by (simp add: div_eq_0_iff)
  show ?thesis
    using f c len wf unfolding flush_one_def
    by (auto simp: start put_len_loop_be_bytes Let_def blit zero content_def wf_buf_def
        same_flags_def split: if_splits)
qed

text \<open>The ASN.1 case: the contents move up when the length takes more than one byte.\<close>

lemma flush_one_asn1:
  assumes wf: "wf_buf b" and ct: "content b = pre @ [x] @ body"
    and c: "offset c = length pre" "pending_len_len c = 1" "pending_is_asn1 c"
    and f: "flush_one al c b = (True, c', b')"
  shows "length body \<le> 0xfffffffe" "content b' = pre @ der_len_bytes (length body) @ body"
    "wf_buf b'" "same_flags b b'" "cap b \<le> cap b'"
proof -
  have len: "len b = length pre + 1 + length body"
    using length_content [OF wf] ct by simp
  have lt: "len b < size_lim" using wf by (simp add: wf_buf_def)
  have start: "Suc (length pre) mod 0x10000000000000000 = Suc (length pre)"
    using len lt by simp
  obtain l b0 n' where form: "asn1_length_form (length body) = (l, b0, n')"
    by (metis prod_cases3)
  show n: "length body \<le> 0xfffffffe"
    using f c len unfolding flush_one_def by (auto simp: start Let_def split: if_splits)
  note form_bytes = asn1_length_form_bytes [OF n form]
  have wr: "put_len_loop (l - 1) n' [] = (be_bytes (l - 1) n', 0)"
    using form_bytes(2) by (simp add: put_len_loop_be_bytes div_eq_0_iff)
  have buf: "buf b = pre @ [x] @ body @ drop (len b) (buf b)"
    using buf_split [OF wf] ct by simp
  have "content b' = pre @ (b0 # be_bytes (l - 1) n') @ body \<and> wf_buf b' \<and> same_flags b b' \<and> cap b \<le> cap b'"
  proof (cases "l = 1")
    case True
    have b': "buf b' = (buf b)[length pre := b0]" "len b' = len b" "same_flags b b'"
      using f c len n unfolding flush_one_def
      by (auto simp: start Let_def form True same_flags_def split: if_splits)
    have "(buf b)[length pre := b0] = pre @ b0 # body @ drop (len b) (buf b)"
      by (subst buf) (simp add: list_update_append)
    with b' wf len True show ?thesis
      by (simp add: content_def wf_buf_def) linarith
  next
    case False
    obtain b1 where add: "cbb_buffer_add al (l - 1) b = (True, b1)"
      using f c len n False unfolding flush_one_def
      by (auto simp: start Let_def form split: if_splits prod.splits bool.splits)
    have "l - 1 < size_lim" using form_bytes(5) by simp
    note ok = cbb_buffer_add_ok [OF add wf this]
    then obtain zs where zs: "buf b1 = buf b @ zs" by auto
    define rest where "rest = drop (len b) (buf b) @ zs"
    have buf1: "buf b1 = pre @ x # body @ rest"
      by (subst zs, subst buf) (simp add: rest_def)
    have rest: "l - 1 \<le> length rest"
      using ok(1,2) buf1 len by (simp add: wf_buf_def)
    let ?mv = "blit (length pre + 1 + (l - 1)) (take (length body) (drop (length pre + 1) (buf b1))) (buf b1)"
    have mv: "?mv = pre @ x # take (l - 1) (body @ rest) @ body @ drop (l - 1) rest"
      using rest by (simp add: buf1 blit_def)
    let ?st = "?mv[length pre := b0]"
    have st: "?st = (pre @ [b0]) @ take (l - 1) (body @ rest) @ body @ drop (l - 1) rest"
      by (simp only: mv) (simp add: list_update_append)
    have b': "buf b' = blit (length pre + 1) (be_bytes (l - 1) n') ?st" "len b' = len b1"
      "can_resize b' = can_resize b1" "error b' = error b1"
      using f c len n False unfolding flush_one_def
      by (auto simp: start Let_def form add [unfolded One_nat_def] wr [unfolded One_nat_def]
          split: if_splits)
    have "blit (length (pre @ [b0])) (be_bytes (l - 1) n') ?st =
        (pre @ [b0]) @ be_bytes (l - 1) n' @ body @ drop (l - 1) rest"
      unfolding st using rest by (intro blit_append) simp
    then have "buf b' = pre @ b0 # be_bytes (l - 1) n' @ body @ drop (l - 1) rest"
      by (simp add: b')
    then have eq: "buf b' = (pre @ (b0 # be_bytes (l - 1) n') @ body) @ drop (l - 1) rest" by simp
    have len': "len b' = length (pre @ (b0 # be_bytes (l - 1) n') @ body)"
      using b'(2) ok(2) len form_bytes(4) by simp
    have "cap b' = cap b1"
      using rest by (simp add: eq buf1)
    with ok(1,3) b'(2-4) zs have "wf_buf b'" "same_flags b b'" "cap b \<le> cap b'"
      by (simp_all add: wf_buf_def same_flags_def)
    with content_append [OF eq len'] show ?thesis by simp
  qed
  then show "content b' = pre @ der_len_bytes (length body) @ body"
    "wf_buf b'" "same_flags b b'" "cap b \<le> cap b'"
    by (auto simp: form_bytes(1))
qed

lemma flush_one_asn1_room:
  assumes wf: "wf_buf b" and ct: "content b = pre @ [x] @ body"
    and c: "offset c = length pre" "pending_len_len c = 1" "pending_is_asn1 c"
    and n: "length body \<le> 0xfffffffe"
    and r: "room al (length pre + length (der_len_bytes (length body)) + length body) b"
  shows "fst (flush_one al c b)"
proof -
  have len: "len b = length pre + 1 + length body"
    using length_content [OF wf] ct by simp
  have lt: "len b < size_lim" using wf by (simp add: wf_buf_def)
  have start: "Suc (length pre) mod 0x10000000000000000 = Suc (length pre)"
    using len lt by simp
  obtain l b0 n' where form: "asn1_length_form (length body) = (l, b0, n')"
    by (metis prod_cases3)
  note form_bytes = asn1_length_form_bytes [OF n form]
  have wr: "put_len_loop (l - 1) n' [] = (be_bytes (l - 1) n', 0)"
    using form_bytes(2) by (simp add: put_len_loop_be_bytes div_eq_0_iff)
  have "room al (len b + (l - 1)) b"
    by (rule room_mono [OF r]) (use form_bytes(4) in \<open>simp add: len form_bytes(1)\<close>)
  then obtain b1 where add: "cbb_buffer_add al (l - 1) b = (True, b1)"
    using cbb_buffer_add_room [OF wf] by (metis prod.collapse)
  show ?thesis
    using c len n wr add unfolding flush_one_def
    by (cases "l = 1") (simp_all add: start Let_def form)
qed

lemma flush_one_fails: "flush_one al c b = (False, c', b') \<Longrightarrow> error b'"
  unfolding flush_one_def Let_def by (auto split: if_splits prod.splits bool.splits)

lemma flush_chain_fails: "flush_chain al cs b = (False, cs', b') \<Longrightarrow> error b'"
  by (induction cs arbitrary: b cs' b')
    (auto dest: flush_one_fails split: if_splits prod.splits bool.splits)

lemma representsE:
  assumes "represents p (c # cs) ct xs fs"
  obtains k ys gs pad rest where "fs = (k, ys) # gs" "ct = xs @ pad @ rest" "pad \<noteq> []"
    "offset c = p + length xs" "pending_len_len c = length pad" "child_kind c = k"
    "pending_is_asn1 c \<Longrightarrow> length pad = 1"
    "represents (p + length xs + length pad) cs rest ys gs"
proof (cases fs)
  case (Cons f gs)
  then obtain k ys where "fs = (k, ys) # gs" by (cases f) auto
  with assms that show ?thesis by auto
qed (use assms in simp)

text \<open>Flushing one child of known contents, both kinds together.\<close>

lemma flush_one_ok:
  assumes wf: "wf_buf b" and ct: "content b = pre @ pad @ body"
    and c: "offset c = length pre" "pending_len_len c = length pad" "pending_is_asn1 c \<Longrightarrow> length pad = 1"
    and f: "flush_one al c b = (True, c', b')"
  obtains h where "length_prefix (child_kind c) (length body) = Some h" "content b' = pre @ h @ body"
    "wf_buf b'" "same_flags b b'" "cap b \<le> cap b'"
proof (cases "pending_is_asn1 c")
  case True
  then obtain x where pad: "pad = [x]" using c(3) by (auto simp: length_Suc_conv)
  have "pending_len_len c = 1" using c(2) pad by simp
  note res = flush_one_asn1 [OF wf ct [unfolded pad] c(1) this True f]
  then show ?thesis
    using True by (intro that [of "der_len_bytes (length body)"]) (simp_all add: child_kind_def)
next
  case False
  note res = flush_one_fixed [OF wf ct c(1,2) False f]
  then show ?thesis
    using False c(2) by (intro that [of "be_bytes (length pad) (length body)"])
      (simp_all add: child_kind_def split: if_splits)
qed

lemma flush_one_room:
  assumes wf: "wf_buf b" and ct: "content b = pre @ pad @ body"
    and c: "offset c = length pre" "pending_len_len c = length pad" "pending_is_asn1 c \<Longrightarrow> length pad = 1"
    and h: "length_prefix (child_kind c) (length body) = Some h"
    and r: "room al (length pre + length h + length body) b"
  shows "fst (flush_one al c b)"
proof (cases "pending_is_asn1 c")
  case True
  then obtain x where pad: "pad = [x]" using c(3) by (auto simp: length_Suc_conv)
  from h True have h': "length body \<le> 0xfffffffe" "h = der_len_bytes (length body)"
    by (auto simp: child_kind_def split: if_splits)
  have "pending_len_len c = 1" using c(2) pad by simp
  from flush_one_asn1_room [OF wf ct [unfolded pad] c(1) this True h'(1)] r h'(2)
  show ?thesis by simp
next
  case False
  obtain ok c' b' where f: "flush_one al c b = (ok, c', b')" by (metis prod_cases3)
  have "length body < 256 ^ length pad"
    using h False c(2) by (simp add: child_kind_def split: if_splits)
  then show ?thesis
    using flush_one_fixed [OF wf ct c(1,2) False f] f by simp
qed

lemma room_later: "room al n b \<Longrightarrow> same_flags b b' \<Longrightarrow> cap b \<le> cap b' \<Longrightarrow> room al n b'"
  by (auto simp: room_def same_flags_def)

text \<open>A flush replaces the open frames by the document they stand for, with nothing else changed.\<close>

lemma flush_chain_ok:
  assumes "flush_chain al cs b = (True, cs', b')" "wf_buf b" "content b = pre @ ct"
    "represents (length pre) cs ct xs fs"
  shows "cs' = [] \<and> \<not> error b \<and> wf_buf b' \<and> same_flags b b' \<and> cap b \<le> cap b' \<and>
    (\<exists>zs. close_frames xs fs = Some zs \<and> content b' = pre @ zs)"
  using assms
proof (induction cs arbitrary: b cs' b' pre ct xs fs)
  case Nil
  then show ?case by (cases fs) auto
next
  case (Cons c cs)
  from Cons.prems(4) obtain k ys gs pad rest where fr: "fs = (k, ys) # gs" "ct = xs @ pad @ rest"
    "pad \<noteq> []" "offset c = length pre + length xs" "pending_len_len c = length pad"
    "child_kind c = k" "pending_is_asn1 c \<Longrightarrow> length pad = 1"
    and rep: "represents (length pre + length xs + length pad) cs rest ys gs"
    by (rule representsE) blast
  from Cons.prems(1) fr(3,5) obtain b1 cs1 c2 where
    1: "\<not> error b" "flush_chain al cs b = (True, cs1, b1)" and 2: "flush_one al c b1 = (True, c2, b')"
    and cs': "cs' = []"
    by (auto split: if_splits prod.splits bool.splits)
  have ct: "content b = (pre @ xs @ pad) @ rest" using Cons.prems(3) fr(2) by simp
  have "represents (length (pre @ xs @ pad)) cs rest ys gs" using rep by (simp add: add.assoc)
  from Cons.IH [OF 1(2) Cons.prems(2) ct this] obtain zs where
    wf1: "wf_buf b1" "same_flags b b1" "cap b \<le> cap b1" "close_frames ys gs = Some zs"
    and ct1: "content b1 = (pre @ xs) @ pad @ zs"
    by auto
  have off: "offset c = length (pre @ xs)" using fr(4) by simp
  from flush_one_ok [OF wf1(1) ct1 off fr(5) fr(7) 2] obtain h where
    "length_prefix (child_kind c) (length zs) = Some h" "content b' = (pre @ xs) @ h @ zs"
    "wf_buf b'" "same_flags b1 b'" "cap b1 \<le> cap b'" by blast
  then show ?case
    using wf1 cs' 1(1) fr(1,6) by (auto intro: same_flags_trans)
qed

lemma flush_chain_room:
  assumes "wf_buf b" "\<not> error b" "content b = pre @ ct" "represents (length pre) cs ct xs fs"
    "close_frames xs fs = Some zs" "room al (length pre + length zs) b"
  shows "fst (flush_chain al cs b)"
  using assms
proof (induction cs arbitrary: b pre ct xs fs zs)
  case Nil
  then show ?case by simp
next
  case (Cons c cs)
  from Cons.prems(4) obtain k ys gs pad rest where fr: "fs = (k, ys) # gs" "ct = xs @ pad @ rest"
    "pad \<noteq> []" "offset c = length pre + length xs" "pending_len_len c = length pad"
    "child_kind c = k" "pending_is_asn1 c \<Longrightarrow> length pad = 1"
    and rep: "represents (length pre + length xs + length pad) cs rest ys gs"
    by (rule representsE) blast
  from Cons.prems(5) fr(1) obtain ws h where ws: "close_frames ys gs = Some ws"
    and h: "length_prefix k (length ws) = Some h" and zs: "zs = xs @ h @ ws"
    by (auto split: option.splits)
  have hlen: "length pad \<le> length h"
    using h fr(5-7) der_len_bytes_length(1) [of "length ws"]
    by (auto simp: child_kind_def split: if_splits)
  have ct: "content b = (pre @ xs @ pad) @ rest" using Cons.prems(3) fr(2) by simp
  have rep': "represents (length (pre @ xs @ pad)) cs rest ys gs" using rep by (simp add: add.assoc)
  have "room al (length (pre @ xs @ pad) + length ws) b"
    by (rule room_mono [OF Cons.prems(6)]) (simp add: zs hlen)
  from Cons.IH [OF Cons.prems(1,2) ct rep' ws this] obtain cs1 b1 where
    f1: "flush_chain al cs b = (True, cs1, b1)" by (metis prod.collapse)
  from flush_chain_ok [OF f1 Cons.prems(1) ct rep'] ws
  have b1: "wf_buf b1" "same_flags b b1" "cap b \<le> cap b1" "content b1 = (pre @ xs) @ pad @ ws"
    by auto
  have off: "offset c = length (pre @ xs)" using fr(4) by simp
  have "room al (length (pre @ xs) + length h + length ws) b1"
    by (rule room_later [OF _ b1(2,3)]) (use Cons.prems(6) in \<open>simp add: zs add.assoc\<close>)
  from flush_one_room [OF b1(1,4) off fr(5) fr(7) _ this] h fr(6)
  have "fst (flush_one al c b1)" by simp
  then show ?case
    using Cons.prems(2) f1 fr(3,5) by (auto split: prod.splits bool.splits)
qed

end
