(* ===== verification/Cbb_Builder.thy ===== *)
theory Cbb_Builder
  imports Cbb_Flush
begin

text \<open>
  The builder as an abstract data type. A document under construction (\<open>doc\<close>) is the bytes
  of the root and the frames of the open children; writing through a handle of depth \<open>d\<close>
  closes the deeper frames and appends to the frame at \<open>d\<close> (\<open>append_at\<close>), opening a child
  pushes an empty frame (\<open>open_at\<close>). \<open>refines\<close> is the contract between an operation of the C
  builder and its effect on the document: a success has that effect, a failure leaves an
  unusable builder, and with enough room in the buffer there is no failure. The contract
  composes, so the operations built from others are calculated at the level of documents.
\<close>

unbundle bit_operations_syntax

type_synonym doc = "bytes \<times> frame list"

fun update_at :: "nat \<Rightarrow> (bytes \<Rightarrow> doc) \<Rightarrow> doc \<Rightarrow> doc option" where
  "update_at 0 f (xs, fs) = map_option f (close_frames xs fs)"
| "update_at (Suc d) f (xs, []) = None"
| "update_at (Suc d) f (xs, (k, ys) # fs) =
     map_option (\<lambda>(zs, gs). (xs, (k, zs) # gs)) (update_at d f (ys, fs))"

definition append_at :: "nat \<Rightarrow> bytes \<Rightarrow> doc \<Rightarrow> doc option" where
  "append_at d data = update_at d (\<lambda>zs. (zs @ data, []))"

definition open_at :: "nat \<Rightarrow> prefix_kind \<Rightarrow> doc \<Rightarrow> doc option" where
  "open_at d k = update_at d (\<lambda>zs. (zs, [(k, [])]))"

fun pad_size :: "prefix_kind \<Rightarrow> nat" where
  "pad_size (Fixed k) = k"
| "pad_size Asn1 = 1"

definition doc_size :: "doc \<Rightarrow> nat" where
  "doc_size D = length (fst D) + sum_list (map (\<lambda>(k, ys). pad_size k + length ys) (snd D))"

definition builds :: "cbb \<Rightarrow> doc \<Rightarrow> bool" where
  "builds s D \<longleftrightarrow> (\<exists>b. base s = Some b \<and> wf_buf b \<and> \<not> error b \<and>
     represents 0 (children s) (content b) (fst D) (snd D))"

definition failed :: "cbb \<Rightarrow> bool" where
  "failed s \<longleftrightarrow> (case base s of None \<Rightarrow> True | Some b \<Rightarrow> error b)"

definition usable :: "cbb \<Rightarrow> bool" where
  "usable s \<longleftrightarrow> (\<exists>D. builds s D)"

definition grows :: "cbb \<Rightarrow> cbb \<Rightarrow> bool" where
  "grows s s' \<longleftrightarrow> (\<exists>b b'. base s = Some b \<and> base s' = Some b' \<and> same_flags b b' \<and> cap b \<le> cap b')"

definition roomy :: "allocator \<Rightarrow> nat \<Rightarrow> cbb \<Rightarrow> bool" where
  "roomy al n s \<longleftrightarrow> (\<exists>b. base s = Some b \<and> room al n b)"

definition refines :: "allocator \<Rightarrow> (cbb \<Rightarrow> bool \<times> cbb) \<Rightarrow> (doc \<Rightarrow> doc option) \<Rightarrow> bool" where
  "refines al w g \<longleftrightarrow>
     (\<forall>D D'. g D = Some D' \<longrightarrow> doc_size D \<le> doc_size D') \<and>
     (\<forall>s D. builds s D \<longrightarrow>
        (\<forall>s'. w s = (True, s') \<longrightarrow> grows s s' \<and> (\<exists>D'. g D = Some D' \<and> builds s' D')) \<and>
        (\<forall>s'. w s = (False, s') \<longrightarrow> failed s' \<or> g D = None \<and> usable s') \<and>
        (\<forall>D'. g D = Some D' \<longrightarrow> roomy al (doc_size D') s \<longrightarrow> fst (w s)))"

lemma refinesI:
  assumes "\<And>D D'. g D = Some D' \<Longrightarrow> doc_size D \<le> doc_size D'"
    and "\<And>s s' D. builds s D \<Longrightarrow> w s = (True, s') \<Longrightarrow> grows s s' \<and> (\<exists>D'. g D = Some D' \<and> builds s' D')"
    and "\<And>s s' D. builds s D \<Longrightarrow> w s = (False, s') \<Longrightarrow> failed s' \<or> g D = None \<and> usable s'"
    and "\<And>s D D'. builds s D \<Longrightarrow> g D = Some D' \<Longrightarrow> roomy al (doc_size D') s \<Longrightarrow> fst (w s)"
  shows "refines al w g"
  unfolding refines_def by (intro conjI allI impI assms; assumption?) (use assms in fastforce)+

lemma refines_ok:
  assumes "refines al w g" "builds s D" "w s = (True, s')"
  obtains D' where "g D = Some D'" "builds s' D'" "grows s s'"
  using assms unfolding refines_def by blast

lemma refines_fail: "refines al w g \<Longrightarrow> builds s D \<Longrightarrow> w s = (False, s') \<Longrightarrow> failed s' \<or> g D = None \<and> usable s'"
  unfolding refines_def by metis

lemma refines_succeeds:
  "refines al w g \<Longrightarrow> builds s D \<Longrightarrow> g D = Some D' \<Longrightarrow> roomy al (doc_size D') s \<Longrightarrow> fst (w s)"
  unfolding refines_def by blast

lemma refines_size: "refines al w g \<Longrightarrow> g D = Some D' \<Longrightarrow> doc_size D \<le> doc_size D'"
  unfolding refines_def by blast

lemma grows_trans: "grows a b \<Longrightarrow> grows b c \<Longrightarrow> grows a c"
  by (auto simp: grows_def intro: same_flags_trans)

lemma roomy_later: "roomy al n s \<Longrightarrow> grows s s' \<Longrightarrow> roomy al n s'"
  by (auto simp: roomy_def grows_def intro: room_later)

lemma roomy_mono: "roomy al n s \<Longrightarrow> m \<le> n \<Longrightarrow> roomy al m s"
  by (auto simp: roomy_def intro: room_mono)

text \<open>Running one operation after the other, the second only if the first succeeds.\<close>

lemma refines_seq:
  assumes 1: "refines al w1 g1" and 2: "refines al w2 g2"
  shows "refines al (\<lambda>s. case w1 s of (False, s1) \<Rightarrow> (False, s1) | (True, s1) \<Rightarrow> w2 s1)
    (\<lambda>D. Option.bind (g1 D) g2)"
proof (rule refinesI, goal_cases)
  case (1 D D')
  then obtain D1 where "g1 D = Some D1" "g2 D1 = Some D'" by (auto simp: bind_eq_Some_conv)
  then show ?case
    using refines_size [OF assms(1)] refines_size [OF assms(2)] by (meson le_trans)
next
  case (2 s s' D)
  then obtain s1 where w: "w1 s = (True, s1)" "w2 s1 = (True, s')"
    by (auto split: prod.splits bool.splits)
  from refines_ok [OF assms(1) 2(1) w(1)] obtain D1 where D1: "g1 D = Some D1" "builds s1 D1" "grows s s1" .
  from refines_ok [OF assms(2) D1(2) w(2)] obtain D2 where "g2 D1 = Some D2" "builds s' D2" "grows s1 s'" .
  with D1 show ?case by (auto intro: grows_trans)
next
  case (3 s s' D)
  show ?case
  proof (cases "w1 s")
    case (Pair ok s1)
    show ?thesis
    proof (cases ok)
      case False
      with Pair 3(2) have "w1 s = (False, s')" by simp
      from refines_fail [OF assms(1) 3(1) this] show ?thesis by auto
    next
      case True
      with Pair refines_ok [OF assms(1) 3(1)] obtain D1 where D1: "g1 D = Some D1" "builds s1 D1" by metis
      from True Pair 3(2) have "w2 s1 = (False, s')" by simp
      from refines_fail [OF assms(2) D1(2) this] D1(1) show ?thesis by auto
    qed
  qed
next
  case (4 s D D')
  then obtain D1 where D1: "g1 D = Some D1" "g2 D1 = Some D'" by (auto simp: bind_eq_Some_conv)
  have "roomy al (doc_size D1) s"
    by (rule roomy_mono [OF 4(3) refines_size [OF assms(2) D1(2)]])
  with refines_succeeds [OF assms(1) 4(1) D1(1)] obtain s1 where s1: "w1 s = (True, s1)"
    by (metis prod.collapse)
  with refines_ok [OF assms(1) 4(1)] D1 have "builds s1 D1" "grows s s1" by (metis option.inject)+
  with refines_succeeds [OF assms(2) _ D1(2)] roomy_later 4(3) s1 show ?case by auto
qed

lemma refines_cong: "refines al w g \<Longrightarrow> (\<And>D. g D = g' D) \<Longrightarrow> refines al w g'"
  by (metis ext)

subsection \<open>Documents in the buffer\<close>

lemma represents_size: "represents p cs ct xs fs \<Longrightarrow> length ct = doc_size (xs, fs)"
proof (induction p cs ct xs fs rule: represents.induct)
  case (2 p c cs ct xs k ys fs)
  from "2.prems" obtain pad rest where pr: "ct = xs @ pad @ rest" "pending_len_len c = length pad"
    "child_kind c = k" "pending_is_asn1 c \<longrightarrow> length pad = 1"
    "represents (p + length xs + length pad) cs rest ys fs" by auto
  from pr(2-4) have "pad_size k = length pad" by (auto simp: child_kind_def)
  with "2.IH" [OF pr(5)] pr(1) show ?case by (simp add: doc_size_def)
qed (auto simp: doc_size_def)

lemma close_frames_size: "close_frames xs fs = Some zs \<Longrightarrow> doc_size (xs, fs) \<le> length zs"
proof (induction xs fs arbitrary: zs rule: close_frames.induct)
  case (2 xs k ys fs)
  then obtain ws h where ws: "close_frames ys fs = Some ws" "length_prefix k (length ws) = Some h"
    "zs = xs @ h @ ws" by (auto split: option.splits)
  have "pad_size k \<le> length h"
    using ws(2) der_len_bytes_length(1) [of "length ws"] by (cases k) (auto split: if_splits)
  with "2.IH" [OF ws(1)] ws(3) show ?case by (simp add: doc_size_def)
qed (auto simp: doc_size_def)

lemma update_at_size:
  "update_at d f D = Some D' \<Longrightarrow> (\<And>zs. length zs \<le> doc_size (f zs)) \<Longrightarrow> doc_size D \<le> doc_size D'"
proof (induction d f D arbitrary: D' rule: update_at.induct)
  case (1 f xs fs)
  then obtain zs where "close_frames xs fs = Some zs" "D' = f zs" by auto
  with 1(2) [of zs] close_frames_size [of xs fs zs] show ?case by simp
next
  case (3 d f xs k ys fs)
  then obtain E where "update_at d f (ys, fs) = Some E" "D' = (xs, (k, fst E) # snd E)"
    by (auto split: prod.splits)
  with 3(1) [of E] 3(3) show ?case by (simp add: doc_size_def)
qed simp

text \<open>
  The part of the buffer that a handle of depth \<open>d\<close> looks at, and putting something else
  in its place.
\<close>

lemma represents_update:
  assumes "represents p cs ct xs fs" "d \<le> length cs"
  obtains pre ct' ys gs where "ct = pre @ ct'" "represents (p + length pre) (drop d cs) ct' ys gs"
    "if d = 0 then pre = [] else offset (cs ! (d - 1)) + pending_len_len (cs ! (d - 1)) = p + length pre"
    "\<And>f. close_frames ys gs = None \<Longrightarrow> update_at d f (xs, fs) = None"
    "\<And>f zs cs3 ct3. close_frames ys gs = Some zs \<Longrightarrow>
      represents (p + length pre) cs3 ct3 (fst (f zs)) (snd (f zs)) \<Longrightarrow>
      \<exists>D'. update_at d f (xs, fs) = Some D' \<and>
        represents p (take d cs @ cs3) (pre @ ct3) (fst D') (snd D')"
  using assms
proof (induction d arbitrary: p cs ct xs fs thesis)
  case 0
  show ?case
    by (rule "0.prems"(1) [of "[]" ct xs fs]) (use "0.prems"(2) in auto)
next
  case (Suc d)
  from Suc.prems(3) obtain c cs' where cs: "cs = c # cs'" by (cases cs) auto
  from Suc.prems(2) [unfolded cs] obtain k us hs pad rest where fr: "fs = (k, us) # hs"
    "ct = xs @ pad @ rest" "pad \<noteq> []" "offset c = p + length xs" "pending_len_len c = length pad"
    "child_kind c = k" "pending_is_asn1 c \<Longrightarrow> length pad = 1"
    and rep: "represents (p + length xs + length pad) cs' rest us hs"
    by (rule representsE) blast
  from Suc.prems(3) cs have "d \<le> length cs'" by simp
  with rep obtain pre ct' ys gs where ih: "rest = pre @ ct'"
    "represents (p + length xs + length pad + length pre) (drop d cs') ct' ys gs"
    "if d = 0 then pre = [] else
      offset (cs' ! (d - 1)) + pending_len_len (cs' ! (d - 1)) = p + length xs + length pad + length pre"
    "\<And>f. close_frames ys gs = None \<Longrightarrow> update_at d f (us, hs) = None"
    "\<And>f zs cs3 ct3. close_frames ys gs = Some zs \<Longrightarrow>
      represents (p + length xs + length pad + length pre) cs3 ct3 (fst (f zs)) (snd (f zs)) \<Longrightarrow>
      \<exists>D'. update_at d f (us, hs) = Some D' \<and>
        represents (p + length xs + length pad) (take d cs' @ cs3) (pre @ ct3) (fst D') (snd D')"
    by (rule Suc.IH [rotated]) (rule that, assumption+)
  show ?case
  proof (rule Suc.prems(1) [of "xs @ pad @ pre" ct' ys gs], goal_cases)
    case (5 f zs cs3 ct3)
    then have "represents (p + length xs + length pad + length pre) cs3 ct3 (fst (f zs)) (snd (f zs))"
      by (simp add: add.assoc)
    from ih(5) [of zs cs3 ct3 f, OF 5(1) this] obtain E where E: "update_at d f (us, hs) = Some E"
      "represents (p + length xs + length pad) (take d cs' @ cs3) (pre @ ct3) (fst E) (snd E)" by blast
    then have "represents p (take (Suc d) cs @ cs3) ((xs @ pad @ pre) @ ct3) xs ((k, fst E) # snd E)"
      using fr cs by simp (intro exI [of _ pad] exI [of _ "pre @ ct3"]; simp)
    with E(1) show ?case
      by (simp add: fr(1) case_prod_unfold)
  qed (use fr ih cs in \<open>auto simp: add.assoc nth_Cons' split: if_splits\<close>)
qed

lemma represents_extend: "represents p [] ct xs [] \<Longrightarrow> represents p [] (ct @ ys) (xs @ ys) []"
  by simp

lemma update_at_too_deep: "length (snd D) < d \<Longrightarrow> update_at d f D = None"
  by (induction d f D rule: update_at.induct) auto

lemma builds_depth: "builds s D \<Longrightarrow> length (children s) = length (snd D)"
  by (auto simp: builds_def dest: represents_length)

subsection \<open>The operations on documents\<close>

lemma CBB_flush_Some:
  "base s = Some b \<Longrightarrow> d \<le> length (children s) \<Longrightarrow> CBB_flush al d s =
    (case flush_chain al (drop d (children s)) b of
       (ok, cs, b') \<Rightarrow> (ok, s\<lparr>base := Some b', children := take d (children s) @ cs\<rparr>))"
  by (simp add: CBB_flush_def)

text \<open>What holds after a flush at depth \<open>d\<close>: the frame there ends the buffer.\<close>

lemma CBB_flush_frame:
  assumes B: "builds s D" and fl: "CBB_flush al d s = (True, s1)"
  obtains b1 pre zs where "base s1 = Some b1" "wf_buf b1" "\<not> error b1" "content b1 = pre @ zs"
    "children s1 = take d (children s)" "length (children s1) = d" "grows s s1"
    "content_start d s1 = length pre"
    "\<And>f cs3 ct3. represents (length pre) cs3 ct3 (fst (f zs)) (snd (f zs)) \<Longrightarrow>
      \<exists>D'. update_at d f D = Some D' \<and>
        represents 0 (children s1 @ cs3) (pre @ ct3) (fst D') (snd D')"
proof -
  from B obtain b where b: "base s = Some b" "wf_buf b" "\<not> error b"
    and rep: "represents 0 (children s) (content b) (fst D) (snd D)" by (auto simp: builds_def)
  have d: "d \<le> length (children s)"
    using fl b(1) by (auto simp: CBB_flush_def split: if_splits)
  from rep d obtain pre ct' ys gs where ct: "content b = pre @ ct'"
    and rep': "represents (length pre) (drop d (children s)) ct' ys gs"
    and start: "if d = 0 then pre = []
      else offset (children s ! (d - 1)) + pending_len_len (children s ! (d - 1)) = 0 + length pre"
    and up: "\<And>f zs cs3 ct3. close_frames ys gs = Some zs \<Longrightarrow>
      represents (length pre) cs3 ct3 (fst (f zs)) (snd (f zs)) \<Longrightarrow>
      \<exists>D'. update_at d f D = Some D' \<and>
        represents 0 (take d (children s) @ cs3) (pre @ ct3) (fst D') (snd D')"
    by (rule represents_update) (simp add: that)
  from fl b(1) d obtain cs b1 where 1: "flush_chain al (drop d (children s)) b = (True, cs, b1)"
    and s1: "s1 = s\<lparr>base := Some b1, children := take d (children s) @ cs\<rparr>"
    by (auto simp: CBB_flush_Some split: prod.splits)
  from flush_chain_ok [OF 1 b(2) ct rep'] obtain zs where zs: "close_frames ys gs = Some zs"
    "content b1 = pre @ zs" and r: "cs = []" "wf_buf b1" "same_flags b b1" "cap b \<le> cap b1" by blast
  show ?thesis
    by (rule that [of b1 pre zs])
      (use b d s1 r zs up start in \<open>auto simp: grows_def same_flags_def min_def content_start_def split: if_splits\<close>)
qed

lemma CBB_flush_base:
  assumes "builds s D" "CBB_flush al d s = (True, s1)"
  obtains b1 where "base s1 = Some b1" "wf_buf b1" "\<not> error b1"
  using assms by (rule CBB_flush_frame) (rule that, assumption+)

lemma CBB_flush_fails:
  assumes B: "builds s D" and fl: "CBB_flush al d s = (False, s1)"
  shows "failed s1 \<or> update_at d f D = None \<and> usable s1"
proof (cases "d \<le> length (children s)")
  case False
  then have "s1 = s" using fl by (auto simp: CBB_flush_def split: option.splits)
  moreover have "usable s" using B unfolding usable_def by blast
  ultimately show ?thesis
    using False builds_depth [OF B] by (simp add: update_at_too_deep)
next
  case True
  from B obtain b where "base s = Some b" by (auto simp: builds_def)
  with fl True show ?thesis
    by (auto simp: CBB_flush_Some failed_def dest: flush_chain_fails split: prod.splits)
qed

lemma CBB_flush_room:
  assumes B: "builds s D" and up: "update_at d f D = Some D'"
    and f: "\<And>zs. length zs \<le> doc_size (f zs)" and r: "roomy al (doc_size D') s"
  shows "fst (CBB_flush al d s)"
proof -
  from B obtain b where b: "base s = Some b" "wf_buf b" "\<not> error b"
    and rep: "represents 0 (children s) (content b) (fst D) (snd D)" by (auto simp: builds_def)
  have d: "d \<le> length (children s)"
    using up builds_depth [OF B] update_at_too_deep [of D d f] by (cases "d \<le> length (snd D)") auto
  from rep d obtain pre ct' ys gs where ct: "content b = pre @ ct'"
    and rep': "represents (length pre) (drop d (children s)) ct' ys gs"
    and none: "\<And>f. close_frames ys gs = None \<Longrightarrow> update_at d f D = None"
    and some: "\<And>f zs cs3 ct3. close_frames ys gs = Some zs \<Longrightarrow>
      represents (length pre) cs3 ct3 (fst (f zs)) (snd (f zs)) \<Longrightarrow>
      \<exists>D'. update_at d f D = Some D' \<and>
        represents 0 (take d (children s) @ cs3) (pre @ ct3) (fst D') (snd D')"
    by (rule represents_update) (simp add: that)
  from none up obtain zs where zs: "close_frames ys gs = Some zs"
    by (cases "close_frames ys gs") auto
  from some [OF zs, of "[]" zs "\<lambda>zs. (zs, [])"] obtain E where E: "update_at d (\<lambda>zs. (zs, [])) D = Some E"
    "length pre + length zs = doc_size E" by (auto dest: represents_size)
  moreover have "doc_size E \<le> doc_size D'"
    using f E(1) up
  proof (induction d f D arbitrary: D' E rule: update_at.induct)
    case (1 f xs fs)
    then obtain zs where "E = (zs, [])" "D' = f zs" by auto
    with 1(1) [of zs] show ?case by (simp add: doc_size_def)
  qed (auto simp: doc_size_def)
  ultimately have "room al (length pre + length zs) b"
    using r b(1) by (auto simp: roomy_def intro: room_mono)
  from flush_chain_room [OF b(2,3) ct rep' zs this] show ?thesis
    using b(1) d by (auto simp: CBB_flush_Some split: prod.splits)
qed

text \<open>An operation on the buffer that appends \<open>data\<close>.\<close>

definition buffer_op :: "allocator \<Rightarrow> bytes \<Rightarrow> (cbb_buffer_st \<Rightarrow> bool \<times> cbb_buffer_st) \<Rightarrow> bool" where
  "buffer_op al data f \<longleftrightarrow> (\<forall>b b'. wf_buf b \<longrightarrow>
     (f b = (True, b') \<longrightarrow>
        wf_buf b' \<and> content b' = content b @ data \<and> same_flags b b' \<and> cap b \<le> cap b') \<and>
     (f b = (False, b') \<longrightarrow> error b') \<and>
     (room al (len b + length data) b \<longrightarrow> fst (f b)))"

lemma buffer_op_ok:
  assumes "buffer_op al data f" "wf_buf b" "f b = (True, b')"
  shows "wf_buf b'" "content b' = content b @ data" "same_flags b b'" "cap b \<le> cap b'"
  using assms unfolding buffer_op_def by blast+

lemma buffer_op_fails: "buffer_op al data f \<Longrightarrow> wf_buf b \<Longrightarrow> f b = (False, b') \<Longrightarrow> error b'"
  unfolding buffer_op_def by metis

lemma buffer_op_room:
  "buffer_op al data f \<Longrightarrow> wf_buf b \<Longrightarrow> room al (len b + length data) b \<Longrightarrow> fst (f b)"
  unfolding buffer_op_def by metis

lemma append_atI:
  assumes "\<And>f cs3 ct3. represents (length pre) cs3 ct3 (fst (f zs)) (snd (f zs)) \<Longrightarrow>
      \<exists>D'. update_at d f D = Some D' \<and> represents 0 (cs @ cs3) (pre @ ct3) (fst D') (snd D')"
  shows "\<exists>D'. append_at d data D = Some D' \<and> represents 0 cs (pre @ zs @ data) (fst D') (snd D')"
  using assms [of "[]" "zs @ data" "\<lambda>zs. (zs @ data, [])"] by (simp add: append_at_def)

lemma refines_flush_then:
  assumes op: "buffer_op al data f"
  shows "refines al (flush_then al d f) (append_at d data)"
proof (rule refinesI, goal_cases)
  case (1 D D')
  then show ?case
    unfolding append_at_def by (rule update_at_size) (simp add: doc_size_def)
next
  case (2 s s' D)
  then obtain s1 where fl: "CBB_flush al d s = (True, s1)"
    by (auto simp: flush_then_def split: prod.splits bool.splits)
  from 2(1) fl obtain b1 pre zs where b1: "base s1 = Some b1" "wf_buf b1" "\<not> error b1" "content b1 = pre @ zs"
    "children s1 = take d (children s)" "length (children s1) = d" "grows s s1"
    "content_start d s1 = length pre"
    and up: "\<And>f cs3 ct3. represents (length pre) cs3 ct3 (fst (f zs)) (snd (f zs)) \<Longrightarrow>
      \<exists>D'. update_at d f D = Some D' \<and> represents 0 (children s1 @ cs3) (pre @ ct3) (fst D') (snd D')"
    by (rule CBB_flush_frame) (rule that, assumption+)
  from 2(2) fl b1(1) obtain b2 where b2: "f b1 = (True, b2)" "s' = s1\<lparr>base := Some b2\<rparr>"
    by (auto simp: flush_then_def split: prod.splits)
  note ok = buffer_op_ok [OF op b1(2) b2(1)]
  have "\<exists>D'. append_at d data D = Some D' \<and> represents 0 (children s1) (pre @ zs @ data) (fst D') (snd D')"
    by (rule append_atI) (rule up)
  with ok b1 b2 show ?case
    by (auto simp: builds_def grows_def same_flags_def)
next
  case (3 s s' D)
  show ?case
  proof (cases "CBB_flush al d s")
    case (Pair ok s1)
    show ?thesis
    proof (cases ok)
      case False
      with Pair 3(2) have "CBB_flush al d s = (False, s')" by (simp add: flush_then_def)
      then show ?thesis unfolding append_at_def by (rule CBB_flush_fails [OF 3(1)])
    next
      case True
      with Pair have fl: "CBB_flush al d s = (True, s1)" by simp
      from CBB_flush_base [OF 3(1) fl] obtain b1 where b1: "base s1 = Some b1" "wf_buf b1" .
      with True Pair 3(2) obtain b2 where "f b1 = (False, b2)" "s' = s1\<lparr>base := Some b2\<rparr>"
        by (auto simp: flush_then_def split: prod.splits)
      with buffer_op_fails [OF op b1(2)] show ?thesis by (simp add: failed_def)
    qed
  qed
next
  case (4 s D D')
  have "fst (CBB_flush al d s)"
    by (rule CBB_flush_room [OF 4(1) 4(2) [unfolded append_at_def] _ 4(3)]) (simp add: doc_size_def)
  then obtain s1 where fl: "CBB_flush al d s = (True, s1)" by (metis prod.collapse)
  from 4(1) fl obtain b1 pre zs where b1: "base s1 = Some b1" "wf_buf b1" "\<not> error b1" "content b1 = pre @ zs"
    "children s1 = take d (children s)" "length (children s1) = d" "grows s s1"
    "content_start d s1 = length pre"
    and up: "\<And>f cs3 ct3. represents (length pre) cs3 ct3 (fst (f zs)) (snd (f zs)) \<Longrightarrow>
      \<exists>D'. update_at d f D = Some D' \<and> represents 0 (children s1 @ cs3) (pre @ ct3) (fst D') (snd D')"
    by (rule CBB_flush_frame) (rule that, assumption+)
  have "\<exists>D'. append_at d data D = Some D' \<and> represents 0 (children s1) (pre @ zs @ data) (fst D') (snd D')"
    by (rule append_atI) (rule up)
  with 4(2) have "length pre + length zs + length data = doc_size D'"
    by (auto dest: represents_size)
  then have "room al (len b1 + length data) b1"
    using roomy_later [OF 4(3) b1(7)] b1(1,4) length_content [OF b1(2)] by (simp add: roomy_def)
  with buffer_op_room [OF op b1(2)] b1(1) fl show ?case
    by (auto simp: flush_then_def split: prod.splits)
qed

subsection \<open>Calculating with documents\<close>

text \<open>
  Everything an operation at depth \<open>d\<close> does happens inside the frame at depth \<open>d\<close>, so laws
  of documents need a proof at depth 0 only.
\<close>

fun zoom :: "nat \<Rightarrow> (doc \<Rightarrow> doc option) \<Rightarrow> doc \<Rightarrow> doc option" where
  "zoom 0 h D = h D"
| "zoom (Suc d) h (xs, []) = None"
| "zoom (Suc d) h (xs, (k, ys) # fs) =
     map_option (\<lambda>(zs, gs). (xs, (k, zs) # gs)) (zoom d h (ys, fs))"

lemma zoom_bind: "Option.bind (zoom d g D) (zoom d h) = zoom d (\<lambda>D. Option.bind (g D) h) D"
proof (induction d g D rule: zoom.induct)
  case (3 d g xs k ys fs)
  then show ?case
    by (cases "zoom d g (ys, fs)") (auto simp: case_prod_unfold)
qed auto

lemma zoom_None [simp]: "zoom d (\<lambda>_. None) D = None"
  by (induction d "\<lambda>_ :: doc. None :: doc option" D rule: zoom.induct) auto

lemma update_at_zoom: "update_at (d + e) f D = zoom d (update_at e f) D"
  by (induction d "update_at e f" D rule: zoom.induct) auto

lemma append_at_zoom: "append_at d xs = zoom d (append_at 0 xs)" "append_at (Suc d) xs = zoom d (append_at 1 xs)"
  and open_at_zoom: "open_at d k = zoom d (open_at 0 k)"
  using update_at_zoom [of d 0] update_at_zoom [of d 1] by (auto simp: append_at_def open_at_def)

lemma at_0:
  "append_at 0 xs (us, fs) = map_option (\<lambda>zs. (zs @ xs, [])) (close_frames us fs)"
  "open_at 0 k (us, fs) = map_option (\<lambda>zs. (zs, [(k, [])])) (close_frames us fs)"
  "append_at 1 xs (us, []) = None"
  "append_at 1 xs (us, (k, ys) # fs) = map_option (\<lambda>zs. (us, [(k, zs @ xs)])) (close_frames ys fs)"
  by (auto simp: append_at_def open_at_def option.map_comp comp_def)

lemma append_append: "Option.bind (append_at d xs D) (append_at d ys) = append_at d (xs @ ys) D"
proof -
  have "Option.bind (append_at 0 xs D) (append_at 0 ys) = append_at 0 (xs @ ys) D" for D
    by (cases D; cases "close_frames (fst D) (snd D)") (simp_all add: at_0)
  then show ?thesis
    by (simp add: append_at_zoom(1) [of d] zoom_bind)
qed

text \<open>Writing a child and closing it: the prefix and the contents appear in the parent.\<close>

lemma write_child:
  "Option.bind (Option.bind (append_at d xs D) (open_at d k))
     (\<lambda>D. Option.bind (append_at (Suc d) body D) (append_at d rest)) =
   (case length_prefix k (length body) of
      None \<Rightarrow> None | Some h \<Rightarrow> append_at d (xs @ h @ body @ rest) D)"
proof -
  have 0: "Option.bind (Option.bind (append_at 0 xs D) (open_at 0 k))
      (\<lambda>D. Option.bind (append_at 1 body D) (append_at 0 rest)) =
    (case length_prefix k (length body) of
      None \<Rightarrow> None | Some h \<Rightarrow> append_at 0 (xs @ h @ body @ rest) D)" for D
    by (cases D; cases "close_frames (fst D) (snd D)")
      (simp_all add: at_0 at_0 [unfolded One_nat_def] split: option.splits)
  show ?thesis
    by (simp add: append_at_zoom [of d] open_at_zoom [of d] zoom_bind 0 [unfolded One_nat_def]
        del: Option.bind_assoc split: option.splits)
qed

lemma update_at_None: "update_at d f D = None \<longleftrightarrow> update_at d g D = None"
  by (induction d f D rule: update_at.induct) auto

lemma append_open: "Option.bind (append_at d xs D) (open_at d k) = update_at d (\<lambda>zs. (zs @ xs, [(k, [])])) D"
proof -
  have "Option.bind (append_at 0 xs D) (open_at 0 k) = update_at 0 (\<lambda>zs. (zs @ xs, [(k, [])])) D" for D
    by (cases D; cases "close_frames (fst D) (snd D)") (simp_all add: at_0)
  then show ?thesis
    using update_at_zoom [of d 0] by (simp add: append_at_zoom(1) [of d] open_at_zoom [of d] zoom_bind)
qed

subsection \<open>The operations refine their documents\<close>

lemma buffer_add_bytes_cap:
  "buffer_add_bytes al data b = (True, b') \<Longrightarrow> wf_buf b \<Longrightarrow> length data < size_lim \<Longrightarrow> cap b \<le> cap b'"
proof -
  assume a: "buffer_add_bytes al data b = (True, b')" and wf: "wf_buf b" "length data < size_lim"
  then obtain b1 where 1: "cbb_buffer_add al (length data) b = (True, b1)"
    and b': "b' = b1\<lparr>buf := blit (len b) data (buf b1)\<rparr>"
    by (auto simp: buffer_add_bytes_def split: prod.splits bool.splits)
  from cbb_buffer_add_ok [OF 1 wf] show ?thesis
    by (auto simp: b' blit_def wf_buf_def)
qed

lemma buffer_op_bytes: "length data < size_lim \<Longrightarrow> buffer_op al data (buffer_add_bytes al data)"
  unfolding buffer_op_def
  by (auto intro: buffer_add_bytes_room
      dest: buffer_add_bytes_ok buffer_add_bytes_cap buffer_add_bytes_fails)

lemma buffer_op_u:
  assumes "0 < k" "k \<le> 8" "unat v < 256 ^ k"
  shows "buffer_op al (be_bytes k (unat v)) (cbb_buffer_add_u al v k)"
proof -
  have "cbb_buffer_add_u al v k = buffer_add_bytes al (be_bytes k (unat v))"
    using assms by (intro ext) (simp add: cbb_buffer_add_u_bytes split: prod.splits bool.splits)
  then show ?thesis
    using assms buffer_op_bytes [of "be_bytes k (unat v)"] by simp
qed

lemma CBB_flush_flush_then: "builds s D \<Longrightarrow> CBB_flush al d s = flush_then al d (Pair True) s"
  by (cases "CBB_flush al d s"; cases "fst (CBB_flush al d s)")
    (auto simp: flush_then_def elim!: CBB_flush_base)

lemma refines_builds_cong:
  "(\<And>s D. builds s D \<Longrightarrow> w s = w' s) \<Longrightarrow> refines al w' g \<Longrightarrow> refines al w g"
  by (rule refinesI) (metis refines_size refines_ok refines_fail refines_succeeds)+

lemma refines_flush: "refines al (CBB_flush al d) (append_at d [])"
proof (rule refines_builds_cong)
  show "refines al (flush_then al d (Pair True)) (append_at d [])"
    by (rule refines_flush_then) (simp add: buffer_op_def)
qed (rule CBB_flush_flush_then)

lemma refines_bytes: "length data < size_lim \<Longrightarrow> refines al (CBB_add_bytes al d data) (append_at d data)"
  unfolding CBB_add_bytes_def by (intro refines_flush_then buffer_op_bytes)

lemma refines_put_u:
  "0 < k \<Longrightarrow> k \<le> 8 \<Longrightarrow> unat v < 256 ^ k \<Longrightarrow>
    refines al (flush_then al d (cbb_buffer_add_u al v k)) (append_at d (be_bytes k (unat v)))"
  by (intro refines_flush_then buffer_op_u)

lemma u8_be_bytes: "be_bytes 1 (unat (b :: u8)) = [b]"
  by (rule be_bytes_eqI) auto

lemma refines_u8: "refines al (CBB_add_u8 al d v) (append_at d [v])"
  using refines_put_u [of 1 "ucast v"] unsigned_less [of v, where ?'a = nat] u8_be_bytes [of v]
  unfolding CBB_add_u8_def by (simp add: unat_ucast_up)

lemma refines_u16: "refines al (CBB_add_u16 al d v) (append_at d (be_bytes 2 (unat v)))"
  using refines_put_u [of 2 "ucast v"] unsigned_less [of v, where ?'a = nat]
  unfolding CBB_add_u16_def by (simp add: unat_ucast_up)

lemma refines_u24:
  "unat v < 256 ^ 3 \<Longrightarrow> refines al (CBB_add_u24 al d v) (append_at d (be_bytes 3 (unat v)))"
  using refines_put_u [of 3 "ucast v"]
  unfolding CBB_add_u24_def by (simp add: unat_ucast_up)

lemma refines_u32: "refines al (CBB_add_u32 al d v) (append_at d (be_bytes 4 (unat v)))"
  using refines_put_u [of 4 "ucast v"] unsigned_less [of v, where ?'a = nat]
  unfolding CBB_add_u32_def by (simp add: unat_ucast_up)

lemma refines_u64: "refines al (CBB_add_u64 al d v) (append_at d (be_bytes 8 (unat v)))"
  using refines_put_u [of 8 "v"] unsigned_less [of v, where ?'a = nat]
  unfolding CBB_add_u64_def by simp

text \<open>Turning the last bytes written into the placeholder of a new child.\<close>

lemma represents_open:
  assumes "update_at d (\<lambda>zs. (zs @ data @ pad, [])) D = Some D1"
    and "represents p cs ct (fst D1) (snd D1)" "offset c = p + length ct - length pad"
    and "pad \<noteq> []" "pending_len_len c = length pad" "child_kind c = k"
    and "pending_is_asn1 c \<longrightarrow> length pad = 1"
  shows "\<exists>D2. update_at d (\<lambda>zs. (zs @ data, [(k, [])])) D = Some D2 \<and>
    represents p (take d cs @ [c]) ct (fst D2) (snd D2)"
  using assms(1-3)
proof (induction d "\<lambda>zs. (zs @ data @ pad, [] :: frame list)" D arbitrary: D1 p cs ct rule: update_at.induct)
  case (1 xs fs)
  then obtain zs where zs: "close_frames xs fs = Some zs" "D1 = (zs @ data @ pad, [])" by auto
  with 1(2) have "ct = zs @ data @ pad" by (cases cs) auto
  with zs 1(3) assms(4-) show ?case by auto
next
  case (3 d xs k' ys fs)
  then obtain E where E: "update_at d (\<lambda>zs. (zs @ data @ pad, [])) (ys, fs) = Some E"
    "D1 = (xs, (k', fst E) # snd E)" by auto
  with "3.prems"(2) obtain c' cs' where cs: "cs = c' # cs'" by (cases cs) auto
  from "3.prems"(2) [unfolded cs E(2)] obtain pad' rest where fr: "ct = xs @ pad' @ rest" "pad' \<noteq> []"
    "offset c' = p + length xs" "pending_len_len c' = length pad'"
    "child_kind c' = k'" "pending_is_asn1 c' \<longrightarrow> length pad' = 1"
    and rep: "represents (p + length xs + length pad') cs' rest (fst E) (snd E)" by auto
  have "offset c = p + length xs + length pad' + length rest - length pad"
    using "3.prems"(3) fr(1) by simp
  from "3.hyps" [OF E(1) rep this] obtain E2 where
    "update_at d (\<lambda>zs. (zs @ data, [(k, [])])) (ys, fs) = Some E2"
    "represents (p + length xs + length pad') (take d cs' @ [c]) rest (fst E2) (snd E2)" by blast
  then show ?case
    using fr cs by (auto simp: case_prod_unfold)
qed simp

definition open_child :: "nat \<Rightarrow> nat \<Rightarrow> bool \<Rightarrow> cbb \<Rightarrow> cbb" where
  "open_child d n asn1 s = s\<lparr>children := take d (children s) @
     [\<lparr>offset = len (the (base s)) - n, pending_len_len = n, pending_is_asn1 = asn1\<rparr>]\<rparr>"

lemma refines_open:
  assumes w: "refines al w (append_at d (data @ pad))"
    and pad: "pad \<noteq> []" "asn1 \<Longrightarrow> length pad = 1"
  shows "refines al (\<lambda>s. case w s of (False, s1) \<Rightarrow> (False, s1) | (True, s1) \<Rightarrow> (True, open_child d (length pad) asn1 s1))
    (\<lambda>D. Option.bind (append_at d data D) (open_at d (if asn1 then Asn1 else Fixed (length pad))))"
    (is "refines al ?w ?g")
proof -
  let ?k = "if asn1 then Asn1 else Fixed (length pad)"
  have step: "\<exists>D2. ?g D = Some D2 \<and> builds (open_child d (length pad) asn1 s1) D2"
    if B: "builds s D" and ws: "w s = (True, s1)" for s s1 D
  proof -
    from refines_ok [OF w that] obtain D1 where D1: "append_at d (data @ pad) D = Some D1" "builds s1 D1" .
    from D1(2) obtain b where b: "base s1 = Some b" "wf_buf b" "\<not> error b"
      and rep: "represents 0 (children s1) (content b) (fst D1) (snd D1)" by (auto simp: builds_def)
    let ?c = "\<lparr>offset = len b - length pad, pending_len_len = length pad, pending_is_asn1 = asn1\<rparr>"
    have "\<exists>D2. update_at d (\<lambda>zs. (zs @ data, [(?k, [])])) D = Some D2 \<and>
        represents 0 (take d (children s1) @ [?c]) (content b) (fst D2) (snd D2)"
      by (rule represents_open [OF D1(1) [unfolded append_at_def] rep])
        (use pad b in \<open>auto simp: child_kind_def\<close>)
    with b show ?thesis
      by (auto simp: builds_def open_child_def append_open)
  qed
  have size: "doc_size D2 = doc_size D1" if "?g D = Some D2" "append_at d (data @ pad) D = Some D1" for D D1 D2
  proof -
    have "update_at d (\<lambda>zs. (zs @ data, [(?k, [])])) D = Some D2" "update_at d (\<lambda>zs. (zs @ data @ pad, [])) D = Some D1"
      using that by (simp_all add: append_open) (simp add: append_at_def)
    then show ?thesis
      by (induction d "\<lambda>zs. (zs @ data, [(?k, [] :: bytes)])" D arbitrary: D1 D2 rule: update_at.induct)
        (use pad in \<open>auto simp: doc_size_def\<close>)
  qed
  have none: "?g D = None \<longleftrightarrow> append_at d (data @ pad) D = None" for D
    unfolding append_open unfolding append_at_def by (rule update_at_None)
  show ?thesis
  proof (rule refinesI, goal_cases)
    case (1 D D')
    then obtain D1 where "append_at d (data @ pad) D = Some D1" using none [of D] by auto
    with size [OF 1 this] refines_size [OF w] show ?case by metis
  next
    case (2 s s' D)
    then obtain s1 where s1: "w s = (True, s1)" "s' = open_child d (length pad) asn1 s1"
      by (auto split: prod.splits bool.splits)
    with refines_ok [OF w 2(1)] have "grows s s1" by metis
    with step [OF 2(1) s1(1)] s1 show ?case by (auto simp: grows_def open_child_def)
  next
    case (3 s s' D)
    then have "w s = (False, s')" by (auto split: prod.splits bool.splits)
    then show ?case unfolding none by (rule refines_fail [OF w 3(1)])
  next
    case (4 s D D')
    then obtain D1 where D1: "append_at d (data @ pad) D = Some D1" using none [of D] by auto
    have "fst (w s)"
      by (rule refines_succeeds [OF w 4(1) D1]) (use size [OF 4(2) D1] 4(3) in simp)
    then show ?case by (auto split: prod.splits bool.splits)
  qed
qed

end
