(* ===== verification/Cbb_Codec.thy ===== *)
theory Cbb_Codec
  imports Cbb_Builder
begin

text \<open>
  The writers of \<open>cbb.c\<close> against the readers of \<open>cbs.c\<close>: every \<open>CBB_add\<close> function appends the
  encoding its reader accepts. A locale states the contract of a matching pair once and derives
  the round trips (one value, a sequence, a sequence behind a length prefix); it is interpreted
  for the fixed-width integers, length-prefixed strings and the DER values.
\<close>

unbundle bit_operations_syntax

subsection \<open>Children\<close>

lemma add_length_prefixed_open:
  assumes "0 < k" "k < size_lim" "builds s D"
  shows "cbb_add_length_prefixed al d k s =
    (case flush_then al d (buffer_add_bytes al (replicate k 0)) s of
       (False, s1) \<Rightarrow> (False, s1) | (True, s1) \<Rightarrow> (True, open_child d k False s1))"
proof (cases "CBB_flush al d s")
  case (Pair ok s1)
  show ?thesis
  proof (cases ok)
    case False
    with Pair show ?thesis by (simp add: cbb_add_length_prefixed_def flush_then_def)
  next
    case True
    with Pair have fl: "CBB_flush al d s = (True, s1)" by simp
    from CBB_flush_base [OF assms(3) fl] obtain b where b: "base s1 = Some b" "wf_buf b" .
    show ?thesis
      using cbb_buffer_add_ok [OF _ b(2) assms(2), of al] assms(1)
      by (auto simp: cbb_add_length_prefixed_def flush_then_def fl b(1) buffer_add_bytes_def
          open_child_def split: prod.splits bool.splits)
  qed
qed

lemma refines_add_length_prefixed:
  assumes "0 < k" "k < size_lim"
  shows "refines al (cbb_add_length_prefixed al d k) (open_at d (Fixed k))"
proof (rule refines_builds_cong)
  let ?w = "flush_then al d (buffer_add_bytes al (replicate k 0))"
  have "refines al ?w (append_at d ([] @ replicate k 0))"
    using buffer_op_bytes [of "replicate k 0"] assms by (intro refines_flush_then) simp
  from refines_open [OF this, of False, unfolded length_replicate]
  have "refines al (\<lambda>s. case ?w s of (False, s1) \<Rightarrow> (False, s1) | (True, s1) \<Rightarrow> (True, open_child d k False s1))
      (\<lambda>D. Option.bind (append_at d [] D) (open_at d (Fixed k)))"
    using assms by simp
  then show "refines al (\<lambda>s. case ?w s of (False, s1) \<Rightarrow> (False, s1) | (True, s1) \<Rightarrow> (True, open_child d k False s1))
      (open_at d (Fixed k))"
    by (rule refines_cong) (simp add: append_open, simp add: open_at_def)
qed (rule add_length_prefixed_open [OF assms])

lemma refines_length_prefixed:
  "refines al (CBB_add_u8_length_prefixed al d) (open_at d (Fixed 1))"
  "refines al (CBB_add_u16_length_prefixed al d) (open_at d (Fixed 2))"
  "refines al (CBB_add_u24_length_prefixed al d) (open_at d (Fixed 3))"
  unfolding CBB_add_u8_length_prefixed_def CBB_add_u16_length_prefixed_def
    CBB_add_u24_length_prefixed_def
  by (simp_all add: refines_add_length_prefixed)

subsection \<open>Base-128 integers and tags\<close>

lemma base128_len_bounds:
  "unat v < 128 ^ base128_len v" "0 < base128_len v \<Longrightarrow> 128 ^ (base128_len v - 1) \<le> unat v"
proof (induction v rule: base128_len.induct)
  case (1 v)
  {
    case 1
    show ?case
      using "1.IH"(1) by (simp add: base128_len.simps [of v] unat_drop_bit word_less_nat_alt
          less_mult_imp_div_less div_less_iff_less_mult mult.commute)
  next
    case 2
    then have v: "v > 0" by (simp add: base128_len.simps [of v] split: if_splits)
    show ?case
    proof (cases "base128_len (drop_bit 7 v) = 0")
      case True
      with v show ?thesis
        by (simp add: base128_len.simps [of v] word_less_nat_alt Suc_le_eq)
    next
      case False
      then obtain k where k: "base128_len (drop_bit 7 v) = Suc k" by (cases "base128_len (drop_bit 7 v)") auto
      with "1.IH"(2) v have "128 ^ k \<le> unat v div 128"
        by (simp add: unat_drop_bit)
      then have "128 ^ k * 128 \<le> unat v" by (simp add: less_eq_div_iff_mult_less_eq)
      with k v show ?thesis by (simp add: base128_len.simps [of v] mult.commute)
    qed
  }
qed

lemma base128_hi_digits:
  assumes "n < 128 ^ K" "0 < K \<Longrightarrow> 128 ^ (K - 1) \<le> n" "j \<le> K"
  shows "base128_hi (n div 128 ^ j) = map (\<lambda>i. word_of_nat (n div 128 ^ i mod 128) OR 0x80) (rev [j..<K])"
  using assms(3)
proof (induction j rule: inc_induct)
  case base
  with assms(1) show ?case by simp
next
  case (step j)
  then have "(128 :: nat) ^ j \<le> 128 ^ (K - 1)" by (intro power_increasing) auto
  also have "\<dots> \<le> n" using step(2) assms(2) by simp
  finally have "n div 128 ^ j \<noteq> 0" by (simp add: div_eq_0_iff)
  then have "base128_hi (n div 128 ^ j) =
      base128_hi (n div 128 ^ Suc j) @ [word_of_nat (n div 128 ^ j mod 128) OR 0x80]"
    by (subst base128_hi.simps) (simp add: div_mult2_eq [symmetric] mult.commute)
  with step show ?case by (simp add: upt_conv_Cons)
qed

definition base128_digit :: "u64 \<Rightarrow> nat \<Rightarrow> u8" where
  "base128_digit v i =
     (let b = ucast (drop_bit (7 * i) v) AND 0x7f in if i \<noteq> 0 then b OR 0x80 else b)"

lemma base128_digit_nat:
  "base128_digit v i = (let b = word_of_nat (unat v div 128 ^ i mod 128) in if i \<noteq> 0 then b OR 0x80 else b)"
proof -
  have "unat (ucast (drop_bit (7 * i) v) AND 0x7f :: u8) = unat v div 128 ^ i mod 128"
    using power_mult [of "2 :: nat" 7 i]
    by (simp add: unat_and_0x7f unat_ucast_down unat_drop_bit mod_mod_cancel)
  then have "ucast (drop_bit (7 * i) v) AND 0x7f = (word_of_nat (unat v div 128 ^ i mod 128) :: u8)"
    by (intro word_unat_eq_iff [THEN iffD2]) (simp add: mod_mod_cancel)
  then show ?thesis by (simp add: base128_digit_def)
qed

text \<open>A loop that writes a list of items, possibly none.\<close>

definition seq_at :: "nat \<Rightarrow> bytes \<Rightarrow> doc \<Rightarrow> doc option" where
  "seq_at d xs = (if xs = [] then Some else append_at d xs)"

lemma refines_skip: "refines al (Pair True) Some"
  by (rule refinesI) (auto simp: grows_def builds_def)

lemma append_seq: "Option.bind (append_at d xs D) (seq_at d ys) = append_at d (xs @ ys) D"
  by (cases "ys = []") (simp_all add: seq_at_def append_append)

lemma refines_append_seq:
  assumes "refines al w1 (append_at d xs)" "refines al w2 (seq_at d ys)"
  shows "refines al (\<lambda>s. case w1 s of (False, s1) \<Rightarrow> (False, s1) | (True, s1) \<Rightarrow> w2 s1) (append_at d (xs @ ys))"
  by (rule refines_cong [OF refines_seq [OF assms]]) (rule append_seq)

lemma refines_append_append:
  assumes "refines al w1 (append_at d xs)" "refines al w2 (append_at d ys)"
  shows "refines al (\<lambda>s. case w1 s of (False, s1) \<Rightarrow> (False, s1) | (True, s1) \<Rightarrow> w2 s1) (append_at d (xs @ ys))"
  by (rule refines_cong [OF refines_seq [OF assms]]) (rule append_append)

text \<open>\<open>&&\<close> of two writes.\<close>

definition and_then :: "(cbb \<Rightarrow> bool \<times> cbb) \<Rightarrow> (cbb \<Rightarrow> bool \<times> cbb) \<Rightarrow> cbb \<Rightarrow> bool \<times> cbb" where
  "and_then w1 w2 s = (case w1 s of (False, s) \<Rightarrow> (False, s) | (True, s) \<Rightarrow> w2 s)"

lemma refines_and_then:
  "refines al w1 (append_at d xs) \<Longrightarrow> refines al w2 (append_at d ys) \<Longrightarrow>
    refines al (and_then w1 w2) (append_at d (xs @ ys))"
  unfolding and_then_def [abs_def] by (rule refines_append_append)

lemma refines_if:
  "refines al w1 (append_at d xs) \<Longrightarrow> refines al w2 (append_at d ys) \<Longrightarrow>
    refines al (if b then w1 else w2) (append_at d (if b then xs else ys))"
  by simp

lemma refines_base128_loop:
  "refines al (add_base128_loop al d v i) (seq_at d (map (base128_digit v) (rev [0..<i])))"
proof (induction i)
  case 0
  show ?case using refines_skip by (simp add: seq_at_def fun_eq_iff [symmetric])
next
  case (Suc i)
  from refines_append_seq [OF refines_u8 Suc, of "base128_digit v i"]
  show ?case
    by (simp add: seq_at_def base128_digit_def Let_def)
qed

lemma base128_bytes_digits:
  assumes "unat v < 128 ^ Suc j" "0 < j \<Longrightarrow> 128 ^ j \<le> unat v"
  shows "map (base128_digit v) (rev [0..<Suc j]) = base128_bytes (unat v)"
proof -
  have hi: "base128_hi (unat v div 128 ^ 1) =
      map (\<lambda>i. word_of_nat (unat v div 128 ^ i mod 128) OR 0x80) (rev [1..<Suc j])"
  proof (cases "j = 0")
    case False
    then show ?thesis
      by (intro base128_hi_digits [OF assms(1)]) (use assms(2) in auto)
  qed (use assms(1) in simp)
  have "map (base128_digit v) (rev [1..<Suc j]) =
      map (\<lambda>i. word_of_nat (unat v div 128 ^ i mod 128) OR 0x80) (rev [1..<Suc j])"
    by (rule map_cong [OF refl]) (auto simp: base128_digit_nat)
  moreover have "[0..<Suc j] = 0 # [1..<Suc j]" by (simp add: upt_conv_Cons)
  ultimately show ?thesis
    using hi by (simp add: base128_bytes_def base128_digit_nat)
qed

lemma refines_add_base128: "refines al (add_base128_integer al d v) (append_at d (base128_bytes (unat v)))"
proof -
  define n where "n = base128_len v"
  define j where "j = (if n = 0 then 0 else n - 1)"
  have "unat v < 128 ^ Suc j" "0 < j \<Longrightarrow> 128 ^ j \<le> unat v"
    using base128_len_bounds [of v] by (cases n; simp add: j_def n_def [symmetric])+
  from base128_bytes_digits [OF this] show ?thesis
    using refines_base128_loop [of al d v "Suc j"]
    by (auto simp: add_base128_integer_def [abs_def] Let_def seq_at_def j_def n_def [symmetric]
        split: if_splits)
qed

subsection \<open>ASN.1 elements\<close>

lemma refines_add_tag: "refines al (add_asn1_tag al d tag) (append_at d (der_tag_bytes tag))"
proof -
  let ?top = "ucast (drop_bit 24 tag AND 0xe0) :: u8" and ?n = "tag AND 0x1fffffff"
  have top: "?top = ucast (drop_bit 24 tag) AND 0xe0"
    by (rule bit_word_eqI) (auto simp: bit_simps mask_constants)
  show ?thesis
  proof (cases "?n \<ge> 0x1f")
    case True
    note u = refines_u8 [of al d "?top OR 0x1f"] and b = refines_add_base128 [of al d "ucast ?n"]
    from refines_append_append [OF u b] True show ?thesis
      by (simp add: add_asn1_tag_def [abs_def] der_tag_bytes_def Let_def top unat_ucast_up)
  next
    case False
    then show ?thesis
      using refines_u8 [of al d "?top OR ucast ?n"]
      by (simp add: add_asn1_tag_def [abs_def] der_tag_bytes_def Let_def top)
  qed
qed

lemma append_size:
  "append_at d xs D = Some D1 \<Longrightarrow> append_at d ys D1 = Some D2 \<Longrightarrow> doc_size D2 = doc_size D1 + length ys"
  unfolding append_at_def
proof (induction d "\<lambda>zs. (zs @ xs, [] :: frame list)" D arbitrary: D1 D2 rule: update_at.induct)
  case (3 d us k vs fs)
  then obtain E1 where E1: "update_at d (\<lambda>zs. (zs @ xs, [])) (vs, fs) = Some E1"
    "D1 = (us, (k, fst E1) # snd E1)" by (auto simp: case_prod_unfold)
  with "3.prems"(2) obtain E2 where E2: "update_at d (\<lambda>zs. (zs @ ys, [])) E1 = Some E2"
    "D2 = (us, (k, fst E2) # snd E2)" by (auto simp: case_prod_unfold)
  from "3.hyps" [OF E1(1) E2(1)] E1(2) E2(2) show ?case by (simp add: doc_size_def)
qed (auto simp: doc_size_def)

lemma builds_len: "builds s D \<Longrightarrow> len (the (base s)) = doc_size D"
  by (auto simp: builds_def dest: represents_size)

lemma CBB_add_asn1_open:
  assumes B: "builds s D"
  shows "CBB_add_asn1 al d tag s =
    (case (case (case CBB_flush al d s of (False, s1) \<Rightarrow> (False, s1) | (True, s1) \<Rightarrow> add_asn1_tag al d tag s1) of
             (False, s2) \<Rightarrow> (False, s2) | (True, s2) \<Rightarrow> CBB_add_u8 al d 0 s2) of
       (False, s3) \<Rightarrow> (False, s3) | (True, s3) \<Rightarrow> (True, open_child d 1 True s3))"
proof -
  obtain ok1 s1 ok2 s2 ok3 s3 where r: "CBB_flush al d s = (ok1, s1)" "add_asn1_tag al d tag s1 = (ok2, s2)"
    "CBB_add_u8 al d 0 s2 = (ok3, s3)" by (metis prod.collapse)
  show ?thesis
  proof (cases "ok1 \<and> ok2 \<and> ok3")
    case True
    with r have r: "CBB_flush al d s = (True, s1)" "add_asn1_tag al d tag s1 = (True, s2)"
      "CBB_add_u8 al d 0 s2 = (True, s3)" by auto
    from refines_ok [OF refines_flush B r(1)] obtain D1 where D1: "builds s1 D1" .
    from refines_ok [OF refines_add_tag D1 r(2)] obtain D2 where
      D2: "append_at d (der_tag_bytes tag) D1 = Some D2" "builds s2 D2" .
    from refines_ok [OF refines_u8 D2(2) r(3)] obtain D3 where
      D3: "append_at d [0] D2 = Some D3" "builds s3 D3" .
    have "len (the (base s3)) - 1 = len (the (base s2))"
      using append_size [OF D2(1) D3(1)] builds_len [OF D2(2)] builds_len [OF D3(2)] by simp
    moreover obtain b2 where "base s2 = Some b2" using D2(2) by (auto simp: builds_def)
    ultimately show ?thesis
      by (simp add: CBB_add_asn1_def r open_child_def Let_def)
  next
    case False
    show ?thesis
    proof (cases "ok1 \<and> ok2")
      case True
      with r have r': "CBB_flush al d s = (True, s1)" "add_asn1_tag al d tag s1 = (True, s2)" by auto
      from refines_ok [OF refines_flush B r'(1)] obtain D1 where D1: "builds s1 D1" .
      from refines_ok [OF refines_add_tag D1 r'(2)] obtain b2 where "base s2 = Some b2"
        by (auto simp: builds_def)
      with False True r r' show ?thesis by (simp add: CBB_add_asn1_def Let_def)
    next
      case no: False
      then show ?thesis using r by (cases ok1; cases ok2) (simp_all add: CBB_add_asn1_def)
    qed
  qed
qed

lemma refines_add_asn1:
  "refines al (CBB_add_asn1 al d tag)
     (\<lambda>D. Option.bind (append_at d (der_tag_bytes tag) D) (open_at d Asn1))"
proof (rule refines_builds_cong [OF CBB_add_asn1_open])
  have one: "length [0 :: u8] = 1" by simp
  note ft = refines_append_append [OF refines_flush refines_add_tag, of al d tag]
  from refines_append_append [OF ft refines_u8 [of al d 0]]
  have "refines al (\<lambda>s. case (case CBB_flush al d s of (False, s1) \<Rightarrow> (False, s1) | (True, s1) \<Rightarrow> add_asn1_tag al d tag s1) of
      (False, s2) \<Rightarrow> (False, s2) | (True, s2) \<Rightarrow> CBB_add_u8 al d 0 s2) (append_at d (der_tag_bytes tag @ [0]))"
    by simp
  from refines_open [OF this, of True, unfolded one if_True]
  show "refines al (\<lambda>s. case (case (case CBB_flush al d s of (False, s1) \<Rightarrow> (False, s1)
             | (True, s1) \<Rightarrow> add_asn1_tag al d tag s1) of
        (False, s2) \<Rightarrow> (False, s2) | (True, s2) \<Rightarrow> CBB_add_u8 al d 0 s2) of
      (False, s3) \<Rightarrow> (False, s3) | (True, s3) \<Rightarrow> (True, open_child d 1 True s3))
    (\<lambda>D. Option.bind (append_at d (der_tag_bytes tag) D) (open_at d Asn1))"
    by simp
qed

text \<open>A whole element: the header is written when the child is flushed.\<close>

text \<open>The document an element adds; contents of \<open>0xffffffff\<close> bytes or more are refused.\<close>

definition element_at :: "nat \<Rightarrow> u32 \<Rightarrow> bytes \<Rightarrow> doc \<Rightarrow> doc option" where
  "element_at d tag body D =
     (if length body \<le> 0xfffffffe then append_at d (der_element tag body) D else None)"

lemma refines_element_any:
  assumes body: "refines al w (append_at (d + 1) body)"
  shows "refines al
    (\<lambda>s. case CBB_add_asn1 al d tag s of
       (False, s1) \<Rightarrow> (False, s1)
     | (True, s1) \<Rightarrow> (case w s1 of (False, s2) \<Rightarrow> (False, s2) | (True, s2) \<Rightarrow> CBB_flush al d s2))
    (element_at d tag body)"
proof (rule refines_cong)
  show "refines al
    (\<lambda>s. case CBB_add_asn1 al d tag s of
       (False, s1) \<Rightarrow> (False, s1)
     | (True, s1) \<Rightarrow> (case w s1 of (False, s2) \<Rightarrow> (False, s2) | (True, s2) \<Rightarrow> CBB_flush al d s2))
    (\<lambda>D. Option.bind (Option.bind (append_at d (der_tag_bytes tag) D) (open_at d Asn1))
       (\<lambda>D. Option.bind (append_at (d + 1) body D) (append_at d [])))"
    by (rule refines_seq [OF refines_add_asn1 refines_seq [OF body refines_flush]])
  show "Option.bind (Option.bind (append_at d (der_tag_bytes tag) D) (open_at d Asn1))
       (\<lambda>D. Option.bind (append_at (d + 1) body D) (append_at d [])) = element_at d tag body D" for D
    using write_child [of d "der_tag_bytes tag" D Asn1 body "[]"]
    by (simp add: der_element_def der_header_def element_at_def del: Option.bind_assoc)
qed

lemma refines_element:
  assumes body: "refines al w (append_at (d + 1) body)" and len: "length body \<le> 0xfffffffe"
  shows "refines al
    (\<lambda>s. case CBB_add_asn1 al d tag s of
       (False, s1) \<Rightarrow> (False, s1)
     | (True, s1) \<Rightarrow> (case w s1 of (False, s2) \<Rightarrow> (False, s2) | (True, s2) \<Rightarrow> CBB_flush al d s2))
    (append_at d (der_element tag body))"
  by (rule refines_cong [OF refines_element_any [OF body]]) (simp add: element_at_def len)

lemma refines_octet_string_any:
  "length data < size_lim \<Longrightarrow>
    refines al (CBB_add_asn1_octet_string al d data) (element_at d CBS_ASN1_OCTETSTRING data)"
  unfolding CBB_add_asn1_octet_string_def [abs_def]
  by (rule refines_element_any) (simp add: refines_bytes)

lemma refines_octet_string:
  "length data \<le> 0xfffffffe \<Longrightarrow>
    refines al (CBB_add_asn1_octet_string al d data) (append_at d (der_element CBS_ASN1_OCTETSTRING data))"
  unfolding CBB_add_asn1_octet_string_def [abs_def]
  by (rule refines_element) (simp_all add: refines_bytes)

lemma refines_bool:
  "refines al (CBB_add_asn1_bool al d v)
    (append_at d (der_element CBS_ASN1_BOOLEAN [if v \<noteq> 0 then 0xff else 0]))"
  unfolding CBB_add_asn1_bool_def [abs_def]
  by (rule refines_element) (simp_all add: refines_u8 del: One_nat_def)

subsection \<open>Integers\<close>

text \<open>
  The contents written for an unsigned integer: leading zero bytes are dropped, and one is put
  back when the value is zero or its first byte looks negative.
\<close>

fun uint_out :: "bool \<Rightarrow> bytes \<Rightarrow> bytes" where
  "uint_out started [] = (if started then [] else [0])"
| "uint_out started (b # bs) =
     (if \<not> started \<and> b = 0 then uint_out False bs
      else (if \<not> started \<and> 128 \<le> unat b then [0] else []) @ b # uint_out True bs)"

lemma uint_out_started [simp]: "uint_out True bs = bs"
  by (induction bs) auto

lemma uint_out_props:
  "minimal_int (uint_out False bs)" "unat (uint_out False bs ! 0) < 128"
  "be_val (uint_out False bs) = be_val bs" "length (uint_out False bs) \<le> length bs + 1"
proof (induction bs)
  case (Cons b bs)
  have nz: "b \<noteq> 0 \<Longrightarrow> unat b \<noteq> 0" by (simp add: unsigned_eq_0_iff)
  have ff: "\<not> 128 \<le> unat b \<Longrightarrow> b \<noteq> 0xff" by auto
  {
    case 1 then show ?case using Cons nz ff by (auto simp: minimal_int_def)
  next
    case 2 then show ?case using Cons by auto
  next
    case 3 then show ?case using Cons by (auto simp: be_val_Cons)
  next
    case 4 then show ?case using Cons by auto
  }
qed (simp_all add: minimal_int_def)

lemma be_bytes_top: "be_bytes (Suc n) v = word_of_nat (v div 256 ^ n) # be_bytes n v"
proof (induction n arbitrary: v)
  case (Suc n)
  have "be_bytes (Suc (Suc n)) v = be_bytes (Suc n) (v div 256) @ [word_of_nat v]" by simp
  also have "\<dots> = (word_of_nat (v div 256 div 256 ^ n) # be_bytes n (v div 256)) @ [word_of_nat v]"
    by (simp only: Suc.IH)
  finally show ?case by (simp add: div_mult2_eq)
qed simp

lemma u64_byte: "ucast (drop_bit (8 * i) v) = (word_of_nat (unat v div 256 ^ i) :: u8)" for v :: u64
  using power_mult [of "2 :: nat" 8 i]
  by (intro word_unat_eq_iff [THEN iffD2]) (simp add: unat_ucast_down unat_drop_bit)

definition uint64_loop :: "allocator \<Rightarrow> nat \<Rightarrow> u64 \<Rightarrow> nat \<Rightarrow> bool \<Rightarrow> cbb \<Rightarrow> bool \<times> cbb" where
  "uint64_loop al d v i st s =
     (case asn1_uint64_bytes al d v i st s of
        (False, _, s1) \<Rightarrow> (False, s1)
      | (True, started, s1) \<Rightarrow> if \<not> started then CBB_add_u8 al (d + 1) 0 s1 else (True, s1))"

lemma refines_uint64_loop:
  "refines al (uint64_loop al d v i st) (seq_at (d + 1) (uint_out st (be_bytes i (unat v))))"
proof (induction i arbitrary: st)
  case 0
  show ?case
    using refines_skip refines_u8 [of al "d + 1" 0]
    by (cases st) (simp_all add: uint64_loop_def [abs_def] seq_at_def)
next
  case (Suc i)
  define b :: u8 where "b = ucast (drop_bit (8 * i) v)"
  have bytes: "be_bytes (Suc i) (unat v) = b # be_bytes i (unat v)"
    unfolding be_bytes_top b_def u64_byte ..
  note u = refines_u8 [of al "d + 1" 0] and ub = refines_u8 [of al "d + 1" b]
  consider (skip) "\<not> st" "b = 0" | (pad) "\<not> st" "128 \<le> unat b" "b \<noteq> 0"
    | (plain) "st \<or> b \<noteq> 0" "st \<or> \<not> 128 \<le> unat b" by blast
  then show ?case
  proof cases
    case skip
    then have "uint64_loop al d v (Suc i) st = uint64_loop al d v i False"
      by (simp add: fun_eq_iff uint64_loop_def Let_def b_def [symmetric])
    then show ?thesis using skip Suc [of False] by (simp add: bytes del: be_bytes.simps)
  next
    case pad
    then have eq: "uint64_loop al d v (Suc i) st =
      (\<lambda>s. case (case CBB_add_u8 al (d + 1) 0 s of (False, s1) \<Rightarrow> (False, s1)
                | (True, s1) \<Rightarrow> CBB_add_u8 al (d + 1) b s1) of
         (False, s1) \<Rightarrow> (False, s1) | (True, s1) \<Rightarrow> uint64_loop al d v i True s1)"
      by (auto simp: fun_eq_iff uint64_loop_def Let_def b_def [symmetric] and_0x80_iff
          split: prod.splits bool.splits)
    have "uint_out st (b # be_bytes i (unat v)) = [0, b] @ be_bytes i (unat v)"
      using pad by simp
    then show ?thesis
      using refines_append_seq [OF refines_append_append [OF u ub] Suc [of True]] unfolding eq bytes
      by (simp add: seq_at_def del: uint_out.simps be_bytes.simps)
  next
    case plain
    have eq: "uint64_loop al d v (Suc i) st =
      (\<lambda>s. case CBB_add_u8 al (d + 1) b s of
         (False, s1) \<Rightarrow> (False, s1) | (True, s1) \<Rightarrow> uint64_loop al d v i True s1)"
    proof (intro ext)
      fix s
      obtain ok s1 where "CBB_add_u8 al (d + 1) b s = (ok, s1)" by fastforce
      with plain show "uint64_loop al d v (Suc i) st s = (case CBB_add_u8 al (d + 1) b s of
          (False, s1) \<Rightarrow> (False, s1) | (True, s1) \<Rightarrow> uint64_loop al d v i True s1)"
        by (cases ok; cases st) (simp_all add: uint64_loop_def Let_def b_def [symmetric] and_0x80_iff)
    qed
    have "uint_out st (b # be_bytes i (unat v)) = [b] @ be_bytes i (unat v)"
      using plain by auto
    then show ?thesis
      using refines_append_seq [OF ub Suc [of True]] unfolding eq bytes
      by (simp add: seq_at_def del: uint_out.simps be_bytes.simps)
  qed
qed

lemma uint_out_nonempty [simp]: "uint_out False bs \<noteq> []"
  using uint_out_props(1) [of bs] by (auto simp: minimal_int_def)

lemma refines_uint64:
  "refines al (CBB_add_asn1_uint64 al d v)
    (append_at d (der_element CBS_ASN1_INTEGER (uint_out False (be_bytes 8 (unat v)))))"
proof -
  let ?body = "uint_out False (be_bytes 8 (unat v))"
  have "CBB_add_asn1_uint64 al d v = (\<lambda>s. case CBB_add_asn1 al d CBS_ASN1_INTEGER s of
      (False, s1) \<Rightarrow> (False, s1)
    | (True, s1) \<Rightarrow> (case uint64_loop al d v 8 False s1 of
        (False, s2) \<Rightarrow> (False, s2) | (True, s2) \<Rightarrow> CBB_flush al d s2))"
    by (auto simp: CBB_add_asn1_uint64_def uint64_loop_def fun_eq_iff split: prod.splits bool.splits)
  moreover have "refines al (uint64_loop al d v 8 False) (append_at (d + 1) ?body)"
    using refines_uint64_loop [of al d v 8 False] by (simp add: seq_at_def)
  moreover have "length ?body \<le> 0xfffffffe"
    using uint_out_props(4) [of "be_bytes 8 (unat v)"] by simp
  ultimately show ?thesis using refines_element by simp
qed

text \<open>The contents for a negative integer: redundant sign bytes are dropped.\<close>

fun strip_ff :: "bytes \<Rightarrow> bytes" where
  "strip_ff (x # y # bs) = (if x = 0xff \<and> 128 \<le> unat y then strip_ff (y # bs) else x # y # bs)"
| "strip_ff bs = bs"

lemma strip_ff_props:
  assumes "bs \<noteq> []" "128 \<le> unat (hd bs)"
  shows "minimal_int (strip_ff bs) \<and> 128 \<le> unat (hd (strip_ff bs)) \<and>
    twos_val (strip_ff bs) = twos_val bs \<and> length (strip_ff bs) \<le> length bs"
  using assms
proof (induction bs rule: strip_ff.induct)
  case (1 x y bs)
  then show ?case
    by (auto simp: minimal_int_def twos_val_def be_val_Cons)
qed (auto simp: minimal_int_def)

definition int64_out :: "u64 \<Rightarrow> bytes" where
  "int64_out v = (if sint v \<ge> 0 then uint_out False (be_bytes 8 (unat v))
                  else strip_ff (be_bytes 8 (unat v)))"

lemma add_bytes_down_seq:
  "i \<le> length u \<Longrightarrow> refines al (add_bytes_down al d u i) (seq_at d (rev (take i u)))"
proof (induction i)
  case 0
  show ?case using refines_skip by (simp add: seq_at_def add_bytes_down.simps [abs_def])
next
  case (Suc i)
  then have "refines al (add_bytes_down al d u i) (seq_at d (rev (take i u)))" by simp
  from refines_append_seq [OF refines_u8 this, of "u ! i"] Suc.prems
  show ?case by (simp add: seq_at_def take_Suc_conv_app_nth)
qed

lemma int64_start_strip:
  "i < length u \<Longrightarrow> rev (take (int64_start u i + 1) u) = strip_ff (rev (take (Suc i) u)) \<and> int64_start u i \<le> i"
proof (induction i)
  case 0
  then show ?case by (cases u) auto
next
  case (Suc i)
  then have "rev (take (Suc (Suc i)) u) = u ! Suc i # u ! i # rev (take i u)"
    "rev (take (Suc i) u) = u ! i # rev (take i u)"
    by (simp_all add: take_Suc_conv_app_nth)
  with Suc show ?case by (auto simp: and_0x80_iff)
qed

lemma refines_int64:
  "refines al (CBB_add_asn1_int64 al d v) (append_at d (der_element CBS_ASN1_INTEGER (int64_out v)))"
proof (cases "sint v \<ge> 0")
  case True
  then show ?thesis
    using refines_uint64 by (simp add: CBB_add_asn1_int64_def [abs_def] int64_out_def)
next
  case False
  let ?u = "int64_bytes v" and ?st = "int64_start (int64_bytes v) 7"
  have len: "length ?u = 8" and rev: "rev ?u = be_bytes 8 (unat v)"
    by (simp_all add: int64_bytes_def le_bytes_def)
  from int64_start_strip [of 7 ?u] len rev
  have st: "rev (take (?st + 1) ?u) = int64_out v" "?st \<le> 7"
    using False by (auto simp: int64_out_def)
  have l: "length (int64_out v) \<le> 8" "int64_out v \<noteq> []"
    using st len by (auto simp flip: st(1) length_greater_0_conv)
  have "refines al (add_bytes_down al (d + 1) ?u (?st + 1)) (append_at (d + 1) (int64_out v))"
    using add_bytes_down_seq [of "?st + 1" ?u al "d + 1"] st(2) len l(2) unfolding st(1)
    by (simp add: seq_at_def)
  then have "refines al (\<lambda>s. case CBB_add_asn1 al d CBS_ASN1_INTEGER s of
      (False, s1) \<Rightarrow> (False, s1)
    | (True, s1) \<Rightarrow> (case add_bytes_down al (d + 1) ?u (?st + 1) s1 of
        (False, s2) \<Rightarrow> (False, s2) | (True, s2) \<Rightarrow> CBB_flush al d s2))
    (append_at d (der_element CBS_ASN1_INTEGER (int64_out v)))"
    by (rule refines_element) (use l in simp)
  with False show ?thesis
    by (simp add: CBB_add_asn1_int64_def [abs_def] Let_def)
qed

end
