(* ===== verification/Cbb_Roundtrip.thy ===== *)
theory Cbb_Roundtrip
  imports Cbb_Codec
begin

text \<open>
  Building a document from start to finish, and reading it back. \<open>CBB_build\<close> is the use every
  caller makes of a builder: \<open>CBB_init\<close>, the writes, \<open>CBB_finish\<close>. The locale \<open>cbb_codec\<close>
  pairs a writer with the reader that inverts it.
\<close>

unbundle bit_operations_syntax

subsection \<open>From \<open>CBB_init\<close> to \<open>CBB_finish\<close>\<close>

definition CBB_build :: "allocator \<Rightarrow> nat \<Rightarrow> (cbb \<Rightarrow> bool \<times> cbb) \<Rightarrow> bytes option" where
  "CBB_build al n w =
     (case CBB_init al n of
        None \<Rightarrow> None
      | Some s \<Rightarrow>
          (case w s of
             (False, _) \<Rightarrow> None
           | (True, s1) \<Rightarrow> fst (CBB_finish al True 0 s1)))"

definition close_doc :: "doc \<Rightarrow> bytes option" where
  "close_doc D = close_frames (fst D) (snd D)"

lemma CBB_init_builds:
  assumes "CBB_init al n = Some s" "n < size_lim"
  shows "builds s ([], [])"
  using assms
  by (auto simp: CBB_init_def cbb_init_def CBB_zero_def builds_def wf_buf_def content_def split: if_splits)

lemma CBB_init_roomy:
  assumes "CBB_init al n = Some s" "\<forall>m. al m" "k < size_lim"
  shows "roomy al k s"
  using assms
  by (auto simp: CBB_init_def cbb_init_def CBB_zero_def roomy_def room_def split: if_splits)

lemma append_at_0_Some: "append_at 0 xs D = Some D' \<longleftrightarrow> (\<exists>zs. close_doc D = Some zs \<and> D' = (zs @ xs, []))"
  by (cases D) (auto simp: at_0 close_doc_def)

lemma builds_closed: "builds s (xs, []) \<Longrightarrow> take (len (the (base s))) (buf (the (base s))) = xs"
  by (cases "children s") (auto simp: builds_def content_def)

lemma CBB_finish_ok:
  assumes B: "builds s D" and f: "CBB_finish al want 0 s = (Some out, s')"
  shows "close_doc D = Some out \<and> base s' = None"
proof -
  obtain ok s1 where fl: "CBB_flush al 0 s = (ok, s1)" by fastforce
  with f have ok by (auto simp: CBB_finish_def split: bool.splits)
  with fl have fl: "CBB_flush al 0 s = (True, s1)" by simp
  from refines_ok [OF refines_flush B fl] obtain zs where zs: "close_doc D = Some zs" "builds s1 (zs, [])"
    by (auto simp: append_at_0_Some)
  then obtain b where "base s1 = Some b" by (auto simp: builds_def)
  with f fl builds_closed [OF zs(2)] zs(1) show ?thesis
    by (auto simp: CBB_finish_def CBB_cleanup_def split: if_splits)
qed

lemma CBB_finish_room:
  assumes B: "builds s D" and c: "close_doc D = Some out" and r: "roomy al (length out) s"
  shows "\<exists>s'. CBB_finish al True 0 s = (Some out, s')"
proof -
  have "append_at 0 [] D = Some (out, [])" using c by (simp add: append_at_0_Some)
  from refines_succeeds [OF refines_flush B this, of al] r have "fst (CBB_flush al 0 s)"
    by (simp add: doc_size_def)
  then obtain s1 where fl: "CBB_flush al 0 s = (True, s1)"
    by (metis prod.collapse)
  from refines_ok [OF refines_flush B fl] obtain b where b: "base s1 = Some b"
    by (auto simp: builds_def)
  then obtain o' s' where "CBB_finish al True 0 s = (Some o', s')"
    using fl by (auto simp: CBB_finish_def)
  with CBB_finish_ok [OF B this] c show ?thesis by auto
qed

text \<open>What is built is the document of the operation, and building succeeds when memory does.\<close>

lemma CBB_build_ok:
  assumes w: "refines al w g" and "n < size_lim" and b: "CBB_build al n w = Some out"
  shows "\<exists>D. g ([], []) = Some D \<and> close_doc D = Some out"
proof -
  from b obtain s s1 where i: "CBB_init al n = Some s" and ws: "w s = (True, s1)"
    and f: "fst (CBB_finish al True 0 s1) = Some out"
    by (auto simp: CBB_build_def split: option.splits prod.splits bool.splits)
  from refines_ok [OF w CBB_init_builds [OF i assms(2)] ws] obtain D where
    D: "g ([], []) = Some D" "builds s1 D" .
  then show ?thesis
    using CBB_finish_ok [OF D(2)] f by (metis prod.collapse)
qed

lemma CBB_build_total:
  assumes w: "refines al w g" and al: "\<forall>m. al m" and n: "n < size_lim"
    and g: "g ([], []) = Some D" "close_doc D = Some out" "length out < size_lim"
  shows "CBB_build al n w = Some out"
proof -
  obtain s where i: "CBB_init al n = Some s"
    using al by (auto simp: CBB_init_def cbb_init_def)
  note B = CBB_init_builds [OF i n]
  have "doc_size D \<le> length out"
    using g(2) close_frames_size [of "fst D" "snd D"] by (simp add: close_doc_def)
  then have r: "roomy al (doc_size D) s" "roomy al (length out) s"
    using CBB_init_roomy [OF i al] g(3) by simp_all
  from refines_succeeds [OF w B g(1) r(1)] obtain s1 where ws: "w s = (True, s1)"
    by (metis prod.collapse)
  from refines_ok [OF w B ws] g(1) have s1: "builds s1 D" "grows s s1" by auto
  from CBB_finish_room [OF s1(1) g(2) roomy_later [OF r(2) s1(2)]] show ?thesis
    using i ws by (auto simp: CBB_build_def)
qed

lemma CBB_build_append:
  "refines al w (append_at 0 xs) \<Longrightarrow> n < size_lim \<Longrightarrow> CBB_build al n w = Some out \<Longrightarrow> out = xs"
  "refines al w (append_at 0 xs) \<Longrightarrow> n < size_lim \<Longrightarrow> \<forall>m. al m \<Longrightarrow> length xs < size_lim \<Longrightarrow>
    CBB_build al n w = Some xs"
  using CBB_build_ok [of al w "append_at 0 xs" n out]
    CBB_build_total [of al w "append_at 0 xs" n "(xs, [])" xs]
  by (auto simp: append_at_0_Some close_doc_def)

subsection \<open>Writers and their readers\<close>

fun write_all :: "('a \<Rightarrow> cbb \<Rightarrow> bool \<times> cbb) \<Rightarrow> 'a list \<Rightarrow> cbb \<Rightarrow> bool \<times> cbb" where
  "write_all w [] s = (True, s)"
| "write_all w (x # xs) s =
     (case w x s of (False, s1) \<Rightarrow> (False, s1) | (True, s1) \<Rightarrow> write_all w xs s1)"

lemma refines_write_all:
  assumes "\<And>x. x \<in> set xs \<Longrightarrow> refines al (w x) (append_at d (e x))" "\<And>x. x \<in> set xs \<Longrightarrow> e x \<noteq> []"
  shows "refines al (write_all w xs) (seq_at d (concat (map e xs)))"
  using assms
proof (induction xs)
  case Nil
  show ?case using refines_skip by (simp add: seq_at_def write_all.simps [abs_def])
next
  case (Cons x xs)
  from refines_append_seq [OF Cons.prems(1) Cons.IH] Cons.prems show ?case
    by (simp add: seq_at_def write_all.simps [abs_def])
qed

text \<open>A sequence of items behind a 16-bit length, as TLS writes its vectors.\<close>

definition write_vector :: "allocator \<Rightarrow> (cbb \<Rightarrow> bool \<times> cbb) \<Rightarrow> cbb \<Rightarrow> bool \<times> cbb" where
  "write_vector al w s =
     (case CBB_add_u16_length_prefixed al 0 s of
        (False, s1) \<Rightarrow> (False, s1)
      | (True, s1) \<Rightarrow> (case w s1 of (False, s2) \<Rightarrow> (False, s2) | (True, s2) \<Rightarrow> CBB_flush al 0 s2))"

lemma refines_vector:
  assumes w: "refines al w (append_at 1 body)" and len: "length body < 2 ^ 16"
  shows "refines al (write_vector al w) (append_at 0 (be_bytes 2 (length body) @ body))"
proof (rule refines_cong)
  show "refines al (write_vector al w)
    (\<lambda>D. Option.bind (open_at 0 (Fixed 2) D) (\<lambda>D. Option.bind (append_at 1 body D) (append_at 0 [])))"
    unfolding write_vector_def [abs_def]
    by (rule refines_seq [OF refines_length_prefixed(2) refines_seq [OF w refines_flush]])
  show "Option.bind (open_at 0 (Fixed 2) D) (\<lambda>D. Option.bind (append_at 1 body D) (append_at 0 [])) =
      append_at 0 (be_bytes 2 (length body) @ body) D" for D
    using len by (cases D; cases "close_frames (fst D) (snd D)") (simp_all add: at_0 at_0 [unfolded One_nat_def])
qed

locale cbb_codec = prefix_code enc dec ok
  for enc :: "'a \<Rightarrow> bytes" and dec :: "bytes \<Rightarrow> 'a option \<times> bytes" and ok :: "'a \<Rightarrow> bool" +
  fixes put :: "allocator \<Rightarrow> nat \<Rightarrow> 'a \<Rightarrow> cbb \<Rightarrow> bool \<times> cbb"
  assumes writes: "ok x \<Longrightarrow> refines al (put al d x) (append_at d (enc x))"
begin

lemma writes_all:
  "(\<And>x. x \<in> set xs \<Longrightarrow> ok x) \<Longrightarrow> refines al (write_all (put al d) xs) (seq_at d (concat (map enc xs)))"
  by (rule refines_write_all) (auto simp: writes enc_nonempty)

lemma build_one:
  assumes "ok x" "n < size_lim" "CBB_build al n (put al 0 x) = Some out"
  shows "out = enc x" "dec (out @ r) = (Some x, r)"
proof -
  show *: "out = enc x" using CBB_build_append(1) [OF writes] assms by blast
  show "dec (out @ r) = (Some x, r)" unfolding * by (rule dec_enc [OF assms(1)])
qed

lemma build_one_total:
  "ok x \<Longrightarrow> n < size_lim \<Longrightarrow> \<forall>m. al m \<Longrightarrow> length (enc x) < size_lim \<Longrightarrow>
    CBB_build al n (put al 0 x) = Some (enc x)"
  by (rule CBB_build_append(2) [OF writes])

lemma build_all:
  assumes ok: "\<And>x. x \<in> set xs \<Longrightarrow> ok x" and "n < size_lim"
    and b: "CBB_build al n (write_all (put al 0) xs) = Some out"
  shows "read_all (length out) dec out = Some xs"
proof -
  from CBB_build_ok [OF writes_all [OF ok] assms(2) b] obtain D where
    "seq_at 0 (concat (map enc xs)) ([], []) = Some D" "close_doc D = Some out" by blast
  then have "out = concat (map enc xs)"
    by (auto simp: seq_at_def append_at_0_Some close_doc_def split: if_splits)
  then show ?thesis
    using read_all_enc [OF ok order_refl] by simp
qed

text \<open>The same behind a length prefix, as long as the length fits.\<close>

lemma build_vector:
  assumes ok: "\<And>x. x \<in> set xs \<Longrightarrow> ok x" and "n < size_lim" "xs \<noteq> []"
    and len: "length (concat (map enc xs)) < 2 ^ 16"
    and b: "CBB_build al n (write_vector al (write_all (put al 1) xs)) = Some out"
  shows "\<exists>body. CBS_get_u16_length_prefixed out = (Some body, []) \<and>
    read_all (length body) dec body = Some xs"
proof -
  let ?body = "concat (map enc xs)"
  have "?body \<noteq> []" using assms(3) ok enc_nonempty by (cases xs) auto
  then have "seq_at 1 ?body = append_at 1 ?body" by (simp only: seq_at_def if_False)
  with writes_all [OF ok, of xs al 1] have "refines al (write_all (put al 1) xs) (append_at 1 ?body)"
    by simp
  from CBB_build_append(1) [OF refines_vector [OF this len] assms(2) b]
  have out: "out = be_bytes 2 (length ?body) @ ?body @ []" by simp
  have "unat (word_of_nat (length ?body) :: u64) = length ?body"
    using len by (simp add: unat_of_nat)
  then have "cbs_get_u 2 out = (Some (word_of_nat (length ?body)), ?body)"
    using len by (simp add: cbs_get_u_iff out)
  then have "CBS_get_u16_length_prefixed out = (Some ?body, [])"
    using len by (simp add: CBS_get_u16_length_prefixed_def cbs_get_length_prefixed_def
        CBS_get_bytes_iff unat_of_nat)
  then show ?thesis
    using read_all_enc [OF ok order_refl] by blast
qed

lemma build_vector_total:
  assumes ok: "\<And>x. x \<in> set xs \<Longrightarrow> ok x" and "n < size_lim" "xs \<noteq> []" "\<forall>m. al m"
    and len: "length (concat (map enc xs)) < 2 ^ 16"
  shows "CBB_build al n (write_vector al (write_all (put al 1) xs)) =
    Some (be_bytes 2 (length (concat (map enc xs))) @ concat (map enc xs))"
proof -
  let ?body = "concat (map enc xs)"
  have "?body \<noteq> []" using assms(3) ok enc_nonempty by (cases xs) auto
  then have "seq_at 1 ?body = append_at 1 ?body" by (simp only: seq_at_def if_False)
  with writes_all [OF ok, of xs al 1] have "refines al (write_all (put al 1) xs) (append_at 1 ?body)"
    by simp
  from CBB_build_append(2) [OF refines_vector [OF this len] assms(2,4)] len show ?thesis by simp
qed

end

subsection \<open>Fixed-width integers\<close>

lemma be_bytes_nonempty [simp]: "0 < k \<Longrightarrow> be_bytes k v \<noteq> []"
  by (cases k) auto

text \<open>The readers that narrow the result of \<open>cbs_get_u\<close>.\<close>

lemma cbs_get_u_narrow_iff:
  fixes w :: "'b :: len word"
  assumes k: "k \<le> 8" "(256 :: nat) ^ k \<le> 2 ^ LENGTH('b)" "LENGTH('b) \<le> 64"
  shows "(case cbs_get_u k cbs of (None, c) \<Rightarrow> (None, c) | (Some v, c) \<Rightarrow> (Some (ucast v), c)) = (Some w, r) \<longleftrightarrow>
    cbs = be_bytes k (unat w) @ r \<and> unat w < 256 ^ k"
proof
  assume "(case cbs_get_u k cbs of (None, c) \<Rightarrow> (None, c) | (Some v, c) \<Rightarrow> (Some (ucast v), c)) = (Some w, r)"
  then obtain v where v: "cbs_get_u k cbs = (Some v, r)" "w = ucast v"
    by (auto split: prod.splits option.splits)
  then have "cbs = be_bytes k (unat v) @ r" "unat v < 256 ^ k" using cbs_get_u_iff [OF k(1)] by auto
  moreover from this k(2) have "unat w = unat v" by (simp add: v(2) unat_ucast_down)
  ultimately show "cbs = be_bytes k (unat w) @ r \<and> unat w < 256 ^ k" by simp
next
  assume "cbs = be_bytes k (unat w) @ r \<and> unat w < 256 ^ k"
  moreover have "unat (ucast w :: u64) = unat w" using k(3) by (intro unat_ucast_up) simp
  moreover from this have "ucast (ucast w :: u64) = w"
    by (intro word_unat_eq_iff [THEN iffD2])
      (metis mod_less unat_ucast_down unsigned_less)
  ultimately show "(case cbs_get_u k cbs of (None, c) \<Rightarrow> (None, c) | (Some v, c) \<Rightarrow> (Some (ucast v), c)) = (Some w, r)"
    using cbs_get_u_iff [OF k(1), of cbs "ucast w" r] by simp
qed

lemma get_u16_iff: "CBS_get_u16 cbs = (Some v, r) \<longleftrightarrow> cbs = be_bytes 2 (unat v) @ r"
  using unsigned_less [of v, where ?'a = nat] by (simp add: CBS_get_u16_def cbs_get_u_narrow_iff)

lemma get_u24_iff: "CBS_get_u24 cbs = (Some w, r) \<longleftrightarrow> cbs = be_bytes 3 (unat w) @ r \<and> unat w < 256 ^ 3"
  unfolding CBS_get_u24_def by (rule cbs_get_u_narrow_iff) simp_all

lemma get_u32_iff: "CBS_get_u32 cbs = (Some w, r) \<longleftrightarrow> cbs = be_bytes 4 (unat w) @ r"
  using unsigned_less [of w, where ?'a = nat] by (simp add: CBS_get_u32_def cbs_get_u_narrow_iff)

lemma get_u64_iff: "CBS_get_u64 cbs = (Some z, r) \<longleftrightarrow> cbs = be_bytes 8 (unat z) @ r"
  using unsigned_less [of z, where ?'a = nat] by (simp add: CBS_get_u64_def cbs_get_u_iff)

interpretation u8c: cbb_codec "\<lambda>v :: u8. [v]" CBS_get_u8 "\<lambda>_. True" CBB_add_u8
  by unfold_locales (auto simp: refines_u8)

interpretation u16c: cbb_codec "\<lambda>v :: u16. be_bytes 2 (unat v)" CBS_get_u16 "\<lambda>_. True" CBB_add_u16
  by unfold_locales (auto simp: get_u16_iff refines_u16)

interpretation u24c: cbb_codec "\<lambda>v :: u32. be_bytes 3 (unat v)" CBS_get_u24 "\<lambda>v. unat v < 256 ^ 3" CBB_add_u24
  by unfold_locales (auto simp: get_u24_iff refines_u24)

interpretation u32c: cbb_codec "\<lambda>v :: u32. be_bytes 4 (unat v)" CBS_get_u32 "\<lambda>_. True" CBB_add_u32
  by unfold_locales (auto simp: get_u32_iff refines_u32)

interpretation u64c: cbb_codec "\<lambda>v :: u64. be_bytes 8 (unat v)" CBS_get_u64 "\<lambda>_. True" CBB_add_u64
  by unfold_locales (auto simp: get_u64_iff refines_u64)

interpretation base128c: cbb_codec "\<lambda>v :: u64. base128_bytes (unat v)" parse_base128_integer "\<lambda>_. True"
  add_base128_integer
  by unfold_locales (rule refines_add_base128)

subsection \<open>DER integers and strings\<close>

text \<open>Minimal two's complement contents are determined by their value.\<close>

lemma be_val_bound_int: "int (be_val xs) < 256 ^ length xs"
  using be_val_bound [of xs] by (metis of_nat_less_iff of_nat_numeral of_nat_power)

lemma twos_val_bounds:
  assumes "body \<noteq> []"
  shows "- (128 * 256 ^ (length body - 1)) \<le> twos_val body" "twos_val body < 128 * 256 ^ (length body - 1)"
proof -
  obtain b bs where body: "body = b # bs" using assms by (cases body) auto
  let ?m = "256 ^ length bs :: int"
  define s where "s = (if 128 \<le> unat b then int (unat b) - 256 else int (unat b))"
  have s: "- 128 \<le> s" "s \<le> 127" unfolding s_def by (cases "128 \<le> unat b"; use unat_u8_le [of b] in \<open>simp only: if_True if_False\<close>; linarith)+
  have bs: "0 \<le> int (be_val bs)" "int (be_val bs) < ?m"
    using be_val_bound [of bs] be_val_bound_int [of bs] by simp_all
  have val: "twos_val body = s * ?m + int (be_val bs)"
    by (simp add: twos_val_def body be_val_Cons s_def left_diff_distrib)
  have "(- 128) * ?m \<le> s * ?m" "s * ?m \<le> 127 * ?m"
    using s by (intro mult_right_mono; simp)+
  moreover have "length body - 1 = length bs" by (simp add: body)
  ultimately show "- (128 * 256 ^ (length body - 1)) \<le> twos_val body"
    "twos_val body < 128 * 256 ^ (length body - 1)"
    unfolding val using bs by (simp_all only:)
qed

lemma minimal_int_bounds:
  assumes "minimal_int body" "1 < length body"
  shows "128 * 256 ^ (length body - 2) \<le> twos_val body \<or> twos_val body < - (128 * 256 ^ (length body - 2))"
proof -
  obtain b c cs where body: "body = b # c # cs" using assms(2) by (cases body; cases "tl body") auto
  let ?m = "256 ^ length cs :: int"
  define t where "t = (if 128 \<le> unat b then int (unat b) - 256 else int (unat b)) * 256 + int (unat c)"
  have m: "0 < ?m" by simp
  have cs: "0 \<le> int (be_val cs)" "int (be_val cs) < ?m"
    using be_val_bound [of cs] be_val_bound_int [of cs] by simp_all
  have val: "twos_val body = t * ?m + int (be_val cs)"
    by (simp add: twos_val_def body be_val_Cons t_def algebra_simps)
  have len: "length body - 2 = length cs" by (simp add: body)
  have b0: "unat b = 0 \<Longrightarrow> b = 0" and b255: "unat b = 255 \<Longrightarrow> b = 0xff"
    by (simp_all add: word_unat_eq_iff)
  have m: "\<not> (unat b = 0 \<and> unat c < 128)" "\<not> (unat b = 255 \<and> 128 \<le> unat c)"
    using assms(1) b0 b255 by (auto simp: minimal_int_def body)
  have key: "128 \<le> (if 128 \<le> p then int p - 256 else int p) * 256 + int q \<or>
      (if 128 \<le> p then int p - 256 else int p) * 256 + int q \<le> - 129"
    if "p \<le> 255" "q \<le> 255" "\<not> (p = 0 \<and> q < 128)" "\<not> (p = 255 \<and> 128 \<le> q)" for p q :: nat
    using that by (cases "p = 0"; cases "p = 255") auto
  have "128 \<le> t \<or> t \<le> - 129"
    unfolding t_def by (rule key [OF _ _ m]) simp_all
  then show ?thesis
  proof
    assume "128 \<le> t"
    then have "128 * ?m \<le> t * ?m" by (intro mult_right_mono) auto
    with cs show ?thesis unfolding val len by linarith
  next
    assume "t \<le> - 129"
    then have "t * ?m \<le> (- 129) * ?m" by (intro mult_right_mono) auto
    with cs show ?thesis unfolding val len by linarith
  qed
qed

lemma minimal_int_shorter:
  assumes "minimal_int a" "minimal_int b" "length a < length b"
  shows "twos_val a \<noteq> twos_val b"
proof -
  have a: "a \<noteq> []" using assms(1) by (simp add: minimal_int_def)
  then have l: "1 < length b" using assms(3) by (cases a) auto
  have "(256 :: int) ^ (length a - 1) \<le> 256 ^ (length b - 2)"
    using assms(3) a by (intro power_increasing) (cases a; simp)+
  with minimal_int_bounds [OF assms(2) l] twos_val_bounds [OF a] show ?thesis by linarith
qed

lemma minimal_int_unique:
  assumes "minimal_int a" "minimal_int b" "twos_val a = twos_val b"
  shows "a = b"
proof -
  have l: "length a = length b"
    using minimal_int_shorter [of a b] minimal_int_shorter [of b a] assms by (metis linorder_neqE_nat)
  have ne: "a \<noteq> []" "b \<noteq> []" using assms by (simp_all add: minimal_int_def)
  have "int (be_val a) mod 256 ^ length a = int (be_val b) mod 256 ^ length a"
    using assms(3) l unfolding twos_val_def
    by (auto simp: split: if_splits) (metis minus_mod_self2)+
  then have "be_val a = be_val b" using l be_val_bound_int [of a] be_val_bound_int [of b] by (metis mod_pos_pos_trivial of_nat_0_le_iff of_nat_eq_iff)
  with l show ?thesis by (rule be_val_inj)
qed

lemma twos_val_positive: "body \<noteq> [] \<Longrightarrow> unat (body ! 0) < 128 \<Longrightarrow> twos_val body = int (be_val body)"
  by (simp add: twos_val_def hd_conv_nth)

lemma be_bytes_val_u64: "be_val (be_bytes 8 (unat (v :: u64))) = unat v"
  using unsigned_less [of v, where ?'a = nat] by (simp add: be_val_be_bytes_id)

interpretation uint64c: canonical_code
  "\<lambda>v :: u64. der_element CBS_ASN1_INTEGER (uint_out False (be_bytes 8 (unat v)))"
  CBS_get_asn1_uint64 "\<lambda>_. True"
proof unfold_locales
  fix v :: u64 and r
  let ?body = "uint_out False (be_bytes 8 (unat v))"
  note p = uint_out_props [of "be_bytes 8 (unat v)"]
  show "CBS_get_asn1_uint64 (der_element CBS_ASN1_INTEGER ?body @ r) = (Some v, r)"
    using p by (auto simp: CBS_get_asn1_uint64_iff be_bytes_val_u64 intro!: exI [of _ ?body])
next
  fix bs r and v :: u64
  let ?body = "uint_out False (be_bytes 8 (unat v))"
  note p = uint_out_props [of "be_bytes 8 (unat v)"]
  assume "CBS_get_asn1_uint64 bs = (Some v, r)"
  then obtain body where b: "bs = der_element CBS_ASN1_INTEGER body @ r" "minimal_int body"
    "unat (body ! 0) < 128" "be_val body = unat v"
    by (auto simp: CBS_get_asn1_uint64_iff)
  then have "body = ?body"
    using p(1-3) be_bytes_val_u64 [of v] twos_val_positive [of body] twos_val_positive [of ?body]
    by (intro minimal_int_unique) (auto simp: minimal_int_def)
  with b show "True \<and> bs = der_element CBS_ASN1_INTEGER ?body @ r" by simp
qed simp

interpretation uint64w: cbb_codec
  "\<lambda>v :: u64. der_element CBS_ASN1_INTEGER (uint_out False (be_bytes 8 (unat v)))"
  CBS_get_asn1_uint64 "\<lambda>_. True" CBB_add_asn1_uint64
  by unfold_locales (rule refines_uint64)

lemma int64_out_props:
  "minimal_int (int64_out v)" "twos_val (int64_out v) = sint v" "length (int64_out v) \<le> 8"
proof -
  let ?bs = "be_bytes 8 (unat v)"
  obtain b bs where bs: "?bs = b # bs" "length bs = 7"
    by (cases ?bs) (auto simp flip: length_0_conv dest: arg_cong [of _ _ length])
  have ne: "?bs \<noteq> []" using bs by simp
  from assemble_int64 [OF ne] have tw: "twos_val ?bs = sint v"
    by (simp add: le_val_def be_bytes_val_u64)
  have top: "128 \<le> unat (hd ?bs) \<longleftrightarrow> sint v < 0"
    using be_val_bound_int [of ?bs] ne unfolding tw [symmetric] twos_val_def by simp
  have "minimal_int (int64_out v) \<and> twos_val (int64_out v) = sint v \<and> length (int64_out v) \<le> 8"
  proof (cases "sint v < 0")
    case True
    then show ?thesis
      using strip_ff_props [OF ne] top tw by (simp add: int64_out_def)
  next
    case False
    then have "unat b < 128" using top bs by simp
    moreover have "twos_val ?bs = int (be_val ?bs)"
      using False top by (simp add: twos_val_def)
    ultimately show ?thesis
      using uint_out_props [of ?bs] uint_out_props(4) [of bs] twos_val_positive [of "uint_out False ?bs"]
        False bs tw by (auto simp: int64_out_def)
  qed
  then show "minimal_int (int64_out v)" "twos_val (int64_out v) = sint v" "length (int64_out v) \<le> 8"
    by auto
qed

interpretation int64c: canonical_code
  "\<lambda>v :: u64. der_element CBS_ASN1_INTEGER (int64_out v)" CBS_get_asn1_int64 "\<lambda>_. True"
proof unfold_locales
  fix v :: u64 and r
  show "CBS_get_asn1_int64 (der_element CBS_ASN1_INTEGER (int64_out v) @ r) = (Some v, r)"
    using int64_out_props [of v] by (auto simp: CBS_get_asn1_int64_iff intro!: exI [of _ "int64_out v"])
next
  fix bs r and v :: u64
  assume "CBS_get_asn1_int64 bs = (Some v, r)"
  then obtain body where b: "bs = der_element CBS_ASN1_INTEGER body @ r" "minimal_int body"
    "sint v = twos_val body"
    by (auto simp: CBS_get_asn1_int64_iff)
  then have "body = int64_out v"
    using int64_out_props [of v] by (intro minimal_int_unique) simp_all
  with b show "True \<and> bs = der_element CBS_ASN1_INTEGER (int64_out v) @ r" by simp
qed simp

interpretation int64w: cbb_codec
  "\<lambda>v :: u64. der_element CBS_ASN1_INTEGER (int64_out v)" CBS_get_asn1_int64 "\<lambda>_. True" CBB_add_asn1_int64
  by unfold_locales (rule refines_int64)

text \<open>The writer refuses contents of \<open>0xffffffff\<close> bytes, one length the reader still accepts.\<close>

interpretation octetw: cbb_codec
  "der_element CBS_ASN1_OCTETSTRING" "CBS_get_asn1 CBS_ASN1_OCTETSTRING"
  "\<lambda>data. length data \<le> 0xfffffffe" CBB_add_asn1_octet_string
  by unfold_locales (auto simp: CBS_get_asn1_iff refines_octet_string)

lemma get_bool_iff:
  "CBS_get_asn1_bool cbs = (Some v, r) \<longleftrightarrow> cbs = der_element CBS_ASN1_BOOLEAN [if v then 0xff else 0] @ r"
proof
  assume "CBS_get_asn1_bool cbs = (Some v, r)"
  then obtain data where d: "CBS_get_asn1 CBS_ASN1_BOOLEAN cbs = (Some data, r)" "length data = 1"
    "data ! 0 = 0 \<or> data ! 0 = 0xff" "v \<longleftrightarrow> data ! 0 \<noteq> 0"
    by (auto simp: CBS_get_asn1_bool_def CBS_len_def Let_def split: prod.splits option.splits if_splits)
  then have "data = [if v then 0xff else 0]" by (auto simp: length_Suc_conv)
  with d(1) show "cbs = der_element CBS_ASN1_BOOLEAN [if v then 0xff else 0] @ r"
    by (simp add: CBS_get_asn1_iff)
next
  assume "cbs = der_element CBS_ASN1_BOOLEAN [if v then 0xff else 0] @ r"
  then have "CBS_get_asn1 CBS_ASN1_BOOLEAN cbs = (Some [if v then 0xff else 0], r)"
    by (simp add: CBS_get_asn1_iff)
  then show "CBS_get_asn1_bool cbs = (Some v, r)"
    by (simp add: CBS_get_asn1_bool_def CBS_len_def)
qed

interpretation boolw: cbb_codec
  "\<lambda>v. der_element CBS_ASN1_BOOLEAN [if v then 0xff else 0]" CBS_get_asn1_bool "\<lambda>_. True"
  "\<lambda>al d v. CBB_add_asn1_bool al d (of_bool v)"
  by unfold_locales (use refines_bool [of _ _ 0] refines_bool [of _ _ 1] in \<open>auto simp: get_bool_iff of_bool_def\<close>)

end
