(* ===== verification/Cbb_Set.thy ===== *)
theory Cbb_Set
  imports Cbb_Roundtrip "HOL-Library.List_Lexorder"
begin

text \<open>
  \<open>CBB_flush_asn1_set_of\<close>: the contents written to a child, a sequence of DER elements, are
  replaced by the same elements in ascending order of their encodings. The comparison function
  is shown to be the lexicographic order, an interpretation of the \<open>comparator\<close> contract.
\<close>

subsection \<open>The order on encodings\<close>

lemma memcmp_sign: "OPENSSL_memcmp a b n \<in> {-1, 0, 1}"
  by (induction a b n rule: OPENSSL_memcmp.induct) auto

lemma compare_set_of_element_Cons:
  "compare_set_of_element (x # xs) (y # ys) =
     (if x < y then -1 else if y < x then 1 else compare_set_of_element xs ys)"
  by (simp add: compare_set_of_element_def CBS_len_def CBS_data_def Let_def)

lemma compare_set_of_element_Nil:
  "compare_set_of_element [] ys = (if ys = [] then 0 else -1)"
  "compare_set_of_element xs [] = (if xs = [] then 0 else 1)"
  by (auto simp: compare_set_of_element_def CBS_len_def Let_def)

text \<open>\<open>compare_set_of_element\<close> is the lexicographic order on byte strings.\<close>

lemma compare_set_of_element_lex:
  "compare_set_of_element a b = (if a < b then -1 else if a = b then 0 else 1)"
proof (induction a arbitrary: b)
  case Nil
  then show ?case by (cases b) (auto simp: compare_set_of_element_Nil)
next
  case (Cons x xs)
  then show ?case
    by (cases b) (auto simp: compare_set_of_element_Nil compare_set_of_element_Cons)
qed

lemma compare_le_iff: "compare_set_of_element a b \<le> 0 \<longleftrightarrow> a \<le> b"
  by (auto simp: compare_set_of_element_lex)

interpretation set_of_cmp: comparator compare_set_of_element UNIV
  by unfold_locales (auto simp: compare_set_of_element_lex split: if_splits)

subsection \<open>Elements\<close>

definition is_element :: "bytes \<Rightarrow> bool" where
  "is_element e \<longleftrightarrow> (\<exists>tag body. der_body_ok body \<and> e = der_element tag body)"

lemma get_element_iff: "get_element cbs = (Some e, r) \<longleftrightarrow> is_element e \<and> cbs = e @ r"
proof -
  have "get_element cbs = (Some e, r) \<longleftrightarrow>
      (\<exists>tag hl. CBS_get_any_asn1_element cbs = (Some (e, tag, hl), r))"
    by (auto simp: get_element_def split: prod.splits option.splits)
  then show ?thesis
    by (auto simp: element_iff is_element_def)
qed

interpretation element: canonical_code "\<lambda>e. e" get_element is_element
  by unfold_locales (auto simp: get_element_iff is_element_def)

subsection \<open>Sorting in place\<close>

lemma CBB_data_frame:
  assumes "base s = Some b" "content b = pre @ zs" "wf_buf b" "content_start d s = length pre"
  shows "CBS_init (CBB_data d s) (CBB_len d s) = zs" "CBB_data d s = zs"
proof -
  have l: "len b = length pre + length zs" using length_content [OF assms(3)] assms(2) by simp
  have "buf b = (pre @ zs) @ drop (len b) (buf b)"
    using buf_split [OF assms(3)] assms(2) by simp
  then have "drop (length pre) (buf b) = zs @ drop (len b) (buf b)"
    by (metis append.assoc append_eq_conv_conj)
  then show "CBB_data d s = zs" "CBS_init (CBB_data d s) (CBB_len d s) = zs"
    using assms l by (simp_all add: CBB_data_def CBB_len_def CBS_init_def)
qed

lemma add_all_write: "add_all al d cs = write_all (\<lambda>c. CBB_add_bytes al d c) cs"
proof
  show "add_all al d cs s = write_all (\<lambda>c. CBB_add_bytes al d c) cs s" for s
    by (induction cs arbitrary: s) (auto simp: CBS_data_def split: prod.splits bool.splits)
qed

lemma replace_append:
  "Option.bind (update_at d (\<lambda>_. ([], [])) D) (append_at d xs) = update_at d (\<lambda>_. (xs, [])) D"
proof -
  have z: "update_at d f = zoom d (update_at 0 f)" for f
    using update_at_zoom [of d 0 f] by (auto simp: fun_eq_iff)
  have "Option.bind (update_at 0 (\<lambda>_. ([], [])) E) (update_at 0 (\<lambda>zs. (zs @ xs, []))) =
      update_at 0 (\<lambda>_. (xs, [])) E" for E
    by (cases E; cases "close_frames (fst E) (snd E)") auto
  then show ?thesis
    by (simp add: append_at_def z [of "\<lambda>_. ([], [])"] z [of "\<lambda>zs. (zs @ xs, [])"] z [of "\<lambda>_. (xs, [])"] zoom_bind)
qed

text \<open>Cutting the frame at depth \<open>d\<close> down to nothing, before the sorted elements are written.\<close>

lemma set_of_truncated:
  assumes B: "builds s D" and fl: "CBB_flush al d s = (True, s1)"
  obtains D2 where "update_at d (\<lambda>_. ([], [])) D = Some D2"
    "builds (s1\<lparr>base := map_option (\<lambda>b. b\<lparr>len := content_start d s1\<rparr>) (base s1)\<rparr>) D2"
proof -
  from B fl obtain b1 pre zs where b1: "base s1 = Some b1" "wf_buf b1" "\<not> error b1" "content b1 = pre @ zs"
    "children s1 = take d (children s)" "length (children s1) = d" "grows s s1"
    "content_start d s1 = length pre"
    and up: "\<And>f cs3 ct3. represents (length pre) cs3 ct3 (fst (f zs)) (snd (f zs)) \<Longrightarrow>
      \<exists>D'. update_at d f D = Some D' \<and> represents 0 (children s1 @ cs3) (pre @ ct3) (fst D') (snd D')"
    by (rule CBB_flush_frame) (rule that, assumption+)
  from up [of "[]" "[]" "\<lambda>_. ([], [])"] obtain D2 where D2: "update_at d (\<lambda>_. ([], [])) D = Some D2"
    "represents 0 (children s1) pre (fst D2) (snd D2)" by auto
  have "len b1 = length pre + length zs" using length_content [OF b1(2)] b1(4) by simp
  moreover have "take (length pre) (buf b1) = pre"
    using b1(4) by (metis append_eq_conv_conj content_def le_add1 calculation min.absorb1 take_take)
  ultimately show ?thesis
    using D2 b1 by (intro that [of D2]) (auto simp: builds_def wf_buf_def content_def)
qed

text \<open>
  After a successful call the frame at depth \<open>d\<close> holds the elements it held before, in
  ascending order, and nothing else of the document has changed.
\<close>

lemma set_of_sorts:
  assumes B: "builds s D" and c: "CBB_flush_asn1_set_of al d s = (True, s')"
  obtains es D' s1 where "CBB_flush al d s = (True, s1)" "CBB_data d s1 = concat es"
    "\<forall>e\<in>set es. is_element e"
    "update_at d (\<lambda>_. (concat (qsort compare_set_of_element es), [])) D = Some D'" "builds s' D'"
proof -
  obtain ok s1 where fl: "CBB_flush al d s = (ok, s1)" by fastforce
  with c have ok: "ok" by (auto simp: CBB_flush_asn1_set_of_def split: bool.splits)
  with fl have fl: "CBB_flush al d s = (True, s1)" by simp
  from B fl obtain b1 pre zs where b1: "base s1 = Some b1" "wf_buf b1" "\<not> error b1" "content b1 = pre @ zs"
    "children s1 = take d (children s)" "length (children s1) = d" "grows s s1"
    "content_start d s1 = length pre"
    and up: "\<And>f cs3 ct3. represents (length pre) cs3 ct3 (fst (f zs)) (snd (f zs)) \<Longrightarrow>
      \<exists>D'. update_at d f D = Some D' \<and> represents 0 (children s1 @ cs3) (pre @ ct3) (fst D') (snd D')"
    by (rule CBB_flush_frame) (rule that, assumption+)
  note data = CBB_data_frame [OF b1(1,4,2,8)]
  from c fl data obtain es where es: "read_all (length zs) get_element zs = Some es"
    by (auto simp: CBB_flush_asn1_set_of_def Let_def split: option.splits)
  then have zs: "zs = concat es" and el: "\<forall>e\<in>set es. is_element e"
    using element.read_all_iff by auto
  let ?qs = "qsort compare_set_of_element es"
  show ?thesis
  proof (cases "length es < 2")
    case True
    then have s': "s' = s1" and qs: "?qs = es"
      using c fl data es by (auto simp: CBB_flush_asn1_set_of_def Let_def qsort_def numeral_2_eq_2
          less_Suc_eq length_Suc_conv)
    from up [of "[]" zs "\<lambda>_. (zs, [])"] obtain D' where D': "update_at d (\<lambda>_. (zs, [])) D = Some D'"
      "represents 0 (children s1) (pre @ zs) (fst D') (snd D')" by auto
    show ?thesis
    proof (rule that [OF fl])
      show "update_at d (\<lambda>_. (concat ?qs, [])) D = Some D'" using D'(1) qs zs by simp
      show "builds s' D'" using D'(2) b1 s' by (auto simp: builds_def)
    qed (use data zs el in auto)
  next
    case False
    let ?s2 = "s1\<lparr>base := map_option (\<lambda>b. b\<lparr>len := content_start d s1\<rparr>) (base s1)\<rparr>"
    from c fl data es False have add: "add_all al d ?qs ?s2 = (True, s')"
      by (auto simp: CBB_flush_asn1_set_of_def Let_def split: if_splits)
    from set_of_truncated [OF B fl] obtain D2 where D2: "update_at d (\<lambda>_. ([], [])) D = Some D2"
      and B2: "builds ?s2 D2" .
    have lb: "len b1 = length pre + length zs" using length_content [OF b1(2)] b1(4) by simp
    have len: "length e < size_lim" if "e \<in> set ?qs" for e
      using that el zs b1(2) lb
      by (auto simp: wf_buf_def dest!: split_list)
    have ne: "e \<noteq> []" if "e \<in> set ?qs" for e
      using that el by (metis der_element_nonempty is_element_def set_qsort)
    have "refines al (write_all (CBB_add_bytes al d) ?qs) (seq_at d (concat (map (\<lambda>e. e) ?qs)))"
      by (rule refines_write_all) (use len ne in \<open>auto intro: refines_bytes\<close>)
    then have "refines al (add_all al d ?qs) (seq_at d (concat ?qs))"
      by (simp add: add_all_write)
    from refines_ok [OF this B2 add] obtain D' where D': "seq_at d (concat ?qs) D2 = Some D'" "builds s' D'" .
    have "es \<noteq> []" using False by auto
    then have "concat ?qs \<noteq> []"
      using ne by (metis concat_eq_Nil_conv ex_in_conv set_empty set_qsort)
    then have "update_at d (\<lambda>_. (concat ?qs, [])) D = Some D'"
      using D'(1) D2 replace_append [of d D "concat ?qs"] by (simp only: seq_at_def if_False) simp
    moreover have "CBB_data d s1 = concat es" using data zs by simp
    ultimately show ?thesis by (intro that [OF fl _ el _ D'(2)])
  qed
qed

end
