(* ===== verification/Unicode.thy ===== *)
theory Unicode
  imports Cbb_Roundtrip
begin

text \<open>
  \<open>crypto/bytestring/unicode.c\<close>: reading and writing code points in UTF-8, Latin-1, UCS-2 and UTF-32.
  Each reader and its writer are an interpretation of the codec locales: the reader accepts the
  encodings the writer makes and nothing else.
\<close>

unbundle bit_operations_syntax

definition is_valid_code_point :: "u32 \<Rightarrow> bool" where
  "is_valid_code_point v =
     (if v > 0x10ffff \<or> v AND 0xfffe = 0xfffe \<or> (v \<ge> 0xfdd0 \<and> v \<le> 0xfdef) \<or> (v \<ge> 0xd800 \<and> v \<le> 0xdfff)
      then False else True)"

definition BOTTOM_BITS :: "nat \<Rightarrow> u8" where
  "BOTTOM_BITS n = ucast (push_bit n 1 - 1 :: u32)"

definition TOP_BITS :: "nat \<Rightarrow> u8" where
  "TOP_BITS n = NOT (BOTTOM_BITS (8 - n))"

text \<open>The loop over the continuation bytes.\<close>

primrec utf8_loop :: "nat \<Rightarrow> u32 \<Rightarrow> u32 reader" where
  "utf8_loop 0 v cbs = (Some v, cbs)"
| "utf8_loop (Suc n) v cbs =
     (case CBS_get_u8 cbs of
        (None, cbs) \<Rightarrow> (None, cbs)
      | (Some c, cbs) \<Rightarrow>
          if c AND TOP_BITS 2 \<noteq> TOP_BITS 1 then (None, cbs)
          else utf8_loop n (push_bit 6 v OR ucast (c AND BOTTOM_BITS 6)) cbs)"

definition utf8_rest :: "u32 \<Rightarrow> nat \<Rightarrow> u32 \<Rightarrow> u32 reader" where
  "utf8_rest v n lower_bound cbs =
     (case utf8_loop n v cbs of
        (None, cbs) \<Rightarrow> (None, cbs)
      | (Some v, cbs) \<Rightarrow>
          if \<not> is_valid_code_point v \<or> v < lower_bound then (None, cbs) else (Some v, cbs))"

definition cbs_get_utf8 :: "u32 reader" where
  "cbs_get_utf8 cbs =
     (case CBS_get_u8 cbs of
        (None, cbs) \<Rightarrow> (None, cbs)
      | (Some c, cbs) \<Rightarrow>
          if c \<le> 0x7f then (Some (ucast c), cbs)
          else if c AND TOP_BITS 3 = TOP_BITS 2 then utf8_rest (ucast (c AND BOTTOM_BITS 5)) 1 0x80 cbs
          else if c AND TOP_BITS 4 = TOP_BITS 3 then utf8_rest (ucast (c AND BOTTOM_BITS 4)) 2 0x800 cbs
          else if c AND TOP_BITS 5 = TOP_BITS 4 then utf8_rest (ucast (c AND BOTTOM_BITS 3)) 3 0x10000 cbs
          else (None, cbs))"

definition cbs_get_latin1 :: "u32 reader" where
  "cbs_get_latin1 cbs =
     (case CBS_get_u8 cbs of (None, cbs) \<Rightarrow> (None, cbs) | (Some c, cbs) \<Rightarrow> (Some (ucast c), cbs))"

definition cbs_get_ucs2_be :: "u32 reader" where
  "cbs_get_ucs2_be cbs =
     (case CBS_get_u16 cbs of
        (None, cbs) \<Rightarrow> (None, cbs)
      | (Some c, cbs) \<Rightarrow> if \<not> is_valid_code_point (ucast c) then (None, cbs) else (Some (ucast c), cbs))"

definition cbs_get_utf32_be :: "u32 reader" where
  "cbs_get_utf32_be cbs =
     (case CBS_get_u32 cbs of
        (None, cbs) \<Rightarrow> (None, cbs)
      | (Some u, cbs) \<Rightarrow> (if is_valid_code_point u then Some u else None, cbs))"

definition cbb_get_utf8_len :: "u32 \<Rightarrow> nat" where
  "cbb_get_utf8_len u = (if u \<le> 0x7f then 1 else if u \<le> 0x7ff then 2 else if u \<le> 0xffff then 3 else 4)"

definition cbb_add_utf8 :: "allocator \<Rightarrow> nat \<Rightarrow> u32 \<Rightarrow> cbb \<Rightarrow> bool \<times> cbb" where
  "cbb_add_utf8 al d u s =
     (if \<not> is_valid_code_point u then (False, s)
      else if u \<le> 0x7f then CBB_add_u8 al d (ucast u) s
      else if u \<le> 0x7ff then
        and_then (CBB_add_u8 al d (ucast (ucast (TOP_BITS 2) OR drop_bit 6 u)))
          (CBB_add_u8 al d (ucast (ucast (TOP_BITS 1) OR u AND ucast (BOTTOM_BITS 6)))) s
      else if u \<le> 0xffff then
        and_then (CBB_add_u8 al d (ucast (ucast (TOP_BITS 3) OR drop_bit 12 u)))
          (and_then (CBB_add_u8 al d (ucast (ucast (TOP_BITS 1) OR drop_bit 6 u AND ucast (BOTTOM_BITS 6))))
            (CBB_add_u8 al d (ucast (ucast (TOP_BITS 1) OR u AND ucast (BOTTOM_BITS 6))))) s
      else if u \<le> 0x10ffff then
        and_then (CBB_add_u8 al d (ucast (ucast (TOP_BITS 4) OR drop_bit 18 u)))
          (and_then (CBB_add_u8 al d (ucast (ucast (TOP_BITS 1) OR drop_bit 12 u AND ucast (BOTTOM_BITS 6))))
            (and_then (CBB_add_u8 al d (ucast (ucast (TOP_BITS 1) OR drop_bit 6 u AND ucast (BOTTOM_BITS 6))))
              (CBB_add_u8 al d (ucast (ucast (TOP_BITS 1) OR u AND ucast (BOTTOM_BITS 6)))))) s
      else (False, s))"

definition cbb_add_latin1 :: "allocator \<Rightarrow> nat \<Rightarrow> u32 \<Rightarrow> cbb \<Rightarrow> bool \<times> cbb" where
  "cbb_add_latin1 al d u s = (if u \<le> 0xff then CBB_add_u8 al d (ucast u) s else (False, s))"

definition cbb_add_ucs2_be :: "allocator \<Rightarrow> nat \<Rightarrow> u32 \<Rightarrow> cbb \<Rightarrow> bool \<times> cbb" where
  "cbb_add_ucs2_be al d u s =
     (if u \<le> 0xffff \<and> is_valid_code_point u then CBB_add_u16 al d (ucast u) s else (False, s))"

definition cbb_add_utf32_be :: "allocator \<Rightarrow> nat \<Rightarrow> u32 \<Rightarrow> cbb \<Rightarrow> bool \<times> cbb" where
  "cbb_add_utf32_be al d u s = (if is_valid_code_point u then CBB_add_u32 al d u s else (False, s))"

subsection \<open>The encodings as arithmetic\<close>

text \<open>\<open>n\<close> continuation bytes, and the whole encoding.\<close>

primrec utf8_cont :: "nat \<Rightarrow> nat \<Rightarrow> bytes" where
  "utf8_cont 0 u = []"
| "utf8_cont (Suc n) u = word_of_nat (128 + u div 64 ^ n mod 64) # utf8_cont n u"

lemma length_utf8_cont [simp]: "length (utf8_cont n u) = n"
  by (induction n) simp_all

lemma utf8_cont_numeral:
  "utf8_cont 1 n = [word_of_nat (128 + n mod 64)]"
  "utf8_cont 2 n = [word_of_nat (128 + n div 64 mod 64)] @ [word_of_nat (128 + n mod 64)]"
  "utf8_cont 3 n = [word_of_nat (128 + n div 64 ^ 2 mod 64)] @ [word_of_nat (128 + n div 64 mod 64)] @
     [word_of_nat (128 + n mod 64)]"
  by (simp_all add: numeral_3_eq_3 numeral_2_eq_2)

definition utf8_bytes :: "nat \<Rightarrow> bytes" where
  "utf8_bytes u =
     (if u < 0x80 then [word_of_nat u]
      else if u < 0x800 then word_of_nat (192 + u div 64) # utf8_cont 1 u
      else if u < 0x10000 then word_of_nat (224 + u div 64 ^ 2) # utf8_cont 2 u
      else word_of_nat (240 + u div 64 ^ 3) # utf8_cont 3 u)"

lemma BOTTOM_BITS_mask: "n \<le> 8 \<Longrightarrow> BOTTOM_BITS n = mask n"
  unfolding BOTTOM_BITS_def
  by (rule bit_word_eqI) (auto simp: bit_simps mask_eq_exp_minus_1 [symmetric] push_bit_of_1)

lemma TOP_BITS_mask: "n \<le> 8 \<Longrightarrow> TOP_BITS n = NOT (mask (8 - n))"
  by (simp add: TOP_BITS_def BOTTOM_BITS_mask)

lemma unat_and_not_mask:
  assumes "k \<le> LENGTH('a)"
  shows "unat (c AND NOT (mask k) :: 'a :: len word) = unat c div 2 ^ k * 2 ^ k"
proof -
  have "unat c div 2 ^ k < 2 ^ (LENGTH('a) - k)"
    using unsigned_less [of c, where ?'a = nat] assms by (simp add: less_mult_imp_div_less flip: power_add)
  moreover have "c AND NOT (mask k) = push_bit k (drop_bit k c)" by (rule bit_word_eqI) (auto simp: bit_simps)
  ultimately show ?thesis using assms by (simp add: unat_push_bit unat_drop_bit)
qed

text \<open>The tests on a byte as ranges of its value.\<close>

lemma byte_tests:
  fixes c :: u8
  shows "c AND TOP_BITS 2 = TOP_BITS 1 \<longleftrightarrow> unat c div 64 = 2"
    "c AND TOP_BITS 3 = TOP_BITS 2 \<longleftrightarrow> unat c div 32 = 6"
    "c AND TOP_BITS 4 = TOP_BITS 3 \<longleftrightarrow> unat c div 16 = 14"
    "c AND TOP_BITS 5 = TOP_BITS 4 \<longleftrightarrow> unat c div 8 = 30"
  by (simp_all add: word_unat_eq_iff [of "c AND _"] TOP_BITS_mask unat_and_not_mask)
    (simp_all add: mask_eq_exp_minus_1)

lemma unat_bottom:
  "n \<le> 8 \<Longrightarrow> unat (ucast (c AND BOTTOM_BITS n) :: u32) = unat c mod 2 ^ n"
  by (simp add: BOTTOM_BITS_mask unat_ucast_up unat_and_mask)

lemma utf8_step:
  assumes "unat v < 2 ^ 26"
  shows "unat (push_bit 6 v OR ucast (c AND BOTTOM_BITS 6)) = unat (v :: u32) * 64 + unat c mod 64"
  using unat_push_bit_or [of v 6 "ucast (c AND BOTTOM_BITS 6)"] assms by (simp add: unat_bottom)

lemma byte_of_nat_iff: "m < 256 \<Longrightarrow> c = (word_of_nat m :: u8) \<longleftrightarrow> unat c = m"
  by (auto simp: word_unat_eq_iff)

lemma sextet_split: "q = v * 64 + m mod 64 \<longleftrightarrow> q div 64 = v \<and> m mod 64 = q mod (64 :: nat)"
proof
  assume "q = v * 64 + m mod 64"
  then show "q div 64 = v \<and> m mod 64 = q mod 64" by simp
next
  assume "q div 64 = v \<and> m mod 64 = q mod 64"
  then show "q = v * 64 + m mod 64" by (metis div_mult_mod_eq)
qed

text \<open>A byte given by its top bits and the rest.\<close>

lemma byte_eq_iff:
  assumes "x < 2 ^ k" "p * 2 ^ k + 2 ^ k \<le> 256"
  shows "c = (word_of_nat (p * 2 ^ k + x) :: u8) \<longleftrightarrow> unat c div 2 ^ k = p \<and> unat c mod 2 ^ k = x"
proof -
  have "p * 2 ^ k + x < 256" using assms by linarith
  then have "c = word_of_nat (p * 2 ^ k + x) \<longleftrightarrow> unat c = p * 2 ^ k + x" by (rule byte_of_nat_iff)
  also have "\<dots> \<longleftrightarrow> unat c div 2 ^ k = p \<and> unat c mod 2 ^ k = x"
  proof
    assume "unat c = p * 2 ^ k + x"
    then show "unat c div 2 ^ k = p \<and> unat c mod 2 ^ k = x" using assms(1) by simp
  next
    assume "unat c div 2 ^ k = p \<and> unat c mod 2 ^ k = x"
    then show "unat c = p * 2 ^ k + x" by (metis div_mult_mod_eq)
  qed
  finally show ?thesis .
qed

lemma utf8_loop_iff:
  "unat v < 2 ^ (32 - 6 * n) \<Longrightarrow> n \<le> 5 \<Longrightarrow>
   utf8_loop n v cbs = (Some w, r) \<longleftrightarrow> cbs = utf8_cont n (unat w) @ r \<and> unat w div 64 ^ n = unat v"
proof (induction n arbitrary: v cbs)
  case 0
  then show ?case by (auto simp: word_unat_eq_iff)
next
  case (Suc n)
  show ?case
  proof (cases cbs)
    case (Cons c cs)
    let ?v = "push_bit 6 v OR ucast (c AND BOTTOM_BITS 6) :: u32" and ?q = "unat w div 64 ^ n"
    have k: "32 - 6 * n = (32 - 6 * Suc n) + 6" using Suc.prems(2) by simp
    have "(2 :: nat) ^ (32 - 6 * Suc n) \<le> 2 ^ 26" by (rule power_increasing) auto
    then have v: "unat ?v = unat v * 64 + unat c mod 64" using Suc.prems(1) by (intro utf8_step) linarith
    have "unat v * 64 + unat c mod 64 < (unat v + 1) * 64" by simp
    also have "\<dots> \<le> 2 ^ (32 - 6 * Suc n) * 64" using Suc.prems(1) by (intro mult_right_mono) auto
    also have "\<dots> = 2 ^ (32 - 6 * n)" unfolding k power_add by simp
    finally have "unat ?v < 2 ^ (32 - 6 * n)" using v by simp
    with Suc.IH Suc.prems(2) have IH: "utf8_loop n ?v cs = (Some w, r) \<longleftrightarrow>
        cs = utf8_cont n (unat w) @ r \<and> ?q = unat v * 64 + unat c mod 64" by (simp add: v)
    note q = sextet_split [of ?q "unat v" "unat c"]
    have b: "c = word_of_nat (128 + ?q mod 64) \<longleftrightarrow> unat c div 64 = 2 \<and> unat c mod 64 = ?q mod 64"
      using byte_eq_iff [of "?q mod 64" 6 2 c] by simp
    have w: "unat w div 64 ^ Suc n = ?q div 64" using div_mult2_eq [of "unat w" "64 ^ n" 64] by (simp add: mult.commute)
    have L: "utf8_loop (Suc n) v (c # cs) = (if unat c div 64 \<noteq> 2 then (None, cs) else utf8_loop n ?v cs)"
      by (simp only: utf8_loop.simps CBS_get_u8_Cons prod.case option.case byte_tests)
    have R: "c # cs = utf8_cont (Suc n) (unat w) @ r \<longleftrightarrow>
        unat c div 64 = 2 \<and> unat c mod 64 = ?q mod 64 \<and> cs = utf8_cont n (unat w) @ r"
      by (simp only: utf8_cont.simps append_Cons list.inject b conj_assoc)
    show ?thesis
      unfolding Cons L R w using IH [unfolded q] by (cases "unat c div 64 = 2") (simp_all only: if_True if_False not_True_eq_False not_False_eq_True simp_thms prod.inject option.distinct, blast)
  qed simp
qed

lemma utf8_rest_iff:
  "unat v < 2 ^ (32 - 6 * n) \<Longrightarrow> n \<le> 5 \<Longrightarrow>
   utf8_rest v n lb cbs = (Some w, r) \<longleftrightarrow>
     cbs = utf8_cont n (unat w) @ r \<and> unat w div 64 ^ n = unat v \<and> is_valid_code_point w \<and> lb \<le> w"
  using utf8_loop_iff [of v n cbs w r]
  by (auto simp: utf8_rest_def split: prod.splits option.splits)

lemma utf8_bytes_iff:
  assumes "u \<le> 0x10ffff"
  shows "c # cs = utf8_bytes u @ r \<longleftrightarrow>
    u < 0x80 \<and> unat c = u \<and> cs = r \<or>
    0x80 \<le> u \<and> u < 0x800 \<and> unat c div 32 = 6 \<and> unat c mod 32 = u div 64 \<and> cs = utf8_cont 1 u @ r \<or>
    0x800 \<le> u \<and> u < 0x10000 \<and> unat c div 16 = 14 \<and> unat c mod 16 = u div 64 ^ 2 \<and> cs = utf8_cont 2 u @ r \<or>
    0x10000 \<le> u \<and> unat c div 8 = 30 \<and> unat c mod 8 = u div 64 ^ 3 \<and> cs = utf8_cont 3 u @ r"
proof -
  consider "u < 0x80" | "0x80 \<le> u" "u < 0x800" | "0x800 \<le> u" "u < 0x10000" | "0x10000 \<le> u" by linarith
  then show ?thesis
  proof cases
    case 1
    then show ?thesis by (auto simp: utf8_bytes_def word_unat_eq_iff)
  next
    case 2
    then have "u div 64 < 2 ^ 5" by auto
    from byte_eq_iff [OF this, of 6 c] 2 show ?thesis by (auto simp: utf8_bytes_def)
  next
    case 3
    then have "u div 64 ^ 2 < 2 ^ 4" by auto
    from byte_eq_iff [OF this, of 14 c] 3 show ?thesis by (auto simp: utf8_bytes_def)
  next
    case 4
    then have "u div 64 ^ 3 < 2 ^ 3" using assms by auto
    from byte_eq_iff [OF this, of 30 c] 4 show ?thesis by (auto simp: utf8_bytes_def)
  qed
qed

lemma valid_bound: "is_valid_code_point w \<Longrightarrow> unat w \<le> 0x10ffff"
  by (simp add: is_valid_code_point_def word_less_nat_alt split: if_splits)

lemma ascii_valid: "unat w < 0x80 \<Longrightarrow> is_valid_code_point w"
proof -
  assume w: "unat w < 0x80"
  have "unat (w AND 0xfffe) \<le> unat w" by (simp add: word_and_le2 flip: word_le_nat_alt)
  with w have "w AND 0xfffe \<noteq> 0xfffe" by auto
  with w show ?thesis by (simp add: is_valid_code_point_def word_less_nat_alt word_le_nat_alt)
qed

lemma cbs_get_utf8_iff:
  "cbs_get_utf8 cbs = (Some w, r) \<longleftrightarrow> is_valid_code_point w \<and> cbs = utf8_bytes (unat w) @ r"
proof (cases cbs)
  case Nil
  then show ?thesis by (simp add: cbs_get_utf8_def utf8_bytes_def)
next
  case (Cons c cs)
  have le: "c \<le> 0x7f \<longleftrightarrow> unat c < 128" "\<And>b. b \<le> w \<longleftrightarrow> unat b \<le> unat w" by (auto simp: word_le_nat_alt)
  note rest = utf8_rest_iff [of "ucast (c AND BOTTOM_BITS _)", unfolded unat_bottom]
  show ?thesis
  proof (cases "is_valid_code_point w")
    case True
    note u = utf8_bytes_iff [OF valid_bound [OF True], of c cs r] and bound = valid_bound [OF True]
    have rest: "utf8_rest (ucast (c AND BOTTOM_BITS j)) n lb cs = (Some w, r) \<longleftrightarrow>
        cs = utf8_cont n (unat w) @ r \<and> unat w div 64 ^ n = unat c mod 2 ^ j \<and> lb \<le> w"
      if "j \<le> 5" "n \<le> 3" for j n lb
    proof -
      have "unat c mod 2 ^ j < 2 ^ 5" using that(1) by (meson less_le_trans mod_less_divisor power_increasing one_le_numeral zero_less_numeral zero_less_power)
      also have "(2 :: nat) ^ 5 \<le> 2 ^ (32 - 6 * n)" using that(2) by (intro power_increasing) auto
      finally show ?thesis using that True by (simp add: utf8_rest_iff unat_bottom)
    qed
    have G: "cbs_get_utf8 (c # cs) =
        (if unat c < 128 then (Some (ucast c), cs)
         else if unat c div 32 = 6 then utf8_rest (ucast (c AND BOTTOM_BITS 5)) 1 0x80 cs
         else if unat c div 16 = 14 then utf8_rest (ucast (c AND BOTTOM_BITS 4)) 2 0x800 cs
         else if unat c div 8 = 30 then utf8_rest (ucast (c AND BOTTOM_BITS 3)) 3 0x10000 cs
         else (None, cs))"
      by (simp only: cbs_get_utf8_def CBS_get_u8_Cons prod.case option.case byte_tests le(1))
    consider "unat c < 128" | "unat c div 32 = 6" | "unat c div 16 = 14" | "unat c div 8 = 30"
      | "128 \<le> unat c" "unat c div 32 \<noteq> 6" "unat c div 16 \<noteq> 14" "unat c div 8 \<noteq> 30" by linarith
    then show ?thesis
    proof cases
      case 1
      then have c: "unat c div 32 \<noteq> 6" "unat c div 16 \<noteq> 14" "unat c div 8 \<noteq> 30" by linarith+
      then have "cbs_get_utf8 (c # cs) = (Some w, r) \<longleftrightarrow> unat c = unat w \<and> cs = r" "unat c < 128"
        using 1 by (auto simp: G word_unat_eq_iff unat_ucast_up)
      moreover have "unat c = unat w \<Longrightarrow> unat w < 0x80" using 1 by simp
      ultimately show ?thesis using c u True unfolding Cons by blast
    next
      case 2
      then have c: "\<not> unat c < 128" "unat c div 16 \<noteq> 14" "unat c div 8 \<noteq> 30" by linarith+
      have w: "unat c mod 32 = unat w div 64 \<Longrightarrow> unat w < 0x800" by linarith
      have f: "\<not> (unat w < 0x80 \<and> unat c = unat w)" using c(1) by linarith
      have "cbs_get_utf8 (c # cs) = (Some w, r) \<longleftrightarrow>
          cs = utf8_cont 1 (unat w) @ r \<and> unat w div 64 ^ 1 = unat c mod 2 ^ 5 \<and> 0x80 \<le> w"
        unfolding G if_not_P [OF c(1)] if_P [OF 2] by (rule rest) simp_all
      then have "cbs_get_utf8 (c # cs) = (Some w, r) \<longleftrightarrow>
          cs = utf8_cont 1 (unat w) @ r \<and> unat c mod 32 = unat w div 64 \<and> 0x80 \<le> unat w"
        by (simp add: le(2) eq_commute [of "unat w div 64"])
      then show ?thesis using 2 c w f u True unfolding Cons by blast
    next
      case 3
      then have c: "\<not> unat c < 128" "unat c div 32 \<noteq> 6" "unat c div 8 \<noteq> 30" by linarith+
      have w: "unat c mod 16 = unat w div 64 ^ 2 \<Longrightarrow> unat w < 0x10000" by simp
      have f: "\<not> (unat w < 0x80 \<and> unat c = unat w)" using c(1) by linarith
      have "cbs_get_utf8 (c # cs) = (Some w, r) \<longleftrightarrow>
          cs = utf8_cont 2 (unat w) @ r \<and> unat w div 64 ^ 2 = unat c mod 2 ^ 4 \<and> 0x800 \<le> w"
        unfolding G if_not_P [OF c(1)] if_not_P [OF c(2)] if_P [OF 3] by (rule rest) simp_all
      then have "cbs_get_utf8 (c # cs) = (Some w, r) \<longleftrightarrow>
          cs = utf8_cont 2 (unat w) @ r \<and> unat c mod 16 = unat w div 64 ^ 2 \<and> 0x800 \<le> unat w"
        by (simp add: le(2) eq_commute [of "unat w div 4096"])
      then show ?thesis using 3 c w f u True unfolding Cons by blast
    next
      case 4
      then have c: "\<not> unat c < 128" "unat c div 32 \<noteq> 6" "unat c div 16 \<noteq> 14" by linarith+
      have f: "\<not> (unat w < 0x80 \<and> unat c = unat w)" using c(1) by linarith
      have "cbs_get_utf8 (c # cs) = (Some w, r) \<longleftrightarrow>
          cs = utf8_cont 3 (unat w) @ r \<and> unat w div 64 ^ 3 = unat c mod 2 ^ 3 \<and> 0x10000 \<le> w"
        unfolding G if_not_P [OF c(1)] if_not_P [OF c(2)] if_not_P [OF c(3)] if_P [OF 4] by (rule rest) simp_all
      then have "cbs_get_utf8 (c # cs) = (Some w, r) \<longleftrightarrow>
          cs = utf8_cont 3 (unat w) @ r \<and> unat c mod 8 = unat w div 64 ^ 3 \<and> 0x10000 \<le> unat w"
        by (simp add: le(2) eq_commute [of "unat w div 262144"])
      then show ?thesis using 4 c f u True unfolding Cons by blast
    next
      case 5
      have f: "\<not> (unat w < 0x80 \<and> unat c = unat w)" using 5(1) by linarith
      have "\<not> unat c < 128" using 5(1) by simp
      then have "cbs_get_utf8 (c # cs) \<noteq> (Some w, r)" using 5 by (simp add: G)
      then show ?thesis using f u True 5 unfolding Cons by blast
    qed
  next
    case False
    have "\<not> (c \<le> 0x7f \<and> w = ucast c)"
      using ascii_valid [of w] False by (auto simp: le unat_ucast_up)
    then show ?thesis
      using False by (auto simp: cbs_get_utf8_def Cons utf8_rest_def split: prod.splits option.splits if_splits)
  qed
qed

subsection \<open>The codecs\<close>

lemma ucast_nat: "ucast (y :: u32) = (word_of_nat (unat y) :: u8)"
  by (simp add: word_unat_eq_iff unat_ucast_down)

lemma unat_top_or:
  fixes x :: u32
  assumes "n \<le> 4" "unat x < 2 ^ (8 - n)"
  shows "ucast (ucast (TOP_BITS n) OR x) = (word_of_nat (256 - 2 ^ (8 - n) + unat x) :: u8)"
proof -
  have n: "n \<in> {0, 1, 2, 3, 4}" using assms(1) by auto
  have "(ucast (TOP_BITS n) :: u32) = push_bit (8 - n) (mask n)"
    using assms(1) unfolding TOP_BITS_mask [OF order_trans [OF assms(1)], simplified]
    by (intro bit_word_eqI) (auto simp: bit_simps)
  moreover have "unat (push_bit (8 - n) (mask n) OR x) = unat (mask n :: u32) * 2 ^ (8 - n) + unat x"
  proof (rule unat_push_bit_or [OF _ _ assms(2)])
    show "unat (mask n :: u32) < 2 ^ (LENGTH(32) - (8 - n))" using n by (auto simp: mask_eq_exp_minus_1)
  qed simp
  moreover have "unat (mask n :: u32) * 2 ^ (8 - n) = 256 - 2 ^ (8 - n)"
    using n by (auto simp: mask_eq_exp_minus_1)
  ultimately show ?thesis by (simp only: ucast_nat)
qed

lemma unat_sextet: "unat (x AND ucast (BOTTOM_BITS 6) :: u32) = unat x mod 64"
proof -
  have "(ucast (BOTTOM_BITS 6) :: u32) = mask 6" by (simp add: BOTTOM_BITS_mask mask_eq_exp_minus_1)
  then show ?thesis by (simp add: unat_and_mask)
qed

lemma cont_byte:
  "ucast (ucast (TOP_BITS 1) OR x AND ucast (BOTTOM_BITS 6)) = (word_of_nat (128 + unat (x :: u32) mod 64) :: u8)"
  using unat_top_or [of 1 "x AND ucast (BOTTOM_BITS 6)"] by (simp add: unat_sextet)

text \<open>The writer as the bytes of the encoding, one call each.\<close>

lemma cbb_add_utf8_eq:
  assumes "is_valid_code_point u"
  shows "cbb_add_utf8 al d u = (let n = unat u in
    if n < 0x80 then CBB_add_u8 al d (word_of_nat n)
    else if n < 0x800 then
      and_then (CBB_add_u8 al d (word_of_nat (192 + n div 64))) (CBB_add_u8 al d (word_of_nat (128 + n mod 64)))
    else if n < 0x10000 then
      and_then (CBB_add_u8 al d (word_of_nat (224 + n div 64 ^ 2)))
        (and_then (CBB_add_u8 al d (word_of_nat (128 + n div 64 mod 64))) (CBB_add_u8 al d (word_of_nat (128 + n mod 64))))
    else
      and_then (CBB_add_u8 al d (word_of_nat (240 + n div 64 ^ 3)))
        (and_then (CBB_add_u8 al d (word_of_nat (128 + n div 64 ^ 2 mod 64)))
          (and_then (CBB_add_u8 al d (word_of_nat (128 + n div 64 mod 64))) (CBB_add_u8 al d (word_of_nat (128 + n mod 64))))))"
proof -
  let ?n = "unat u"
  have v: "\<not> \<not> is_valid_code_point u" "?n \<le> 0x10ffff" using assms valid_bound by auto
  have le: "u \<le> 0x7f \<longleftrightarrow> ?n < 0x80" "u \<le> 0x7ff \<longleftrightarrow> ?n < 0x800" "u \<le> 0xffff \<longleftrightarrow> ?n < 0x10000" "u \<le> 0x10ffff"
    using v(2) by (auto simp: word_le_nat_alt)
  have d: "unat (drop_bit 6 u) = ?n div 64" "unat (drop_bit 12 u) = ?n div 64 ^ 2" "unat (drop_bit 18 u) = ?n div 64 ^ 3"
    by (simp_all add: unat_drop_bit)
  note c = cont_byte [of "drop_bit 12 u", unfolded d] cont_byte [of "drop_bit 6 u", unfolded d] cont_byte [of u]
  have t: "?n < 0x800 \<Longrightarrow> ucast (ucast (TOP_BITS 2) OR drop_bit 6 u) = (word_of_nat (192 + ?n div 64) :: u8)"
    "?n < 0x10000 \<Longrightarrow> ucast (ucast (TOP_BITS 3) OR drop_bit 12 u) = (word_of_nat (224 + ?n div 64 ^ 2) :: u8)"
    "ucast (ucast (TOP_BITS 4) OR drop_bit 18 u) = (word_of_nat (240 + ?n div 64 ^ 3) :: u8)"
    using unat_top_or [of 2 "drop_bit 6 u"] unat_top_or [of 3 "drop_bit 12 u"] unat_top_or [of 4 "drop_bit 18 u"] v(2)
    by (simp_all add: d)
  have eq: "cbb_add_utf8 al d u = (if ?n < 0x80 then CBB_add_u8 al d (ucast u)
      else if ?n < 0x800 then
        and_then (CBB_add_u8 al d (ucast (ucast (TOP_BITS 2) OR drop_bit 6 u))) (CBB_add_u8 al d (word_of_nat (128 + ?n mod 64)))
      else if ?n < 0x10000 then
        and_then (CBB_add_u8 al d (ucast (ucast (TOP_BITS 3) OR drop_bit 12 u)))
          (and_then (CBB_add_u8 al d (word_of_nat (128 + ?n div 64 mod 64))) (CBB_add_u8 al d (word_of_nat (128 + ?n mod 64))))
      else
        and_then (CBB_add_u8 al d (ucast (ucast (TOP_BITS 4) OR drop_bit 18 u)))
          (and_then (CBB_add_u8 al d (word_of_nat (128 + ?n div 64 ^ 2 mod 64)))
            (and_then (CBB_add_u8 al d (word_of_nat (128 + ?n div 64 mod 64))) (CBB_add_u8 al d (word_of_nat (128 + ?n mod 64))))))"
    by (rule ext) (simp only: cbb_add_utf8_def if_not_P [OF v(1)] le(1-3) if_P [OF le(4)] c split: if_split, blast)
  consider "?n < 0x80" | "\<not> ?n < 0x80" "?n < 0x800" | "\<not> ?n < 0x80" "\<not> ?n < 0x800" "?n < 0x10000"
    | "\<not> ?n < 0x80" "\<not> ?n < 0x800" "\<not> ?n < 0x10000" by blast
  then show ?thesis
  proof cases
    case 1
    show ?thesis unfolding eq Let_def if_P [OF 1] ucast_nat ..
  next
    case 2
    show ?thesis unfolding eq Let_def if_not_P [OF 2(1)] if_P [OF 2(2)] t(1) [OF 2(2)] ..
  next
    case 3
    show ?thesis unfolding eq Let_def if_not_P [OF 3(1)] if_not_P [OF 3(2)] if_P [OF 3(3)] t(2) [OF 3(3)] ..
  next
    case 4
    show ?thesis unfolding eq Let_def if_not_P [OF 4(1)] if_not_P [OF 4(2)] if_not_P [OF 4(3)] t(3) ..
  qed
qed

lemma refines_utf8:
  assumes valid: "is_valid_code_point u"
  shows "refines al (cbb_add_utf8 al d u) (append_at d (utf8_bytes (unat u)))"
proof -
  let ?n = "unat u"
  note u8 = refines_u8 [of al d]
  have c1: "x # xs = [x] @ xs" for x and xs :: bytes by simp
  show ?thesis
    unfolding cbb_add_utf8_eq [OF valid] utf8_bytes_def utf8_cont_numeral Let_def
    unfolding c1 [of _ "_ @ _"] c1 [of _ "[_]"]
    by (intro refines_if u8 refines_and_then)
qed

interpretation utf8c: canonical_code "\<lambda>u :: u32. utf8_bytes (unat u)" cbs_get_utf8 is_valid_code_point
  by unfold_locales (auto simp: cbs_get_utf8_iff utf8_bytes_def)

interpretation utf8w: cbb_codec "\<lambda>u :: u32. utf8_bytes (unat u)" cbs_get_utf8 is_valid_code_point cbb_add_utf8
  by unfold_locales (rule refines_utf8)

lemma get_latin1_iff: "cbs_get_latin1 cbs = (Some u, r) \<longleftrightarrow> unat u < 256 \<and> cbs = word_of_nat (unat u) # r"
proof (cases cbs)
  case (Cons c cs)
  have "u = ucast c \<longleftrightarrow> unat u < 256 \<and> c = word_of_nat (unat u)"
    using byte_of_nat_iff [of "unat u" c] by (auto simp: word_unat_eq_iff [of u] unat_ucast_up)
  then show ?thesis by (auto simp: cbs_get_latin1_def Cons)
qed (simp add: cbs_get_latin1_def)

interpretation latin1c: canonical_code "\<lambda>u :: u32. [word_of_nat (unat u)]" cbs_get_latin1 "\<lambda>u. unat u < 256"
  by unfold_locales (auto simp: get_latin1_iff)

interpretation latin1w: cbb_codec "\<lambda>u :: u32. [word_of_nat (unat u)]" cbs_get_latin1 "\<lambda>u. unat u < 256" cbb_add_latin1
proof
  fix u :: u32 and al d assume "unat u < 256"
  then have "u \<le> 0xff" by (simp add: word_le_nat_alt)
  then have "cbb_add_latin1 al d u = CBB_add_u8 al d (word_of_nat (unat u))"
    unfolding cbb_add_latin1_def [abs_def] ucast_nat by (simp only: if_True)
  then show "refines al (cbb_add_latin1 al d u) (append_at d [word_of_nat (unat u)])" by (simp add: refines_u8)
qed

lemma get_ucs2_iff:
  "cbs_get_ucs2_be cbs = (Some u, r) \<longleftrightarrow> unat u < 2 ^ 16 \<and> is_valid_code_point u \<and> cbs = be_bytes 2 (unat u) @ r"
proof
  assume "cbs_get_ucs2_be cbs = (Some u, r)"
  then obtain v where v: "CBS_get_u16 cbs = (Some v, r)" "u = ucast v" "is_valid_code_point u"
    by (auto simp: cbs_get_ucs2_be_def split: prod.splits option.splits if_splits)
  have "unat u = unat v" by (simp add: v(2) unat_ucast_up)
  with v unsigned_less [of v, where ?'a = nat]
  show "unat u < 2 ^ 16 \<and> is_valid_code_point u \<and> cbs = be_bytes 2 (unat u) @ r" by (simp add: get_u16_iff)
next
  assume u: "unat u < 2 ^ 16 \<and> is_valid_code_point u \<and> cbs = be_bytes 2 (unat u) @ r"
  then have "unat (ucast u :: u16) = unat u" by (simp add: unat_ucast_down)
  moreover from this have "ucast (ucast u :: u16) = u" by (simp only: word_unat_eq_iff unat_ucast_up) (simp add: unat_ucast_up)
  ultimately show "cbs_get_ucs2_be cbs = (Some u, r)"
    using u get_u16_iff [of cbs "ucast u" r] by (simp add: cbs_get_ucs2_be_def)
qed

interpretation ucs2c: canonical_code "\<lambda>u :: u32. be_bytes 2 (unat u)" cbs_get_ucs2_be
  "\<lambda>u. unat u < 2 ^ 16 \<and> is_valid_code_point u"
  by unfold_locales (auto simp: get_ucs2_iff)

interpretation ucs2w: cbb_codec "\<lambda>u :: u32. be_bytes 2 (unat u)" cbs_get_ucs2_be
  "\<lambda>u. unat u < 2 ^ 16 \<and> is_valid_code_point u" cbb_add_ucs2_be
proof
  fix u :: u32 and al d assume u: "unat u < 2 ^ 16 \<and> is_valid_code_point u"
  then have "cbb_add_ucs2_be al d u = CBB_add_u16 al d (ucast u)" "unat (ucast u :: u16) = unat u"
    by (simp_all add: cbb_add_ucs2_be_def fun_eq_iff word_le_nat_alt unat_ucast_down)
  then show "refines al (cbb_add_ucs2_be al d u) (append_at d (be_bytes 2 (unat u)))"
    using refines_u16 [of al d "ucast u"] by simp
qed

lemma get_utf32_iff:
  "cbs_get_utf32_be cbs = (Some u, r) \<longleftrightarrow> is_valid_code_point u \<and> cbs = be_bytes 4 (unat u) @ r"
  by (auto simp: cbs_get_utf32_be_def get_u32_iff [symmetric] split: prod.splits option.splits)

interpretation utf32c: canonical_code "\<lambda>u :: u32. be_bytes 4 (unat u)" cbs_get_utf32_be is_valid_code_point
  by unfold_locales (auto simp: get_utf32_iff)

interpretation utf32w: cbb_codec "\<lambda>u :: u32. be_bytes 4 (unat u)" cbs_get_utf32_be is_valid_code_point cbb_add_utf32_be
proof
  fix u :: u32 and al d assume "is_valid_code_point u"
  then have "cbb_add_utf32_be al d u = CBB_add_u32 al d u" by (simp add: cbb_add_utf32_be_def fun_eq_iff)
  then show "refines al (cbb_add_utf32_be al d u) (append_at d (be_bytes 4 (unat u)))" by (simp add: refines_u32)
qed

subsection \<open>Properties\<close>

text \<open>
  C28: the UTF-8 reader accepts exactly the encodings of the valid code points, in their shortest
  form (so no overlong form, no surrogate and nothing above \<open>0x10ffff\<close>), and takes as many bytes as
  \<open>cbb_get_utf8_len\<close> says.
\<close>

theorem utf8_canonical:
  "cbs_get_utf8 cbs = (Some u, r) \<longleftrightarrow>
    is_valid_code_point u \<and> cbs = utf8_bytes (unat u) @ r \<and> length cbs = cbb_get_utf8_len u + length r"
proof -
  have "length (utf8_bytes (unat u)) = cbb_get_utf8_len u"
    by (simp add: utf8_bytes_def cbb_get_utf8_len_def word_le_nat_alt)
  then show ?thesis by (auto simp: cbs_get_utf8_iff)
qed

text \<open>
  C29: text written code point by code point in any of the four encodings is read back as the same
  code points, whichever code points of the encoding's range they are.
\<close>

theorem unicode_roundtrip:
  assumes n: "n < size_lim"
  shows "((\<forall>u\<in>set us. is_valid_code_point u) \<longrightarrow>
      CBB_build al n (write_all (cbb_add_utf8 al 0) us) = Some out \<longrightarrow> read_all (length out) cbs_get_utf8 out = Some us) \<and>
    ((\<forall>u\<in>set us. unat u < 256) \<longrightarrow>
      CBB_build al n (write_all (cbb_add_latin1 al 0) us) = Some out \<longrightarrow> read_all (length out) cbs_get_latin1 out = Some us) \<and>
    ((\<forall>u\<in>set us. unat u < 2 ^ 16 \<and> is_valid_code_point u) \<longrightarrow>
      CBB_build al n (write_all (cbb_add_ucs2_be al 0) us) = Some out \<longrightarrow> read_all (length out) cbs_get_ucs2_be out = Some us) \<and>
    ((\<forall>u\<in>set us. is_valid_code_point u) \<longrightarrow>
      CBB_build al n (write_all (cbb_add_utf32_be al 0) us) = Some out \<longrightarrow> read_all (length out) cbs_get_utf32_be out = Some us)"
  using utf8w.build_all [OF _ n] latin1w.build_all [OF _ n] ucs2w.build_all [OF _ n] utf32w.build_all [OF _ n]
  by blast

theorem unicode_roundtrip_witness:
  "read_all (length [0x61, 0xc3, 0xa9, 0xe2, 0x82, 0xac :: u8]) cbs_get_utf8 [0x61, 0xc3, 0xa9, 0xe2, 0x82, 0xac] = Some [0x61, 0xe9, 0x20ac]"
proof -
  let ?us = "[0x61, 0xe9, 0x20ac] :: u32 list"
  have n: "(0 :: nat) < size_lim" by simp
  have v: "\<forall>u\<in>set ?us. is_valid_code_point u" by (simp add: is_valid_code_point_def)
  have e: "concat (map (\<lambda>u. utf8_bytes (unat u)) ?us) = [0x61, 0xc3, 0xa9, 0xe2, 0x82, 0xac]"
    by (simp add: utf8_bytes_def utf8_cont_numeral del: One_nat_def)
  have "refines (\<lambda>m. True) (write_all (cbb_add_utf8 (\<lambda>m. True) 0) ?us) (seq_at 0 (concat (map (\<lambda>u. utf8_bytes (unat u)) ?us)))"
    by (intro utf8w.writes_all) (rule v [rule_format])
  then have "refines (\<lambda>m. True) (write_all (cbb_add_utf8 (\<lambda>m. True) 0) ?us) (append_at 0 [0x61, 0xc3, 0xa9, 0xe2, 0x82, 0xac])"
    unfolding e by (simp add: seq_at_def)
  from CBB_build_append(2) [OF this n]
  have b: "CBB_build (\<lambda>m. True) 0 (write_all (cbb_add_utf8 (\<lambda>m. True) 0) ?us) =
      Some [0x61, 0xc3, 0xa9, 0xe2, 0x82, 0xac]" by simp
  show "read_all (length [0x61, 0xc3, 0xa9, 0xe2, 0x82, 0xac :: u8]) cbs_get_utf8 [0x61, 0xc3, 0xa9, 0xe2, 0x82, 0xac] = Some ?us"
    by (rule unicode_roundtrip [OF n, THEN conjunct1, THEN mp, OF v, THEN mp, OF b])
qed

end
