(* ===== verification/Oid.thy ===== *)
theory Oid
  imports Cbb_Roundtrip
begin

text \<open>
  Object identifiers as text: \<open>CBS_asn1_oid_to_text\<close> of \<open>cbs.c\<close> and \<open>CBB_add_asn1_oid_from_text\<close> of
  \<open>cbb.c\<close>. Both are related to the list of arcs of the identifier, and so shown to be inverse.
\<close>

unbundle bit_operations_syntax

subsection \<open>From DER to text\<close>

text \<open>The output of \<open>printf\<close> for \<open>PRIu64\<close>.\<close>

function decimal :: "nat \<Rightarrow> bytes" where
  "decimal n = (if n < 10 then [word_of_nat (0x30 + n)] else decimal (n div 10) @ [word_of_nat (0x30 + n mod 10)])"
  by pat_completeness auto
termination
  by (relation "measure id") auto

declare decimal.simps [simp del]

definition add_decimal :: "allocator \<Rightarrow> nat \<Rightarrow> u64 \<Rightarrow> cbb \<Rightarrow> bool \<times> cbb" where
  "add_decimal al d v = CBB_add_bytes al d (decimal (unat v))"

function oid_text_loop :: "allocator \<Rightarrow> cbs \<Rightarrow> cbb \<Rightarrow> bool \<times> cbb" where
  "oid_text_loop al copy s =
     (if CBS_len copy = 0 then (True, s)
      else
        case parse_base128_integer copy of
          (None, copy') \<Rightarrow> (False, s)
        | (Some v, copy') \<Rightarrow>
            (case and_then (CBB_add_u8 al 0 0x2e) (add_decimal al 0 v) s of
               (False, s) \<Rightarrow> (False, s)
             | (True, s) \<Rightarrow> oid_text_loop al copy' s))"
  by pat_completeness auto
termination
proof (relation "measure (\<lambda>(al, copy, s). length copy)", goal_cases)
  case (2 al copy s x copy' v)
  then show ?case using base128.dec_consumes [of copy v copy'] by simp
qed simp

declare oid_text_loop.simps [simp del]

text \<open>The components after \<open>CBB_init\<close> and before the terminating zero.\<close>

definition oid_text_body :: "allocator \<Rightarrow> cbs \<Rightarrow> cbb \<Rightarrow> bool \<times> cbb" where
  "oid_text_body al cbs s =
     (case parse_base128_integer cbs of
        (None, copy) \<Rightarrow> (False, s)
      | (Some v, copy) \<Rightarrow>
          and_then
            (if v \<ge> 80 then and_then (CBB_add_bytes al 0 [0x32, 0x2e]) (add_decimal al 0 (v - 80))
             else and_then (add_decimal al 0 (v div 40))
                    (and_then (CBB_add_u8 al 0 0x2e) (add_decimal al 0 (v mod 40))))
            (oid_text_loop al copy) s)"

definition CBS_asn1_oid_to_text :: "allocator \<Rightarrow> cbs \<Rightarrow> bytes option" where
  "CBS_asn1_oid_to_text al cbs =
     (case CBB_init al 32 of
        None \<Rightarrow> None
      | Some cbb \<Rightarrow>
          (case and_then (oid_text_body al cbs) (CBB_add_u8 al 0 0) cbb of
             (False, cbb) \<Rightarrow> None
           | (True, cbb) \<Rightarrow> fst (CBB_finish al True 0 cbb)))"

subsection \<open>From text to DER\<close>

abbreviation UINT64_MAX :: u64 where "UINT64_MAX \<equiv> - 1"

fun dotted_loop :: "u64 \<Rightarrow> bool \<Rightarrow> u64 reader" where
  "dotted_loop out seen_digit [] = (if seen_digit then Some out else None, [])"
| "dotted_loop out seen_digit (u # cbs) =
     (if u = 0x2e \<and> CBS_len cbs > 0 then (if seen_digit then Some out else None, cbs)
      else if u < 0x30 \<or> u > 0x39 \<or> seen_digit \<and> out = 0 \<or> out > UINT64_MAX div 10 \<or>
           out * 10 > UINT64_MAX - ucast (u - 0x30)
      then (None, cbs)
      else dotted_loop (out * 10 + ucast (u - 0x30)) True cbs)"

definition parse_dotted_decimal :: "u64 reader" where
  "parse_dotted_decimal cbs = dotted_loop 0 False cbs"

lemma dotted_loop_length: "dotted_loop out seen cbs = (r, cbs') \<Longrightarrow> cbs' = [] \<and> cbs = [] \<or> length cbs' < length cbs"
  by (induction out seen cbs rule: dotted_loop.induct) (fastforce split: if_splits)+

function oid_from_text_loop :: "allocator \<Rightarrow> nat \<Rightarrow> cbs \<Rightarrow> cbb \<Rightarrow> bool \<times> cbb" where
  "oid_from_text_loop al d cbs s =
     (if CBS_len cbs > 0 then
        case parse_dotted_decimal cbs of
          (None, cbs') \<Rightarrow> (False, s)
        | (Some a, cbs') \<Rightarrow>
            (case add_base128_integer al d a s of
               (False, s) \<Rightarrow> (False, s)
             | (True, s) \<Rightarrow> oid_from_text_loop al d cbs' s)
      else (True, s))"
  by pat_completeness auto
termination
proof (relation "measure (\<lambda>(al, d, cbs, s). length cbs)", goal_cases)
  case (2 al d cbs s x cbs' a)
  then show ?case using dotted_loop_length [of 0 False cbs "Some a" cbs']
    by (auto simp: parse_dotted_decimal_def CBS_len_def)
qed simp

declare oid_from_text_loop.simps [simp del]

definition CBB_add_asn1_oid_from_text :: "allocator \<Rightarrow> nat \<Rightarrow> bytes \<Rightarrow> cbb \<Rightarrow> bool \<times> cbb" where
  "CBB_add_asn1_oid_from_text al d text s =
     (case CBB_flush al d s of
        (False, s) \<Rightarrow> (False, s)
      | (True, s) \<Rightarrow>
          (case parse_dotted_decimal (CBS_init text (length text)) of
             (None, cbs) \<Rightarrow> (False, s)
           | (Some a, cbs) \<Rightarrow>
               (case parse_dotted_decimal cbs of
                  (None, cbs) \<Rightarrow> (False, s)
                | (Some b, cbs) \<Rightarrow>
                    if a > 2 \<or> (a < 2 \<and> b > 39) \<or> b > UINT64_MAX - 80 then (False, s)
                    else and_then (add_base128_integer al d (40 * a + b)) (oid_from_text_loop al d cbs) s)))"

subsection \<open>Decimal numbers\<close>

abbreviation digit :: "nat \<Rightarrow> u8" where "digit k \<equiv> word_of_nat (0x30 + k)"

lemma unat_digit: "k < 10 \<Longrightarrow> unat (digit k) = 0x30 + k"
  by (simp add: unat_of_nat del: of_nat_add)

lemma decimal_digit: "k < 10 \<Longrightarrow> decimal k = [digit k]"
  by (simp add: decimal.simps)

lemma decimal_snoc: "0 < v \<Longrightarrow> k < 10 \<Longrightarrow> decimal (v * 10 + k) = decimal v @ [digit k]"
  by (subst decimal.simps) simp

lemma decimal_nonempty [simp]: "decimal n \<noteq> []"
  by (subst decimal.simps) simp

lemma digit_cases:
  assumes "\<not> (u < 0x30 \<or> u > (0x39 :: u8))"
  obtains k where "k < 10" "u = digit k"
proof
  have "0x30 \<le> unat u" "unat u \<le> 0x39" using assms by (auto simp: word_less_nat_alt)
  then show "unat u - 0x30 < 10" "u = digit (unat u - 0x30)"
    by (auto simp del: of_nat_add)
qed

lemma dotted_digit:
  assumes n: "n < 2 ^ 64" and k: "k < 10"
  shows "dotted_loop (word_of_nat n) seen (digit k # cbs) =
    (if seen \<and> n = 0 \<or> \<not> n * 10 + k < 2 ^ 64 then (None, cbs) else dotted_loop (word_of_nat (n * 10 + k)) True cbs)"
proof -
  let ?out = "word_of_nat n :: u64" and ?u = "digit k"
  have u: "unat ?u = 0x30 + k" by (rule unat_digit [OF k])
  have out: "unat ?out = n" using n by (simp add: unat_of_nat)
  have "0x30 \<le> ?u" by (simp only: word_le_nat_alt u) simp
  then have "unat (?u - 0x30) = k" using u by (simp only: unat_sub) simp
  then have d: "unat (ucast (?u - 0x30) :: u64) = k" by (simp add: unat_ucast_up del: of_nat_add)
  have c1: "\<not> (?u = 0x2e \<and> CBS_len cbs > 0)" "\<not> (?u < 0x30 \<or> ?u > 0x39)"
    using u k by (auto simp: word_less_nat_alt word_unat_eq_iff simp del: of_nat_add)
  have max: "unat (UINT64_MAX div 10) = (2 ^ 64 - 1) div 10" "unat UINT64_MAX = 2 ^ 64 - 1"
    by (simp_all add: unat_div unsigned_minus_1_eq_mask mask_eq_exp_minus_1)
  have c2: "?out > UINT64_MAX div 10 \<longleftrightarrow> (2 ^ 64 - 1) div 10 < n"
    by (simp only: word_less_nat_alt max out)
  have zero: "?out = 0 \<longleftrightarrow> n = 0" using out by (metis unat_0 word_unat_eq_iff)
  have c3: "?out > UINT64_MAX div 10 \<or> ?out * 10 > UINT64_MAX - ucast (?u - 0x30) \<longleftrightarrow> \<not> n * 10 + k < 2 ^ 64"
  proof (cases "(2 ^ 64 - 1) div 10 < n")
    case True
    then have "\<not> n * 10 + k < 2 ^ 64" by simp
    with True c2 show ?thesis by blast
  next
    case False
    then have "n * 10 < 2 ^ 64" by simp
    then have "unat (?out * 10) = n * 10" using out by (simp add: unat_word_ariths)
    moreover have "unat (UINT64_MAX - ucast (?u - 0x30)) = 2 ^ 64 - 1 - k"
      using max(2) d k by (simp only: unat_sub_if_size word_size) simp
    ultimately have "?out * 10 > UINT64_MAX - ucast (?u - 0x30) \<longleftrightarrow> \<not> n * 10 + k < 2 ^ 64"
      using k by (simp only: word_less_nat_alt) auto
    with False c2 show ?thesis by blast
  qed
  have step: "?out * 10 + ucast (?u - 0x30) = word_of_nat (n * 10 + k)"
  proof -
    have "word_of_nat (unat (ucast (?u - 0x30) :: u64)) = (ucast (?u - 0x30) :: u64)"
      by (rule word_unat_eq_iff [THEN iffD2]) (simp only: unat_of_nat mod_less [OF unsigned_less])
    then have "ucast (?u - 0x30) = (word_of_nat k :: u64)" unfolding d ..
    then show ?thesis by simp
  qed
  have c4: "seen \<and> ?out = 0 \<or> ?out > UINT64_MAX div 10 \<or> ?out * 10 > UINT64_MAX - ucast (?u - 0x30) \<longleftrightarrow>
      seen \<and> n = 0 \<or> \<not> n * 10 + k < 2 ^ 64"
    using c3 zero by blast
  have c5: "(?u < 0x30 \<or> ?u > 0x39 \<or> seen \<and> ?out = 0 \<or> ?out > UINT64_MAX div 10 \<or>
      ?out * 10 > UINT64_MAX - ucast (?u - 0x30)) \<longleftrightarrow> seen \<and> n = 0 \<or> \<not> n * 10 + k < 2 ^ 64"
    using c1(2) c4 by blast
  show ?thesis unfolding dotted_loop.simps if_not_P [OF c1(1)] c5 step ..
qed

lemma dotted_decimal:
  "n < 2 ^ 64 \<Longrightarrow> dotted_loop 0 False (decimal n @ xs) = dotted_loop (word_of_nat n) True xs"
proof (induction n arbitrary: xs rule: decimal.induct)
  case (1 n)
  show ?case
  proof (cases "n < 10")
    case True
    with dotted_digit [of 0 n False xs] 1(2) show ?thesis by (simp add: decimal_digit del: of_nat_add)
  next
    case False
    let ?k = "n mod 10" and ?q = "n div 10"
    have q: "?q < 2 ^ 64" "0 < ?q" "?q * 10 + ?k = n" using 1(2) False by auto
    have "decimal n = decimal ?q @ [digit ?k]" using False by (subst decimal.simps) simp
    then have "dotted_loop 0 False (decimal n @ xs) = dotted_loop (word_of_nat ?q) True (digit ?k # xs)"
      using 1(1) [OF False q(1)] by simp
    also have "\<dots> = dotted_loop (word_of_nat n) True xs"
      using dotted_digit [OF q(1), of ?k True xs] q 1(2) by simp
    finally show ?thesis .
  qed
qed

lemma dotted_loop_sound:
  "dotted_loop v seen cbs = (Some w, r) \<Longrightarrow>
    \<exists>ds. (cbs = ds \<and> r = [] \<or> cbs = ds @ 0x2e # r \<and> r \<noteq> []) \<and>
      (if seen then decimal (unat v) @ ds = decimal (unat w) else v = 0 \<longrightarrow> ds = decimal (unat w))"
proof (induction cbs arbitrary: v seen)
  case Nil
  then show ?case by (auto split: if_splits)
next
  case (Cons u cbs)
  show ?case
  proof (cases "u = 0x2e \<and> CBS_len cbs > 0")
    case True
    with Cons.prems show ?thesis by (auto simp: CBS_len_def split: if_splits)
  next
    case F: False
    have "\<not> (u < 0x30 \<or> u > 0x39)" using Cons.prems F by (auto split: if_splits)
    then obtain k where k: "k < 10" "u = digit k" by (rule digit_cases)
    let ?n = "unat v" and ?v = "word_of_nat (unat v * 10 + k) :: u64"
    have n: "?n < 2 ^ 64" "word_of_nat ?n = v" using unsigned_less [of v, where ?'a = nat] by simp_all
    note step = dotted_digit [OF n(1) k(1), of seen cbs, unfolded n(2), folded k(2)]
    from Cons.prems step have c: "\<not> (seen \<and> ?n = 0)" "?n * 10 + k < 2 ^ 64" "dotted_loop ?v True cbs = (Some w, r)"
      by (auto split: if_splits)
    have uv: "unat ?v = ?n * 10 + k" using c(2) by (simp only: unat_of_nat) simp
    from Cons.IH [OF c(3)] obtain ds where ds: "cbs = ds \<and> r = [] \<or> cbs = ds @ 0x2e # r \<and> r \<noteq> []"
      "decimal (?n * 10 + k) @ ds = decimal (unat w)" unfolding uv if_True by blast
    have "if seen then decimal ?n @ u # ds = decimal (unat w) else v = 0 \<longrightarrow> u # ds = decimal (unat w)"
    proof (cases seen)
      case True
      with c(1) ds(2) decimal_snoc [of ?n k] k show ?thesis by simp
    next
      case False
      with ds(2) decimal_digit [OF k(1)] k(2) show ?thesis by auto
    qed
    with ds(1) show ?thesis by (intro exI [of _ "u # ds"]) auto
  qed
qed

lemma parse_dotted_iff:
  "parse_dotted_decimal cbs = (Some w, r) \<longleftrightarrow>
    cbs = decimal (unat w) \<and> r = [] \<or> cbs = decimal (unat w) @ 0x2e # r \<and> r \<noteq> []"
proof
  assume "parse_dotted_decimal cbs = (Some w, r)"
  from dotted_loop_sound [OF this [unfolded parse_dotted_decimal_def]]
  show "cbs = decimal (unat w) \<and> r = [] \<or> cbs = decimal (unat w) @ 0x2e # r \<and> r \<noteq> []" by simp
next
  have "unat w < 2 ^ 64" using unsigned_less [of w, where ?'a = nat] by simp
  note d = dotted_decimal [OF this]
  assume "cbs = decimal (unat w) \<and> r = [] \<or> cbs = decimal (unat w) @ 0x2e # r \<and> r \<noteq> []"
  then show "parse_dotted_decimal cbs = (Some w, r)"
    using d [of "[]"] d [of "0x2e # r"] by (auto simp: parse_dotted_decimal_def CBS_len_def)
qed

fun dotted :: "u64 list \<Rightarrow> bytes" where
  "dotted [] = []"
| "dotted [v] = decimal (unat v)"
| "dotted (v # vs) = decimal (unat v) @ 0x2e # dotted vs"

lemma dotted_Cons: "vs \<noteq> [] \<Longrightarrow> dotted (v # vs) = decimal (unat v) @ 0x2e # dotted vs"
  by (cases vs) simp_all

lemma dotted_eq_Nil [simp]: "dotted vs = [] \<longleftrightarrow> vs = []"
  by (cases vs rule: dotted.cases) simp_all

lemma dotted_concat: "dotted (v # vs) = decimal (unat v) @ concat (map (\<lambda>v. 0x2e # decimal (unat v)) vs)"
  by (induction vs arbitrary: v) (simp_all add: dotted_Cons)

lemma read_all_dotted:
  "length cbs \<le> n \<Longrightarrow> read_all n parse_dotted_decimal cbs = Some vs \<longleftrightarrow> cbs = dotted vs"
proof (induction n arbitrary: cbs vs)
  case (Suc n)
  show ?case
  proof (cases cbs)
    case (Cons c cs)
    have eq: "read_all (Suc n) parse_dotted_decimal cbs = Some vs \<longleftrightarrow>
        (\<exists>w r ws. parse_dotted_decimal cbs = (Some w, r) \<and> read_all n parse_dotted_decimal r = Some ws \<and> vs = w # ws)"
      unfolding Cons by (auto split: prod.splits option.splits)
    have IH: "read_all n parse_dotted_decimal r = Some ws \<longleftrightarrow> r = dotted ws"
      if "parse_dotted_decimal cbs = (Some w, r)" for w r ws
      using dotted_loop_length [OF that [unfolded parse_dotted_decimal_def]] Suc.prems Cons
      by (intro Suc.IH) auto
    show ?thesis
    proof
      assume "read_all (Suc n) parse_dotted_decimal cbs = Some vs"
      then obtain w r ws where *: "parse_dotted_decimal cbs = (Some w, r)" "r = dotted ws" "vs = w # ws"
        unfolding eq using IH by blast
      then show "cbs = dotted vs" unfolding parse_dotted_iff by (cases ws) (auto simp: dotted_Cons)
    next
      assume d: "cbs = dotted vs"
      then obtain w ws where vs: "vs = w # ws" using Cons by (cases vs) auto
      have p: "parse_dotted_decimal cbs = (Some w, dotted ws)"
        unfolding parse_dotted_iff d vs by (cases ws) (simp_all add: dotted_Cons)
      show "read_all (Suc n) parse_dotted_decimal cbs = Some vs"
        unfolding eq using p IH [OF p] vs by blast
    qed
  qed (cases vs; auto dest: sym)
qed (cases vs; auto dest: sym)

subsection \<open>The loops as operations on documents\<close>

lemma refines_none: "refines al (Pair False) (\<lambda>D. None)"
  by (rule refinesI) (auto simp: usable_def)

text \<open>The document a loop makes from the values it reads, if it can read them.\<close>

definition items_at :: "nat \<Rightarrow> ('a \<Rightarrow> bytes) \<Rightarrow> 'a list option \<Rightarrow> doc \<Rightarrow> doc option" where
  "items_at d e items D = (case items of None \<Rightarrow> None | Some xs \<Rightarrow> seq_at d (concat (map e xs)) D)"

lemma refines_items_step:
  assumes "refines al w (append_at d xs)" "refines al l (items_at d e items)"
  shows "refines al (\<lambda>s. case w s of (False, s) \<Rightarrow> (False, s) | (True, s) \<Rightarrow> l s)
    (\<lambda>D. case items of None \<Rightarrow> None | Some ys \<Rightarrow> append_at d (xs @ concat (map e ys)) D)"
proof (rule refines_cong [OF refines_seq [OF assms]])
  show "Option.bind (append_at d xs D) (items_at d e items) =
      (case items of None \<Rightarrow> None | Some ys \<Rightarrow> append_at d (xs @ concat (map e ys)) D)" for D
  proof (cases items)
    case None
    then show ?thesis by (cases "append_at d xs D") (simp_all add: items_at_def)
  next
    case (Some ys)
    then have "items_at d e items = seq_at d (concat (map e ys))" by (simp add: items_at_def fun_eq_iff)
    with Some append_seq show ?thesis by simp
  qed
qed

lemma items_at_Cons:
  "e x \<noteq> [] \<Longrightarrow> items_at d e (map_option (Cons x) items) =
    (\<lambda>D. case items of None \<Rightarrow> None | Some ys \<Rightarrow> append_at d (e x @ concat (map e ys)) D)"
  by (auto simp: items_at_def seq_at_def fun_eq_iff split: option.split)

abbreviation base128_item :: "u64 \<Rightarrow> bytes" where
  "base128_item v \<equiv> base128_bytes (unat v)"

abbreviation dot_item :: "u64 \<Rightarrow> bytes" where
  "dot_item v \<equiv> 0x2e # decimal (unat v)"

text \<open>A loop that reads item after item from a cursor and writes each to a builder.\<close>

locale transcoder =
  fixes al :: allocator and d :: nat
    and dec :: "bytes \<Rightarrow> 'a option \<times> bytes" and e :: "'a \<Rightarrow> bytes"
    and put :: "'a \<Rightarrow> cbb \<Rightarrow> bool \<times> cbb" and loop :: "bytes \<Rightarrow> cbb \<Rightarrow> bool \<times> cbb"
  assumes consumes: "cbs \<noteq> [] \<Longrightarrow> dec cbs = (Some x, r) \<Longrightarrow> length r < length cbs"
    and item_nonempty: "e x \<noteq> []"
    and writes: "refines al (put x) (append_at d (e x))"
    and unfold: "loop cbs s =
      (if cbs = [] then (True, s)
       else case dec cbs of
              (None, r) \<Rightarrow> (False, s)
            | (Some x, r) \<Rightarrow> (case put x s of (False, s) \<Rightarrow> (False, s) | (True, s) \<Rightarrow> loop r s))"
begin

lemma refines_loop: "length cbs \<le> n \<Longrightarrow> refines al (loop cbs) (items_at d e (read_all n dec cbs))"
proof (induction n arbitrary: cbs)
  case 0
  then have "loop cbs = Pair True" by (simp add: fun_eq_iff unfold)
  then show ?case using 0 refines_skip by (simp add: items_at_def [abs_def] seq_at_def)
next
  case (Suc n)
  show ?case
  proof (cases cbs)
    case Nil
    then have "loop cbs = Pair True" by (simp add: fun_eq_iff unfold)
    then show ?thesis using Nil refines_skip by (simp add: items_at_def [abs_def] seq_at_def)
  next
    case (Cons c cs)
    then have ne: "cbs \<noteq> []" by simp
    obtain a r where p: "dec cbs = (a, r)" by fastforce
    have read: "read_all (Suc n) dec cbs = (case a of None \<Rightarrow> None | Some x \<Rightarrow> map_option (Cons x) (read_all n dec r))"
      using p unfolding Cons by (simp split: option.split)
    have loop: "loop cbs = (case a of None \<Rightarrow> Pair False
        | Some x \<Rightarrow> (\<lambda>s. case put x s of (False, s) \<Rightarrow> (False, s) | (True, s) \<Rightarrow> loop r s))"
      using p ne by (simp add: fun_eq_iff unfold [of cbs] split: option.split)
    show ?thesis
    proof (cases a)
      case None
      then show ?thesis using loop read refines_none by (simp add: items_at_def [abs_def])
    next
      case (Some x)
      then have "length r \<le> n" using consumes [OF ne, of x r] p Suc.prems by simp
      from refines_items_step [OF writes Suc.IH [OF this], of x] show ?thesis
        unfolding loop read Some option.case items_at_Cons [of e x, OF item_nonempty] .
    qed
  qed
qed

end

lemma length_decimal: "length (decimal n) \<le> 1 + n div 10"
proof (induction n rule: decimal.induct)
  case (1 n)
  then show ?case by (cases "n < 10") (simp_all add: decimal.simps [of n])
qed

lemma refines_decimal: "refines al (add_decimal al d v) (append_at d (decimal (unat v)))"
proof -
  have "unat v < 2 ^ 64" using unsigned_less [of v, where ?'a = nat] by simp
  with length_decimal [of "unat v"] have "length (decimal (unat v)) < size_lim" by simp
  then show ?thesis unfolding add_decimal_def by (rule refines_bytes)
qed

lemma refines_dot_item: "refines al (and_then (CBB_add_u8 al d 0x2e) (add_decimal al d v)) (append_at d (dot_item v))"
  using refines_and_then [OF refines_u8 [of al d "0x2e"] refines_decimal [of al d v]] by simp

interpretation to_text: transcoder al 0 parse_base128_integer dot_item
  "\<lambda>v. and_then (CBB_add_u8 al 0 0x2e) (add_decimal al 0 v)" "oid_text_loop al" for al
proof unfold_locales
  show "length r < length cbs" if "parse_base128_integer cbs = (Some x, r)" for cbs x r
    by (rule base128.dec_consumes [OF that])
qed (use refines_dot_item in \<open>auto simp: oid_text_loop.simps [of al] CBS_len_def split: prod.splits option.splits bool.splits\<close>)

interpretation from_text: transcoder al d parse_dotted_decimal base128_item "add_base128_integer al d"
  "oid_from_text_loop al d" for al d
proof unfold_locales
  show "length r < length cbs" if "cbs \<noteq> []" "parse_dotted_decimal cbs = (Some x, r)" for cbs x r
    using dotted_loop_length [OF that(2) [unfolded parse_dotted_decimal_def]] that(1) by simp
qed (use refines_add_base128 in \<open>auto simp: oid_from_text_loop.simps [of al d] CBS_len_def split: prod.splits option.splits bool.splits\<close>)

subsection \<open>The first two arcs\<close>

definition arc1 :: "u64 \<Rightarrow> u64" where "arc1 v = (if v \<ge> 80 then 2 else v div 40)"
definition arc2 :: "u64 \<Rightarrow> u64" where "arc2 v = (if v \<ge> 80 then v - 80 else v mod 40)"

definition first_arcs_ok :: "u64 \<Rightarrow> u64 \<Rightarrow> bool" where
  "first_arcs_ok a b \<longleftrightarrow> \<not> (a > 2 \<or> (a < 2 \<and> b > 39) \<or> b > UINT64_MAX - 80)"

lemma first_arcs_nat:
  "first_arcs_ok a b \<longleftrightarrow> unat a \<le> 2 \<and> (unat a < 2 \<longrightarrow> unat b \<le> 39) \<and> unat b + 80 < 2 ^ 64"
proof -
  have "unat (UINT64_MAX - 80) = 2 ^ 64 - 1 - 80"
    by (simp add: unat_sub_if_size unsigned_minus_1_eq_mask mask_eq_exp_minus_1 word_size)
  then have "b > UINT64_MAX - 80 \<longleftrightarrow> \<not> unat b + 80 < 2 ^ 64"
    by (simp only: word_less_nat_alt) auto
  then show ?thesis by (auto simp: first_arcs_ok_def word_less_nat_alt)
qed

lemma arcs_nat: "unat (arc1 v) = (if 80 \<le> unat v then 2 else unat v div 40)"
  "unat (arc2 v) = (if 80 \<le> unat v then unat v - 80 else unat v mod 40)"
  by (simp_all add: arc1_def arc2_def word_le_nat_alt unat_div unat_mod unat_sub_if_size)

lemma join_arcs_nat: "first_arcs_ok a b \<Longrightarrow> unat (40 * a + b) = 40 * unat a + unat b"
  unfolding first_arcs_nat by (simp add: unat_word_ariths)

lemma split_arcs: "first_arcs_ok (arc1 v) (arc2 v)" "40 * arc1 v + arc2 v = v"
proof -
  have v: "unat v < 2 ^ 64" using unsigned_less [of v, where ?'a = nat] by simp
  show ok: "first_arcs_ok (arc1 v) (arc2 v)"
    unfolding first_arcs_nat arcs_nat using v by auto
  show "40 * arc1 v + arc2 v = v"
    by (rule word_unat_eq_iff [THEN iffD2]) (simp add: join_arcs_nat [OF ok] arcs_nat)
qed

lemma join_arcs: "first_arcs_ok a b \<Longrightarrow> arc1 (40 * a + b) = a \<and> arc2 (40 * a + b) = b"
proof -
  assume ok: "first_arcs_ok a b"
  have c: "unat a \<le> 2" "unat a < 2 \<Longrightarrow> unat b \<le> 39" using ok by (auto simp: first_arcs_nat)
  consider "unat a = 0" | "unat a = 1" | "unat a = 2" using c(1) by linarith
  then show ?thesis
    unfolding word_unat_eq_iff arcs_nat join_arcs_nat [OF ok] using c(2) by cases auto
qed

lemma refines_text_body:
  "refines al (oid_text_body al cbs)
    (\<lambda>D. case read_all (length cbs) parse_base128_integer cbs of
       Some (v # vs) \<Rightarrow> append_at 0 (dotted (arc1 v # arc2 v # vs)) D | _ \<Rightarrow> None)"
proof -
  obtain a r where p: "parse_base128_integer cbs = (a, r)" by fastforce
  show ?thesis
  proof (cases a)
    case None
    then have "oid_text_body al cbs = Pair False" by (simp add: fun_eq_iff oid_text_body_def p)
    moreover have "read_all (length cbs) parse_base128_integer cbs \<in> {None, Some []}"
      using p None by (cases cbs) simp_all
    ultimately show ?thesis using refines_none by auto
  next
    case (Some v)
    let ?l = "length cbs - 1"
    have cbs: "cbs \<noteq> []" "length r \<le> ?l" using base128.dec_consumes [of cbs v r] p Some by auto
    let ?first = "if v \<ge> 80 then and_then (CBB_add_bytes al 0 [0x32, 0x2e]) (add_decimal al 0 (v - 80))
      else and_then (add_decimal al 0 (v div 40)) (and_then (CBB_add_u8 al 0 0x2e) (add_decimal al 0 (v mod 40)))"
    let ?xs = "decimal (unat (arc1 v)) @ 0x2e # decimal (unat (arc2 v))"
    have two: "decimal (unat (2 :: u64)) = [0x32]" by (simp add: decimal_digit)
    have "refines al (and_then (CBB_add_bytes al 0 [0x32, 0x2e]) (add_decimal al 0 (v - 80)))
        (append_at 0 ([0x32, 0x2e] @ decimal (unat (v - 80))))"
      by (intro refines_and_then refines_bytes refines_decimal) simp
    moreover have "refines al (and_then (add_decimal al 0 (v div 40)) (and_then (CBB_add_u8 al 0 0x2e) (add_decimal al 0 (v mod 40))))
        (append_at 0 (decimal (unat (v div 40)) @ dot_item (v mod 40)))"
      by (intro refines_and_then refines_dot_item refines_decimal)
    ultimately have "refines al ?first (append_at 0 ?xs)"
      by (cases "v \<ge> 80") (simp_all only: arc1_def arc2_def if_True if_False two append.simps simp_thms)
    from refines_items_step [OF this to_text.refines_loop [OF cbs(2)]]
    have "refines al (and_then ?first (oid_text_loop al r))
        (\<lambda>D. case read_all ?l parse_base128_integer r of None \<Rightarrow> None
           | Some ys \<Rightarrow> append_at 0 (?xs @ concat (map dot_item ys)) D)"
      by (simp only: and_then_def [abs_def])
    moreover have "oid_text_body al cbs = and_then ?first (oid_text_loop al r)"
      by (simp add: fun_eq_iff oid_text_body_def p Some)
    moreover have "read_all (length cbs) parse_base128_integer cbs =
        map_option (Cons v) (read_all ?l parse_base128_integer r)"
      using p Some cbs(1) by (cases cbs) simp_all
    then have "(\<lambda>D. case read_all (length cbs) parse_base128_integer cbs of
          Some (v # vs) \<Rightarrow> append_at 0 (dotted (arc1 v # arc2 v # vs)) D | _ \<Rightarrow> None) =
        (\<lambda>D. case read_all ?l parse_base128_integer r of None \<Rightarrow> None
           | Some ys \<Rightarrow> append_at 0 (?xs @ concat (map dot_item ys)) D)"
      by (cases "read_all ?l parse_base128_integer r") (simp_all add: fun_eq_iff dotted_concat)
    ultimately show ?thesis by (simp only:)
  qed
qed

lemma read_all_step:
  "cbs \<noteq> [] \<Longrightarrow> read_all (Suc m) dec cbs =
    (case dec cbs of (None, r) \<Rightarrow> None | (Some x, r) \<Rightarrow> map_option (Cons x) (read_all m dec r))"
  by (cases cbs) simp_all

lemma parse_dotted_shorter:
  "parse_dotted_decimal cbs = (Some a, r) \<Longrightarrow> cbs \<noteq> [] \<and> length r < length cbs"
  using dotted_loop_length [of 0 False cbs "Some a" r]
  by (cases cbs) (auto simp: parse_dotted_decimal_def)

definition oid_at :: "nat \<Rightarrow> u64 list option \<Rightarrow> doc \<Rightarrow> doc option" where
  "oid_at d items D =
     (case items of
        Some (a # b # vs) \<Rightarrow>
          if first_arcs_ok a b then append_at d (concat (map base128_item ((40 * a + b) # vs))) D else None
      | _ \<Rightarrow> None)"

lemma oid_at_append: "Option.bind (append_at d [] D) (oid_at d items) = oid_at d items D"
proof (cases "\<exists>a b vs. items = Some (a # b # vs) \<and> first_arcs_ok a b")
  case True
  then obtain a b vs where "items = Some (a # b # vs)" "first_arcs_ok a b" by blast
  then have "oid_at d items = append_at d (concat (map base128_item ((40 * a + b) # vs)))"
    by (simp add: oid_at_def fun_eq_iff)
  then show ?thesis by (simp only: append_append append.simps)
next
  case False
  then have "oid_at d items = (\<lambda>D. None)"
    by (auto simp: oid_at_def fun_eq_iff split: option.split list.split)
  then show ?thesis by (cases "append_at d [] D") simp_all
qed

lemma refines_from_text:
  "refines al (CBB_add_asn1_oid_from_text al d text) (oid_at d (read_all (length text) parse_dotted_decimal text))"
proof -
  define w where "w = (case parse_dotted_decimal text of
      (None, cbs) \<Rightarrow> Pair False
    | (Some a, cbs) \<Rightarrow>
        (case parse_dotted_decimal cbs of
           (None, cbs) \<Rightarrow> Pair False
         | (Some b, cbs) \<Rightarrow>
             if \<not> first_arcs_ok a b then Pair False
             else and_then (add_base128_integer al d (40 * a + b)) (oid_from_text_loop al d cbs)))"
  let ?items = "read_all (length text) parse_dotted_decimal text"
  have "refines al w (oid_at d ?items)"
  proof (cases "parse_dotted_decimal text")
    case (Pair oa r1)
    note p1 = Pair
    show ?thesis
    proof (cases oa)
      case None
      then have "w = Pair False" using p1 by (simp add: w_def)
      moreover have "?items \<in> {None, Some []}" using p1 None by (cases "text") simp_all
      ultimately show ?thesis using refines_none by (auto simp: oid_at_def [abs_def])
    next
      case (Some a)
      note p1 = p1 [unfolded Some]
      obtain n where n: "length text = Suc n" "length r1 \<le> n"
        using parse_dotted_shorter [OF p1] by (cases "length text") auto
      have items1: "?items = map_option (Cons a) (read_all n parse_dotted_decimal r1)"
        using parse_dotted_shorter [OF p1] p1 by (simp add: n(1) read_all_step)
      obtain ob r2 where p2: "parse_dotted_decimal r1 = (ob, r2)" by fastforce
      show ?thesis
      proof (cases ob)
        case None
        then have "w = Pair False" using p1 p2 by (simp add: w_def)
        moreover have "read_all n parse_dotted_decimal r1 \<in> {None, Some []}"
          using p2 None by (cases r1; cases n) simp_all
        ultimately show ?thesis using refines_none by (auto simp: oid_at_def [abs_def] items1)
      next
        case (Some b)
        note p2 = p2 [unfolded Some]
        obtain m where m: "n = Suc m" "length r2 \<le> m"
          using parse_dotted_shorter [OF p2] n(2) by (cases n) auto
        have items2: "?items = map_option (\<lambda>vs. a # b # vs) (read_all m parse_dotted_decimal r2)"
          using parse_dotted_shorter [OF p2] p2 by (simp add: items1 m(1) read_all_step option.map_comp comp_def)
        show ?thesis
        proof (cases "first_arcs_ok a b")
          case False
          then have "w = Pair False" using p1 p2 by (simp add: w_def)
          moreover have "oid_at d ?items = (\<lambda>D. None)"
            using False by (simp add: items2 oid_at_def fun_eq_iff split: option.split)
          ultimately show ?thesis by (simp only: refines_none)
        next
          case True
          then have "w = and_then (add_base128_integer al d (40 * a + b)) (oid_from_text_loop al d r2)"
            using p1 p2 by (simp add: w_def)
          moreover have "oid_at d ?items = (\<lambda>D. case read_all m parse_dotted_decimal r2 of None \<Rightarrow> None
              | Some ys \<Rightarrow> append_at d (base128_item (40 * a + b) @ concat (map base128_item ys)) D)"
            using True by (simp add: items2 oid_at_def fun_eq_iff split: option.split)
          ultimately show ?thesis
            using refines_items_step [OF refines_add_base128 from_text.refines_loop [OF m(2)]]
            by (simp only: and_then_def [abs_def])
        qed
      qed
    qed
  qed
  from refines_seq [OF refines_flush this]
  have "refines al (and_then (CBB_flush al d) w) (oid_at d ?items)"
    unfolding and_then_def [abs_def] by (rule refines_cong) (rule oid_at_append)
  moreover have "and_then (CBB_flush al d) w = CBB_add_asn1_oid_from_text al d text"
    by (auto simp: fun_eq_iff and_then_def w_def CBB_add_asn1_oid_from_text_def CBS_init_def first_arcs_ok_def
        split: prod.splits option.splits bool.splits)
  ultimately show ?thesis by simp
qed

subsection \<open>Whole conversions\<close>

definition oid_text :: "u64 list \<Rightarrow> bytes" where
  "oid_text subids = (case subids of [] \<Rightarrow> [] | v # vs \<Rightarrow> dotted (arc1 v # arc2 v # vs))"

abbreviation oid_der :: "u64 list \<Rightarrow> bytes" where
  "oid_der subids \<equiv> concat (map base128_item subids)"

lemma to_text_build:
  "CBS_asn1_oid_to_text al cbs = CBB_build al 32 (and_then (oid_text_body al cbs) (CBB_add_u8 al 0 0))"
  by (simp add: CBS_asn1_oid_to_text_def CBB_build_def)

lemma refines_to_text:
  "refines al (and_then (oid_text_body al cbs) (CBB_add_u8 al 0 0))
    (\<lambda>D. case read_all (length cbs) parse_base128_integer cbs of
       Some (v # vs) \<Rightarrow> append_at 0 (oid_text (v # vs) @ [0]) D | _ \<Rightarrow> None)"
proof -
  let ?items = "read_all (length cbs) parse_base128_integer cbs"
  let ?g = "\<lambda>D. case ?items of Some (v # vs) \<Rightarrow> append_at 0 (dotted (arc1 v # arc2 v # vs)) D | _ \<Rightarrow> None"
  have eq: "Option.bind (?g D) (append_at 0 [0]) =
      (case ?items of Some (v # vs) \<Rightarrow> append_at 0 (oid_text (v # vs) @ [0]) D | _ \<Rightarrow> None)" for D
  proof (cases "\<exists>v vs. ?items = Some (v # vs)")
    case True
    then obtain v vs where "?items = Some (v # vs)" by blast
    then show ?thesis by (simp only: option.case list.case oid_text_def append_append)
  qed (auto split: option.split list.split)
  show ?thesis
    unfolding and_then_def by (rule refines_cong [OF refines_seq [OF refines_text_body refines_u8] eq])
qed

lemma to_text_Some:
  assumes "CBS_asn1_oid_to_text al cbs = Some t"
  shows "\<exists>ids. ids \<noteq> [] \<and> cbs = oid_der ids \<and> t = oid_text ids @ [0]"
proof -
  have n: "(32 :: nat) < size_lim" by simp
  from CBB_build_ok [OF refines_to_text n assms [unfolded to_text_build]] obtain v vs where
    "read_all (length cbs) parse_base128_integer cbs = Some (v # vs)" "t = oid_text (v # vs) @ [0]"
    by (auto simp: append_at_0_Some close_doc_def split: option.splits list.splits)
  then show ?thesis unfolding base128.read_all_iff by blast
qed

lemma to_text_total:
  assumes "ids \<noteq> []" "\<forall>m. al m" "length (oid_text ids @ [0]) < size_lim"
  shows "CBS_asn1_oid_to_text al (oid_der ids) = Some (oid_text ids @ [0])"
proof -
  obtain v vs where ids: "ids = v # vs" using assms(1) by (cases ids) auto
  have "read_all (length (oid_der ids)) parse_base128_integer (oid_der ids) = Some (v # vs)"
    unfolding base128.read_all_iff ids by simp
  then have "refines al (and_then (oid_text_body al (oid_der ids)) (CBB_add_u8 al 0 0)) (append_at 0 (oid_text ids @ [0]))"
    using refines_to_text [of al "oid_der ids"] by (simp add: ids)
  from CBB_build_append(2) [OF this _ assms(2,3), of 32] show ?thesis by (simp add: to_text_build)
qed

lemma from_text_Some:
  assumes "CBB_build al n (CBB_add_asn1_oid_from_text al 0 txt) = Some der" "n < size_lim"
  shows "\<exists>ids. ids \<noteq> [] \<and> der = oid_der ids \<and> txt = oid_text ids"
proof -
  from CBB_build_ok [OF refines_from_text assms(2,1)] obtain a b vs where
    r: "read_all (length txt) parse_dotted_decimal txt = Some (a # b # vs)" "first_arcs_ok a b"
    "der = oid_der ((40 * a + b) # vs)"
    by (auto simp: oid_at_def append_at_0_Some close_doc_def split: option.splits list.splits if_splits)
  moreover have "txt = dotted (a # b # vs)" using r(1) by (simp only: read_all_dotted [OF order_refl])
  then have "txt = oid_text ((40 * a + b) # vs)" using join_arcs [OF r(2)] by (simp add: oid_text_def)
  ultimately show ?thesis by blast
qed

lemma from_text_total:
  assumes "ids \<noteq> []" "\<forall>m. al m" "length (oid_der ids) < size_lim" "n < size_lim"
  shows "CBB_build al n (CBB_add_asn1_oid_from_text al 0 (oid_text ids)) = Some (oid_der ids)"
proof -
  obtain v vs where ids: "ids = v # vs" using assms(1) by (cases ids) auto
  have "read_all (length (oid_text ids)) parse_dotted_decimal (oid_text ids) = Some (arc1 v # arc2 v # vs)"
    unfolding read_all_dotted [OF order_refl] by (simp add: ids oid_text_def)
  moreover have "oid_at 0 (Some (arc1 v # arc2 v # vs)) = append_at 0 (oid_der ids)"
    by (simp only: oid_at_def [abs_def] option.case list.case split_arcs if_True ids)
  ultimately have "refines al (CBB_add_asn1_oid_from_text al 0 (oid_text ids)) (append_at 0 (oid_der ids))"
    using refines_from_text [of al 0 "oid_text ids"] by (simp only:)
  from CBB_build_append(2) [OF this assms(4,2,3)] show ?thesis .
qed

subsection \<open>Properties\<close>

text \<open>
  C30: the two conversions of object identifiers are inverse: the text of an encoded identifier is
  read back to the same bytes, and an identifier made from a text prints as that text. So the
  accepted texts and the accepted encodings are canonical (no leading zeros or empty components,
  no first arcs that would print differently).
\<close>

theorem oid_roundtrip:
  assumes al: "\<forall>m. al m" and n: "n < size_lim"
  shows "(CBS_asn1_oid_to_text al' cbs = Some t \<longrightarrow> length cbs < size_lim \<longrightarrow>
      CBB_build al n (CBB_add_asn1_oid_from_text al 0 (butlast t)) = Some cbs) \<and>
    (CBB_build al' n (CBB_add_asn1_oid_from_text al' 0 txt) = Some der \<longrightarrow> length txt + 1 < size_lim \<longrightarrow>
      CBS_asn1_oid_to_text al der = Some (txt @ [0]))"
proof (intro conjI impI)
  assume t: "CBS_asn1_oid_to_text al' cbs = Some t" and len: "length cbs < size_lim"
  obtain ids where ids: "ids \<noteq> []" "cbs = oid_der ids" "t = oid_text ids @ [0]" using to_text_Some [OF t] by blast
  have b: "butlast t = oid_text ids" by (simp add: ids(3))
  show "CBB_build al n (CBB_add_asn1_oid_from_text al 0 (butlast t)) = Some cbs"
    unfolding b ids(2) by (rule from_text_total [OF ids(1) al len [unfolded ids(2)] n])
next
  assume b: "CBB_build al' n (CBB_add_asn1_oid_from_text al' 0 txt) = Some der" and len: "length txt + 1 < size_lim"
  obtain ids where ids: "ids \<noteq> []" "der = oid_der ids" "txt = oid_text ids" using from_text_Some [OF b n] by blast
  have "length (oid_text ids @ [0]) < size_lim" using len by (simp add: ids(3))
  from to_text_total [OF ids(1) al this] show "CBS_asn1_oid_to_text al der = Some (txt @ [0])"
    by (simp only: ids(2,3))
qed

text \<open>The identifier 1.2.840.113549 of RSA Data Security.\<close>

theorem oid_roundtrip_witness:
  "CBS_asn1_oid_to_text (\<lambda>m. True) [0x2a, 0x86, 0x48, 0x86, 0xf7, 0x0d] =
    Some ([0x31, 0x2e, 0x32, 0x2e, 0x38, 0x34, 0x30, 0x2e, 0x31, 0x31, 0x33, 0x35, 0x34, 0x39] @ [0])"
proof -
  let ?al = "\<lambda>m :: nat. True" and ?ids = "[42, 840, 113549] :: u64 list"
  let ?txt = "[0x31, 0x2e, 0x32, 0x2e, 0x38, 0x34, 0x30, 0x2e, 0x31, 0x31, 0x33, 0x35, 0x34, 0x39] :: bytes"
  have t: "oid_text ?ids = ?txt"
    by (simp add: oid_text_def arc1_def arc2_def decimal.simps)
  have d: "oid_der ?ids = [0x2a, 0x86, 0x48, 0x86, 0xf7, 0x0d]"
    by (simp add: base128_bytes_def base128_hi.simps)
  have "CBB_build ?al 0 (CBB_add_asn1_oid_from_text ?al 0 ?txt) = Some [0x2a, 0x86, 0x48, 0x86, 0xf7, 0x0d]"
    using from_text_total [of ?ids ?al 0] by (simp only: t d) simp
  then show ?thesis by (intro oid_roundtrip [where n = 0, THEN conjunct2, rule_format]) simp_all
qed

end
