(* ===== verification/Cbb_Machine.thy ===== *)
theory Cbb_Machine
  imports Cbb_Set Unicode Oid
begin

text \<open>
  The builder as a state machine: any operation of \<open>cbb.c\<close> and any writer of \<open>unicode.c\<close>, through any
  handle, in any order, on a growing or a fixed buffer, whatever the allocator does. Every reachable state is usable (it stands for a document) or failed (the
  buffer is gone or its error flag is set), and a failed builder stays failed and refuses to
  write. This is what lets callers check the result of the last call only.
\<close>

unbundle bit_operations_syntax

datatype cbb_op =
    Flush | Add_u8 u8 | Add_u16 u16 | Add_u24 u32 | Add_u32 u32 | Add_u64 u64
  | Add_bytes bytes | Add_space nat | Reserve nat | Did_write nat | Discard_child
  | U8_length_prefixed | U16_length_prefixed | U24_length_prefixed | Add_asn1 u32
  | Asn1_uint64 u64 | Asn1_int64 u64 | Asn1_octet_string bytes | Asn1_bool int
  | Flush_set_of | Cleanup | Finish bool
  | Add_u16le u16 | Add_u32le u32 | Add_u64le u64 | Asn1_oid_from_text bytes
  | Add_utf8 u32 | Add_latin1 u32 | Add_ucs2_be u32 | Add_utf32_be u32

fun cbb_exec :: "allocator \<Rightarrow> nat \<Rightarrow> cbb_op \<Rightarrow> cbb \<Rightarrow> bool \<times> cbb" where
  "cbb_exec al d Flush s = CBB_flush al d s"
| "cbb_exec al d (Add_u8 v) s = CBB_add_u8 al d v s"
| "cbb_exec al d (Add_u16 v) s = CBB_add_u16 al d v s"
| "cbb_exec al d (Add_u24 v) s = CBB_add_u24 al d v s"
| "cbb_exec al d (Add_u32 v) s = CBB_add_u32 al d v s"
| "cbb_exec al d (Add_u64 v) s = CBB_add_u64 al d v s"
| "cbb_exec al d (Add_bytes data) s = CBB_add_bytes al d data s"
| "cbb_exec al d (Add_space n) s = CBB_add_space al d n s"
| "cbb_exec al d (Reserve n) s = CBB_reserve al d n s"
| "cbb_exec al d (Did_write n) s = CBB_did_write d n s"
| "cbb_exec al d Discard_child s = (True, CBB_discard_child d s)"
| "cbb_exec al d U8_length_prefixed s = CBB_add_u8_length_prefixed al d s"
| "cbb_exec al d U16_length_prefixed s = CBB_add_u16_length_prefixed al d s"
| "cbb_exec al d U24_length_prefixed s = CBB_add_u24_length_prefixed al d s"
| "cbb_exec al d (Add_asn1 tag) s = CBB_add_asn1 al d tag s"
| "cbb_exec al d (Asn1_uint64 v) s = CBB_add_asn1_uint64 al d v s"
| "cbb_exec al d (Asn1_int64 v) s = CBB_add_asn1_int64 al d v s"
| "cbb_exec al d (Asn1_octet_string data) s = CBB_add_asn1_octet_string al d data s"
| "cbb_exec al d (Asn1_bool v) s = CBB_add_asn1_bool al d v s"
| "cbb_exec al d Flush_set_of s = CBB_flush_asn1_set_of al d s"
| "cbb_exec al d Cleanup s = (True, CBB_cleanup s)"
| "cbb_exec al d (Finish want_out) s = (case CBB_finish al want_out d s of (out, s') \<Rightarrow> (out \<noteq> None, s'))"
| "cbb_exec al d (Add_u16le v) s = CBB_add_u16le al d v s"
| "cbb_exec al d (Add_u32le v) s = CBB_add_u32le al d v s"
| "cbb_exec al d (Add_u64le v) s = CBB_add_u64le al d v s"
| "cbb_exec al d (Asn1_oid_from_text txt) s = CBB_add_asn1_oid_from_text al d txt s"
| "cbb_exec al d (Add_utf8 u) s = cbb_add_utf8 al d u s"
| "cbb_exec al d (Add_latin1 u) s = cbb_add_latin1 al d u s"
| "cbb_exec al d (Add_ucs2_be u) s = cbb_add_ucs2_be al d u s"
| "cbb_exec al d (Add_utf32_be u) s = cbb_add_utf32_be al d u s"

text \<open>Arguments that exist in C: sizes and lengths are \<open>size_t\<close> values.\<close>

fun op_ok :: "cbb_op \<Rightarrow> bool" where
  "op_ok (Add_bytes data) \<longleftrightarrow> length data < size_lim"
| "op_ok (Add_space n) \<longleftrightarrow> n < size_lim"
| "op_ok (Reserve n) \<longleftrightarrow> n < size_lim"
| "op_ok (Did_write n) \<longleftrightarrow> n < size_lim"
| "op_ok (Asn1_octet_string data) \<longleftrightarrow> length data < size_lim"
| "op_ok _ \<longleftrightarrow> True"

text \<open>The operations that write or hand out the result, as opposed to those that only adjust the length or free.\<close>

fun writes_op :: "cbb_op \<Rightarrow> bool" where
  "writes_op (Did_write n) \<longleftrightarrow> False"
| "writes_op Discard_child \<longleftrightarrow> False"
| "writes_op Cleanup \<longleftrightarrow> False"
| "writes_op _ \<longleftrightarrow> True"

text \<open>From an initial capacity or a fixed buffer of \<open>n\<close> bytes.\<close>

inductive cbb_reachable :: "nat \<Rightarrow> cbb \<Rightarrow> bool" for n where
  init: "CBB_init al n = Some s \<Longrightarrow> cbb_reachable n s"
| init_fixed: "CBB_init_fixed al b = Some s \<Longrightarrow> length b = n \<Longrightarrow> cbb_reachable n s"
| step: "cbb_reachable n s \<Longrightarrow> op_ok op \<Longrightarrow> d \<le> length (children s) \<Longrightarrow>
    cbb_exec al d op s = (ok, s') \<Longrightarrow> cbb_reachable n s'"

subsection \<open>A failed builder\<close>

lemma failed_flush: "failed s \<Longrightarrow> CBB_flush al d s = (False, s)"
proof (cases "base s")
  case (Some b)
  assume "failed s"
  with Some have "error b" by (simp add: failed_def)
  then have "flush_chain al cs b = (False, cs, b)" for cs by (cases cs) auto
  with Some show ?thesis by (cases s) (simp add: CBB_flush_def)
qed (simp add: CBB_flush_def)

lemma failed_flush_then: "failed s \<Longrightarrow> flush_then al d f s = (False, s)"
  by (simp add: flush_then_def failed_flush)

lemma failed_add_u8: "failed s \<Longrightarrow> CBB_add_u8 al d v s = (False, s)"
  by (simp add: CBB_add_u8_def failed_flush_then)

lemma failed_add_asn1: "failed s \<Longrightarrow> CBB_add_asn1 al d tag s = (False, s)"
  by (simp add: CBB_add_asn1_def failed_flush)

lemma failed_finish: "failed s \<Longrightarrow> CBB_finish al want_out d s = (None, s)"
  by (simp add: CBB_finish_def failed_flush)

lemma failed_utf8: "failed s \<Longrightarrow> cbb_add_utf8 al d u s = (False, s)"
  by (simp add: cbb_add_utf8_def and_then_def failed_add_u8)

lemma failed_exec:
  assumes "failed s" "writes_op op"
  shows "cbb_exec al d op s = (False, s)"
  using assms
  by (cases op)
    (simp_all add: failed_flush failed_flush_then failed_add_u8 failed_add_asn1 failed_finish failed_utf8 CBB_add_u16_def
      CBB_add_u16le_def CBB_add_u32le_def CBB_add_u64le_def CBB_add_asn1_oid_from_text_def cbb_add_latin1_def
      cbb_add_ucs2_be_def cbb_add_utf32_be_def
      CBB_add_u24_def CBB_add_u32_def CBB_add_u64_def CBB_add_bytes_def CBB_add_space_def CBB_reserve_def
      CBB_add_u8_length_prefixed_def CBB_add_u16_length_prefixed_def CBB_add_u24_length_prefixed_def
      cbb_add_length_prefixed_def CBB_add_asn1_uint64_def CBB_add_asn1_int64_def
      CBB_add_asn1_octet_string_def CBB_add_asn1_bool_def CBB_flush_asn1_set_of_def Let_def)

lemma failed_stays: "failed s \<Longrightarrow> cbb_exec al d op s = (ok, s') \<Longrightarrow> failed s'"
proof (cases "writes_op op")
  case False
  assume "failed s" "cbb_exec al d op s = (ok, s')"
  with False show ?thesis
    by (cases op) (auto simp: failed_def CBB_did_write_def CBB_discard_child_def CBB_cleanup_def Let_def
        split: option.splits if_splits)
qed (simp add: failed_exec)

subsection \<open>A usable builder\<close>

abbreviation alive :: "cbb \<Rightarrow> bool" where
  "alive s \<equiv> failed s \<or> usable s"

lemma refines_alive: "refines al w g \<Longrightarrow> usable s \<Longrightarrow> w s = (ok, s') \<Longrightarrow> alive s'"
proof -
  assume r: "refines al w g" and u: "usable s" and w: "w s = (ok, s')"
  from u obtain D where B: "builds s D" by (auto simp: usable_def)
  show ?thesis
  proof (cases ok)
    case True
    with w have "w s = (True, s')" by simp
    from refines_ok [OF r B this] show ?thesis unfolding usable_def by blast
  next
    case False
    with w have "w s = (False, s')" by simp
    from refines_fail [OF r B this] show ?thesis by blast
  qed
qed

text \<open>Buffer operations that append something, not saying what.\<close>

lemma flush_then_alive:
  assumes f: "\<And>b b'. wf_buf b \<Longrightarrow> f b = (True, b') \<Longrightarrow>
      wf_buf b' \<and> same_flags b b' \<and> (\<exists>data. content b' = content b @ data)"
    and e: "\<And>b b'. wf_buf b \<Longrightarrow> f b = (False, b') \<Longrightarrow> error b'"
    and u: "usable s" and w: "flush_then al d f s = (ok, s')"
  shows "alive s'"
proof -
  from u obtain D where B: "builds s D" by (auto simp: usable_def)
  obtain ok1 s1 where fl: "CBB_flush al d s = (ok1, s1)" by fastforce
  show ?thesis
  proof (cases ok1)
    case False
    with fl w have "s' = s1" "CBB_flush al d s = (False, s1)" by (auto simp: flush_then_def)
    then show ?thesis using CBB_flush_fails [OF B, of al d s1] by auto
  next
    case True
    with fl have fl: "CBB_flush al d s = (True, s1)" by simp
    from B fl obtain b1 pre zs where b1: "base s1 = Some b1" "wf_buf b1" "\<not> error b1" "content b1 = pre @ zs"
      "children s1 = take d (children s)" "length (children s1) = d" "grows s s1"
      "content_start d s1 = length pre"
      and up: "\<And>f cs3 ct3. represents (length pre) cs3 ct3 (fst (f zs)) (snd (f zs)) \<Longrightarrow>
        \<exists>D'. update_at d f D = Some D' \<and> represents 0 (children s1 @ cs3) (pre @ ct3) (fst D') (snd D')"
      by (rule CBB_flush_frame) (rule that, assumption+)
    from fl w b1(1) obtain b2 where b2: "f b1 = (ok, b2)" "s' = s1\<lparr>base := Some b2\<rparr>"
      by (auto simp: flush_then_def split: prod.splits)
    show ?thesis
    proof (cases ok)
      case False
      with e [OF b1(2)] b2 show ?thesis by (auto simp: failed_def)
    next
      case True
      with f [OF b1(2)] b2(1) obtain data where data: "wf_buf b2" "same_flags b1 b2" "content b2 = content b1 @ data"
        by auto
      from up [of "[]" "zs @ data" "\<lambda>_. (zs @ data, [])"] obtain D' where
        "represents 0 (children s1) (pre @ zs @ data) (fst D') (snd D')" by auto
      with data b1 b2(2) have "builds s' D'" by (simp add: builds_def same_flags_def)
      then show ?thesis unfolding usable_def by blast
    qed
  qed
qed

lemma usable_add_space:
  assumes "n < size_lim" "usable s" "CBB_add_space al d n s = (ok, s')"
  shows "alive s'"
proof (rule flush_then_alive [OF _ _ assms(2) assms(3) [unfolded CBB_add_space_def]])
  fix b b' assume b: "wf_buf b" "cbb_buffer_add al n b = (True, b')"
  from cbb_buffer_add_ok [OF b(2,1) assms(1)] obtain k where ok: "wf_buf b'" "len b' = len b + n"
    "same_flags b b'" "buf b' = buf b @ replicate k 0" by auto
  have "content b' = content b @ take n (drop (len b) (buf b'))"
    using ok b(1) by (simp add: content_def wf_buf_def take_add)
  with ok show "wf_buf b' \<and> same_flags b b' \<and> (\<exists>data. content b' = content b @ data)" by blast
qed (auto dest: cbb_buffer_add_fails)

lemma usable_reserve:
  assumes "n < size_lim" "usable s" "CBB_reserve al d n s = (ok, s')"
  shows "alive s'"
proof (rule flush_then_alive [OF _ _ assms(2) assms(3) [unfolded CBB_reserve_def]])
  fix b b' assume b: "wf_buf b" "cbb_buffer_reserve al n b = (True, b')"
  from cbb_buffer_reserve_ok [OF b(2,1) assms(1)] b(1)
  have "wf_buf b' \<and> same_flags b b' \<and> content b' = content b @ []"
    by (auto simp: content_def wf_buf_def)
  then show "wf_buf b' \<and> same_flags b b' \<and> (\<exists>data. content b' = content b @ data)" by blast
qed (auto dest: cbb_buffer_reserve_fails)

lemma usable_u24:
  assumes "usable s" "CBB_add_u24 al d v s = (ok, s')"
  shows "alive s'"
proof (rule flush_then_alive [OF _ _ assms(1) assms(2) [unfolded CBB_add_u24_def]])
  fix b b' assume b: "wf_buf b" "cbb_buffer_add_u al (ucast v) 3 b = (True, b')"
  from cbb_buffer_add_u_ok(2) [OF b(2)]
  have a: "buffer_add_bytes al (be_bytes 3 (unat (ucast v :: u64))) b = (True, b')" by simp
  have "length (be_bytes 3 (unat (ucast v :: u64))) < size_lim" by simp
  from buffer_add_bytes_ok [OF a b(1) this]
  show "wf_buf b' \<and> same_flags b b' \<and> (\<exists>data. content b' = content b @ data)" by blast
qed (simp add: cbb_buffer_add_u_fails)

lemma represents_more:
  "represents p cs ct xs fs \<Longrightarrow> \<exists>xs' fs'. represents p cs (ct @ data) xs' fs'"
proof (induction cs arbitrary: p ct xs fs)
  case Nil
  have "represents p [] (ct @ data) (ct @ data) []" by simp
  then show ?case by blast
next
  case (Cons c cs)
  then obtain k ys gs pad rest where fr: "fs = (k, ys) # gs" "ct = xs @ pad @ rest" "pad \<noteq> []"
    "offset c = p + length xs" "pending_len_len c = length pad" "child_kind c = k"
    "pending_is_asn1 c \<Longrightarrow> length pad = 1"
    and rep: "represents (p + length xs + length pad) cs rest ys gs"
    by (auto elim!: representsE)
  from Cons.IH [OF rep] obtain ys' gs' where
    "represents (p + length xs + length pad) cs (rest @ data) ys' gs'" by blast
  with fr have "represents p (c # cs) (ct @ data) xs ((k, ys') # gs')" by auto
  then show ?case by blast
qed

lemma represents_cut:
  "represents p cs ct xs fs \<Longrightarrow> d < length cs \<Longrightarrow>
    p \<le> offset (cs ! d) \<and> offset (cs ! d) - p \<le> length ct \<and>
    (\<exists>xs' fs'. represents p (take d cs) (take (offset (cs ! d) - p) ct) xs' fs')"
proof (induction cs arbitrary: p ct xs fs d)
  case (Cons c cs)
  then obtain k ys gs pad rest where fr: "fs = (k, ys) # gs" "ct = xs @ pad @ rest" "pad \<noteq> []"
    "offset c = p + length xs" "pending_len_len c = length pad" "child_kind c = k"
    "pending_is_asn1 c \<Longrightarrow> length pad = 1"
    and rep: "represents (p + length xs + length pad) cs rest ys gs"
    by (auto elim!: representsE)
  show ?case
  proof (cases d)
    case 0
    have "represents p [] xs xs []" by simp
    then have "\<exists>xs' fs'. represents p [] xs xs' fs'" by blast
    then show ?thesis using fr 0 by simp
  next
    case (Suc e)
    let ?o = "offset (cs ! e)" and ?q = "p + length xs + length pad"
    from Cons.IH [OF rep, of e] Suc Cons.prems(2) obtain ys' gs' where
      ih: "?q \<le> ?o" "?o - ?q \<le> length rest" "represents ?q (take e cs) (take (?o - ?q) rest) ys' gs'" by auto
    have "take (?o - p) ct = xs @ pad @ take (?o - ?q) rest"
      using ih(1) fr(2) by simp
    with ih fr Suc have "represents p (take d (c # cs)) (take (?o - p) ct) xs ((k, ys') # gs')"
      by (simp; intro exI [of _ pad] exI [of _ "take (?o - ?q) rest"]; simp)
    then have "\<exists>xs' fs'. represents p (take d (c # cs)) (take (?o - p) ct) xs' fs'" by blast
    moreover have "p \<le> ?o" "?o - p \<le> length ct" using ih(1,2) fr(2) by auto
    ultimately show ?thesis using Suc by simp
  qed
qed simp

lemma usable_did_write:
  assumes n: "n < size_lim" and u: "usable s" and d: "d \<le> length (children s)"
    and w: "CBB_did_write d n s = (ok, s')"
  shows "alive s'"
proof (cases ok)
  case False
  with u w show ?thesis by (auto simp: CBB_did_write_def Let_def split: option.splits if_splits)
next
  case True
  from u obtain D b where b: "base s = Some b" "wf_buf b" "\<not> error b"
    and rep: "represents 0 (children s) (content b) (fst D) (snd D)"
    by (auto simp: usable_def builds_def)
  let ?new = "(len b + n) mod size_lim"
  from w True b(1) have new: "\<not> ?new < len b" "?new \<le> cap b"
    and s': "s' = s\<lparr>base := Some (b\<lparr>len := ?new\<rparr>)\<rparr>"
    by (auto simp: CBB_did_write_def Let_def split: if_splits)
  have eq: "?new = len b + n" using newlen_no_overflow [OF b(2) n new(1)] by blast
  have "content (b\<lparr>len := ?new\<rparr>) = content b @ take n (drop (len b) (buf b))"
    using new eq by (simp add: content_def take_add del: mod_less)
  with represents_more [OF rep] obtain xs fs where
    "represents 0 (children s) (content (b\<lparr>len := ?new\<rparr>)) xs fs" by metis
  with b new(2) have "builds s' (xs, fs)" by (simp add: builds_def s' wf_buf_def)
  then show ?thesis unfolding usable_def by blast
qed

lemma usable_discard:
  assumes u: "usable s"
  shows "usable (CBB_discard_child d s)"
proof (cases "d < length (children s)")
  case True
  from u obtain D b where b: "base s = Some b" "wf_buf b" "\<not> error b"
    and rep: "represents 0 (children s) (content b) (fst D) (snd D)"
    by (auto simp: usable_def builds_def)
  let ?o = "offset (children s ! d)"
  from represents_cut [OF rep True] obtain xs fs where
    o: "?o \<le> length (content b)" "represents 0 (take d (children s)) (take ?o (content b)) xs fs" by auto
  have "content (b\<lparr>len := ?o\<rparr>) = take ?o (content b)" using o(1) by (simp add: content_def)
  with o b True have "builds (CBB_discard_child d s) (xs, fs)"
    by (auto simp: builds_def CBB_discard_child_def wf_buf_def content_def)
  then show ?thesis unfolding usable_def by blast
qed (use u in \<open>simp add: CBB_discard_child_def\<close>)

lemma usable_set_of:
  assumes u: "usable s" and w: "CBB_flush_asn1_set_of al d s = (ok, s')"
  shows "alive s'"
proof -
  from u obtain D where B: "builds s D" by (auto simp: usable_def)
  obtain ok1 s1 where fl: "CBB_flush al d s = (ok1, s1)" by fastforce
  show ?thesis
  proof (cases ok1)
    case False
    with fl w have "s' = s1" "CBB_flush al d s = (False, s1)" by (auto simp: CBB_flush_asn1_set_of_def)
    then show ?thesis using CBB_flush_fails [OF B, of al d s1] by auto
  next
    case True
    with fl have fl: "CBB_flush al d s = (True, s1)" by simp
    let ?s2 = "s1\<lparr>base := map_option (\<lambda>b. b\<lparr>len := content_start d s1\<rparr>) (base s1)\<rparr>"
    let ?zs = "CBS_init (CBB_data d s1) (CBB_len d s1)"
    from refines_alive [OF refines_flush u fl] have "alive s1" .
    moreover have "alive s'" if "read_all (length ?zs) get_element ?zs = Some es"
      "add_all al d (qsort compare_set_of_element es) ?s2 = (ok, s')" for es
    proof -
      from set_of_truncated [OF B fl] obtain D2 where "builds ?s2 D2" .
      then have u2: "usable ?s2" unfolding usable_def by blast
      from CBB_flush_base [OF B fl] obtain b1 where b1: "base s1 = Some b1" "wf_buf b1" .
      have zs: "?zs = concat es" and el: "\<forall>e\<in>set es. is_element e"
        using that(1) element.read_all_iff by auto
      have "length ?zs \<le> cap b1"
        using b1 by (auto simp: CBS_init_def CBB_data_def CBB_len_def wf_buf_def)
      then have "length e < size_lim" if "e \<in> set (qsort compare_set_of_element es)" for e
        using that zs b1(2) by (auto simp: wf_buf_def dest!: split_list)
      moreover have "e \<noteq> []" if "e \<in> set (qsort compare_set_of_element es)" for e
        using that el by (metis der_element_nonempty is_element_def set_qsort)
      ultimately have "refines al (write_all (CBB_add_bytes al d) (qsort compare_set_of_element es))
          (seq_at d (concat (map (\<lambda>e. e) (qsort compare_set_of_element es))))"
        by (intro refines_write_all refines_bytes)
      from refines_alive [OF this u2] that(2) show ?thesis by (simp add: add_all_write)
    qed
    ultimately show ?thesis
      using w fl by (auto simp: CBB_flush_asn1_set_of_def Let_def split: option.splits if_splits)
  qed
qed

lemma usable_finish:
  assumes u: "usable s" and w: "CBB_finish al want_out d s = (out, s')"
  shows "alive s'"
proof -
  obtain ok s1 where fl: "CBB_flush al 0 s = (ok, s1)" by fastforce
  have "alive s1" by (rule refines_alive [OF refines_flush u fl])
  moreover have "failed (CBB_cleanup s1)" by (simp add: failed_def CBB_cleanup_def)
  ultimately show ?thesis using w u fl by (auto simp: CBB_finish_def split: if_splits option.splits bool.splits)
qed

lemma usable_unicode:
  assumes u: "usable s"
  shows "cbb_add_utf8 al d v s = (ok, s') \<Longrightarrow> alive s'" "cbb_add_latin1 al d v s = (ok, s') \<Longrightarrow> alive s'"
    "cbb_add_ucs2_be al d v s = (ok, s') \<Longrightarrow> alive s'" "cbb_add_utf32_be al d v s = (ok, s') \<Longrightarrow> alive s'"
proof -
  note a = refines_alive [OF _ u]
  show "alive s'" if "cbb_add_utf8 al d v s = (ok, s')"
  proof (cases "is_valid_code_point v")
    case True
    then show ?thesis using a [OF refines_utf8 that] by simp
  next
    case False
    then show ?thesis using that u by (simp add: cbb_add_utf8_def)
  qed
  show "alive s'" if "cbb_add_latin1 al d v s = (ok, s')" using that u a [OF refines_u8] by (auto simp: cbb_add_latin1_def split: if_splits)
  show "alive s'" if "cbb_add_ucs2_be al d v s = (ok, s')" using that u a [OF refines_u16] by (auto simp: cbb_add_ucs2_be_def split: if_splits)
  show "alive s'" if "cbb_add_utf32_be al d v s = (ok, s')" using that u a [OF refines_u32] by (auto simp: cbb_add_utf32_be_def split: if_splits)
qed

lemma CBB_init_fixed_builds:
  assumes "CBB_init_fixed al b = Some s" "length b < size_lim"
  shows "builds s ([], [])"
  using assms by (auto simp: CBB_init_fixed_def cbb_init_def CBB_zero_def builds_def wf_buf_def content_def split: if_splits)

lemma usable_exec:
  assumes u: "usable s" and ok: "op_ok op" "d \<le> length (children s)" and e: "cbb_exec al d op s = (r, s')"
  shows "alive s'"
proof (cases op)
  case Flush then show ?thesis using e refines_alive [OF refines_flush u] by simp
next
  case (Add_u8 v) then show ?thesis using e refines_alive [OF refines_u8 u] by simp
next
  case (Add_u16 v) then show ?thesis using e refines_alive [OF refines_u16 u] by simp
next
  case (Add_u24 v) then show ?thesis using e usable_u24 [OF u] by simp
next
  case (Add_u32 v) then show ?thesis using e refines_alive [OF refines_u32 u] by simp
next
  case (Add_u64 v) then show ?thesis using e refines_alive [OF refines_u64 u] by simp
next
  case (Add_bytes data) then show ?thesis using e ok refines_alive [OF refines_bytes u] by simp
next
  case (Add_space n) then show ?thesis using e ok usable_add_space [OF _ u] by simp
next
  case (Reserve n) then show ?thesis using e ok usable_reserve [OF _ u] by simp
next
  case (Did_write n) then show ?thesis using e ok usable_did_write [OF _ u] by simp
next
  case Discard_child then show ?thesis using e usable_discard [OF u] by auto
next
  case U8_length_prefixed then show ?thesis using e refines_alive [OF refines_length_prefixed(1) u] by simp
next
  case U16_length_prefixed then show ?thesis using e refines_alive [OF refines_length_prefixed(2) u] by simp
next
  case U24_length_prefixed then show ?thesis using e refines_alive [OF refines_length_prefixed(3) u] by simp
next
  case (Add_asn1 tag) then show ?thesis using e refines_alive [OF refines_add_asn1 u] by simp
next
  case (Asn1_uint64 v) then show ?thesis using e refines_alive [OF refines_uint64 u] by simp
next
  case (Asn1_int64 v) then show ?thesis using e refines_alive [OF refines_int64 u] by simp
next
  case (Asn1_octet_string data)
  then show ?thesis using e ok refines_alive [OF refines_octet_string_any u] by simp
next
  case (Asn1_bool v) then show ?thesis using e refines_alive [OF refines_bool u] by simp
next
  case Flush_set_of then show ?thesis using e usable_set_of [OF u] by simp
next
  case Cleanup then show ?thesis using e by (auto simp: CBB_cleanup_def failed_def)
next
  case (Finish w) then show ?thesis using e usable_finish [OF u, of al w d] by (auto split: prod.splits)
next
  case (Add_u16le v) then show ?thesis using e refines_alive [OF refines_u16 u] by (simp add: CBB_add_u16le_def)
next
  case (Add_u32le v) then show ?thesis using e refines_alive [OF refines_u32 u] by (simp add: CBB_add_u32le_def)
next
  case (Add_u64le v) then show ?thesis using e refines_alive [OF refines_u64 u] by (simp add: CBB_add_u64le_def)
next
  case (Asn1_oid_from_text t) then show ?thesis using e refines_alive [OF refines_from_text u] by simp
next
  case (Add_utf8 v) then show ?thesis using e usable_unicode(1) [OF u] by simp
next
  case (Add_latin1 v) then show ?thesis using e usable_unicode(2) [OF u] by simp
next
  case (Add_ucs2_be v) then show ?thesis using e usable_unicode(3) [OF u] by simp
next
  case (Add_utf32_be v) then show ?thesis using e usable_unicode(4) [OF u] by simp
qed

lemma reachable_alive: "cbb_reachable n s \<Longrightarrow> n < size_lim \<Longrightarrow> alive s"
proof (induction rule: cbb_reachable.induct)
  case (init al s)
  then show ?case using CBB_init_builds [OF init(1)] unfolding usable_def by blast
next
  case (init_fixed al b s)
  then show ?case using CBB_init_fixed_builds [OF init_fixed(1)] unfolding usable_def by blast
next
  case (step s op d al ok s')
  then show ?case using failed_stays usable_exec by blast
qed

end
