(* ===== verification/Bytestring_Properties.thy ===== *)
theory Bytestring_Properties
  imports Cbb_Machine Const_Time
begin

text \<open>
  The properties of the byte string library that its callers rely on, each a short consequence
  of the facts the interpretations of \<open>canonical_code\<close>, \<open>cbb_codec\<close> and \<open>comparator\<close> provide.
\<close>

unbundle bit_operations_syntax

section \<open>Reading\<close>

text \<open>
  C1: DER is read unambiguously. The loop over \<open>CBS_get_any_asn1\<close> accepts a byte string exactly
  when it is the concatenation of the canonical encodings of the elements it returns.
\<close>

theorem der_sequence_iff:
  "read_all (length bs) CBS_get_any_asn1 bs = Some xs \<longleftrightarrow>
    bs = concat (map (\<lambda>(body, tag). der_element tag body) xs) \<and>
    list_all (\<lambda>(body, tag). length body < 2 ^ 32) xs"
  unfolding list_all_iff by (rule der.read_all_iff)

text \<open>
  \<open>CBS_get_any_asn1_element\<close> returns exactly the elements in canonical form: minimal tag
  number, minimal length, the whole contents present, the header length reported right.
\<close>

theorem any_asn1_element_canonical:
  "CBS_get_any_asn1_element cbs = (Some (out, tag, header_len), rest) \<longleftrightarrow>
    (\<exists>body. length body < 2 ^ 32 \<and> out = der_element tag body \<and>
       header_len = length (der_header tag (length body)) \<and> cbs = out @ rest)"
  by (rule element_iff)

text \<open>
  No encoding is a prefix of another: an element cut short anywhere is refused. (The
  comment in \<open>compare_set_of_element\<close> relies on it.)
\<close>

theorem truncated_element_refused:
  assumes "CBS_get_any_asn1_element cbs = (Some (out, tag, header_len), rest)" "k < length out"
  shows "fst (CBS_get_any_asn1_element (take k cbs)) = None"
proof (rule ccontr)
  assume "fst (CBS_get_any_asn1_element (take k cbs)) \<noteq> None"
  then obtain out' tag' hl' r' where 1: "CBS_get_any_asn1_element (take k cbs) = (Some (out', tag', hl'), r')"
    by (metis not_None_eq prod.collapse prod_cases3)
  have "is_element out" "is_element out'" "cbs = out @ rest" "take k cbs = out' @ r'"
    using assms(1) 1 by (auto simp: element_iff is_element_def)
  moreover have "cbs = out' @ r' @ drop k cbs"
    using calculation(4) by (metis append.assoc append_take_drop_id)
  ultimately have "out = out' \<and> rest = r' @ drop k cbs"
    by (intro element.enc_append_inject) (assumption | metis)+
  then have "out = out'" ..
  moreover have "length out' \<le> k"
    using \<open>take k cbs = out' @ r'\<close> by (metis le_add1 length_append length_take min.cobounded2 order_trans)
  ultimately show False using assms(2) by simp
qed

theorem truncated_element_refused_witness:
  "fst (CBS_get_any_asn1_element (take 2 [0x04, 0x01, 0xff])) = None"
  by (rule truncated_element_refused [of _ "[0x04, 0x01, 0xff]" "0x04" 2 "[]"]) code_simp+

text \<open>Identifier octets are read in their one canonical form, high tag numbers included.\<close>

theorem asn1_tag_canonical: "parse_asn1_tag cbs = (Some tag, rest) \<longleftrightarrow> cbs = der_tag_bytes tag @ rest"
  by (rule parse_asn1_tag_iff)

text \<open>
  An INTEGER is accepted by \<open>CBS_get_asn1_int64\<close> exactly when its contents are minimal and
  take at most eight bytes, and the value is their two's complement value.
\<close>

theorem asn1_int64_value:
  "CBS_get_asn1_int64 cbs = (Some v, rest) \<longleftrightarrow>
    (\<exists>body. cbs = der_element CBS_ASN1_INTEGER body @ rest \<and> minimal_int body \<and>
       length body \<le> 8 \<and> sint v = twos_val body)"
  unfolding CBS_get_asn1_int64_iff by (rule ex_cong1) auto

text \<open>\<open>CBS_get_asn1_uint64\<close> accepts the minimal, non-negative integers below \<open>2^64\<close>.\<close>

theorem asn1_uint64_value:
  "CBS_get_asn1_uint64 cbs = (Some v, rest) \<longleftrightarrow>
    (\<exists>body. length body < 2 ^ 32 \<and> cbs = der_element CBS_ASN1_INTEGER body @ rest \<and>
       minimal_int body \<and> unat (body ! 0) < 128 \<and> be_val body = unat v)"
  by (rule CBS_get_asn1_uint64_iff)

section \<open>Writing\<close>

text \<open>
  C4: a flush refines closing the frames of the abstract document: every open child below the
  handle gets its length prefix, contents are moved where a DER length needs more bytes, the
  rest of the document is unchanged; a failure leaves an unusable builder, and there is none
  while the buffer can grow.
\<close>

theorem CBB_flush_refines: "refines al (CBB_flush al d) (update_at d (\<lambda>contents. (contents, [])))"
  using refines_flush [of al d] by (simp add: append_at_def)

text \<open>C8: \<open>CBB_add_asn1\<close> closes deeper children, writes the tag and opens a child for the contents.\<close>

theorem CBB_add_asn1_refines:
  "refines al (CBB_add_asn1 al d tag)
    (update_at d (\<lambda>contents. (contents @ der_tag_bytes tag, [(Asn1, [])])))"
  by (rule refines_cong [OF refines_add_asn1]) (rule append_open)

text \<open>
  C5: every state reachable from \<open>CBB_init\<close> or \<open>CBB_init_fixed\<close> by any operations of \<open>cbb.c\<close> and the writers of
  \<open>unicode.c\<close> (\<open>cbb_op\<close>), through any handles, with any behaviour of the allocator, either stands for a document
  or is a failed builder.
\<close>

theorem cbb_invariant:
  assumes "cbb_reachable initial_capacity s" "initial_capacity < 2 ^ 64"
  shows "failed s \<or> (\<exists>D. builds s D)"
  using reachable_alive [OF assms] by (simp add: usable_def)

theorem cbb_invariant_witness:
  "failed (CBB_zero\<lparr>base := Some \<lparr>buf = [], len = 0, can_resize = True, error = False\<rparr>\<rparr>) \<or>
   (\<exists>D. builds (CBB_zero\<lparr>base := Some \<lparr>buf = [], len = 0, can_resize = True, error = False\<rparr>\<rparr>) D)"
  by (rule cbb_invariant [of 0])
    (auto intro!: cbb_reachable.init [of "\<lambda>_. True"] simp: CBB_init_def cbb_init_def)

text \<open>
  C9: errors are sticky: on a failed builder every operation that writes, \<open>CBB_flush\<close> and \<open>CBB_finish\<close> return 0 and
  change nothing, and no operation at all makes the builder usable again, so a caller may check the last result only.
\<close>

theorem cbb_error_sticky:
  assumes "failed s"
  shows "failed (snd (cbb_exec al d op s)) \<and> (writes_op op \<longrightarrow> cbb_exec al d op s = (False, s))"
  using failed_exec [OF assms] failed_stays [OF assms, of al d op] by (metis prod.collapse)

theorem cbb_error_sticky_witness:
  "cbb_exec (\<lambda>_. True) 0 (Add_u8 7) CBB_zero = (False, CBB_zero)"
  using cbb_error_sticky [of CBB_zero "\<lambda>_. True" 0 "Add_u8 7"] by (simp add: failed_def CBB_zero_def)

text \<open>
  A list of 16-bit values written behind a 16-bit length prefix, as in the vectors of TLS,
  is read back by \<open>CBS_get_u16_length_prefixed\<close> and \<open>CBS_get_u16\<close>.
\<close>

theorem u16_vector_roundtrip:
  assumes "CBB_build al n (write_vector al (write_all (CBB_add_u16 al 1) vs)) = Some out"
    and "vs \<noteq> []" "length vs < 2 ^ 15" "n < 2 ^ 64"
  shows "\<exists>body. CBS_get_u16_length_prefixed out = (Some body, []) \<and>
    read_all (length body) CBS_get_u16 body = Some vs"
proof -
  have "length (concat (map (\<lambda>v :: u16. be_bytes 2 (unat v)) vs)) = 2 * length vs"
    by (induction vs) simp_all
  with assms show ?thesis by (intro u16c.build_vector) simp_all
qed

theorem u16_vector_roundtrip_witness:
  "\<exists>body. CBS_get_u16_length_prefixed [0, 4, 0x12, 0x34, 0xab, 0xcd] = (Some body, []) \<and>
    read_all (length body) CBS_get_u16 body = Some [0x1234, 0xabcd]"
proof (rule u16_vector_roundtrip [of "\<lambda>_. True" 0])
  have "be_bytes 2 (Suc (Suc (Suc (Suc 0)))) = [0, 4]" "be_bytes 2 0x1234 = [0x12, 0x34]" "be_bytes 2 0xabcd = [0xab, 0xcd]"
    by (rule be_bytes_eqI; simp add: be_val_def)+
  then show "CBB_build (\<lambda>_. True) 0 (write_vector (\<lambda>_. True)
      (write_all (CBB_add_u16 (\<lambda>_. True) 1) [0x1234, 0xabcd])) = Some [0, 4, 0x12, 0x34, 0xab, 0xcd]"
    using u16c.build_vector_total [of "[0x1234, 0xabcd]" 0 "\<lambda>_. True"] by simp
qed simp_all

text \<open>
  C6: \<open>CBS_get_asn1_int64\<close> accepts exactly the bytes \<open>CBB_add_asn1_int64\<close> writes for the value
  it returns, negative values and the sign padding included.
\<close>

theorem asn1_int64_roundtrip:
  "CBS_get_asn1_int64 cbs = (Some v, rest) \<longleftrightarrow>
    (\<exists>out. CBB_build (\<lambda>_. True) 0 (CBB_add_asn1_int64 (\<lambda>_. True) 0 v) = Some out \<and> cbs = out @ rest)"
proof -
  have "length (der_element CBS_ASN1_INTEGER (int64_out v)) < size_lim"
    using int64_out_props(3) [of v] der_header_length(2) [of CBS_ASN1_INTEGER "length (int64_out v)"]
    by (simp add: der_element_def)
  then have "CBB_build (\<lambda>_. True) 0 (CBB_add_asn1_int64 (\<lambda>_. True) 0 v) =
      Some (der_element CBS_ASN1_INTEGER (int64_out v))"
    by (intro int64w.build_one_total) simp_all
  then show ?thesis using int64c.dec_iff by simp
qed

text \<open>
  Building an OCTET STRING succeeds for contents up to \<open>0xfffffffe\<close> bytes when memory is
  available, and \<open>CBS_get_asn1\<close> gives the contents back.
\<close>

theorem octet_string_roundtrip:
  assumes "length data \<le> 0xfffffffe" "\<forall>m. al m"
  shows "\<exists>out. CBB_build al 0 (CBB_add_asn1_octet_string al 0 data) = Some out \<and>
    CBS_get_asn1 CBS_ASN1_OCTETSTRING (out @ rest) = (Some data, rest)"
proof -
  have "length (der_element CBS_ASN1_OCTETSTRING data) < size_lim"
    using assms(1) der_header_length(2) [of CBS_ASN1_OCTETSTRING "length data"] by (simp add: der_element_def)
  with assms show ?thesis
    using octetw.build_one_total [of data 0 al] octetw.dec_enc [of data rest] by simp
qed

theorem octet_string_roundtrip_witness:
  "\<exists>out. CBB_build (\<lambda>_. True) 0 (CBB_add_asn1_octet_string (\<lambda>_. True) 0 [1, 2]) = Some out \<and>
    CBS_get_asn1 CBS_ASN1_OCTETSTRING (out @ [9]) = (Some [1, 2], [9])"
  by (rule octet_string_roundtrip) simp_all

text \<open>
  C7: \<open>CBB_flush_asn1_set_of\<close> leaves the elements the child held, each once, in ascending
  lexicographic order of their encodings, and changes nothing else.
\<close>

theorem set_of_sorted:
  assumes "builds s D" "CBB_flush_asn1_set_of al d s = (True, s')"
  shows "\<exists>s1 es es' D'. CBB_flush al d s = (True, s1) \<and> CBB_data d s1 = concat es \<and>
    list_all is_element es \<and> mset es' = mset es \<and> sorted es' \<and>
    update_at d (\<lambda>_. (concat es', [])) D = Some D' \<and> builds s' D'"
proof -
  from set_of_sorts [OF assms] obtain es D' s1 where *: "CBB_flush al d s = (True, s1)"
    "CBB_data d s1 = concat es" "\<forall>e\<in>set es. is_element e"
    "update_at d (\<lambda>_. (concat (qsort compare_set_of_element es), [])) D = Some D'" "builds s' D'" .
  have "sorted (qsort compare_set_of_element es)"
    using set_of_cmp.sorted_qsort [of es] by (simp add: compare_le_iff)
  with * show ?thesis
    by (intro exI [of _ s1] exI [of _ es] exI [of _ "qsort compare_set_of_element es"] exI [of _ D'])
      (simp add: list_all_iff)
qed

theorem set_of_sorted_witness:
  "\<exists>s1 es es' D'. CBB_flush (\<lambda>_. True) 0
      \<lparr>base = Some \<lparr>buf = [2, 1, 5, 2, 1, 3], len = 6, can_resize = True, error = False\<rparr>, children = []\<rparr> = (True, s1) \<and>
    CBB_data 0 s1 = concat es \<and> list_all is_element es \<and> mset es' = mset es \<and> sorted es' \<and>
    update_at 0 (\<lambda>_. (concat es', [])) ([2, 1, 5, 2, 1, 3], []) = Some D' \<and>
    builds \<lparr>base = Some \<lparr>buf = [2, 1, 3, 2, 1, 5], len = 6, can_resize = True, error = False\<rparr>, children = []\<rparr> D'"
proof (rule set_of_sorted)
  show "builds \<lparr>base = Some \<lparr>buf = [2, 1, 5, 2, 1, 3], len = 6, can_resize = True, error = False\<rparr>, children = []\<rparr>
      ([2, 1, 5, 2, 1, 3], [])"
    by (simp add: builds_def wf_buf_def content_def)
  show "CBB_flush_asn1_set_of (\<lambda>_. True) 0
      \<lparr>base = Some \<lparr>buf = [2, 1, 5, 2, 1, 3], len = 6, can_resize = True, error = False\<rparr>, children = []\<rparr> =
    (True, \<lparr>base = Some \<lparr>buf = [2, 1, 3, 2, 1, 5], len = 6, can_resize = True, error = False\<rparr>, children = []\<rparr>)"
  proof -
    have r: "get_element [2, 1, 5, 2, 1, 3] = (Some [2, 1, 5], [2, 1, 3])"
      "get_element [2, 1, 3] = (Some [2, 1, 3], [])" by code_simp+
    have q: "qsort compare_set_of_element [[2, 1, 5], [2, 1, 3]] = [[2, 1, 3], [2, 1, 5]]" by code_simp
    show ?thesis
      by (simp add: CBB_flush_asn1_set_of_def CBB_flush_def CBS_init_def CBB_data_def CBB_len_def content_start_def
          r q CBS_data_def OPENSSL_memdup_def CBB_add_bytes_def flush_then_def buffer_add_bytes_def
          cbb_buffer_add_def cbb_buffer_reserve_def blit_def Let_def)
  qed
qed

section \<open>Constant-time primitives\<close>

text \<open>
  C10: the branch-free comparisons of \<open>crypto/internal.h\<close> give all ones or all zeros, as the
  comparison they stand for is true or false, on every pair of 64-bit words.
\<close>

theorem constant_time_comparisons:
  "constant_time_lt_w a b = (if a < b then -1 else 0) \<and>
   constant_time_ge_w a b = (if b \<le> a then -1 else 0) \<and>
   constant_time_eq_w a b = (if a = b then -1 else 0) \<and>
   constant_time_is_zero_w a = (if a = 0 then -1 else 0) \<and>
   constant_time_eq_8 a b = (if a = b then -1 else 0) \<and>
   constant_time_select_w (constant_time_lt_w a b) x y = (if a < b then x else y)"
  by (simp add: constant_time_masks constant_time_select_w_true)
    (simp add: constant_time_select_w_def value_barrier_w_def)

text \<open>\<open>CRYPTO_memcmp\<close> is zero exactly on equal byte strings.\<close>

theorem CRYPTO_memcmp_equal:
  assumes "n \<le> length a" "n \<le> length b"
  shows "CRYPTO_memcmp a b n = 0 \<longleftrightarrow> take n a = take n b"
  using assms by (simp add: CRYPTO_memcmp_take)

theorem CRYPTO_memcmp_equal_witness:
  "CRYPTO_memcmp [1, 2, 3] [1, 2, 9] 2 = 0 \<longleftrightarrow> take 2 [1, 2, 3] = take 2 [1, 2, 9 :: u8]"
  by (rule CRYPTO_memcmp_equal) simp_all

end
