(* ===== verification/Ber.thy ===== *)
theory Ber
  imports Cbb_Roundtrip
begin

text \<open>
  \<open>crypto/bytestring/ber.c\<close> and \<open>asn1_compat.c\<close>: the conversion of BER to DER, the reader of implicitly
  tagged strings, and the last step of the \<open>i2d\<close> functions. The conversion is related to trees:
  a BER and a DER encoding of the same tree.
\<close>

unbundle bit_operations_syntax

definition kMaxDepth :: nat where "kMaxDepth = 2048"

definition is_string_type :: "u32 \<Rightarrow> bool" where
  "is_string_type tag =
     (tag AND NOT CBS_ASN1_CONSTRUCTED \<in>
        {0x3, 0x4, 0xc, 0x12, 0x13, 0x14, 0x15, 0x16, 0x19, 0x1a, 0x1b, 0x1c, 0x1e})"

text \<open>The test for an indefinite length, on an element with its header.\<close>

definition is_indefinite :: "cbs \<Rightarrow> nat \<Rightarrow> bool" where
  "is_indefinite contents header_len =
     (CBS_len contents = header_len \<and> header_len > 0 \<and> CBS_data contents ! (header_len - 1) = 0x80)"

lemma any_element_consumes:
  "cbs_get_any_asn1_element ber cbs = (Some (out, tag, hl), r) \<Longrightarrow>
    cbs = out @ r \<and> 0 < hl \<and> hl \<le> length out"
proof -
  assume get: "cbs_get_any_asn1_element ber cbs = (Some (out, tag, hl), r)"
  obtain lb h2 where cbs: "cbs = der_tag_bytes tag @ lb # h2" using any_element_cases [OF get] .
  show ?thesis
  proof (cases "lb AND 0x80 = 0")
    case True
    from get show ?thesis by (simp add: cbs any_element_short [OF True] take_element_iff)
  next
    case False
    note eq = get [unfolded any_element_long [OF False refl refl cbs]]
    show ?thesis
    proof (cases "ber \<and> tag AND CBS_ASN1_CONSTRUCTED \<noteq> 0 \<and> unat (lb AND 0x7f) = 0")
      case True
      with eq show ?thesis by (simp add: take_element_iff)
    next
      case no: False
      with eq have "CBS_get_any_asn1_element cbs = (Some (out, tag, hl), r)"
        unfolding CBS_get_any_asn1_element_def any_element_long [OF False refl refl cbs]
        by (simp only: if_False simp_thms)
      from element_sound [OF this] obtain body where "out = der_element tag body"
        "hl = length (der_header tag (length body))" "cbs = out @ r" by blast
      then show ?thesis using der_header_length(1) [of tag "length body"] by (auto simp: der_element_def)
    qed
  qed
qed

lemma get_ber_shorter:
  assumes "CBS_get_any_ber_asn1_element inn = (Some (contents, tag, hl), inn')"
  shows "length inn' < length inn" "CBS_skip hl contents = (ou, contents') \<Longrightarrow> length contents' \<le> length contents \<and> length contents \<le> length inn"
    "CBS_skip hl contents = (Some u, contents') \<Longrightarrow> length contents' < length inn"
  using any_element_consumes [of True inn contents tag hl inn'] assms
  by (auto simp: CBS_get_any_ber_asn1_element_def CBS_skip_def cbs_get_def split: prod.splits option.splits if_splits)

text \<open>
  The loop of \<open>cbs_find_ber\<close>: \<open>found\<close> is what \<open>*ber_found\<close> holds, \<open>None\<close> the return of 0. The variable
  is shared with the recursive calls, each of which clears it.
\<close>

function find_ber_loop :: "nat \<Rightarrow> cbs \<Rightarrow> bool \<Rightarrow> bool option" where
  "find_ber_loop depth inn found =
     (if CBS_len inn > 0 then
        case CBS_get_any_ber_asn1_element inn of
          (None, inn') \<Rightarrow> None
        | (Some (contents, tag, header_len), inn') \<Rightarrow>
            if is_indefinite contents header_len then Some True
            else if tag AND CBS_ASN1_CONSTRUCTED \<noteq> 0 then
              if is_string_type tag then Some True
              else
                (case CBS_skip header_len contents of
                   (None, contents') \<Rightarrow> None
                 | (Some u, contents') \<Rightarrow>
                     if depth + 1 > kMaxDepth then None
                     else case find_ber_loop (depth + 1) contents' False of
                            None \<Rightarrow> None
                          | Some found \<Rightarrow> find_ber_loop depth inn' found)
            else find_ber_loop depth inn' found
      else Some found)"
  by pat_completeness auto
termination
  by (relation "measure (\<lambda>(depth, inn, found). length inn)")
    (auto dest: get_ber_shorter [OF sym] simp: get_ber_shorter(3) [OF sym sym])

declare find_ber_loop.simps [simp del]

definition cbs_find_ber :: "cbs \<Rightarrow> nat \<Rightarrow> bool option" where
  "cbs_find_ber orig_in depth = (if depth > kMaxDepth then None else find_ber_loop depth orig_in False)"

definition is_eoc :: "nat \<Rightarrow> cbs \<Rightarrow> bool" where
  "is_eoc header_len contents = (header_len = 2 \<and> CBS_len contents = 2 \<and> CBS_data contents = [0, 0])"

text \<open>
  The parts of a pass of \<open>cbs_convert_ber\<close>. \<open>convert_open\<close> finds the builder for the contents: its
  depth (\<open>out\<close> has depth \<open>d\<close>) and the string tag its children must have.
\<close>

definition convert_open ::
  "allocator \<Rightarrow> nat \<Rightarrow> u32 \<Rightarrow> u32 \<Rightarrow> cbb \<Rightarrow> bool \<times> nat \<times> u32 \<times> cbb" where
  "convert_open al d string_tag tag s =
     (if string_tag \<noteq> 0 then
        if tag AND NOT CBS_ASN1_CONSTRUCTED \<noteq> string_tag then (False, d, string_tag, s)
        else (True, d, string_tag, s)
      else
        let to_string = (tag AND CBS_ASN1_CONSTRUCTED \<noteq> 0 \<and> is_string_type tag);
            out_tag = (if to_string then tag AND NOT CBS_ASN1_CONSTRUCTED else tag);
            child_string_tag = (if to_string then out_tag else string_tag)
        in case CBB_add_asn1 al d out_tag s of (ok, s) \<Rightarrow> (ok, d + 1, child_string_tag, s))"

text \<open>
  The conversion of the contents, \<open>conv\<close> being the recursive call: the C result, the cursor \<open>in\<close>
  (from which an indefinite-length element is read) and the builder; \<open>None\<close> if the call had no
  result.
\<close>

definition convert_contents ::
  "(cbs \<Rightarrow> bool \<Rightarrow> cbb \<Rightarrow> (bool \<times> cbs \<times> cbb) option) \<Rightarrow> allocator \<Rightarrow> cbs \<Rightarrow> u32 \<Rightarrow> nat \<Rightarrow> cbs \<Rightarrow> nat \<Rightarrow> cbb \<Rightarrow>
    (bool \<times> cbs \<times> cbb) option" where
  "convert_contents conv al contents tag header_len inn d' s =
     (if is_indefinite contents header_len then conv inn True s
      else
        case CBS_skip header_len contents of
          (None, contents) \<Rightarrow> Some (False, inn, s)
        | (Some u, contents) \<Rightarrow>
            if tag AND CBS_ASN1_CONSTRUCTED \<noteq> 0 then
              map_option (\<lambda>(ok, contents, s). (ok, inn, s)) (conv contents False s)
            else case CBB_add_bytes al d' (CBS_data contents) s of (ok, s) \<Rightarrow> Some (ok, inn, s))"

text \<open>
  The loop of \<open>cbs_convert_ber\<close>: the C result, the cursor \<open>in\<close> as the call leaves it, and the
  builder. The fuel bounds the elements read, \<open>None\<close> says that it ran out.
\<close>

primrec convert_loop ::
  "nat \<Rightarrow> allocator \<Rightarrow> cbs \<Rightarrow> nat \<Rightarrow> u32 \<Rightarrow> bool \<Rightarrow> nat \<Rightarrow> cbb \<Rightarrow> (bool \<times> cbs \<times> cbb) option" where
  "convert_loop 0 al inn d string_tag looking_for_eoc depth s = None"
| "convert_loop (Suc fuel) al inn d string_tag looking_for_eoc depth s =
     (if CBS_len inn > 0 then
        case CBS_get_any_ber_asn1_element inn of
          (None, inn) \<Rightarrow> Some (False, inn, s)
        | (Some (contents, tag, header_len), inn) \<Rightarrow>
            if is_eoc header_len contents then Some (looking_for_eoc, inn, s)
            else
              case convert_open al d string_tag tag s of
                (False, d', child_string_tag, s) \<Rightarrow> Some (False, inn, s)
              | (True, d', child_string_tag, s) \<Rightarrow>
                  (case convert_contents
                          (\<lambda>inn eoc s. if depth + 1 > kMaxDepth then Some (False, inn, s)
                                       else convert_loop fuel al inn d' child_string_tag eoc (depth + 1) s)
                          al contents tag header_len inn d' s of
                     None \<Rightarrow> None
                   | Some (False, inn, s) \<Rightarrow> Some (False, inn, s)
                   | Some (True, inn, s) \<Rightarrow>
                       (case CBB_flush al d s of
                          (False, s) \<Rightarrow> Some (False, inn, s)
                        | (True, s) \<Rightarrow> convert_loop fuel al inn d string_tag looking_for_eoc depth s))
      else Some (\<not> looking_for_eoc, inn, s))"

definition cbs_convert_ber ::
  "allocator \<Rightarrow> cbs \<Rightarrow> nat \<Rightarrow> u32 \<Rightarrow> bool \<Rightarrow> nat \<Rightarrow> cbb \<Rightarrow> (bool \<times> cbs \<times> cbb) option" where
  "cbs_convert_ber al inn d string_tag looking_for_eoc depth s =
     (if depth > kMaxDepth then Some (False, inn, s)
      else convert_loop (Suc (CBS_len inn)) al inn d string_tag looking_for_eoc depth s)"

text \<open>
  The result of \<open>CBS_asn1_ber_to_der\<close>: the bytes of \<open>out\<close> and whether they are in a new buffer;
  the second \<open>None\<close> is the return of 0. The cursor is \<open>in\<close> as the call leaves it.
\<close>

definition CBS_asn1_ber_to_der :: "allocator \<Rightarrow> cbs \<Rightarrow> ((bytes \<times> bool) option \<times> cbs) option" where
  "CBS_asn1_ber_to_der al inn =
     (case cbs_find_ber inn 0 of
        None \<Rightarrow> Some (None, inn)
      | Some conversion_needed \<Rightarrow>
          if \<not> conversion_needed then
            (case CBS_get_any_asn1_element inn of
               (None, inn) \<Rightarrow> Some (None, inn)
             | (Some (out, tag, hl), inn) \<Rightarrow> Some (Some (out, False), inn))
          else
            (case CBB_init al (CBS_len inn) of
               None \<Rightarrow> Some (None, inn)
             | Some cbb \<Rightarrow>
                 (case cbs_convert_ber al inn 0 0 False 0 cbb of
                    None \<Rightarrow> None
                  | Some (False, inn, cbb) \<Rightarrow> Some (None, inn)
                  | Some (True, inn, cbb) \<Rightarrow>
                      Some (map_option (\<lambda>out. (out, True)) (fst (CBB_finish al True 0 cbb)), inn))))"

text \<open>The loop that gathers the chunks of a constructed string, and the reader of such strings.\<close>

function chunk_loop :: "allocator \<Rightarrow> u32 \<Rightarrow> cbs \<Rightarrow> cbb \<Rightarrow> bool \<times> cbb" where
  "chunk_loop al inner_tag child s =
     (if CBS_len child > 0 then
        case CBS_get_asn1 inner_tag child of
          (None, child') \<Rightarrow> (False, s)
        | (Some chunk, child') \<Rightarrow>
            (case CBB_add_bytes al 0 (CBS_data chunk) s of
               (False, s) \<Rightarrow> (False, s)
             | (True, s) \<Rightarrow> chunk_loop al inner_tag child' s)
      else (True, s))"
  by pat_completeness auto
termination
proof (relation "measure (\<lambda>(al, inner_tag, child, s). length child)", goal_cases)
  case (2 al inner_tag child s x child' chunk)
  then have "child = der_element inner_tag chunk @ child'" by (metis CBS_get_asn1_iff)
  moreover have "0 < length (der_element inner_tag chunk)" by simp
  ultimately show ?case by simp
qed simp

declare chunk_loop.simps [simp del]

definition CBS_get_asn1_implicit_string ::
  "allocator \<Rightarrow> u32 \<Rightarrow> u32 \<Rightarrow> cbs \<Rightarrow> (bytes \<times> bool) option \<times> cbs" where
  "CBS_get_asn1_implicit_string al outer_tag inner_tag inn =
     (if CBS_peek_asn1_tag inn outer_tag then
        (case CBS_get_asn1 outer_tag inn of
           (None, inn) \<Rightarrow> (None, inn)
         | (Some out, inn) \<Rightarrow> (Some (out, False), inn))
      else
        case CBB_init al (CBS_len inn) of
          None \<Rightarrow> (None, inn)
        | Some result \<Rightarrow>
            (case CBS_get_asn1 (outer_tag OR CBS_ASN1_CONSTRUCTED) inn of
               (None, inn) \<Rightarrow> (None, inn)
             | (Some child, inn) \<Rightarrow>
                 (case chunk_loop al inner_tag child result of
                    (False, result) \<Rightarrow> (None, inn)
                  | (True, result) \<Rightarrow>
                      (map_option (\<lambda>data. (data, True)) (fst (CBB_finish al True 0 result)), inn))))"

text \<open>
  \<open>CBB_finish_i2d\<close>: the return value and the bytes stored through \<open>outp\<close>, either as a new buffer
  (\<open>*outp\<close> was NULL) or at \<open>*outp\<close>, which is then advanced behind them.
\<close>

datatype i2d_out = No_out | New_buffer bytes | Written bytes

definition CBB_finish_i2d :: "allocator \<Rightarrow> cbb \<Rightarrow> bool option \<Rightarrow> int \<times> i2d_out" where
  "CBB_finish_i2d al cbb outp =
     (case CBB_finish al True 0 cbb of
        (None, cbb) \<Rightarrow> (-1, No_out)
      | (Some der, cbb) \<Rightarrow>
          if int (length der) > 2 ^ 31 - 1 then (-1, No_out)
          else (int (length der),
                case outp of
                  None \<Rightarrow> No_out
                | Some star_outp_null \<Rightarrow> if star_outp_null then New_buffer der else Written der))"

lemmas ber_eval = cbs_find_ber_def find_ber_loop.simps kMaxDepth_def is_indefinite_def is_string_type_def CBS_data_def
  CBS_get_any_ber_asn1_element_def CBS_get_any_asn1_element_def cbs_get_any_asn1_element_def parse_asn1_tag_def
  take_element_def reader_defs CBS_len_def CBS_init_def

subsection \<open>The fuel is enough\<close>

lemma get_ber_length: "CBS_get_any_ber_asn1_element inn = (oe, inn') \<Longrightarrow> length inn' \<le> length inn"
  by (cases oe) (auto dest!: get_ber_shorter(1)[THEN less_imp_le] simp: CBS_get_any_ber_asn1_element_def
      cbs_get_any_asn1_element_def take_element_def reader_defs Let_def split: prod.splits option.splits if_splits)

lemma convert_contents_total:
  assumes conv: "\<And>x eoc s. length x < n \<Longrightarrow> \<exists>ok r s'. conv x eoc s = Some (ok, r, s') \<and> length r \<le> length x"
    and get: "CBS_get_any_ber_asn1_element inn = (Some (contents, tag, hl), inn')" and n: "length inn \<le> n"
  shows "\<exists>ok r s'. convert_contents conv al contents tag hl inn' d' s = Some (ok, r, s') \<and> length r < length inn"
proof -
  note sh = get_ber_shorter [OF get]
  obtain ou contents' where sk: "CBS_skip hl contents = (ou, contents')" by fastforce
  have 1: "\<exists>ok r s'. conv inn' True s = Some (ok, r, s') \<and> length r \<le> length inn'"
    using sh(1) n by (intro conv) simp
  have 2: "\<exists>ok r s'. conv contents' False s = Some (ok, r, s')" if "ou = Some u" for u
  proof -
    have "length contents' < n" using sh(3) [OF sk [unfolded that]] n by simp
    from conv [OF this] show ?thesis by blast
  qed
  obtain ok s' where "CBB_add_bytes al d' (CBS_data contents') s = (ok, s')" by fastforce
  with 1 2 sh(1) sk show ?thesis
    by (cases ou) (auto simp: convert_contents_def)
qed

lemma convert_loop_total:
  "length inn < n \<Longrightarrow> \<exists>ok r s'. convert_loop n al inn d st eoc depth s = Some (ok, r, s') \<and> length r \<le> length inn"
proof (induction n arbitrary: inn d st eoc depth s)
  case (Suc n)
  obtain oe inn' where get: "CBS_get_any_ber_asn1_element inn = (oe, inn')" by fastforce
  note le = get_ber_length [OF get]
  show ?case
  proof (cases "CBS_len inn > 0 \<and> oe \<noteq> None")
    case False
    then show ?thesis using le by (cases "CBS_len inn > 0"; cases oe) (auto simp: get)
  next
    case True
    then obtain contents tag hl where e: "oe = Some (contents, tag, hl)" by (cases oe) auto
    obtain ok d' st' s1 where o: "convert_open al d st tag s = (ok, d', st', s1)" by (metis prod.exhaust)
    let ?conv = "\<lambda>inn eoc s. if depth + 1 > kMaxDepth then Some (False, inn, s)
      else convert_loop n al inn d' st' eoc (depth + 1) s"
    have conv: "\<exists>ok r s'. ?conv x eoc s = Some (ok, r, s') \<and> length r \<le> length x" if "length x < n" for x eoc s
      using Suc.IH [OF that, of d' st' eoc "depth + 1" s] by (cases "depth + 1 > kMaxDepth") auto
    have n: "length inn \<le> n" using Suc.prems by simp
    have "\<exists>ok r s'. convert_contents ?conv al contents tag hl inn' d' s1 = Some (ok, r, s') \<and> length r < length inn"
      by (rule convert_contents_total [OF _ get [unfolded e] n]) (rule conv)
    then obtain ok2 r s2 where c: "convert_contents ?conv al contents tag hl inn' d' s1 = Some (ok2, r, s2)"
      "length r < length inn" by blast
    obtain ok3 s3 where f: "CBB_flush al d s2 = (ok3, s3)" by fastforce
    have "\<exists>ok q s'. convert_loop n al r d st eoc depth s3 = Some (ok, q, s') \<and> length q \<le> length r"
      using c(2) Suc.prems by (intro Suc.IH) simp
    then show ?thesis
      using True le c f by (cases ok; cases ok2; cases ok3) (fastforce simp: get e o)+
  qed
qed simp

text \<open>
  C40: the conversion of BER to DER ends on every input, however deep or malformed.
\<close>

theorem ber_to_der_terminates: "CBS_asn1_ber_to_der al inn \<noteq> None"
proof -
  have "\<exists>ok r s'. cbs_convert_ber al inn 0 0 False 0 s = Some (ok, r, s')" for s
    using convert_loop_total [of inn "Suc (CBS_len inn)" al 0 0 False 0 s]
    by (auto simp: cbs_convert_ber_def CBS_len_def)
  then show ?thesis
    by (auto simp: CBS_asn1_ber_to_der_def split: option.splits prod.splits bool.splits)
      (metis option.distinct(1))+
qed

subsection \<open>Trees\<close>

text \<open>An element as a tree; the flag of \<open>Node\<close> says that its length is indefinite.\<close>

datatype ber = Leaf u32 bytes | Node bool u32 "ber list"

fun ber_bytes :: "ber \<Rightarrow> bytes" where
  "ber_bytes (Leaf tag body) = der_element tag body"
| "ber_bytes (Node indef tag ts) =
     (if indef then der_tag_bytes tag @ [0x80] @ concat (map ber_bytes ts) @ [0, 0]
      else der_element tag (concat (map ber_bytes ts)))"

text \<open>The tag under which an element is written, and the string tag its children have to match.\<close>

definition out_tag :: "u32 \<Rightarrow> u32" where
  "out_tag tag = (if is_string_type tag then tag AND NOT CBS_ASN1_CONSTRUCTED else tag)"

definition child_tag :: "u32 \<Rightarrow> u32 \<Rightarrow> u32" where
  "child_tag st tag = (if st \<noteq> 0 then st else if is_string_type tag then out_tag tag else 0)"

text \<open>The DER of a tree; below a constructed string (\<open>st\<close> is not 0) only the contents.\<close>

fun ber_der :: "u32 \<Rightarrow> ber \<Rightarrow> bytes" where
  "ber_der st (Leaf tag body) = (if st \<noteq> 0 then body else der_element tag body)"
| "ber_der st (Node indef tag ts) =
     (let body = concat (map (ber_der (child_tag st tag)) ts)
      in if st \<noteq> 0 then body else der_element (out_tag tag) body)"

fun ber_wf :: "u32 \<Rightarrow> ber \<Rightarrow> bool" where
  "ber_wf st (Leaf tag body) \<longleftrightarrow>
     tag AND CBS_ASN1_CONSTRUCTED = 0 \<and> (st \<noteq> 0 \<longrightarrow> tag AND NOT CBS_ASN1_CONSTRUCTED = st)"
| "ber_wf st (Node indef tag ts) \<longleftrightarrow>
     tag AND CBS_ASN1_CONSTRUCTED \<noteq> 0 \<and> (st \<noteq> 0 \<longrightarrow> tag AND NOT CBS_ASN1_CONSTRUCTED = st) \<and>
     (\<forall>t\<in>set ts. ber_wf (child_tag st tag) t)"

abbreviation forest_der :: "u32 \<Rightarrow> ber list \<Rightarrow> bytes" where
  "forest_der st ts \<equiv> concat (map (ber_der st) ts)"

abbreviation forest_bytes :: "ber list \<Rightarrow> bytes" where
  "forest_bytes ts \<equiv> concat (map ber_bytes ts)"

text \<open>The document the conversion of a list of trees makes.\<close>

definition forest_at :: "nat \<Rightarrow> u32 \<Rightarrow> ber list \<Rightarrow> doc \<Rightarrow> doc option" where
  "forest_at d st ts = (if ts = [] then Some else append_at d (forest_der st ts))"

lemma forest_at_Cons:
  "append_at d (ber_der st t) D = Some D1 \<Longrightarrow> forest_at d st ts D1 = Some D2 \<Longrightarrow> forest_at d st (t # ts) D = Some D2"
  using append_append [of d "ber_der st t" D "forest_der st ts"]
  by (auto simp: forest_at_def split: if_splits)

lemma append_open_child: "open_at d k D = Some D1 \<Longrightarrow> append_at (Suc d) [] D1 = Some D1"
  unfolding open_at_def append_at_def
proof (induction d "\<lambda>zs. (zs, [(k, [] :: bytes)]) :: doc" D arbitrary: D1 rule: update_at.induct)
  case (1 xs fs)
  then show ?case by auto
next
  case (3 d xs k' ys fs)
  then obtain E where E: "update_at d (\<lambda>zs. (zs, [(k, [])])) (ys, fs) = Some E" "D1 = (xs, (k', fst E) # snd E)"
    by (auto simp: case_prod_unfold)
  from "3.hyps" [OF E(1)] E(2) show ?case by (simp add: case_prod_unfold)
qed simp

lemma forest_in_child:
  assumes "open_at d k D = Some D1" "forest_at (Suc d) st ts D1 = Some D2"
  shows "append_at (Suc d) (forest_der st ts) D1 = Some D2"
  using assms append_open_child by (auto simp: forest_at_def split: if_splits)

lemma element_written:
  assumes "append_at d (der_tag_bytes tag) D = Some D0" "open_at d Asn1 D0 = Some D1"
    "append_at (Suc d) body D1 = Some D2" "append_at d [] D2 = Some D3"
  shows "append_at d (der_element tag body) D = Some D3"
  using write_child [of d "der_tag_bytes tag" D Asn1 body "[]"] assms
  by (auto simp: der_element_def der_header_def split: if_splits)

lemma multiple_of_128: "128 \<le> n \<Longrightarrow> n mod 128 = 0 \<Longrightarrow> n < 256 \<Longrightarrow> n = (128 :: nat)"
  by (elim dvdE [OF mod_0_imp_dvd]) auto

lemma get_ber_cases:
  assumes "CBS_get_any_ber_asn1_element inn = (Some (contents, tag, hl), inn')"
  obtains (indef) "is_indefinite contents hl" "tag AND CBS_ASN1_CONSTRUCTED \<noteq> 0" "inn = der_tag_bytes tag @ [0x80] @ inn'"
  | (element) body where "\<not> is_indefinite contents hl" "der_body_ok body" "contents = der_element tag body"
      "CBS_skip hl contents = (Some (), body)" "inn = der_element tag body @ inn'"
proof -
  note get = assms [unfolded CBS_get_any_ber_asn1_element_def]
  obtain lb h2 where cbs: "inn = der_tag_bytes tag @ lb # h2" using any_element_cases [OF get] .
  let ?h = "Suc (length (der_tag_bytes tag))"
  show thesis
  proof (cases "lb AND 0x80 \<noteq> 0 \<and> tag AND CBS_ASN1_CONSTRUCTED \<noteq> 0 \<and> unat (lb AND 0x7f) = 0")
    case True
    then have "128 \<le> unat lb" "unat lb mod 128 = 0" by (simp_all add: and_0x80_iff unat_and_0x7f)
    moreover have "unat lb < 256" by simp
    ultimately have "unat lb = 128" by (rule multiple_of_128)
    then have lb: "lb = 0x80" by (simp add: word_unat_eq_iff)
    have "take_element ?h tag ?h inn = (Some (contents, tag, hl), inn')"
      using get True unfolding any_element_long [OF True [THEN conjunct1] refl refl cbs] by (simp only: simp_thms if_True)
    then have "contents = der_tag_bytes tag @ [lb]" "hl = length contents" "inn = contents @ inn'"
      using append_longer_split [of "der_tag_bytes tag @ [lb]" h2 contents inn']
      by (auto simp: take_element_iff cbs)
    with True lb indef show thesis by (auto simp: is_indefinite_def CBS_len_def CBS_data_def)
  next
    case False
    have "CBS_get_any_asn1_element inn = (Some (contents, tag, hl), inn')"
    proof (cases "lb AND 0x80 = 0")
      case True
      with get show ?thesis by (simp add: CBS_get_any_asn1_element_def cbs any_element_short)
    next
      case long: False
      with False have "\<not> (tag AND CBS_ASN1_CONSTRUCTED \<noteq> 0 \<and> unat (lb AND 0x7f) = 0)" by blast
      with get show ?thesis
        unfolding CBS_get_any_asn1_element_def any_element_long [OF long refl refl cbs]
        by (simp only: if_False simp_thms)
    qed
    from element_sound [OF this] obtain body where b: "der_body_ok body" "contents = der_element tag body"
      "hl = length (der_header tag (length body))" "inn = contents @ inn'" by blast
    have "\<not> is_indefinite contents hl"
      using b(2,3) by (auto simp: is_indefinite_def CBS_len_def CBS_data_def der_element_def der_header_def
          der_len_bytes_def nth_append)
    with b element show thesis by simp
  qed
qed

subsection \<open>What a successful conversion wrote\<close>

text \<open>One element: its tree with the document below it, and the steps around the contents.\<close>

fun written_at :: "nat \<Rightarrow> u32 \<Rightarrow> ber \<Rightarrow> doc \<Rightarrow> doc option" where
  "written_at d st (Leaf tag body) = append_at d body"
| "written_at d st (Node indef tag ts) = forest_at d st ts"

fun below_wf :: "u32 \<Rightarrow> u32 \<Rightarrow> ber \<Rightarrow> bool" where
  "below_wf st tag (Leaf tag' body) \<longleftrightarrow> tag' = tag \<and> tag AND CBS_ASN1_CONSTRUCTED = 0"
| "below_wf st tag (Node indef tag' ts) \<longleftrightarrow> tag' = tag \<and> tag AND CBS_ASN1_CONSTRUCTED \<noteq> 0 \<and> (\<forall>t\<in>set ts. ber_wf st t)"

text \<open>What the proof assumes of the recursive calls: they read a forest and write its contents.\<close>

definition converts :: "(nat \<Rightarrow> u32 \<Rightarrow> cbs \<Rightarrow> bool \<Rightarrow> cbb \<Rightarrow> (bool \<times> cbs \<times> cbb) option) \<Rightarrow> bool" where
  "converts conv \<longleftrightarrow> (\<forall>d st x eoc s r s' D. conv d st x eoc s = Some (True, r, s') \<longrightarrow> builds s D \<longrightarrow> length x < size_lim \<longrightarrow>
     (\<exists>ts D'. (\<forall>t\<in>set ts. ber_wf st t) \<and> x = forest_bytes ts @ (if eoc then [0, 0] @ r else []) \<and> (eoc \<or> r = []) \<and>
        forest_at d st ts D = Some D' \<and> builds s' D'))"

lemma convertsD:
  assumes "converts conv" "conv d st x eoc s = Some (True, r, s')" "builds s D" "length x < size_lim"
  obtains ts D' where "\<forall>t\<in>set ts. ber_wf st t" "x = forest_bytes ts @ (if eoc then [0, 0] @ r else [])" "eoc \<or> r = []"
    "forest_at d st ts D = Some D'" "builds s' D'"
  using assms unfolding converts_def by blast

lemma convert_contents_sound:
  assumes conv: "converts conv"
    and get: "CBS_get_any_ber_asn1_element inn = (Some (contents, tag, hl), inn')"
    and run: "convert_contents (conv d st) al contents tag hl inn' d s = Some (True, r, s')"
    and B: "builds s D" and lim: "length inn < size_lim"
  obtains t D' where "below_wf st tag t" "inn = ber_bytes t @ r" "written_at d st t D = Some D'" "builds s' D'"
  using get
proof (cases rule: get_ber_cases)
  case indef
  with run have c: "conv d st inn' True s = Some (True, r, s')" by (simp add: convert_contents_def)
  have "length inn' < size_lim" using get_ber_length [OF get] lim by simp
  from convertsD [OF conv c B this] obtain ts D' where ts: "\<forall>t\<in>set ts. ber_wf st t" "inn' = forest_bytes ts @ [0, 0] @ r"
    "forest_at d st ts D = Some D'" "builds s' D'" unfolding if_True by blast
  then show thesis using that [of "Node True tag ts" D'] indef by simp
next
  case (element body)
  have lim': "length body < size_lim" using element(5) lim by (simp add: der_element_def)
  show thesis
  proof (cases "tag AND CBS_ASN1_CONSTRUCTED \<noteq> 0")
    case True
    with run element(1,4) have "map_option (\<lambda>(ok, contents, s). (ok, inn', s)) (conv d st body False s) = Some (True, r, s')"
      by (simp add: convert_contents_def)
    then obtain r1 where c: "conv d st body False s = Some (True, r1, s')" and r: "r = inn'" by auto
    from conv c B lim' obtain ts D' where ts: "\<forall>t\<in>set ts. ber_wf st t" "body = forest_bytes ts"
      "forest_at d st ts D = Some D'" "builds s' D'" by (rule convertsD) (rule that, assumption, simp, assumption+)
    have "inn = ber_bytes (Node False tag ts) @ r"
      using element(5) unfolding ber_bytes.simps if_False ts(2) r .
    moreover have "below_wf st tag (Node False tag ts)" using True ts(1) by simp
    moreover have "written_at d st (Node False tag ts) D = Some D'" using ts(3) by simp
    ultimately show thesis using that ts(4) by blast
  next
    case False
    with run element(1,4) have a: "CBB_add_bytes al d body s = (True, s')" and r: "r = inn'"
      by (auto simp: convert_contents_def CBS_data_def split: prod.splits)
    from refines_ok [OF refines_bytes [OF lim'] B a] obtain D' where "append_at d body D = Some D'" "builds s' D'" .
    then show thesis using that [of "Leaf tag body" D'] False element(5) r by simp
  qed
qed

lemma convert_open_sound:
  assumes o: "convert_open al d st tag s = (True, d', st', s1)" and B: "builds s D"
  obtains D1 where "builds s1 D1"
    "\<And>t s2 D2 s3. below_wf st' tag t \<Longrightarrow> written_at d' st' t D1 = Some D2 \<Longrightarrow> builds s2 D2 \<Longrightarrow>
      CBB_flush al d s2 = (True, s3) \<Longrightarrow> \<exists>D3. ber_wf st t \<and> append_at d (ber_der st t) D = Some D3 \<and> builds s3 D3"
proof (cases "st = 0")
  case False
  with o have o': "d' = d" "st' = st" "s1 = s" "tag AND NOT CBS_ASN1_CONSTRUCTED = st"
    by (auto simp: convert_open_def split: if_splits)
  have "\<exists>D3. ber_wf st t \<and> append_at d (ber_der st t) D = Some D3 \<and> builds s3 D3"
    if t: "below_wf st tag t" and w: "written_at d st t D = Some D2" "builds s2 D2" and f: "CBB_flush al d s2 = (True, s3)"
    for t s2 D2 s3
  proof -
    from refines_ok [OF refines_flush w(2) f] obtain D3 where D3: "append_at d [] D2 = Some D3" "builds s3 D3" .
    have "append_at d (ber_der st t) D = Some D3"
      using w(1) D3(1) False append_append [of d "ber_der st t" D "[]"]
      by (cases t) (auto simp: forest_at_def child_tag_def split: if_splits)
    moreover have "ber_wf st t" using t o'(4) False by (cases t) (auto simp: child_tag_def)
    ultimately show ?thesis using D3(2) by blast
  qed
  then show thesis using that [of D] B unfolding o' by blast
next
  case True
  let ?out = "if tag AND CBS_ASN1_CONSTRUCTED \<noteq> 0 then out_tag tag else tag"
  from o True have o': "CBB_add_asn1 al d ?out s = (True, s1)" "d' = Suc d"
    "st' = (if tag AND CBS_ASN1_CONSTRUCTED \<noteq> 0 then child_tag 0 tag else 0)"
    by (auto simp: convert_open_def out_tag_def child_tag_def Let_def split: if_splits prod.splits)
  from refines_ok [OF refines_add_asn1 B o'(1)] obtain D1 where
    "Option.bind (append_at d (der_tag_bytes ?out) D) (open_at d Asn1) = Some D1" and D1: "builds s1 D1" .
  then obtain D0 where D: "append_at d (der_tag_bytes ?out) D = Some D0" "open_at d Asn1 D0 = Some D1"
    unfolding bind_eq_Some_conv by blast
  have "\<exists>D3. ber_wf st t \<and> append_at d (ber_der st t) D = Some D3 \<and> builds s3 D3"
    if t: "below_wf st' tag t" and w: "written_at d' st' t D1 = Some D2" "builds s2 D2" and f: "CBB_flush al d s2 = (True, s3)"
    for t s2 D2 s3
  proof -
    from refines_ok [OF refines_flush w(2) f] obtain D3 where D3: "append_at d [] D2 = Some D3" "builds s3 D3" .
    note elt = element_written [OF D _ D3(1)]
    have "append_at d (ber_der st t) D = Some D3"
    proof (cases t)
      case (Leaf tag' body)
      with t w(1) o'(2) elt [of body] show ?thesis by (simp add: True)
    next
      case (Node indef tag' ts)
      with w(1) o'(2,3) t have "forest_at (Suc d) (child_tag 0 tag) ts D1 = Some D2" by simp
      from elt [OF forest_in_child [OF D(2) this]] show ?thesis
        using t Node by (simp add: True Let_def)
    qed
    moreover have "ber_wf st t" using t True o'(3) by (cases t) auto
    ultimately show ?thesis using D3(2) by blast
  qed
  with that [OF D1] show thesis by blast
qed

lemma ber_element_sound:
  assumes conv: "converts conv" and get: "CBS_get_any_ber_asn1_element inn = (Some (contents, tag, hl), inn')"
    and o: "convert_open al d st tag s = (True, d', st', s1)"
    and run: "convert_contents (conv d' st') al contents tag hl inn' d' s1 = Some (True, r, s2)"
    and f: "CBB_flush al d s2 = (True, s3)" and B: "builds s D" and lim: "length inn < size_lim"
  obtains t D' where "ber_wf st t" "inn = ber_bytes t @ r" "append_at d (ber_der st t) D = Some D'" "builds s3 D'"
proof -
  obtain D1 where D1: "builds s1 D1" and close:
    "\<And>t s2 D2 s3. below_wf st' tag t \<Longrightarrow> written_at d' st' t D1 = Some D2 \<Longrightarrow> builds s2 D2 \<Longrightarrow>
      CBB_flush al d s2 = (True, s3) \<Longrightarrow> \<exists>D3. ber_wf st t \<and> append_at d (ber_der st t) D = Some D3 \<and> builds s3 D3"
    by (rule convert_open_sound [OF o B]) (rule that, assumption+)
  obtain t D2 where t: "below_wf st' tag t" "inn = ber_bytes t @ r" "written_at d' st' t D1 = Some D2" "builds s2 D2"
    by (rule convert_contents_sound [OF conv get run D1 lim])
  from close [OF t(1,3,4) f] t(2) show thesis using that by blast
qed

lemma eoc_read: "CBS_get_any_ber_asn1_element inn = (Some (contents, tag, hl), inn') \<Longrightarrow> is_eoc hl contents \<Longrightarrow> inn = [0, 0] @ inn'"
  using any_element_consumes [of True inn contents tag hl inn']
  by (simp add: CBS_get_any_ber_asn1_element_def is_eoc_def CBS_data_def)

lemma convert_loop_step:
  assumes run: "convert_loop (Suc n) al inn d st eoc depth s = Some (True, r, s')" and ne: "inn \<noteq> []"
  obtains (eoc) contents tag hl where "CBS_get_any_ber_asn1_element inn = (Some (contents, tag, hl), r)"
      "is_eoc hl contents" "eoc" "s' = s"
  | (element) contents tag hl inn' d' st' s1 q s2 s3 where
      "CBS_get_any_ber_asn1_element inn = (Some (contents, tag, hl), inn')"
      "convert_open al d st tag s = (True, d', st', s1)"
      "convert_contents (\<lambda>inn eoc s. if depth + 1 > kMaxDepth then Some (False, inn, s)
           else convert_loop n al inn d' st' eoc (depth + 1) s) al contents tag hl inn' d' s1 = Some (True, q, s2)"
      "CBB_flush al d s2 = (True, s3)" "convert_loop n al q d st eoc depth s3 = Some (True, r, s')"
proof -
  obtain oe inn' where get: "CBS_get_any_ber_asn1_element inn = (oe, inn')" by fastforce
  with run ne obtain contents tag hl where e: "oe = Some (contents, tag, hl)"
    by (cases oe) (auto simp: CBS_len_def)
  show thesis
  proof (cases "is_eoc hl contents")
    case True
    with run ne get e eoc show thesis by (auto simp: CBS_len_def)
  next
    case False
    obtain ok d' st' s1 where o: "convert_open al d st tag s = (ok, d', st', s1)" by (metis prod.exhaust)
    let ?c = "convert_contents (\<lambda>inn eoc s. if depth + 1 > kMaxDepth then Some (False, inn, s)
           else convert_loop n al inn d' st' eoc (depth + 1) s) al contents tag hl inn' d' s1"
    from run ne get e False o have ok: "ok" by (cases ok) (auto simp: CBS_len_def)
    with run ne get e False o obtain ok2 q s2 where c: "?c = Some (ok2, q, s2)"
      by (cases ?c) (auto simp: CBS_len_def)
    with run ne get e False o ok have ok2 by (cases ok2) (auto simp: CBS_len_def)
    obtain ok3 s3 where f: "CBB_flush al d s2 = (ok3, s3)" by fastforce
    with run ne get e False o ok c \<open>ok2\<close> have "ok3" by (cases ok3) (auto simp: CBS_len_def)
    with run ne get e False o ok c \<open>ok2\<close> f have "convert_loop n al q d st eoc depth s3 = Some (True, r, s')"
      by (simp add: CBS_len_def)
    from element [OF get [unfolded e] _ _ _ this] o ok c \<open>ok2\<close> f \<open>ok3\<close> show thesis by simp
  qed
qed

lemma forest_at_closed: "forest_at d st ts D = Some D' \<Longrightarrow> d = 0 \<Longrightarrow> D = (xs, []) \<Longrightarrow> D' = (xs @ forest_der st ts, [])"
  by (auto simp: forest_at_def append_at_0_Some close_doc_def split: if_splits)

lemma convert_loop_sound:
  "convert_loop n al inn d st eoc depth s = Some (True, r, s') \<Longrightarrow> builds s D \<Longrightarrow> length inn < size_lim \<Longrightarrow>
   \<exists>ts D'. (\<forall>t\<in>set ts. ber_wf st t) \<and> inn = forest_bytes ts @ (if eoc then [0, 0] @ r else []) \<and> (eoc \<or> r = []) \<and>
     forest_at d st ts D = Some D' \<and> builds s' D'"
proof (induction n arbitrary: inn d st eoc depth s r s' D)
  case (Suc n)
  show ?case
  proof (cases "inn = []")
    case True
    with Suc.prems show ?thesis by (intro exI [of _ "[]"] exI [of _ D]) (simp add: CBS_len_def forest_at_def)
  next
    case False
    from Suc.prems(1) this show ?thesis
    proof (cases rule: convert_loop_step)
      case (eoc contents tag hl)
      with Suc.prems(2) eoc_read [OF eoc(1,2)] show ?thesis
        by (intro exI [of _ "[]"] exI [of _ D]) (simp add: forest_at_def)
    next
      case (element contents tag hl inn' d' st' s1 q s2 s3)
      let ?conv = "\<lambda>d st inn eoc s. if depth + 1 > kMaxDepth then Some (False, inn, s)
         else convert_loop n al inn d st eoc (depth + 1) s"
      have conv: "converts ?conv"
        unfolding converts_def by (intro allI impI, rule Suc.IH) (auto split: if_splits)
      obtain t D1 where t: "ber_wf st t" "inn = ber_bytes t @ q" "append_at d (ber_der st t) D = Some D1" "builds s3 D1"
        by (rule ber_element_sound [OF conv element(1,2) _ element(4) Suc.prems(2,3)]) (rule element(3))
      have "length q < size_lim" using t(2) Suc.prems(3) by simp
      from Suc.IH [OF element(5) t(4) this] obtain ts D' where ts: "\<forall>t\<in>set ts. ber_wf st t"
        "q = forest_bytes ts @ (if eoc then [0, 0] @ r else [])" "eoc \<or> r = []" "forest_at d st ts D1 = Some D'" "builds s' D'"
        by blast
      have "inn = forest_bytes (t # ts) @ (if eoc then [0, 0] @ r else [])" using t(2) ts(2) by simp
      moreover note forest_at_Cons [OF t(3) ts(4)]
      ultimately show ?thesis using t(1) ts(1,3,5) by (intro exI [of _ "t # ts"] exI [of _ D']) simp
    qed
  qed
qed simp

subsection \<open>What the search finds\<close>












text \<open>
  C27: What \<open>CBS_asn1_ber_to_der\<close> returns. Unconverted, it is an element with a minimal
  definite length at the start of the input, behind which the cursor stands. Converted, the input is
  the BER encoding of a list of trees, all of it consumed, and the result is the DER encoding of the
  same trees: lengths definite and minimal, constructed strings replaced by the concatenation of
  their chunks, all of the string's own type.
\<close>

theorem ber_to_der_correct:
  assumes "length inn < size_lim" "CBS_asn1_ber_to_der al inn = Some (Some (out, converted), r)"
  shows "if converted
    then \<exists>ts. (\<forall>t\<in>set ts. ber_wf 0 t) \<and> inn = forest_bytes ts \<and> out = forest_der 0 ts \<and> r = []
    else \<exists>tag body. der_body_ok body \<and> out = der_element tag body \<and> inn = out @ r"
proof (cases converted)
  case False
  with assms(2) obtain tag hl where "CBS_get_any_asn1_element inn = (Some (out, tag, hl), r)"
    by (auto simp: CBS_asn1_ber_to_der_def split: option.splits prod.splits bool.splits if_splits)
  from element_sound [OF this] False show ?thesis by auto
next
  case True
  have "\<exists>s s'. CBB_init al (CBS_len inn) = Some s \<and> cbs_convert_ber al inn 0 0 False 0 s = Some (True, r, s') \<and>
      fst (CBB_finish al True 0 s') = Some out"
    using assms(2) True
    by (auto simp: CBS_asn1_ber_to_der_def split: option.splits prod.splits bool.splits if_splits)
  then obtain s s' s2 where i: "CBB_init al (CBS_len inn) = Some s"
    and c: "cbs_convert_ber al inn 0 0 False 0 s = Some (True, r, s')" and f: "CBB_finish al True 0 s' = (Some out, s2)"
    by (metis prod.collapse)
  have lim: "CBS_len inn < size_lim" using assms(1) by (simp add: CBS_len_def)
  from c have c: "convert_loop (Suc (CBS_len inn)) al inn 0 0 False 0 s = Some (True, r, s')"
    by (simp add: cbs_convert_ber_def split: if_splits)
  from convert_loop_sound [OF c CBB_init_builds [OF i lim] assms(1), unfolded if_False append_Nil2 simp_thms]
  obtain ts D' where ts: "\<forall>t\<in>set ts. ber_wf 0 t" "inn = forest_bytes ts" "r = []"
    and D': "forest_at 0 0 ts ([], []) = Some D'" "builds s' D'" by blast
  from forest_at_closed [OF D'(1), of "[]"] CBB_finish_ok [OF D'(2) f] have out: "out = forest_der 0 ts"
    by (simp add: close_doc_def)
  show ?thesis unfolding if_P [OF True] by (intro exI [of _ ts] conjI ts out)
qed

text \<open>Evaluation of a conversion: the reads, then the writes.\<close>

lemmas cbb_eval = CBB_init_def cbb_init_def CBB_zero_def CBB_add_asn1_def CBB_add_bytes_def CBB_flush_def flush_then_def
  add_asn1_tag_def CBB_add_u8_def cbb_buffer_add_u_def cbb_buffer_add_def cbb_buffer_reserve_def flush_one_def
  asn1_length_form_def buffer_add_bytes_def CBB_finish_def CBB_cleanup_def content_start_def

lemma ber_example_reads:
  "CBS_get_any_ber_asn1_element [0x24, 0x80, 4, 1, 0x61, 0, 0] = (Some ([0x24, 0x80], 0x20000004, 2), [4, 1, 0x61, 0, 0])"
  "CBS_get_any_ber_asn1_element [4, 1, 0x61, 0, 0] = (Some ([4, 1, 0x61], 4, 2), [0, 0])"
  "CBS_get_any_ber_asn1_element [0, 0] = (Some ([0, 0], 0, 2), [])"
  "cbs_find_ber [0x24, 0x80, 0x04, 1, 0x61, 0, 0] 0 = Some True"
  by (simp_all add: ber_eval)

definition ex_cbb :: "bytes \<Rightarrow> nat \<Rightarrow> cbb_child list \<Rightarrow> cbb" where
  "ex_cbb b n cs = \<lparr>base = Some \<lparr>buf = b, len = n, can_resize = True, error = False\<rparr>, children = cs\<rparr>"

abbreviation ex_child :: cbb_child where
  "ex_child \<equiv> \<lparr>offset = 1, pending_len_len = 1, pending_is_asn1 = True\<rparr>"

lemma ber_example_init: "CBB_init (\<lambda>n. True) 7 = Some (ex_cbb [0, 0, 0, 0, 0, 0, 0] 0 [])"
  by (simp add: CBB_init_def cbb_init_def CBB_zero_def ex_cbb_def eval_nat_numeral)

lemma ber_example_writes:
  "convert_open (\<lambda>n. True) 0 0 0x20000004 (ex_cbb [0, 0, 0, 0, 0, 0, 0] 0 []) =
    (True, 1, 4, ex_cbb [4, 0, 0, 0, 0, 0, 0] 2 [ex_child])"
  "CBB_add_bytes (\<lambda>n. True) 1 [0x61] (ex_cbb [4, 0, 0, 0, 0, 0, 0] 2 [ex_child]) =
    (True, ex_cbb [4, 0, 0x61, 0, 0, 0, 0] 3 [ex_child])"
  "CBB_flush (\<lambda>n. True) 1 (ex_cbb [4, 0, 0x61, 0, 0, 0, 0] 3 [ex_child]) =
    (True, ex_cbb [4, 0, 0x61, 0, 0, 0, 0] 3 [ex_child])"
  "CBB_flush (\<lambda>n. True) 0 (ex_cbb [4, 0, 0x61, 0, 0, 0, 0] 3 [ex_child]) =
    (True, ex_cbb [4, 1, 0x61, 0, 0, 0, 0] 3 [])"
  "fst (CBB_finish (\<lambda>n. True) True 0 (ex_cbb [4, 1, 0x61, 0, 0, 0, 0] 3 [])) = Some [4, 1, 0x61]"
  by (simp_all add: cbb_eval convert_open_def ber_eval ex_cbb_def Let_def blit_def)

lemma ber_example_loop:
  "convert_loop (Suc (Suc n)) (\<lambda>n. True) [4, 1, 0x61, 0, 0] 1 4 True 1 (ex_cbb [4, 0, 0, 0, 0, 0, 0] 2 [ex_child]) =
    Some (True, [], ex_cbb [4, 0, 0x61, 0, 0, 0, 0] 3 [ex_child])"
  by (simp add: ber_example_reads ber_example_writes [unfolded One_nat_def] is_eoc_def is_indefinite_def CBS_len_def CBS_data_def
      convert_open_def convert_contents_def CBS_skip_def cbs_get_def)

lemma ber_example_run:
  "convert_loop (Suc (Suc (Suc n))) (\<lambda>n. True) [0x24, 0x80, 4, 1, 0x61, 0, 0] 0 0 False 0 (ex_cbb [0, 0, 0, 0, 0, 0, 0] 0 []) =
    Some (True, [], ex_cbb [4, 1, 0x61, 0, 0, 0, 0] 3 [])"
proof -
  let ?al = "\<lambda>n :: nat. True"
  have last: "convert_loop (Suc m) ?al [] 0 0 False 0 s = Some (True, [], s)" for m s
    by (simp add: CBS_len_def)
  show ?thesis
    unfolding convert_loop.simps(2) [of "Suc (Suc n)"]
    by (simp add: ber_example_reads is_eoc_def is_indefinite_def CBS_len_def CBS_data_def convert_contents_def
        ber_example_writes [unfolded One_nat_def] ber_example_loop [unfolded One_nat_def] kMaxDepth_def
        last [of "Suc n"] del: convert_loop.simps)
qed

lemma ber_to_der_correct_witness:
  "CBS_asn1_ber_to_der (\<lambda>n. True) [0x24, 0x80, 0x04, 1, 0x61, 0, 0] = Some (Some ([4, 1, 0x61], True), []) \<and>
   (\<exists>ts. (\<forall>t\<in>set ts. ber_wf 0 t) \<and> [0x24, 0x80, 0x04, 1, 0x61, 0, 0] = forest_bytes ts \<and> [4, 1, 0x61] = forest_der 0 ts)"
proof -
  have len: "CBS_len [0x24, 0x80, 0x04, 1, 0x61, 0, 0] = 7" by (simp add: CBS_len_def)
  have fuel: "8 = Suc (Suc (Suc 5))" by simp
  note run = ber_example_run [of 5, folded fuel]
  have 2: "CBS_asn1_ber_to_der (\<lambda>n. True) [0x24, 0x80, 0x04, 1, 0x61, 0, 0] = Some (Some ([4, 1, 0x61], True), [])"
    by (simp add: CBS_asn1_ber_to_der_def ber_example_reads(4) cbs_convert_ber_def len ber_example_init run
        ber_example_writes del: convert_loop.simps)
  show ?thesis using ber_to_der_correct [OF _ 2] 2 by simp
qed

end
