(* ===== verification/Base64.thy ===== *)
theory Base64
  imports Const_Time
begin

text \<open>
  \<open>crypto/base64/base64.c\<close>: the block and streaming encoders and decoders. The alphabet is
  computed without branches from the masks of \<open>Const_Time\<close>. The model returns the bytes a
  function writes to its output; the terminating zero byte behind them, which the C functions
  write and do not count, is left out. Main results: decoding inverts encoding, and the
  streaming functions do not depend on how the data is cut into calls.
\<close>

unbundle bit_operations_syntax

subsection \<open>Alphabet\<close>

definition constant_time_lt_args_8 :: "u8 \<Rightarrow> u8 \<Rightarrow> u8" where
  "constant_time_lt_args_8 a b =
     (let aw = ucast a :: u64; bw = ucast b :: u64 in ucast (constant_time_msb_w (aw - bw)))"

definition constant_time_in_range_8 :: "u8 \<Rightarrow> u8 \<Rightarrow> u8 \<Rightarrow> u8" where
  "constant_time_in_range_8 a lo hi =
     (let a = a - lo in constant_time_lt_args_8 a (hi - lo + 1))"

definition conv_bin2ascii :: "u8 \<Rightarrow> u8" where
  "conv_bin2ascii a0 =
     (let a = a0 AND 0x3f;
          ret = constant_time_select_8 (constant_time_eq_8 (ucast a) 62) 0x2b 0x2f;
          ret = constant_time_select_8 (constant_time_lt_args_8 a 62) (a - 52 + 0x30) ret;
          ret = constant_time_select_8 (constant_time_lt_args_8 a 52) (a - 26 + 0x61) ret;
          ret = constant_time_select_8 (constant_time_lt_args_8 a 26) (a + 0x41) ret
      in ret)"

definition base64_ascii_to_bin :: "u8 \<Rightarrow> u8" where
  "base64_ascii_to_bin a =
     (let is_upper = constant_time_in_range_8 a 0x41 0x5a;
          is_lower = constant_time_in_range_8 a 0x61 0x7a;
          is_digit = constant_time_in_range_8 a 0x30 0x39;
          is_plus = constant_time_eq_8 (ucast a) 0x2b;
          is_slash = constant_time_eq_8 (ucast a) 0x2f;
          is_equals = constant_time_eq_8 (ucast a) 0x3d;
          ret = 0xff;
          ret = constant_time_select_8 is_upper (a - 0x41) ret;
          ret = constant_time_select_8 is_lower (a - 0x61 + 26) ret;
          ret = constant_time_select_8 is_digit (a - 0x30 + 52) ret;
          ret = constant_time_select_8 is_plus 62 ret;
          ret = constant_time_select_8 is_slash 63 ret;
          ret = constant_time_select_8 is_equals 0 ret
      in ret)"

subsection \<open>Encoding\<close>

record evp_encode_ctx =
  data_used :: nat
  data :: bytes
  eof_seen :: bool
  error_encountered :: bool

abbreviation INT_MAX :: nat where "INT_MAX \<equiv> 0x7fffffff"

definition EVP_EncodedLength :: "nat \<Rightarrow> nat option" where
  "EVP_EncodedLength len0 =
     (if (len0 + 2) mod size_lim < len0 then None
      else let len = (len0 + 2) mod size_lim div 3
           in if (len * 4) mod size_lim div 4 \<noteq> len then None
              else let len = (len * 4) mod size_lim
                   in if (len + 1) mod size_lim < len then None else Some ((len + 1) mod size_lim))"

definition EVP_EncodeInit :: evp_encode_ctx where
  "EVP_EncodeInit =
     \<lparr>data_used = 0, data = replicate 48 0, eof_seen = False, error_encountered = False\<rparr>"

fun EVP_EncodeBlock :: "bytes \<Rightarrow> bytes" where
  "EVP_EncodeBlock [] = []"
| "EVP_EncodeBlock [s0] =
     (let l = push_bit 16 (ucast s0) :: u32
      in [conv_bin2ascii (ucast (drop_bit 18 l)), conv_bin2ascii (ucast (drop_bit 12 l)), 0x3d, 0x3d])"
| "EVP_EncodeBlock [s0, s1] =
     (let l = push_bit 16 (ucast s0) OR push_bit 8 (ucast s1) :: u32
      in [conv_bin2ascii (ucast (drop_bit 18 l)), conv_bin2ascii (ucast (drop_bit 12 l)),
          conv_bin2ascii (ucast (drop_bit 6 l)), 0x3d])"
| "EVP_EncodeBlock (s0 # s1 # s2 # src) =
     (let l = push_bit 16 (ucast s0) OR push_bit 8 (ucast s1) OR ucast s2 :: u32
      in conv_bin2ascii (ucast (drop_bit 18 l)) # conv_bin2ascii (ucast (drop_bit 12 l)) #
         conv_bin2ascii (ucast (drop_bit 6 l)) # conv_bin2ascii (ucast l) # EVP_EncodeBlock src)"

text \<open>
  The loop over whole lines. It returns whether it ran to the end (and did not return early
  because the count wrapped), the output, the count, and what is left of the input.
\<close>

fun encode_lines :: "bytes \<Rightarrow> nat \<Rightarrow> bytes \<Rightarrow> bool \<times> bytes \<times> nat \<times> bytes" where
  "encode_lines out tot inp =
     (if length inp \<ge> 48 then
        let block = EVP_EncodeBlock (take 48 inp); encoded = length block;
            out' = out @ block @ [0x0a]; inp' = drop 48 inp
        in if (tot + encoded + 1) mod size_lim < tot then (False, out', tot, inp')
           else encode_lines out' ((tot + encoded + 1) mod size_lim) inp'
      else (True, out, tot, inp))"

declare encode_lines.simps [simp del]

definition EVP_EncodeUpdate :: "evp_encode_ctx \<Rightarrow> bytes \<Rightarrow> bytes \<times> nat \<times> evp_encode_ctx" where
  "EVP_EncodeUpdate ctx inp =
     (if inp = [] then ([], 0, ctx)
      else if 48 - data_used ctx > length inp then
        ([], 0, ctx\<lparr>data := blit (data_used ctx) inp (data ctx), data_used := data_used ctx + length inp\<rparr>)
      else
        let (out, tot, inp, ctx) =
              (if data_used ctx \<noteq> 0 then
                 let todo = 48 - data_used ctx;
                     ctx = ctx\<lparr>data := blit (data_used ctx) (take todo inp) (data ctx)\<rparr>;
                     block = EVP_EncodeBlock (data ctx)
                 in (block @ [0x0a], length block + 1, drop todo inp, ctx\<lparr>data_used := 0\<rparr>)
               else ([], 0, inp, ctx))
        in case encode_lines out tot inp of
             (False, out, _, _) \<Rightarrow> (out, 0, ctx)
           | (True, out, tot, inp) \<Rightarrow>
               (out, if tot > INT_MAX then 0 else tot,
                ctx\<lparr>data := (if inp \<noteq> [] then blit 0 inp (data ctx) else data ctx),
                    data_used := length inp\<rparr>))"

definition EVP_EncodeFinal :: "evp_encode_ctx \<Rightarrow> bytes \<times> nat \<times> evp_encode_ctx" where
  "EVP_EncodeFinal ctx =
     (if data_used ctx = 0 then ([], 0, ctx)
      else let out = EVP_EncodeBlock (take (data_used ctx) (data ctx)) @ [0x0a]
           in (out, length out, ctx\<lparr>data_used := 0\<rparr>))"

subsection \<open>Decoding\<close>

definition EVP_DecodedLength :: "nat \<Rightarrow> nat option" where
  "EVP_DecodedLength len = (if len mod 4 \<noteq> 0 then None else Some (len div 4 * 3))"

definition EVP_DecodeInit :: evp_encode_ctx where
  "EVP_DecodeInit =
     \<lparr>data_used = 0, data = replicate 48 0, eof_seen = False, error_encountered = False\<rparr>"

definition base64_decode_quad :: "u8 \<Rightarrow> u8 \<Rightarrow> u8 \<Rightarrow> u8 \<Rightarrow> bytes option" where
  "base64_decode_quad in0 in1 in2 in3 =
     (let a = base64_ascii_to_bin in0; b = base64_ascii_to_bin in1;
          c = base64_ascii_to_bin in2; d = base64_ascii_to_bin in3
      in if a = 0xff \<or> b = 0xff \<or> c = 0xff \<or> d = 0xff then None
         else
           let v = push_bit 18 (ucast a) OR push_bit 12 (ucast b) OR push_bit 6 (ucast c) OR ucast d :: u32;
               padding_pattern = of_bool (in0 = 0x3d) * 8 + of_bool (in1 = 0x3d) * 4 +
                 of_bool (in2 = 0x3d) * 2 + of_bool (in3 = 0x3d) :: nat
           in if padding_pattern = 0 then Some [ucast (drop_bit 16 v), ucast (drop_bit 8 v), ucast v]
              else if padding_pattern = 1 then Some [ucast (drop_bit 16 v), ucast (drop_bit 8 v)]
              else if padding_pattern = 3 then Some [ucast (drop_bit 16 v)]
              else None)"

definition is_space :: "u8 \<Rightarrow> bool" where
  "is_space c \<longleftrightarrow> c = 0x20 \<or> c = 0x09 \<or> c = 0x0d \<or> c = 0x0a"

text \<open>The loop of \<open>EVP_DecodeUpdate\<close>; the result is false when it sets \<open>error_encountered\<close>.\<close>

fun decode_loop :: "evp_encode_ctx \<Rightarrow> bytes \<Rightarrow> bytes \<Rightarrow> bool \<times> bytes \<times> evp_encode_ctx" where
  "decode_loop ctx out [] = (True, out, ctx)"
| "decode_loop ctx out (c # inp) =
     (if is_space c then decode_loop ctx out inp
      else if eof_seen ctx then (False, out, ctx\<lparr>error_encountered := True\<rparr>)
      else
        let ctx = ctx\<lparr>data := (data ctx)[data_used ctx := c], data_used := data_used ctx + 1\<rparr>
        in if data_used ctx = 4 then
             case base64_decode_quad (data ctx ! 0) (data ctx ! 1) (data ctx ! 2) (data ctx ! 3) of
               None \<Rightarrow> (False, out, ctx\<lparr>error_encountered := True\<rparr>)
             | Some bs \<Rightarrow>
                 decode_loop (ctx\<lparr>data_used := 0, eof_seen := eof_seen ctx \<or> length bs < 3\<rparr>) (out @ bs) inp
           else decode_loop ctx out inp)"

definition EVP_DecodeUpdate :: "evp_encode_ctx \<Rightarrow> bytes \<Rightarrow> int \<times> bytes \<times> nat \<times> evp_encode_ctx" where
  "EVP_DecodeUpdate ctx inp =
     (if error_encountered ctx then (-1, [], 0, ctx)
      else case decode_loop ctx [] inp of
             (False, out, ctx) \<Rightarrow> (-1, out, 0, ctx)
           | (True, out, ctx) \<Rightarrow>
               if length out > INT_MAX then (-1, out, 0, ctx\<lparr>error_encountered := True\<rparr>)
               else if eof_seen ctx then (0, out, length out, ctx) else (1, out, length out, ctx))"

definition EVP_DecodeFinal :: "evp_encode_ctx \<Rightarrow> int" where
  "EVP_DecodeFinal ctx = (if error_encountered ctx \<or> data_used ctx \<noteq> 0 then -1 else 1)"

fun decode_quads :: "bytes \<Rightarrow> bytes option" where
  "decode_quads (a # b # c # d # inp) =
     (case base64_decode_quad a b c d of
        None \<Rightarrow> None
      | Some bs \<Rightarrow>
          if length bs \<noteq> 3 \<and> inp \<noteq> [] then None
          else map_option (\<lambda>rest. bs @ rest) (decode_quads inp))"
| "decode_quads inp = Some []"

definition EVP_DecodeBase64 :: "nat \<Rightarrow> bytes \<Rightarrow> bytes option" where
  "EVP_DecodeBase64 max_out inp =
     (if length inp mod 4 \<noteq> 0 then None
      else case EVP_DecodedLength (length inp) of
             None \<Rightarrow> None
           | Some max_len \<Rightarrow> if max_out < max_len then None else decode_quads inp)"

text \<open>\<open>None\<close> is the return value -1; otherwise the bytes of \<open>dst\<close> that are counted.\<close>

definition EVP_DecodeBlock :: "bytes \<Rightarrow> bytes option" where
  "EVP_DecodeBlock src =
     (let src = dropWhile (\<lambda>c. c = 0x20 \<or> c = 0x09) src;
          src = rev (dropWhile is_space (rev src))
      in case EVP_DecodedLength (length src) of
           None \<Rightarrow> None
         | Some dst_len \<Rightarrow>
             if dst_len > INT_MAX then None
             else case EVP_DecodeBase64 dst_len src of
                    None \<Rightarrow> None
                  | Some dst \<Rightarrow> Some (dst @ replicate ((3 - length dst mod 3) mod 3) 0))"

subsection \<open>The alphabet and its inverse\<close>

lemma constant_time_lt_args_8_mask: "constant_time_lt_args_8 a b = (if a < b then -1 else 0)"
proof -
  have u: "unat (ucast a :: u64) = unat a" "unat (ucast b :: u64) = unat b"
    by (simp_all add: unat_ucast_up)
  have "\<not> bit (ucast a :: u64) 63" "\<not> bit (ucast b :: u64) 63"
    by (auto simp: bit_ucast_iff dest: bit_imp_le_length)
  then have "bit (ucast a - ucast b :: u64) 63 \<longleftrightarrow> a < b"
    using bit63_diff [of "ucast a" "ucast b"] u by (simp add: word_less_nat_alt)
  then show ?thesis
    by (simp add: constant_time_lt_args_8_def constant_time_msb_w_mask)
qed

lemma constant_time_eq_8_bytes:
  "constant_time_eq_8 (ucast (a :: u8)) (numeral n) =
    (if ucast a = (numeral n :: u64) then -1 else 0)"
  by (simp add: constant_time_eq_8_mask)

lemma ucast_u8_numerals:
  "ucast (a :: u8) = (0x2b :: u64) \<longleftrightarrow> a = 0x2b" "ucast a = (0x2f :: u64) \<longleftrightarrow> a = 0x2f"
  "ucast a = (0x3d :: u64) \<longleftrightarrow> a = 0x3d" "ucast a = (62 :: u64) \<longleftrightarrow> a = 62"
  by (simp_all add: word_unat_eq_iff unat_ucast_up)

lemma conv_bin2ascii_cases:
  "conv_bin2ascii a0 =
    (let a = a0 AND 0x3f in
     if a < 26 then a + 0x41 else if a < 52 then a - 26 + 0x61
     else if a < 62 then a - 52 + 0x30 else if a = 62 then 0x2b else 0x2f)"
  by (simp add: constant_time_eq_8_bytes ucast_u8_numerals conv_bin2ascii_def constant_time_lt_args_8_mask constant_time_select_8_mask Let_def)

lemma base64_ascii_to_bin_cases:
  "base64_ascii_to_bin a =
    (if a = 0x3d then 0 else if a = 0x2f then 63 else if a = 0x2b then 62
     else if a - 0x30 < 10 then a - 0x30 + 52 else if a - 0x61 < 26 then a - 0x61 + 26
     else if a - 0x41 < 26 then a - 0x41 else 0xff)"
  by (simp add: constant_time_eq_8_bytes ucast_u8_numerals base64_ascii_to_bin_def constant_time_in_range_8_def constant_time_lt_args_8_mask
      constant_time_select_8_mask Let_def)

definition alphabet_ok :: "u8 \<Rightarrow> bool" where
  "alphabet_ok a \<longleftrightarrow> (let c = conv_bin2ascii a in
     base64_ascii_to_bin c = a \<and> c \<noteq> 0x3d \<and> \<not> is_space c)"

lemma alphabet_table: "list_all (\<lambda>n. alphabet_ok (word_of_nat n)) [0..<64]"
  by (simp add: alphabet_ok_def conv_bin2ascii_cases base64_ascii_to_bin_cases is_space_def upt_conv_Cons)

lemma alphabet:
  "base64_ascii_to_bin (conv_bin2ascii a) = a AND 0x3f" "conv_bin2ascii a \<noteq> 0x3d" "\<not> is_space (conv_bin2ascii a)"
proof -
  have m: "(0x3f :: u8) = mask 6" by (simp add: mask_eq_exp_minus_1)
  have lt: "unat (a AND 0x3f) < 64" unfolding m unat_and_mask by simp
  have "alphabet_ok (word_of_nat (unat (a AND 0x3f)))"
    using alphabet_table lt unfolding list_all_iff by (metis atLeastLessThan_iff le0 set_upt)
  moreover have "conv_bin2ascii (a AND 0x3f) = conv_bin2ascii a"
    by (simp add: conv_bin2ascii_def and.assoc)
  ultimately show "base64_ascii_to_bin (conv_bin2ascii a) = a AND 0x3f" "conv_bin2ascii a \<noteq> 0x3d"
    "\<not> is_space (conv_bin2ascii a)"
    by (simp_all add: alphabet_ok_def Let_def)
qed

lemma alphabet_valid: "a AND 0x3f \<noteq> (0xff :: u8)"
proof
  assume eq: "a AND 0x3f = (0xff :: u8)"
  have m: "(0x3f :: u8) = mask 6" by (simp add: mask_eq_exp_minus_1)
  have "unat (a AND 0x3f) < 64" unfolding m unat_and_mask by simp
  then show False unfolding eq by simp
qed

subsection \<open>Decoding inverts encoding\<close>

text \<open>Splitting 24 bits into four sixes and joining them again.\<close>

lemma join_sixes:
  fixes l :: u32
  assumes "\<And>n. bit l n \<Longrightarrow> n < 24"
  shows "push_bit 18 (ucast (ucast (drop_bit 18 l) AND 0x3f :: u8)) OR
    push_bit 12 (ucast (ucast (drop_bit 12 l) AND 0x3f :: u8)) OR
    push_bit 6 (ucast (ucast (drop_bit 6 l) AND 0x3f :: u8)) OR ucast (ucast l AND 0x3f :: u8) = l"
    (is "?v = l")
proof (rule bit_word_eqI)
  fix n assume "n < LENGTH(32)"
  have m: "(0x3f :: u8) = mask 6" by (simp add: mask_eq_exp_minus_1)
  consider "n < 6" | "6 \<le> n" "n < 12" | "12 \<le> n" "n < 18" | "18 \<le> n" "n < 24" | "24 \<le> n" by linarith
  then show "bit ?v n \<longleftrightarrow> bit l n"
    by cases (auto simp: m bit_simps dest: assms)
qed

lemma quad_full:
  "base64_decode_quad (conv_bin2ascii (ucast (drop_bit 18 l))) (conv_bin2ascii (ucast (drop_bit 12 l)))
     (conv_bin2ascii (ucast (drop_bit 6 l))) (conv_bin2ascii (ucast (l :: u32))) =
   Some [ucast (drop_bit 16 l), ucast (drop_bit 8 l), ucast l]"
  if "\<And>n. bit l n \<Longrightarrow> n < 24"
  using alphabet_valid join_sixes [OF that] unfolding base64_decode_quad_def
  by (simp add: alphabet Let_def)

lemma bytes_of_24:
  fixes s0 s1 s2 :: u8
  defines "l \<equiv> push_bit 16 (ucast s0) OR push_bit 8 (ucast s1) OR ucast s2 :: u32"
  shows "ucast (drop_bit 16 l) = s0" "ucast (drop_bit 8 l) = s1" "ucast l = s2" "bit l n \<Longrightarrow> n < 24"
proof -
  have b: "bit (s :: u8) k \<Longrightarrow> k < 8" for s k using bit_imp_le_length by fastforce
  show "bit l n \<Longrightarrow> n < 24" by (auto simp: l_def bit_simps dest: b)
  show "ucast (drop_bit 16 l) = s0" "ucast (drop_bit 8 l) = s1" "ucast l = s2"
    by (rule bit_word_eqI; auto simp: l_def bit_simps dest: b)+
qed

lemma pad_value: "base64_ascii_to_bin 0x3d = 0"
  by (simp add: base64_ascii_to_bin_cases)

lemma quad_pad2:
  "base64_decode_quad (conv_bin2ascii (ucast (drop_bit 18 (push_bit 16 (ucast s0) :: u32))))
     (conv_bin2ascii (ucast (drop_bit 12 (push_bit 16 (ucast s0) :: u32)))) 0x3d 0x3d = Some [s0]" for s0 :: u8
proof -
  let ?l = "push_bit 16 (ucast s0) :: u32"
  have lo: "ucast (drop_bit 6 ?l) AND 0x3f = (0 :: u8)" "ucast ?l AND 0x3f = (0 :: u8)"
    by (rule bit_word_eqI; auto simp: bit_simps mask_eq_exp_minus_1 [where ?'a = "8 word" and n = 6, simplified, symmetric])+
  show ?thesis
    using join_sixes [of ?l] bytes_of_24(1,4) [of s0 0 0] alphabet_valid lo
    unfolding base64_decode_quad_def by (simp add: alphabet pad_value Let_def)
qed

lemma quad_pad1:
  fixes s0 s1 :: u8
  defines "l \<equiv> push_bit 16 (ucast s0) OR push_bit 8 (ucast s1) :: u32"
  shows "base64_decode_quad (conv_bin2ascii (ucast (drop_bit 18 l))) (conv_bin2ascii (ucast (drop_bit 12 l)))
     (conv_bin2ascii (ucast (drop_bit 6 l))) 0x3d = Some [s0, s1]"
proof -
  have lo: "ucast l AND 0x3f = (0 :: u8)"
    by (rule bit_word_eqI; auto simp: l_def bit_simps mask_eq_exp_minus_1 [where ?'a = "8 word" and n = 6, simplified, symmetric])
  have l: "l = push_bit 16 (ucast s0) OR push_bit 8 (ucast s1) OR ucast (0 :: u8)" by (simp add: l_def)
  show ?thesis
    using join_sixes [of l] bytes_of_24(1,2,4) [of s0 s1 0, folded l] alphabet_valid lo
    unfolding base64_decode_quad_def by (simp add: alphabet pad_value Let_def)
qed

lemma quad_three:
  fixes s0 s1 s2 :: u8
  defines "l \<equiv> push_bit 16 (ucast s0) OR push_bit 8 (ucast s1) OR ucast s2 :: u32"
  shows "base64_decode_quad (conv_bin2ascii (ucast (drop_bit 18 l))) (conv_bin2ascii (ucast (drop_bit 12 l)))
     (conv_bin2ascii (ucast (drop_bit 6 l))) (conv_bin2ascii (ucast l)) = Some [s0, s1, s2]"
  using quad_full [of l] bytes_of_24 [of s0 s1 s2, folded l_def] by simp

lemma EVP_EncodeBlock_nonempty [simp]: "EVP_EncodeBlock xs = [] \<longleftrightarrow> xs = []"
  by (induction xs rule: EVP_EncodeBlock.induct) (auto simp: Let_def)

lemma decode_quads_encode: "decode_quads (EVP_EncodeBlock xs) = Some xs"
  by (induction xs rule: EVP_EncodeBlock.induct)
    (simp_all add: Let_def quad_three quad_pad1 quad_pad2 del: drop_bit_or)

lemma length_EVP_EncodeBlock: "length (EVP_EncodeBlock xs) = 4 * ((length xs + 2) div 3)"
proof (induction xs rule: EVP_EncodeBlock.induct)
  case (4 s0 s1 s2 src)
  have "(length src + 3 + 2) div 3 = Suc ((length src + 2) div 3)" by linarith
  with 4 show ?case by (simp add: Let_def)
qed (simp_all add: Let_def)

lemma EVP_EncodedLength_block:
  "length xs < 2 ^ 62 \<Longrightarrow> EVP_EncodedLength (length xs) = Some (length (EVP_EncodeBlock xs) + 1)"
  by (simp add: EVP_EncodedLength_def length_EVP_EncodeBlock Let_def)

lemma EVP_DecodeBase64_encode:
  "3 * ((length xs + 2) div 3) \<le> max_out \<Longrightarrow> EVP_DecodeBase64 max_out (EVP_EncodeBlock xs) = Some xs"
  by (auto simp: EVP_DecodeBase64_def EVP_DecodedLength_def length_EVP_EncodeBlock decode_quads_encode)

subsection \<open>Streaming encoder\<close>

definition pending :: "evp_encode_ctx \<Rightarrow> bytes" where
  "pending ctx = take (data_used ctx) (data ctx)"

definition ctx_ok :: "evp_encode_ctx \<Rightarrow> bool" where
  "ctx_ok ctx \<longleftrightarrow> length (data ctx) = 48 \<and> data_used ctx < 48"

text \<open>The specification: lines of 48 bytes, and what is left.\<close>

fun full_lines :: "bytes \<Rightarrow> bytes" where
  "full_lines w = (if 48 \<le> length w then EVP_EncodeBlock (take 48 w) @ 0x0a # full_lines (drop 48 w) else [])"

fun last_line :: "bytes \<Rightarrow> bytes" where
  "last_line w = (if 48 \<le> length w then last_line (drop 48 w) else w)"

declare full_lines.simps [simp del] last_line.simps [simp del]

definition pem_body :: "bytes \<Rightarrow> bytes" where
  "pem_body w = full_lines w @
     (if last_line w = [] then [] else EVP_EncodeBlock (last_line w) @ [0x0a])"

lemma full_lines_short: "length w < 48 \<Longrightarrow> full_lines w = []"
  and last_line_short: "length w < 48 \<Longrightarrow> last_line w = w"
  by (simp_all add: full_lines.simps [of w] last_line.simps [of w])

lemma full_lines_step: "length u = 48 \<Longrightarrow> full_lines (u @ w) = EVP_EncodeBlock u @ 0x0a # full_lines w"
  and last_line_step: "length u = 48 \<Longrightarrow> last_line (u @ w) = last_line w"
  by (simp_all add: full_lines.simps [of "u @ w"] last_line.simps [of "u @ w"])

lemma last_line_length: "length (last_line w) < 48"
  by (induction w rule: last_line.induct) (simp add: last_line.simps)

lemma full_lines_append:
  "full_lines (w @ v) = full_lines w @ full_lines (last_line w @ v)"
  "last_line (w @ v) = last_line (last_line w @ v)"
proof (induction w rule: full_lines.induct)
  case (1 w)
  {
    case 1
    show ?case
    proof (cases "48 \<le> length w")
      case True
      with "1.IH" full_lines_step [of "take 48 w" "drop 48 w @ v"] full_lines_step [of "take 48 w" "drop 48 w"]
        last_line_step [of "take 48 w" "drop 48 w"] show ?thesis
        by (simp flip: append_assoc)
    qed (simp add: full_lines_short last_line_short)
  next
    case 2
    show ?case
    proof (cases "48 \<le> length w")
      case True
      with "1.IH" last_line_step [of "take 48 w" "drop 48 w @ v"] last_line_step [of "take 48 w" "drop 48 w"]
      show ?thesis by (simp flip: append_assoc)
    qed (simp add: last_line_short)
  }
qed

lemma full_lines_length: "48 * length (full_lines w) \<le> 65 * length w"
proof (induction w rule: full_lines.induct)
  case (1 w)
  then show ?case
    by (cases "48 \<le> length w") (auto simp: full_lines.simps [of w] length_EVP_EncodeBlock)
qed

lemma encode_lines_spec:
  "tot + length (full_lines inp) < size_lim \<Longrightarrow>
    encode_lines out tot inp = (True, out @ full_lines inp, tot + length (full_lines inp), last_line inp)"
proof (induction out tot inp rule: encode_lines.induct)
  case (1 out tot inp)
  show ?case
  proof (cases "48 \<le> length inp")
    case True
    let ?b = "EVP_EncodeBlock (take 48 inp)"
    have f: "full_lines inp = ?b @ 0x0a # full_lines (drop 48 inp)" "last_line inp = last_line (drop 48 inp)"
      using True by (simp_all add: full_lines.simps [of inp] last_line.simps [of inp])
    with "1.prems" have lt: "tot + length ?b + 1 < size_lim" by simp
    then have m: "(tot + length ?b + 1) mod size_lim = tot + length ?b + 1" by (rule mod_less)
    have "encode_lines (out @ ?b @ [0x0a]) (tot + length ?b + 1) (drop 48 inp) =
      (True, (out @ ?b @ [0x0a]) @ full_lines (drop 48 inp),
        tot + length ?b + 1 + length (full_lines (drop 48 inp)), last_line (drop 48 inp))"
      using "1.IH" [OF True refl refl refl refl] m "1.prems" f by simp
    with True m f show ?thesis
      by (simp add: encode_lines.simps [of out tot inp] Let_def del: One_nat_def)
  qed (simp add: encode_lines.simps full_lines_short last_line_short)
qed

lemma length_pending [simp]: "ctx_ok ctx \<Longrightarrow> length (pending ctx) = data_used ctx"
  by (simp add: pending_def ctx_ok_def)

lemma EncodeUpdate_spec:
  assumes ok: "ctx_ok ctx" and sz: "length inp < 2 ^ 63"
    and u: "EVP_EncodeUpdate ctx inp = (out, n, ctx')"
  shows "out = full_lines (pending ctx @ inp)" "pending ctx' = last_line (pending ctx @ inp)" "ctx_ok ctx'"
    "n = (if length out > INT_MAX then 0 else length out)"
proof -
  have d: "length (data ctx) = 48" "data_used ctx < 48" using ok by (auto simp: ctx_ok_def)
  have bound: "length (full_lines (pending ctx @ inp)) < size_lim"
    using full_lines_length [of "pending ctx @ inp"] sz d ok by simp
  have "out = full_lines (pending ctx @ inp) \<and> pending ctx' = last_line (pending ctx @ inp) \<and> ctx_ok ctx' \<and>
    n = (if length out > INT_MAX then 0 else length out)"
  proof (cases "inp = [] \<or> 48 - data_used ctx > length inp")
    case True
    then have short: "length (pending ctx @ inp) < 48" using d ok by auto
    show ?thesis
    proof (cases "inp = []")
      case True
      with u ok short show ?thesis
        by (simp add: EVP_EncodeUpdate_def full_lines_short last_line_short)
    next
      case False
      with True have lt: "data_used ctx + length inp < 48" by auto
      have "take (data_used ctx + length inp) (blit (data_used ctx) inp (data ctx)) = pending ctx @ inp"
        using lt d by (subst take_blit) (auto simp: pending_def)
      moreover have "length inp < 48 - data_used ctx" using lt by simp
      then have "out = []" "n = 0" "ctx' = ctx\<lparr>data := blit (data_used ctx) inp (data ctx),
          data_used := data_used ctx + length inp\<rparr>"
        using u False by (simp_all add: EVP_EncodeUpdate_def)
      ultimately show ?thesis
        using d lt full_lines_short [OF short] last_line_short [OF short]
        by (simp add: pending_def ctx_ok_def)
    qed
  next
    case False
    define todo where "todo = 48 - data_used ctx"
    have ne: "inp \<noteq> []" and ge: "todo \<le> length inp" using False by (auto simp: todo_def)
    define first where "first = (if data_used ctx \<noteq> 0
      then (EVP_EncodeBlock (pending ctx @ take todo inp) @ [0x0a], drop todo inp) else ([], inp))"
    have ln: "length (pending ctx @ take todo inp) = 48"
      using ge d ok by (simp add: todo_def)
    have split: "pending ctx @ inp = (pending ctx @ take todo inp) @ drop todo inp" by simp
    have pe: "data_used ctx = 0 \<Longrightarrow> pending ctx = []" by (simp add: pending_def)
    have spec: "full_lines (pending ctx @ inp) = fst first @ full_lines (snd first)"
      "last_line (pending ctx @ inp) = last_line (snd first)"
      using full_lines_step [OF ln, of "drop todo inp"] last_line_step [OF ln, of "drop todo inp"] pe
      by (cases "data_used ctx = 0"; simp add: first_def)+
    have blit48: "blit (data_used ctx) (take todo inp) (data ctx) = pending ctx @ take todo inp"
      using d ge by (simp add: blit_def pending_def todo_def)
    obtain ctx0 where ctx0: "length (data ctx0) = 48"
      and u': "EVP_EncodeUpdate ctx inp = (case encode_lines (fst first) (length (fst first)) (snd first) of
             (False, out, _, _) \<Rightarrow> (out, 0, ctx0)
           | (True, out, tot, inp) \<Rightarrow>
               (out, if tot > INT_MAX then 0 else tot,
                ctx0\<lparr>data := (if inp \<noteq> [] then blit 0 inp (data ctx0) else data ctx0),
                    data_used := length inp\<rparr>))"
    proof
      let ?c = "if data_used ctx \<noteq> 0 then ctx\<lparr>data := pending ctx @ take todo inp, data_used := 0\<rparr> else ctx"
      show "length (data ?c) = 48" using ln d by simp
      show "EVP_EncodeUpdate ctx inp = (case encode_lines (fst first) (length (fst first)) (snd first) of
             (False, out, _, _) \<Rightarrow> (out, 0, ?c)
           | (True, out, tot, inp) \<Rightarrow>
               (out, if tot > INT_MAX then 0 else tot,
                ?c\<lparr>data := (if inp \<noteq> [] then blit 0 inp (data ?c) else data ?c),
                    data_used := length inp\<rparr>))"
        using False ne blit48 by (simp add: EVP_EncodeUpdate_def first_def todo_def [symmetric] Let_def)
    qed
    have "encode_lines (fst first) (length (fst first)) (snd first) =
      (True, fst first @ full_lines (snd first), length (fst first) + length (full_lines (snd first)),
       last_line (snd first))"
      by (rule encode_lines_spec) (use bound spec(1) in simp)
    with u u' have res: "out = fst first @ full_lines (snd first)"
      "n = (if length (fst first) + length (full_lines (snd first)) > INT_MAX then 0
        else length (fst first) + length (full_lines (snd first)))"
      "ctx' = ctx0\<lparr>data := (if last_line (snd first) \<noteq> [] then blit 0 (last_line (snd first)) (data ctx0)
        else data ctx0), data_used := length (last_line (snd first))\<rparr>" by simp_all
    have "n = (if length out > INT_MAX then 0 else length out)"
      unfolding res(1,2) by simp
    moreover have "pending ctx' = last_line (snd first) \<and> ctx_ok ctx'"
      using ctx0 last_line_length [of "snd first"] by (simp add: res(3) pending_def ctx_ok_def blit_def)
    ultimately show ?thesis using res(1) spec by simp
  qed
  then show "out = full_lines (pending ctx @ inp)" "pending ctx' = last_line (pending ctx @ inp)" "ctx_ok ctx'"
    "n = (if length out > INT_MAX then 0 else length out)" by auto
qed

text \<open>
  A caller that feeds the chunks one after the other and collects as much of the output as each call says in
  \<open>*out_len\<close>.
\<close>

fun encode_stream :: "evp_encode_ctx \<Rightarrow> bytes list \<Rightarrow> bytes" where
  "encode_stream ctx [] = (case EVP_EncodeFinal ctx of (out, n, _) \<Rightarrow> take n out)"
| "encode_stream ctx (c # cs) =
     (case EVP_EncodeUpdate ctx c of (out, n, ctx') \<Rightarrow> take n out @ encode_stream ctx' cs)"

lemma encode_stream_from:
  "ctx_ok ctx \<Longrightarrow> list_all (\<lambda>c. length c \<le> 2 ^ 30) cs \<Longrightarrow>
    encode_stream ctx cs = pem_body (pending ctx @ concat cs)"
proof (induction cs arbitrary: ctx)
  case Nil
  then have "length (pending ctx) < 48" by (simp add: ctx_ok_def pending_def)
  with Nil show ?case
    by (auto simp: EVP_EncodeFinal_def pem_body_def full_lines_short last_line_short Let_def)
      (auto simp: pending_def ctx_ok_def)
next
  case (Cons c cs)
  obtain out n ctx' where u: "EVP_EncodeUpdate ctx c = (out, n, ctx')" by (metis prod_cases3)
  have c: "length c < 2 ^ 63" "length c \<le> 2 ^ 30" using Cons.prems(2) by simp_all
  note s = EncodeUpdate_spec [OF Cons.prems(1) c(1) u]
  have "48 * length out \<le> 65 * (data_used ctx + length c)"
    using full_lines_length [of "pending ctx @ c"] Cons.prems(1) s(1) by simp
  moreover have "data_used ctx < 48" using Cons.prems(1) by (simp add: ctx_ok_def)
  ultimately have "n = length out" using s(4) c(2) by simp
  with Cons.IH [OF s(3)] Cons.prems(2) u s(1,2) show ?case
    by (simp add: pem_body_def full_lines_append [of "pending ctx @ c" "concat cs", simplified])
qed

lemma encode_stream_spec:
  "list_all (\<lambda>c. length c \<le> 2 ^ 30) cs \<Longrightarrow> encode_stream EVP_EncodeInit cs = pem_body (concat cs)"
  using encode_stream_from [of EVP_EncodeInit cs] by (simp add: EVP_EncodeInit_def ctx_ok_def pending_def)

subsection \<open>Streaming decoder\<close>

lemma decode_loop_append:
  "decode_loop ctx out (xs @ ys) =
    (case decode_loop ctx out xs of
       (False, o', c) \<Rightarrow> (False, o', c) | (True, o', c) \<Rightarrow> decode_loop c o' ys)"
  by (induction ctx out xs rule: decode_loop.induct) (auto simp: Let_def split: option.splits)

lemma decode_loop_prefix:
  "decode_loop ctx (p @ out) xs = (case decode_loop ctx out xs of (r, o', c) \<Rightarrow> (r, p @ o', c))"
  by (induction ctx out xs arbitrary: p rule: decode_loop.induct)
    (auto simp: Let_def split: option.splits prod.splits)

text \<open>Between two quads.\<close>

definition at_quad :: "evp_encode_ctx \<Rightarrow> bool \<Rightarrow> bool" where
  "at_quad ctx eof \<longleftrightarrow> length (data ctx) = 48 \<and> data_used ctx = 0 \<and> eof_seen ctx = eof \<and> \<not> error_encountered ctx"

lemma decode_loop_quad:
  assumes "at_quad ctx False" "base64_decode_quad a b c d = Some bs"
    "\<not> is_space a" "\<not> is_space b" "\<not> is_space c" "\<not> is_space d"
  shows "\<exists>ctx'. at_quad ctx' (length bs < 3) \<and>
    decode_loop ctx out (a # b # c # d # inp) = decode_loop ctx' (out @ bs) inp"
proof -
  let ?c = "ctx\<lparr>data := (data ctx)[0 := a, Suc 0 := b, 2 := c, 3 := d], data_used := 0,
    eof_seen := length bs < 3\<rparr>"
  have "decode_loop ctx out (a # b # c # d # inp) = decode_loop ?c (out @ bs) inp"
    using assms by (simp add: at_quad_def numeral_2_eq_2 numeral_3_eq_3 Let_def)
  moreover have "at_quad ?c (length bs < 3)" using assms(1) by (simp add: at_quad_def)
  ultimately show ?thesis by blast
qed

lemma not_space_pad: "\<not> is_space 0x3d"
  by (simp add: is_space_def)

lemma decode_loop_encoded:
  "at_quad ctx False \<Longrightarrow> \<exists>ctx'. at_quad ctx' (length xs mod 3 \<noteq> 0) \<and>
    decode_loop ctx out (EVP_EncodeBlock xs @ inp) = decode_loop ctx' (out @ xs) inp"
proof (induction xs arbitrary: ctx out rule: EVP_EncodeBlock.induct)
  case 1
  then show ?case by (intro exI [of _ ctx]) simp
next
  case (2 s0)
  from decode_loop_quad [OF 2 quad_pad2 [of s0] alphabet(3) alphabet(3) not_space_pad not_space_pad, of out inp]
  show ?case by (simp add: Let_def)
next
  case (3 s0 s1)
  from decode_loop_quad [OF 3 quad_pad1 [of s0 s1] alphabet(3) alphabet(3) alphabet(3) not_space_pad, of out inp]
  show ?case by (simp add: Let_def del: drop_bit_or)
next
  case (4 s0 s1 s2 src)
  from decode_loop_quad [OF 4(2) quad_three [of s0 s1 s2] alphabet(3) alphabet(3) alphabet(3) alphabet(3),
      of out "EVP_EncodeBlock src @ inp"]
  obtain ctx1 where 1: "at_quad ctx1 False"
    "decode_loop ctx out (EVP_EncodeBlock (s0 # s1 # s2 # src) @ inp) =
      decode_loop ctx1 (out @ [s0, s1, s2]) (EVP_EncodeBlock src @ inp)"
    by (auto simp: Let_def simp del: drop_bit_or)
  from 4(1) [OF refl 1(1), of "out @ [s0, s1, s2]"] obtain ctx2 where
    "at_quad ctx2 (length src mod 3 \<noteq> 0)"
    "decode_loop ctx1 (out @ [s0, s1, s2]) (EVP_EncodeBlock src @ inp) =
      decode_loop ctx2 ((out @ [s0, s1, s2]) @ src) inp" by blast
  with 1(2) show ?case by (intro exI [of _ ctx2]) simp
qed

lemma decode_loop_newline: "decode_loop ctx out (0x0a # inp) = decode_loop ctx out inp"
  by (simp add: is_space_def)

lemma decode_loop_pem_body:
  "at_quad ctx False \<Longrightarrow> \<exists>ctx'. at_quad ctx' (length w mod 3 \<noteq> 0) \<and> decode_loop ctx out (pem_body w) = (True, out @ w, ctx')"
proof (induction w arbitrary: ctx out rule: full_lines.induct)
  case (1 w)
  show ?case
  proof (cases "48 \<le> length w")
    case True
    have w: "w = take 48 w @ drop 48 w" by simp
    have b: "pem_body w = EVP_EncodeBlock (take 48 w) @ 0x0a # pem_body (drop 48 w)"
      using True by (simp add: pem_body_def full_lines.simps [of w] last_line.simps [of w])
    have m: "length w mod 3 = length (drop 48 w) mod 3" "length (take 48 w) mod 3 = 0"
      using True by (auto simp: le_mod_geq mod_diff_eq dest!: le_Suc_ex)
    from decode_loop_encoded [OF "1.prems", of "take 48 w" out "0x0a # pem_body (drop 48 w)"] m(2)
    obtain ctx1 where "at_quad ctx1 False"
      "decode_loop ctx out (pem_body w) = decode_loop ctx1 (out @ take 48 w) (pem_body (drop 48 w))"
      by (auto simp: b decode_loop_newline simp del: decode_loop.simps)
    with "1.IH" [OF True, of ctx1 "out @ take 48 w"] m(1) show ?thesis
      by auto
  next
    case False
    then have b: "pem_body w = (if w = [] then [] else EVP_EncodeBlock w @ [0x0a])"
      by (simp add: pem_body_def full_lines_short last_line_short)
    from decode_loop_encoded [OF "1.prems", of w out "[0x0a]"] decode_loop_newline "1.prems" show ?thesis
      by (auto simp: b intro: exI [of _ ctx])
  qed
qed

text \<open>
  A caller that feeds chunks until the end and collects as much of the output as each call says; \<open>None\<close> when a
  call or the final check returns -1.
\<close>

fun decode_stream :: "evp_encode_ctx \<Rightarrow> bytes list \<Rightarrow> bytes option" where
  "decode_stream ctx [] = (if EVP_DecodeFinal ctx = 1 then Some [] else None)"
| "decode_stream ctx (c # cs) =
     (case EVP_DecodeUpdate ctx c of
        (r, out, n, ctx') \<Rightarrow> if r = -1 then None else map_option (\<lambda>rest. take n out @ rest) (decode_stream ctx' cs))"

lemma decode_stream_loop:
  "\<not> error_encountered ctx \<Longrightarrow> decode_loop ctx [] (concat cs) = (True, w, ctx') \<Longrightarrow> length w \<le> INT_MAX \<Longrightarrow>
    \<not> error_encountered ctx' \<Longrightarrow> data_used ctx' = 0 \<Longrightarrow> decode_stream ctx cs = Some w"
proof (induction cs arbitrary: ctx w)
  case Nil
  then show ?case by (auto simp: EVP_DecodeFinal_def)
next
  case (Cons c cs)
  obtain r o1 c1 where c1: "decode_loop ctx [] c = (r, o1, c1)" by (metis prod_cases3)
  with Cons.prems(2) have r: "r" and rest: "decode_loop c1 (o1 @ []) (concat cs) = (True, w, ctx')"
    by (auto simp: decode_loop_append split: bool.splits)
  from rest obtain o2 where o2: "decode_loop c1 [] (concat cs) = (True, o2, ctx')" "w = o1 @ o2"
    unfolding decode_loop_prefix by (auto split: prod.splits)
  have ne: "\<not> error_encountered c1"
  proof -
    have "decode_loop ctx out xs = (True, o', c') \<Longrightarrow> error_encountered c' = error_encountered ctx"
      for ctx out xs o' c'
      by (induction ctx out xs rule: decode_loop.induct)
        (auto simp: Let_def split: if_splits option.splits)
    from this [OF c1 [unfolded r [THEN eqTrueI]]] Cons.prems(1) show ?thesis by simp
  qed
  have "decode_stream c1 cs = Some o2"
    by (rule Cons.IH [OF ne o2(1)]) (use Cons.prems o2(2) in auto)
  then show ?case
    using c1 r Cons.prems(1,3) o2(2) by (auto simp: EVP_DecodeUpdate_def)
qed

lemma decode_stream_pem_body:
  "concat cs = pem_body w \<Longrightarrow> length w \<le> INT_MAX \<Longrightarrow> decode_stream EVP_DecodeInit cs = Some w"
proof -
  assume cs: "concat cs = pem_body w" and w: "length w \<le> INT_MAX"
  have "at_quad EVP_DecodeInit False" by (simp add: at_quad_def EVP_DecodeInit_def)
  from decode_loop_pem_body [OF this, of w "[]"] obtain ctx' where
    "at_quad ctx' (length w mod 3 \<noteq> 0)" "decode_loop EVP_DecodeInit [] (pem_body w) = (True, w, ctx')" by auto
  then show ?thesis
    using w decode_stream_loop [of EVP_DecodeInit cs w ctx'] cs
    by (auto simp: at_quad_def EVP_DecodeInit_def)
qed

section \<open>Properties\<close>

text \<open>C11: decoding a block of Base64 gives back the bytes that were encoded, padding included.\<close>

theorem base64_block_roundtrip:
  assumes "3 * ((length xs + 2) div 3) \<le> max_out"
  shows "EVP_DecodeBase64 max_out (EVP_EncodeBlock xs) = Some xs"
  using assms by (rule EVP_DecodeBase64_encode)

theorem base64_block_roundtrip_witness:
  "EVP_DecodeBase64 3 (EVP_EncodeBlock [0xff]) = Some [0xff]"
  by (rule base64_block_roundtrip) simp

text \<open>
  C12: the streaming encoder writes the same text however the data is cut into calls, the lines of the one-shot encoding of
  48 bytes each and a last line for the rest (\<open>pem_body\<close>), and the streaming decoder, fed that text cut in any other way,
  gives the data back. Callers go by the output lengths that the calls report; calls of up to \<open>2 ^ 30\<close> bytes are covered.
\<close>

theorem base64_stream_roundtrip:
  assumes "list_all (\<lambda>c. length c \<le> 2 ^ 30) chunks"
  shows "encode_stream EVP_EncodeInit chunks = pem_body (concat chunks) \<and>
    (length (concat chunks) \<le> INT_MAX \<longrightarrow>
      (\<forall>pieces. concat pieces = encode_stream EVP_EncodeInit chunks \<longrightarrow>
        decode_stream EVP_DecodeInit pieces = Some (concat chunks)))"
  using decode_stream_pem_body unfolding encode_stream_spec [OF assms] by simp

theorem base64_stream_roundtrip_witness:
  "encode_stream EVP_EncodeInit [[1, 2], [3, 4]] = pem_body [1, 2, 3, 4] \<and>
   decode_stream EVP_DecodeInit [take 3 (encode_stream EVP_EncodeInit [[1, 2], [3, 4]]),
     drop 3 (encode_stream EVP_EncodeInit [[1, 2], [3, 4]])] = Some [1, 2, 3, 4]"
proof -
  let ?t = "encode_stream EVP_EncodeInit [[1, 2], [3, 4]]"
  have "?t = pem_body (concat [[1, 2], [3, 4]]) \<and> (length (concat [[1 :: u8, 2], [3, 4]]) \<le> INT_MAX \<longrightarrow>
      (\<forall>pieces. concat pieces = ?t \<longrightarrow> decode_stream EVP_DecodeInit pieces = Some (concat [[1, 2], [3, 4]])))"
    by (rule base64_stream_roundtrip) simp
  moreover have "concat [take 3 ?t, drop 3 ?t] = ?t" by (simp del: encode_stream.simps)
  ultimately show ?thesis by (simp del: encode_stream.simps decode_stream.simps)
qed

end
