(* ===== verification/Stack.thy ===== *)
theory Stack
  imports Comparator
begin

text \<open>
  \<open>crypto/stack/stack.c\<close>: the growable array of pointers behind \<open>STACK_OF\<close>, with its sorted flag
  and binary search. A pointer is an option (\<open>None\<close> is NULL), a stack that may be NULL an option
  too. The comparison function stored in a stack is a name that \<open>call_cmp_func\<close> runs, as in C.
  The contents are \<open>elements\<close>, the first \<open>num\<close> entries of the allocated block; \<open>num_alloc\<close> is the
  length of the block.
\<close>

type_synonym 'p ptr = "'p option"

record ('c, 'p) stack_st =
  num :: nat
  data :: "'p ptr list"
  sorted_flag :: bool
  comp :: "'c option"

abbreviation num_alloc :: "('c, 'p) stack_st \<Rightarrow> nat" where
  "num_alloc sk \<equiv> length (data sk)"

text \<open>\<open>realloc\<close> to \<open>n\<close> entries: new entries are unspecified in C and NULL here.\<close>

definition resize :: "nat \<Rightarrow> 'p ptr list \<Rightarrow> 'p ptr list" where
  "resize n xs = take n xs @ replicate (n - length xs) None"

definition kMinSize :: nat where "kMinSize = 4"

definition sk_new :: "allocator \<Rightarrow> 'c option \<Rightarrow> ('c, 'p) stack_st option" where
  "sk_new al c =
     (if \<not> al 40 then None
      else if \<not> al (8 * kMinSize) then None
      else Some \<lparr>num = 0, data = replicate kMinSize None, sorted_flag = False, comp = c\<rparr>)"

definition sk_new_null :: "allocator \<Rightarrow> ('c, 'p) stack_st option" where
  "sk_new_null al = sk_new al None"

definition sk_num :: "('c, 'p) stack_st option \<Rightarrow> nat" where
  "sk_num s = (case s of None \<Rightarrow> 0 | Some sk \<Rightarrow> num sk)"

definition sk_zero :: "('c, 'p) stack_st option \<Rightarrow> ('c, 'p) stack_st option" where
  "sk_zero s =
     (case s of
        None \<Rightarrow> None
      | Some sk \<Rightarrow>
          if num sk = 0 then Some sk
          else Some (sk\<lparr>data := blit 0 (replicate (num sk) None) (data sk), num := 0, sorted_flag := False\<rparr>))"

definition sk_value :: "('c, 'p) stack_st option \<Rightarrow> nat \<Rightarrow> 'p ptr" where
  "sk_value s i = (case s of None \<Rightarrow> None | Some sk \<Rightarrow> if i \<ge> num sk then None else data sk ! i)"

definition sk_set ::
  "('c, 'p) stack_st option \<Rightarrow> nat \<Rightarrow> 'p ptr \<Rightarrow> 'p ptr \<times> ('c, 'p) stack_st option" where
  "sk_set s i p =
     (case s of
        None \<Rightarrow> (None, None)
      | Some sk \<Rightarrow>
          if i \<ge> num sk then (None, Some sk) else (p, Some (sk\<lparr>data := (data sk)[i := p]\<rparr>)))"

text \<open>The pointers \<open>sk_pop_free_ex\<close> hands to the free function, in order.\<close>

definition sk_pop_free_ex :: "('c, 'p) stack_st option \<Rightarrow> 'p list" where
  "sk_pop_free_ex s =
     (case s of None \<Rightarrow> [] | Some sk \<Rightarrow> List.map_filter (\<lambda>p. p) (take (num sk) (data sk)))"

text \<open>Making room in \<open>sk_insert\<close>: the array is doubled, or grown by one where doubling overflows.\<close>

definition sk_grow :: "allocator \<Rightarrow> ('c, 'p) stack_st \<Rightarrow> ('c, 'p) stack_st option" where
  "sk_grow al sk =
     (if num_alloc sk \<le> num sk + 1 then
        let new_alloc = (num_alloc sk * 2) mod size_lim;
            alloc_size = (new_alloc * 8) mod size_lim;
            bad = new_alloc < num_alloc sk \<or> alloc_size div 8 \<noteq> new_alloc;
            new_alloc = (if bad then (num_alloc sk + 1) mod size_lim else new_alloc);
            alloc_size = (new_alloc * 8) mod size_lim
        in if new_alloc < num_alloc sk \<or> alloc_size div 8 \<noteq> new_alloc then None
           else if \<not> al alloc_size then None
           else Some (sk\<lparr>data := resize new_alloc (data sk)\<rparr>)
      else Some sk)"

definition sk_insert ::
  "allocator \<Rightarrow> ('c, 'p) stack_st option \<Rightarrow> 'p ptr \<Rightarrow> nat \<Rightarrow> nat \<times> ('c, 'p) stack_st option" where
  "sk_insert al s p idx =
     (case s of
        None \<Rightarrow> (0, None)
      | Some sk \<Rightarrow>
          (case sk_grow al sk of
             None \<Rightarrow> (0, Some sk)
           | Some sk \<Rightarrow>
               let d = (if idx \<ge> num sk then (data sk)[num sk := p]
                        else (blit (idx + 1) (take (num sk - idx) (drop idx (data sk))) (data sk))
                               [idx := p])
               in (num sk + 1, Some (sk\<lparr>data := d, num := num sk + 1, sorted_flag := False\<rparr>))))"

definition sk_delete ::
  "('c, 'p) stack_st option \<Rightarrow> nat \<Rightarrow> 'p ptr \<times> ('c, 'p) stack_st option" where
  "sk_delete s idx =
     (case s of
        None \<Rightarrow> (None, None)
      | Some sk \<Rightarrow>
          if idx \<ge> num sk then (None, Some sk)
          else
            let d = (if idx \<noteq> num sk - 1
                     then blit idx (take (num sk - idx - 1) (drop (idx + 1) (data sk))) (data sk)
                     else data sk)
            in (data sk ! idx, Some (sk\<lparr>data := d, num := num sk - 1\<rparr>)))"

text \<open>The search loops from index \<open>i\<close> on.\<close>

fun find_from :: "('p ptr \<Rightarrow> bool) \<Rightarrow> nat \<Rightarrow> 'p ptr list \<Rightarrow> nat option" where
  "find_from P i [] = None"
| "find_from P i (x # xs) = (if P x then Some i else find_from P (i + 1) xs)"

definition sk_delete_ptr ::
  "('c, 'p) stack_st option \<Rightarrow> 'p ptr \<Rightarrow> 'p ptr \<times> ('c, 'p) stack_st option" where
  "sk_delete_ptr s p =
     (case s of
        None \<Rightarrow> (None, None)
      | Some sk \<Rightarrow>
          (case find_from (\<lambda>x. x = p) 0 (take (num sk) (data sk)) of
             None \<Rightarrow> (None, s)
           | Some i \<Rightarrow> sk_delete s i))"

definition sk_is_sorted :: "('c, 'p) stack_st option \<Rightarrow> bool" where
  "sk_is_sorted s = (case s of None \<Rightarrow> True | Some sk \<Rightarrow> sorted_flag sk)"

text \<open>The binary search; \<open>r\<close> compares the key with the element at an index.\<close>

function bsearch_loop :: "(nat \<Rightarrow> int) \<Rightarrow> nat \<Rightarrow> nat \<Rightarrow> nat option" where
  "bsearch_loop r lo hi =
     (if lo < hi then
        let mid = lo + (hi - lo - 1) div 2
        in if r mid > 0 then bsearch_loop r (mid + 1) hi
           else if r mid < 0 then bsearch_loop r lo mid
           else if hi - lo = 1 then Some mid
           else bsearch_loop r lo (mid + 1)
      else None)"
  by pat_completeness auto
termination
  by (relation "measure (\<lambda>(r, lo, hi). hi - lo)") (auto simp: Let_def)

declare bsearch_loop.simps [simp del]

definition sk_find ::
  "('c \<Rightarrow> 'p ptr \<Rightarrow> 'p ptr \<Rightarrow> int) \<Rightarrow> ('c, 'p) stack_st option \<Rightarrow> 'p ptr \<Rightarrow> nat option" where
  "sk_find call_cmp_func s p =
     (case s of
        None \<Rightarrow> None
      | Some sk \<Rightarrow>
          (case comp sk of
             None \<Rightarrow> find_from (\<lambda>x. x = p) 0 (take (num sk) (data sk))
           | Some c \<Rightarrow>
               if p = None then None
               else if \<not> sk_is_sorted s
               then find_from (\<lambda>x. call_cmp_func c p x = 0) 0 (take (num sk) (data sk))
               else bsearch_loop (\<lambda>i. call_cmp_func c p (data sk ! i)) 0 (num sk)))"

definition sk_shift :: "('c, 'p) stack_st option \<Rightarrow> 'p ptr \<times> ('c, 'p) stack_st option" where
  "sk_shift s =
     (case s of None \<Rightarrow> (None, None) | Some sk \<Rightarrow> if num sk = 0 then (None, s) else sk_delete s 0)"

definition sk_push ::
  "allocator \<Rightarrow> ('c, 'p) stack_st option \<Rightarrow> 'p ptr \<Rightarrow> nat \<times> ('c, 'p) stack_st option" where
  "sk_push al s p = sk_insert al s p (sk_num s)"

definition sk_pop :: "('c, 'p) stack_st option \<Rightarrow> 'p ptr \<times> ('c, 'p) stack_st option" where
  "sk_pop s =
     (case s of None \<Rightarrow> (None, None) | Some sk \<Rightarrow> if num sk = 0 then (None, s) else sk_delete s (num sk - 1))"

definition sk_dup :: "allocator \<Rightarrow> ('c, 'p) stack_st option \<Rightarrow> ('c, 'p) stack_st option" where
  "sk_dup al s =
     (case s of
        None \<Rightarrow> None
      | Some sk \<Rightarrow>
          (case sk_new al (comp sk) of
             None \<Rightarrow> None
           | Some ret \<Rightarrow>
               if \<not> al (8 * num_alloc sk) then None
               else Some (ret\<lparr>data := blit 0 (take (num sk) (data sk)) (resize (num_alloc sk) (data ret)),
                              num := num sk, sorted_flag := sorted_flag sk, comp := comp sk\<rparr>)))"

definition sk_sort ::
  "('c \<Rightarrow> 'p ptr \<Rightarrow> 'p ptr \<Rightarrow> int) \<Rightarrow> ('c, 'p) stack_st option \<Rightarrow> ('c, 'p) stack_st option" where
  "sk_sort call_cmp_func s =
     (case s of
        None \<Rightarrow> None
      | Some sk \<Rightarrow>
          (case comp sk of
             None \<Rightarrow> Some sk
           | Some c \<Rightarrow>
               if sorted_flag sk then Some sk
               else Some (sk\<lparr>data := (if num sk \<ge> 2
                                then blit 0 (qsort (call_cmp_func c) (take (num sk) (data sk))) (data sk)
                                else data sk),
                              sorted_flag := True\<rparr>)))"

definition sk_set_cmp_func ::
  "('c, 'p) stack_st \<Rightarrow> 'c option \<Rightarrow> 'c option \<times> ('c, 'p) stack_st" where
  "sk_set_cmp_func sk c =
     (comp sk, sk\<lparr>sorted_flag := (if comp sk \<noteq> c then False else sorted_flag sk), comp := c\<rparr>)"

text \<open>
  The copy loop of \<open>sk_deep_copy\<close>: the copies, or the pointers freed when a copy fails.
  \<open>done\<close> holds the entries before the current one.
\<close>

fun copy_loop :: "('p \<Rightarrow> 'p ptr) \<Rightarrow> 'p ptr list \<Rightarrow> 'p ptr list \<Rightarrow> 'p list + 'p ptr list" where
  "copy_loop copy before [] = Inr before"
| "copy_loop copy before (None # xs) = copy_loop copy (before @ [None]) xs"
| "copy_loop copy before (Some p # xs) =
     (case copy p of
        None \<Rightarrow> Inl (List.map_filter (\<lambda>p. p) before)
      | Some q \<Rightarrow> copy_loop copy (before @ [Some q]) xs)"

text \<open>The result and the list of pointers freed.\<close>

definition sk_deep_copy ::
  "allocator \<Rightarrow> ('p \<Rightarrow> 'p ptr) \<Rightarrow> ('c, 'p) stack_st option \<Rightarrow> ('c, 'p) stack_st option \<times> 'p list" where
  "sk_deep_copy al copy s =
     (case sk_dup al s of
        None \<Rightarrow> (None, [])
      | Some ret \<Rightarrow>
          (case copy_loop copy [] (take (num ret) (data ret)) of
             Inl freed \<Rightarrow> (None, freed)
           | Inr copies \<Rightarrow> (Some (ret\<lparr>data := blit 0 copies (data ret)\<rparr>), [])))"

subsection \<open>The stack as a list\<close>

definition elements :: "('c, 'p) stack_st \<Rightarrow> 'p ptr list" where
  "elements sk = take (num sk) (data sk)"

text \<open>The invariant: the array holds the elements, and the flag promises their order.\<close>

definition wf_stack :: "('c \<Rightarrow> 'p ptr \<Rightarrow> 'p ptr \<Rightarrow> int) \<Rightarrow> ('c, 'p) stack_st \<Rightarrow> bool" where
  "wf_stack call sk \<longleftrightarrow> num sk \<le> num_alloc sk \<and> 0 < num_alloc sk \<and>
     (\<forall>c. sorted_flag sk \<longrightarrow> comp sk = Some c \<longrightarrow> cmp_sorted (call c) (elements sk))"

lemma length_elements [simp]: "wf_stack call sk \<Longrightarrow> length (elements sk) = num sk"
  by (simp add: elements_def wf_stack_def)

lemma sk_new_elements:
  "sk_new al c = Some sk \<Longrightarrow> elements sk = [] \<and> wf_stack call sk \<and> comp sk = c"
  by (auto simp: sk_new_def elements_def wf_stack_def kMinSize_def split: if_splits)

lemma double_mod_neq: "0 < a \<Longrightarrow> a < m \<Longrightarrow> (a * 2) mod m \<noteq> (a :: nat)"
  by (cases "a * 2 < m") (auto simp: le_mod_geq not_less)

lemma Suc_mod_neq: "0 < a \<Longrightarrow> a < m \<Longrightarrow> Suc a mod m \<noteq> (a :: nat)"
  by (cases "Suc a = m") auto

lemma sk_grow_room:
  assumes g: "sk_grow al sk = Some sk'" and n: "num sk \<le> num_alloc sk" "0 < num_alloc sk"
  shows "num sk < num_alloc sk' \<and> elements sk' = elements sk \<and> num sk' = num sk \<and> comp sk' = comp sk"
proof (cases "num_alloc sk \<le> num sk + 1")
  case True
  define a where "a = num_alloc sk"
  define m where "m = size_lim"
  define n1 where "n1 = (a * 2) mod m"
  define n2 where "n2 = (if n1 < a \<or> (n1 * 8) mod m div 8 \<noteq> n1 then (a + 1) mod m else n1)"
  have "sk_grow al sk =
      (if n2 < a \<or> (n2 * 8) mod m div 8 \<noteq> n2 then None
       else if \<not> al ((n2 * 8) mod m) then None else Some (sk\<lparr>data := resize n2 (data sk)\<rparr>))"
    unfolding sk_grow_def Let_def n2_def n1_def a_def m_def by (rule if_P [OF True])
  with g have ok: "\<not> n2 < a" and sk': "sk' = sk\<lparr>data := resize n2 (data sk)\<rparr>"
    by (simp_all split: if_splits)
  have "n2 \<noteq> a"
  proof
    assume eq: "n2 = a"
    have "n2 < m" by (simp add: n2_def n1_def m_def)
    then have "a < m" "0 < a" using eq n by (auto simp: a_def)
    with eq double_mod_neq [of a m] Suc_mod_neq [of a m] show False
      by (auto simp: n2_def n1_def split: if_splits)
  qed
  with ok have "num_alloc sk < n2" by (simp add: a_def)
  with n show ?thesis by (simp add: sk' resize_def elements_def)
next
  case False
  with g show ?thesis by (simp add: sk_grow_def)
qed

lemma sk_insert_elements:
  assumes wf: "wf_stack call sk" and i: "sk_insert al (Some sk) p i = (n, s')" and n: "n \<noteq> 0"
  obtains sk' where "s' = Some sk'" "elements sk' = take i (elements sk) @ p # drop i (elements sk)"
    "wf_stack call sk'" "\<not> sorted_flag sk'" "n = num sk + 1" "num sk' = n" "comp sk' = comp sk"
proof -
  obtain sk1 where g: "sk_grow al sk = Some sk1"
    using i n by (cases "sk_grow al sk") (auto simp: sk_insert_def)
  have r: "num sk < num_alloc sk1" "elements sk1 = elements sk" "num sk1 = num sk" "comp sk1 = comp sk"
    using sk_grow_room [OF g] wf by (auto simp: wf_stack_def)
  let ?old = "data sk1"
  let ?d = "if i \<ge> num sk then ?old[num sk := p]
            else (blit (i + 1) (take (num sk - i) (drop i ?old)) ?old)[i := p]"
  have le: "length (elements sk) = num sk" using wf by simp
  have t: "take (num sk) ?old = elements sk" using r by (simp add: elements_def)
  have "take (num sk + 1) ?d = take i (elements sk) @ p # drop i (elements sk)"
  proof (cases "i \<ge> num sk")
    case True
    then show ?thesis using r t le by (simp add: take_Suc_conv_app_nth take_update_cancel)
  next
    case False
    have "take (num sk - i) (drop i ?old) = drop i (elements sk)"
      by (simp add: t [symmetric] drop_take)
    moreover have "take (i + 1) ?old = take i (elements sk) @ [?old ! i]"
      using False r by (simp add: take_Suc_conv_app_nth t [symmetric] min_def)
    ultimately have "blit (i + 1) (take (num sk - i) (drop i ?old)) ?old =
        take i (elements sk) @ ?old ! i # drop i (elements sk) @ drop (num sk + 1) ?old"
      using False le by (simp add: blit_def)
    then show ?thesis using False le by (simp add: list_update_append Suc_diff_le)
  qed
  moreover have "num sk + 1 \<le> length ?d" using r by (auto simp: blit_def)
  moreover define sk' where "sk' = sk1\<lparr>data := ?d, num := num sk + 1, sorted_flag := False\<rparr>"
  ultimately have "elements sk' = take i (elements sk) @ p # drop i (elements sk)" "wf_stack call sk'"
    by (auto simp only: elements_def wf_stack_def) (simp_all add: sk'_def)
  moreover have "n = num sk + 1" "s' = Some sk'"
    using i g r by (auto simp: sk_insert_def Let_def sk'_def)
  ultimately show ?thesis using r by (intro that [of sk']) (simp_all add: sk'_def)
qed

lemma sk_delete_elements:
  assumes wf: "wf_stack call sk" and i: "i < num sk"
  obtains sk' where "sk_delete (Some sk) i = (elements sk ! i, Some sk')"
    "elements sk' = take i (elements sk) @ drop (i + 1) (elements sk)" "wf_stack call sk'"
    "num sk' = num sk - 1" "comp sk' = comp sk" "sorted_flag sk' = sorted_flag sk"
proof -
  let ?es = "elements sk"
  let ?d = "if i \<noteq> num sk - 1 then blit i (take (num sk - i - 1) (drop (i + 1) (data sk))) (data sk) else data sk"
  have l: "length ?es = num sk" "num sk \<le> num_alloc sk" "0 < num_alloc sk"
    using wf by (auto simp: wf_stack_def elements_def)
  have es: "take (num sk - 1) ?d = take i ?es @ drop (i + 1) ?es"
  proof (cases "i = num sk - 1")
    case True
    then show ?thesis using i by (simp add: elements_def min_def)
  next
    case False
    have "take (num sk - i - 1) (drop (i + 1) (data sk)) = drop (i + 1) ?es"
      by (simp add: elements_def drop_take)
    moreover have "take i (data sk) = take i ?es" using i by (simp add: elements_def min_def)
    ultimately show ?thesis using False i l by (simp add: blit_def)
  qed
  have "num sk - 1 \<le> length ?d" "0 < length ?d" using i l by (auto simp: blit_def)
  moreover have "cmp_sorted f ?es \<Longrightarrow> cmp_sorted f (take i ?es @ drop (i + 1) ?es)" for f
    using i l by (subst (asm) id_take_nth_drop [of i]) (auto simp: sorted_wrt_append)
  moreover have "data sk ! i = ?es ! i" using i by (simp add: elements_def)
  ultimately show ?thesis
    using i wf es by (intro that [of "sk\<lparr>data := ?d, num := num sk - 1\<rparr>"])
      (auto simp: sk_delete_def Let_def elements_def wf_stack_def simp del: One_nat_def)
qed

subsection \<open>Searching\<close>

text \<open>Both searches are compared with the library's \<open>List.find\<close> on the indices.\<close>

lemma find_append: "List.find P (xs @ ys) = (case List.find P xs of None \<Rightarrow> List.find P ys | Some x \<Rightarrow> Some x)"
  by (induction xs) auto

lemma find_upt_skip:
  assumes "\<And>i. lo \<le> i \<Longrightarrow> i < m \<Longrightarrow> \<not> P i" "lo \<le> m" "m \<le> hi"
  shows "List.find P [lo..<hi] = List.find P [m..<hi]"
proof -
  have "List.find P [lo..<m] = None" using assms(1) by (auto simp: find_None_iff)
  then show ?thesis using upt_add_eq_append [of lo m "hi - m"] assms by (simp add: find_append)
qed

lemma find_upt_cut:
  assumes "\<And>i. m \<le> i \<Longrightarrow> i < hi \<Longrightarrow> \<not> P i" "lo \<le> m" "m \<le> hi"
  shows "List.find P [lo..<hi] = List.find P [lo..<m]"
proof -
  have "List.find P [m..<hi] = None" using assms(1) by (auto simp: find_None_iff)
  then show ?thesis
    using upt_add_eq_append [of lo m "hi - m"] assms by (simp add: find_append split: option.split)
qed

lemma find_upt_hit:
  assumes "P m" "lo \<le> m" "m < hi"
  shows "List.find P [lo..<hi] = List.find P [lo..<m + 1]"
proof -
  have "List.find P [lo..<m + 1] \<noteq> None" using assms by (auto simp: find_None_iff)
  then show ?thesis
    using upt_add_eq_append [of lo "m + 1" "hi - (m + 1)"] assms
    by (auto simp: find_append simp del: upt_Suc split: option.split)
qed

lemma find_from_eq: "find_from P i xs = List.find (\<lambda>j. P (xs ! (j - i))) [i..<i + length xs]"
proof (induction P i xs rule: find_from.induct)
  case (2 P i x xs)
  have "List.find (\<lambda>j. P ((x # xs) ! (j - i))) [i + 1..<i + 1 + length xs] =
      List.find (\<lambda>j. P (xs ! (j - (i + 1)))) [i + 1..<i + 1 + length xs]"
    by (rule find_cong) (auto simp: Suc_diff_le nth_Cons')
  moreover have "[i..<i + length (x # xs)] = i # [i + 1..<i + 1 + length xs]"
    by (simp add: upt_conv_Cons del: upt_Suc)
  ultimately show ?case using 2 by simp
qed simp

text \<open>
  The binary search finds the first index where the comparison is zero, when the comparisons
  fall from positive through zero to negative along the interval.
\<close>

lemma bsearch_loop_first:
  assumes "\<And>i j. lo \<le> i \<Longrightarrow> i \<le> j \<Longrightarrow> j < hi \<Longrightarrow> sgn (r j) \<le> sgn (r i :: int)"
  shows "bsearch_loop r lo hi = List.find (\<lambda>i. r i = 0) [lo..<hi]"
  using assms
proof (induction r lo hi rule: bsearch_loop.induct)
  case (1 r lo hi)
  let ?P = "\<lambda>i. r i = 0"
  show ?case
  proof (cases "lo < hi")
    case True
    define mid where "mid = lo + (hi - lo - 1) div 2"
    have mid: "lo \<le> mid" "mid < hi" using True by (auto simp: mid_def)
    have mono: "sgn (r j) \<le> sgn (r i)" if "lo \<le> i" "i \<le> j" "j < hi" for i j
      using 1(4) that by blast
    have step: "bsearch_loop r lo hi =
        (if r mid > 0 then bsearch_loop r (mid + 1) hi
         else if r mid < 0 then bsearch_loop r lo mid
         else if hi - lo = 1 then Some mid
         else bsearch_loop r lo (mid + 1))"
      by (subst bsearch_loop.simps) (simp only: True if_True Let_def mid_def)
    consider "r mid > 0" | "r mid < 0" | "r mid = 0" "hi - lo = 1" | "r mid = 0" "hi - lo \<noteq> 1"
      by linarith
    then show ?thesis
    proof cases
      case above: 1
      have "r i \<noteq> 0" if "lo \<le> i" "i < mid + 1" for i
        using mono [of i mid] that mid above by auto
      then have "List.find ?P [lo..<hi] = List.find ?P [mid + 1..<hi]"
        using mid by (intro find_upt_skip) auto
      moreover have "bsearch_loop r (mid + 1) hi = List.find ?P [mid + 1..<hi]"
        by (rule "1.IH"(1) [OF True mid_def above]) (use mono mid in auto)
      ultimately show ?thesis
        using above by (simp add: step)
    next
      case below: 2
      have "r i \<noteq> 0" if "mid \<le> i" "i < hi" for i
        using mono [of mid i] that mid below by auto
      then have "List.find ?P [lo..<hi] = List.find ?P [lo..<mid]"
        using mid by (intro find_upt_cut) auto
      moreover have "bsearch_loop r lo mid = List.find ?P [lo..<mid]"
        by (rule "1.IH"(2) [OF True mid_def _ below]) (use mono mid below in auto)
      ultimately show ?thesis
        using below by (simp add: step)
    next
      case 3
      then have "bsearch_loop r lo hi = Some mid" using step by simp
      moreover have "hi = lo + 1" "mid = lo" using 3 by (auto simp: mid_def)
      ultimately show ?thesis using 3 by simp
    next
      case hit: 4
      have "List.find ?P [lo..<hi] = List.find ?P [lo..<mid + 1]"
        using mid hit by (intro find_upt_hit) auto
      moreover have "bsearch_loop r lo (mid + 1) = List.find ?P [lo..<mid + 1]"
        by (rule "1.IH"(3) [OF True mid_def _ _ hit(2)]) (use mono mid hit in auto)
      ultimately show ?thesis
        using hit by (simp add: step)
    qed
  next
    case False
    then show ?thesis by (subst bsearch_loop.simps) simp
  qed
qed

lemma sk_find_first:
  assumes wf: "wf_stack call sk" and c: "comp sk = Some c" and cmp: "comparator (call c) carrier"
    and p: "p \<noteq> None" "p \<in> carrier" and es: "set (elements sk) \<subseteq> carrier"
  shows "sk_find call (Some sk) p = List.find (\<lambda>i. call c p (elements sk ! i) = 0) [0..<num sk]"
proof (cases "sorted_flag sk")
  case True
  have n: "length (elements sk) = num sk" using wf by simp
  have fall: "sgn (call c p (data sk ! j)) \<le> sgn (call c p (data sk ! i))"
    if "i \<le> j" "j < num sk" for i j
    using comparator.sorted_comparisons_fall [OF cmp _ es p(2) that(1)] wf c True that n
    by (auto simp: wf_stack_def elements_def)
  have "bsearch_loop (\<lambda>i. call c p (data sk ! i)) 0 (num sk) =
      List.find (\<lambda>i. call c p (data sk ! i) = 0) [0..<num sk]"
    by (rule bsearch_loop_first) (use fall in auto)
  also have "\<dots> = List.find (\<lambda>i. call c p (elements sk ! i) = 0) [0..<num sk]"
    by (rule find_cong) (auto simp: elements_def)
  finally show ?thesis using True c p by (auto simp: sk_find_def sk_is_sorted_def)
next
  case False
  then show ?thesis
    using c p wf by (auto simp: sk_find_def sk_is_sorted_def find_from_eq simp flip: elements_def)
qed

subsection \<open>Sorting and copying\<close>

lemma sk_zero_elements:
  assumes "wf_stack call sk"
  obtains sk' where "sk_zero (Some sk) = Some sk'" "elements sk' = []" "wf_stack call sk'" "comp sk' = comp sk"
proof (cases "num sk = 0")
  case True
  then show ?thesis using assms by (intro that [of sk]) (auto simp: sk_zero_def elements_def)
next
  case False
  then show ?thesis
    using assms
    by (intro that [of "sk\<lparr>data := blit 0 (replicate (num sk) None) (data sk), num := 0, sorted_flag := False\<rparr>"])
      (auto simp: sk_zero_def elements_def wf_stack_def)
qed

lemma elements_data_blit:
  assumes "num sk \<le> num_alloc sk" "length xs = num sk"
  shows "elements (sk\<lparr>data := blit 0 xs (data sk)\<rparr>) = xs"
  using assms by (simp add: elements_def blit_def)

lemma sorted_wrt_short: "length xs \<le> 1 \<Longrightarrow> sorted_wrt P xs"
  by (cases xs) auto

lemma sk_sort_elements:
  assumes wf: "wf_stack call sk" and cmp: "\<And>c. comparator (call c) carrier"
    and es: "set (elements sk) \<subseteq> carrier"
  obtains sk' where "sk_sort call (Some sk) = Some sk'" "mset (elements sk') = mset (elements sk)"
    "wf_stack call sk'" "comp sk' = comp sk" "comp sk \<noteq> None \<longrightarrow> sorted_flag sk'"
proof (cases "comp sk")
  case None
  then show ?thesis using wf by (intro that [of sk]) (auto simp: sk_sort_def)
next
  case (Some c)
  show ?thesis
  proof (cases "sorted_flag sk")
    case True
    with Some wf show ?thesis by (intro that [of sk]) (auto simp: sk_sort_def)
  next
    case False
    let ?q = "qsort (call c) (elements sk)"
    define sk' where "sk' = sk\<lparr>data := (if num sk \<ge> 2 then blit 0 ?q (data sk) else data sk),
        sorted_flag := True\<rparr>"
    have n: "num sk \<le> num_alloc sk" "length (elements sk) = num sk" "0 < num_alloc sk"
      using wf by (auto simp: wf_stack_def elements_def)
    have eq: "elements sk' = (if num sk \<ge> 2 then ?q else elements sk)"
      using n elements_data_blit [of sk ?q] by (auto simp: sk'_def elements_def)
    have "cmp_sorted (call c) (elements sk')"
    proof (cases "num sk \<ge> 2")
      case True
      then show ?thesis using comparator.sorted_qsort [OF cmp es] eq by simp
    next
      case False
      with eq n show ?thesis by (simp add: sorted_wrt_short)
    qed
    moreover have "mset (elements sk') = mset (elements sk)" using eq by simp
    ultimately show ?thesis
      using Some False n wf by (intro that [of sk'])
        (auto simp: sk_sort_def wf_stack_def sk'_def elements_def)
  qed
qed

lemma sk_dup_elements:
  assumes "wf_stack call sk" "sk_dup al (Some sk) = Some sk'"
  shows "elements sk' = elements sk \<and> wf_stack call sk' \<and> comp sk' = comp sk \<and>
    num sk' = num sk \<and> sorted_flag sk' = sorted_flag sk"
  using assms
  by (auto simp: sk_dup_def wf_stack_def elements_def blit_def resize_def split: option.splits if_splits)

lemma copy_loop_eq:
  "copy_loop copy before xs =
     (let made = takeWhile (\<lambda>p. p = None \<or> Option.bind p copy \<noteq> None) xs
      in if made = xs then Inr (before @ map (\<lambda>p. Option.bind p copy) xs)
         else Inl (List.map_filter (\<lambda>p. p) (before @ map (\<lambda>p. Option.bind p copy) made)))"
  by (induction copy before xs rule: copy_loop.induct) (auto simp: Let_def split: option.split)

subsection \<open>The stack as a state machine\<close>

text \<open>
  The operations that change or make a stack, with allocations that may fail at any of them and indices out of
  range. A client stores pointers of \<open>carrier\<close>, the values its comparison functions can order. \<open>sk_set\<close> and
  \<open>sk_deep_copy\<close> keep the sorted flag whatever the new pointers are, so a client that uses them on a sorted stack
  has to keep the order itself; \<open>sk_set_misses\<close> is about one that does not.
\<close>

inductive stack_reachable ::
  "('c \<Rightarrow> 'p ptr \<Rightarrow> 'p ptr \<Rightarrow> int) \<Rightarrow> 'p ptr set \<Rightarrow> ('c, 'p) stack_st \<Rightarrow> bool"
  for call carrier where
  new: "sk_new al c = Some sk \<Longrightarrow> stack_reachable call carrier sk"
| zero: "stack_reachable call carrier sk \<Longrightarrow> sk_zero (Some sk) = Some sk' \<Longrightarrow>
    stack_reachable call carrier sk'"
| insert: "stack_reachable call carrier sk \<Longrightarrow> p \<in> carrier \<Longrightarrow>
    sk_insert al (Some sk) p i = (n, Some sk') \<Longrightarrow> stack_reachable call carrier sk'"
| push: "stack_reachable call carrier sk \<Longrightarrow> p \<in> carrier \<Longrightarrow>
    sk_push al (Some sk) p = (n, Some sk') \<Longrightarrow> stack_reachable call carrier sk'"
| delete: "stack_reachable call carrier sk \<Longrightarrow> sk_delete (Some sk) i = (q, Some sk') \<Longrightarrow>
    stack_reachable call carrier sk'"
| delete_ptr: "stack_reachable call carrier sk \<Longrightarrow> sk_delete_ptr (Some sk) p = (q, Some sk') \<Longrightarrow>
    stack_reachable call carrier sk'"
| shift: "stack_reachable call carrier sk \<Longrightarrow> sk_shift (Some sk) = (q, Some sk') \<Longrightarrow>
    stack_reachable call carrier sk'"
| pop: "stack_reachable call carrier sk \<Longrightarrow> sk_pop (Some sk) = (q, Some sk') \<Longrightarrow>
    stack_reachable call carrier sk'"
| sort: "stack_reachable call carrier sk \<Longrightarrow> sk_sort call (Some sk) = Some sk' \<Longrightarrow>
    stack_reachable call carrier sk'"
| set_cmp: "stack_reachable call carrier sk \<Longrightarrow> sk_set_cmp_func sk c = (old, sk') \<Longrightarrow>
    stack_reachable call carrier sk'"
| dup: "stack_reachable call carrier sk \<Longrightarrow> sk_dup al (Some sk) = Some sk' \<Longrightarrow>
    stack_reachable call carrier sk'"
| set: "stack_reachable call carrier sk \<Longrightarrow> p \<in> carrier \<Longrightarrow>
    (\<And>c. sorted_flag sk \<Longrightarrow> comp sk = Some c \<Longrightarrow> cmp_sorted (call c) ((elements sk)[i := p])) \<Longrightarrow>
    sk_set (Some sk) i p = (q, Some sk') \<Longrightarrow> stack_reachable call carrier sk'"
| deep_copy: "stack_reachable call carrier sk \<Longrightarrow> (\<And>p. p \<in> set (elements sk) \<Longrightarrow> Option.bind p copy \<in> carrier) \<Longrightarrow>
    (\<And>c. sorted_flag sk \<Longrightarrow> comp sk = Some c \<Longrightarrow> cmp_sorted (call c) (map (\<lambda>p. Option.bind p copy) (elements sk))) \<Longrightarrow>
    sk_deep_copy al copy (Some sk) = (Some sk', freed) \<Longrightarrow> stack_reachable call carrier sk'"

definition stack_inv :: "('c \<Rightarrow> 'p ptr \<Rightarrow> 'p ptr \<Rightarrow> int) \<Rightarrow> 'p ptr set \<Rightarrow> ('c, 'p) stack_st \<Rightarrow> bool" where
  "stack_inv call carrier sk \<longleftrightarrow> wf_stack call sk \<and> set (elements sk) \<subseteq> carrier"

lemma stack_inv_insert:
  assumes inv: "stack_inv call carrier sk" and p: "p \<in> carrier" and i: "sk_insert al (Some sk) p i = (n, Some sk')"
  shows "stack_inv call carrier sk'"
proof (cases "n = 0")
  case True
  then have "sk' = sk" using i by (auto simp: sk_insert_def Let_def split: option.splits)
  with inv show ?thesis by simp
next
  case False
  have wf: "wf_stack call sk" using inv by (simp add: stack_inv_def)
  obtain sk1 where "Some sk' = Some sk1"
    "elements sk1 = take i (elements sk) @ p # drop i (elements sk)" "wf_stack call sk1"
    by (rule sk_insert_elements [OF wf i False])
  then show ?thesis
    using inv p by (auto simp: stack_inv_def dest: in_set_takeD in_set_dropD)
qed

lemma stack_inv_delete:
  assumes inv: "stack_inv call carrier sk" and d: "sk_delete (Some sk) i = (q, Some sk')"
  shows "stack_inv call carrier sk'"
proof (cases "i < num sk")
  case True
  have wf: "wf_stack call sk" using inv by (simp add: stack_inv_def)
  obtain sk1 where "sk_delete (Some sk) i = (elements sk ! i, Some sk1)"
    "elements sk1 = take i (elements sk) @ drop (i + 1) (elements sk)" "wf_stack call sk1"
    by (rule sk_delete_elements [OF wf True])
  then show ?thesis
    using inv d by (auto simp: stack_inv_def dest: in_set_takeD in_set_dropD)
next
  case False
  with inv d show ?thesis by (simp add: sk_delete_def)
qed

lemma stack_inv_set:
  assumes inv: "stack_inv call carrier sk" and p: "p \<in> carrier"
    and s: "\<And>c. sorted_flag sk \<Longrightarrow> comp sk = Some c \<Longrightarrow> cmp_sorted (call c) ((elements sk)[i := p])"
    and w: "sk_set (Some sk) i p = (q, Some sk')"
  shows "stack_inv call carrier sk'"
proof (cases "i < num sk")
  case True
  then have sk': "sk' = sk\<lparr>data := (data sk)[i := p]\<rparr>" using w by (auto simp: sk_set_def)
  then have "elements sk' = (elements sk)[i := p]" by (simp add: elements_def take_update_swap)
  then show ?thesis using inv p s set_update_subset_insert [of "elements sk" i p] by (auto simp: stack_inv_def wf_stack_def sk')
next
  case False
  with inv w show ?thesis by (simp add: sk_set_def)
qed

lemma sk_deep_copy_elements:
  assumes wf: "wf_stack call sk" and w: "sk_deep_copy al copy (Some sk) = (Some sk', freed)"
  shows "elements sk' = map (\<lambda>p. Option.bind p copy) (elements sk) \<and> freed = [] \<and> comp sk' = comp sk \<and>
    sorted_flag sk' = sorted_flag sk \<and> num sk' \<le> num_alloc sk' \<and> 0 < num_alloc sk'"
proof -
  obtain ret where ret: "sk_dup al (Some sk) = Some ret" using w by (auto simp: sk_deep_copy_def split: option.splits)
  note d = sk_dup_elements [OF wf ret]
  have n: "num ret \<le> num_alloc ret" "0 < num_alloc ret" "length (elements sk) = num ret" using d wf by (auto simp: wf_stack_def elements_def)
  have "copy_loop copy [] (take (num ret) (data ret)) = copy_loop copy [] (elements sk)" using d by (metis elements_def)
  with w ret have "copy_loop copy [] (elements sk) = Inr (map (\<lambda>p. Option.bind p copy) (elements sk))"
    "sk' = ret\<lparr>data := blit 0 (map (\<lambda>p. Option.bind p copy) (elements sk)) (data ret)\<rparr>" "freed = []"
    by (auto simp: sk_deep_copy_def copy_loop_eq Let_def split: if_splits)
  moreover have "elements (ret\<lparr>data := blit 0 (map (\<lambda>p. Option.bind p copy) (elements sk)) (data ret)\<rparr>) =
      map (\<lambda>p. Option.bind p copy) (elements sk)"
    by (rule elements_data_blit) (use n in simp_all)
  ultimately show ?thesis using d n by simp
qed

lemma stack_inv_reachable:
  assumes "stack_reachable call carrier sk" and cmp: "\<And>c. comparator (call c) carrier"
  shows "stack_inv call carrier sk"
  using assms(1)
proof (induction rule: stack_reachable.induct)
  case (new al c sk)
  then show ?case by (auto simp: stack_inv_def dest: sk_new_elements)
next
  case (zero sk sk')
  then have wf: "wf_stack call sk" by (simp add: stack_inv_def)
  obtain sk1 where "sk_zero (Some sk) = Some sk1" "elements sk1 = []" "wf_stack call sk1"
    by (rule sk_zero_elements [OF wf])
  with zero show ?case by (simp add: stack_inv_def)
next
  case (insert sk p al i n sk')
  then show ?case using stack_inv_insert by blast
next
  case (push sk p al n sk')
  then show ?case unfolding sk_push_def using stack_inv_insert by blast
next
  case (delete sk i q sk')
  then show ?case using stack_inv_delete by blast
next
  case (delete_ptr sk p q sk')
  then show ?case
    by (auto simp: sk_delete_ptr_def split: option.splits dest: stack_inv_delete)
next
  case (shift sk q sk')
  then show ?case by (auto simp: sk_shift_def split: if_splits dest: stack_inv_delete)
next
  case (pop sk q sk')
  then show ?case by (auto simp: sk_pop_def split: if_splits dest: stack_inv_delete)
next
  case (sort sk sk')
  then have inv: "wf_stack call sk" "set (elements sk) \<subseteq> carrier" by (auto simp: stack_inv_def)
  obtain sk1 where "sk_sort call (Some sk) = Some sk1" "mset (elements sk1) = mset (elements sk)"
    "wf_stack call sk1" by (rule sk_sort_elements [OF inv(1) cmp inv(2)])
  with sort show ?case by (auto simp: stack_inv_def dest: mset_eq_setD)
next
  case (set_cmp sk c prev sk')
  then have "sk' = sk\<lparr>sorted_flag := (if comp sk \<noteq> c then False else sorted_flag sk), comp := c\<rparr>"
    by (auto simp: sk_set_cmp_func_def)
  with set_cmp(3) show ?case by (cases "comp sk = c") (simp_all add: stack_inv_def wf_stack_def elements_def)
next
  case (dup sk al sk')
  then show ?case using sk_dup_elements [of call sk al sk'] by (auto simp: stack_inv_def)
next
  case (set sk p i q sk')
  show ?case by (rule stack_inv_set [OF set.IH set.hyps(2) set.hyps(3) set.hyps(4)])
next
  case (deep_copy sk copy al sk' freed)
  then have "wf_stack call sk" by (simp add: stack_inv_def)
  from sk_deep_copy_elements [OF this deep_copy.hyps(4)] deep_copy.hyps(2,3) show ?case
    by (auto simp: stack_inv_def wf_stack_def)
qed

subsection \<open>Properties\<close>

text \<open>
  C16: whatever operations built a stack, with allocations failing at any of them, searching it gives the first index
  whose element compares equal to the key, also when the sorted flag selects the binary search. A client of \<open>sk_set\<close> and
  \<open>sk_deep_copy\<close> is assumed to keep a stack in order that has the flag set, which these two do not look after.
\<close>

theorem sk_find_reachable:
  assumes "stack_reachable call carrier sk" "\<And>c. comparator (call c) carrier"
    and "comp sk = Some c" "Some p \<in> carrier"
  shows "sk_find call (Some sk) (Some p) =
    List.find (\<lambda>i. call c (Some p) (elements sk ! i) = 0) [0..<num sk]"
  using stack_inv_reachable [OF assms(1,2)] assms(2-)
  by (intro sk_find_first [of call sk c carrier]) (auto simp: stack_inv_def)

text \<open>An order of numbers, and a stack built with it: \<open>3\<close>, then \<open>1\<close>, sorted.\<close>

definition num_cmp :: "unit \<Rightarrow> nat ptr \<Rightarrow> nat ptr \<Rightarrow> int" where
  "num_cmp u a b = int (case a of None \<Rightarrow> 0 | Some x \<Rightarrow> x + 1) - int (case b of None \<Rightarrow> 0 | Some x \<Rightarrow> x + 1)"

interpretation num_order: comparator "num_cmp c" UNIV
  by unfold_locales (auto simp: num_cmp_def sgn_if)

definition num_stack :: "nat list \<Rightarrow> bool \<Rightarrow> (unit, nat) stack_st" where
  "num_stack xs s = \<lparr>num = length xs, data = map Some xs @ replicate (4 - length xs) None,
     sorted_flag = s, comp = Some ()\<rparr>"

lemma num_stack_reachable: "stack_reachable num_cmp UNIV (num_stack [1, 3] True)"
proof -
  have "stack_reachable num_cmp UNIV (num_stack [] False)"
    by (rule stack_reachable.new [of "\<lambda>n. True" "Some ()"])
      (simp add: sk_new_def num_stack_def kMinSize_def numeral_eq_Suc)
  then have "stack_reachable num_cmp UNIV (num_stack [3] False)"
    by (rule stack_reachable.push [where al = "\<lambda>n. True" and p = "Some 3" and n = 1])
      (simp_all add: sk_push_def sk_num_def sk_insert_def sk_grow_def num_stack_def numeral_eq_Suc)
  then have "stack_reachable num_cmp UNIV (num_stack [3, 1] False)"
    by (rule stack_reachable.push [where al = "\<lambda>n. True" and p = "Some 1" and n = 2])
      (simp_all add: sk_push_def sk_num_def sk_insert_def sk_grow_def num_stack_def numeral_eq_Suc)
  then show ?thesis
    by (rule stack_reachable.sort)
      (simp add: sk_sort_def num_stack_def num_cmp_def qsort_def blit_def numeral_eq_Suc)
qed

theorem sk_find_reachable_witness:
  "sk_find num_cmp (Some (num_stack [1, 3] True)) (Some 3) = Some 1"
proof -
  have "sk_find num_cmp (Some (num_stack [1, 3] True)) (Some 3) =
      List.find (\<lambda>i. num_cmp () (Some 3) (elements (num_stack [1, 3] True) ! i) = 0)
        [0..<num (num_stack [1, 3] True)]"
    by (rule sk_find_reachable [OF num_stack_reachable num_order.comparator_axioms])
      (simp_all add: num_stack_def)
  then show ?thesis
    by (simp add: num_stack_def elements_def num_cmp_def upt_conv_Cons)
qed

text \<open>
  C17: \<open>sk_insert\<close> and \<open>sk_delete\<close> act on the elements as insertion and removal at an index do on a
  list; an insertion that cannot allocate changes nothing.
\<close>

theorem sk_insert_delete_refine:
  assumes "wf_stack call sk"
  shows "(case sk_insert al (Some sk) p i of (n, s') \<Rightarrow>
      if n = 0 then s' = Some sk
      else map_option elements s' = Some (take i (elements sk) @ p # drop i (elements sk)) \<and> n = num sk + 1) \<and>
    (case sk_delete (Some sk) j of (q, s') \<Rightarrow>
      if j < num sk
      then q = elements sk ! j \<and> map_option elements s' = Some (take j (elements sk) @ drop (j + 1) (elements sk))
      else q = None \<and> s' = Some sk)"
proof
  obtain n s' where i: "sk_insert al (Some sk) p i = (n, s')" by fastforce
  show "case sk_insert al (Some sk) p i of (n, s') \<Rightarrow>
      if n = 0 then s' = Some sk
      else map_option elements s' = Some (take i (elements sk) @ p # drop i (elements sk)) \<and> n = num sk + 1"
  proof (cases "n = 0")
    case True
    with i show ?thesis by (auto simp: sk_insert_def Let_def split: option.splits)
  next
    case False
    obtain sk1 where "s' = Some sk1" "elements sk1 = take i (elements sk) @ p # drop i (elements sk)"
      "n = num sk + 1" by (rule sk_insert_elements [OF assms i False])
    with i show ?thesis by simp
  qed
  show "case sk_delete (Some sk) j of (q, s') \<Rightarrow>
      if j < num sk
      then q = elements sk ! j \<and> map_option elements s' = Some (take j (elements sk) @ drop (j + 1) (elements sk))
      else q = None \<and> s' = Some sk"
  proof (cases "j < num sk")
    case True
    obtain sk1 where "sk_delete (Some sk) j = (elements sk ! j, Some sk1)"
      "elements sk1 = take j (elements sk) @ drop (j + 1) (elements sk)"
      by (rule sk_delete_elements [OF assms True])
    with True show ?thesis by simp
  next
    case False
    then show ?thesis by (simp add: sk_delete_def)
  qed
qed

theorem sk_insert_delete_refine_witness:
  "map_option elements (snd (sk_insert (\<lambda>n. True) (Some (num_stack [1, 3] True)) (Some 2) 1)) =
    Some [Some 1, Some 2, Some 3]"
proof -
  have "wf_stack num_cmp (num_stack [1, 3] True)"
    by (simp add: wf_stack_def num_stack_def elements_def num_cmp_def)
  from sk_insert_delete_refine [OF this, where al = "\<lambda>n. True" and p = "Some 2" and i = 1 and j = 0]
  show ?thesis
    by (simp add: num_stack_def elements_def sk_insert_def sk_grow_def numeral_eq_Suc)
qed

text \<open>
  C18: \<open>sk_deep_copy\<close> copies every element, or returns NULL after freeing exactly the copies it
  made, those of the elements before the first one whose copy failed.
\<close>

theorem sk_deep_copy_all_or_freed:
  assumes "wf_stack call sk"
  shows "case sk_deep_copy al copy (Some sk) of
      (Some sk', freed) \<Rightarrow> freed = [] \<and> elements sk' = map (\<lambda>p. Option.bind p copy) (elements sk)
    | (None, freed) \<Rightarrow> sk_dup al (Some sk) = None \<and> freed = [] \<or>
        freed = List.map_filter (\<lambda>p. Option.bind p copy)
          (takeWhile (\<lambda>p. p = None \<or> Option.bind p copy \<noteq> None) (elements sk))"
proof (cases "sk_dup al (Some sk)")
  case None
  then show ?thesis by (simp add: sk_deep_copy_def)
next
  case (Some ret)
  let ?made = "takeWhile (\<lambda>p. p = None \<or> Option.bind p copy \<noteq> None) (elements sk)"
  have ret: "elements ret = elements sk" "wf_stack call ret"
    using sk_dup_elements [OF assms Some] by auto
  have n: "num ret \<le> num_alloc ret" "length (elements sk) = num ret"
    using ret length_elements [OF ret(2)] by (auto simp: wf_stack_def)
  have "copy_loop copy [] (take (num ret) (data ret)) =
      (if ?made = elements sk then Inr (map (\<lambda>p. Option.bind p copy) (elements sk))
       else Inl (List.map_filter (\<lambda>p. p) (map (\<lambda>p. Option.bind p copy) ?made)))"
    using ret(1) by (simp add: copy_loop_eq Let_def flip: elements_def)
  moreover have "List.map_filter (\<lambda>p. p) (map f xs) = List.map_filter f xs" for f :: "'b ptr \<Rightarrow> 'b ptr" and xs
    by (induction xs) (auto simp: map_filter_simps split: option.split)
  ultimately show ?thesis
    using Some n elements_data_blit [of ret "map (\<lambda>p. Option.bind p copy) (elements sk)"]
    by (auto simp: sk_deep_copy_def)
qed

theorem sk_deep_copy_all_or_freed_witness:
  "sk_deep_copy (\<lambda>n. True) (\<lambda>x. if x < 3 then Some (x + 10) else None) (Some (num_stack [1, 3] True)) =
    (None, [11])"
proof -
  let ?copy = "\<lambda>x :: nat. if x < 3 then Some (x + 10) else None"
  have "wf_stack num_cmp (num_stack [1, 3] True)"
    by (simp add: wf_stack_def num_stack_def elements_def num_cmp_def)
  from sk_deep_copy_all_or_freed [OF this, where al = "\<lambda>n. True" and copy = ?copy]
  show ?thesis
    by (simp add: sk_deep_copy_def sk_dup_def sk_new_def num_stack_def kMinSize_def resize_def
        blit_def elements_def map_filter_simps numeral_eq_Suc)
qed

text \<open>
  C32: \<open>sk_set\<close> keeps the sorted flag. In a sorted stack of three or more elements, a pointer stored at the front that
  compares greater than all of them is there, and a linear search would find it, but \<open>sk_find\<close> misses it.
\<close>

theorem sk_set_misses:
  assumes "wf_stack call sk" "sorted_flag sk" "comp sk = Some c" "3 \<le> num sk"
    and "call c (Some p) (Some p) = 0" "list_all (\<lambda>e. call c (Some p) e > 0) (elements sk)"
  shows "\<exists>sk'. sk_set (Some sk) 0 (Some p) = (Some p, Some sk') \<and> sorted_flag sk' \<and>
     elements sk' = Some p # tl (elements sk) \<and>
     List.find (\<lambda>i. call c (Some p) (elements sk' ! i) = 0) [0..<num sk'] = Some 0 \<and>
     sk_find call (Some sk') (Some p) = None"
proof -
  have n: "num sk \<le> num_alloc sk" using assms(1) by (simp add: wf_stack_def)
  then obtain x d where d: "data sk = x # d" using assms(4) by (cases "data sk") auto
  define sk' where "sk' = sk\<lparr>data := Some p # d\<rparr>"
  obtain m where m: "num sk = Suc m" "2 \<le> m" using assms(4) by (cases "num sk") auto
  have es: "elements sk = x # take m d" "elements sk' = Some p # take m d" by (simp_all add: elements_def sk'_def d m)
  let ?r = "\<lambda>i. call c (Some p) ((Some p # d) ! i)"
  have above: "?r i > 0" if "0 < i" "i < Suc m" for i
  proof -
    have "i - 1 < length (take m d)" "take m d ! (i - 1) = d ! (i - 1)" using that n m d by simp_all
    then have "d ! (i - 1) \<in> set (take m d)" by (metis nth_mem)
    then show ?thesis using assms(6) that es by (auto simp: list_all_iff nth_Cons')
  qed
  have none: "bsearch_loop ?r lo (Suc m) = None" if "0 < lo" for lo
  proof -
    have "sgn (?r j) = 1" if "lo \<le> j" "j < Suc m" for j using above [of j] that \<open>0 < lo\<close> by (simp only: sgn_pos)
    then have "bsearch_loop ?r lo (Suc m) = List.find (\<lambda>i. ?r i = 0) [lo..<Suc m]" by (intro bsearch_loop_first) simp
    moreover have "List.find (\<lambda>i. ?r i = 0) [lo..<Suc m] = None"
      unfolding find_None_iff using above that by (metis atLeastLessThan_iff less_irrefl order_less_le_trans set_upt)
    ultimately show ?thesis by simp
  qed
  have "bsearch_loop ?r 0 (Suc m) = bsearch_loop ?r (Suc (m div 2)) (Suc m)"
    using above [of "m div 2"] m(2) by (subst bsearch_loop.simps) (simp add: Let_def)
  then have "sk_find call (Some sk') (Some p) = None"
    using none [of "Suc (m div 2)"] assms(2,3) by (simp add: sk_find_def sk'_def sk_is_sorted_def m)
  moreover have "List.find (\<lambda>i. call c (Some p) (elements sk' ! i) = 0) [0..<num sk'] = Some 0"
    using assms(5) by (simp add: es(2) upt_conv_Cons m(1) del: upt_Suc) (simp add: sk'_def m(1) upt_conv_Cons del: upt_Suc)
  ultimately show ?thesis using assms(2,4) es by (intro exI [of _ sk']) (simp add: sk_set_def sk'_def d)
qed

theorem sk_set_misses_witness:
  "\<exists>sk'. sk_set (Some (num_stack [1, 2, 3] True)) 0 (Some 5) = (Some 5, Some sk') \<and> elements sk' = [Some 5, Some 2, Some 3] \<and>
    sk_find num_cmp (Some sk') (Some 5) = None"
proof -
  have "wf_stack num_cmp (num_stack [1, 2, 3] True)"
    by (simp add: wf_stack_def num_stack_def elements_def num_cmp_def)
  from sk_set_misses [OF this, of "()" 5] show ?thesis by (auto simp: num_stack_def elements_def num_cmp_def)
qed

end
