(* ===== verification/Lhash.thy ===== *)
theory Lhash
  imports Const_Time Comparator
begin

text \<open>
  \<open>crypto/lhash/lhash.c\<close>: the chained hash table behind \<open>LHASH_OF\<close>. A chain of \<open>LHASH_ITEM\<close> is a
  list; a pointer to a \<open>next\<close> field is a bucket and the number of items before it in the chain.
  Hash and comparison functions are names that \<open>call_hash_func\<close> and \<open>call_cmp_func\<close> run, as in C.
  The contract those functions must meet is the locale \<open>hash_contract\<close>; under it the table is
  shown to implement a set of items that are pairwise different for the comparison.
\<close>

record 'a lhash_item_st =
  item_data :: 'a
  item_hash :: u32

record ('h, 'c, 'a) lhash_st =
  num_items :: nat
  buckets :: "'a lhash_item_st list list"
  callback_depth :: u32
  lh_comp :: 'c
  lh_hash :: 'h

abbreviation num_buckets :: "('h, 'c, 'a) lhash_st \<Rightarrow> nat" where
  "num_buckets lh \<equiv> length (buckets lh)"

definition kMinNumBuckets :: nat where "kMinNumBuckets = 16"
definition kMaxAverageChainLength :: nat where "kMaxAverageChainLength = 2"
definition kMinAverageChainLength :: nat where "kMinAverageChainLength = 1"

definition lh_new :: "allocator \<Rightarrow> 'h \<Rightarrow> 'c \<Rightarrow> ('h, 'c, 'a) lhash_st option" where
  "lh_new al h c =
     (if \<not> al 48 then None
      else if \<not> al (8 * kMinNumBuckets) then None
      else Some \<lparr>num_items = 0, buckets = replicate kMinNumBuckets [], callback_depth = 0,
             lh_comp = c, lh_hash = h\<rparr>)"

definition lh_num_items :: "('h, 'c, 'a) lhash_st \<Rightarrow> nat" where
  "lh_num_items lh = num_items lh"

text \<open>The walk along a chain: the number of items passed before one satisfies \<open>P\<close> or the end.\<close>

fun chain_pos :: "('a \<Rightarrow> bool) \<Rightarrow> 'a lhash_item_st list \<Rightarrow> nat" where
  "chain_pos P [] = 0"
| "chain_pos P (cur # rest) = (if P (item_data cur) then 0 else chain_pos P rest + 1)"

definition get_next_ptr_and_hash ::
  "('h, 'c, 'a) lhash_st \<Rightarrow> 'a \<Rightarrow> ('h \<Rightarrow> 'a \<Rightarrow> u32) \<Rightarrow> ('c \<Rightarrow> 'a \<Rightarrow> 'a \<Rightarrow> int) \<Rightarrow> (nat \<times> nat) \<times> u32" where
  "get_next_ptr_and_hash lh d call_hash_func call_cmp_func =
     (let hash = call_hash_func (lh_hash lh) d;
          b = unat hash mod num_buckets lh
      in ((b, chain_pos (\<lambda>x. call_cmp_func (lh_comp lh) x d = 0) (buckets lh ! b)), hash))"

definition get_next_ptr_by_key ::
  "('h, 'c, 'a) lhash_st \<Rightarrow> 'k \<Rightarrow> u32 \<Rightarrow> ('k \<Rightarrow> 'a \<Rightarrow> int) \<Rightarrow> nat \<times> nat" where
  "get_next_ptr_by_key lh key key_hash cmp_key =
     (let b = unat key_hash mod num_buckets lh
      in (b, chain_pos (\<lambda>x. cmp_key key x = 0) (buckets lh ! b)))"

text \<open>Following such a pointer.\<close>

definition deref :: "('h, 'c, 'a) lhash_st \<Rightarrow> nat \<times> nat \<Rightarrow> 'a lhash_item_st option" where
  "deref lh p =
     (let chain = buckets lh ! fst p in if snd p < length chain then Some (chain ! snd p) else None)"

definition lh_retrieve ::
  "('h, 'c, 'a) lhash_st \<Rightarrow> 'a \<Rightarrow> ('h \<Rightarrow> 'a \<Rightarrow> u32) \<Rightarrow> ('c \<Rightarrow> 'a \<Rightarrow> 'a \<Rightarrow> int) \<Rightarrow> 'a option" where
  "lh_retrieve lh d call_hash_func call_cmp_func =
     map_option item_data (deref lh (fst (get_next_ptr_and_hash lh d call_hash_func call_cmp_func)))"

definition lh_retrieve_key ::
  "('h, 'c, 'a) lhash_st \<Rightarrow> 'k \<Rightarrow> u32 \<Rightarrow> ('k \<Rightarrow> 'a \<Rightarrow> int) \<Rightarrow> 'a option" where
  "lh_retrieve_key lh key key_hash cmp_key =
     map_option item_data (deref lh (get_next_ptr_by_key lh key key_hash cmp_key))"

text \<open>Moving one item to the head of its chain in the new array.\<close>

definition rebucket_item ::
  "nat \<Rightarrow> 'a lhash_item_st list list \<Rightarrow> 'a lhash_item_st \<Rightarrow> 'a lhash_item_st list list" where
  "rebucket_item n new_buckets cur =
     (let new_bucket = unat (item_hash cur) mod n
      in new_buckets[new_bucket := cur # new_buckets ! new_bucket])"

definition lh_rebucket :: "allocator \<Rightarrow> ('h, 'c, 'a) lhash_st \<Rightarrow> nat \<Rightarrow> ('h, 'c, 'a) lhash_st" where
  "lh_rebucket al lh new_num_buckets =
     (let alloc_size = (8 * new_num_buckets) mod size_lim
      in if alloc_size div 8 \<noteq> new_num_buckets then lh
         else if \<not> al alloc_size then lh
         else lh\<lparr>buckets := foldl (foldl (rebucket_item new_num_buckets))
                              (replicate new_num_buckets []) (buckets lh)\<rparr>)"

definition lh_maybe_resize :: "allocator \<Rightarrow> ('h, 'c, 'a) lhash_st \<Rightarrow> ('h, 'c, 'a) lhash_st" where
  "lh_maybe_resize al lh =
     (if callback_depth lh > 0 then lh
      else
        let avg_chain_length = num_items lh div num_buckets lh
        in if avg_chain_length > kMaxAverageChainLength then
             let new_num_buckets = (num_buckets lh * 2) mod size_lim
             in if new_num_buckets > num_buckets lh then lh_rebucket al lh new_num_buckets else lh
           else if avg_chain_length < kMinAverageChainLength \<and> num_buckets lh > kMinNumBuckets then
             let new_num_buckets = num_buckets lh div 2;
                 new_num_buckets = (if new_num_buckets < kMinNumBuckets then kMinNumBuckets else new_num_buckets)
             in lh_rebucket al lh new_num_buckets
           else lh)"

text \<open>The result, the old data and the table.\<close>

definition lh_insert ::
  "allocator \<Rightarrow> ('h, 'c, 'a) lhash_st \<Rightarrow> 'a \<Rightarrow> ('h \<Rightarrow> 'a \<Rightarrow> u32) \<Rightarrow> ('c \<Rightarrow> 'a \<Rightarrow> 'a \<Rightarrow> int) \<Rightarrow>
    bool \<times> 'a option \<times> ('h, 'c, 'a) lhash_st" where
  "lh_insert al lh d call_hash_func call_cmp_func =
     (let ((b, i), hash) = get_next_ptr_and_hash lh d call_hash_func call_cmp_func;
          chain = buckets lh ! b
      in case deref lh (b, i) of
           Some item \<Rightarrow>
             (True, Some (item_data item), lh\<lparr>buckets := (buckets lh)[b := chain[i := item\<lparr>item_data := d\<rparr>]]\<rparr>)
         | None \<Rightarrow>
             if \<not> al 24 then (False, None, lh)
             else (True, None, lh_maybe_resize al
                    (lh\<lparr>buckets := (buckets lh)[b := take i chain @ [\<lparr>item_data = d, item_hash = hash\<rparr>]],
                        num_items := num_items lh + 1\<rparr>)))"

definition lh_delete ::
  "allocator \<Rightarrow> ('h, 'c, 'a) lhash_st \<Rightarrow> 'a \<Rightarrow> ('h \<Rightarrow> 'a \<Rightarrow> u32) \<Rightarrow> ('c \<Rightarrow> 'a \<Rightarrow> 'a \<Rightarrow> int) \<Rightarrow>
    'a option \<times> ('h, 'c, 'a) lhash_st" where
  "lh_delete al lh d call_hash_func call_cmp_func =
     (let ((b, i), hash) = get_next_ptr_and_hash lh d call_hash_func call_cmp_func;
          chain = buckets lh ! b
      in case deref lh (b, i) of
           None \<Rightarrow> (None, lh)
         | Some item \<Rightarrow>
             (Some (item_data item), lh_maybe_resize al
               (lh\<lparr>buckets := (buckets lh)[b := take i chain @ drop (i + 1) chain],
                   num_items := num_items lh - 1\<rparr>)))"

text \<open>The callback threads its argument and leaves the table alone.\<close>

definition lh_doall_arg ::
  "allocator \<Rightarrow> ('h, 'c, 'a) lhash_st option \<Rightarrow> ('a \<Rightarrow> 'arg \<Rightarrow> 'arg) \<Rightarrow> 'arg \<Rightarrow>
    'arg \<times> ('h, 'c, 'a) lhash_st option" where
  "lh_doall_arg al s func arg =
     (case s of
        None \<Rightarrow> (arg, None)
      | Some lh \<Rightarrow>
          let lh = (if callback_depth lh < -1 then lh\<lparr>callback_depth := callback_depth lh + 1\<rparr> else lh);
              arg = foldl (foldl (\<lambda>arg cur. func (item_data cur) arg)) arg (buckets lh);
              lh = (if callback_depth lh < -1 then lh\<lparr>callback_depth := callback_depth lh - 1\<rparr> else lh)
          in (arg, Some (lh_maybe_resize al lh)))"

definition lh_strhash :: "bytes option \<Rightarrow> u32" where
  "lh_strhash c = (case c of None \<Rightarrow> 0 | Some s \<Rightarrow> OPENSSL_hash32 s)"

subsection \<open>The contract of the hash and comparison functions\<close>

locale hash_contract =
  fixes hash :: "'a \<Rightarrow> u32"
    and cmp :: "'a \<Rightarrow> 'a \<Rightarrow> int"
  assumes cmp_refl: "cmp x x = 0"
    and cmp_sym: "cmp x y = 0 \<Longrightarrow> cmp y x = 0"
    and cmp_trans: "cmp x y = 0 \<Longrightarrow> cmp y z = 0 \<Longrightarrow> cmp x z = 0"
    and hash_eq: "cmp x y = 0 \<Longrightarrow> hash x = hash y"

text \<open>Lookup by a key of another type, with the compatibility \<open>lh_retrieve_key\<close> asks for.\<close>

locale keyed_hash_contract = hash_contract +
  fixes key_hash :: "'k \<Rightarrow> u32"
    and cmp_key :: "'k \<Rightarrow> 'a \<Rightarrow> int"
  assumes key_hash_eq: "cmp_key k x = 0 \<Longrightarrow> key_hash k = hash x"
    and key_cmp: "cmp_key k x = 0 \<Longrightarrow> cmp_key k y = 0 \<longleftrightarrow> cmp x y = 0"

subsection \<open>The table as a collection\<close>

definition lh_items :: "('h, 'c, 'a) lhash_st \<Rightarrow> 'a multiset" where
  "lh_items lh = image_mset item_data (mset (concat (buckets lh)))"

definition bucket_ok :: "('a \<Rightarrow> u32) \<Rightarrow> nat \<Rightarrow> nat \<Rightarrow> 'a lhash_item_st list \<Rightarrow> bool" where
  "bucket_ok hash n i chain \<longleftrightarrow>
     list_all (\<lambda>it. item_hash it = hash (item_data it) \<and> unat (item_hash it) mod n = i) chain"

definition pairwise_different :: "('a \<Rightarrow> 'a \<Rightarrow> int) \<Rightarrow> 'a multiset \<Rightarrow> bool" where
  "pairwise_different cmp M \<longleftrightarrow> (\<forall>x \<in># M. \<forall>y \<in># M - {#x#}. cmp x y \<noteq> 0)"

definition wf_lhash :: "('a \<Rightarrow> u32) \<Rightarrow> ('a \<Rightarrow> 'a \<Rightarrow> int) \<Rightarrow> ('h, 'c, 'a) lhash_st \<Rightarrow> bool" where
  "wf_lhash hash cmp lh \<longleftrightarrow>
     kMinNumBuckets \<le> num_buckets lh \<and>
     (\<forall>i < num_buckets lh. bucket_ok hash (num_buckets lh) i (buckets lh ! i)) \<and>
     num_items lh = size (lh_items lh) \<and> pairwise_different cmp (lh_items lh)"

lemma mset_concat_update:
  assumes "i < length xss"
  shows "mset (concat (xss[i := ys])) + mset (xss ! i) = mset (concat xss) + mset ys"
proof -
  have "xss = take i xss @ xss ! i # drop (Suc i) xss" using assms by (rule id_take_nth_drop)
  then have "mset (concat xss) = mset (concat (take i xss)) + mset (xss ! i) + mset (concat (drop (Suc i) xss))"
    by (metis concat.simps(2) concat_append mset_append add.assoc)
  then show ?thesis using assms by (simp add: upd_conv_take_nth_drop ac_simps)
qed

lemma in_concat_nth: "x \<in> set (concat xss) \<Longrightarrow> \<exists>i < length xss. x \<in> set (xss ! i)"
  by (metis concat_eq_concat_iff in_set_conv_nth set_concat UN_E)

lemma chain_pos_le: "chain_pos P c \<le> length c"
  by (induction c) auto

lemma chain_pos_hit: "chain_pos P c < length c \<Longrightarrow> P (item_data (c ! chain_pos P c))"
  by (induction c) (auto split: if_splits)

lemma chain_pos_miss: "\<not> chain_pos P c < length c \<longleftrightarrow> (\<forall>it \<in> set c. \<not> P (item_data it))"
  by (induction c) (auto split: if_splits)

lemma bucket_ok_append [simp]:
  "bucket_ok hash n i (xs @ ys) \<longleftrightarrow> bucket_ok hash n i xs \<and> bucket_ok hash n i ys"
  by (simp add: bucket_ok_def)

lemma bucket_ok_drop: "bucket_ok hash n i xs \<Longrightarrow> bucket_ok hash n i (drop k xs)"
  by (auto simp: bucket_ok_def list_all_iff dest: in_set_dropD)

lemma bucket_ok_take: "bucket_ok hash n i xs \<Longrightarrow> bucket_ok hash n i (take k xs)"
  by (auto simp: bucket_ok_def list_all_iff dest: in_set_takeD)

text \<open>Following the pointer of a lookup, whatever the key: \<open>P\<close> holds of items with hash \<open>h\<close> only.\<close>

lemma lookup_hit:
  assumes wf: "wf_lhash hash cmp lh" and b: "b = unat h mod num_buckets lh"
    and it: "deref lh (b, chain_pos P (buckets lh ! b)) = Some it"
  shows "P (item_data it)" "item_data it \<in># lh_items lh"
    "b < num_buckets lh" "chain_pos P (buckets lh ! b) < length (buckets lh ! b)"
    "it = buckets lh ! b ! chain_pos P (buckets lh ! b)"
proof -
  show lt: "chain_pos P (buckets lh ! b) < length (buckets lh ! b)"
    and eq: "it = buckets lh ! b ! chain_pos P (buckets lh ! b)"
    using it by (auto simp: deref_def Let_def split: if_splits)
  show "P (item_data it)" using chain_pos_hit [OF lt] eq by simp
  show bl: "b < num_buckets lh"
    using wf unfolding b wf_lhash_def kMinNumBuckets_def by (intro mod_less_divisor) linarith
  show "item_data it \<in># lh_items lh"
    using nth_mem [OF lt] nth_mem [OF bl] eq by (auto simp: lh_items_def)
qed

lemma lookup_miss:
  assumes wf: "wf_lhash hash cmp lh" and b: "b = unat h mod num_buckets lh"
    and hash: "\<And>x. P x \<Longrightarrow> hash x = h"
  shows "deref lh (b, chain_pos P (buckets lh ! b)) = None \<longleftrightarrow> (\<forall>x \<in># lh_items lh. \<not> P x)"
proof -
  have bl: "b < num_buckets lh"
    using wf unfolding b wf_lhash_def kMinNumBuckets_def by (intro mod_less_divisor) linarith
  have here: "it \<in> set (buckets lh ! b)" if m: "it \<in> set (concat (buckets lh))" and Pit: "P (item_data it)" for it
  proof -
    obtain i where i: "i < num_buckets lh" "it \<in> set (buckets lh ! i)"
      using in_concat_nth [OF m] by blast
    then have "bucket_ok hash (num_buckets lh) i (buckets lh ! i)"
      using wf by (auto simp: wf_lhash_def)
    then have "item_hash it = hash (item_data it)" "unat (item_hash it) mod num_buckets lh = i"
      using i(2) by (auto simp: bucket_ok_def list_all_iff)
    with hash [OF Pit] b i(2) show ?thesis by simp
  qed
  have "deref lh (b, chain_pos P (buckets lh ! b)) = None \<longleftrightarrow> (\<forall>it \<in> set (buckets lh ! b). \<not> P (item_data it))"
    by (simp add: deref_def Let_def flip: chain_pos_miss)
  also have "\<dots> \<longleftrightarrow> (\<forall>it \<in> set (concat (buckets lh)). \<not> P (item_data it))"
    using here bl by (auto dest: nth_mem)
  finally show ?thesis by (auto simp: lh_items_def)
qed

lemma pairwise_differentD:
  assumes "pairwise_different cmp M" "x \<in># M" "y \<in># M" "cmp x y = 0"
  shows "x = y"
proof -
  have "y \<in># add_mset x (M - {#x#})" using assms by simp
  then have "y = x \<or> y \<in># M - {#x#}" by (simp only: set_mset_add_mset_insert insert_iff)
  with assms show ?thesis by (auto simp: pairwise_different_def)
qed

lemma pairwise_different_remove: "pairwise_different cmp M \<Longrightarrow> pairwise_different cmp (M - {#x#})"
  unfolding pairwise_different_def by (metis diff_right_commute in_diffD)

lemma pairwise_different_add:
  assumes "pairwise_different cmp M" "\<forall>y \<in># M. cmp y x \<noteq> 0 \<and> cmp x y \<noteq> 0"
  shows "pairwise_different cmp (add_mset x M)"
  unfolding pairwise_different_def
proof (intro ballI)
  fix u v assume u: "u \<in># add_mset x M" and v: "v \<in># add_mset x M - {#u#}"
  show "cmp u v \<noteq> 0"
  proof (cases "u = x")
    case True
    with v assms(2) show ?thesis by simp
  next
    case False
    then have "u \<in># M" "v = x \<or> v \<in># M - {#u#}" using u v by (auto simp: add_mset_diff_bothsides)
    with assms show ?thesis by (auto simp: pairwise_different_def)
  qed
qed

subsection \<open>Resizing keeps the collection\<close>

definition rebucketed :: "('a \<Rightarrow> u32) \<Rightarrow> nat \<Rightarrow> 'a lhash_item_st list list \<Rightarrow> bool" where
  "rebucketed hash n nb \<longleftrightarrow> length nb = n \<and> (\<forall>i < n. bucket_ok hash n i (nb ! i))"

lemma rebucket_item_ok:
  assumes "rebucketed hash n nb" "0 < n" "item_hash it = hash (item_data it)"
  shows "rebucketed hash n (rebucket_item n nb it) \<and>
    mset (concat (rebucket_item n nb it)) = add_mset it (mset (concat nb))"
proof -
  let ?b = "unat (item_hash it) mod n"
  have b: "?b < length nb" using assms by (simp add: rebucketed_def)
  have "mset (concat (nb[?b := it # nb ! ?b])) = add_mset it (mset (concat nb))"
    using mset_concat_update [OF b, of "it # nb ! ?b"] by simp
  then show ?thesis
    using assms by (auto simp: rebucketed_def rebucket_item_def Let_def nth_list_update bucket_ok_def)
qed

lemma rebucket_chain_ok:
  assumes "rebucketed hash n nb" "0 < n" "list_all (\<lambda>it. item_hash it = hash (item_data it)) chain"
  shows "rebucketed hash n (foldl (rebucket_item n) nb chain) \<and>
    mset (concat (foldl (rebucket_item n) nb chain)) = mset (concat nb) + mset chain"
  using assms by (induction chain arbitrary: nb) (auto simp: rebucket_item_ok)

lemma rebucket_ok:
  assumes "rebucketed hash n nb" "0 < n" "list_all (list_all (\<lambda>it. item_hash it = hash (item_data it))) cs"
  shows "rebucketed hash n (foldl (foldl (rebucket_item n)) nb cs) \<and>
    mset (concat (foldl (foldl (rebucket_item n)) nb cs)) = mset (concat nb) + mset (concat cs)"
  using assms by (induction cs arbitrary: nb) (auto simp: rebucket_chain_ok)

lemma lh_rebucket_ok:
  assumes wf: "wf_lhash hash cmp lh" and n: "kMinNumBuckets \<le> n"
  shows "wf_lhash hash cmp (lh_rebucket al lh n)" "lh_items (lh_rebucket al lh n) = lh_items lh"
proof -
  let ?nb = "foldl (foldl (rebucket_item n)) (replicate n []) (buckets lh)"
  have "list_all (list_all (\<lambda>it. item_hash it = hash (item_data it))) (buckets lh)"
    using wf by (fastforce simp: wf_lhash_def bucket_ok_def list_all_iff list_all_length in_set_conv_nth)
  moreover have "rebucketed hash n (replicate n [])" by (simp add: rebucketed_def bucket_ok_def)
  moreover have "0 < n" using n by (simp add: kMinNumBuckets_def)
  ultimately have nb: "rebucketed hash n ?nb" "mset (concat ?nb) = mset (concat (buckets lh))"
    using rebucket_ok [of hash n "replicate n []" "buckets lh"] by auto
  then have items: "lh_items (lh\<lparr>buckets := ?nb\<rparr>) = lh_items lh" by (simp add: lh_items_def)
  moreover have "wf_lhash hash cmp (lh\<lparr>buckets := ?nb\<rparr>)"
    using wf nb(1) n items by (auto simp: wf_lhash_def rebucketed_def)
  ultimately show "wf_lhash hash cmp (lh_rebucket al lh n)" "lh_items (lh_rebucket al lh n) = lh_items lh"
    using wf by (auto simp: lh_rebucket_def Let_def)
qed

lemma lh_maybe_resize_ok:
  assumes wf: "wf_lhash hash cmp lh"
  shows "wf_lhash hash cmp (lh_maybe_resize al lh) \<and> lh_items (lh_maybe_resize al lh) = lh_items lh"
proof -
  have n: "kMinNumBuckets \<le> num_buckets lh" using wf by (simp add: wf_lhash_def)
  show ?thesis
    unfolding lh_maybe_resize_def Let_def
    using wf n lh_rebucket_ok [OF wf] by (auto intro: order_trans less_imp_le)
qed

lemma lh_rebucket_same:
  "callback_depth (lh_rebucket al lh n) = callback_depth lh \<and> lh_comp (lh_rebucket al lh n) = lh_comp lh \<and>
   lh_hash (lh_rebucket al lh n) = lh_hash lh \<and> num_items (lh_rebucket al lh n) = num_items lh"
  unfolding lh_rebucket_def Let_def by (auto split: if_split)

lemma lh_maybe_resize_same [simp]:
  "callback_depth (lh_maybe_resize al lh) = callback_depth lh"
  "lh_comp (lh_maybe_resize al lh) = lh_comp lh" "lh_hash (lh_maybe_resize al lh) = lh_hash lh"
  "num_items (lh_maybe_resize al lh) = num_items lh"
  unfolding lh_maybe_resize_def Let_def by (auto simp only: lh_rebucket_same split: if_split)

subsection \<open>Changing one chain\<close>

definition chain_data :: "'a lhash_item_st list \<Rightarrow> 'a multiset" where
  "chain_data c = image_mset item_data (mset c)"

lemma chain_data_append [simp]: "chain_data (xs @ ys) = chain_data xs + chain_data ys"
  by (simp add: chain_data_def)

lemma chain_data_simps [simp]: "chain_data [] = {#}" "chain_data (it # c) = add_mset (item_data it) (chain_data c)"
  by (simp_all add: chain_data_def)

lemma chain_data_update:
  "i < length c \<Longrightarrow> chain_data (c[i := it]) = chain_data (take i c) + add_mset (item_data it) (chain_data (drop (i + 1) c))"
  by (simp add: upd_conv_take_nth_drop)

lemma chain_data_nth:
  "i < length c \<Longrightarrow> chain_data c = chain_data (take i c) + add_mset (item_data (c ! i)) (chain_data (drop (i + 1) c))"
  using chain_data_update [of i c "c ! i"] by simp

lemma lh_items_split:
  assumes "b < num_buckets lh"
  obtains rest where "lh_items lh = chain_data (buckets lh ! b) + rest"
    "\<And>ys k. lh_items (lh\<lparr>buckets := (buckets lh)[b := ys], num_items := k\<rparr>) = chain_data ys + rest"
proof -
  let ?l = "concat (take b (buckets lh))" and ?r = "concat (drop (Suc b) (buckets lh))"
  have "concat (buckets lh) = ?l @ buckets lh ! b @ ?r"
    by (subst id_take_nth_drop [OF assms]) simp
  then have "lh_items lh = chain_data (buckets lh ! b) + (chain_data ?l + chain_data ?r)"
    by (simp add: lh_items_def chain_data_def ac_simps)
  moreover have "lh_items (lh\<lparr>buckets := (buckets lh)[b := ys], num_items := k\<rparr>) =
      chain_data ys + (chain_data ?l + chain_data ?r)" for ys k
    using assms by (simp add: lh_items_def chain_data_def upd_conv_take_nth_drop ac_simps)
  ultimately show thesis by (rule that)
qed

lemma wf_lhash_update:
  assumes "wf_lhash hash cmp lh" "b < num_buckets lh" "bucket_ok hash (num_buckets lh) b ys"
    and "lh_items (lh\<lparr>buckets := (buckets lh)[b := ys], num_items := k\<rparr>) = M" "size M = k" "pairwise_different cmp M"
  shows "wf_lhash hash cmp (lh\<lparr>buckets := (buckets lh)[b := ys], num_items := k\<rparr>)"
  using assms by (auto simp: wf_lhash_def nth_list_update)

subsection \<open>The operations under the contract\<close>

context hash_contract
begin

definition uses :: "('h \<Rightarrow> 'a \<Rightarrow> u32) \<Rightarrow> ('c \<Rightarrow> 'a \<Rightarrow> 'a \<Rightarrow> int) \<Rightarrow> ('h, 'c, 'a) lhash_st \<Rightarrow> bool" where
  "uses call_hash call_cmp lh \<longleftrightarrow> call_hash (lh_hash lh) = hash \<and> call_cmp (lh_comp lh) = cmp \<and> wf_lhash hash cmp lh"

lemma retrieve_iff:
  assumes "uses ch cc lh"
  shows "lh_retrieve lh d ch cc = Some y \<longleftrightarrow> y \<in># lh_items lh \<and> cmp y d = 0"
proof -
  have wf: "wf_lhash hash cmp lh" and eqs: "ch (lh_hash lh) = hash" "cc (lh_comp lh) = cmp"
    using assms by (auto simp: uses_def)
  let ?b = "unat (hash d) mod num_buckets lh"
  let ?P = "\<lambda>x. cmp x d = 0"
  let ?it = "deref lh (?b, chain_pos ?P (buckets lh ! ?b))"
  have r: "lh_retrieve lh d ch cc = map_option item_data ?it"
    by (simp add: lh_retrieve_def get_next_ptr_and_hash_def Let_def eqs)
  show ?thesis
  proof (cases ?it)
    case None
    then show ?thesis
      using r lookup_miss [OF wf refl, of ?P "hash d"] hash_eq by auto
  next
    case (Some it)
    have it: "cmp (item_data it) d = 0" "item_data it \<in># lh_items lh"
      using lookup_hit [OF wf refl Some] by auto
    have pd: "pairwise_different cmp (lh_items lh)" using wf by (simp add: wf_lhash_def)
    have "y = item_data it" if y: "y \<in># lh_items lh" "cmp y d = 0"
      using pairwise_differentD [OF pd y(1) it(2)] cmp_trans [OF y(2) cmp_sym [OF it(1)]] .
    with it show ?thesis unfolding r Some by auto
  qed
qed

lemma maybe_resize_uses:
  "uses ch cc lh \<Longrightarrow> uses ch cc (lh_maybe_resize al lh) \<and> lh_items (lh_maybe_resize al lh) = lh_items lh"
  using lh_maybe_resize_ok [of hash cmp lh al] by (simp add: uses_def)

text \<open>The pointer a lookup of \<open>d\<close> ends at.\<close>

lemma pointer:
  assumes "uses ch cc lh"
  obtains b i where "get_next_ptr_and_hash lh d ch cc = ((b, i), hash d)" "b < num_buckets lh"
    "b = unat (hash d) mod num_buckets lh" "bucket_ok hash (num_buckets lh) b (buckets lh ! b)"
    "lh_retrieve lh d ch cc = map_option item_data (deref lh (b, i))" "i \<le> length (buckets lh ! b)"
proof -
  have wf: "wf_lhash hash cmp lh" and eqs: "ch (lh_hash lh) = hash" "cc (lh_comp lh) = cmp"
    using assms by (auto simp: uses_def)
  let ?b = "unat (hash d) mod num_buckets lh"
  let ?i = "chain_pos (\<lambda>x. cmp x d = 0) (buckets lh ! ?b)"
  have p: "get_next_ptr_and_hash lh d ch cc = ((?b, ?i), hash d)"
    by (simp add: get_next_ptr_and_hash_def Let_def eqs)
  have b: "?b < num_buckets lh"
    using wf unfolding wf_lhash_def kMinNumBuckets_def by (intro mod_less_divisor) linarith
  show thesis
    by (rule that [OF p b refl]) (use wf b p in \<open>auto simp: wf_lhash_def lh_retrieve_def chain_pos_le\<close>)
qed

lemma pairwise_different_replace:
  assumes "pairwise_different cmp (add_mset y M)" "cmp y d = 0"
  shows "pairwise_different cmp (add_mset d M)"
proof (rule pairwise_different_add)
  show "pairwise_different cmp M"
    using assms(1) pairwise_different_remove [of cmp "add_mset y M" y] by simp
  show "\<forall>x \<in># M. cmp x d \<noteq> 0 \<and> cmp d x \<noteq> 0"
  proof (intro ballI conjI notI)
    fix x assume x: "x \<in># M"
    then have ne: "cmp y x \<noteq> 0" using assms(1) by (simp add: pairwise_different_def)
    show False if "cmp d x = 0" using ne cmp_trans [OF assms(2) that] by simp
    show False if "cmp x d = 0" using ne cmp_trans [OF assms(2) cmp_sym [OF that]] by simp
  qed
qed

lemma insert_hit:
  assumes u: "uses ch cc lh" and y: "lh_retrieve lh d ch cc = Some y"
  obtains lh' where "lh_insert al lh d ch cc = (True, Some y, lh')" "uses ch cc lh'"
    "lh_items lh' = add_mset d (lh_items lh - {#y#})" "num_buckets lh' = num_buckets lh"
proof -
  obtain b i where p: "get_next_ptr_and_hash lh d ch cc = ((b, i), hash d)" and b: "b < num_buckets lh"
    and bd: "b = unat (hash d) mod num_buckets lh"
    and ok: "bucket_ok hash (num_buckets lh) b (buckets lh ! b)"
    and r: "lh_retrieve lh d ch cc = map_option item_data (deref lh (b, i))"
    by (rule pointer [OF u])
  let ?c = "buckets lh ! b"
  obtain it where it: "deref lh (b, i) = Some it" "item_data it = y" using y r by auto
  then have i: "i < length ?c" "it = ?c ! i" by (auto simp: deref_def Let_def split: if_splits)
  let ?c' = "?c[i := it\<lparr>item_data := d\<rparr>]"
  define lh' where "lh' = lh\<lparr>buckets := (buckets lh)[b := ?c'], num_items := num_items lh\<rparr>"
  have ins: "lh_insert al lh d ch cc = (True, Some y, lh')"
    by (simp add: lh_insert_def p it lh'_def)
  have yd: "cmp y d = 0" using retrieve_iff [OF u] y by auto
  obtain rest where rest: "lh_items lh = chain_data ?c + rest"
    "\<And>ys k. lh_items (lh\<lparr>buckets := (buckets lh)[b := ys], num_items := k\<rparr>) = chain_data ys + rest"
    by (rule lh_items_split [OF b]) (rule that, assumption+)
  let ?R = "chain_data (take i ?c) + chain_data (drop (i + 1) ?c) + rest"
  have "lh_items lh' = chain_data ?c' + rest" unfolding lh'_def by (rule rest(2))
  then have items: "lh_items lh = add_mset y ?R" "lh_items lh' = add_mset d ?R"
    using rest(1) chain_data_nth [OF i(1)] i(2) it(2) chain_data_update [OF i(1)] by simp_all
  have wf: "wf_lhash hash cmp lh" using u by (simp add: uses_def)
  have "bucket_ok hash (num_buckets lh) b ?c'"
    using ok bd i hash_eq [OF yd] it(2)
    by (auto simp: bucket_ok_def list_all_length nth_list_update)
  then have "wf_lhash hash cmp lh'" unfolding lh'_def
    using wf items pairwise_different_replace [OF _ yd, of ?R]
    by (intro wf_lhash_update [OF wf b]) (auto simp: wf_lhash_def lh'_def)
  then have "uses ch cc lh'" using u by (simp add: uses_def lh'_def)
  with ins items show thesis by (intro that [of lh']) (auto simp: lh'_def)
qed

lemma insert_miss:
  assumes u: "uses ch cc lh" and y: "lh_retrieve lh d ch cc = None" and al: "al 24"
  obtains lh' where "lh_insert al lh d ch cc = (True, None, lh')" "uses ch cc lh'"
    "lh_items lh' = add_mset d (lh_items lh)"
proof -
  obtain b i where p: "get_next_ptr_and_hash lh d ch cc = ((b, i), hash d)" and b: "b < num_buckets lh"
    and bd: "b = unat (hash d) mod num_buckets lh"
    and ok: "bucket_ok hash (num_buckets lh) b (buckets lh ! b)"
    and r: "lh_retrieve lh d ch cc = map_option item_data (deref lh (b, i))"
    and i: "i \<le> length (buckets lh ! b)"
    by (rule pointer [OF u])
  let ?c = "buckets lh ! b"
  have none: "deref lh (b, i) = None" using y r by auto
  then have "take i ?c = ?c" by (simp add: deref_def Let_def split: if_splits)
  let ?c' = "?c @ [\<lparr>item_data = d, item_hash = hash d\<rparr>]"
  define lh1 where "lh1 = lh\<lparr>buckets := (buckets lh)[b := ?c'], num_items := num_items lh + 1\<rparr>"
  have ins: "lh_insert al lh d ch cc = (True, None, lh_maybe_resize al lh1)"
    using \<open>take i ?c = ?c\<close> al by (simp add: lh_insert_def p none lh1_def)
  have wf: "wf_lhash hash cmp lh" using u by (simp add: uses_def)
  obtain rest where rest: "lh_items lh = chain_data ?c + rest"
    "\<And>ys k. lh_items (lh\<lparr>buckets := (buckets lh)[b := ys], num_items := k\<rparr>) = chain_data ys + rest"
    by (rule lh_items_split [OF b]) (rule that, assumption+)
  have items: "lh_items lh1 = add_mset d (lh_items lh)" by (simp add: lh1_def rest)
  have "cmp x d \<noteq> 0 \<and> cmp d x \<noteq> 0" if "x \<in># lh_items lh" for x
    using that retrieve_iff [OF u, of d x] y cmp_sym [of d x] by auto
  then have "pairwise_different cmp (add_mset d (lh_items lh))"
    using wf by (intro pairwise_different_add) (auto simp: wf_lhash_def)
  moreover have "bucket_ok hash (num_buckets lh) b ?c'"
    using ok bd by (simp add: bucket_ok_def)
  ultimately have "wf_lhash hash cmp lh1" unfolding lh1_def
    using wf items by (intro wf_lhash_update [OF wf b]) (auto simp: wf_lhash_def lh1_def)
  then have "uses ch cc lh1" using u by (simp add: uses_def lh1_def)
  then show thesis using maybe_resize_uses [of ch cc lh1 al] items by (intro that [OF ins]) auto
qed

lemma delete_hit:
  assumes u: "uses ch cc lh" and y: "lh_retrieve lh d ch cc = Some y"
  obtains lh' where "lh_delete al lh d ch cc = (Some y, lh')" "uses ch cc lh'"
    "lh_items lh' = lh_items lh - {#y#}"
proof -
  obtain b i where p: "get_next_ptr_and_hash lh d ch cc = ((b, i), hash d)" and b: "b < num_buckets lh"
    and ok: "bucket_ok hash (num_buckets lh) b (buckets lh ! b)"
    and r: "lh_retrieve lh d ch cc = map_option item_data (deref lh (b, i))"
    by (rule pointer [OF u])
  let ?c = "buckets lh ! b"
  obtain it where it: "deref lh (b, i) = Some it" "item_data it = y" using y r by auto
  then have i: "i < length ?c" "it = ?c ! i" by (auto simp: deref_def Let_def split: if_splits)
  let ?c' = "take i ?c @ drop (i + 1) ?c"
  define lh1 where "lh1 = lh\<lparr>buckets := (buckets lh)[b := ?c'], num_items := num_items lh - 1\<rparr>"
  have del: "lh_delete al lh d ch cc = (Some y, lh_maybe_resize al lh1)"
    by (simp add: lh_delete_def p it lh1_def Let_def)
  have wf: "wf_lhash hash cmp lh" using u by (simp add: uses_def)
  obtain rest where rest: "lh_items lh = chain_data ?c + rest"
    "\<And>ys k. lh_items (lh\<lparr>buckets := (buckets lh)[b := ys], num_items := k\<rparr>) = chain_data ys + rest"
    by (rule lh_items_split [OF b]) (rule that, assumption+)
  have "lh_items lh = add_mset y (lh_items lh1)"
    using rest chain_data_nth [OF i(1)] i(2) it(2) by (simp add: lh1_def)
  then have items: "lh_items lh1 = lh_items lh - {#y#}" and sz: "size (lh_items lh1) = num_items lh - 1"
    using wf by (auto simp: wf_lhash_def)
  have "bucket_ok hash (num_buckets lh) b ?c'"
    using bucket_ok_take [OF ok] bucket_ok_drop [OF ok] by simp
  moreover have "pairwise_different cmp (lh_items lh1)"
    using wf items pairwise_different_remove by (auto simp: wf_lhash_def)
  ultimately have "wf_lhash hash cmp lh1" unfolding lh1_def
    using sz by (intro wf_lhash_update [OF wf b]) (auto simp: lh1_def)
  then have "uses ch cc lh1" using u by (simp add: uses_def lh1_def)
  then show thesis using maybe_resize_uses [of ch cc lh1 al] items by (intro that [OF del]) auto
qed

lemma delete_miss: "lh_retrieve lh d ch cc = None \<Longrightarrow> lh_delete al lh d ch cc = (None, lh)"
  by (auto simp: lh_retrieve_def lh_delete_def split: prod.split)

lemma insert_fail:
  "lh_retrieve lh d ch cc = None \<Longrightarrow> \<not> al 24 \<Longrightarrow> lh_insert al lh d ch cc = (False, None, lh)"
  by (auto simp: lh_retrieve_def lh_insert_def split: prod.split)

end

context keyed_hash_contract
begin

lemma retrieve_key_iff:
  assumes "uses ch cc lh"
  shows "lh_retrieve_key lh k (key_hash k) cmp_key = Some y \<longleftrightarrow> y \<in># lh_items lh \<and> cmp_key k y = 0"
proof -
  have wf: "wf_lhash hash cmp lh" using assms by (simp add: uses_def)
  let ?b = "unat (key_hash k) mod num_buckets lh"
  let ?P = "\<lambda>x. cmp_key k x = 0"
  let ?it = "deref lh (?b, chain_pos ?P (buckets lh ! ?b))"
  have r: "lh_retrieve_key lh k (key_hash k) cmp_key = map_option item_data ?it"
    by (simp add: lh_retrieve_key_def get_next_ptr_by_key_def Let_def)
  show ?thesis
  proof (cases ?it)
    case None
    then show ?thesis
      using r lookup_miss [OF wf refl, of ?P "key_hash k"] key_hash_eq by force
  next
    case (Some it)
    have it: "cmp_key k (item_data it) = 0" "item_data it \<in># lh_items lh"
      using lookup_hit [OF wf refl Some] by auto
    have pd: "pairwise_different cmp (lh_items lh)" using wf by (simp add: wf_lhash_def)
    have "y = item_data it" if y: "y \<in># lh_items lh" "cmp_key k y = 0"
      using pairwise_differentD [OF pd y(1) it(2)] key_cmp [OF y(2)] it(1) by blast
    with it show ?thesis unfolding r Some by auto
  qed
qed

end

subsection \<open>A table of strings\<close>

text \<open>
  The library's \<open>strcmp\<close>, of which the code uses the sign; strings are their bytes without the
  terminator. Entries are pairs of a string and a value, found by the string.
\<close>

fun strcmp :: "bytes \<Rightarrow> bytes \<Rightarrow> int" where
  "strcmp [] [] = 0"
| "strcmp [] (b # bs) = -1"
| "strcmp (a # as) [] = 1"
| "strcmp (a # as) (b # bs) = (if a = b then strcmp as bs else int (unat a) - int (unat b))"

lemma strcmp_eq_0 [simp]: "strcmp s t = 0 \<longleftrightarrow> s = t"
  by (induction s t rule: strcmp.induct) (auto simp: word_uint_eq_iff)

abbreviation entry_hash :: "unit \<Rightarrow> bytes \<times> 'v \<Rightarrow> u32" where
  "entry_hash u e \<equiv> lh_strhash (Some (fst e))"

abbreviation entry_cmp :: "unit \<Rightarrow> bytes \<times> 'v \<Rightarrow> bytes \<times> 'v \<Rightarrow> int" where
  "entry_cmp u d e \<equiv> strcmp (fst d) (fst e)"

interpretation string_table:
  keyed_hash_contract "entry_hash ()" "entry_cmp ()" "\<lambda>k. lh_strhash (Some k)" "\<lambda>k e. strcmp k (fst e)"
  by unfold_locales auto

text \<open>
  Runs of a string table, with the map a client expects it to hold. Every call has an allocator of its own, so that
  allocations may fail at any point of a run, with any number of items in the table.
\<close>

inductive lh_run :: "(bytes \<rightharpoonup> 'v) \<Rightarrow> (unit, unit, bytes \<times> 'v) lhash_st \<Rightarrow> bool" where
  new: "lh_new al () () = Some lh \<Longrightarrow> lh_run Map.empty lh"
| insert: "lh_run m lh \<Longrightarrow> lh_insert al lh (k, v) entry_hash entry_cmp = (True, old, lh') \<Longrightarrow>
    lh_run (m(k \<mapsto> v)) lh'"
| insert_fail: "lh_run m lh \<Longrightarrow> lh_insert al lh (k, v) entry_hash entry_cmp = (False, old, lh') \<Longrightarrow>
    lh_run m lh'"
| delete: "lh_run m lh \<Longrightarrow> lh_delete al lh (k, v) entry_hash entry_cmp = (old, lh') \<Longrightarrow>
    lh_run (m(k := None)) lh'"
| doall: "lh_run m lh \<Longrightarrow> lh_doall_arg al (Some lh) func (arg :: 'v list) = (arg', Some lh') \<Longrightarrow>
    lh_run m lh'"

definition holds_map :: "(unit, unit, bytes \<times> 'v) lhash_st \<Rightarrow> (bytes \<rightharpoonup> 'v) \<Rightarrow> bool" where
  "holds_map lh m \<longleftrightarrow> string_table.uses entry_hash entry_cmp lh \<and>
     (\<forall>k v. (k, v) \<in># lh_items lh \<longleftrightarrow> m k = Some v)"

lemma pairwise_different_mset_set:
  assumes "pairwise_different cmp M" "\<And>x. cmp x x = 0"
  shows "M = mset_set (set_mset M)"
proof (rule multiset_eqI)
  fix x
  have "count M x = 1" if "x \<in># M"
  proof (rule ccontr)
    assume "count M x \<noteq> 1"
    then have "x \<in># M - {#x#}" using that by (simp add: in_diff_count) (metis One_nat_def count_greater_zero_iff less_one linorder_neqE_nat not_less_eq that)
    with assms that show False by (auto simp: pairwise_different_def)
  qed
  then show "count M x = count (mset_set (set_mset M)) x" by (cases "x \<in># M") (simp_all add: not_in_iff)
qed

lemma pairwise_different_size: "pairwise_different cmp M \<Longrightarrow> (\<And>x. cmp x x = 0) \<Longrightarrow> size M = card (set_mset M)"
  using pairwise_different_mset_set [of cmp M] by (metis size_mset_set)

lemma holds_map_size:
  assumes "holds_map lh m"
  shows "num_items lh = card (dom m)"
proof -
  have wf: "wf_lhash (entry_hash ()) (entry_cmp ()) lh"
    using assms by (simp add: holds_map_def string_table.uses_def)
  have "set_mset (lh_items lh) = (\<lambda>k. (k, the (m k))) ` dom m"
    using assms by (force simp: holds_map_def dom_def)
  moreover have "inj_on (\<lambda>k. (k, the (m k))) (dom m)" by (rule inj_onI) simp
  ultimately have "card (set_mset (lh_items lh)) = card (dom m)" by (simp add: card_image)
  then show ?thesis
    using wf pairwise_different_size [of "entry_cmp ()" "lh_items lh"] by (auto simp: wf_lhash_def)
qed

lemma lh_doall_same_table:
  assumes "lh_doall_arg al (Some lh) func arg = (arg', Some lh')"
  obtains lh1 where "buckets lh1 = buckets lh" "num_items lh1 = num_items lh" "lh_hash lh1 = lh_hash lh"
    "lh_comp lh1 = lh_comp lh" "lh' = lh_maybe_resize al lh1"
proof -
  let ?d1 = "if callback_depth lh < -1 then callback_depth lh + 1 else callback_depth lh"
  let ?d2 = "if ?d1 < -1 then ?d1 - 1 else ?d1"
  have "lh' = lh_maybe_resize al (lh\<lparr>callback_depth := ?d2\<rparr>)"
    using assms by (cases lh) (auto simp: lh_doall_arg_def Let_def split: if_splits)
  then show thesis by (rule that [rotated 4]) simp_all
qed

lemma uses_same_table:
  assumes "string_table.uses ch cc lh" "buckets lh1 = buckets lh" "num_items lh1 = num_items lh"
    "lh_hash lh1 = lh_hash lh" "lh_comp lh1 = lh_comp lh"
  shows "string_table.uses ch cc lh1" "lh_items lh1 = lh_items lh"
  using assms by (simp_all add: string_table.uses_def wf_lhash_def lh_items_def)

lemma retrieve_holds_map:
  assumes "holds_map lh m"
  shows "lh_retrieve lh (k, v) entry_hash entry_cmp = map_option (Pair k) (m k)"
proof (cases "m k")
  case None
  have u: "string_table.uses entry_hash entry_cmp lh" using assms by (simp add: holds_map_def)
  have "lh_retrieve lh (k, v) entry_hash entry_cmp \<noteq> Some e" for e
    using string_table.retrieve_iff [OF u, of "(k, v)" e] assms None by (cases e) (auto simp: holds_map_def)
  with None show ?thesis by (cases "lh_retrieve lh (k, v) entry_hash entry_cmp") auto
next
  case (Some w)
  with assms string_table.retrieve_iff [of entry_hash entry_cmp lh "(k, v)" "(k, w)"] show ?thesis
    by (simp add: holds_map_def)
qed

lemma holds_map_remove:
  assumes "holds_map lh m"
  shows "x \<in># lh_items lh - {#y#} \<longleftrightarrow> x \<in># lh_items lh \<and> x \<noteq> y"
proof -
  have pd: "pairwise_different (entry_cmp ()) (lh_items lh)"
    using assms by (simp add: holds_map_def string_table.uses_def wf_lhash_def)
  have "y \<notin># lh_items lh - {#y#}"
    using pd in_diffD [of y "lh_items lh" "{#y#}"] by (force simp: pairwise_different_def)
  moreover have "x \<in># lh_items lh - {#y#} \<longleftrightarrow> x \<in># lh_items lh" if "x \<noteq> y"
    using that by (auto simp: in_diff_count)
  ultimately show ?thesis by (cases "x = y") auto
qed

lemma lh_run_holds_map: "lh_run m lh \<Longrightarrow> holds_map lh m"
proof (induction rule: lh_run.induct)
  case (new al lh)
  then show ?case
    by (auto simp: lh_new_def holds_map_def string_table.uses_def wf_lhash_def lh_items_def bucket_ok_def
        pairwise_different_def split: if_splits)
next
  case (insert m lh al k v old lh')
  from insert.IH have u: "string_table.uses entry_hash entry_cmp lh" by (simp add: holds_map_def)
  show ?case
  proof (cases "m k")
    case None
    have r: "lh_retrieve lh (k, v) entry_hash entry_cmp = None"
      using retrieve_holds_map [OF insert.IH] None by simp
    have al: "al 24"
      using insert.hyps(2) string_table.insert_fail [OF r, of al] by (cases "al 24") auto
    obtain lh1 where "lh_insert al lh (k, v) entry_hash entry_cmp = (True, None, lh1)"
      "string_table.uses entry_hash entry_cmp lh1" "lh_items lh1 = add_mset (k, v) (lh_items lh)"
      by (rule string_table.insert_miss [of entry_hash entry_cmp lh "(k, v)" al, OF u r al])
    with insert None show ?thesis by (auto simp: holds_map_def)
  next
    case (Some w)
    have r: "lh_retrieve lh (k, v) entry_hash entry_cmp = Some (k, w)"
      using retrieve_holds_map [OF insert.IH] Some by simp
    obtain lh1 where "lh_insert al lh (k, v) entry_hash entry_cmp = (True, Some (k, w), lh1)"
      "string_table.uses entry_hash entry_cmp lh1"
      "lh_items lh1 = add_mset (k, v) (lh_items lh - {#(k, w)#})"
      by (rule string_table.insert_hit [OF u r])
    with insert Some show ?thesis
      by (auto simp: holds_map_def holds_map_remove [OF insert.IH])
  qed
next
  case (insert_fail m lh al k v old lh')
  from insert_fail.IH have u: "string_table.uses entry_hash entry_cmp lh" by (simp add: holds_map_def)
  have "lh' = lh"
  proof (cases "lh_retrieve lh (k, v) entry_hash entry_cmp")
    case None
    then show ?thesis
      using insert_fail.hyps(2) string_table.insert_miss [OF u None, of al] string_table.insert_fail [OF None, of al]
      by (cases "al 24") (metis Pair_inject)+
  next
    case (Some y)
    show ?thesis by (rule string_table.insert_hit [OF u Some, of al]) (use insert_fail.hyps(2) in simp)
  qed
  with insert_fail show ?case by simp
next
  case (delete m lh al k v old lh')
  from delete.IH have u: "string_table.uses entry_hash entry_cmp lh" by (simp add: holds_map_def)
  show ?case
  proof (cases "m k")
    case None
    have "lh_retrieve lh (k, v) entry_hash entry_cmp = None"
      using retrieve_holds_map [OF delete.IH] None by simp
    then have "lh' = lh" using delete.hyps(2) string_table.delete_miss by (metis Pair_inject)
    with delete.IH None show ?thesis by (metis fun_upd_triv)
  next
    case (Some w)
    have r: "lh_retrieve lh (k, v) entry_hash entry_cmp = Some (k, w)"
      using retrieve_holds_map [OF delete.IH] Some by simp
    obtain lh1 where "lh_delete al lh (k, v) entry_hash entry_cmp = (Some (k, w), lh1)"
      "string_table.uses entry_hash entry_cmp lh1" "lh_items lh1 = lh_items lh - {#(k, w)#}"
      by (rule string_table.delete_hit [OF u r])
    with delete Some show ?thesis
      by (auto simp: holds_map_def holds_map_remove [OF delete.IH])
  qed
next
  case (doall m lh al func arg arg' lh')
  obtain lh1 where lh1: "buckets lh1 = buckets lh" "num_items lh1 = num_items lh" "lh_hash lh1 = lh_hash lh"
    "lh_comp lh1 = lh_comp lh" "lh' = lh_maybe_resize al lh1"
    by (rule lh_doall_same_table [OF doall.hyps(2)])
  have u: "string_table.uses entry_hash entry_cmp lh" using doall.IH by (simp add: holds_map_def)
  note same = uses_same_table [OF u lh1(1-4)]
  show ?case
    using doall.IH string_table.maybe_resize_uses [OF same(1), of al] same(2)
    by (simp add: holds_map_def lh1(5))
qed

subsection \<open>Properties\<close>

lemma doall_visits:
  fixes lh :: "('h, 'c, 'd) lhash_st"
  shows "fst (lh_doall_arg al (Some lh) (\<lambda>x xs. xs @ [x]) []) = map item_data (concat (buckets lh))"
proof -
  have c: "foldl (\<lambda>arg cur. arg @ [item_data cur]) arg ch = arg @ map item_data ch" for arg and ch :: "'d lhash_item_st list"
    by (induction ch arbitrary: arg) simp_all
  have "foldl (foldl (\<lambda>arg cur. arg @ [item_data cur])) arg bs = arg @ map item_data (concat bs)" for arg and bs :: "'d lhash_item_st list list"
    by (induction bs arbitrary: arg) (simp_all add: c)
  then show ?thesis by (simp add: lh_doall_arg_def Let_def)
qed

text \<open>
  C19: a hash table of strings implements a map: after any insertions, deletions and iterations, with allocations that
  fail at any point and with resizing, looking up a string gives what was last stored under it and not deleted since. An
  insertion returns the entry it replaces and fails only for a new string without memory, a deletion returns
  the entry it removes, an iteration visits every entry once, and the number of items is the number of strings stored.
\<close>

theorem lh_implements_map:
  assumes "lh_run m lh"
  shows "lh_retrieve_key lh k (lh_strhash (Some k)) (\<lambda>k e. strcmp k (fst e)) = map_option (Pair k) (m k) \<and>
    lh_retrieve lh (k, v) entry_hash entry_cmp = map_option (Pair k) (m k) \<and>
    (\<exists>lh'. lh_insert al lh (k, v) entry_hash entry_cmp = (m k \<noteq> None \<or> al 24, map_option (Pair k) (m k), lh')) \<and>
    fst (lh_delete al lh (k, v) entry_hash entry_cmp) = map_option (Pair k) (m k) \<and>
    mset (fst (lh_doall_arg al (Some lh) (\<lambda>x xs. xs @ [x]) [])) = mset_set {(k, v). m k = Some v} \<and>
    lh_num_items lh = card (dom m)"
proof (intro conjI)
  note hm = lh_run_holds_map [OF assms]
  have u: "string_table.uses entry_hash entry_cmp lh" using hm by (simp add: holds_map_def)
  have "lh_retrieve_key lh k (lh_strhash (Some k)) (\<lambda>k e. strcmp k (fst e)) = Some (k', v) \<longleftrightarrow>
      k' = k \<and> m k = Some v" for k' v
    using string_table.retrieve_key_iff [OF u, of k "(k', v)"] hm by (auto simp: holds_map_def)
  then show "lh_retrieve_key lh k (lh_strhash (Some k)) (\<lambda>k e. strcmp k (fst e)) = map_option (Pair k) (m k)"
    by (cases "m k"; cases "lh_retrieve_key lh k (lh_strhash (Some k)) (\<lambda>k e. strcmp k (fst e))") auto
  show r: "lh_retrieve lh (k, v) entry_hash entry_cmp = map_option (Pair k) (m k)" by (rule retrieve_holds_map [OF hm])
  show "\<exists>lh'. lh_insert al lh (k, v) entry_hash entry_cmp = (m k \<noteq> None \<or> al 24, map_option (Pair k) (m k), lh')"
  proof (cases "m k")
    case None
    then have r: "lh_retrieve lh (k, v) entry_hash entry_cmp = None" using r by simp
    show ?thesis
    proof (cases "al 24")
      case True
      show ?thesis by (rule string_table.insert_miss [of entry_hash entry_cmp lh "(k, v)" al, OF u r True]) (use None True in simp)
    next
      case False
      with None show ?thesis using string_table.insert_fail [OF r, of al] by simp
    qed
  next
    case (Some w)
    then have "lh_retrieve lh (k, v) entry_hash entry_cmp = Some (k, w)" using r by simp
    then show ?thesis by (rule string_table.insert_hit [of entry_hash entry_cmp lh "(k, v)" _ al, OF u]) (use Some in simp)
  qed
  show "fst (lh_delete al lh (k, v) entry_hash entry_cmp) = map_option (Pair k) (m k)"
  proof (cases "m k")
    case None
    then show ?thesis using r string_table.delete_miss [of lh "(k, v)" entry_hash entry_cmp al] by simp
  next
    case (Some w)
    then have "lh_retrieve lh (k, v) entry_hash entry_cmp = Some (k, w)" using r by simp
    then show ?thesis by (rule string_table.delete_hit [of entry_hash entry_cmp lh "(k, v)" _ al, OF u]) (use Some in simp)
  qed
  have pd: "pairwise_different (entry_cmp ()) (lh_items lh)" using u by (simp add: string_table.uses_def wf_lhash_def)
  have "lh_items lh = mset_set (set_mset (lh_items lh))" by (rule pairwise_different_mset_set [OF pd]) simp
  also have "set_mset (lh_items lh) = {(k, v). m k = Some v}" using hm by (auto simp: holds_map_def)
  finally show "mset (fst (lh_doall_arg al (Some lh) (\<lambda>x xs. xs @ [x]) [])) = mset_set {(k, v). m k = Some v}"
    by (simp add: doall_visits lh_items_def mset_map [symmetric] del: mset_map)
  show "lh_num_items lh = card (dom m)"
    using holds_map_size [OF hm] by (simp add: lh_num_items_def)
qed

theorem lh_implements_map_witness:
  "\<exists>lh lh' :: (unit, unit, bytes \<times> nat) lhash_st. lh_new (\<lambda>n. True) () () = Some lh \<and>
     lh_insert (\<lambda>n. True) lh ([97], 5 :: nat) entry_hash entry_cmp = (True, None, lh') \<and>
     lh_retrieve_key lh' [97] (lh_strhash (Some [97])) (\<lambda>k e. strcmp k (fst e)) = Some ([97], 5) \<and>
     fst (lh_insert (\<lambda>n. False) lh' ([98], 6) entry_hash entry_cmp) = False \<and>
     lh_num_items lh' = 1"
proof -
  obtain lh :: "(unit, unit, bytes \<times> nat) lhash_st" where lh: "lh_new (\<lambda>n. True) () () = Some lh"
    by (simp add: lh_new_def)
  then have run: "lh_run Map.empty lh" by (rule lh_run.new)
  obtain lh' where i: "lh_insert (\<lambda>n. True) lh ([97], 5) entry_hash entry_cmp = (True, None, lh')"
    using lh_implements_map [OF run, of "[97]" 5 "\<lambda>n. True"] by auto
  have run': "lh_run [[97] \<mapsto> 5] lh'" by (rule lh_run.insert [OF run i])
  show ?thesis
    using lh i lh_implements_map [OF run', of "[97]"] lh_implements_map [OF run', of "[98]" 6 "\<lambda>n. False"] by auto
qed

text \<open>
  While an iteration is running, no insertion or deletion moves the items to another array
  of buckets, so the chains the iteration walks stay in place.
\<close>

lemma lh_no_resize_in_callback:
  assumes "callback_depth lh > 0"
  shows "num_buckets (snd (snd (lh_insert al lh d ch cc))) = num_buckets lh \<and>
    num_buckets (snd (lh_delete al lh d ch cc)) = num_buckets lh"
  using assms
  by (auto simp: lh_insert_def lh_delete_def lh_maybe_resize_def Let_def split: prod.split option.split)

end
