(* ===== verification/C_Strings.thy ===== *)
theory C_Strings
  imports Const_Time
begin

text \<open>
  The string helpers of \<open>crypto/mem.c\<close>. A \<open>char\<close> pointer is the list of bytes readable from it, a
  string the bytes before the first NUL; a destination buffer is the block that is written.
  \<open>char\<close> is signed on the app's targets.
\<close>

definition strlen :: "bytes \<Rightarrow> nat" where
  "strlen s = length (takeWhile (\<lambda>b. b \<noteq> 0) s)"

definition cstr :: "bytes \<Rightarrow> bytes" where
  "cstr s = takeWhile (\<lambda>b. b \<noteq> 0) s"

text \<open>The byte at the pointer; a list that ends without a NUL reads as if one followed.\<close>

definition char_at :: "bytes \<Rightarrow> u8" where
  "char_at s = (case s of [] \<Rightarrow> 0 | b # s \<Rightarrow> b)"

definition OPENSSL_strdup :: "allocator \<Rightarrow> bytes option \<Rightarrow> bytes option" where
  "OPENSSL_strdup al s =
     (case s of
        None \<Rightarrow> None
      | Some s \<Rightarrow> let len = strlen s + 1 in if \<not> al len then None else Some (cstr s @ [0]))"

definition OPENSSL_tolower :: "int \<Rightarrow> int" where
  "OPENSSL_tolower c = (if c \<ge> 65 \<and> c \<le> 90 then c + (97 - 65) else c)"

function OPENSSL_strcasecmp :: "bytes \<Rightarrow> bytes \<Rightarrow> int" where
  "OPENSSL_strcasecmp a b =
     (let aa = OPENSSL_tolower (sint (char_at a));
          bb = OPENSSL_tolower (sint (char_at b))
      in if aa < bb then -1
         else if aa > bb then 1
         else if aa = 0 then 0
         else OPENSSL_strcasecmp (tl a) (tl b))"
  by pat_completeness auto
termination
  by (relation "measure (\<lambda>(a, b). length a)")
    (auto simp: char_at_def OPENSSL_tolower_def split: list.splits if_splits)

declare OPENSSL_strcasecmp.simps [simp del]

fun OPENSSL_strncasecmp :: "bytes \<Rightarrow> bytes \<Rightarrow> nat \<Rightarrow> int" where
  "OPENSSL_strncasecmp a b 0 = 0"
| "OPENSSL_strncasecmp a b (Suc n) =
     (let aa = OPENSSL_tolower (sint (char_at a));
          bb = OPENSSL_tolower (sint (char_at b))
      in if aa < bb then -1
         else if aa > bb then 1
         else if aa = 0 then 0
         else OPENSSL_strncasecmp (tl a) (tl b) n)"

text \<open>
  The copy loop of \<open>OPENSSL_strlcpy\<close>: \<open>l\<close> counts the bytes copied, which is also how far \<open>dst\<close>
  has advanced.
\<close>

fun strlcpy_loop :: "nat \<Rightarrow> bytes \<Rightarrow> bytes \<Rightarrow> nat \<Rightarrow> nat \<times> bytes \<times> bytes \<times> nat" where
  "strlcpy_loop l dst [] dst_size = (l, dst, [], dst_size)"
| "strlcpy_loop l dst (c # src) dst_size =
     (if dst_size > 1 \<and> c \<noteq> 0 then strlcpy_loop (l + 1) (dst[l := c]) src (dst_size - 1)
      else (l, dst, c # src, dst_size))"

definition OPENSSL_strlcpy :: "bytes \<Rightarrow> bytes \<Rightarrow> nat \<Rightarrow> nat \<times> bytes" where
  "OPENSSL_strlcpy dst src dst_size =
     (let (l, dst, src, dst_size) = strlcpy_loop 0 dst src dst_size;
          dst = (if dst_size \<noteq> 0 then dst[l := 0] else dst)
      in (l + strlen src, dst))"

fun strlcat_skip :: "bytes \<Rightarrow> nat \<Rightarrow> nat" where
  "strlcat_skip [] dst_size = 0"
| "strlcat_skip (c # dst) dst_size =
     (if dst_size > 0 \<and> c \<noteq> 0 then strlcat_skip dst (dst_size - 1) + 1 else 0)"

definition OPENSSL_strlcat :: "bytes \<Rightarrow> bytes \<Rightarrow> nat \<Rightarrow> nat \<times> bytes" where
  "OPENSSL_strlcat dst src dst_size =
     (let l = strlcat_skip dst dst_size;
          (n, dst') = OPENSSL_strlcpy (drop l dst) src (dst_size - l)
      in (l + n, take l dst @ dst'))"

subsection \<open>Bounded copies\<close>

lemma strlen_cstr: "strlen s = length (cstr s)"
  by (simp add: strlen_def cstr_def)

lemma cstr_simps [simp]: "cstr [] = []" "cstr (c # s) = (if c = 0 then [] else c # cstr s)"
  by (simp_all add: cstr_def)

lemma strlen_simps [simp]: "strlen [] = 0" "strlen (c # s) = (if c = 0 then 0 else Suc (strlen s))"
  by (simp_all add: strlen_cstr)

lemma strlen_drop: "k \<le> strlen s \<Longrightarrow> strlen (drop k s) = strlen s - k"
  by (induction s arbitrary: k) (auto simp: drop_Cons' split: if_splits)

lemma strlcpy_loop_eq:
  assumes "0 < n" "l + n \<le> length dst"
  shows "strlcpy_loop l dst src n =
    (let k = min (n - 1) (strlen src) in (l + k, blit l (take k (cstr src)) dst, drop k src, n - k))"
  using assms
proof (induction l dst src n rule: strlcpy_loop.induct)
  case (2 l dst c src n)
  show ?case
  proof (cases "n > 1 \<and> c \<noteq> 0")
    case True
    then obtain m where m: "n = Suc (Suc m)" by (metis Suc_lessD less_imp_Suc_add One_nat_def add_0 plus_nat.simps(2))
    have l: "l < length dst" using 2 m by simp
    have "blit (l + 1) xs (dst[l := c]) = blit l (c # xs) dst" for xs
      using l by (simp add: blit_def take_Suc_conv_app_nth take_update_cancel)
    with 2 True m show ?thesis by (simp add: Let_def)
  qed (auto simp: Let_def)
qed (simp add: Let_def)

lemma OPENSSL_strlcpy_eq:
  assumes "n \<le> length dst"
  shows "OPENSSL_strlcpy dst src n =
    (strlen src, if n = 0 then dst else blit 0 (take (n - 1) (cstr src) @ [0]) dst)"
proof (cases "n = 0")
  case True
  then show ?thesis by (cases src) (auto simp: OPENSSL_strlcpy_def)
next
  case False
  let ?k = "min (n - 1) (strlen src)"
  let ?xs = "take (n - 1) (cstr src)"
  have xs: "take ?k (cstr src) = ?xs" "length ?xs = ?k" by (auto simp: strlen_cstr min_def)
  have k: "?k < length dst" using assms False by auto
  have "blit 0 ?xs dst = ?xs @ dst ! ?k # drop (?k + 1) dst"
    using xs(2) k by (simp add: blit_def Cons_nth_drop_Suc)
  then have "(blit 0 ?xs dst)[?k := 0] = blit 0 (?xs @ [0]) dst"
    using xs(2) by (simp only: list_update_append) (simp add: blit_def)
  moreover have "?k < n" using False by auto
  ultimately show ?thesis
    using False assms xs strlcpy_loop_eq [of n 0 dst src]
    by (simp add: OPENSSL_strlcpy_def Let_def strlen_drop)
qed

lemma strlcat_skip_eq: "strlcat_skip dst n = min n (strlen dst)"
  by (induction dst n rule: strlcat_skip.induct) auto

lemma cstr_no_nul: "0 \<notin> set (cstr s)"
  by (auto simp: cstr_def dest: set_takeWhileD)

lemma cstr_append_nul: "0 \<notin> set xs \<Longrightarrow> cstr (xs @ 0 # ys) = xs"
  by (induction xs) auto

lemma take_strlen: "take (strlen s) s = cstr s"
  by (induction s) auto

lemma OPENSSL_strlcat_eq:
  assumes "n \<le> length dst"
  shows "OPENSSL_strlcat dst src n =
    (min n (strlen dst) + strlen src,
     if strlen dst < n then blit 0 (take (n - 1) (cstr dst @ cstr src) @ [0]) dst else dst)"
proof (cases "strlen dst < n")
  case True
  let ?l = "strlen dst"
  have d: "take ?l dst = cstr dst" "length (cstr dst) = ?l" by (simp only: take_strlen) (simp only: strlen_cstr)
  have c: "OPENSSL_strlcpy (drop ?l dst) src (n - ?l) =
      (strlen src, blit 0 (take (n - ?l - 1) (cstr src) @ [0]) (drop ?l dst))"
    using True assms by (subst OPENSSL_strlcpy_eq) auto
  have "take (n - 1) (cstr dst @ cstr src) = cstr dst @ take (n - ?l - 1) (cstr src)"
    using True d(2) by (simp add: take_append)
  then have "cstr dst @ blit 0 (take (n - ?l - 1) (cstr src) @ [0]) (drop ?l dst) =
      blit 0 (take (n - 1) (cstr dst @ cstr src) @ [0]) dst"
    using d(2) by (simp add: blit_def ac_simps)
  with True c d show ?thesis by (simp add: OPENSSL_strlcat_def strlcat_skip_eq Let_def)
next
  case False
  then have "min n (strlen dst) = n" by simp
  with False show ?thesis
    using OPENSSL_strlcpy_eq [of 0 "drop n dst" src] by (simp add: OPENSSL_strlcat_def strlcat_skip_eq Let_def)
qed

lemma drop_blit: "length xs \<le> n \<Longrightarrow> drop n (blit 0 xs dst) = drop n dst"
  by (simp add: blit_def)

lemma cstr_blit: "0 \<notin> set xs \<Longrightarrow> cstr (blit 0 (xs @ [0]) dst) = xs"
  by (simp add: blit_def cstr_append_nul)

subsection \<open>Comparison without regard to case\<close>

abbreviation lower :: "bytes \<Rightarrow> int list" where
  "lower s \<equiv> map (\<lambda>c. OPENSSL_tolower (sint c)) (cstr s)"

lemma tolower_eq_0 [simp]: "OPENSSL_tolower c = 0 \<longleftrightarrow> c = 0"
  by (auto simp: OPENSSL_tolower_def)

lemma sint_eq_0_iff: "sint (c :: u8) = 0 \<longleftrightarrow> c = 0"
  by (simp add: signed_eq_0_iff)

lemma lower_char_at: "lower s = (if char_at s = 0 then [] else OPENSSL_tolower (sint (char_at s)) # lower (tl s))"
  by (cases s) (auto simp: char_at_def)

lemma OPENSSL_strcasecmp_eq_0: "OPENSSL_strcasecmp a b = 0 \<longleftrightarrow> lower a = lower b"
proof (induction a b rule: OPENSSL_strcasecmp.induct)
  case (1 a b)
  let ?x = "OPENSSL_tolower (sint (char_at a))" and ?y = "OPENSSL_tolower (sint (char_at b))"
  show ?case
  proof (cases "?x = ?y")
    case True
    then have z: "char_at a = 0 \<longleftrightarrow> char_at b = 0" by (metis sint_eq_0_iff tolower_eq_0)
    show ?thesis
    proof (cases "char_at a = 0")
      case True
      with z show ?thesis
        by (subst OPENSSL_strcasecmp.simps) (simp add: Let_def lower_char_at [of a] lower_char_at [of b])
    next
      case False
      then have "OPENSSL_strcasecmp a b = OPENSSL_strcasecmp (tl a) (tl b)"
        using True z by (subst OPENSSL_strcasecmp.simps) (simp add: Let_def sint_eq_0_iff)
      moreover have "OPENSSL_strcasecmp (tl a) (tl b) = 0 \<longleftrightarrow> lower (tl a) = lower (tl b)"
        using "1.IH" [OF refl refl] True False z by (simp add: sint_eq_0_iff)
      ultimately show ?thesis
        using True False z by (simp add: lower_char_at [of a] lower_char_at [of b])
    qed
  next
    case False
    then have "OPENSSL_strcasecmp a b \<noteq> 0" by (subst OPENSSL_strcasecmp.simps) (simp add: Let_def)
    moreover have "lower a \<noteq> lower b"
      using False by (subst (1 2) lower_char_at) auto
    ultimately show ?thesis by simp
  qed
qed

lemma OPENSSL_strncasecmp_eq_0:
  "OPENSSL_strncasecmp a b n = 0 \<longleftrightarrow> take n (lower a) = take n (lower b)"
proof (induction a b n rule: OPENSSL_strncasecmp.induct)
  case (2 a b n)
  let ?x = "OPENSSL_tolower (sint (char_at a))" and ?y = "OPENSSL_tolower (sint (char_at b))"
  show ?case
  proof (cases "?x = ?y")
    case True
    then have z: "char_at a = 0 \<longleftrightarrow> char_at b = 0" by (metis sint_eq_0_iff tolower_eq_0)
    with 2 True show ?thesis
      by (cases "char_at a = 0") (simp_all add: Let_def lower_char_at [of a] lower_char_at [of b] sint_eq_0_iff)
  next
    case False
    then show ?thesis by (subst (1 2) lower_char_at) (auto simp: Let_def)
  qed
qed simp

subsection \<open>Properties\<close>

text \<open>
  \<open>OPENSSL_strlcpy\<close> and \<open>OPENSSL_strlcat\<close> stay within the stated size, terminate what they
  write, truncate to what fits, and return the length they would have liked to write.
\<close>

theorem strl_bounded:
  assumes "n \<le> length dst" "strlen dst < n"
  shows "(case OPENSSL_strlcpy dst src n of (r, dst') \<Rightarrow>
      length dst' = length dst \<and> drop n dst' = drop n dst \<and> cstr dst' = take (n - 1) (cstr src) \<and>
      r = strlen src) \<and>
    (case OPENSSL_strlcat dst src n of (r, dst') \<Rightarrow>
      length dst' = length dst \<and> drop n dst' = drop n dst \<and>
      cstr dst' = take (n - 1) (cstr dst @ cstr src) \<and> r = strlen dst + strlen src)"
proof -
  have block: "length (blit 0 (take (n - 1) xs @ [0]) dst) = length dst \<and>
      drop n (blit 0 (take (n - 1) xs @ [0]) dst) = drop n dst \<and>
      cstr (blit 0 (take (n - 1) xs @ [0]) dst) = take (n - 1) xs" if "0 \<notin> set xs" for xs
    using assms that cstr_blit [of "take (n - 1) xs" dst]
    by (auto simp: drop_blit dest: in_set_takeD)
  show ?thesis
    using assms block [of "cstr src"] block [of "cstr dst @ cstr src"] cstr_no_nul
    by (simp add: OPENSSL_strlcpy_eq OPENSSL_strlcat_eq)
qed

theorem strl_bounded_witness:
  "OPENSSL_strlcat [97, 98, 0, 7, 9] [99, 100, 0] 4 = (4, [97, 98, 99, 0, 9])"
proof -
  have "strlen [97, 98, 0, 7, 9] < 4" by simp
  from strl_bounded [OF _ this, of "[99, 100, 0]"] show ?thesis
    by (simp add: OPENSSL_strlcat_eq blit_def)
qed

text \<open>
  \<open>OPENSSL_strcasecmp\<close> and \<open>OPENSSL_strncasecmp\<close> return zero exactly for strings that agree up to
  the case of ASCII letters, the latter over the first bytes it is told to compare.
\<close>

theorem strcasecmp_zero:
  "(OPENSSL_strcasecmp a b = 0 \<longleftrightarrow> lower a = lower b) \<and>
   (OPENSSL_strncasecmp a b n = 0 \<longleftrightarrow> take n (lower a) = take n (lower b))"
  using OPENSSL_strcasecmp_eq_0 OPENSSL_strncasecmp_eq_0 by blast

end
