(* ===== verification/Buf.thy ===== *)
theory Buf
  imports Prelude
begin

text \<open>
  \<open>crypto/buf/buf.c\<close>: \<open>BUF_MEM\<close>, the growable byte buffer. The model keeps the allocated block;
  \<open>max\<close> is its length and an unallocated buffer has the empty block. The bytes \<open>realloc\<close> adds
  have unspecified contents: \<open>fresh i\<close> stands for the byte found at index \<open>i\<close>.
\<close>

record buf_mem_st =
  buf_length :: nat
  buf_data :: bytes

abbreviation buf_max :: "buf_mem_st \<Rightarrow> nat" where
  "buf_max b \<equiv> length (buf_data b)"

definition BUF_MEM_new :: "allocator \<Rightarrow> buf_mem_st option" where
  "BUF_MEM_new al = (if \<not> al 24 then None else Some \<lparr>buf_length = 0, buf_data = []\<rparr>)"

definition realloc_block :: "(nat \<Rightarrow> u8) \<Rightarrow> nat \<Rightarrow> bytes \<Rightarrow> bytes" where
  "realloc_block fresh n block = take n block @ map fresh [length block..<n]"

definition BUF_MEM_reserve :: "allocator \<Rightarrow> (nat \<Rightarrow> u8) \<Rightarrow> buf_mem_st \<Rightarrow> nat \<Rightarrow> bool \<times> buf_mem_st" where
  "BUF_MEM_reserve al fresh buf cap =
     (if buf_max buf \<ge> cap then (True, buf)
      else
        let n = (cap + 3) mod size_lim
        in if n < cap then (False, buf)
           else
             let n = n div 3; alloc_size = (n * 4) mod size_lim
             in if alloc_size div 4 \<noteq> n then (False, buf)
                else if \<not> al alloc_size then (False, buf)
                else (True, buf\<lparr>buf_data := realloc_block fresh alloc_size (buf_data buf)\<rparr>))"

definition BUF_MEM_grow :: "allocator \<Rightarrow> (nat \<Rightarrow> u8) \<Rightarrow> buf_mem_st \<Rightarrow> nat \<Rightarrow> nat \<times> buf_mem_st" where
  "BUF_MEM_grow al fresh buf len =
     (case BUF_MEM_reserve al fresh buf len of
        (False, buf) \<Rightarrow> (0, buf)
      | (True, buf) \<Rightarrow>
          let d = (if buf_length buf < len
                   then blit (buf_length buf) (replicate (len - buf_length buf) 0) (buf_data buf)
                   else buf_data buf)
          in (len, buf\<lparr>buf_data := d, buf_length := len\<rparr>))"

definition BUF_MEM_grow_clean :: "allocator \<Rightarrow> (nat \<Rightarrow> u8) \<Rightarrow> buf_mem_st \<Rightarrow> nat \<Rightarrow> nat \<times> buf_mem_st" where
  "BUF_MEM_grow_clean al fresh buf len = BUF_MEM_grow al fresh buf len"

definition BUF_MEM_append :: "allocator \<Rightarrow> (nat \<Rightarrow> u8) \<Rightarrow> buf_mem_st \<Rightarrow> bytes \<Rightarrow> bool \<times> buf_mem_st" where
  "BUF_MEM_append al fresh buf inp =
     (let len = length inp
      in if len = 0 then (True, buf)
         else
           let new_len = (buf_length buf + len) mod size_lim
           in if new_len < len then (False, buf)
              else case BUF_MEM_reserve al fresh buf new_len of
                     (False, buf) \<Rightarrow> (False, buf)
                   | (True, buf) \<Rightarrow>
                       (True, buf\<lparr>buf_data := blit (buf_length buf) inp (buf_data buf), buf_length := new_len\<rparr>))"

subsection \<open>The buffer as a byte string\<close>

definition buf_bytes :: "buf_mem_st \<Rightarrow> bytes" where
  "buf_bytes b = take (buf_length b) (buf_data b)"

definition wf_buf_mem :: "buf_mem_st \<Rightarrow> bool" where
  "wf_buf_mem b \<longleftrightarrow> buf_length b \<le> buf_max b \<and> buf_max b < size_lim"

text \<open>The room computed by \<open>BUF_MEM_reserve\<close>, four thirds of the request, is never short of it.\<close>

lemma four_thirds: "cap \<le> (cap + 3) div 3 * (4 :: nat)"
  by linarith

lemma div_mod_wrap:
  assumes "((n :: nat) * 4) mod m div 4 = n"
  shows "(n * 4) mod m = n * 4"
proof -
  have "n * 4 \<le> (n * 4) mod m" using assms by (metis div_times_less_eq_dividend)
  then show ?thesis by (simp add: order_antisym mod_less_eq_dividend)
qed

lemma BUF_MEM_reserve_ok:
  assumes wf: "wf_buf_mem b" and cap: "cap < size_lim"
    and r: "BUF_MEM_reserve al fresh b cap = (ok, b')"
  shows "wf_buf_mem b'" "buf_bytes b' = buf_bytes b" "buf_length b' = buf_length b"
    "ok \<Longrightarrow> cap \<le> buf_max b'" "\<not> ok \<Longrightarrow> b' = b"
proof -
  define m where "m = size_lim"
  define n where "n = (cap + 3) mod m div 3"
  define a where "a = (n * 4) mod m"
  have eq: "BUF_MEM_reserve al fresh b cap =
      (if buf_max b \<ge> cap then (True, b) else if (cap + 3) mod m < cap then (False, b)
       else if a div 4 \<noteq> n then (False, b) else if \<not> al a then (False, b)
       else (True, b\<lparr>buf_data := realloc_block fresh a (buf_data b)\<rparr>))"
    by (simp only: BUF_MEM_reserve_def Let_def n_def a_def m_def)
  consider "b' = b" "ok \<longrightarrow> cap \<le> buf_max b" | "ok" "b' = b\<lparr>buf_data := realloc_block fresh a (buf_data b)\<rparr>"
    "buf_max b < cap" "\<not> (cap + 3) mod m < cap" "a div 4 = n"
    using r unfolding eq by (auto split: if_splits)
  then have "wf_buf_mem b' \<and> buf_bytes b' = buf_bytes b \<and> buf_length b' = buf_length b \<and>
      (ok \<longrightarrow> cap \<le> buf_max b') \<and> (\<not> ok \<longrightarrow> b' = b)"
  proof cases
    case 1
    with wf show ?thesis by auto
  next
    case 2
    have "(cap + 3) mod m = cap + 3"
    proof (cases "cap + 3 < m")
      case False
      then have "(cap + 3) mod m = cap + 3 - m" using cap by (simp add: m_def mod_if)
      with 2(4) cap False have "m \<le> 3" unfolding m_def [symmetric] by linarith
      then show ?thesis by (simp add: m_def)
    qed simp
    then have a: "a = (cap + 3) div 3 * 4" "a < m"
      using 2(5) div_mod_wrap [of n m] by (simp_all add: a_def n_def m_def)
    with four_thirds [of cap] have "cap \<le> a" by simp
    then have "buf_max b' = a" "buf_max b \<le> a" using 2 by (auto simp: realloc_block_def)
    moreover have "take (buf_length b) (realloc_block fresh a (buf_data b)) = take (buf_length b) (buf_data b)"
      using wf \<open>buf_max b \<le> a\<close> by (simp add: wf_buf_mem_def realloc_block_def)
    ultimately show ?thesis
      using wf 2 \<open>cap \<le> a\<close> a(2) by (auto simp: wf_buf_mem_def buf_bytes_def m_def)
  qed
  then show "wf_buf_mem b'" "buf_bytes b' = buf_bytes b" "buf_length b' = buf_length b"
    "ok \<Longrightarrow> cap \<le> buf_max b'" "\<not> ok \<Longrightarrow> b' = b" by auto
qed

lemma take_blit_end:
  "k \<le> length b \<Longrightarrow> k + length xs \<le> length b \<Longrightarrow> take (k + length xs) (blit k xs b) = take k b @ xs"
  by (simp add: blit_def)

lemma BUF_MEM_grow_ok:
  assumes wf: "wf_buf_mem b" and len: "len < size_lim"
  shows "case BUF_MEM_grow al fresh b len of (r, b') \<Rightarrow>
    wf_buf_mem b' \<and>
    (if BUF_MEM_reserve al fresh b len = (False, b) then r = 0 \<and> b' = b
     else r = len \<and> buf_bytes b' = take len (buf_bytes b @ replicate len 0))"
proof -
  obtain ok b1 where r: "BUF_MEM_reserve al fresh b len = (ok, b1)" by fastforce
  note ok = BUF_MEM_reserve_ok [OF wf len r]
  show ?thesis
  proof (cases ok)
    case False
    with r ok(5) wf show ?thesis by (simp add: BUF_MEM_grow_def)
  next
    case True
    let ?xs = "replicate (len - buf_length b) (0 :: u8)"
    have l: "buf_length b1 \<le> buf_max b1" "len \<le> buf_max b1" "buf_max b1 < size_lim"
      using ok True by (auto simp: wf_buf_mem_def)
    show ?thesis
    proof (cases "buf_length b < len")
      case lt: True
      have "take len (blit (buf_length b) ?xs (buf_data b1)) = buf_bytes b @ ?xs"
        using take_blit_end [of "buf_length b" "buf_data b1" ?xs] l lt ok(2,3)
        by (simp add: buf_bytes_def)
      moreover have "take len (buf_bytes b @ replicate len 0) = buf_bytes b @ ?xs"
        using lt wf by (simp add: buf_bytes_def wf_buf_mem_def min_absorb1 min_absorb2)
      moreover have "buf_length b + (len - buf_length b) = len" using lt by simp
      ultimately show ?thesis
        using r True l lt ok(3) by (auto simp: BUF_MEM_grow_def wf_buf_mem_def buf_bytes_def Let_def)
    next
      case ge: False
      have "take len (buf_data b1) = take len (buf_bytes b)"
        using ge ok(2,3) by (metis buf_bytes_def min.absorb1 not_less take_take)
      moreover have "len \<le> length (buf_bytes b)" using ge wf by (simp add: buf_bytes_def wf_buf_mem_def)
      ultimately show ?thesis
        using r True l ge ok(3) by (auto simp: BUF_MEM_grow_def wf_buf_mem_def buf_bytes_def Let_def)
    qed
  qed
qed

lemma BUF_MEM_append_ok:
  assumes wf: "wf_buf_mem b" and len: "length xs < size_lim"
  shows "case BUF_MEM_append al fresh b xs of (ok, b') \<Rightarrow>
    wf_buf_mem b' \<and> (if ok then buf_bytes b' = buf_bytes b @ xs else b' = b)"
proof (cases "xs = []")
  case True
  with wf show ?thesis by (simp add: BUF_MEM_append_def)
next
  case False
  define m where "m = size_lim"
  let ?n = "(buf_length b + length xs) mod m"
  show ?thesis
  proof (cases "?n < length xs")
    case True
    then have "BUF_MEM_append al fresh b xs = (False, b)"
      using False by (simp add: BUF_MEM_append_def Let_def m_def)
    with wf show ?thesis by simp
  next
    case ge: False
    have "buf_length b < m" "length xs < m" using wf len by (auto simp: wf_buf_mem_def m_def)
    then have "?n = buf_length b + length xs - m" if "m \<le> buf_length b + length xs"
      using that by (simp add: le_mod_geq)
    then have n: "?n = buf_length b + length xs"
      using ge \<open>buf_length b < m\<close> by (cases "m \<le> buf_length b + length xs") auto
    obtain ok b1 where r: "BUF_MEM_reserve al fresh b (buf_length b + length xs) = (ok, b1)" by fastforce
    have lt: "buf_length b + length xs < size_lim" using n by (metis m_def mod_less_divisor zero_less_numeral zero_less_power)
    note ok = BUF_MEM_reserve_ok [OF wf lt r]
    have eq: "BUF_MEM_append al fresh b xs =
        (if ok then (True, b1\<lparr>buf_data := blit (buf_length b) xs (buf_data b1), buf_length := buf_length b + length xs\<rparr>)
         else (False, b1))"
      using False r ok(3) n [unfolded m_def] by (simp add: BUF_MEM_append_def Let_def)
    show ?thesis
    proof (cases ok)
      case True
      have l: "buf_length b + length xs \<le> buf_max b1" "buf_max b1 < size_lim"
        using ok True by (auto simp: wf_buf_mem_def)
      have "take (buf_length b + length xs) (blit (buf_length b) xs (buf_data b1)) = buf_bytes b @ xs"
        using take_blit_end [of "buf_length b" "buf_data b1" xs] l ok(2,3) by (simp add: buf_bytes_def)
      with True l show ?thesis by (simp add: eq wf_buf_mem_def buf_bytes_def)
    next
      case False
      with ok wf show ?thesis by (simp add: eq)
    qed
  qed
qed

text \<open>Runs of a buffer, with the bytes it should hold.\<close>

inductive buf_run :: "allocator \<Rightarrow> (nat \<Rightarrow> u8) \<Rightarrow> bytes \<Rightarrow> buf_mem_st \<Rightarrow> bool" for al fresh where
  new: "BUF_MEM_new al = Some b \<Longrightarrow> buf_run al fresh [] b"
| reserve: "buf_run al fresh xs b \<Longrightarrow> n < size_lim \<Longrightarrow> BUF_MEM_reserve al fresh b n = (ok, b') \<Longrightarrow>
    buf_run al fresh xs b'"
| append: "buf_run al fresh xs b \<Longrightarrow> length ys < size_lim \<Longrightarrow> BUF_MEM_append al fresh b ys = (ok, b') \<Longrightarrow>
    buf_run al fresh (if ok then xs @ ys else xs) b'"
| grow: "buf_run al fresh xs b \<Longrightarrow> 0 < n \<Longrightarrow> n < size_lim \<Longrightarrow> BUF_MEM_grow_clean al fresh b n = (r, b') \<Longrightarrow>
    buf_run al fresh (if r = n then take n (xs @ replicate n 0) else xs) b'"

subsection \<open>Properties\<close>

text \<open>
  A buffer holds the bytes appended to it, cut or extended with zeros as it was grown, and a
  call that fails, by overflow or for want of memory, leaves them as they were.
\<close>

theorem buf_mem_contents:
  assumes "buf_run al fresh xs b"
  shows "buf_bytes b = xs \<and> buf_length b \<le> buf_max b \<and> buf_max b < size_lim"
proof -
  have "buf_bytes b = xs \<and> wf_buf_mem b"
    using assms
  proof (induction rule: buf_run.induct)
    case (new b)
    then show ?case by (auto simp: BUF_MEM_new_def buf_bytes_def wf_buf_mem_def split: if_splits)
  next
    case (reserve xs b n ok b')
    then show ?case using BUF_MEM_reserve_ok(1,2) [of b n al fresh ok b'] by simp
  next
    case (append xs b ys ok b')
    then show ?case using BUF_MEM_append_ok [of b ys al fresh] by (auto split: if_splits)
  next
    case (grow xs b n r b')
    then show ?case
      using BUF_MEM_grow_ok [of b n al fresh] by (auto simp: BUF_MEM_grow_clean_def split: if_splits)
  qed
  then show ?thesis by (simp add: wf_buf_mem_def)
qed

theorem buf_mem_contents_witness:
  "buf_bytes (snd (BUF_MEM_append (\<lambda>n. True) (\<lambda>i. 0xAA)
    (snd (BUF_MEM_append (\<lambda>n. True) (\<lambda>i. 0xAA) \<lparr>buf_length = 0, buf_data = []\<rparr> [1, 2])) [3])) = [1, 2, 3]"
proof -
  let ?al = "\<lambda>n :: nat. True" and ?f = "\<lambda>i :: nat. 0xAA :: u8"
  let ?b0 = "\<lparr>buf_length = 0, buf_data = []\<rparr>"
  let ?b1 = "\<lparr>buf_length = 2, buf_data = [1, 2, 0xAA, 0xAA]\<rparr>"
  let ?b2 = "\<lparr>buf_length = 3, buf_data = [1, 2, 3, 0xAA]\<rparr>"
  have a1: "BUF_MEM_append ?al ?f ?b0 [1, 2] = (True, ?b1)"
    by (simp add: BUF_MEM_append_def BUF_MEM_reserve_def realloc_block_def blit_def upt_conv_Cons)
  have a2: "BUF_MEM_append ?al ?f ?b1 [3] = (True, ?b2)"
    by (simp add: BUF_MEM_append_def BUF_MEM_reserve_def blit_def)
  have "buf_run ?al ?f [] ?b0" by (rule buf_run.new) (simp add: BUF_MEM_new_def)
  from buf_run.append [OF this _ a1] have "buf_run ?al ?f [1, 2] ?b1" by simp
  from buf_run.append [OF this _ a2] have "buf_run ?al ?f [1, 2, 3] ?b2" by simp
  from buf_mem_contents [OF this] show ?thesis by (simp add: a1 a2)
qed

end
