(* ===== verification/Bio.thy ===== *)
theory Bio
  imports Prelude
begin

text \<open>
  \<open>crypto/bio/bio.c\<close>: the I/O objects and the calls that dispatch to their methods. A \<open>BIO\<close> is an
  index into a store; NULL is \<open>None\<close>. The \<open>ptr\<close> field has the type of the method's private state,
  the method table is an argument of every call, since all objects of one store have the same.
  \<open>INT_MAX\<close> is the largest \<open>int\<close>.
\<close>

abbreviation INT_MAX :: int where
  "INT_MAX \<equiv> 2 ^ 31 - 1"

text \<open>Conversion to \<open>int\<close>, from \<open>size_t\<close> and from \<open>long\<close>; subtraction of \<open>size_t\<close> values.\<close>

definition to_int :: "int \<Rightarrow> int" where
  "to_int n = sint (word_of_int n :: 32 word)"

definition size_sub :: "nat \<Rightarrow> nat \<Rightarrow> nat" where
  "size_sub a b = (a + size_lim - b) mod size_lim"

lemma to_int_id: "0 \<le> n \<Longrightarrow> n \<le> INT_MAX \<Longrightarrow> to_int n = n"
  by (simp add: to_int_def signed_of_int signed_take_bit_int_eq_self)

lemma size_sub_id: "b \<le> a \<Longrightarrow> a < size_lim \<Longrightarrow> size_sub a b = a - b"
proof -
  assume "b \<le> a" "a < size_lim"
  then have "a + size_lim - b = (a - b) + size_lim" "a - b < size_lim" by linarith+
  then show ?thesis unfolding size_sub_def by (simp only: mod_add_self2 mod_less)
qed

record 'p bio_st =
  bio_init :: bool
  bio_shutdown :: int
  bio_flags :: u32
  bio_retry_reason :: int
  bio_num :: int
  bio_ptr :: "'p option"
  bio_num_read :: u64
  bio_num_write :: u64

type_synonym 'p bio_store = "nat \<Rightarrow> 'p bio_st"

text \<open>The control commands that methods of this development know, with their pointer arguments.\<close>

datatype 'p bio_cmd =
    BIO_CTRL_RESET
  | BIO_CTRL_EOF "nat option"
  | BIO_CTRL_INFO
  | BIO_CTRL_GET_CLOSE
  | BIO_CTRL_SET_CLOSE
  | BIO_CTRL_PENDING
  | BIO_CTRL_FLUSH
  | BIO_CTRL_WPENDING
  | BIO_C_SET_BUF_MEM "'p option"
  | BIO_C_GET_BUF_MEM_PTR
  | BIO_C_SET_BUF_MEM_EOF_RETURN
  | BIO_C_GET_WRITE_BUF_SIZE
  | BIO_C_GET_WRITE_GUARANTEE
  | BIO_C_GET_READ_REQUEST
  | BIO_C_RESET_READ_REQUEST
  | BIO_C_SHUTDOWN_WR
  | BIO_CMD_OTHER int

text \<open>A read returns the C result and the bytes put into the caller's buffer.\<close>

record 'p bio_method_st =
  bwrite :: "('p bio_store \<Rightarrow> nat \<Rightarrow> bytes \<Rightarrow> int \<times> 'p bio_store) option"
  bread :: "('p bio_store \<Rightarrow> nat \<Rightarrow> int \<Rightarrow> int \<times> bytes \<times> 'p bio_store) option"
  bgets :: "('p bio_store \<Rightarrow> nat \<Rightarrow> int \<Rightarrow> int \<times> bytes \<times> 'p bio_store) option"
  bctrl :: "('p bio_store \<Rightarrow> nat \<Rightarrow> 'p bio_cmd \<Rightarrow> int \<Rightarrow> int \<times> 'p bio_store) option"
  bcreate :: "(allocator \<Rightarrow> 'p bio_store \<Rightarrow> nat \<Rightarrow> bool \<times> 'p bio_store) option"

definition BIO_new :: "allocator \<Rightarrow> 'p bio_method_st \<Rightarrow> 'p bio_store \<Rightarrow> nat \<Rightarrow> nat option \<times> 'p bio_store" where
  "BIO_new al m s i =
     (if \<not> al 64 then (None, s)
      else
        let s = s(i := \<lparr>bio_init = False, bio_shutdown = 1, bio_flags = 0, bio_retry_reason = 0,
                        bio_num = 0, bio_ptr = None, bio_num_read = 0, bio_num_write = 0\<rparr>)
        in case bcreate m of
             None \<Rightarrow> (Some i, s)
           | Some create \<Rightarrow> (case create al s i of (ok, s) \<Rightarrow> (if ok then Some i else None, s)))"

definition BIO_read ::
  "'p bio_method_st \<Rightarrow> 'p bio_store \<Rightarrow> nat option \<Rightarrow> int \<Rightarrow> int \<times> bytes \<times> 'p bio_store" where
  "BIO_read m s bio len =
     (case (bio, bread m) of
        (Some i, Some f) \<Rightarrow>
          if \<not> bio_init (s i) then (-2, [], s)
          else if len \<le> 0 then (0, [], s)
          else
            (case f s i len of (ret, out, s) \<Rightarrow>
               (ret, out,
                if ret > 0 then s(i := (s i)\<lparr>bio_num_read := bio_num_read (s i) + word_of_int ret\<rparr>) else s))
      | _ \<Rightarrow> (-2, [], s))"

definition BIO_gets ::
  "'p bio_method_st \<Rightarrow> 'p bio_store \<Rightarrow> nat option \<Rightarrow> int \<Rightarrow> int \<times> bytes \<times> 'p bio_store" where
  "BIO_gets m s bio len =
     (case (bio, bgets m) of
        (Some i, Some f) \<Rightarrow>
          if \<not> bio_init (s i) then (-2, [], s)
          else if len \<le> 0 then (0, [], s)
          else
            (case f s i len of (ret, out, s) \<Rightarrow>
               (ret, out,
                if ret > 0 then s(i := (s i)\<lparr>bio_num_read := bio_num_read (s i) + word_of_int ret\<rparr>) else s))
      | _ \<Rightarrow> (-2, [], s))"

definition BIO_write ::
  "'p bio_method_st \<Rightarrow> 'p bio_store \<Rightarrow> nat option \<Rightarrow> bytes \<Rightarrow> int \<times> 'p bio_store" where
  "BIO_write m s bio inp =
     (case (bio, bwrite m) of
        (Some i, Some f) \<Rightarrow>
          if \<not> bio_init (s i) then (-2, s)
          else if inp = [] then (0, s)
          else
            (case f s i inp of (ret, s) \<Rightarrow>
               (ret,
                if ret > 0 then s(i := (s i)\<lparr>bio_num_write := bio_num_write (s i) + word_of_int ret\<rparr>) else s))
      | _ \<Rightarrow> (-2, s))"

function BIO_write_all ::
  "'p bio_method_st \<Rightarrow> 'p bio_store \<Rightarrow> nat option \<Rightarrow> bytes \<Rightarrow> bool \<times> 'p bio_store" where
  "BIO_write_all m s bio inp =
     (if inp = [] then (True, s)
      else
        (case BIO_write m s bio (take (nat INT_MAX) inp) of (ret, s) \<Rightarrow>
           if ret \<le> 0 then (False, s) else BIO_write_all m s bio (drop (nat ret) inp)))"
  by pat_completeness auto
termination
  by (relation "measure (\<lambda>(m, s, bio, inp). length inp)") auto

declare BIO_write_all.simps [simp del]

definition BIO_ctrl ::
  "'p bio_method_st \<Rightarrow> 'p bio_store \<Rightarrow> nat option \<Rightarrow> 'p bio_cmd \<Rightarrow> int \<Rightarrow> int \<times> 'p bio_store" where
  "BIO_ctrl m s bio cmd larg =
     (case bio of
        None \<Rightarrow> (0, s)
      | Some i \<Rightarrow> (case bctrl m of None \<Rightarrow> (-2, s) | Some f \<Rightarrow> f s i cmd larg))"

definition BIO_flush :: "'p bio_method_st \<Rightarrow> 'p bio_store \<Rightarrow> nat option \<Rightarrow> int \<times> 'p bio_store" where
  "BIO_flush m s bio = BIO_ctrl m s bio BIO_CTRL_FLUSH 0"

definition BIO_reset :: "'p bio_method_st \<Rightarrow> 'p bio_store \<Rightarrow> nat option \<Rightarrow> int \<times> 'p bio_store" where
  "BIO_reset m s bio = BIO_ctrl m s bio BIO_CTRL_RESET 0"

definition BIO_eof :: "'p bio_method_st \<Rightarrow> 'p bio_store \<Rightarrow> nat option \<Rightarrow> int \<times> 'p bio_store" where
  "BIO_eof m s bio = BIO_ctrl m s bio (BIO_CTRL_EOF None) 0"

definition BIO_pending :: "'p bio_method_st \<Rightarrow> 'p bio_store \<Rightarrow> nat option \<Rightarrow> nat" where
  "BIO_pending m s bio = (let r = fst (BIO_ctrl m s bio BIO_CTRL_PENDING 0) in if r < 0 then 0 else nat r)"

definition BIO_wpending :: "'p bio_method_st \<Rightarrow> 'p bio_store \<Rightarrow> nat option \<Rightarrow> nat" where
  "BIO_wpending m s bio = (let r = fst (BIO_ctrl m s bio BIO_CTRL_WPENDING 0) in if r < 0 then 0 else nat r)"

definition BIO_set_close ::
  "'p bio_method_st \<Rightarrow> 'p bio_store \<Rightarrow> nat option \<Rightarrow> int \<Rightarrow> int \<times> 'p bio_store" where
  "BIO_set_close m s bio close_flag = BIO_ctrl m s bio BIO_CTRL_SET_CLOSE close_flag"

subsection \<open>Flags\<close>

definition BIO_FLAGS_READ :: u32 where "BIO_FLAGS_READ = 0x01"
definition BIO_FLAGS_WRITE :: u32 where "BIO_FLAGS_WRITE = 0x02"
definition BIO_FLAGS_IO_SPECIAL :: u32 where "BIO_FLAGS_IO_SPECIAL = 0x04"
definition BIO_FLAGS_RWS :: u32 where
  "BIO_FLAGS_RWS = BIO_FLAGS_READ OR BIO_FLAGS_WRITE OR BIO_FLAGS_IO_SPECIAL"
definition BIO_FLAGS_SHOULD_RETRY :: u32 where "BIO_FLAGS_SHOULD_RETRY = 0x08"
definition BIO_FLAGS_MEM_RDONLY :: u32 where "BIO_FLAGS_MEM_RDONLY = 0x200"
definition kRetryFlags :: u32 where "kRetryFlags = BIO_FLAGS_RWS OR BIO_FLAGS_SHOULD_RETRY"

lemmas bio_flag_defs = BIO_FLAGS_READ_def BIO_FLAGS_WRITE_def BIO_FLAGS_IO_SPECIAL_def BIO_FLAGS_RWS_def
  BIO_FLAGS_SHOULD_RETRY_def BIO_FLAGS_MEM_RDONLY_def kRetryFlags_def

definition BIO_set_flags :: "'p bio_st \<Rightarrow> u32 \<Rightarrow> 'p bio_st" where
  "BIO_set_flags b f = b\<lparr>bio_flags := bio_flags b OR f\<rparr>"

definition BIO_clear_flags :: "'p bio_st \<Rightarrow> u32 \<Rightarrow> 'p bio_st" where
  "BIO_clear_flags b f = b\<lparr>bio_flags := bio_flags b AND NOT f\<rparr>"

definition BIO_test_flags :: "'p bio_st \<Rightarrow> u32 \<Rightarrow> u32" where
  "BIO_test_flags b f = bio_flags b AND f"

definition BIO_should_read :: "'p bio_st \<Rightarrow> bool" where
  "BIO_should_read b \<longleftrightarrow> BIO_test_flags b BIO_FLAGS_READ \<noteq> 0"

definition BIO_should_write :: "'p bio_st \<Rightarrow> bool" where
  "BIO_should_write b \<longleftrightarrow> BIO_test_flags b BIO_FLAGS_WRITE \<noteq> 0"

definition BIO_should_retry :: "'p bio_st \<Rightarrow> bool" where
  "BIO_should_retry b \<longleftrightarrow> BIO_test_flags b BIO_FLAGS_SHOULD_RETRY \<noteq> 0"

definition BIO_set_retry_read :: "'p bio_st \<Rightarrow> 'p bio_st" where
  "BIO_set_retry_read b = b\<lparr>bio_flags := bio_flags b OR (BIO_FLAGS_READ OR BIO_FLAGS_SHOULD_RETRY)\<rparr>"

definition BIO_set_retry_write :: "'p bio_st \<Rightarrow> 'p bio_st" where
  "BIO_set_retry_write b = b\<lparr>bio_flags := bio_flags b OR (BIO_FLAGS_WRITE OR BIO_FLAGS_SHOULD_RETRY)\<rparr>"

definition BIO_get_retry_flags :: "'p bio_st \<Rightarrow> u32" where
  "BIO_get_retry_flags b = bio_flags b AND kRetryFlags"

definition BIO_clear_retry_flags :: "'p bio_st \<Rightarrow> 'p bio_st" where
  "BIO_clear_retry_flags b = b\<lparr>bio_flags := bio_flags b AND NOT kRetryFlags, bio_retry_reason := 0\<rparr>"

lemma retry_flags_simps [simp]:
  "\<not> BIO_should_retry (BIO_clear_retry_flags b)" "\<not> BIO_should_read (BIO_clear_retry_flags b)"
  "\<not> BIO_should_write (BIO_clear_retry_flags b)"
  "BIO_should_retry (BIO_set_retry_read b)" "BIO_should_read (BIO_set_retry_read b)"
  "BIO_should_retry (BIO_set_retry_write b)" "BIO_should_write (BIO_set_retry_write b)"
  by (simp_all add: BIO_should_retry_def BIO_should_read_def BIO_should_write_def BIO_test_flags_def
      BIO_clear_retry_flags_def BIO_set_retry_read_def BIO_set_retry_write_def bio_flag_defs
      and.assoc bit.conj_disj_distrib2 word_or_eq_0)

lemma retry_same [simp]:
  "bio_ptr (BIO_clear_retry_flags b) = bio_ptr b" "bio_ptr (BIO_set_retry_read b) = bio_ptr b"
  "bio_ptr (BIO_set_retry_write b) = bio_ptr b" "bio_init (BIO_clear_retry_flags b) = bio_init b"
  "bio_init (BIO_set_retry_read b) = bio_init b" "bio_init (BIO_set_retry_write b) = bio_init b"
  "bio_num (BIO_clear_retry_flags b) = bio_num b"
  "bio_num (BIO_set_retry_read b) = bio_num b" "bio_num (BIO_set_retry_write b) = bio_num b"
  by (simp_all add: BIO_clear_retry_flags_def BIO_set_retry_read_def BIO_set_retry_write_def)

end
