(* ===== verification/Bio_Source.thy ===== *)
theory Bio_Source
  imports Bio Der_Element
begin

text \<open>
  Reading whole objects from a BIO: \<open>bio_read_full\<close>, \<open>bio_read_all\<close> and \<open>BIO_read_asn1\<close> of
  \<open>crypto/bio/bio.c\<close>. What these functions rely on is the locale \<open>bio_source\<close>: a BIO hands out a
  byte string in pieces of its choice. Under it they read exactly the bytes they return, and
  every DER element with a short tag is read back whole.
\<close>

subsection \<open>The functions\<close>

text \<open>The result, \<open>*out_eof_on_first_read\<close> on failure, the bytes read so far, the store.\<close>

function bio_read_full ::
  "'p bio_method_st \<Rightarrow> 'p bio_store \<Rightarrow> nat option \<Rightarrow> bool \<Rightarrow> nat \<Rightarrow> bytes \<Rightarrow> bool \<times> bool \<times> bytes \<times> 'p bio_store" where
  "bio_read_full m s bio first_read len acc =
     (if len > 0 then
        let todo = (if int len \<le> INT_MAX then int len else INT_MAX)
        in case BIO_read m s bio todo of
             (ret, out, s) \<Rightarrow>
               if ret \<le> 0 then (False, first_read \<and> ret = 0, acc, s)
               else bio_read_full m s bio False (len - nat ret) (acc @ out)
      else (True, False, acc, s))"
  by pat_completeness auto
termination
  by (relation "measure (\<lambda>(m, s, bio, fr, len, acc). len)") auto

declare bio_read_full.simps [simp del]

definition kChunkSize :: nat where "kChunkSize = 4096"

text \<open>
  The loop of \<open>bio_read_all\<close>: \<open>len\<close> is the size of the output block, \<open>out\<close> its bytes as far as
  written. The fuel bounds the passes; \<open>None\<close> in front says that it ran out.
\<close>

primrec read_all_loop ::
  "nat \<Rightarrow> allocator \<Rightarrow> 'p bio_method_st \<Rightarrow> 'p bio_store \<Rightarrow> nat option \<Rightarrow> nat \<Rightarrow> nat \<Rightarrow> nat \<Rightarrow> bytes \<Rightarrow>
    (bytes option \<times> 'p bio_store) option" where
  "read_all_loop 0 al m s bio max_len len pos out = None"
| "read_all_loop (Suc fuel) al m s bio max_len len pos out =
     (if pos = len then Some (None, s)
      else
        case BIO_read m s bio (to_int (int (size_sub len pos))) of
          (n, chunk, s) \<Rightarrow>
            if n = 0 then Some (Some (take pos out), s)
            else if n = -1 then Some (None, s)
            else
              let out = take pos out @ chunk; pos = nat ((int pos + n) mod int size_lim)
              in if len < max_len \<and> size_sub len pos < kChunkSize div 2 then
                   let len = (len + kChunkSize) mod size_lim;
                       len = (if len < kChunkSize \<or> len > max_len then max_len else len)
                   in if \<not> al len then Some (None, s)
                      else read_all_loop fuel al m s bio max_len len pos out
                 else read_all_loop fuel al m s bio max_len len pos out)"

definition bio_read_all ::
  "allocator \<Rightarrow> 'p bio_method_st \<Rightarrow> 'p bio_store \<Rightarrow> nat option \<Rightarrow> bytes \<Rightarrow> nat \<Rightarrow>
    (bytes option \<times> 'p bio_store) option" where
  "bio_read_all al m s bio prefix max_len =
     (let prefix_len = length prefix;
          len = (prefix_len + kChunkSize) mod size_lim;
          len = (if len > max_len then max_len else len)
      in if len < prefix_len then Some (None, s)
         else if \<not> al len then Some (None, s)
         else read_all_loop (Suc max_len) al m s bio max_len len prefix_len prefix)"

text \<open>The end of \<open>BIO_read_asn1\<close>, once the header and the length of the contents are known.\<close>

definition read_contents ::
  "allocator \<Rightarrow> 'p bio_method_st \<Rightarrow> 'p bio_store \<Rightarrow> nat option \<Rightarrow> nat \<Rightarrow> bytes \<Rightarrow> nat \<Rightarrow> bytes option \<times> 'p bio_store" where
  "read_contents al m s bio max_len header len =
     (let header_len = length header
      in if (len + header_len) mod size_lim < len \<or> (len + header_len) mod size_lim > max_len \<or> int len > INT_MAX
         then (None, s)
         else
           let len = len + header_len
           in if \<not> al len then (None, s)
              else
                case bio_read_full m s bio True (len - header_len) [] of
                  (ok, eof, body, s) \<Rightarrow> (if ok then Some (header @ body) else None, s))"

definition len32 :: "bytes \<Rightarrow> u32" where
  "len32 bs = foldl (\<lambda>l b. push_bit 8 l OR ucast b) 0 bs"

definition BIO_read_asn1 ::
  "allocator \<Rightarrow> 'p bio_method_st \<Rightarrow> 'p bio_store \<Rightarrow> nat option \<Rightarrow> nat \<Rightarrow> (bytes option \<times> 'p bio_store) option" where
  "BIO_read_asn1 al m s bio max_len =
     (case bio_read_full m s bio True 2 [] of
        (ok, eof_on_first_read, header, s) \<Rightarrow>
          if \<not> ok then Some (None, s)
          else
            let tag = header ! 0; length_byte = header ! 1
            in if tag AND 0x1f = 0x1f then Some (None, s)
               else if length_byte AND 0x80 = 0 then
                 Some (read_contents al m s bio max_len header (unat length_byte))
               else
                 let num_bytes = unat (length_byte AND 0x7f)
                 in if tag AND 0x20 \<noteq> 0 \<and> num_bytes = 0 then bio_read_all al m s bio header max_len
                    else if num_bytes = 0 \<or> num_bytes > 4 then Some (None, s)
                    else
                      case bio_read_full m s bio True num_bytes [] of
                        (ok, eof, octets, s) \<Rightarrow>
                          if \<not> ok then Some (None, s)
                          else
                            let l = len32 octets
                            in if l < 128 then Some (None, s)
                               else if drop_bit ((num_bytes - 1) * 8) l = 0 then Some (None, s)
                               else Some (read_contents al m s bio max_len (header @ octets) (unat l)))"

subsection \<open>Header octets\<close>

lemma len32_snoc: "len32 (bs @ [b]) = push_bit 8 (len32 bs) OR ucast b"
  by (simp add: len32_def)

lemma len32_be_val: "length bs \<le> 4 \<Longrightarrow> unat (len32 bs) = be_val bs"
proof (induction bs rule: rev_induct)
  case (snoc b bs)
  then have IH: "unat (len32 bs) = be_val bs" by simp
  have "be_val bs < 256 ^ length bs" by (rule be_val_bound)
  also have "(256 :: nat) ^ length bs \<le> 256 ^ 3" using snoc.prems by (intro power_increasing) auto
  finally have "unat (len32 bs) < 2 ^ (LENGTH(32) - 8)" using IH by simp
  then have "unat (push_bit 8 (len32 bs) OR ucast b) = unat (len32 bs) * 2 ^ 8 + unat (ucast b :: u32)"
    by (rule unat_push_bit_or) (simp_all add: unat_ucast_up unat_u8_bound)
  then show ?case by (simp add: len32_snoc IH unat_ucast_up)
qed (simp add: len32_def)

text \<open>Tags written in one octet.\<close>

abbreviation low_tag :: "u32 \<Rightarrow> bool" where
  "low_tag tag \<equiv> tag AND 0x1fffffff < 0x1f"

lemma low_tag_bytes:
  assumes "low_tag tag"
  obtains t where "der_tag_bytes tag = [t]" "t AND 0x1f \<noteq> 0x1f"
proof -
  let ?top = "ucast (drop_bit 24 tag) AND 0xe0 :: u8" and ?n = "tag AND 0x1fffffff"
  have n: "\<not> ?n \<ge> 0x1f" using assms by simp
  have "(?top OR ucast ?n) AND 0x1f = (ucast ?n :: u8) AND 0x1f"
    unfolding mask_constants by (rule bit_word_eqI) (auto simp: bit_simps)
  moreover have "unat (ucast ?n :: u8) = unat ?n"
    using assms by (simp add: unat_ucast_down word_less_nat_alt)
  then have "unat (ucast ?n AND 0x1f :: u8) < 0x1f"
    using assms unfolding mask_constants(3) by (simp add: unat_and_mask word_less_nat_alt)
  ultimately have "(?top OR ucast ?n) AND 0x1f \<noteq> 0x1f" by auto
  with n show thesis by (intro that [of "?top OR ucast ?n"]) (simp_all add: der_tag_bytes_def Let_def)
qed

subsection \<open>The contract of a source\<close>

locale bio_source =
  fixes m :: "'p bio_method_st"
    and bio :: "nat option"
    and ok :: "'p bio_store \<Rightarrow> bool"
    and pending :: "'p bio_store \<Rightarrow> bytes"
  assumes gives: "ok s \<Longrightarrow> 0 < n \<Longrightarrow> n \<le> INT_MAX \<Longrightarrow> pending s \<noteq> [] \<Longrightarrow>
      \<exists>k s'. 0 < k \<and> k \<le> nat n \<and> k \<le> length (pending s) \<and> BIO_read m s bio n = (int k, take k (pending s), s') \<and>
        pending s' = drop k (pending s) \<and> ok s'"
    and ends: "ok s \<Longrightarrow> 0 < n \<Longrightarrow> n \<le> INT_MAX \<Longrightarrow> pending s = [] \<Longrightarrow>
      \<exists>r s'. r \<in> {0, -1} \<and> BIO_read m s bio n = (r, [], s') \<and> pending s' = [] \<and> ok s'"
begin

lemma read_full:
  assumes "ok s"
  obtains eof s' where "ok s'"
    "n \<le> length (pending s) \<Longrightarrow> bio_read_full m s bio fr n acc = (True, eof, acc @ take n (pending s), s') \<and>
       pending s' = drop n (pending s)"
    "\<not> n \<le> length (pending s) \<Longrightarrow> bio_read_full m s bio fr n acc = (False, eof, acc @ pending s, s') \<and> pending s' = []"
  using assms
proof (induction n arbitrary: s fr acc thesis rule: less_induct)
  case (less n)
  show ?case
  proof (cases "n = 0")
    case True
    then show ?thesis using less.prems(2) by (intro less.prems(1) [of s False]) (simp_all add: bio_read_full.simps)
  next
    case False
    let ?todo = "if int n \<le> INT_MAX then int n else INT_MAX"
    have todo: "0 < ?todo" "?todo \<le> INT_MAX" using False by auto
    show ?thesis
    proof (cases "pending s = []")
      case True
      obtain r s' where "r \<in> {0, -1}" "BIO_read m s bio ?todo = (r, [], s')" "pending s' = []" "ok s'"
        using ends [OF less.prems(2) todo True] by blast
      then show ?thesis using True False
        by (intro less.prems(1) [of s' "fr \<and> r = 0"]) (auto simp: bio_read_full.simps [of m s])
    next
      case ne: False
      obtain k s1 where k: "0 < k" "k \<le> nat ?todo" "k \<le> length (pending s)"
        "BIO_read m s bio ?todo = (int k, take k (pending s), s1)" "pending s1 = drop k (pending s)" "ok s1"
        using gives [OF less.prems(2) todo ne] by blast
      have kn: "k \<le> n" "n - k < n" using k(1,2) by (auto split: if_splits)
      have step: "bio_read_full m s bio fr n acc = bio_read_full m s1 bio False (n - k) (acc @ take k (pending s))"
        using False k(1,4) by (subst bio_read_full.simps) simp
      show ?thesis
      proof (rule less.IH [OF kn(2) _ k(6)])
        fix eof s'
        assume ok': "ok s'"
          and 1: "n - k \<le> length (pending s1) \<Longrightarrow>
            bio_read_full m s1 bio False (n - k) (acc @ take k (pending s)) =
              (True, eof, (acc @ take k (pending s)) @ take (n - k) (pending s1), s') \<and>
            pending s' = drop (n - k) (pending s1)"
          and 2: "\<not> n - k \<le> length (pending s1) \<Longrightarrow>
            bio_read_full m s1 bio False (n - k) (acc @ take k (pending s)) =
              (False, eof, (acc @ take k (pending s)) @ pending s1, s') \<and> pending s' = []"
        have t: "take k (pending s) @ take (n - k) (pending s1) = take n (pending s)"
          using kn(1) k(5) by (metis le_add_diff_inverse take_add)
        show ?thesis
        proof (rule less.prems(1) [OF ok'])
          assume "n \<le> length (pending s)"
          then show "bio_read_full m s bio fr n acc = (True, eof, acc @ take n (pending s), s') \<and>
              pending s' = drop n (pending s)"
            using 1 t kn(1) k(3,5) by (simp add: step)
        next
          assume "\<not> n \<le> length (pending s)"
          then show "bio_read_full m s bio fr n acc = (False, eof, acc @ pending s, s') \<and> pending s' = []"
            using 2 kn(1) k(3,5) by (simp add: step)
        qed
      qed
    qed
  qed
qed

text \<open>
  The passes of \<open>read_all_loop\<close> each add a byte, so that the fuel of \<open>bio_read_all\<close> is enough.
\<close>

lemma grown_len:
  assumes "len < max_len" "max_len < size_lim" "pos \<le> len" "len - pos < kChunkSize div 2"
  defines "l \<equiv> (len + kChunkSize) mod size_lim"
  defines "len' \<equiv> (if l < kChunkSize \<or> l > max_len then max_len else l)"
  shows "pos \<le> len'" "len' \<le> max_len" "len' - pos \<le> 6144"
proof -
  have c: "kChunkSize = 4096" by (simp add: kChunkSize_def)
  consider "len + kChunkSize < size_lim" "l = len + kChunkSize" | "size_lim \<le> len + kChunkSize" "l < kChunkSize"
  proof (cases "len + kChunkSize < size_lim")
    case True
    then show thesis using that(1) by (simp add: l_def)
  next
    case False
    then have "l = len + kChunkSize - size_lim" using assms(1,2) c by (simp add: l_def le_mod_geq)
    then show thesis using that(2) False assms(1,2) by linarith
  qed
  then have "pos \<le> len' \<and> len' \<le> max_len \<and> len' - pos \<le> 6144"
    using assms(1-4) c unfolding len'_def by cases auto
  then show "pos \<le> len'" "len' \<le> max_len" "len' - pos \<le> 6144" by auto
qed

lemma read_all_loop_ok:
  assumes "ok s" "length out = pos" "pos \<le> len" "len \<le> max_len" "max_len < size_lim" "len - pos \<le> 6144"
    and "max_len - pos < fuel"
  shows "\<exists>r s'. read_all_loop fuel al m s bio max_len len pos out = Some (r, s') \<and> ok s' \<and>
    (r \<noteq> None \<longrightarrow> r = Some (out @ pending s) \<and> pending s' = [] \<and> length (out @ pending s) < max_len)"
  using assms
proof (induction fuel arbitrary: s out pos len)
  case (Suc fuel)
  show ?case
  proof (cases "pos = len")
    case True
    with Suc.prems(1) show ?thesis by simp
  next
    case ne: False
    have n: "0 < int (len - pos)" "int (len - pos) \<le> INT_MAX" using ne Suc.prems by auto
    have todo: "to_int (int (size_sub len pos)) = int (len - pos)"
      using n Suc.prems(3-5) by (simp add: size_sub_id to_int_id)
    show ?thesis
    proof (cases "pending s = []")
      case True
      obtain r s' where "r \<in> {0, -1}" "BIO_read m s bio (int (len - pos)) = (r, [], s')" "pending s' = []" "ok s'"
        using ends [OF Suc.prems(1) n True] by blast
      then show ?thesis using ne True Suc.prems by (auto simp: todo)
    next
      case False
      obtain k s1 where k: "0 < k" "k \<le> nat (int (len - pos))" "k \<le> length (pending s)"
        "BIO_read m s bio (int (len - pos)) = (int k, take k (pending s), s1)"
        "pending s1 = drop k (pending s)" "ok s1"
        using gives [OF Suc.prems(1) n False] by blast
      let ?out = "out @ take k (pending s)" and ?pos = "pos + k"
      have posk: "?pos \<le> len" using k(2) ne Suc.prems(3) by simp
      have p: "nat ((int pos + int k) mod int size_lim) = ?pos"
        using posk Suc.prems(4,5) by (simp flip: of_nat_add)
      define l where "l = (len + kChunkSize) mod size_lim"
      define len' where "len' = (if len < max_len \<and> len - ?pos < kChunkSize div 2
        then (if l < kChunkSize \<or> l > max_len then max_len else l) else len)"
      have len': "?pos \<le> len'" "len' \<le> max_len" "len' - ?pos \<le> 6144"
        using grown_len [OF _ Suc.prems(5) posk] posk Suc.prems(4,6) unfolding len'_def l_def by auto
      have out: "length ?out = ?pos" using k(3) Suc.prems(2) by simp
      have fuel: "max_len - ?pos < fuel" using k(1) posk Suc.prems(4,7) by linarith
      let ?A = "len < max_len \<and> len - ?pos < kChunkSize div 2"
      have diff: "size_sub len ?pos = len - ?pos" using posk Suc.prems(4,5) by (simp add: size_sub_id)
      have nz: "int k \<noteq> 0" "int k \<noteq> -1" and t: "take pos out = out" using k(1) Suc.prems(2) by auto
      have base: "read_all_loop (Suc fuel) al m s bio max_len len pos out =
          (if ?A then
             if \<not> al (if l < kChunkSize \<or> l > max_len then max_len else l) then Some (None, s1)
             else read_all_loop fuel al m s1 bio max_len (if l < kChunkSize \<or> l > max_len then max_len else l) ?pos ?out
           else read_all_loop fuel al m s1 bio max_len len ?pos ?out)"
        by (simp only: todo read_all_loop.simps if_not_P [OF ne] k(4) prod.case if_not_P [OF nz(1)]
            if_not_P [OF nz(2)] t p Let_def l_def todo diff)
      have step: "read_all_loop (Suc fuel) al m s bio max_len len pos out =
          (if ?A \<and> \<not> al len' then Some (None, s1) else read_all_loop fuel al m s1 bio max_len len' ?pos ?out)"
        unfolding base len'_def by (cases ?A) (simp_all only: simp_thms if_True if_False)
      show ?thesis
      proof (cases "?A \<and> \<not> al len'")
        case True
        with step k(6) show ?thesis by simp
      next
        case False
        have "?out @ pending s1 = out @ pending s" using k(5) by simp
        with Suc.IH [OF k(6) out len'(1,2) Suc.prems(5) len'(3) fuel] step False show ?thesis
          by (simp only: if_False)
      qed
    qed
  qed
qed simp

lemma read_all_ok:
  assumes "ok s" "max_len < size_lim" "length prefix < size_lim - kChunkSize"
  shows "\<exists>r s'. bio_read_all al m s bio prefix max_len = Some (r, s') \<and> ok s' \<and>
    (r \<noteq> None \<longrightarrow> r = Some (prefix @ pending s) \<and> pending s' = [] \<and> length (prefix @ pending s) < max_len)"
proof -
  have c: "kChunkSize = 4096" by (simp add: kChunkSize_def)
  let ?p = "length prefix"
  let ?l = "if ?p + kChunkSize > max_len then max_len else ?p + kChunkSize"
  have m: "(?p + kChunkSize) mod size_lim = ?p + kChunkSize" using assms(3) c by simp
  have eq: "bio_read_all al m s bio prefix max_len =
      (if ?l < ?p \<or> \<not> al ?l then Some (None, s) else read_all_loop (Suc max_len) al m s bio max_len ?l ?p prefix)"
    unfolding bio_read_all_def Let_def m by (auto simp del: read_all_loop.simps)
  show ?thesis
  proof (cases "?l < ?p \<or> \<not> al ?l")
    case True
    with eq assms(1) show ?thesis by simp
  next
    case False
    then have "?p \<le> ?l" by simp
    have "?l \<le> max_len" "?l - ?p \<le> 6144" "max_len - ?p < Suc max_len" using c by auto
    from read_all_loop_ok [OF assms(1) refl \<open>?p \<le> ?l\<close> this(1) assms(2) this(2,3)] eq False
    show ?thesis by simp
  qed
qed

lemma read_contents_ok:
  assumes "ok s" "length header \<le> 6" "max_len < size_lim"
  shows "\<exists>r s'. read_contents al m s bio max_len header n = (r, s') \<and> ok s' \<and>
    (\<forall>out. r = Some out \<longrightarrow> n \<le> length (pending s) \<and> out = header @ take n (pending s) \<and>
       pending s' = drop n (pending s) \<and> length out \<le> max_len) \<and>
    (n \<le> length (pending s) \<longrightarrow> int n \<le> INT_MAX \<longrightarrow> n + length header \<le> max_len \<longrightarrow> al (n + length header) \<longrightarrow> r \<noteq> None)"
proof (cases "int n \<le> INT_MAX \<and> n + length header \<le> max_len \<and> al (n + length header)")
  case True
  have nl: "(n + length header) mod size_lim = n + length header" using True assms(3) by simp
  obtain eof s' where ok: "ok s'"
    "n \<le> length (pending s) \<Longrightarrow> bio_read_full m s bio True n [] = (True, eof, [] @ take n (pending s), s') \<and>
       pending s' = drop n (pending s)"
    "\<not> n \<le> length (pending s) \<Longrightarrow> bio_read_full m s bio True n [] = (False, eof, [] @ pending s, s') \<and> pending s' = []"
    by (rule read_full [OF assms(1), where n = n and fr = True and acc = "[]"]) (rule that, assumption+)
  show ?thesis
    using True nl ok by (cases "n \<le> length (pending s)") (auto simp: read_contents_def Let_def)
next
  case False
  have "(n + length header) mod size_lim = n + length header" if "int n \<le> INT_MAX"
    using that assms(2) by simp
  then have "read_contents al m s bio max_len header n = (None, s)"
    using False by (auto simp: read_contents_def Let_def)
  with False assms(1) show ?thesis by auto
qed

theorem read_asn1_sound:
  assumes s: "ok s" and max: "max_len < size_lim"
  shows "\<exists>r s'. BIO_read_asn1 al m s bio max_len = Some (r, s') \<and> ok s' \<and>
    (\<forall>out. r = Some out \<longrightarrow> pending s = out @ pending s' \<and> length out \<le> max_len)"
proof -
  obtain eof s1 where r: "ok s1"
    "2 \<le> length (pending s) \<Longrightarrow> bio_read_full m s bio True 2 [] = (True, eof, [] @ take 2 (pending s), s1) \<and>
       pending s1 = drop 2 (pending s)"
    "\<not> 2 \<le> length (pending s) \<Longrightarrow> bio_read_full m s bio True 2 [] = (False, eof, [] @ pending s, s1) \<and> pending s1 = []"
    by (rule read_full [OF s, where n = 2 and fr = True and acc = "[]"]) (rule that, assumption+)
  show ?thesis
  proof (cases "2 \<le> length (pending s)")
    case False
    with r show ?thesis by (auto simp: BIO_read_asn1_def)
  next
    case True
    define h where "h = take 2 (pending s)"
    have h: "bio_read_full m s bio True 2 [] = (True, eof, h, s1)" "length h = 2"
      and p: "pending s = h @ pending s1"
      using r(2) [OF True] True by (simp_all add: h_def)
    let ?tag = "h ! 0" and ?lb = "h ! 1"
    let ?n = "unat (?lb AND 0x7f)"
    consider "?tag AND 0x1f = 0x1f \<or> ?tag AND 0x1f \<noteq> 0x1f \<and> ?lb AND 0x80 \<noteq> 0 \<and> \<not> (?tag AND 0x20 \<noteq> 0 \<and> ?n = 0) \<and> (?n = 0 \<or> ?n > 4)"
      | "?tag AND 0x1f \<noteq> 0x1f" "?lb AND 0x80 = 0"
      | "?tag AND 0x1f \<noteq> 0x1f" "?lb AND 0x80 \<noteq> 0" "?tag AND 0x20 \<noteq> 0" "?n = 0"
      | "?tag AND 0x1f \<noteq> 0x1f" "?lb AND 0x80 \<noteq> 0" "?n \<noteq> 0" "\<not> ?n > 4" by blast
    then show ?thesis
    proof cases
      case 1
      then have "BIO_read_asn1 al m s bio max_len = Some (None, s1)"
        by (auto simp: BIO_read_asn1_def h(1) Let_def)
      with r(1) show ?thesis by simp
    next
      case 2
      then have "BIO_read_asn1 al m s bio max_len = Some (read_contents al m s1 bio max_len h (unat ?lb))"
        by (simp add: BIO_read_asn1_def h(1) Let_def)
      moreover obtain r s' where "read_contents al m s1 bio max_len h (unat ?lb) = (r, s')" "ok s'"
        "\<forall>out. r = Some out \<longrightarrow> unat ?lb \<le> length (pending s1) \<and> out = h @ take (unat ?lb) (pending s1) \<and>
           pending s' = drop (unat ?lb) (pending s1) \<and> length out \<le> max_len"
        using read_contents_ok [OF r(1) _ max, of h al "unat ?lb"] h(2) by auto
      ultimately show ?thesis using p by auto
    next
      case 3
      then have "BIO_read_asn1 al m s bio max_len = bio_read_all al m s1 bio h max_len"
        by (simp add: BIO_read_asn1_def h(1) Let_def)
      moreover obtain r s' where "bio_read_all al m s1 bio h max_len = Some (r, s')" "ok s'"
        "r \<noteq> None \<longrightarrow> r = Some (h @ pending s1) \<and> pending s' = [] \<and> length (h @ pending s1) < max_len"
        using read_all_ok [OF r(1) max, of h al] h(2) by (auto simp: kChunkSize_def)
      ultimately show ?thesis using p by auto
    next
      case 4
      obtain eof s2 where q: "ok s2"
        "?n \<le> length (pending s1) \<Longrightarrow> bio_read_full m s1 bio True ?n [] = (True, eof, [] @ take ?n (pending s1), s2) \<and>
           pending s2 = drop ?n (pending s1)"
        "\<not> ?n \<le> length (pending s1) \<Longrightarrow> bio_read_full m s1 bio True ?n [] = (False, eof, [] @ pending s1, s2) \<and> pending s2 = []"
        by (rule read_full [OF r(1), where n = ?n and fr = True and acc = "[]"]) (rule that, assumption+)
      show ?thesis
      proof (cases "?n \<le> length (pending s1)")
        case False
        then have "BIO_read_asn1 al m s bio max_len = Some (None, s2)"
          using 4 q(3) [OF False] by (simp add: BIO_read_asn1_def h(1) Let_def)
        with q(1) show ?thesis by simp
      next
        case True
        define ob where "ob = take ?n (pending s1)"
        have ob: "bio_read_full m s1 bio True ?n [] = (True, eof, ob, s2)" "length ob = ?n"
          and p2: "pending s1 = ob @ pending s2"
          using q(2) [OF True] True by (simp_all add: ob_def)
        let ?l = "unat (len32 ob)"
        obtain r s' where c: "read_contents al m s2 bio max_len (h @ ob) ?l = (r, s')" "ok s'"
          "\<forall>out. r = Some out \<longrightarrow> ?l \<le> length (pending s2) \<and> out = (h @ ob) @ take ?l (pending s2) \<and>
             pending s' = drop ?l (pending s2) \<and> length out \<le> max_len"
          using read_contents_ok [OF q(1) _ max, of "h @ ob" al ?l] h(2) ob(2) 4(4) by auto
        have "BIO_read_asn1 al m s bio max_len = Some (None, s2) \<or> BIO_read_asn1 al m s bio max_len = Some (r, s')"
          using 4 by (auto simp: BIO_read_asn1_def h(1) Let_def ob(1) [unfolded One_nat_def] c(1) [unfolded One_nat_def])
        then show ?thesis using q(1) c(2,3) p p2 by auto
      qed
    qed
  qed
qed

text \<open>An object in the indefinite form has to leave a byte of \<open>max_len\<close> unused.\<close>

theorem read_asn1_indefinite:
  assumes s: "ok s" and max: "max_len < size_lim" and p: "pending s = tag # 0x80 # rest"
    and tag: "tag AND 0x1f \<noteq> 0x1f" "tag AND 0x20 \<noteq> 0"
  shows "\<exists>r s'. BIO_read_asn1 al m s bio max_len = Some (r, s') \<and>
    (r \<noteq> None \<longrightarrow> r = Some (pending s) \<and> length (pending s) < max_len)"
proof -
  obtain eof s1 where r: "ok s1"
    "2 \<le> length (pending s) \<Longrightarrow> bio_read_full m s bio True 2 [] = (True, eof, [] @ take 2 (pending s), s1) \<and>
       pending s1 = drop 2 (pending s)"
    "\<not> 2 \<le> length (pending s) \<Longrightarrow> bio_read_full m s bio True 2 [] = (False, eof, [] @ pending s, s1) \<and> pending s1 = []"
    by (rule read_full [OF s, where n = 2 and fr = True and acc = "[]"]) (rule that, assumption+)
  have h: "bio_read_full m s bio True 2 [] = (True, eof, [tag, 0x80], s1)" and p1: "pending s1 = rest"
    using r(2) by (simp_all add: p)
  have "BIO_read_asn1 al m s bio max_len = bio_read_all al m s1 bio [tag, 0x80] max_len"
    using tag by (simp add: BIO_read_asn1_def h Let_def)
  with read_all_ok [OF r(1) max, of "[tag, 0x80]" al] show ?thesis
    by (auto simp: kChunkSize_def p p1)
qed

theorem read_asn1_complete:
  assumes s: "ok s" and max: "max_len < size_lim"
    and p: "pending s = der_element tag body @ rest" and tag: "low_tag tag"
    and len: "int (length body) \<le> INT_MAX" "length (der_element tag body) \<le> max_len" "al (length (der_element tag body))"
  shows "\<exists>s'. BIO_read_asn1 al m s bio max_len = Some (Some (der_element tag body), s') \<and> ok s' \<and> pending s' = rest"
proof -
  obtain t where t: "der_tag_bytes tag = [t]" "t AND 0x1f \<noteq> 0x1f" by (rule low_tag_bytes [OF tag])
  let ?len = "der_len_bytes (length body)"
  obtain lb ob where lb: "?len = lb # ob" by (cases ?len) (auto simp: der_len_bytes_def split: if_splits)
  have el: "der_element tag body = [t, lb] @ ob @ body"
    by (simp add: der_element_def der_header_def t lb)
  obtain eof s1 where r: "ok s1"
    "2 \<le> length (pending s) \<Longrightarrow> bio_read_full m s bio True 2 [] = (True, eof, [] @ take 2 (pending s), s1) \<and>
       pending s1 = drop 2 (pending s)"
    "\<not> 2 \<le> length (pending s) \<Longrightarrow> bio_read_full m s bio True 2 [] = (False, eof, [] @ pending s, s1) \<and> pending s1 = []"
    by (rule read_full [OF s, where n = 2 and fr = True and acc = "[]"]) (rule that, assumption+)
  have h: "bio_read_full m s bio True 2 [] = (True, eof, [t, lb], s1)" and p1: "pending s1 = ob @ body @ rest"
    using r(2) by (simp_all add: p el)
  have contents: "\<exists>s'. read_contents al m s2 bio max_len h (length body) = (Some (der_element tag body), s') \<and>
      ok s' \<and> pending s' = rest"
    if "ok s2" "pending s2 = body @ rest" "h @ body = der_element tag body" "length h \<le> 6" for s2 h
  proof -
    have "length h + length body = length (der_element tag body)" using that(3) by (metis length_append)
    then show ?thesis
      using read_contents_ok [OF that(1,4) max, of al "length body"] that(2,3) len by (auto simp: add.commute)
  qed
  show ?thesis
  proof (cases "length body < 128")
    case True
    then have b: "ob = []" "lb AND 0x80 = 0" "unat lb = length body"
      using lb by (auto simp: der_len_bytes_def and_0x80_iff)
    have "BIO_read_asn1 al m s bio max_len = Some (read_contents al m s1 bio max_len [t, lb] (length body))"
      using t b by (simp add: BIO_read_asn1_def h Let_def)
    with contents [OF r(1), of "[t, lb]"] p1 b el show ?thesis by auto
  next
    case False
    let ?k = "len_octets (length body)"
    have body: "length body < 2 ^ 32" using len(1) by simp
    note k = len_octets_bounds [of "length body"]
    have ob: "lb = word_of_nat (128 + ?k)" "ob = be_bytes ?k (length body)"
      using lb False by (auto simp: der_len_bytes_def)
    have "unat lb = 128 + ?k" using k(1,2) ob(1) by (simp del: of_nat_add)
    then have b: "lb AND 0x80 \<noteq> 0" "unat (lb AND 0x7f) = ?k"
      using k(1,2) by (auto simp: and_0x80_iff unat_and_0x7f)
    obtain eof s2 where q: "ok s2"
      "?k \<le> length (pending s1) \<Longrightarrow> bio_read_full m s1 bio True ?k [] = (True, eof, [] @ take ?k (pending s1), s2) \<and>
         pending s2 = drop ?k (pending s1)"
      "\<not> ?k \<le> length (pending s1) \<Longrightarrow> bio_read_full m s1 bio True ?k [] = (False, eof, [] @ pending s1, s2) \<and> pending s2 = []"
      by (rule read_full [OF r(1), where n = ?k and fr = True and acc = "[]"]) (rule that, assumption+)
    have ob2: "bio_read_full m s1 bio True ?k [] = (True, eof, ob, s2)" "pending s2 = body @ rest"
      using q(2) by (simp_all add: p1 ob(2))
    have l: "unat (len32 ob) = length body"
      using k(2) k(3) [OF body] by (simp add: ob(2) len32_be_val be_val_be_bytes_id)
    have "(2 :: nat) ^ ((?k - 1) * 8) = 256 ^ (?k - 1)"
      using power_mult [of "2 :: nat" 8 "?k - 1"] by (simp add: mult.commute)
    then have min: "\<not> len32 ob < 128" "drop_bit ((?k - 1) * 8) (len32 ob) \<noteq> 0"
      using k(4) False l by (simp_all add: word_less_nat_alt drop_bit_eq_0_iff)
    have kk: "?k \<noteq> 0" "\<not> ?k > 4" using k(1,2) by auto
    have "BIO_read_asn1 al m s bio max_len =
        Some (read_contents al m s2 bio max_len ([t, lb] @ ob) (length body))"
      using t b kk min by (simp add: BIO_read_asn1_def h Let_def ob2(1) l)
    moreover have "length ([t, lb] @ ob) \<le> 6" using k(2) ob(2) by simp
    ultimately show ?thesis using contents [OF q(1) ob2(2), of "[t, lb] @ ob"] el by auto
  qed
qed

end

end
