(* ===== verification/Bio_Pair.thy ===== *)
theory Bio_Pair
  imports Bio_Source
begin

text \<open>
  \<open>crypto/bio/pair.c\<close>: two connected BIOs, each writing into its own ring buffer and reading from
  its peer's. The store holds both; \<open>peer\<close> is the index of the other BIO. The ring buffers are
  shown to be queues, and a pair to carry the bytes written at one end to the other in order.
\<close>

record bio_bio_st =
  peer :: "nat option"
  closed :: bool
  ring_len :: nat
  ring_offset :: nat
  ring_size :: nat
  ring_buf :: "bytes option"
  request :: nat

type_synonym pair_store = "bio_bio_st bio_store"

text \<open>\<open>bio->ptr\<close>, which the code asserts to be set, and an update of what it points to.\<close>

definition pair_ptr :: "pair_store \<Rightarrow> nat \<Rightarrow> bio_bio_st" where
  "pair_ptr s i = the (bio_ptr (s i))"

definition set_pair :: "nat \<Rightarrow> bio_bio_st \<Rightarrow> pair_store \<Rightarrow> pair_store" where
  "set_pair i b s = s(i := (s i)\<lparr>bio_ptr := Some b\<rparr>)"

definition bio_new :: "allocator \<Rightarrow> pair_store \<Rightarrow> nat \<Rightarrow> bool \<times> pair_store" where
  "bio_new al s i =
     (if \<not> al 56 then (False, s)
      else (True, set_pair i \<lparr>peer = None, closed = False, ring_len = 0, ring_offset = 0,
                              ring_size = 17 * 1024, ring_buf = None, request = 0\<rparr> s))"

definition bio_destroy_pair :: "pair_store \<Rightarrow> nat \<Rightarrow> pair_store" where
  "bio_destroy_pair s i =
     (case bio_ptr (s i) of
        None \<Rightarrow> s
      | Some b \<Rightarrow>
          (case peer b of
             None \<Rightarrow> s
           | Some j \<Rightarrow>
               let s = set_pair j ((pair_ptr s j)\<lparr>peer := None, ring_len := 0, ring_offset := 0\<rparr>) s;
                   s = s(j := (s j)\<lparr>bio_init := False\<rparr>);
                   s = set_pair i ((pair_ptr s i)\<lparr>peer := None, ring_len := 0, ring_offset := 0\<rparr>) s
               in s(i := (s i)\<lparr>bio_init := False\<rparr>)))"

text \<open>
  One pass of the copying loops: the part up to the end of the ring at most. The loop of
  \<open>bio_read\<close> with the bytes still to read and those read; it stops if a pass moves nothing, where
  the C loop would not end, which the invariant below excludes.
\<close>

definition read_chunk :: "bio_bio_st \<Rightarrow> nat \<Rightarrow> nat" where
  "read_chunk b rest =
     (if ring_offset b + rest \<le> ring_size b then rest else ring_size b - ring_offset b)"

definition advance :: "bio_bio_st \<Rightarrow> nat \<Rightarrow> bio_bio_st" where
  "advance b chunk =
     (let b = b\<lparr>ring_len := ring_len b - chunk\<rparr>
      in if ring_len b \<noteq> 0 then
           (let b = b\<lparr>ring_offset := ring_offset b + chunk\<rparr>
            in if ring_offset b = ring_size b then b\<lparr>ring_offset := 0\<rparr> else b)
         else b\<lparr>ring_offset := 0\<rparr>)"

function read_loop :: "bio_bio_st \<Rightarrow> nat \<Rightarrow> bytes \<Rightarrow> bytes \<times> bio_bio_st" where
  "read_loop b rest acc =
     (let chunk = read_chunk b rest;
          acc = acc @ take chunk (drop (ring_offset b) (the (ring_buf b)));
          b = advance b chunk
      in if rest - chunk = 0 \<or> chunk = 0 then (acc, b) else read_loop b (rest - chunk) acc)"
  by pat_completeness auto
termination
  by (relation "measure (\<lambda>(b, rest, acc). rest)") auto

declare read_loop.simps [simp del]

definition bio_read :: "pair_store \<Rightarrow> nat \<Rightarrow> int \<Rightarrow> int \<times> bytes \<times> pair_store" where
  "bio_read s i outl =
     (let size = nat outl;
          s = s(i := BIO_clear_retry_flags (s i))
      in if \<not> bio_init (s i) then (0, [], s)
         else
           let p = the (peer (pair_ptr s i));
               s = set_pair p ((pair_ptr s p)\<lparr>request := 0\<rparr>) s;
               peer_b = pair_ptr s p
           in if size = 0 then (0, [], s)
              else if ring_len peer_b = 0 then
                (if closed peer_b then (0, [], s)
                 else
                   let s = s(i := BIO_set_retry_read (s i))
                   in (-1, [], set_pair p (peer_b\<lparr>request :=
                        (if size \<le> ring_size peer_b then size else ring_size peer_b)\<rparr>) s))
              else
                let size = (if ring_len peer_b < size then ring_len peer_b else size);
                    (out, peer_b) = read_loop peer_b size []
                in (int size, out, set_pair p peer_b s))"

definition write_offset :: "bio_bio_st \<Rightarrow> nat" where
  "write_offset b =
     (let w = ring_offset b + ring_len b in if w \<ge> ring_size b then w - ring_size b else w)"

definition write_chunk :: "bio_bio_st \<Rightarrow> nat \<Rightarrow> nat" where
  "write_chunk b rest =
     (if write_offset b + rest \<le> ring_size b then rest else ring_size b - write_offset b)"

definition put_chunk :: "bio_bio_st \<Rightarrow> bytes \<Rightarrow> bio_bio_st" where
  "put_chunk b xs =
     b\<lparr>ring_buf := Some (blit (write_offset b) xs (the (ring_buf b))), ring_len := ring_len b + length xs\<rparr>"

function write_loop :: "bio_bio_st \<Rightarrow> bytes \<Rightarrow> bio_bio_st" where
  "write_loop b inp =
     (let chunk = write_chunk b (length inp);
          b = put_chunk b (take chunk inp);
          inp' = drop chunk inp
      in if inp' = [] \<or> chunk = 0 then b else write_loop b inp')"
  by pat_completeness auto
termination
  by (relation "measure (\<lambda>(b, inp). length inp)") auto

declare write_loop.simps [simp del]

definition bio_write :: "pair_store \<Rightarrow> nat \<Rightarrow> bytes \<Rightarrow> int \<times> pair_store" where
  "bio_write s i inp =
     (let num = length inp;
          s = s(i := BIO_clear_retry_flags (s i))
      in if \<not> bio_init (s i) \<or> num = 0 then (0, s)
         else
           let s = set_pair i ((pair_ptr s i)\<lparr>request := 0\<rparr>) s;
               b = pair_ptr s i
           in if closed b then (-1, s)
              else if ring_len b = ring_size b then (-1, s(i := BIO_set_retry_write (s i)))
              else
                let num = (if num > ring_size b - ring_len b then ring_size b - ring_len b else num)
                in (int num, set_pair i (write_loop b (take num inp)) s))"

text \<open>\<open>malloc\<close> of a ring buffer, with the unspecified contents \<open>fresh\<close>.\<close>

definition make_buf ::
  "allocator \<Rightarrow> (nat \<Rightarrow> u8) \<Rightarrow> bio_bio_st \<Rightarrow> nat \<Rightarrow> bool \<times> bio_bio_st" where
  "make_buf al fresh b writebuf_len =
     (case ring_buf b of
        Some d \<Rightarrow> (True, b)
      | None \<Rightarrow>
          let b = (if writebuf_len \<noteq> 0 then b\<lparr>ring_size := writebuf_len\<rparr> else b)
          in if \<not> al (ring_size b) then (False, b)
             else (True, b\<lparr>ring_buf := Some (map fresh [0..<ring_size b]), ring_len := 0, ring_offset := 0\<rparr>))"

definition bio_make_pair ::
  "allocator \<Rightarrow> (nat \<Rightarrow> u8) \<Rightarrow> pair_store \<Rightarrow> nat \<Rightarrow> nat \<Rightarrow> nat \<Rightarrow> nat \<Rightarrow> bool \<times> pair_store" where
  "bio_make_pair al fresh s i j writebuf1_len writebuf2_len =
     (if peer (pair_ptr s i) \<noteq> None \<or> peer (pair_ptr s j) \<noteq> None then (False, s)
      else
        (case make_buf al fresh (pair_ptr s i) writebuf1_len of (ok1, b1) \<Rightarrow>
           let s = set_pair i b1 s
           in if \<not> ok1 then (False, s)
              else
                (case make_buf al fresh (pair_ptr s j) writebuf2_len of (ok2, b2) \<Rightarrow>
                   let s = set_pair j b2 s
                   in if \<not> ok2 then (False, s)
                      else
                        let s = set_pair i ((pair_ptr s i)\<lparr>peer := Some j, closed := False, request := 0\<rparr>) s;
                            s = set_pair j ((pair_ptr s j)\<lparr>peer := Some i, closed := False, request := 0\<rparr>) s;
                            s = s(i := (s i)\<lparr>bio_init := True\<rparr>)
                        in (True, s(j := (s j)\<lparr>bio_init := True\<rparr>)))))"

definition bio_ctrl :: "pair_store \<Rightarrow> nat \<Rightarrow> bio_bio_st bio_cmd \<Rightarrow> int \<Rightarrow> int \<times> pair_store" where
  "bio_ctrl s i cmd num =
     (let b = pair_ptr s i
      in case cmd of
           BIO_C_GET_WRITE_BUF_SIZE \<Rightarrow> (int (ring_size b), s)
         | BIO_C_GET_WRITE_GUARANTEE \<Rightarrow>
             (if peer b = None \<or> closed b then 0 else int (ring_size b) - int (ring_len b), s)
         | BIO_C_GET_READ_REQUEST \<Rightarrow> (int (request b), s)
         | BIO_C_RESET_READ_REQUEST \<Rightarrow> (1, set_pair i (b\<lparr>request := 0\<rparr>) s)
         | BIO_C_SHUTDOWN_WR \<Rightarrow> (1, set_pair i (b\<lparr>closed := True\<rparr>) s)
         | BIO_CTRL_GET_CLOSE \<Rightarrow> (bio_shutdown (s i), s)
         | BIO_CTRL_SET_CLOSE \<Rightarrow> (1, s(i := (s i)\<lparr>bio_shutdown := num\<rparr>))
         | BIO_CTRL_PENDING \<Rightarrow>
             (case peer b of Some p \<Rightarrow> int (ring_len (pair_ptr s p)) | None \<Rightarrow> 0, s)
         | BIO_CTRL_WPENDING \<Rightarrow> (if ring_buf b \<noteq> None then int (ring_len b) else 0, s)
         | BIO_CTRL_FLUSH \<Rightarrow> (1, s)
         | BIO_CTRL_EOF other \<Rightarrow>
             (case other of
                Some o_bio \<Rightarrow> (if ring_len (pair_ptr s o_bio) = 0 \<and> closed (pair_ptr s o_bio) then 1 else 0, s)
              | None \<Rightarrow> (1, s))
         | _ \<Rightarrow> (0, s))"

definition methods_biop :: "bio_bio_st bio_method_st" where
  "methods_biop = \<lparr>bwrite = Some bio_write, bread = Some bio_read, bgets = None, bctrl = Some bio_ctrl,
     bcreate = Some bio_new\<rparr>"

text \<open>The new BIOs are put at the free indices \<open>i\<close> and \<open>j\<close>.\<close>

definition BIO_new_bio_pair ::
  "allocator \<Rightarrow> (nat \<Rightarrow> u8) \<Rightarrow> pair_store \<Rightarrow> nat \<Rightarrow> nat \<Rightarrow> nat \<Rightarrow> nat \<Rightarrow> bool \<times> pair_store" where
  "BIO_new_bio_pair al fresh s i j writebuf1_len writebuf2_len =
     (let (bio1, s) = BIO_new al methods_biop s i;
          (bio2, s) = BIO_new al methods_biop s j
      in if bio1 = None \<or> bio2 = None then (False, s)
         else bio_make_pair al fresh s i j writebuf1_len writebuf2_len)"

definition BIO_ctrl_get_read_request :: "pair_store \<Rightarrow> nat option \<Rightarrow> int" where
  "BIO_ctrl_get_read_request s bio = fst (BIO_ctrl methods_biop s bio BIO_C_GET_READ_REQUEST 0)"

definition BIO_ctrl_get_write_guarantee :: "pair_store \<Rightarrow> nat option \<Rightarrow> int" where
  "BIO_ctrl_get_write_guarantee s bio = fst (BIO_ctrl methods_biop s bio BIO_C_GET_WRITE_GUARANTEE 0)"

definition BIO_shutdown_wr :: "pair_store \<Rightarrow> nat option \<Rightarrow> int \<times> pair_store" where
  "BIO_shutdown_wr s bio = BIO_ctrl methods_biop s bio BIO_C_SHUTDOWN_WR 0"

subsection \<open>The ring buffer as a queue\<close>

definition ring :: "bio_bio_st \<Rightarrow> bytes" where
  "ring b = take (ring_len b) (drop (ring_offset b) (the (ring_buf b)) @ take (ring_offset b) (the (ring_buf b)))"

definition wf_ring :: "bio_bio_st \<Rightarrow> bool" where
  "wf_ring b \<longleftrightarrow> ring_buf b \<noteq> None \<and> length (the (ring_buf b)) = ring_size b \<and>
     ring_offset b < ring_size b \<and> ring_len b \<le> ring_size b"

lemma length_ring: "wf_ring b \<Longrightarrow> length (ring b) = ring_len b"
  by (auto simp: wf_ring_def ring_def)

text \<open>What the queue operations leave alone.\<close>

definition same_link :: "bio_bio_st \<Rightarrow> bio_bio_st \<Rightarrow> bool" where
  "same_link b b' \<longleftrightarrow> peer b' = peer b \<and> closed b' = closed b \<and> ring_size b' = ring_size b \<and> request b' = request b"

lemma same_link_trans: "same_link a b \<Longrightarrow> same_link b c \<Longrightarrow> same_link a c"
  by (simp add: same_link_def)

lemma advance_ring:
  assumes wf: "wf_ring b" and k: "0 < k" "k \<le> ring_len b" "ring_offset b + k \<le> ring_size b"
  shows "wf_ring (advance b k)" "ring (advance b k) = drop k (ring b)" "same_link b (advance b k)"
    "take k (drop (ring_offset b) (the (ring_buf b))) = take k (ring b)" "ring_len (advance b k) = ring_len b - k"
proof -
  let ?d = "the (ring_buf b)" and ?o = "ring_offset b" and ?n = "ring_len b - k"
  have d: "length ?d = ring_size b" "?o < ring_size b" "ring_len b \<le> ring_size b"
    using wf by (auto simp: wf_ring_def)
  show "wf_ring (advance b k)" using wf k by (auto simp: advance_def wf_ring_def Let_def)
  show "same_link b (advance b k)" by (simp add: advance_def same_link_def Let_def)
  have "take k (ring b) = take k (drop ?o ?d @ take ?o ?d)" by (simp only: ring_def take_take min_absorb1 [OF k(2)])
  then show "take k (drop ?o ?d) = take k (ring b)" using d k by simp
  show len: "ring_len (advance b k) = ring_len b - k" by (simp add: advance_def Let_def)
  have "drop k (ring b) = take ?n (drop (?o + k) ?d @ take ?o ?d)"
    using d k by (simp add: ring_def drop_take add.commute)
  moreover have "ring (advance b k) = take ?n (drop (?o + k) ?d @ take ?o ?d)"
  proof -
    consider "?n = 0" | "?n \<noteq> 0" "?o + k = ring_size b" | "?n \<noteq> 0" "?o + k \<noteq> ring_size b" by blast
    then show ?thesis
    proof cases
      case 1
      then show ?thesis by (simp only: ring_def len take0)
    next
      case 2
      then have "ring (advance b k) = take ?n ?d" by (simp add: ring_def advance_def Let_def)
      moreover have "take ?n (drop (?o + k) ?d @ take ?o ?d) = take ?n ?d"
        using 2 d by (simp add: min_absorb1)
      ultimately show ?thesis by simp
    next
      case 3
      then have "ring (advance b k) = take ?n (drop (?o + k) ?d @ take (?o + k) ?d)"
        by (simp add: ring_def advance_def Let_def)
      moreover have "take (?n - (ring_size b - (?o + k))) (take (?o + k) ?d) =
          take (?n - (ring_size b - (?o + k))) (take ?o ?d)"
        using d k by (simp add: min_absorb1)
      ultimately show ?thesis using d by simp
    qed
  qed
  ultimately show "ring (advance b k) = drop k (ring b)" by simp
qed

lemma read_loop_once:
  "ring_offset b + k \<le> ring_size b \<Longrightarrow>
   read_loop b k acc = (acc @ take k (drop (ring_offset b) (the (ring_buf b))), advance b k)"
  by (subst read_loop.simps) (simp add: read_chunk_def Let_def)

lemma read_loop_ring:
  assumes wf: "wf_ring b" and k: "0 < k" "k \<le> ring_len b"
  obtains b' where "read_loop b k acc = (acc @ take k (ring b), b')" "wf_ring b'" "ring b' = drop k (ring b)"
    "same_link b b'"
proof (cases "ring_offset b + k \<le> ring_size b")
  case True
  note a = advance_ring [OF wf k True]
  have "read_loop b k acc = (acc @ take k (ring b), advance b k)"
    using True a(4) by (simp add: read_loop_once)
  with a show ?thesis by (intro that) auto
next
  case False
  let ?c = "ring_size b - ring_offset b"
  let ?b = "advance b ?c"
  have o: "ring_offset b < ring_size b" using wf by (simp add: wf_ring_def)
  have c: "0 < ?c" "?c < k" "ring_offset b + ?c \<le> ring_size b" "?c \<le> ring_len b"
    using o False k by auto
  note a = advance_ring [OF wf c(1) c(4) c(3)]
  have off: "ring_offset ?b = 0" using c k by (auto simp: advance_def Let_def)
  have k': "0 < k - ?c" "k - ?c \<le> ring_len ?b" "ring_offset ?b + (k - ?c) \<le> ring_size ?b"
    using c k a(5,3) wf off by (auto simp: same_link_def wf_ring_def)
  note a' = advance_ring [OF a(1) k']
  have rc: "read_chunk b k = ?c" using False by (simp add: read_chunk_def)
  have nz: "\<not> (k - ?c = 0 \<or> ?c = 0)" using c by auto
  have "read_loop b k acc = read_loop ?b (k - ?c) (acc @ take ?c (ring b))"
    by (subst read_loop.simps) (simp only: rc Let_def a(4) if_not_P [OF nz])
  also have "\<dots> = (acc @ take ?c (ring b) @ take (k - ?c) (ring ?b), advance ?b (k - ?c))"
    using a'(4) by (simp add: read_loop_once [OF k'(3)])
  also have "take ?c (ring b) @ take (k - ?c) (ring ?b) = take k (ring b)"
    using c by (simp add: a(2) take_add [symmetric] del: take_add)
  finally show ?thesis
    using a'(1,2) a(2) c same_link_trans [OF a(3) a'(3)]
    by (intro that [of "advance ?b (k - ?c)"]) auto
qed

lemma put_chunk_ring:
  assumes wf: "wf_ring b" and k: "write_offset b + length xs \<le> ring_size b" "ring_len b + length xs \<le> ring_size b"
    and ne: "xs \<noteq> []"
  shows "wf_ring (put_chunk b xs)" "ring (put_chunk b xs) = ring b @ xs" "same_link b (put_chunk b xs)"
proof -
  let ?d = "the (ring_buf b)" and ?o = "ring_offset b" and ?l = "ring_len b" and ?w = "write_offset b"
  have "0 < length xs" using ne by simp
  then have "?l < ring_size b" using k by linarith
  then have d: "length ?d = ring_size b" "?o < ring_size b" "?l < ring_size b"
    using wf by (auto simp: wf_ring_def)
  show "wf_ring (put_chunk b xs)" using wf k by (auto simp: put_chunk_def wf_ring_def)
  show "same_link b (put_chunk b xs)" by (simp add: put_chunk_def same_link_def)
  have r: "ring (put_chunk b xs) = take (?l + length xs) (drop ?o (blit ?w xs ?d) @ take ?o (blit ?w xs ?d))"
    by (simp add: ring_def put_chunk_def)
  show "ring (put_chunk b xs) = ring b @ xs"
  proof (cases "?o + ?l < ring_size b")
    case True
    then have w: "?w = ?o + ?l" by (simp add: write_offset_def Let_def)
    have "drop ?o (blit ?w xs ?d) = drop ?o (take (?o + ?l) ?d) @ xs @ drop (?o + ?l + length xs) ?d"
      using True d by (simp add: blit_def w)
    moreover have "length (drop ?o (take (?o + ?l) ?d)) = ?l" using True d by simp
    moreover have "ring b = drop ?o (take (?o + ?l) ?d)"
      using True d by (simp add: ring_def drop_take)
    ultimately show ?thesis by (simp add: r)
  next
    case False
    then have w: "?w = ?o + ?l - ring_size b" by (simp add: write_offset_def Let_def)
    have "?w + length xs \<le> ?o" using False k d w by simp
    then have "drop ?o (blit ?w xs ?d) = drop ?o ?d"
      "take ?o (blit ?w xs ?d) = take ?w ?d @ xs @ drop (?w + length xs) (take ?o ?d)"
      using d by (simp_all add: blit_def drop_take)
    moreover have "length (drop ?o ?d) + ?w = ?l" using False d w by simp
    moreover have "ring b = drop ?o ?d @ take ?w ?d"
    proof -
      have "?l - (ring_size b - ?o) = ?w" "?w \<le> ?o" "ring_size b - ?o \<le> ?l" using False d w by auto
      then show ?thesis using d by (simp add: ring_def min_absorb1)
    qed
    ultimately show ?thesis using d by (simp add: r)
  qed
qed

lemma write_loop_once:
  "write_offset b + length inp \<le> ring_size b \<Longrightarrow> write_loop b inp = put_chunk b inp"
  by (subst write_loop.simps) (simp add: write_chunk_def Let_def)

lemma write_loop_ring:
  assumes wf: "wf_ring b" and k: "inp \<noteq> []" "ring_len b + length inp \<le> ring_size b"
  shows "wf_ring (write_loop b inp) \<and> ring (write_loop b inp) = ring b @ inp \<and> same_link b (write_loop b inp)"
proof (cases "write_offset b + length inp \<le> ring_size b")
  case True
  with put_chunk_ring [OF wf True k(2,1)] show ?thesis by (simp add: write_loop_once)
next
  case False
  let ?c = "ring_size b - write_offset b"
  let ?b = "put_chunk b (take ?c inp)"
  have w: "write_offset b < ring_size b" using wf by (auto simp: write_offset_def wf_ring_def Let_def)
  have c: "0 < ?c" "?c < length inp" using w False by auto
  have p: "wf_ring ?b" "ring ?b = ring b @ take ?c inp" "same_link b ?b"
    using put_chunk_ring [OF wf, of "take ?c inp"] c k w by auto
  have len: "ring_len ?b = ring_len b + ?c" using c by (simp add: put_chunk_def)
  have w0: "write_offset ?b = 0"
    using c k w wf by (auto simp: write_offset_def put_chunk_def Let_def wf_ring_def split: if_splits)
  have fits: "write_offset ?b + length (drop ?c inp) \<le> ring_size ?b"
    "ring_len ?b + length (drop ?c inp) \<le> ring_size ?b" "drop ?c inp \<noteq> []"
    using c k len w0 p(3) by (auto simp: same_link_def)
  have wc: "write_chunk b (length inp) = ?c" using False by (simp add: write_chunk_def)
  have nz: "\<not> (drop ?c inp = [] \<or> ?c = 0)" using c by auto
  have "write_loop b inp = write_loop ?b (drop ?c inp)"
    by (subst write_loop.simps) (simp only: wc Let_def if_not_P [OF nz])
  also have "\<dots> = put_chunk ?b (drop ?c inp)" by (rule write_loop_once [OF fits(1)])
  finally show ?thesis
    using put_chunk_ring [OF p(1) fits] p by (auto intro: same_link_trans)
qed

subsection \<open>A connected pair\<close>

lemma pair_store_simps [simp]:
  "pair_ptr (set_pair i b s) k = (if k = i then b else pair_ptr s k)"
  "bio_init (set_pair i b s k) = bio_init (s k)"
  "BIO_should_retry (set_pair i b s k) = BIO_should_retry (s k)"
  by (auto simp: set_pair_def pair_ptr_def BIO_should_retry_def BIO_test_flags_def)

lemma pair_ptr_upd [simp]:
  "bio_ptr b = bio_ptr (s i) \<Longrightarrow> pair_ptr (s(i := b)) k = pair_ptr s k"
  by (simp add: pair_ptr_def)

definition connected :: "nat \<Rightarrow> nat \<Rightarrow> pair_store \<Rightarrow> bool" where
  "connected i j s \<longleftrightarrow> i \<noteq> j \<and> bio_init (s i) \<and> bio_init (s j) \<and>
     peer (pair_ptr s i) = Some j \<and> peer (pair_ptr s j) = Some i \<and>
     wf_ring (pair_ptr s i) \<and> wf_ring (pair_ptr s j)"

lemma connected_sym: "connected i j s \<Longrightarrow> connected j i s"
  by (auto simp: connected_def)

text \<open>The bytes on their way from \<open>i\<close> to its peer.\<close>

abbreviation in_flight :: "pair_store \<Rightarrow> nat \<Rightarrow> bytes" where
  "in_flight s i \<equiv> ring (pair_ptr s i)"

lemma wf_ring_request [simp]: "wf_ring (b\<lparr>request := n\<rparr>) = wf_ring b" "ring (b\<lparr>request := n\<rparr>) = ring b"
  "wf_ring (b\<lparr>closed := c\<rparr>) = wf_ring b" "ring (b\<lparr>closed := c\<rparr>) = ring b"
  by (simp_all add: wf_ring_def ring_def)

lemma connectedD:
  assumes "connected i j s"
  shows "i \<noteq> j" "j \<noteq> i" "bio_init (s i)" "bio_init (s j)" "peer (pair_ptr s i) = Some j" "peer (pair_ptr s j) = Some i"
    "wf_ring (pair_ptr s i)" "wf_ring (pair_ptr s j)"
  using assms by (auto simp: connected_def)

text \<open>A step that changes the ring of \<open>i\<close> only, and the link of neither side.\<close>

lemma connected_step:
  assumes "connected i j s" "wf_ring (pair_ptr s' i)" "wf_ring (pair_ptr s' j)"
    "peer (pair_ptr s' i) = peer (pair_ptr s i)" "peer (pair_ptr s' j) = peer (pair_ptr s j)"
    "bio_init (s' i)" "bio_init (s' j)"
  shows "connected i j s'"
  using assms by (auto simp: connected_def)

lemma bio_write_ok:
  assumes c: "connected i j s" and w: "bio_write s i inp = (r, s')"
  shows "connected i j s' \<and> in_flight s' i = in_flight s i @ take (nat r) inp \<and> in_flight s' j = in_flight s j \<and>
    closed (pair_ptr s' i) = closed (pair_ptr s i) \<and> ring_size (pair_ptr s' i) = ring_size (pair_ptr s i) \<and>
    r = (if inp = [] then 0
         else if closed (pair_ptr s i) \<or> ring_len (pair_ptr s i) = ring_size (pair_ptr s i) then -1
         else int (min (length inp) (ring_size (pair_ptr s i) - ring_len (pair_ptr s i))))"
proof -
  note d = connectedD [OF c]
  let ?b = "pair_ptr s i"
  let ?n = "min (length inp) (ring_size ?b - ring_len ?b)"
  consider "inp = [] \<or> closed ?b \<or> ring_len ?b = ring_size ?b"
    | "inp \<noteq> []" "\<not> closed ?b" "ring_len ?b \<noteq> ring_size ?b" by blast
  then show ?thesis
  proof cases
    case 1
    then show ?thesis
      using d w by (auto simp: bio_write_def Let_def connected_def split: if_splits)
  next
    case 2
    have free: "0 < ring_size ?b - ring_len ?b" using 2 d(7) by (auto simp: wf_ring_def)
    let ?b0 = "?b\<lparr>request := 0\<rparr>"
    have "take ?n inp \<noteq> []" "ring_len ?b0 + length (take ?n inp) \<le> ring_size ?b0" "wf_ring ?b0"
      using 2 free d(7) by (auto simp: wf_ring_def)
    note wl = write_loop_ring [OF this(3,1,2)]
    have r: "r = int ?n" and p: "pair_ptr s' i = write_loop ?b0 (take ?n inp)" "pair_ptr s' j = pair_ptr s j"
      "bio_init (s' i)" "bio_init (s' j)"
      using w 2 d free by (auto simp: bio_write_def Let_def min_def split: if_splits)
    have "connected i j s'"
      using wl p d by (intro connected_step [OF c]) (auto simp: same_link_def)
    then show ?thesis using r p wl 2 by (simp add: same_link_def)
  qed
qed

lemma bio_read_ok:
  assumes c: "connected i j s" and rd: "bio_read s i n = (r, out, s')" and n: "0 < n"
  shows "connected i j s' \<and> in_flight s j = out @ in_flight s' j \<and> in_flight s' i = in_flight s i \<and>
    (if in_flight s j \<noteq> [] then r = int (length out) \<and> length out = min (nat n) (length (in_flight s j))
     else out = [] \<and> r = (if closed (pair_ptr s j) then 0 else -1) \<and>
       (\<not> closed (pair_ptr s j) \<longrightarrow> BIO_should_retry (s' i) \<and>
          request (pair_ptr s' j) = min (nat n) (ring_size (pair_ptr s j))))"
proof -
  note d = connectedD [OF c]
  let ?b = "pair_ptr s j"
  have empty: "in_flight s j = [] \<longleftrightarrow> ring_len ?b = 0" using length_ring [OF d(8)] by auto
  consider "ring_len ?b = 0" | "ring_len ?b \<noteq> 0" by blast
  then show ?thesis
  proof cases
    case 1
    then show ?thesis
      using d rd n empty by (auto simp: bio_read_def Let_def connected_def min_def split: if_splits)
  next
    case 2
    let ?k = "min (nat n) (ring_len ?b)"
    let ?b0 = "?b\<lparr>request := 0\<rparr>"
    have k: "0 < ?k" "?k \<le> ring_len ?b0" "wf_ring ?b0" using 2 n d(8) by auto
    obtain b' where b': "read_loop ?b0 ?k [] = ([] @ take ?k (ring ?b0), b')" "wf_ring b'"
      "ring b' = drop ?k (ring ?b0)" "same_link ?b0 b'"
      by (rule read_loop_ring [OF k(3,1,2)])
    have r: "r = int ?k" "out = take ?k (ring ?b)" and p: "pair_ptr s' j = b'" "pair_ptr s' i = pair_ptr s i"
      "bio_init (s' i)" "bio_init (s' j)"
      using rd 2 n d b'(1) by (auto simp: bio_read_def Let_def min_def split: if_splits)
    have "connected i j s'"
      using b' p d by (intro connected_step [OF c]) (auto simp: same_link_def)
    then show ?thesis using r p b'(3) 2 empty length_ring [OF d(8)] by (simp add: min_absorb1)
  qed
qed

lemma bio_ctrl_ok:
  assumes c: "connected i j s" and ct: "bio_ctrl s i cmd num = (r, s')"
  shows "connected i j s' \<and> in_flight s' i = in_flight s i \<and> in_flight s' j = in_flight s j"
proof (cases cmd)
qed (use connectedD [OF c] ct in \<open>auto simp: bio_ctrl_def Let_def connected_def split: if_splits option.splits\<close>)

lemma make_buf_ok:
  assumes "make_buf al fresh b n = (True, b')" "ring_buf b = None" "0 < ring_size b"
  shows "wf_ring b'" "ring b' = []" "peer b' = peer b" "ring_size b' = (if n = 0 then ring_size b else n)"
  using assms by (auto simp: make_buf_def Let_def wf_ring_def ring_def split: if_splits)

lemma bio_make_pair_ok:
  assumes m: "bio_make_pair al fresh s i j w1 w2 = (True, s')" and ij: "i \<noteq> j"
    and b: "ring_buf (pair_ptr s i) = None" "0 < ring_size (pair_ptr s i)"
      "ring_buf (pair_ptr s j) = None" "0 < ring_size (pair_ptr s j)"
  shows "connected i j s'" "in_flight s' i = []" "in_flight s' j = []"
proof -
  obtain b1 where b1: "make_buf al fresh (pair_ptr s i) w1 = (True, b1)"
    using m by (cases "make_buf al fresh (pair_ptr s i) w1") (auto simp: bio_make_pair_def Let_def split: if_splits)
  obtain b2 where b2: "make_buf al fresh (pair_ptr s j) w2 = (True, b2)"
    using m ij b1
    by (cases "make_buf al fresh (pair_ptr s j) w2") (auto simp: bio_make_pair_def Let_def split: if_splits)
  note ok = make_buf_ok [OF b1 b(1,2)] make_buf_ok [OF b2 b(3,4)]
  have p: "pair_ptr s' i = b1\<lparr>peer := Some j, closed := False, request := 0\<rparr>"
    "pair_ptr s' j = b2\<lparr>peer := Some i, closed := False, request := 0\<rparr>" "bio_init (s' i)" "bio_init (s' j)"
    using m b1 b2 ij by (auto simp: bio_make_pair_def Let_def split: if_splits)
  show "connected i j s'" "in_flight s' i = []" "in_flight s' j = []"
    using ok p ij by (auto simp: connected_def wf_ring_def ring_def)
qed

lemma BIO_new_bio_pair_ok:
  assumes "BIO_new_bio_pair al fresh s i j w1 w2 = (True, s')" "i \<noteq> j"
  shows "connected i j s' \<and> in_flight s' i = [] \<and> in_flight s' j = []"
proof -
  obtain s1 where s1: "BIO_new al methods_biop s i = (Some i, s1)"
    using assms(1) by (cases "al 64"; cases "al 56")
      (auto simp: BIO_new_bio_pair_def BIO_new_def methods_biop_def bio_new_def Let_def)
  obtain s2 where s2: "BIO_new al methods_biop s1 j = (Some j, s2)"
    using assms(1) s1 by (cases "al 64"; cases "al 56")
      (auto simp: BIO_new_bio_pair_def BIO_new_def methods_biop_def bio_new_def Let_def)
  have m: "bio_make_pair al fresh s2 i j w1 w2 = (True, s')"
    using assms(1) s1 s2 by (simp add: BIO_new_bio_pair_def Let_def)
  have "ring_buf (pair_ptr s2 k) = None \<and> 0 < ring_size (pair_ptr s2 k)" if "k \<in> {i, j}" for k
    using s1 s2 assms(2) that
    by (auto simp: BIO_new_def methods_biop_def bio_new_def Let_def pair_ptr_def set_pair_def split: if_splits)
  then show ?thesis using bio_make_pair_ok [OF m assms(2)] by simp
qed

text \<open>
  Runs of a pair: \<open>W e\<close> holds the bytes a write at end \<open>e\<close> has accepted so far, \<open>R e\<close> those reads at
  \<open>e\<close> have returned.
\<close>

inductive pair_run ::
  "nat \<Rightarrow> nat \<Rightarrow> (nat \<Rightarrow> bytes) \<Rightarrow> (nat \<Rightarrow> bytes) \<Rightarrow> pair_store \<Rightarrow> bool" for i j where
  new: "BIO_new_bio_pair al fresh s i j w1 w2 = (True, s') \<Longrightarrow> i \<noteq> j \<Longrightarrow>
    pair_run i j (\<lambda>e. []) (\<lambda>e. []) s'"
| written: "pair_run i j W R s \<Longrightarrow> e = i \<or> e = j \<Longrightarrow>
    BIO_write methods_biop s (Some e) inp = (r, s') \<Longrightarrow>
    pair_run i j (W(e := W e @ take (nat r) inp)) R s'"
| read: "pair_run i j W R s \<Longrightarrow> e = i \<or> e = j \<Longrightarrow>
    BIO_read methods_biop s (Some e) n = (r, out, s') \<Longrightarrow>
    pair_run i j W (R(e := R e @ out)) s'"
| ctrl: "pair_run i j W R s \<Longrightarrow> e = i \<or> e = j \<Longrightarrow>
    BIO_ctrl methods_biop s (Some e) cmd num = (r, s') \<Longrightarrow> pair_run i j W R s'"

definition delivers :: "nat \<Rightarrow> nat \<Rightarrow> (nat \<Rightarrow> bytes) \<Rightarrow> (nat \<Rightarrow> bytes) \<Rightarrow> pair_store \<Rightarrow> bool" where
  "delivers i j W R s \<longleftrightarrow> connected i j s \<and> W i = R j @ in_flight s i \<and> W j = R i @ in_flight s j"

lemma delivers_sym: "delivers i j W R s \<Longrightarrow> delivers j i W R s"
  by (auto simp: delivers_def connected_sym)

lemma count_same [simp]:
  "connected i j (s(k := (s k)\<lparr>bio_num_read := n\<rparr>)) = connected i j s"
  "connected i j (s(k := (s k)\<lparr>bio_num_write := n\<rparr>)) = connected i j s"
  by (auto simp: connected_def)

lemma delivers_write:
  assumes d: "delivers i j W R s" and w: "BIO_write methods_biop s (Some i) inp = (r, s')"
  shows "delivers i j (W(i := W i @ take (nat r) inp)) R s'"
proof (cases "inp = []")
  case True
  with d w show ?thesis by (auto simp: BIO_write_def methods_biop_def delivers_def connected_def)
next
  case False
  have c: "connected i j s" using d by (simp add: delivers_def)
  obtain s1 where s1: "bio_write s i inp = (r, s1)"
    and s': "s' = (if r > 0 then s1(i := (s1 i)\<lparr>bio_num_write := bio_num_write (s1 i) + word_of_int r\<rparr>) else s1)"
    using w False c by (cases "bio_write s i inp") (auto simp: BIO_write_def methods_biop_def connected_def)
  show ?thesis
    using bio_write_ok [OF c s1] d by (auto simp: s' delivers_def connected_def)
qed

lemma delivers_read:
  assumes d: "delivers i j W R s" and rd: "BIO_read methods_biop s (Some i) n = (r, out, s')"
  shows "delivers i j W (R(i := R i @ out)) s'"
proof (cases "n \<le> 0")
  case True
  with d rd show ?thesis by (auto simp: BIO_read_def methods_biop_def delivers_def connected_def)
next
  case False
  have c: "connected i j s" using d by (simp add: delivers_def)
  obtain s1 where s1: "bio_read s i n = (r, out, s1)"
    and s': "s' = (if r > 0 then s1(i := (s1 i)\<lparr>bio_num_read := bio_num_read (s1 i) + word_of_int r\<rparr>) else s1)"
    using rd False c by (cases "bio_read s i n") (auto simp: BIO_read_def methods_biop_def connected_def)
  have n: "0 < n" using False by simp
  have ok: "connected i j s1" "in_flight s j = out @ in_flight s1 j" "in_flight s1 i = in_flight s i"
    using bio_read_ok [OF c s1 n] by blast+
  have "W i = R j @ in_flight s1 i" "W j = (R i @ out) @ in_flight s1 j" "i \<noteq> j"
    using d ok by (auto simp: delivers_def connected_def)
  with ok(1) show ?thesis by (simp add: s' delivers_def connected_def)
qed

lemma delivers_ctrl:
  assumes d: "delivers i j W R s" and ct: "BIO_ctrl methods_biop s (Some i) cmd num = (r, s')"
  shows "delivers i j W R s'"
proof -
  have c: "connected i j s" using d by (simp add: delivers_def)
  have "bio_ctrl s i cmd num = (r, s')" using ct by (simp add: BIO_ctrl_def methods_biop_def)
  from bio_ctrl_ok [OF c this] d show ?thesis by (simp add: delivers_def)
qed

lemma pair_run_delivers: "pair_run i j W R s \<Longrightarrow> delivers i j W R s"
proof (induction rule: pair_run.induct)
  case (new al fresh s w1 w2 s')
  then show ?case using BIO_new_bio_pair_ok by (simp add: delivers_def)
next
  case (written W R s e inp r s')
  then show ?case using delivers_write [of i j W R s] delivers_write [of j i W R s] delivers_sym by blast
next
  case (read W R s e n r out s')
  then show ?case using delivers_read [of i j W R s] delivers_read [of j i W R s] delivers_sym by blast
next
  case (ctrl W R s e cmd num r s')
  then show ?case using delivers_ctrl [of i j W R s] delivers_ctrl [of j i W R s] delivers_sym by blast
qed

subsection \<open>Each end is a source\<close>

lemma BIO_read_pair:
  assumes c: "connected i j s" and n: "0 < n"
  obtains s' where "connected i j s'" "in_flight s' j = drop (nat n) (in_flight s j)"
    "BIO_read methods_biop s (Some i) n =
      (if in_flight s j = [] then if closed (pair_ptr s j) then 0 else -1
       else int (length (take (nat n) (in_flight s j))), take (nat n) (in_flight s j), s')"
proof -
  obtain r out s1 where rd: "bio_read s i n = (r, out, s1)" by (cases "bio_read s i n") auto
  note ok = bio_read_ok [OF c rd n]
  let ?s = "if r > 0 then s1(i := (s1 i)\<lparr>bio_num_read := bio_num_read (s1 i) + word_of_int r\<rparr>) else s1"
  have f: "in_flight s j = out @ in_flight s1 j" using ok by blast
  have len: "length out = min (nat n) (length (in_flight s j))"
    using ok [THEN conjunct2, THEN conjunct2, THEN conjunct2] by (cases "in_flight s j = []") simp_all
  have out: "out = take (nat n) (in_flight s j)" "in_flight s1 j = drop (nat n) (in_flight s j)"
  proof -
    have "length out = min (nat n) (length out + length (in_flight s1 j))" using len f by (metis length_append)
    then have "length out = nat n \<or> length out \<le> nat n \<and> length (in_flight s1 j) = 0" by linarith
    then show "out = take (nat n) (in_flight s j)" "in_flight s1 j = drop (nat n) (in_flight s j)"
      unfolding f by auto
  qed
  have b: "BIO_read methods_biop s (Some i) n = (r, out, ?s)"
    using rd n connectedD(3) [OF c] by (simp add: BIO_read_def methods_biop_def)
  have "connected i j ?s" using ok [THEN conjunct1] by (auto simp: connected_def)
  moreover have "in_flight ?s j = drop (nat n) (in_flight s j)" using out by simp
  moreover have "r = (if in_flight s j = [] then if closed (pair_ptr s j) then 0 else -1 else int (length out))"
    using ok [THEN conjunct2, THEN conjunct2, THEN conjunct2] by (cases "in_flight s j = []") simp_all
  ultimately show thesis using b out by (intro that [of ?s]) (simp_all only:)
qed

interpretation pair_source: bio_source methods_biop "Some i" "connected i j" "\<lambda>s. in_flight s j" for i j
proof unfold_locales
  fix s n assume c: "connected i j s" and n: "0 < n" "n \<le> INT_MAX"
  obtain s' where r: "connected i j s'" "in_flight s' j = drop (nat n) (in_flight s j)"
    "BIO_read methods_biop s (Some i) n =
      (if in_flight s j = [] then if closed (pair_ptr s j) then 0 else -1
       else int (length (take (nat n) (in_flight s j))), take (nat n) (in_flight s j), s')"
    by (rule BIO_read_pair [OF c n(1)])
  show "\<exists>k s'. 0 < k \<and> k \<le> nat n \<and> k \<le> length (in_flight s j) \<and>
      BIO_read methods_biop s (Some i) n = (int k, take k (in_flight s j), s') \<and>
      in_flight s' j = drop k (in_flight s j) \<and> connected i j s'" if "in_flight s j \<noteq> []"
    using r n that
    by (intro exI [of _ "min (nat n) (length (in_flight s j))"] exI [of _ s']) (auto simp: min_def)
  show "\<exists>r s'. r \<in> {0, -1} \<and> BIO_read methods_biop s (Some i) n = (r, [], s') \<and>
      in_flight s' j = [] \<and> connected i j s'" if "in_flight s j = []"
    using r that by auto
qed

subsection \<open>Properties\<close>

text \<open>
  C24: a BIO pair is two pipes: whatever is written, read and controlled at the two ends, the bytes
  accepted at one end are those returned at the other, in order, followed by those still in the
  ring buffer, whose number the two pending counts report.
\<close>

theorem bio_pair_fifo:
  assumes "pair_run i j W R s"
  shows "W i = R j @ in_flight s i \<and> W j = R i @ in_flight s j \<and>
    BIO_wpending methods_biop s (Some i) = length (in_flight s i) \<and>
    BIO_pending methods_biop s (Some j) = length (in_flight s i) \<and>
    length (in_flight s i) \<le> ring_size (pair_ptr s i)"
proof -
  have d: "delivers i j W R s" by (rule pair_run_delivers [OF assms])
  then have c: "connected i j s" by (simp add: delivers_def)
  have "BIO_wpending methods_biop s (Some i) = ring_len (pair_ptr s i)"
    "BIO_pending methods_biop s (Some j) = ring_len (pair_ptr s i)"
    using c by (auto simp: BIO_wpending_def BIO_pending_def BIO_ctrl_def methods_biop_def bio_ctrl_def Let_def
        connected_def wf_ring_def)
  then show ?thesis
    using d c length_ring [of "pair_ptr s i"] by (auto simp: delivers_def connected_def wf_ring_def)
qed

lemma bio_write_flags:
  assumes c: "connected i j s" and w: "bio_write s i inp = (r, s')" and inp: "inp \<noteq> []"
  shows "(BIO_should_retry (s' i) \<longleftrightarrow> \<not> closed (pair_ptr s i) \<and> ring_len (pair_ptr s i) = ring_size (pair_ptr s i)) \<and>
    (BIO_should_retry (s' i) \<longrightarrow> BIO_should_write (s' i))"
proof -
  have f: "BIO_should_write (set_pair k b t k) = BIO_should_write (t k)" for k b t
    by (simp add: set_pair_def BIO_should_write_def BIO_test_flags_def)
  show ?thesis using connectedD [OF c] w inp by (auto simp: bio_write_def Let_def f split: if_splits)
qed

lemma bio_num_upd [simp]:
  "BIO_should_retry (b\<lparr>bio_num_read := x\<rparr>) = BIO_should_retry b" "BIO_should_retry (b\<lparr>bio_num_write := y\<rparr>) = BIO_should_retry b"
  "BIO_should_write (b\<lparr>bio_num_write := y\<rparr>) = BIO_should_write b"
  by (simp_all add: BIO_should_retry_def BIO_should_write_def BIO_test_flags_def)

text \<open>
  C25: the flow control of a pair. The write guarantee is the room left in the ring, 0 after a shutdown. A write takes what
  fits: all of its input when the guarantee covers it; on a full ring it takes nothing and sets the retry flag for writing,
  and after a shutdown it fails without. A read takes what is there; when nothing is, it fails with the retry flag and leaves its request for the other
  side to see, or returns 0 when that side has shut down.
\<close>

theorem bio_pair_flow_control:
  assumes "pair_run i j W R s" "inp \<noteq> []" "0 < n"
  shows "BIO_ctrl_get_write_guarantee s (Some i) =
      (if closed (pair_ptr s i) then 0 else int (ring_size (pair_ptr s i)) - (int (length (W i)) - int (length (R j)))) \<and>
    (case BIO_write methods_biop s (Some i) inp of (r, s') \<Rightarrow>
      if closed (pair_ptr s i) then r = -1 \<and> \<not> BIO_should_retry (s' i) \<and> in_flight s' i = in_flight s i
      else if BIO_ctrl_get_write_guarantee s (Some i) = 0
      then r = -1 \<and> BIO_should_retry (s' i) \<and> BIO_should_write (s' i) \<and> in_flight s' i = in_flight s i
      else r = min (int (length inp)) (BIO_ctrl_get_write_guarantee s (Some i)) \<and> \<not> BIO_should_retry (s' i) \<and>
        in_flight s' i = in_flight s i @ take (nat r) inp) \<and>
    (case BIO_read methods_biop s (Some i) n of (r, out, s') \<Rightarrow>
      if W j = R i then out = [] \<and>
        (if closed (pair_ptr s j) then r = 0
         else r = -1 \<and> BIO_should_retry (s' i) \<and>
           BIO_ctrl_get_read_request s' (Some j) = min n (int (ring_size (pair_ptr s j))))
      else r = int (length out) \<and> length out = min (nat n) (length (W j) - length (R i)))"
proof (intro conjI)
  have d: "delivers i j W R s" by (rule pair_run_delivers [OF assms(1)])
  then have c: "connected i j s" by (simp add: delivers_def)
  note cd = connectedD [OF c]
  let ?b = "pair_ptr s i"
  have len: "ring_len ?b \<le> ring_size ?b" using cd(7) by (simp add: wf_ring_def)
  have g: "BIO_ctrl_get_write_guarantee s (Some i) = (if closed ?b then 0 else int (ring_size ?b) - int (ring_len ?b))"
    using cd by (simp add: BIO_ctrl_get_write_guarantee_def BIO_ctrl_def methods_biop_def bio_ctrl_def Let_def)
  have "int (ring_len ?b) = int (length (W i)) - int (length (R j))"
    using d length_ring [OF cd(7)] by (simp add: delivers_def)
  then show "BIO_ctrl_get_write_guarantee s (Some i) =
      (if closed ?b then 0 else int (ring_size ?b) - (int (length (W i)) - int (length (R j))))" by (simp add: g)
  obtain r1 s1 where w: "bio_write s i inp = (r1, s1)" by fastforce
  have wr: "BIO_write methods_biop s (Some i) inp =
      (r1, if r1 > 0 then s1(i := (s1 i)\<lparr>bio_num_write := bio_num_write (s1 i) + word_of_int r1\<rparr>) else s1)"
    using w assms(2) cd by (simp add: BIO_write_def methods_biop_def)
  note W = bio_write_ok [OF c w] bio_write_flags [OF c w assms(2)]
  have "0 < length inp" using assms(2) by simp
  then show "case BIO_write methods_biop s (Some i) inp of (r, s') \<Rightarrow>
      if closed ?b then r = -1 \<and> \<not> BIO_should_retry (s' i) \<and> in_flight s' i = in_flight s i
      else if BIO_ctrl_get_write_guarantee s (Some i) = 0
      then r = -1 \<and> BIO_should_retry (s' i) \<and> BIO_should_write (s' i) \<and> in_flight s' i = in_flight s i
      else r = min (int (length inp)) (BIO_ctrl_get_write_guarantee s (Some i)) \<and> \<not> BIO_should_retry (s' i) \<and>
        in_flight s' i = in_flight s i @ take (nat r) inp"
    using W assms(2) len unfolding wr prod.case g by (auto simp: of_nat_min of_nat_diff)
  obtain r2 out s2 where rd: "bio_read s i n = (r2, out, s2)" by (cases "bio_read s i n") auto
  note ok = bio_read_ok [OF c rd assms(3), THEN conjunct2, THEN conjunct2, THEN conjunct2]
  have r: "BIO_read methods_biop s (Some i) n =
      (r2, out, if r2 > 0 then s2(i := (s2 i)\<lparr>bio_num_read := bio_num_read (s2 i) + word_of_int r2\<rparr>) else s2)"
    using rd assms(3) cd by (simp add: BIO_read_def methods_biop_def)
  have fl: "W j = R i \<longleftrightarrow> in_flight s j = []" "length (in_flight s j) = length (W j) - length (R i)"
    using d by (auto simp: delivers_def)
  show "case BIO_read methods_biop s (Some i) n of (r, out, s') \<Rightarrow>
      if W j = R i then out = [] \<and>
        (if closed (pair_ptr s j) then r = 0
         else r = -1 \<and> BIO_should_retry (s' i) \<and>
           BIO_ctrl_get_read_request s' (Some j) = min n (int (ring_size (pair_ptr s j))))
      else r = int (length out) \<and> length out = min (nat n) (length (W j) - length (R i))"
  proof (cases "in_flight s j = []")
    case True
    with ok have "out = []" "r2 = (if closed (pair_ptr s j) then 0 else -1)"
      "\<not> closed (pair_ptr s j) \<longrightarrow> BIO_should_retry (s2 i) \<and>
        request (pair_ptr s2 j) = min (nat n) (ring_size (pair_ptr s j))" by auto
    moreover have "W j = R i" using True fl by simp
    ultimately show ?thesis
      using assms(3) unfolding r
      by (simp add: BIO_ctrl_get_read_request_def BIO_ctrl_def methods_biop_def bio_ctrl_def Let_def of_nat_min)
  next
    case False
    with ok have "r2 = int (length out)" "length out = min (nat n) (length (in_flight s j))" by auto
    moreover have "W j \<noteq> R i" using False fl by simp
    ultimately show ?thesis unfolding r by (simp add: fl)
  qed
qed

text \<open>
  A DER element with a short tag among the bytes under way in a pair, first in line, is what
  \<open>BIO_read_asn1\<close> returns at the other end; the bytes behind it stay under way.
\<close>

theorem bio_pair_asn1:
  assumes run: "pair_run i j W R s" and w: "W j = R i @ der_element tag body @ rest" and tag: "low_tag tag"
    and len: "int (length body) \<le> INT_MAX" "length (der_element tag body) \<le> max_len"
    and max: "max_len < size_lim" "al (length (der_element tag body))"
  shows "\<exists>s'. BIO_read_asn1 al methods_biop s (Some i) max_len = Some (Some (der_element tag body), s') \<and>
    in_flight s' j = rest"
proof -
  have d: "delivers i j W R s" by (rule pair_run_delivers [OF run])
  then have c: "connected i j s" "in_flight s j = der_element tag body @ rest"
    using w by (auto simp: delivers_def)
  from pair_source.read_asn1_complete [OF c(1) max(1) c(2) tag len, of al, OF max(2)] show ?thesis by blast
qed

text \<open>
  A pair with rings of three bytes: two written, one read, two more written, which wraps around.
\<close>

definition pair0 :: pair_store where
  "pair0 = snd (BIO_new_bio_pair (\<lambda>n. True) (\<lambda>n. 0) undefined 0 1 3 3)"

definition pair1 :: pair_store where "pair1 = snd (BIO_write methods_biop pair0 (Some 0) [1, 2])"
definition pair2 :: pair_store where "pair2 = snd (snd (BIO_read methods_biop pair1 (Some 1) 1))"
definition pair3 :: pair_store where "pair3 = snd (BIO_write methods_biop pair2 (Some 0) [3, 4, 5])"

definition pair4 :: pair_store where "pair4 = snd (BIO_write methods_biop pair0 (Some 1) [4, 1, 7])"

lemma pair0_new: "BIO_new_bio_pair (\<lambda>n. True) (\<lambda>n. 0) undefined 0 1 3 3 = (True, pair0)"
  unfolding pair0_def
  by (simp add: BIO_new_bio_pair_def BIO_new_def methods_biop_def bio_new_def bio_make_pair_def make_buf_def
      Let_def pair_ptr_def set_pair_def)

lemmas pair_eval = BIO_new_bio_pair_def BIO_new_def methods_biop_def bio_new_def bio_make_pair_def make_buf_def
  Let_def pair_ptr_def set_pair_def BIO_write_def BIO_read_def bio_write_def bio_read_def
  BIO_clear_retry_flags_def write_loop.simps write_chunk_def write_offset_def put_chunk_def blit_def
  read_loop.simps read_chunk_def advance_def upt_conv_Cons

lemma pair_steps:
  "fst (BIO_write methods_biop pair0 (Some 0) [1, 2]) = 2"
  "BIO_read methods_biop pair1 (Some 1) 1 = (1, [1], pair2)"
  "fst (BIO_write methods_biop pair2 (Some 0) [3, 4, 5]) = 2"
  by (simp_all add: pair0_def pair1_def pair2_def pair_eval)

lemma pair_run3:
  "pair_run 0 1 ((\<lambda>e. [])(0 := [1, 2, 3, 4])) ((\<lambda>e. [])(1 := [1])) pair3"
proof -
  have 0: "pair_run 0 1 (\<lambda>e. []) (\<lambda>e. []) pair0"
    by (rule pair_run.new [OF pair0_new]) simp
  have w: "BIO_write methods_biop pair0 (Some 0) [1, 2] = (2, pair1)"
    "BIO_write methods_biop pair2 (Some 0) [3, 4, 5] = (2, pair3)"
    using pair_steps(1,3) by (simp_all add: pair1_def pair3_def prod_eq_iff)
  from pair_run.written [OF 0 _ w(1)] have 1: "pair_run 0 1 ((\<lambda>e. [])(0 := [1, 2])) (\<lambda>e. []) pair1" by simp
  from pair_run.read [OF 1 _ pair_steps(2)]
  have 2: "pair_run 0 1 ((\<lambda>e. [])(0 := [1, 2])) ((\<lambda>e. [])(1 := [1])) pair2" by simp
  from pair_run.written [OF 2 _ w(2)] show ?thesis by simp
qed

theorem bio_pair_fifo_witness:
  "in_flight pair3 0 = [2, 3, 4] \<and> BIO_pending methods_biop pair3 (Some 1) = 3"
proof -
  note f = bio_pair_fifo [OF pair_run3]
  from f have "in_flight pair3 0 = [2, 3, 4]" by simp
  with f show ?thesis by (metis length_Cons list.size(3) numeral_3_eq_3)
qed

theorem bio_pair_asn1_witness:
  "\<exists>s'. BIO_read_asn1 (\<lambda>n. True) methods_biop pair4 (Some 0) 10 = Some (Some [4, 1, 7], s') \<and> in_flight s' 1 = []"
proof -
  have el: "der_element 4 [7] = [4, 1, 7]"
    by (simp add: der_element_def der_header_def der_tag_bytes_def der_len_bytes_def)
  have "fst (BIO_write methods_biop pair0 (Some 1) [4, 1, 7]) = 3" by (simp add: pair0_def pair_eval)
  then have w: "BIO_write methods_biop pair0 (Some 1) [4, 1, 7] = (3, pair4)" by (simp add: pair4_def prod_eq_iff)
  have "pair_run 0 1 (\<lambda>e. []) (\<lambda>e. []) pair0" by (rule pair_run.new [OF pair0_new]) simp
  from pair_run.written [OF this _ w] have "pair_run 0 1 ((\<lambda>e. [])(1 := [4, 1, 7])) (\<lambda>e. []) pair4" by simp
  from bio_pair_asn1 [OF this, of 4 "[7]" "[]" 10 "\<lambda>n. True"] show ?thesis by (simp add: el)
qed

theorem bio_pair_flow_control_witness:
  "BIO_ctrl_get_write_guarantee pair3 (Some 0) = 0 \<and> fst (BIO_write methods_biop pair3 (Some 0) [9]) = -1 \<and>
    BIO_should_write (snd (BIO_write methods_biop pair3 (Some 0) [9]) 0)"
proof -
  have "\<not> closed (pair_ptr pair3 0)" "ring_size (pair_ptr pair3 0) = 3"
    by (simp_all add: pair0_def pair1_def pair2_def pair3_def pair_eval)
  with bio_pair_flow_control [OF pair_run3, of "[9]" 9] show ?thesis
    by (cases "BIO_write methods_biop pair3 (Some 0) [9]") simp
qed

end
