(* ===== verification/Bio_Mem.thy ===== *)
theory Bio_Mem
  imports Bio_Source Buf C_Strings
begin

text \<open>
  \<open>crypto/bio/bio_mem.c\<close>: memory BIOs, over the \<open>BUF_MEM\<close> of \<open>Buf\<close>. A read-only BIO does not move
  its bytes but its \<open>data\<close> pointer: \<open>mem_skipped\<close> holds the bytes of the block before the pointer,
  \<open>buf_data\<close> those from it on, so that the C field \<open>max\<close> is the length of both.
\<close>

record mem_st =
  mem_skipped :: bytes
  mem_buf :: buf_mem_st

type_synonym mem_store = "mem_st bio_store"

abbreviation mem_max :: "mem_st \<Rightarrow> nat" where
  "mem_max b \<equiv> length (mem_skipped b) + buf_max (mem_buf b)"

definition mem_ptr :: "mem_store \<Rightarrow> nat \<Rightarrow> mem_st" where
  "mem_ptr s i = the (bio_ptr (s i))"

definition set_mem :: "nat \<Rightarrow> mem_st \<Rightarrow> mem_store \<Rightarrow> mem_store" where
  "set_mem i b s = s(i := (s i)\<lparr>bio_ptr := Some b\<rparr>)"

definition rdonly :: "'p bio_st \<Rightarrow> bool" where
  "rdonly b \<longleftrightarrow> bio_flags b AND BIO_FLAGS_MEM_RDONLY \<noteq> 0"

definition mem_new :: "allocator \<Rightarrow> mem_store \<Rightarrow> nat \<Rightarrow> bool \<times> mem_store" where
  "mem_new al s i =
     (case BUF_MEM_new al of
        None \<Rightarrow> (False, s)
      | Some b \<Rightarrow>
          (True, s(i := (s i)\<lparr>bio_shutdown := 1, bio_init := True, bio_num := -1,
                               bio_ptr := Some \<lparr>mem_skipped = [], mem_buf = b\<rparr>\<rparr>)))"

definition mem_free :: "mem_store \<Rightarrow> nat \<Rightarrow> mem_store" where
  "mem_free s i =
     (if bio_shutdown (s i) = 0 \<or> \<not> bio_init (s i) \<or> bio_ptr (s i) = None then s
      else s(i := (s i)\<lparr>bio_ptr := None\<rparr>))"

definition mem_read :: "mem_store \<Rightarrow> nat \<Rightarrow> int \<Rightarrow> int \<times> bytes \<times> mem_store" where
  "mem_read s i outl =
     (let b = mem_ptr s i; l = buf_length (mem_buf b); d = buf_data (mem_buf b);
          s = s(i := BIO_clear_retry_flags (s i));
          ret = (if int l < INT_MAX \<and> outl > int l then int l else outl)
      in if ret > 0 then
           let k = nat ret; l = l - k
           in (ret, take k d,
               set_mem i
                 (if rdonly (s i)
                  then b\<lparr>mem_skipped := mem_skipped b @ take k d, mem_buf := \<lparr>buf_length = l, buf_data = drop k d\<rparr>\<rparr>
                  else b\<lparr>mem_buf := \<lparr>buf_length = l, buf_data = blit 0 (take l (drop k d)) d\<rparr>\<rparr>) s)
         else if l = 0 then
           (bio_num (s i), [], if bio_num (s i) \<noteq> 0 then s(i := BIO_set_retry_read (s i)) else s)
         else (ret, [], s))"

definition mem_write :: "allocator \<Rightarrow> (nat \<Rightarrow> u8) \<Rightarrow> mem_store \<Rightarrow> nat \<Rightarrow> bytes \<Rightarrow> int \<times> mem_store" where
  "mem_write al fresh s i inp =
     (let b = mem_ptr s i; inl = int (length inp)
      in if rdonly (s i) then (-1, s)
         else
           let s = s(i := BIO_clear_retry_flags (s i));
               blen = to_int (int (buf_length (mem_buf b)))
           in if INT_MAX - blen < inl then (-1, s)
              else
                let len = nat ((blen + inl) mod int size_lim)
                in case BUF_MEM_grow_clean al fresh (mem_buf b) len of
                     (r, m) \<Rightarrow>
                       if r \<noteq> len then (-1, set_mem i (b\<lparr>mem_buf := m\<rparr>) s)
                       else (inl, set_mem i (b\<lparr>mem_buf := m\<lparr>buf_data := blit (nat blen) inp (buf_data m)\<rparr>\<rparr>) s))"

text \<open>The scan for the end of the line: the number of bytes up to and with the first newline, at most \<open>j\<close>.\<close>

definition line_end :: "bytes \<Rightarrow> nat \<Rightarrow> nat" where
  "line_end p j =
     (let i = length (takeWhile (\<lambda>c. c \<noteq> 10) (take j p)) in if i < j then i + 1 else i)"

definition mem_gets :: "mem_store \<Rightarrow> nat \<Rightarrow> int \<Rightarrow> int \<times> bytes \<times> mem_store" where
  "mem_gets s i sz =
     (let b = mem_ptr s i;
          s = s(i := BIO_clear_retry_flags (s i));
          j = to_int (int (buf_length (mem_buf b)));
          j = (if sz - 1 < j then sz - 1 else j)
      in if j \<le> 0 then (0, if sz > 0 then [0] else [], s)
         else
           (case mem_read s i (int (line_end (buf_data (mem_buf b)) (nat j))) of
              (r, out, s) \<Rightarrow> (r, if r > 0 then out @ [0] else out, s)))"

definition mem_ctrl :: "mem_store \<Rightarrow> nat \<Rightarrow> mem_st bio_cmd \<Rightarrow> int \<Rightarrow> int \<times> mem_store" where
  "mem_ctrl s i cmd num =
     (let b = mem_ptr s i; m = mem_buf b
      in case cmd of
           BIO_CTRL_RESET \<Rightarrow>
             (1, set_mem i
                   (if rdonly (s i) then
                      (let k = length (mem_skipped b) - (mem_max b - buf_length m)
                       in b\<lparr>mem_skipped := take k (mem_skipped b),
                            mem_buf := \<lparr>buf_length = mem_max b, buf_data = drop k (mem_skipped b) @ buf_data m\<rparr>\<rparr>)
                    else b\<lparr>mem_buf := \<lparr>buf_length = 0, buf_data = replicate (buf_max m) 0\<rparr>\<rparr>) s)
         | BIO_CTRL_EOF other \<Rightarrow> (if buf_length m = 0 then 1 else 0, s)
         | BIO_C_SET_BUF_MEM_EOF_RETURN \<Rightarrow> (1, s(i := (s i)\<lparr>bio_num := to_int num\<rparr>))
         | BIO_CTRL_INFO \<Rightarrow> (int (buf_length m), s)
         | BIO_C_SET_BUF_MEM p \<Rightarrow>
             (1, let s = mem_free s i in s(i := (s i)\<lparr>bio_shutdown := to_int num, bio_ptr := p\<rparr>))
         | BIO_C_GET_BUF_MEM_PTR \<Rightarrow> (1, s)
         | BIO_CTRL_GET_CLOSE \<Rightarrow> (bio_shutdown (s i), s)
         | BIO_CTRL_SET_CLOSE \<Rightarrow> (1, s(i := (s i)\<lparr>bio_shutdown := to_int num\<rparr>))
         | BIO_CTRL_WPENDING \<Rightarrow> (0, s)
         | BIO_CTRL_PENDING \<Rightarrow> (int (buf_length m), s)
         | BIO_CTRL_FLUSH \<Rightarrow> (1, s)
         | _ \<Rightarrow> (0, s))"

definition mem_method :: "allocator \<Rightarrow> (nat \<Rightarrow> u8) \<Rightarrow> mem_st bio_method_st" where
  "mem_method al fresh = \<lparr>bwrite = Some (mem_write al fresh), bread = Some mem_read, bgets = Some mem_gets,
     bctrl = Some mem_ctrl, bcreate = Some mem_new\<rparr>"

text \<open>
  \<open>buf\<close> is \<open>None\<close> for NULL; the new BIO is put at the free index \<open>i\<close>. The code calls \<open>strlen\<close>
  for a negative length before it looks at the pointer.
\<close>

definition BIO_new_mem_buf ::
  "allocator \<Rightarrow> (nat \<Rightarrow> u8) \<Rightarrow> mem_store \<Rightarrow> nat \<Rightarrow> bytes option \<Rightarrow> int \<Rightarrow> nat option \<times> mem_store" where
  "BIO_new_mem_buf al fresh s i buf len =
     (let size = (if len < 0 then strlen (the buf) else nat len)
      in if buf = None \<and> len \<noteq> 0 then (None, s)
         else
           (case BIO_new al (mem_method al fresh) s i of
              (None, s) \<Rightarrow> (None, s)
            | (Some i, s) \<Rightarrow>
                let data = (case buf of None \<Rightarrow> [] | Some d \<Rightarrow> take size d);
                    s = set_mem i \<lparr>mem_skipped = [], mem_buf = \<lparr>buf_length = size, buf_data = data\<rparr>\<rparr> s
                in (Some i, s(i := (s i)\<lparr>bio_flags := bio_flags (s i) OR BIO_FLAGS_MEM_RDONLY, bio_num := 0\<rparr>))))"

definition BIO_mem_contents :: "mem_store \<Rightarrow> nat \<Rightarrow> bytes" where
  "BIO_mem_contents s i = buf_bytes (mem_buf (mem_ptr s i))"

definition BIO_set_mem_buf ::
  "allocator \<Rightarrow> (nat \<Rightarrow> u8) \<Rightarrow> mem_store \<Rightarrow> nat option \<Rightarrow> mem_st option \<Rightarrow> int \<Rightarrow> int \<times> mem_store" where
  "BIO_set_mem_buf al fresh s bio b take_ownership =
     BIO_ctrl (mem_method al fresh) s bio (BIO_C_SET_BUF_MEM b) take_ownership"

definition BIO_set_mem_eof_return ::
  "allocator \<Rightarrow> (nat \<Rightarrow> u8) \<Rightarrow> mem_store \<Rightarrow> nat option \<Rightarrow> int \<Rightarrow> int \<times> mem_store" where
  "BIO_set_mem_eof_return al fresh s bio eof_value =
     BIO_ctrl (mem_method al fresh) s bio BIO_C_SET_BUF_MEM_EOF_RETURN eof_value"


subsection \<open>Well-formed memory BIOs\<close>

definition mem_ok :: "nat \<Rightarrow> mem_store \<Rightarrow> bool" where
  "mem_ok i s \<longleftrightarrow> bio_init (s i) \<and> bio_ptr (s i) \<noteq> None \<and> wf_buf_mem (mem_buf (mem_ptr s i)) \<and>
     int (buf_length (mem_buf (mem_ptr s i))) \<le> INT_MAX \<and>
     (if rdonly (s i) then buf_length (mem_buf (mem_ptr s i)) = buf_max (mem_buf (mem_ptr s i))
      else mem_skipped (mem_ptr s i) = [])"

lemma mem_ptr_simps [simp]:
  "mem_ptr (set_mem i b s) k = (if k = i then b else mem_ptr s k)"
  "bio_init (set_mem i b s k) = bio_init (s k)" "bio_num (set_mem i b s k) = bio_num (s k)"
  "rdonly (set_mem i b s k) = rdonly (s k)" "bio_ptr (set_mem i b s k) = (if k = i then Some b else bio_ptr (s k))"
  by (auto simp: set_mem_def mem_ptr_def rdonly_def)

lemma mem_ptr_upd [simp]: "bio_ptr b = bio_ptr (s i) \<Longrightarrow> mem_ptr (s(i := b)) k = mem_ptr s k"
  by (simp add: mem_ptr_def)

lemma rdonly_retry [simp]:
  "rdonly (BIO_clear_retry_flags b) = rdonly b" "rdonly (BIO_set_retry_read b) = rdonly b"
  "rdonly (b\<lparr>bio_num_read := n\<rparr>) = rdonly b" "rdonly (b\<lparr>bio_num_write := n\<rparr>) = rdonly b"
proof -
  have "NOT kRetryFlags AND BIO_FLAGS_MEM_RDONLY = BIO_FLAGS_MEM_RDONLY"
    "(BIO_FLAGS_READ OR BIO_FLAGS_SHOULD_RETRY) AND BIO_FLAGS_MEM_RDONLY = 0"
    by (simp_all add: bio_flag_defs)
  then show "rdonly (BIO_clear_retry_flags b) = rdonly b" "rdonly (BIO_set_retry_read b) = rdonly b"
    by (simp_all add: rdonly_def BIO_clear_retry_flags_def BIO_set_retry_read_def and.assoc bit.conj_disj_distrib2)
qed (simp_all add: rdonly_def)

lemma BIO_mem_contents_simps [simp]:
  "BIO_mem_contents (set_mem i b s) k = (if k = i then buf_bytes (mem_buf b) else BIO_mem_contents s k)"
  "bio_ptr b' = bio_ptr (s i) \<Longrightarrow> BIO_mem_contents (s(i := b')) k = BIO_mem_contents s k"
  by (simp_all add: BIO_mem_contents_def)

lemma mem_ok_upd:
  "bio_ptr b = bio_ptr (s i) \<Longrightarrow> bio_init b = bio_init (s i) \<Longrightarrow> rdonly b = rdonly (s i) \<Longrightarrow>
   mem_ok i (s(i := b)) = mem_ok i s"
  by (simp add: mem_ok_def)

lemma contents_length: "mem_ok i s \<Longrightarrow> length (BIO_mem_contents s i) = buf_length (mem_buf (mem_ptr s i))"
  by (simp add: mem_ok_def BIO_mem_contents_def buf_bytes_def wf_buf_mem_def min_absorb2)

text \<open>What a read leaves alone, and the whole block of a read-only BIO, read or not.\<close>

definition mem_block :: "mem_store \<Rightarrow> nat \<Rightarrow> bytes" where
  "mem_block s i = mem_skipped (mem_ptr s i) @ buf_data (mem_buf (mem_ptr s i))"

lemma mem_block_simps [simp]:
  "bio_ptr b' = bio_ptr (s i) \<Longrightarrow> mem_block (s(i := b')) k = mem_block s k"
  by (simp add: mem_block_def)

definition same_mode :: "nat \<Rightarrow> mem_store \<Rightarrow> mem_store \<Rightarrow> bool" where
  "same_mode i s s' \<longleftrightarrow> bio_num (s' i) = bio_num (s i) \<and> rdonly (s' i) = rdonly (s i) \<and>
     (rdonly (s i) \<longrightarrow> mem_block s' i = mem_block s i)"

lemma mem_read_ok:
  assumes ok: "mem_ok i s" and n: "0 < n" "n \<le> INT_MAX" and ne: "BIO_mem_contents s i \<noteq> []"
  defines "k \<equiv> min (nat n) (length (BIO_mem_contents s i))"
  obtains s' where "mem_read s i n = (int k, take k (BIO_mem_contents s i), s')"
    "BIO_mem_contents s' i = drop k (BIO_mem_contents s i)" "mem_ok i s'" "same_mode i s s'"
proof -
  let ?b = "mem_ptr s i"
  let ?l = "buf_length (mem_buf ?b)" and ?d = "buf_data (mem_buf ?b)"
  let ?s = "s(i := BIO_clear_retry_flags (s i))"
  have wf: "?l \<le> length ?d" "length ?d < size_lim" "int ?l \<le> INT_MAX" "bio_init (s i)"
    using ok by (auto simp: mem_ok_def wf_buf_mem_def)
  have l: "length (BIO_mem_contents s i) = ?l" "0 < ?l"
    using contents_length [OF ok] ne by (simp, metis length_greater_0_conv)
  have c: "BIO_mem_contents s i = take ?l ?d" by (simp add: BIO_mem_contents_def buf_bytes_def)
  have k: "0 < k" "k \<le> ?l" using n l by (auto simp: k_def)
  have ret: "(if int ?l < INT_MAX \<and> n > int ?l then int ?l else n) = int k"
    using n wf(3) l by (auto simp: k_def)
  have t: "take k (take ?l ?d) = take k ?d" using k(2) by (simp add: min_absorb1)
  let ?b' = "if rdonly (s i)
    then ?b\<lparr>mem_skipped := mem_skipped ?b @ take k ?d, mem_buf := \<lparr>buf_length = ?l - k, buf_data = drop k ?d\<rparr>\<rparr>
    else ?b\<lparr>mem_buf := \<lparr>buf_length = ?l - k, buf_data = blit 0 (take (?l - k) (drop k ?d)) ?d\<rparr>\<rparr>"
  let ?s' = "set_mem i ?b' ?s"
  have "mem_read s i n = (int k, take k ?d, ?s')"
    unfolding mem_read_def Let_def ret using k(1) by simp
  moreover have "take (?l - k) (blit 0 (take (?l - k) (drop k ?d)) ?d) = take (?l - k) (drop k ?d)"
    using take_blit [of 0 "take (?l - k) (drop k ?d)" ?d] wf(1) by (simp add: min_absorb1 blit_def)
  then have "BIO_mem_contents ?s' i = drop k (BIO_mem_contents s i)"
    by (auto simp: c buf_bytes_def drop_take)
  moreover have "mem_ok i ?s'"
    using ok wf(1,3) by (auto simp: mem_ok_def wf_buf_mem_def)
  moreover have "same_mode i s ?s'" by (simp add: same_mode_def mem_block_def)
  ultimately show thesis using t by (intro that [of ?s']) (simp_all add: c)
qed

lemma mem_write_ok:
  assumes ok: "mem_ok i s" and ro: "\<not> rdonly (s i)" and ne: "inp \<noteq> []"
    and w: "mem_write al fresh s i inp = (r, s')"
  shows "mem_ok i s' \<and> same_mode i s s' \<and>
    (r = int (length inp) \<and> BIO_mem_contents s' i = BIO_mem_contents s i @ inp \<or>
     r = -1 \<and> BIO_mem_contents s' i = BIO_mem_contents s i)"
proof -
  let ?b = "mem_ptr s i" and ?s = "s(i := BIO_clear_retry_flags (s i))"
  let ?m = "mem_buf ?b"
  let ?l = "buf_length ?m" and ?n = "length inp"
  have wf: "wf_buf_mem ?m" "int ?l \<le> INT_MAX" using ok by (auto simp: mem_ok_def)
  have blen: "to_int (int ?l) = int ?l" using wf(2) by (simp add: to_int_id)
  show ?thesis
  proof (cases "INT_MAX - int ?l < int ?n")
    case True
    then have "(r, s') = (-1, ?s)" using w ro by (simp add: mem_write_def blen Let_def)
    with ok show ?thesis by (auto simp: mem_ok_upd same_mode_def)
  next
    case False
    have len: "nat ((int ?l + int ?n) mod int size_lim) = ?l + ?n" "?l + ?n < size_lim" "?l + ?n \<noteq> 0"
      using False ne by (auto simp flip: of_nat_add)
    obtain g m where g: "BUF_MEM_grow_clean al fresh ?m (?l + ?n) = (g, m)" by fastforce
    have G: "wf_buf_mem m" "g = 0 \<and> m = ?m \<or>
        g = ?l + ?n \<and> buf_bytes m = take (?l + ?n) (buf_bytes ?m @ replicate (?l + ?n) 0)"
      using BUF_MEM_grow_ok [OF wf(1) len(2), of al fresh] g
      by (auto simp: BUF_MEM_grow_clean_def split: if_splits)
    have eq: "(r, s') =
        (if g \<noteq> ?l + ?n then (-1, set_mem i (?b\<lparr>mem_buf := m\<rparr>) ?s)
         else (int ?n, set_mem i (?b\<lparr>mem_buf := m\<lparr>buf_data := blit ?l inp (buf_data m)\<rparr>\<rparr>) ?s))"
      unfolding w [symmetric] mem_write_def Let_def blen using ro False len(1) g by simp
    show ?thesis
    proof (cases "g = ?l + ?n")
      case True
      have B: "length (buf_bytes ?m) = ?l" using wf(1) by (simp add: buf_bytes_def wf_buf_mem_def)
      then have m: "buf_bytes m = buf_bytes ?m @ replicate ?n 0" using G(2) True len(3) by auto
      then have ml: "buf_length m = ?l + ?n" "?l + ?n \<le> buf_max m"
        using G(1) B by (auto simp: buf_bytes_def wf_buf_mem_def dest: arg_cong [of _ _ length])
      have "take ?l (buf_data m) = take ?l (buf_bytes m)" by (simp add: buf_bytes_def ml min_absorb1)
      also have "\<dots> = buf_bytes ?m" using B by (simp add: m)
      finally have "take (?l + ?n) (blit ?l inp (buf_data m)) = buf_bytes ?m @ inp"
        using take_blit_end [of ?l "buf_data m" inp] ml by simp
      then show ?thesis
        using eq True ok ro G(1) False ml
        by (auto simp: mem_ok_def same_mode_def wf_buf_mem_def BIO_mem_contents_def buf_bytes_def)
    next
      case False
      with G(2) have "m = ?m" by auto
      with eq False ok show ?thesis
        by (auto simp: mem_ok_def same_mode_def BIO_mem_contents_def mem_block_def)
    qed
  qed
qed

lemma mem_write_rdonly: "rdonly (s i) \<Longrightarrow> mem_write al fresh s i inp = (-1, s)"
  by (simp add: mem_write_def Let_def)

text \<open>The C text of a line: the bytes up to and with the first newline.\<close>

definition first_line :: "bytes \<Rightarrow> bytes" where
  "first_line p = takeWhile (\<lambda>c. c \<noteq> 10) p @ take 1 (dropWhile (\<lambda>c. c \<noteq> 10) p)"

lemma take_line_end: "take (line_end p j) p = first_line (take j p)"
proof -
  let ?P = "\<lambda>c :: u8. c \<noteq> 10"
  let ?q = "take j p" and ?i = "length (takeWhile ?P (take j p))"
  have split: "takeWhile ?P ?q @ dropWhile ?P ?q = ?q" by simp
  have le: "?i \<le> length ?q" by (rule length_takeWhile_le)
  show ?thesis
  proof (cases "?i < length ?q")
    case True
    then have "line_end p j = ?i + 1" by (simp add: line_end_def Let_def)
    moreover have "take (?i + 1) p = take (?i + 1) ?q" using True by (simp add: min_absorb1)
    moreover have "take (?i + 1) (takeWhile ?P ?q @ dropWhile ?P ?q) = first_line ?q"
      by (simp add: first_line_def del: takeWhile_dropWhile_id)
    ultimately show ?thesis by (simp only: split)
  next
    case False
    with le have i: "?i = length ?q" by (metis le_neq_implies_less)
    then have w: "takeWhile ?P ?q = ?q" by (metis append_eq_conv_conj split take_all_iff order_refl)
    then have "dropWhile ?P ?q = []" using split by (metis append_self_conv)
    then have "first_line ?q = ?q" by (simp add: first_line_def w)
    moreover have "length p \<le> line_end p j \<and> length p \<le> j \<or> line_end p j = j"
      using i by (auto simp: line_end_def Let_def)
    then have "take (line_end p j) p = ?q" by auto
    ultimately show ?thesis by simp
  qed
qed

lemma mem_gets_ok:
  assumes ok: "mem_ok i s" and n: "1 < n" "n \<le> INT_MAX" and ne: "BIO_mem_contents s i \<noteq> []"
  defines "line \<equiv> first_line (take (nat n - 1) (BIO_mem_contents s i))"
  obtains s' where "mem_gets s i n = (int (length line), line @ [0], s')"
    "BIO_mem_contents s i = line @ BIO_mem_contents s' i" "mem_ok i s'" "same_mode i s s'"
proof -
  let ?b = "mem_ptr s i" and ?s = "s(i := BIO_clear_retry_flags (s i))"
  let ?l = "buf_length (mem_buf ?b)" and ?d = "buf_data (mem_buf ?b)"
  let ?j = "min (nat n - 1) ?l"
  let ?k = "line_end ?d ?j"
  have l: "?l \<le> length ?d" "int ?l \<le> INT_MAX" using ok by (auto simp: mem_ok_def wf_buf_mem_def)
  have c: "BIO_mem_contents s i = take ?l ?d" by (simp add: BIO_mem_contents_def buf_bytes_def)
  have j: "0 < ?j" "?j \<le> ?l" using n ne c by auto
  have jint: "(if n - 1 < int ?l then n - 1 else int ?l) = int ?j" using n by auto
  have k: "0 < ?k" "?k \<le> ?j"
    using j(1) length_takeWhile_le [of "\<lambda>c. c \<noteq> 10" "take ?j ?d"] by (auto simp: line_end_def Let_def)
  have ok': "mem_ok i ?s" and c': "BIO_mem_contents ?s i = BIO_mem_contents s i"
    using ok by (simp_all add: mem_ok_upd)
  have "take (nat n - 1) (BIO_mem_contents s i) = take ?j ?d" by (simp add: c)
  then have line: "line = take ?k (BIO_mem_contents s i)"
    using k(2) j(2) by (simp add: line_def take_line_end [symmetric] c min_absorb1)
  have kn: "0 < int ?k" "int ?k \<le> INT_MAX" using k j(2) l(2) by auto
  have kc: "?k \<le> length (BIO_mem_contents s i)" using k(2) j(2) l(1) by (simp add: c)
  obtain s' where r: "mem_read ?s i (int ?k) = (int (min (nat (int ?k)) (length (BIO_mem_contents ?s i))),
      take (min (nat (int ?k)) (length (BIO_mem_contents ?s i))) (BIO_mem_contents ?s i), s')"
    "BIO_mem_contents s' i = drop (min (nat (int ?k)) (length (BIO_mem_contents ?s i))) (BIO_mem_contents ?s i)"
    "mem_ok i s'" "same_mode i ?s s'"
    by (rule mem_read_ok [OF ok' kn]) (use ne c' in auto)
  have r': "mem_read ?s i (int ?k) = (int ?k, line, s')" "BIO_mem_contents s' i = drop ?k (BIO_mem_contents s i)"
    using r(1,2) kc by (simp_all add: line min_absorb1)
  have "mem_gets s i n = (int ?k, line @ [0], s')"
  proof -
    have nz: "\<not> int ?j \<le> 0" using j(1) by simp
    show ?thesis
      unfolding mem_gets_def Let_def to_int_id [OF of_nat_0_le_iff l(2)] jint if_not_P [OF nz] nat_int
        mem_ptr_def [symmetric]
      using r'(1) k(1) by simp
  qed
  moreover have "length line = ?k" using kc by (simp add: line)
  moreover have "same_mode i s s'" using r(4) by (simp add: same_mode_def)
  ultimately show thesis using r(3) r'(2) by (intro that [of s']) (simp_all add: line)
qed

subsection \<open>Runs of a memory BIO\<close>

text \<open>
  \<open>ro\<close> is \<open>None\<close> for a BIO that can be written and the data it was made on for a read-only one; \<open>q\<close>
  holds the bytes still to read.
\<close>

definition mem_inv :: "nat \<Rightarrow> bytes option \<Rightarrow> bytes \<Rightarrow> mem_store \<Rightarrow> bool" where
  "mem_inv i ro q s \<longleftrightarrow> mem_ok i s \<and> BIO_mem_contents s i = q \<and>
     (case ro of None \<Rightarrow> \<not> rdonly (s i) | Some d \<Rightarrow> rdonly (s i) \<and> mem_block s i = d)"

lemma mem_inv_mode:
  "mem_inv i ro q s \<Longrightarrow> mem_ok i s' \<Longrightarrow> same_mode i s s' \<Longrightarrow> mem_inv i ro (BIO_mem_contents s' i) s'"
  by (auto simp: mem_inv_def same_mode_def split: option.splits)

lemma mem_inv_upd:
  "bio_ptr b = bio_ptr (s i) \<Longrightarrow> bio_init b = bio_init (s i) \<Longrightarrow> rdonly b = rdonly (s i) \<Longrightarrow>
   mem_inv i ro q (s(i := b)) = mem_inv i ro q s"
  by (cases ro) (simp_all add: mem_inv_def mem_ok_upd)

lemma BIO_read_mem:
  assumes inv: "mem_inv i ro q s" and n: "0 < n" "n \<le> INT_MAX"
  obtains s' where "BIO_read (mem_method al fresh) s (Some i) n =
      (if q = [] then bio_num (s i) else int (length (take (nat n) q)), take (nat n) q, s')"
    "mem_inv i ro (drop (nat n) q) s'" "bio_num (s' i) = bio_num (s i)"
    "q = [] \<Longrightarrow> BIO_should_retry (s' i) \<longleftrightarrow> bio_num (s i) \<noteq> 0"
proof (cases "q = []")
  case True
  let ?s = "s(i := BIO_clear_retry_flags (s i))"
  let ?s1 = "if bio_num (s i) \<noteq> 0 then ?s(i := BIO_set_retry_read (?s i)) else ?s"
  let ?s2 = "if bio_num (s i) > 0
    then ?s1(i := (?s1 i)\<lparr>bio_num_read := bio_num_read (?s1 i) + word_of_int (bio_num (s i))\<rparr>) else ?s1"
  have ok: "mem_ok i s" and c: "BIO_mem_contents s i = []" using inv True by (auto simp: mem_inv_def)
  then have l: "buf_length (mem_buf (mem_ptr s i)) = 0" using contents_length [OF ok] by simp
  have "mem_read s i n = (bio_num (s i), [], ?s1)"
    using n by (simp add: mem_read_def Let_def l)
  then have "BIO_read (mem_method al fresh) s (Some i) n = (bio_num (s i), [], ?s2)"
    using ok n by (simp add: BIO_read_def mem_method_def mem_ok_def)
  moreover have "mem_inv i ro [] ?s2" using inv True by (auto simp: mem_inv_upd)
  moreover have "bio_num (?s2 i) = bio_num (s i)" by simp
  moreover have "BIO_should_retry (b\<lparr>bio_num_read := k\<rparr>) = BIO_should_retry b" for b :: "mem_st bio_st" and k
    by (simp add: BIO_should_retry_def BIO_test_flags_def)
  then have "BIO_should_retry (?s2 i) \<longleftrightarrow> bio_num (s i) \<noteq> 0" by simp
  ultimately show thesis using True by (intro that [of ?s2]) auto
next
  case False
  have ok: "mem_ok i s" and c: "BIO_mem_contents s i = q" using inv by (auto simp: mem_inv_def)
  let ?k = "min (nat n) (length q)"
  obtain s' where r: "mem_read s i n = (int ?k, take ?k q, s')"
    "BIO_mem_contents s' i = drop ?k q" "mem_ok i s'" "same_mode i s s'"
    using mem_read_ok [OF ok n] False unfolding c by metis
  let ?s2 = "s'(i := (s' i)\<lparr>bio_num_read := bio_num_read (s' i) + word_of_int (int ?k)\<rparr>)"
  have k: "0 < ?k" "take ?k q = take (nat n) q" "drop ?k q = drop (nat n) q" using n False by (auto simp: min_def)
  have "BIO_read (mem_method al fresh) s (Some i) n = (int ?k, take (nat n) q, ?s2)"
    using ok n r(1) k by (simp add: BIO_read_def mem_method_def mem_ok_def)
  moreover have "mem_inv i ro (drop (nat n) q) ?s2"
    using mem_inv_mode [OF inv r(3,4)] r(2) k(3) by (simp add: mem_inv_upd)
  moreover have "int ?k = int (length (take (nat n) q))" by (simp add: min.commute)
  ultimately show thesis using False r(4) by (intro that [of ?s2]) (auto simp: same_mode_def)
qed

lemma BIO_gets_mem:
  assumes inv: "mem_inv i ro q s" and n: "n \<le> INT_MAX"
    and g: "BIO_gets (mem_method al fresh) s (Some i) n = (r, out, s')"
  shows "mem_inv i ro (drop (nat r) q) s' \<and> (n > 0 \<longrightarrow>
    out = first_line (take (nat n - 1) q) @ [0] \<and> r = int (length (first_line (take (nat n - 1) q))))"
proof -
  have ok: "mem_ok i s" and c: "BIO_mem_contents s i = q" using inv by (auto simp: mem_inv_def)
  consider "n \<le> 0" | "0 < n" "n = 1 \<or> q = []" | "1 < n" "q \<noteq> []" by linarith
  then show ?thesis
  proof cases
    case 1
    then show ?thesis using inv g ok by (simp add: BIO_gets_def mem_method_def mem_ok_def)
  next
    case 2
    let ?s = "s(i := BIO_clear_retry_flags (s i))"
    have l: "buf_length (mem_buf (mem_ptr s i)) = length q" "int (length q) \<le> INT_MAX"
      using contents_length [OF ok] ok c by (auto simp: mem_ok_def)
    have "mem_gets s i n = (0, [0], ?s)"
      using 2 to_int_id [OF of_nat_0_le_iff l(2)] by (auto simp: mem_gets_def Let_def l)
    then have "(r, out, s') = (0, [0], ?s)"
      using g ok 2 by (simp add: BIO_gets_def mem_method_def mem_ok_def)
    with 2 inv show ?thesis by (auto simp: mem_inv_upd first_line_def)
  next
    case 3
    let ?line = "first_line (take (nat n - 1) q)"
    obtain s1 where r: "mem_gets s i n = (int (length ?line), ?line @ [0], s1)"
      "q = ?line @ BIO_mem_contents s1 i" "mem_ok i s1" "same_mode i s s1"
      using mem_gets_ok [OF ok 3(1) n] 3(2) unfolding c by metis
    have "r = int (length ?line)" "out = ?line @ [0]"
      "s' = (if ?line \<noteq> [] then s1(i := (s1 i)\<lparr>bio_num_read := bio_num_read (s1 i) + word_of_int (int (length ?line))\<rparr>) else s1)"
      using g ok 3 r(1) by (auto simp: BIO_gets_def mem_method_def mem_ok_def)
    moreover have "drop (length ?line) q = BIO_mem_contents s1 i" using r(2) by (metis append_eq_conv_conj)
    ultimately show ?thesis using mem_inv_mode [OF inv r(3,4)] by (simp add: mem_inv_upd)
  qed
qed

lemma BIO_write_mem:
  assumes inv: "mem_inv i ro q s" and w: "BIO_write (mem_method al fresh) s (Some i) inp = (r, s')"
  shows "mem_inv i ro (if r > 0 then q @ inp else q) s' \<and> (r > 0 \<longrightarrow> ro = None \<and> r = int (length inp)) \<and>
    (ro \<noteq> None \<and> inp \<noteq> [] \<longrightarrow> r = -1)"
proof -
  have ok: "mem_ok i s" and c: "BIO_mem_contents s i = q" using inv by (auto simp: mem_inv_def)
  consider "inp = []" | "inp \<noteq> []" "rdonly (s i)" | "inp \<noteq> []" "\<not> rdonly (s i)" by blast
  then show ?thesis
  proof cases
    case 1
    then show ?thesis using inv w ok by (auto simp: BIO_write_def mem_method_def mem_ok_def)
  next
    case 2
    then show ?thesis
      using inv w ok by (auto simp: BIO_write_def mem_method_def mem_ok_def mem_write_rdonly)
  next
    case 3
    then have ro: "ro = None" using inv by (cases ro) (auto simp: mem_inv_def)
    obtain r1 s1 where w1: "mem_write al fresh s i inp = (r1, s1)" by fastforce
    note W = mem_write_ok [OF ok 3(2,1) w1]
    have "r = r1" "s' = (if r1 > 0 then s1(i := (s1 i)\<lparr>bio_num_write := bio_num_write (s1 i) + word_of_int r1\<rparr>) else s1)"
      using w ok 3 w1 by (auto simp: BIO_write_def mem_method_def mem_ok_def)
    moreover have "mem_inv i ro (BIO_mem_contents s1 i) s1" using mem_inv_mode [OF inv] W by blast
    ultimately show ?thesis using W ro c 3 by (auto simp: mem_inv_upd)
  qed
qed

lemma BIO_reset_mem:
  assumes inv: "mem_inv i ro q s" and r: "BIO_reset (mem_method al fresh) s (Some i) = (r, s')"
    and ro: "case ro of None \<Rightarrow> True | Some d \<Rightarrow> int (length d) \<le> INT_MAX"
  shows "mem_inv i ro (case ro of None \<Rightarrow> [] | Some d \<Rightarrow> d) s'"
proof -
  let ?b = "mem_ptr s i"
  have ok: "mem_ok i s" using inv by (simp add: mem_inv_def)
  have s': "s' = snd (mem_ctrl s i BIO_CTRL_RESET 0)"
    using r by (simp add: BIO_reset_def BIO_ctrl_def mem_method_def)
  show ?thesis
  proof (cases ro)
    case None
    with inv s' ok show ?thesis
      by (simp add: mem_inv_def mem_ctrl_def Let_def mem_ok_def wf_buf_mem_def buf_bytes_def)
  next
    case (Some d)
    then have d: "rdonly (s i)" "d = mem_skipped ?b @ buf_data (mem_buf ?b)"
      "buf_length (mem_buf ?b) = buf_max (mem_buf ?b)"
      using inv by (auto simp: mem_inv_def mem_block_def mem_ok_def)
    then have "s' = set_mem i (?b\<lparr>mem_skipped := [], mem_buf := \<lparr>buf_length = length d, buf_data = d\<rparr>\<rparr>) s"
      using s' by (simp add: mem_ctrl_def Let_def)
    moreover have "length d < size_lim" using ro Some by simp
    ultimately show ?thesis
      using Some d(1) ok ro by (simp add: mem_inv_def mem_ok_def wf_buf_mem_def buf_bytes_def mem_block_def)
  qed
qed

lemma BIO_new_mem:
  assumes "BIO_new al (mem_method al fresh) s0 i = (Some k, s)"
  shows "k = i" "mem_inv i None [] s" "bio_num (s i) = -1"
  using assms
  by (auto simp: BIO_new_def mem_method_def mem_new_def BUF_MEM_new_def mem_inv_def mem_ok_def wf_buf_mem_def
      BIO_mem_contents_def mem_ptr_def buf_bytes_def rdonly_def split: if_splits)

text \<open>The data a read-only BIO is made on.\<close>

definition mem_buf_data :: "bytes option \<Rightarrow> int \<Rightarrow> bytes" where
  "mem_buf_data buf len =
     (case buf of None \<Rightarrow> [] | Some d \<Rightarrow> if len < 0 then cstr d else take (nat len) d)"

lemma BIO_new_mem_buf_ok:
  assumes new: "BIO_new_mem_buf al fresh s0 i buf len = (Some k, s)"
    and len: "len \<le> INT_MAX" "case buf of None \<Rightarrow> 0 \<le> len | Some d \<Rightarrow> len \<le> int (length d) \<and> int (strlen d) \<le> INT_MAX"
  shows "k = i \<and> mem_inv i (Some (mem_buf_data buf len)) (mem_buf_data buf len) s \<and> bio_num (s i) = 0"
proof -
  let ?d = "mem_buf_data buf len" and ?n = "if len < 0 then strlen (the buf) else nat len"
  have nl: "buf = None \<longrightarrow> len = 0" using new by (auto simp: BIO_new_mem_buf_def Let_def split: if_splits)
  obtain j s1 where b: "BIO_new al (mem_method al fresh) s0 i = (j, s1)" by fastforce
  with new nl have "j \<noteq> None" by (cases j) (auto simp: BIO_new_mem_buf_def Let_def split: if_splits)
  with b have s1: "BIO_new al (mem_method al fresh) s0 i = (Some i, s1)" using BIO_new_mem(1) by fastforce
  then have s: "k = i" "s = (let s = set_mem i \<lparr>mem_skipped = [], mem_buf = \<lparr>buf_length = ?n,
        buf_data = (case buf of None \<Rightarrow> [] | Some d \<Rightarrow> take ?n d)\<rparr>\<rparr> s1
      in s(i := (s i)\<lparr>bio_flags := bio_flags (s i) OR BIO_FLAGS_MEM_RDONLY, bio_num := 0\<rparr>))"
    using new nl by (auto simp: BIO_new_mem_buf_def Let_def split: if_splits)
  have n: "?n = length ?d" "(case buf of None \<Rightarrow> [] | Some d \<Rightarrow> take ?n d) = ?d"
    using len nl by (auto simp: mem_buf_data_def take_strlen strlen_cstr [symmetric] split: option.splits)
  have max: "int (length ?d) \<le> INT_MAX"
    using len by (auto simp: mem_buf_data_def strlen_cstr split: option.splits)
  have ro: "rdonly (b\<lparr>bio_flags := bio_flags b OR BIO_FLAGS_MEM_RDONLY, bio_num := 0\<rparr>)" for b :: "mem_st bio_st"
    by (simp add: rdonly_def bio_flag_defs bit.conj_disj_distrib2 word_or_eq_0)
  have "mem_ok i s1" using BIO_new_mem(2) [OF s1] by (simp add: mem_inv_def)
  then have "mem_inv i (Some ?d) ?d s" "bio_num (s i) = 0"
    unfolding s(2) n n(2) [unfolded n(1)] Let_def using max ro
    by (simp_all add: mem_inv_def mem_ok_def wf_buf_mem_def buf_bytes_def mem_block_def)
  with s(1) show ?thesis by simp
qed

text \<open>The calls made on one BIO, in any order.\<close>

inductive mem_run ::
  "allocator \<Rightarrow> (nat \<Rightarrow> u8) \<Rightarrow> nat \<Rightarrow> bytes option \<Rightarrow> bytes \<Rightarrow> mem_store \<Rightarrow> bool" for al fresh i where
  new: "BIO_new al (mem_method al fresh) s0 i = (Some i, s) \<Longrightarrow> mem_run al fresh i None [] s"
| new_buf: "BIO_new_mem_buf al fresh s0 i (Some d) (int (length d)) = (Some i, s) \<Longrightarrow>
    int (length d) \<le> INT_MAX \<Longrightarrow> mem_run al fresh i (Some d) d s"
| write_bytes: "mem_run al fresh i ro q s \<Longrightarrow> BIO_write (mem_method al fresh) s (Some i) inp = (r, s') \<Longrightarrow>
    mem_run al fresh i ro (if r > 0 then q @ inp else q) s'"
| read_bytes: "mem_run al fresh i ro q s \<Longrightarrow> n \<le> INT_MAX \<Longrightarrow>
    BIO_read (mem_method al fresh) s (Some i) n = (r, out, s') \<Longrightarrow>
    mem_run al fresh i ro (drop (length out) q) s'"
| read_line: "mem_run al fresh i ro q s \<Longrightarrow> n \<le> INT_MAX \<Longrightarrow>
    BIO_gets (mem_method al fresh) s (Some i) n = (r, line, s') \<Longrightarrow> mem_run al fresh i ro (drop (nat r) q) s'"
| reset: "mem_run al fresh i ro q s \<Longrightarrow> BIO_reset (mem_method al fresh) s (Some i) = (r, s') \<Longrightarrow>
    mem_run al fresh i ro (case ro of None \<Rightarrow> [] | Some d \<Rightarrow> d) s'"
| set_eof: "mem_run al fresh i ro q s \<Longrightarrow> BIO_set_mem_eof_return al fresh s (Some i) v = (r, s') \<Longrightarrow>
    mem_run al fresh i ro q s'"

lemma mem_run_inv:
  "mem_run al fresh i ro q s \<Longrightarrow> mem_inv i ro q s \<and> (case ro of None \<Rightarrow> True | Some d \<Rightarrow> int (length d) \<le> INT_MAX)"
proof (induction rule: mem_run.induct)
  case (new s0 s)
  then show ?case using BIO_new_mem(2) by simp
next
  case (new_buf s0 d s)
  have "int (strlen d) \<le> INT_MAX" using new_buf(2) by (simp add: strlen_def length_takeWhile_le [THEN order_trans])
  then show ?case using BIO_new_mem_buf_ok [OF new_buf(1)] new_buf(2) by (simp add: mem_buf_data_def)
next
  case (write_bytes ro q s inp r s')
  then show ?case using BIO_write_mem by blast
next
  case (read_bytes ro q s n r out s')
  show ?case
  proof (cases "n > 0")
    case True
    have inv: "mem_inv i ro q s" using read_bytes by simp
    obtain s1 where r: "BIO_read (mem_method al fresh) s (Some i) n =
        (if q = [] then bio_num (s i) else int (length (take (nat n) q)), take (nat n) q, s1)"
      "mem_inv i ro (drop (nat n) q) s1"
      by (rule BIO_read_mem [OF inv True read_bytes(2)])
    have "out = take (nat n) q" "s' = s1" using r(1) read_bytes(3) by auto
    moreover have "drop (length (take (nat n) q)) q = drop (nat n) q" by (simp add: min_def)
    ultimately show ?thesis using r(2) read_bytes by simp
  next
    case False
    then show ?thesis
      using read_bytes by (auto simp: BIO_read_def mem_method_def mem_inv_def mem_ok_def split: if_splits)
  qed
next
  case (read_line ro q s n r line s')
  then show ?case using BIO_gets_mem by blast
next
  case (reset ro q s r s')
  then show ?case using BIO_reset_mem [of i ro q s al fresh r s'] by (cases ro) auto
next
  case (set_eof ro q s v r s')
  then have e: "s' = s(i := (s i)\<lparr>bio_num := to_int v\<rparr>)"
    by (simp add: BIO_set_mem_eof_return_def BIO_ctrl_def mem_method_def mem_ctrl_def Let_def)
  have "mem_inv i ro q s" using set_eof by simp
  then have "mem_inv i ro q s'" unfolding e by (subst mem_inv_upd) (simp_all add: rdonly_def)
  with set_eof show ?case by blast
qed

subsection \<open>A memory BIO is a source\<close>

lemma mem_ok_inv: "mem_ok i s \<Longrightarrow> \<exists>ro. mem_inv i ro (BIO_mem_contents s i) s"
  by (cases "rdonly (s i)") (auto simp: mem_inv_def intro: exI [of _ None] exI [of _ "Some (mem_block s i)"])

definition mem_source_ok :: "nat \<Rightarrow> mem_store \<Rightarrow> bool" where
  "mem_source_ok i s \<longleftrightarrow> mem_ok i s \<and> bio_num (s i) \<in> {0, -1}"

interpretation mem_source: bio_source "mem_method al fresh" "Some i" "mem_source_ok i" "\<lambda>s. BIO_mem_contents s i"
  for al fresh i
proof unfold_locales
  fix s n assume s: "mem_source_ok i s" and n: "0 < n" "n \<le> INT_MAX"
  obtain ro where inv: "mem_inv i ro (BIO_mem_contents s i) s" using s mem_ok_inv by (auto simp: mem_source_ok_def)
  obtain s' where r: "BIO_read (mem_method al fresh) s (Some i) n =
      (if BIO_mem_contents s i = [] then bio_num (s i) else int (length (take (nat n) (BIO_mem_contents s i))),
       take (nat n) (BIO_mem_contents s i), s')"
    "mem_inv i ro (drop (nat n) (BIO_mem_contents s i)) s'" "bio_num (s' i) = bio_num (s i)"
    by (rule BIO_read_mem [OF inv n])
  have ok: "mem_source_ok i s'" "BIO_mem_contents s' i = drop (nat n) (BIO_mem_contents s i)"
    using r(2,3) s by (auto simp: mem_inv_def mem_source_ok_def)
  show "\<exists>k s'. 0 < k \<and> k \<le> nat n \<and> k \<le> length (BIO_mem_contents s i) \<and>
      BIO_read (mem_method al fresh) s (Some i) n = (int k, take k (BIO_mem_contents s i), s') \<and>
      BIO_mem_contents s' i = drop k (BIO_mem_contents s i) \<and> mem_source_ok i s'"
    if "BIO_mem_contents s i \<noteq> []"
    using r(1) ok n that
    by (intro exI [of _ "min (nat n) (length (BIO_mem_contents s i))"] exI [of _ s']) (auto simp: min_def)
  show "\<exists>r s'. r \<in> {0, -1} \<and> BIO_read (mem_method al fresh) s (Some i) n = (r, [], s') \<and>
      BIO_mem_contents s' i = [] \<and> mem_source_ok i s'"
    if "BIO_mem_contents s i = []"
    using r(1) ok s that by (intro exI [of _ "bio_num (s i)"] exI [of _ s']) (auto simp: mem_source_ok_def)
qed

subsection \<open>Properties\<close>

text \<open>
  C22: a memory BIO that can be written is a queue of bytes: the contents are the bytes accepted by the
  writes less those returned by the reads, in order, its size is the pending count, and a read from an
  empty one returns the value set for the end of the data, with the retry flag unless that is zero.
\<close>

theorem mem_bio_queue:
  assumes run: "mem_run al fresh i None q s" and n: "0 < n" "n \<le> INT_MAX"
  shows "BIO_mem_contents s i = q \<and> BIO_pending (mem_method al fresh) s (Some i) = length q \<and>
    (case BIO_read (mem_method al fresh) s (Some i) n of (r, out, s') \<Rightarrow>
      out = take (nat n) q \<and> BIO_mem_contents s' i = drop (nat n) q \<and>
      (if q = [] then r = bio_num (s i) \<and> (BIO_should_retry (s' i) \<longleftrightarrow> bio_num (s i) \<noteq> 0)
       else r = int (length out)))"
proof -
  have inv: "mem_inv i None q s" using mem_run_inv [OF run] by simp
  then have ok: "mem_ok i s" and c: "BIO_mem_contents s i = q" by (auto simp: mem_inv_def)
  have p: "BIO_pending (mem_method al fresh) s (Some i) = length q"
    using contents_length [OF ok] c
    by (simp add: BIO_pending_def BIO_ctrl_def mem_method_def mem_ctrl_def Let_def)
  obtain s' where "BIO_read (mem_method al fresh) s (Some i) n =
      (if q = [] then bio_num (s i) else int (length (take (nat n) q)), take (nat n) q, s')"
    "mem_inv i None (drop (nat n) q) s'" "q = [] \<Longrightarrow> BIO_should_retry (s' i) \<longleftrightarrow> bio_num (s i) \<noteq> 0"
    by (rule BIO_read_mem [OF inv n, where al = al and fresh = fresh]) (rule that, assumption+)
  with c p show ?thesis by (auto simp: mem_inv_def)
qed

text \<open>
  C23: a read-only memory BIO is a tape over the data it was made on: what is left to read is a
  suffix of the data, every write is refused, \<open>BIO_gets\<close> returns the next line or as much of it as
  fits with its terminating zero, and \<open>BIO_reset\<close> goes back to the start.
\<close>

theorem mem_bio_tape:
  assumes run: "mem_run al fresh i (Some d) q s" and n: "0 < n" "n \<le> INT_MAX" and inp: "inp \<noteq> []"
  shows "BIO_mem_contents s i = q \<and> (\<exists>k. q = drop k d) \<and>
    fst (BIO_write (mem_method al fresh) s (Some i) inp) = -1 \<and>
    (case BIO_gets (mem_method al fresh) s (Some i) n of (r, out, s') \<Rightarrow>
      out = first_line (take (nat n - 1) q) @ [0] \<and> q = butlast out @ BIO_mem_contents s' i) \<and>
    BIO_mem_contents (snd (BIO_reset (mem_method al fresh) s (Some i))) i = d"
proof -
  have inv: "mem_inv i (Some d) q s" and d: "int (length d) \<le> INT_MAX" using mem_run_inv [OF run] by auto
  then have ok: "mem_ok i s" and c: "BIO_mem_contents s i = q" and b: "mem_block s i = d" and ro: "rdonly (s i)"
    by (auto simp: mem_inv_def)
  have "q = buf_data (mem_buf (mem_ptr s i))"
    using ok ro c by (auto simp: mem_ok_def BIO_mem_contents_def buf_bytes_def)
  then have 1: "\<exists>k. q = drop k d" using b by (auto simp: mem_block_def intro: exI [of _ "length (mem_skipped (mem_ptr s i))"])
  have 2: "fst (BIO_write (mem_method al fresh) s (Some i) inp) = -1"
    using BIO_write_mem [OF inv] inp by (cases "BIO_write (mem_method al fresh) s (Some i) inp") fastforce
  obtain r out s' where g: "BIO_gets (mem_method al fresh) s (Some i) n = (r, out, s')"
    by (cases "BIO_gets (mem_method al fresh) s (Some i) n") auto
  let ?line = "first_line (take (nat n - 1) q)"
  have G: "mem_inv i (Some d) (drop (length ?line) q) s'" "out = ?line @ [0]"
    using BIO_gets_mem [OF inv n(2) g] n(1) by auto
  have "?line = take (line_end q (nat n - 1)) q" by (simp add: take_line_end)
  moreover have "take m q @ drop (length (take m q)) q = q" for m by (cases "m \<le> length q") auto
  ultimately have "?line @ drop (length ?line) q = q" by simp
  then have 3: "q = butlast out @ BIO_mem_contents s' i" using G by (simp add: mem_inv_def)
  have 4: "BIO_mem_contents (snd (BIO_reset (mem_method al fresh) s (Some i))) i = d"
    using BIO_reset_mem [OF inv, of al fresh] d
    by (cases "BIO_reset (mem_method al fresh) s (Some i)") (auto simp: mem_inv_def)
  show ?thesis unfolding g prod.case using c 1 2 3 4 G(2) by blast
qed

text \<open>
  C20: a DER element with a short tag, written into a memory BIO before other data, is what
  \<open>BIO_read_asn1\<close> returns, and the other data are what is left.
\<close>

theorem BIO_read_asn1_roundtrip:
  assumes run: "mem_run al fresh i ro (der_element tag body @ rest) s" and eof: "bio_num (s i) \<in> {0, -1}"
    and tag: "low_tag tag" and len: "int (length body) \<le> INT_MAX" "length (der_element tag body) \<le> max_len"
    and max: "max_len < size_lim" "al' (length (der_element tag body))"
  shows "\<exists>s'. BIO_read_asn1 al' (mem_method al fresh) s (Some i) max_len = Some (Some (der_element tag body), s') \<and>
    BIO_mem_contents s' i = rest"
proof -
  have "mem_inv i ro (der_element tag body @ rest) s" using mem_run_inv [OF run] by simp
  then have s: "mem_source_ok i s" "BIO_mem_contents s i = der_element tag body @ rest"
    using eof by (auto simp: mem_source_ok_def mem_inv_def)
  from mem_source.read_asn1_complete [OF s(1) max(1) s(2) tag len, of al', OF max(2)] show ?thesis by blast
qed

text \<open>
  C21: on every memory BIO whose value for the end of the data is one of the two defaults, 0 or -1, \<open>BIO_read_asn1\<close>
  returns, whatever the bytes are (the loop of \<open>bio_read_all\<close> ends), and what it returns is what it took from the front
  of the contents, at most \<open>max_len\<close> bytes. Other negative values, which \<open>BIO_set_mem_eof_return\<close> can set, are not
  covered: \<open>bio_read_all\<close> adds them to the number of bytes read.
\<close>

theorem BIO_read_asn1_terminates:
  assumes run: "mem_run al fresh i ro q s" and eof: "bio_num (s i) \<in> {0, -1}" and max: "max_len < size_lim"
  shows "\<exists>r s'. BIO_read_asn1 al' (mem_method al fresh) s (Some i) max_len = Some (r, s') \<and>
    (case r of None \<Rightarrow> True | Some out \<Rightarrow> q = out @ BIO_mem_contents s' i \<and> length out \<le> max_len)"
proof -
  have "mem_inv i ro q s" using mem_run_inv [OF run] by simp
  then have s: "mem_source_ok i s" "BIO_mem_contents s i = q"
    using eof by (auto simp: mem_source_ok_def mem_inv_def)
  from mem_source.read_asn1_sound [OF s(1) max, of al' al fresh] obtain r s' where
    "BIO_read_asn1 al' (mem_method al fresh) s (Some i) max_len = Some (r, s')"
    "\<forall>out. r = Some out \<longrightarrow> BIO_mem_contents s i = out @ BIO_mem_contents s' i \<and> length out \<le> max_len" by blast
  with s(2) show ?thesis by (intro exI [of _ r] exI [of _ s']) (simp split: option.split)
qed

text \<open>
  C26: an object in the indefinite form whose contents fill \<open>max_len\<close> bytes or more makes
  \<open>BIO_read_asn1\<close> fail: the loop gives up as soon as its block is full, also when exactly \<open>max_len\<close>
  bytes are there.
\<close>

theorem BIO_read_asn1_indefinite:
  assumes run: "mem_run al fresh i ro (tag # 0x80 # rest) s" and eof: "bio_num (s i) \<in> {0, -1}"
    and tag: "tag AND 0x1f \<noteq> 0x1f" "tag AND 0x20 \<noteq> 0" and max: "max_len < size_lim"
    and full: "max_len \<le> length (tag # 0x80 # rest)"
  shows "\<exists>s'. BIO_read_asn1 al' (mem_method al fresh) s (Some i) max_len = Some (None, s')"
proof -
  have "mem_inv i ro (tag # 0x80 # rest) s" using mem_run_inv [OF run] by simp
  then have s: "mem_source_ok i s" "BIO_mem_contents s i = tag # 0x80 # rest"
    using eof by (auto simp: mem_source_ok_def mem_inv_def)
  from mem_source.read_asn1_indefinite [OF s(1) max s(2) tag, of al' al fresh] full show ?thesis
    by (auto simp: s(2))
qed

text \<open>A BIO into which two lines were written, and one on an element in indefinite-length form.\<close>

definition mem0 :: mem_store where
  "mem0 = snd (BIO_new (\<lambda>n. True) (mem_method (\<lambda>n. True) (\<lambda>n. 0)) undefined 0)"

definition mem1 :: mem_store where
  "mem1 = snd (BIO_write (mem_method (\<lambda>n. True) (\<lambda>n. 0)) mem0 (Some 0) [4, 2, 7, 8, 9])"

definition tape0 :: mem_store where
  "tape0 = snd (BIO_new_mem_buf (\<lambda>n. True) (\<lambda>n. 0) undefined 0 (Some [0x61, 10, 0x62]) 3)"

lemmas mem_eval = BIO_new_def mem_method_def mem_new_def BUF_MEM_new_def BIO_write_def mem_write_def mem_ptr_def
  set_mem_def Let_def BIO_clear_retry_flags_def rdonly_def to_int_def BUF_MEM_grow_clean_def BUF_MEM_grow_def
  BUF_MEM_reserve_def realloc_block_def blit_def upt_conv_Cons

lemma mem_runs:
  "mem_run (\<lambda>n. True) (\<lambda>n. 0) 0 None [4, 2, 7, 8, 9] mem1"
  "mem_run (\<lambda>n. True) (\<lambda>n. 0) 0 (Some [0x61, 10, 0x62]) [0x61, 10, 0x62] tape0"
proof -
  let ?m = "mem_method (\<lambda>n. True) (\<lambda>n. 0)"
  have "fst (BIO_new (\<lambda>n. True) ?m undefined 0) = Some 0" by (simp add: mem_eval)
  then have n: "BIO_new (\<lambda>n. True) ?m undefined 0 = (Some 0, mem0)" by (simp add: mem0_def prod_eq_iff)
  have "fst (BIO_write ?m mem0 (Some 0) [4, 2, 7, 8, 9]) = 5" by (simp add: mem0_def mem_eval)
  then have w: "BIO_write ?m mem0 (Some 0) [4, 2, 7, 8, 9] = (5, mem1)" by (simp add: mem1_def prod_eq_iff)
  from mem_run.write_bytes [OF mem_run.new [OF n] w]
  show "mem_run (\<lambda>n. True) (\<lambda>n. 0) 0 None [4, 2, 7, 8, 9] mem1" by simp
  have "fst (BIO_new_mem_buf (\<lambda>n. True) (\<lambda>n. 0) undefined 0 (Some [0x61, 10, 0x62]) 3) = Some 0"
    by (simp add: BIO_new_mem_buf_def mem_eval)
  then have "BIO_new_mem_buf (\<lambda>n. True) (\<lambda>n. 0) undefined 0 (Some [0x61, 10, 0x62]) (int (length [0x61, 10, 0x62 :: u8])) =
      (Some 0, tape0)" by (simp add: tape0_def prod_eq_iff)
  from mem_run.new_buf [OF this]
  show "mem_run (\<lambda>n. True) (\<lambda>n. 0) 0 (Some [0x61, 10, 0x62]) [0x61, 10, 0x62] tape0" by simp
qed

definition tape1 :: mem_store where
  "tape1 = snd (BIO_new_mem_buf (\<lambda>n. True) (\<lambda>n. 0) undefined 0 (Some [0x30, 0x80, 0, 0]) 4)"

lemma tape1_run:
  "mem_run (\<lambda>n. True) (\<lambda>n. 0) 0 (Some [0x30, 0x80, 0, 0]) [0x30, 0x80, 0, 0] tape1" "bio_num (tape1 0) = 0"
proof -
  have "fst (BIO_new_mem_buf (\<lambda>n. True) (\<lambda>n. 0) undefined 0 (Some [0x30, 0x80, 0, 0]) 4) = Some 0"
    by (simp add: BIO_new_mem_buf_def mem_eval)
  then have "BIO_new_mem_buf (\<lambda>n. True) (\<lambda>n. 0) undefined 0 (Some [0x30, 0x80, 0, 0])
      (int (length [0x30, 0x80, 0, 0 :: u8])) = (Some 0, tape1)" by (simp add: tape1_def prod_eq_iff)
  from mem_run.new_buf [OF this]
  show "mem_run (\<lambda>n. True) (\<lambda>n. 0) 0 (Some [0x30, 0x80, 0, 0]) [0x30, 0x80, 0, 0] tape1" by simp
  show "bio_num (tape1 0) = 0" by (simp add: tape1_def BIO_new_mem_buf_def mem_eval)
qed

lemma mem1_num: "bio_num (mem1 0) = -1"
  by (simp add: mem1_def mem0_def mem_eval)

theorem mem_bio_queue_witness: "BIO_mem_contents mem1 0 = [4, 2, 7, 8, 9]"
  using mem_bio_queue [OF mem_runs(1), of 1] by simp

theorem mem_bio_tape_witness:
  "BIO_mem_contents (snd (BIO_reset (mem_method (\<lambda>n. True) (\<lambda>n. 0)) tape0 (Some 0))) 0 = [0x61, 10, 0x62]"
  using mem_bio_tape [OF mem_runs(2), of 1 "[1]"] by simp

theorem BIO_read_asn1_roundtrip_witness:
  "\<exists>s'. BIO_read_asn1 (\<lambda>n. True) (mem_method (\<lambda>n. True) (\<lambda>n. 0)) mem1 (Some 0) 100 = Some (Some [4, 2, 7, 8], s') \<and>
    BIO_mem_contents s' 0 = [9]"
proof -
  have el: "der_element 4 [7, 8] = [4, 2, 7, 8]"
    by (simp add: der_element_def der_header_def der_tag_bytes_def der_len_bytes_def)
  have r: "mem_run (\<lambda>n. True) (\<lambda>n. 0) 0 None (der_element 4 [7, 8] @ [9]) mem1" using mem_runs(1) by (simp add: el)
  from BIO_read_asn1_roundtrip [OF r, where al' = "\<lambda>n. True" and max_len = 100] show ?thesis
    by (simp add: mem1_num el)
qed

theorem BIO_read_asn1_terminates_witness:
  "BIO_read_asn1 (\<lambda>n. True) (mem_method (\<lambda>n. True) (\<lambda>n. 0)) mem1 (Some 0) 100 \<noteq> None"
  using BIO_read_asn1_terminates [OF mem_runs(1), of 100 "\<lambda>n. True"] mem1_num by auto

theorem BIO_read_asn1_indefinite_witness:
  "\<exists>s'. BIO_read_asn1 (\<lambda>n. True) (mem_method (\<lambda>n. True) (\<lambda>n. 0)) tape1 (Some 0) 4 = Some (None, s')"
  using BIO_read_asn1_indefinite [OF tape1_run(1), of 4 "\<lambda>n. True"] tape1_run(2) by simp

end
