(* ===== verification/Pb_Stream.thy ===== *)
theory Pb_Stream
  imports Codec
begin

text \<open>
  nanopb: the streams of \<open>pb_decode.c\<close> and \<open>pb_encode.c\<close>, with varints, fixed-width values, tags,
  strings and substreams. A function takes the stream and returns its result and the stream after
  the call; \<open>None\<close> or \<open>False\<close> stands for the return of \<open>false\<close>, whose message is in the stream. The
  options are those of the project: 32-bit field sizes, error messages, callbacks, 64-bit integers.
\<close>

unbundle bit_operations_syntax

record errs =
  errmsg :: "string option"

text \<open>
  The source of an input stream: \<open>Buf\<close> is the callback \<open>buf_read\<close>, its state pointing at the bytes
  given; \<open>Callback\<close> is one of the user's with its state, called with the flag that \<open>buf\<close> is NULL.
  A callback keeps to its contract and does not touch \<open>bytes_left\<close>.
\<close>

datatype 's pb_source = Buf bytes | Callback "bool \<Rightarrow> nat \<Rightarrow> 's \<Rightarrow> bytes option \<times> 's" 's

record 's pb_istream = errs +
  source :: "'s pb_source"
  bytes_left :: nat

text \<open>
  The sink of an output stream: no callback at all, \<open>buf_write\<close> with the bytes it has stored at the
  start of the buffer, or a callback of the user's.
\<close>

datatype 's pb_sink = Sizing | Buffer bytes | Writer "bytes \<Rightarrow> 's \<Rightarrow> bool \<times> 's" 's

record 's pb_ostream = errs +
  sink :: "'s pb_sink"
  max_size :: nat
  bytes_written :: nat

definition PB_SET_ERROR :: "string \<Rightarrow> 'a errs_scheme \<Rightarrow> 'a errs_scheme" where
  "PB_SET_ERROR msg st = st\<lparr>errmsg := (case errmsg st of None \<Rightarrow> Some msg | Some m \<Rightarrow> Some m)\<rparr>"

subsection \<open>Reading\<close>

definition buf_read :: "nat \<Rightarrow> bytes \<Rightarrow> bytes \<times> bytes" where
  "buf_read count src = (take count src, drop count src)"

definition istream_callback :: "bool \<Rightarrow> nat \<Rightarrow> 's pb_istream \<Rightarrow> bytes option \<times> 's pb_istream" where
  "istream_callback null count st =
     (case source st of
        Buf src \<Rightarrow> (case buf_read count src of (data, src) \<Rightarrow> (Some data, st\<lparr>source := Buf src\<rparr>))
      | Callback f s \<Rightarrow> (case f null count s of (r, s) \<Rightarrow> (r, st\<lparr>source := Callback f s\<rparr>)))"

definition is_buf_read :: "'s pb_istream \<Rightarrow> bool" where
  "is_buf_read st = (case source st of Buf src \<Rightarrow> True | Callback f s \<Rightarrow> False)"

text \<open>The part of \<open>pb_read\<close> behind the handling of skips.\<close>

definition pb_read_count :: "bool \<Rightarrow> nat \<Rightarrow> 's pb_istream \<Rightarrow> bytes option \<times> 's pb_istream" where
  "pb_read_count null count st =
     (if bytes_left st < count then (None, PB_SET_ERROR ''end-of-stream'' st)
      else case istream_callback null count st of
             (None, st) \<Rightarrow> (None, PB_SET_ERROR ''io error'' st)
           | (Some data, st) \<Rightarrow> (Some data, st\<lparr>bytes_left := bytes_left st - count\<rparr>))"

text \<open>Skipping in pieces of 16 bytes.\<close>

function pb_skip_pieces :: "nat \<Rightarrow> 's pb_istream \<Rightarrow> bytes option \<times> 's pb_istream" where
  "pb_skip_pieces count st =
     (if count > 16 then
        case pb_read_count False 16 st of
          (None, st) \<Rightarrow> (None, st)
        | (Some tmp, st) \<Rightarrow> pb_skip_pieces (count - 16) st
      else pb_read_count False count st)"
  by pat_completeness auto
termination
  by (relation "measure fst") auto

declare pb_skip_pieces.simps [simp del]

text \<open>\<open>null\<close> says that \<open>buf\<close> is NULL: then the bytes are dropped.\<close>

definition pb_read :: "bool \<Rightarrow> nat \<Rightarrow> 's pb_istream \<Rightarrow> bytes option \<times> 's pb_istream" where
  "pb_read null count st =
     (if count = 0 then (Some [], st)
      else if null \<and> \<not> is_buf_read st then pb_skip_pieces count st
      else pb_read_count null count st)"

definition pb_readbyte :: "'s pb_istream \<Rightarrow> u8 option \<times> 's pb_istream" where
  "pb_readbyte st =
     (if bytes_left st = 0 then (None, PB_SET_ERROR ''end-of-stream'' st)
      else case istream_callback False 1 st of
             (None, st) \<Rightarrow> (None, PB_SET_ERROR ''io error'' st)
           | (Some data, st) \<Rightarrow> (Some (data ! 0), st\<lparr>bytes_left := bytes_left st - 1\<rparr>))"

definition pb_istream_from_buffer :: "bytes \<Rightarrow> nat \<Rightarrow> 's pb_istream" where
  "pb_istream_from_buffer buf bufsize = \<lparr>errmsg = None, source = Buf buf, bytes_left = bufsize\<rparr>"

lemma bytes_left_SET_ERROR [simp]:
  "bytes_left (PB_SET_ERROR msg st) = bytes_left st" "source (PB_SET_ERROR msg st) = source st"
  by (simp_all add: PB_SET_ERROR_def)

lemma istream_callback_left: "istream_callback null count st = (r, st') \<Longrightarrow> bytes_left st' = bytes_left st"
  by (auto simp: istream_callback_def split: pb_source.splits prod.splits)

lemma pb_readbyte_less:
  "pb_readbyte st = (Some b, st') \<Longrightarrow> bytes_left st' < bytes_left st"
  by (auto simp: pb_readbyte_def dest!: istream_callback_left split: if_splits prod.splits option.splits)

lemma pb_read_count_left:
  "pb_read_count null count st = (r, st') \<Longrightarrow> bytes_left st' \<le> bytes_left st \<and>
    (r \<noteq> None \<longrightarrow> bytes_left st' + count = bytes_left st)"
  by (auto simp: pb_read_count_def dest!: istream_callback_left split: if_splits prod.splits option.splits)

lemma pb_skip_pieces_left:
  "pb_skip_pieces count st = (r, st') \<Longrightarrow> bytes_left st' \<le> bytes_left st \<and>
    (r \<noteq> None \<longrightarrow> bytes_left st' + count = bytes_left st)"
proof (induction count st arbitrary: r st' rule: pb_skip_pieces.induct)
  case (1 count st)
  obtain r1 st1 where p: "pb_read_count False 16 st = (r1, st1)" by fastforce
  show ?case
  proof (cases "count > 16 \<and> r1 \<noteq> None")
    case True
    then have "pb_skip_pieces (count - 16) st1 = (r, st')"
      using "1.prems" p by (auto simp: pb_skip_pieces.simps [of count])
    from "1.IH" [OF conjunct1 [OF True] p [symmetric] _ this] pb_read_count_left [OF p] True
    show ?thesis by auto
  next
    case False
    with "1.prems" p pb_read_count_left [of False _ st r st'] pb_read_count_left [OF p] show ?thesis
      by (auto simp: pb_skip_pieces.simps [of count] split: if_splits)
  qed
qed

lemma pb_read_left:
  "pb_read null count st = (r, st') \<Longrightarrow> bytes_left st' \<le> bytes_left st \<and>
    (r \<noteq> None \<longrightarrow> bytes_left st' + count = bytes_left st)"
  using pb_skip_pieces_left [of count st r st'] pb_read_count_left [of null count st r st']
  by (auto simp: pb_read_def split: if_splits)

subsection \<open>Integers\<close>

text \<open>
  The loop of \<open>pb_decode_varint32_eof\<close> with the byte counter \<open>bitpos\<close> (of type \<open>uint_fast8_t\<close>, a
  byte): the value, and \<open>bitpos\<close> and the byte read last.
\<close>

function varint32_loop :: "u8 \<Rightarrow> u32 \<Rightarrow> 's pb_istream \<Rightarrow> (u32 \<times> u8 \<times> u8) option \<times> 's pb_istream" where
  "varint32_loop bitpos result st =
     (case pb_readbyte st of
        (None, st) \<Rightarrow> (None, st)
      | (Some byte, st') \<Rightarrow>
          let sign_extension = (if bitpos < 63 then 0xFF else 0x01) in
          if bitpos \<ge> 32 \<and> byte AND 0x7F \<noteq> 0 \<and> (drop_bit 31 result = 0 \<or> byte \<noteq> sign_extension)
          then (None, PB_SET_ERROR ''varint overflow'' st')
          else
            let result = (if bitpos \<ge> 32 then result
                          else result OR push_bit (unat bitpos) (ucast (byte AND 0x7F)));
                bitpos = bitpos + 7
            in if byte AND 0x80 \<noteq> 0 then varint32_loop bitpos result st' else (Some (result, bitpos, byte), st'))"
  by pat_completeness auto
termination
  by (relation "measure (\<lambda>(bitpos, result, st). bytes_left st)") (auto dest: pb_readbyte_less [OF sym])

declare varint32_loop.simps [simp del]

text \<open>The flag in the middle is the value stored through \<open>eof\<close>, where the caller passes a pointer.\<close>

definition pb_decode_varint32_eof :: "'s pb_istream \<Rightarrow> u32 option \<times> bool \<times> 's pb_istream" where
  "pb_decode_varint32_eof st =
     (case pb_readbyte st of
        (None, st) \<Rightarrow> (None, bytes_left st = 0, st)
      | (Some byte, st) \<Rightarrow>
          if byte AND 0x80 = 0 then (Some (ucast byte), False, st)
          else
            (case varint32_loop 7 (ucast (byte AND 0x7F)) st of
               (None, st) \<Rightarrow> (None, False, st)
             | (Some (result, bitpos, byte), st) \<Rightarrow>
                 if bitpos = 35 \<and> byte AND 0x70 \<noteq> 0 then (None, False, PB_SET_ERROR ''varint overflow'' st)
                 else (Some result, False, st)))"

definition pb_decode_varint32 :: "'s pb_istream \<Rightarrow> u32 option \<times> 's pb_istream" where
  "pb_decode_varint32 st = (case pb_decode_varint32_eof st of (r, eof, st) \<Rightarrow> (r, st))"

function varint_loop :: "u8 \<Rightarrow> u64 \<Rightarrow> 's pb_istream \<Rightarrow> u64 option \<times> 's pb_istream" where
  "varint_loop bitpos result st =
     (if bitpos \<ge> 64 then (None, PB_SET_ERROR ''varint overflow'' st)
      else
        case pb_readbyte st of
          (None, st) \<Rightarrow> (None, st)
        | (Some byte, st') \<Rightarrow>
            let result = result OR push_bit (unat bitpos) (ucast (byte AND 0x7F));
                bitpos = bitpos + 7
            in if byte AND 0x80 \<noteq> 0 then varint_loop bitpos result st' else (Some result, st'))"
  by pat_completeness auto
termination
  by (relation "measure (\<lambda>(bitpos, result, st). bytes_left st)") (auto dest: pb_readbyte_less [OF sym])

declare varint_loop.simps [simp del]

definition pb_decode_varint :: "'s pb_istream \<Rightarrow> u64 option \<times> 's pb_istream" where
  "pb_decode_varint st = varint_loop 0 0 st"

text \<open>The result is the signed value, as the word that holds it.\<close>

definition pb_decode_svarint :: "'s pb_istream \<Rightarrow> u64 option \<times> 's pb_istream" where
  "pb_decode_svarint st =
     (case pb_decode_varint st of
        (None, st) \<Rightarrow> (None, st)
      | (Some value, st) \<Rightarrow>
          (Some (if value AND 1 \<noteq> 0 then NOT (drop_bit 1 value) else drop_bit 1 value), st))"

definition pb_decode_fixed32 :: "'s pb_istream \<Rightarrow> u32 option \<times> 's pb_istream" where
  "pb_decode_fixed32 st =
     (case pb_read False 4 st of
        (None, st) \<Rightarrow> (None, st)
      | (Some bytes, st) \<Rightarrow>
          (Some (push_bit 0 (ucast (bytes ! 0)) OR push_bit 8 (ucast (bytes ! 1)) OR
                 push_bit 16 (ucast (bytes ! 2)) OR push_bit 24 (ucast (bytes ! 3))), st))"

definition pb_decode_fixed64 :: "'s pb_istream \<Rightarrow> u64 option \<times> 's pb_istream" where
  "pb_decode_fixed64 st =
     (case pb_read False 8 st of
        (None, st) \<Rightarrow> (None, st)
      | (Some bytes, st) \<Rightarrow>
          (Some (push_bit 0 (ucast (bytes ! 0)) OR push_bit 8 (ucast (bytes ! 1)) OR
                 push_bit 16 (ucast (bytes ! 2)) OR push_bit 24 (ucast (bytes ! 3)) OR
                 push_bit 32 (ucast (bytes ! 4)) OR push_bit 40 (ucast (bytes ! 5)) OR
                 push_bit 48 (ucast (bytes ! 6)) OR push_bit 56 (ucast (bytes ! 7))), st))"

subsection \<open>Tags, skipping and substreams\<close>

definition PB_WT_VARINT :: u32 where "PB_WT_VARINT = 0"
definition PB_WT_64BIT :: u32 where "PB_WT_64BIT = 1"
definition PB_WT_STRING :: u32 where "PB_WT_STRING = 2"
definition PB_WT_32BIT :: u32 where "PB_WT_32BIT = 5"

lemmas wire_types = PB_WT_VARINT_def PB_WT_64BIT_def PB_WT_STRING_def PB_WT_32BIT_def

text \<open>The wire type and the tag; then \<open>*eof\<close>.\<close>

definition pb_decode_tag :: "'s pb_istream \<Rightarrow> (u32 \<times> u32) option \<times> bool \<times> 's pb_istream" where
  "pb_decode_tag st =
     (case pb_decode_varint32_eof st of
        (None, eof, st) \<Rightarrow> (None, eof, st)
      | (Some temp, eof, st) \<Rightarrow>
          if temp = 0 then (None, True, st)
          else (Some (temp AND 7, drop_bit 3 temp), eof, st))"

function pb_skip_varint :: "'s pb_istream \<Rightarrow> bool \<times> 's pb_istream" where
  "pb_skip_varint st =
     (case pb_read False 1 st of
        (None, st) \<Rightarrow> (False, st)
      | (Some byte, st') \<Rightarrow> if byte ! 0 AND 0x80 \<noteq> 0 then pb_skip_varint st' else (True, st'))"
  by pat_completeness auto
termination
proof (relation "measure bytes_left", goal_cases)
  case (2 st r st' byte)
  then show ?case using pb_read_left [of False 1 st "Some byte" st'] by simp
qed simp

declare pb_skip_varint.simps [simp del]

definition pb_skip_bytes :: "nat \<Rightarrow> 's pb_istream \<Rightarrow> bool \<times> 's pb_istream" where
  "pb_skip_bytes count st = (case pb_read True count st of (r, st) \<Rightarrow> (r \<noteq> None, st))"

definition pb_skip_string :: "'s pb_istream \<Rightarrow> bool \<times> 's pb_istream" where
  "pb_skip_string st =
     (case pb_decode_varint32 st of
        (None, st) \<Rightarrow> (False, st)
      | (Some n, st) \<Rightarrow> pb_skip_bytes (unat n) st)"

definition pb_skip_field :: "u32 \<Rightarrow> 's pb_istream \<Rightarrow> bool \<times> 's pb_istream" where
  "pb_skip_field wire_type st =
     (if wire_type = PB_WT_VARINT then pb_skip_varint st
      else if wire_type = PB_WT_64BIT then pb_skip_bytes 8 st
      else if wire_type = PB_WT_STRING then pb_skip_string st
      else if wire_type = PB_WT_32BIT then pb_skip_bytes 4 st
      else (False, PB_SET_ERROR ''invalid wire_type'' st))"

text \<open>\<open>read_raw_value\<close>: the bytes put into the buffer; their number is the size returned.\<close>

fun raw_varint_loop :: "nat \<Rightarrow> 's pb_istream \<Rightarrow> bytes option \<times> 's pb_istream" where
  "raw_varint_loop 0 st = (None, st)"
| "raw_varint_loop (Suc room) st =
     (case pb_read False 1 st of
        (None, st) \<Rightarrow> (None, st)
      | (Some byte, st) \<Rightarrow>
          if byte ! 0 AND 0x80 \<noteq> 0 then
            (case raw_varint_loop room st of (r, st) \<Rightarrow> (map_option ((#) (byte ! 0)) r, st))
          else (Some [byte ! 0], st))"

definition read_raw_value :: "nat \<Rightarrow> u32 \<Rightarrow> 's pb_istream \<Rightarrow> bytes option \<times> 's pb_istream" where
  "read_raw_value limit wire_type st =
     (if wire_type = PB_WT_VARINT then raw_varint_loop limit st
      else if wire_type = PB_WT_64BIT then pb_read False 8 st
      else if wire_type = PB_WT_32BIT then pb_read False 4 st
      else (None, PB_SET_ERROR ''invalid wire_type'' st))"

text \<open>The substream, then the stream itself.\<close>

definition pb_make_string_substream :: "'s pb_istream \<Rightarrow> 's pb_istream option \<times> 's pb_istream" where
  "pb_make_string_substream st =
     (case pb_decode_varint32 st of
        (None, st) \<Rightarrow> (None, st)
      | (Some n, st) \<Rightarrow>
          if bytes_left st < unat n then (None, PB_SET_ERROR ''parent stream too short'' st)
          else (Some (st\<lparr>bytes_left := unat n\<rparr>), st\<lparr>bytes_left := bytes_left st - unat n\<rparr>))"

definition pb_close_string_substream :: "'s pb_istream \<Rightarrow> 's pb_istream \<Rightarrow> bool \<times> 's pb_istream" where
  "pb_close_string_substream st substream =
     (case (if bytes_left substream \<noteq> 0 then pb_skip_bytes (bytes_left substream) substream else (True, substream)) of
        (False, substream) \<Rightarrow> (False, st)
      | (True, substream) \<Rightarrow> (True, st\<lparr>source := source substream, errmsg := errmsg substream\<rparr>))"

subsection \<open>Writing\<close>

definition ostream_callback :: "bytes \<Rightarrow> 's pb_ostream \<Rightarrow> bool \<times> 's pb_ostream" where
  "ostream_callback data st =
     (case sink st of
        Sizing \<Rightarrow> (True, st)
      | Buffer stored \<Rightarrow> (True, st\<lparr>sink := Buffer (stored @ data)\<rparr>)
      | Writer f s \<Rightarrow> (case f data s of (ok, s) \<Rightarrow> (ok, st\<lparr>sink := Writer f s\<rparr>)))"

definition is_sizing :: "'s pb_ostream \<Rightarrow> bool" where
  "is_sizing st = (case sink st of Sizing \<Rightarrow> True | Buffer b \<Rightarrow> False | Writer f s \<Rightarrow> False)"

definition pb_ostream_from_buffer :: "nat \<Rightarrow> 's pb_ostream" where
  "pb_ostream_from_buffer bufsize = \<lparr>errmsg = None, sink = Buffer [], max_size = bufsize, bytes_written = 0\<rparr>"

definition PB_OSTREAM_SIZING :: "'s pb_ostream" where
  "PB_OSTREAM_SIZING = \<lparr>errmsg = None, sink = Sizing, max_size = 0, bytes_written = 0\<rparr>"

text \<open>\<open>pb_write\<close>: \<open>buf\<close> has \<open>count\<close> bytes, except for the NULL buffers of sizing streams.\<close>

definition pb_write :: "bytes \<Rightarrow> nat \<Rightarrow> 's pb_ostream \<Rightarrow> bool \<times> 's pb_ostream" where
  "pb_write buf count st =
     (if count > 0 \<and> \<not> is_sizing st then
        if (bytes_written st + count) mod size_lim > max_size st then (False, PB_SET_ERROR ''stream full'' st)
        else case ostream_callback (take count buf) st of
               (False, st) \<Rightarrow> (False, PB_SET_ERROR ''io error'' st)
             | (True, st) \<Rightarrow> (True, st\<lparr>bytes_written := (bytes_written st + count) mod size_lim\<rparr>)
      else (True, st\<lparr>bytes_written := (bytes_written st + count) mod size_lim\<rparr>))"

text \<open>The bytes of \<open>buffer\<close> after the loop of \<open>pb_encode_varint\<close>.\<close>

function varint_groups :: "u64 \<Rightarrow> bytes" where
  "varint_groups value =
     (if value \<noteq> 0 then (ucast (value AND 0x7F) OR 0x80) # varint_groups (drop_bit 7 value) else [])"
  by pat_completeness auto
termination
  by (relation "measure unat") (auto simp: unat_drop_bit unsigned_eq_0_iff word_gt_0 unat_gt_0)

declare varint_groups.simps [simp del]

definition pb_encode_varint :: "u64 \<Rightarrow> 's pb_ostream \<Rightarrow> bool \<times> 's pb_ostream" where
  "pb_encode_varint v st =
     (if v \<le> 0x7F then pb_write [ucast v] 1 st
      else let buffer = varint_groups v; i = length buffer
           in pb_write (buffer[i - 1 := buffer ! (i - 1) AND 0x7F]) i st)"

text \<open>The argument is the signed value, as the word that holds it.\<close>

definition pb_encode_svarint :: "u64 \<Rightarrow> 's pb_ostream \<Rightarrow> bool \<times> 's pb_ostream" where
  "pb_encode_svarint v st =
     (let zigzagged = (if sint v < 0 then NOT (push_bit 1 v) else push_bit 1 v) in pb_encode_varint zigzagged st)"

definition pb_encode_fixed32 :: "u32 \<Rightarrow> 's pb_ostream \<Rightarrow> bool \<times> 's pb_ostream" where
  "pb_encode_fixed32 val st =
     pb_write [ucast (val AND 0xFF), ucast (drop_bit 8 val AND 0xFF), ucast (drop_bit 16 val AND 0xFF),
       ucast (drop_bit 24 val AND 0xFF)] 4 st"

definition pb_encode_fixed64 :: "u64 \<Rightarrow> 's pb_ostream \<Rightarrow> bool \<times> 's pb_ostream" where
  "pb_encode_fixed64 val st =
     pb_write [ucast (val AND 0xFF), ucast (drop_bit 8 val AND 0xFF), ucast (drop_bit 16 val AND 0xFF),
       ucast (drop_bit 24 val AND 0xFF), ucast (drop_bit 32 val AND 0xFF), ucast (drop_bit 40 val AND 0xFF),
       ucast (drop_bit 48 val AND 0xFF), ucast (drop_bit 56 val AND 0xFF)] 8 st"

definition pb_encode_tag :: "u32 \<Rightarrow> u32 \<Rightarrow> 's pb_ostream \<Rightarrow> bool \<times> 's pb_ostream" where
  "pb_encode_tag wiretype field_number st = pb_encode_varint (push_bit 3 (ucast field_number) OR ucast wiretype) st"

definition pb_encode_string :: "bytes \<Rightarrow> nat \<Rightarrow> 's pb_ostream \<Rightarrow> bool \<times> 's pb_ostream" where
  "pb_encode_string buffer n st =
     (case pb_encode_varint (word_of_nat n) st of
        (False, st) \<Rightarrow> (False, st)
      | (True, st) \<Rightarrow> pb_write buffer n st)"

end
