(* ===== verification/Pb_Varint.thy ===== *)
theory Pb_Varint
  imports Pb_Stream Der
begin

text \<open>
  The stream functions of nanopb on memory buffers: what they read is a prefix of the contents of the
  stream, related to the value it encodes.
\<close>

unbundle bit_operations_syntax

subsection \<open>Buffer streams\<close>

definition src_bytes :: "'s pb_istream \<Rightarrow> bytes" where
  "src_bytes st = (case source st of Buf src \<Rightarrow> src | Callback f s \<Rightarrow> [])"

text \<open>A stream over a buffer that holds all the bytes the stream counts, and those bytes.\<close>

definition wf_stream :: "'s pb_istream \<Rightarrow> bool" where
  "wf_stream st \<longleftrightarrow> is_buf_read st \<and> bytes_left st \<le> length (src_bytes st)"

definition content :: "'s pb_istream \<Rightarrow> bytes" where
  "content st = take (bytes_left st) (src_bytes st)"

definition adv :: "nat \<Rightarrow> 's pb_istream \<Rightarrow> 's pb_istream" where
  "adv k st = st\<lparr>source := Buf (drop k (src_bytes st)), bytes_left := bytes_left st - k\<rparr>"

lemma wf_streamE:
  assumes "wf_stream st" obtains src where "source st = Buf src" "bytes_left st \<le> length src" "src_bytes st = src"
  using assms by (auto simp: wf_stream_def is_buf_read_def src_bytes_def split: pb_source.splits)

lemma length_stream_content [simp]: "wf_stream st \<Longrightarrow> length (content st) = bytes_left st"
  by (auto simp: content_def elim: wf_streamE)

lemma wf_adv [simp]: "wf_stream st \<Longrightarrow> k \<le> bytes_left st \<Longrightarrow> wf_stream (adv k st)"
  by (auto simp: adv_def wf_stream_def is_buf_read_def src_bytes_def)

lemma content_adv [simp]: "content (adv k st) = drop k (content st)"
  by (simp add: content_def adv_def src_bytes_def drop_take)

lemma adv_simps [simp]: "bytes_left (adv k st) = bytes_left st - k" "errmsg (adv k st) = errmsg st"
  "src_bytes (adv k st) = drop k (src_bytes st)" "source (adv k st) = Buf (drop k (src_bytes st))"
  by (simp_all add: adv_def src_bytes_def)

lemma adv_adv [simp]: "adv j (adv k st) = adv (k + j) st"
  by (simp add: adv_def src_bytes_def add.commute)

lemma adv_0: "wf_stream st \<Longrightarrow> adv 0 st = st"
  by (auto simp: adv_def elim!: wf_streamE)

lemma istream_callback_buf:
  "wf_stream st \<Longrightarrow> istream_callback null n st = (Some (take n (src_bytes st)), st\<lparr>source := Buf (drop n (src_bytes st))\<rparr>)"
  by (auto simp: istream_callback_def buf_read_def elim!: wf_streamE)

lemma pb_readbyte_buf: "wf_stream st \<Longrightarrow> content st = b # bs \<Longrightarrow> pb_readbyte st = (Some b, adv 1 st)"
  by (cases "src_bytes st") (auto simp: pb_readbyte_def istream_callback_buf content_def adv_def take_Cons' split: if_splits)

lemma pb_readbyte_end: "bytes_left st = 0 \<Longrightarrow> pb_readbyte st = (None, PB_SET_ERROR ''end-of-stream'' st)"
  by (simp add: pb_readbyte_def)

lemma pb_read_buf:
  "wf_stream st \<Longrightarrow> n \<le> bytes_left st \<Longrightarrow> pb_read null n st = (Some (take n (content st)), adv n st)"
proof (cases "n = 0")
  case True
  then show "wf_stream st \<Longrightarrow> ?thesis" by (simp add: pb_read_def adv_0)
qed (auto simp: pb_read_def pb_read_count_def istream_callback_buf content_def adv_def min_absorb1 wf_stream_def)

lemma pb_read_short:
  "wf_stream st \<Longrightarrow> bytes_left st < n \<Longrightarrow> pb_read null n st = (None, PB_SET_ERROR ''end-of-stream'' st)"
  by (auto simp: pb_read_def pb_read_count_def wf_stream_def)

lemma pb_istream_from_buffer_content:
  "n \<le> length buf \<Longrightarrow> wf_stream (pb_istream_from_buffer buf n)" "content (pb_istream_from_buffer buf n) = take n buf"
  by (simp_all add: pb_istream_from_buffer_def wf_stream_def content_def src_bytes_def is_buf_read_def)

subsection \<open>Varints as byte strings\<close>

text \<open>The bytes up to the first with a clear top bit, and the rest; the value of such a string.\<close>

fun varint_split :: "bytes \<Rightarrow> (bytes \<times> bytes) option" where
  "varint_split [] = None"
| "varint_split (b # bs) =
     (if unat b < 128 then Some ([b], bs) else map_option (\<lambda>(g, r). (b # g, r)) (varint_split bs))"

fun varint_val :: "bytes \<Rightarrow> nat" where
  "varint_val [] = 0"
| "varint_val (b # bs) = unat b mod 128 + 128 * varint_val bs"

function varint_bytes :: "nat \<Rightarrow> bytes" where
  "varint_bytes n = (if n < 128 then [word_of_nat n] else word_of_nat (n mod 128 + 128) # varint_bytes (n div 128))"
  by pat_completeness auto
termination
  by (relation "measure id") auto

declare varint_bytes.simps [simp del]

lemma varint_bytes_small: "n < 128 \<Longrightarrow> varint_bytes n = [word_of_nat n]"
  by (simp add: varint_bytes.simps)

lemma varint_bytes_large:
  "\<not> n < 128 \<Longrightarrow> varint_bytes n = word_of_nat (n mod 128 + 128) # varint_bytes (n div 128)"
  by (simp add: varint_bytes.simps [of n])

lemma varint_bytes_nonempty [simp]: "varint_bytes n \<noteq> []"
  by (simp add: varint_bytes.simps [of n])

lemma varint_split_bytes [simp]: "varint_split (varint_bytes n @ r) = Some (varint_bytes n, r)"
proof (induction n rule: varint_bytes.induct)
  case (1 n)
  show ?case
  proof (cases "n < 128")
    case True
    then show ?thesis by (simp add: varint_bytes_small)
  next
    case False
    then show ?thesis using "1.IH" by (simp add: varint_bytes_large del: of_nat_add)
  qed
qed

lemma varint_val_bytes [simp]: "varint_val (varint_bytes n) = n"
proof (induction n rule: varint_bytes.induct)
  case (1 n)
  show ?case
  proof (cases "n < 128")
    case True
    then show ?thesis by (simp add: varint_bytes_small)
  next
    case False
    then show ?thesis using "1.IH" by (simp add: varint_bytes_large del: of_nat_add)
  qed
qed

lemma varint_bytes_length: "n < 128 ^ Suc k \<Longrightarrow> length (varint_bytes n) \<le> Suc k"
proof (induction k arbitrary: n)
  case (Suc k)
  have "n div 128 < 128 ^ Suc k" using Suc.prems by (simp add: less_mult_imp_div_less mult.commute)
  from Suc.IH [OF this] show ?case
    by (cases "n < 128") (simp_all add: varint_bytes_small varint_bytes_large)
qed (simp add: varint_bytes_small)

lemma varint_bytes_length_u64: "length (varint_bytes (unat (v :: u64))) \<le> 10"
proof -
  have "unat v < 128 ^ Suc 9" using unsigned_less [of v, where ?'a = nat] by simp
  from varint_bytes_length [OF this] show ?thesis by simp
qed

lemma varint_bytes_length_u32: "length (varint_bytes (unat (v :: u32))) \<le> 5"
proof -
  have "unat v < 128 ^ Suc 4" using unsigned_less [of v, where ?'a = nat] by simp
  from varint_bytes_length [OF this] show ?thesis by simp
qed

lemma varint_split_app: "varint_split bs = Some (g, r) \<Longrightarrow> bs = g @ r \<and> g \<noteq> [] \<and> unat (last g) < 128"
  by (induction bs arbitrary: g r) (fastforce split: if_splits)+

lemma varint_split_length: "wf_stream st \<Longrightarrow> varint_split (content st) = Some (g, r) \<Longrightarrow> length g \<le> bytes_left st"
  using varint_split_app [of "content st" g r] length_stream_content [of st] by simp

lemma varint_val_bound: "varint_val g < 128 ^ length g"
proof (induction g)
  case (Cons b g)
  have "unat b mod 128 < 128" by simp
  with Cons show ?case by simp
qed simp

subsection \<open>The encoder\<close>

lemma u8_continue: "ucast (v AND 0x7F :: u64) OR 0x80 = (word_of_nat (unat v mod 128 + 128) :: u8)"
proof -
  have a: "unat (ucast (v AND 0x7F) :: u8) = unat v mod 128"
    using unat_and_mask [of v 7] by (simp add: mask_eq_exp_minus_1 unat_ucast_down)
  have "ucast (v AND 0x7F) OR 0x80 = (0x80 :: u8) OR ucast (v AND 0x7F)" by (rule or.commute)
  also have "\<dots> = push_bit 7 1 OR ucast (v AND 0x7F)" by simp
  finally have e: "ucast (v AND 0x7F) OR 0x80 = (push_bit 7 1 :: u8) OR ucast (v AND 0x7F)" .
  show ?thesis
    by (rule word_unat_eq_iff [THEN iffD2], unfold e, subst unat_push_bit_or) (simp_all add: a unat_of_nat del: of_nat_add push_bit_of_1)
qed


lemma varint_groups_bytes:
  "v \<noteq> 0 \<Longrightarrow> \<exists>bs b. varint_groups v = bs @ [b] \<and> varint_bytes (unat v) = bs @ [b AND 0x7F]"
proof (induction v rule: varint_groups.induct)
  case (1 v)
  have d: "unat (drop_bit 7 v) = unat v div 128" by (simp add: unat_drop_bit)
  note g = varint_groups.simps [of v, unfolded if_P [OF 1(2)] u8_continue]
  show ?case
  proof (cases "unat v < 128")
    case True
    then have z: "drop_bit 7 v = 0" by (simp add: drop_bit_eq_0_iff)
    have "unat ((word_of_nat (unat v + 128) :: u8) AND 0x7F) = unat v"
      using True by (simp add: unat_and_0x7f unat_of_nat del: of_nat_add)
    then have "(word_of_nat (unat v + 128) :: u8) AND 0x7F = word_of_nat (unat v)"
      using True by (simp add: word_unat_eq_iff unat_ucast_down del: of_nat_add)
    then show ?thesis using True g z
      by (intro exI [of _ "[]"] exI [of _ "word_of_nat (unat v + 128)"])
        (simp add: varint_bytes_small varint_groups.simps [of 0] del: of_nat_add)
  next
    case False
    then have "drop_bit 7 v \<noteq> 0" by (simp add: drop_bit_eq_0_iff)
    from "1.IH" [OF 1(2) this] obtain bs b where "varint_groups (drop_bit 7 v) = bs @ [b]"
      "varint_bytes (unat v div 128) = bs @ [b AND 0x7F]" unfolding d by blast
    then show ?thesis using False g
      by (intro exI [of _ "word_of_nat (unat v mod 128 + 128) # bs"] exI [of _ b])
        (simp add: varint_bytes_large del: of_nat_add)
  qed
qed

lemma pb_encode_varint_bytes:
  "pb_encode_varint v st = pb_write (varint_bytes (unat v)) (length (varint_bytes (unat v))) st"
proof (cases "v \<le> 0x7F")
  case True
  then have "unat v < 128" by (simp add: word_le_nat_alt)
  with True show ?thesis by (simp add: pb_encode_varint_def varint_bytes_small unsigned_ucast_eq word_unat_eq_iff unat_ucast_down unat_of_nat)
next
  case False
  then have "v \<noteq> 0" by auto
  from varint_groups_bytes [OF this] obtain bs b where "varint_groups v = bs @ [b]"
    "varint_bytes (unat v) = bs @ [b AND 0x7F]" by blast
  with False show ?thesis by (simp add: pb_encode_varint_def Let_def nth_append)
qed

subsection \<open>The decoders\<close>

lemma word_or_group:
  assumes "x < 2 ^ n"
  shows "(word_of_nat x :: 'a :: len word) OR push_bit n (word_of_nat m) = word_of_nat (x + 2 ^ n * m)"
proof -
  have "unat (word_of_nat x :: 'a word) \<le> x" by (simp add: unat_of_nat)
  from this assms have x: "unat (word_of_nat x :: 'a word) < 2 ^ n" by (rule le_less_trans)
  have "(word_of_nat x :: 'a word) OR push_bit n (word_of_nat m) = word_of_nat x + push_bit n (word_of_nat m)"
    by (rule disjoint_or_add) (subst and.commute, rule push_bit_and_low [OF x])
  also have "\<dots> = word_of_nat (x + 2 ^ n * m)" by (simp add: push_bit_eq_mult mult.commute)
  finally show ?thesis .
qed

lemma ucast_low7: "(ucast (b AND 0x7F :: u8) :: 'a :: len word) = word_of_nat (unat b mod 128)"
  by (simp only: unat_and_0x7f [symmetric] of_nat_unat)

lemma group_step_bound: "x < 2 ^ n \<Longrightarrow> x + 2 ^ n * (unat (b :: u8) mod 128) < 2 ^ (n + 7)"
proof -
  assume x: "x < 2 ^ n"
  have "unat b mod 128 \<le> 127" using mod_less_divisor [of 128 "unat b"] by linarith
  then have "2 ^ n * (unat b mod 128) \<le> 2 ^ n * 127" by (rule mult_le_mono2)
  with x have "x + 2 ^ n * (unat b mod 128) < 2 ^ n + 2 ^ n * 127" by (rule add_less_le_mono)
  then show ?thesis by (simp add: power_add)
qed

lemma bitpos_word: "7 * k < 256 \<Longrightarrow> unat (word_of_nat (7 * k) :: u8) = 7 * k"
  by (simp add: unat_of_nat del: of_nat_mult)

lemma bitpos_next: "(word_of_nat (7 * k) :: u8) + 7 = word_of_nat (7 * Suc k)"
  by simp

lemma varint_loop_buf:
  assumes "wf_stream st" "varint_split (content st) = Some (g, r)" "k + length g \<le> 10" "x < 2 ^ (7 * k)"
  shows "varint_loop (word_of_nat (7 * k)) (word_of_nat x) st = (Some (word_of_nat (x + 2 ^ (7 * k) * varint_val g)), adv (length g) st)"
  using assms
proof (induction "content st" arbitrary: st g k x)
  case Nil
  from Nil(1) [symmetric] Nil(3) show ?case by simp
next
  case (Cons b bs)
  note c = Cons.hyps(2) [symmetric]
  have k: "k < 10" using Cons.prems(2,3) varint_split_app [of "content st" g r] by (cases g) auto
  have pos: "unat (word_of_nat (7 * k) :: u8) = 7 * k" using k by (intro bitpos_word) simp
  then have "\<not> (word_of_nat (7 * k) :: u8) \<ge> 64" using k by (simp add: word_le_nat_alt del: of_nat_mult)
  note step = varint_loop.simps [of "word_of_nat (7 * k)" "word_of_nat x" st, unfolded if_not_P [OF this]
      pb_readbyte_buf [OF Cons.prems(1) c] prod.case option.case Let_def pos ucast_low7 word_or_group [OF Cons.prems(4)] bitpos_next]
  have left: "1 \<le> bytes_left st" using length_stream_content [OF Cons.prems(1)] c by simp
  show ?case
  proof (cases "unat b < 128")
    case True
    with Cons.prems(2) c have g: "g = [b]" by simp
    have "\<not> b AND 0x80 \<noteq> 0" using True and_0x80_iff [of b] by simp
    from step [unfolded if_not_P [OF this]] show ?thesis
      using True by (simp add: g)
  next
    case False
    with Cons.prems(2) c obtain g' where g: "g = b # g'" and s: "varint_split bs = Some (g', r)"
      by (auto split: if_splits)
    have b: "b AND 0x80 \<noteq> 0" using False and_0x80_iff [of b] by simp
    have wf: "wf_stream (adv 1 st)" using Cons.prems(1) left by simp
    have x: "x + 2 ^ (7 * k) * (unat b mod 128) < 2 ^ (7 * Suc k)"
      using group_step_bound [OF Cons.prems(4), of b] by (simp add: power_add)
    have cs: "bs = content (adv 1 st)" by (simp add: c)
    have "varint_split (content (adv 1 st)) = Some (g', r)" using s cs by simp
    moreover have "Suc k + length g' \<le> 10" using Cons.prems(3) g by simp
    ultimately have "varint_loop (word_of_nat (7 * Suc k)) (word_of_nat (x + 2 ^ (7 * k) * (unat b mod 128))) (adv 1 st) =
      (Some (word_of_nat (x + 2 ^ (7 * k) * (unat b mod 128) + 2 ^ (7 * Suc k) * varint_val g')), adv (length g') (adv 1 st))"
      by (rule Cons.hyps(1) [OF cs wf _ _ x])
    with step [unfolded if_P [OF b]] have "varint_loop (word_of_nat (7 * k)) (word_of_nat x) st =
      (Some (word_of_nat (x + 2 ^ (7 * k) * (unat b mod 128) + 2 ^ (7 * Suc k) * varint_val g')), adv (length g') (adv 1 st))"
      by (rule trans)
    also have "x + 2 ^ (7 * k) * (unat b mod 128) + 2 ^ (7 * Suc k) * varint_val g' = x + 2 ^ (7 * k) * varint_val g"
      by (simp add: g power_add algebra_simps)
    finally show ?thesis by (simp add: g)
  qed
qed

lemma pb_decode_varint_buf:
  assumes "wf_stream st" "varint_split (content st) = Some (g, r)" "length g \<le> 10"
  shows "pb_decode_varint st = (Some (word_of_nat (varint_val g)), adv (length g) st)"
  using varint_loop_buf [of st g r 0 0] assms by (simp add: pb_decode_varint_def)

text \<open>
  The 32-bit reader looks at no bit of a group that starts beyond bit 31: it demands that the groups
  behind the fifth byte are empty.
\<close>

definition padded_from :: "nat \<Rightarrow> bytes \<Rightarrow> bool" where
  "padded_from k g \<longleftrightarrow> (\<forall>b\<in>set (drop k g). b AND 0x7F = 0)"

lemma padded_short [simp]: "length g \<le> k \<Longrightarrow> padded_from k g"
  by (simp add: padded_from_def)

lemma padded_Cons: "padded_from (5 - k) (b # g) \<Longrightarrow> padded_from (5 - Suc k) g \<and> (5 \<le> k \<longrightarrow> b AND 0x7F = 0)"
  by (cases "k < 5") (auto simp: padded_from_def simp flip: Suc_diff_Suc)

lemma varint32_loop_buf:
  assumes "wf_stream st" "varint_split (content st) = Some (g, r)" "k + length g \<le> 10" "padded_from (5 - k) g"
    "x < 2 ^ (7 * k)"
  shows "varint32_loop (word_of_nat (7 * k)) (word_of_nat x) st =
    (Some (word_of_nat (x + 2 ^ (7 * k) * varint_val g), word_of_nat (7 * (k + length g)), last g), adv (length g) st)"
  using assms
proof (induction "content st" arbitrary: st g k x)
  case Nil
  from Nil(1) [symmetric] Nil(3) show ?case by simp
next
  case (Cons b bs)
  note c = Cons.hyps(2) [symmetric]
  obtain gs where gs: "g = b # gs" using Cons.prems(2) c by (auto split: if_splits)
  have k: "k < 10" using Cons.prems(3) gs by simp
  have pos: "unat (word_of_nat (7 * k) :: u8) = 7 * k" using k by (intro bitpos_word) simp
  then have "(word_of_nat (7 * k) :: u8) \<ge> 32 \<longrightarrow> 5 \<le> k" by (simp add: word_le_nat_alt del: of_nat_mult)
  with padded_Cons [OF Cons.prems(4) [unfolded gs]]
  have zero: "\<not> ((word_of_nat (7 * k) :: u8) \<ge> 32 \<and> b AND 0x7F \<noteq> 0)" by blast
  have res: "(if (word_of_nat (7 * k) :: u8) \<ge> 32 then word_of_nat x else word_of_nat (x + 2 ^ (7 * k) * (unat b mod 128))) =
      (word_of_nat (x + 2 ^ (7 * k) * (unat b mod 128)) :: u32)"
    using zero unat_and_0x7f [of b] by auto
  note step0 = varint32_loop.simps [of "word_of_nat (7 * k)" "word_of_nat x" st, unfolded
      pb_readbyte_buf [OF Cons.prems(1) c] prod.case option.case Let_def
      pos ucast_low7 word_or_group [OF Cons.prems(5)] bitpos_next res]
  have step: "varint32_loop (word_of_nat (7 * k)) (word_of_nat x) st =
      (if b AND 0x80 \<noteq> 0 then varint32_loop (word_of_nat (7 * Suc k)) (word_of_nat (x + 2 ^ (7 * k) * (unat b mod 128))) (adv 1 st)
       else (Some (word_of_nat (x + 2 ^ (7 * k) * (unat b mod 128)), word_of_nat (7 * Suc k), b), adv 1 st))"
    unfolding step0 using zero by (simp only: simp_thms if_False de_Morgan_conj) (elim disjE, simp_all only: simp_thms if_False)
  have left: "1 \<le> bytes_left st" using length_stream_content [OF Cons.prems(1)] c by simp
  show ?case
  proof (cases "unat b < 128")
    case True
    with Cons.prems(2) c have g: "g = [b]" by simp
    have "b AND 0x80 = 0" using True and_0x80_iff [of b] by simp
    with step show ?thesis
      using True by (simp add: g del: of_nat_mult)
  next
    case False
    with Cons.prems(2) c obtain g' where g: "g = b # g'" and s: "varint_split bs = Some (g', r)"
      by (auto split: if_splits)
    from varint_split_app [OF s] have last: "last g = last g'" by (simp add: g)
    have b: "b AND 0x80 \<noteq> 0" using False and_0x80_iff [of b] by simp
    have wf: "wf_stream (adv 1 st)" using Cons.prems(1) left by simp
    have x: "x + 2 ^ (7 * k) * (unat b mod 128) < 2 ^ (7 * Suc k)"
      using group_step_bound [OF Cons.prems(5), of b] by (simp add: power_add)
    have cs: "bs = content (adv 1 st)" by (simp add: c)
    have "varint_split (content (adv 1 st)) = Some (g', r)" using s cs by simp
    moreover have "Suc k + length g' \<le> 10" using Cons.prems(3) g by simp
    moreover have "padded_from (5 - Suc k) g'" using padded_Cons Cons.prems(4) g by blast
    ultimately have ih: "varint32_loop (word_of_nat (7 * Suc k)) (word_of_nat (x + 2 ^ (7 * k) * (unat b mod 128))) (adv 1 st) =
      (Some (word_of_nat (x + 2 ^ (7 * k) * (unat b mod 128) + 2 ^ (7 * Suc k) * varint_val g'),
         word_of_nat (7 * (Suc k + length g')), last g'), adv (length g') (adv 1 st))"
      by (rule Cons.hyps(1) [OF cs wf _ _ _ x])
    have e: "x + 2 ^ (7 * k) * (unat b mod 128) + 2 ^ (7 * Suc k) * varint_val g' = x + 2 ^ (7 * k) * varint_val g"
      by (simp add: g power_add algebra_simps)
    have l: "Suc k + length g' = k + length g" by (simp add: g)
    from step b ih show ?thesis unfolding e l last
      by (simp add: g del: of_nat_mult of_nat_add of_nat_Suc mult_Suc_right)
  qed
qed

lemma varint_val_last: "g \<noteq> [] \<Longrightarrow> varint_val g div 128 ^ (length g - 1) = unat (last g) mod 128"
proof (induction g)
  case (Cons b g)
  show ?case
  proof (cases g)
    case (Cons c g')
    have "unat b mod 128 < 128" by simp
    have "varint_val (b # g) div 128 ^ length g = (unat b mod 128 + 128 * varint_val g) div 128 div 128 ^ (length g - 1)"
      using Cons by (simp flip: div_mult2_eq add: mult.commute)
    also have "(unat b mod 128 + 128 * varint_val g) div 128 = varint_val g" by simp
    finally show ?thesis using Cons.IH Cons by simp
  qed simp
qed simp

lemma and_0x70:
  assumes "unat (b :: u8) < 128" shows "b AND 0x70 = 0 \<longleftrightarrow> unat b < 16"
proof -
  have m: "(0x70 :: u8) = push_bit 4 (mask 3)" by (simp add: mask_eq_exp_minus_1)
  have hi: "\<not> bit b n" if "7 \<le> n" for n
    using bit_imp_less_bound [of b 7 n] assms that by auto
  have "b AND 0x70 = 0 \<longleftrightarrow> drop_bit 4 b = 0"
  proof
    assume "b AND 0x70 = 0"
    then have z: "\<not> (bit b n \<and> 4 \<le> n \<and> n < 7)" for n
      unfolding m using bit_and_iff [of b "push_bit 4 (mask 3)" n]
      by (auto simp: bit_simps)
    have "\<not> bit b (4 + n)" for n using z [of "4 + n"] hi [of "4 + n"] by (cases "4 + n < 7") auto
    then show "drop_bit 4 b = 0" by (intro bit_word_eqI) (simp add: bit_simps)
  next
    assume "drop_bit 4 b = 0"
    then have "\<not> bit b (4 + n)" for n using bit_drop_bit_eq [of 4 b] by (metis bit_0_eq bot_apply bot_bool_def comp_apply)
    then have "\<not> (bit b n \<and> 4 \<le> n)" for n by (metis le_add_diff_inverse)
    then show "b AND 0x70 = 0"
      unfolding m by (intro bit_word_eqI) (auto simp: bit_simps)
  qed
  then show ?thesis by (simp add: drop_bit_eq_0_iff)
qed

text \<open>
  Up to five bytes, the 32-bit reader takes exactly the values below \<open>2^32\<close>. The check behind its loop
  is not made when padding follows the fifth byte.
\<close>

lemma pb_decode_varint32_multi:
  assumes wf: "wf_stream st" and s: "varint_split (content st) = Some (g, r)" and l: "length g \<le> 10" "padded_from 5 g"
    and multi: "length g \<noteq> 1"
  shows "pb_decode_varint32_eof st =
    (if length g = 5 \<and> last g AND 0x70 \<noteq> 0 then (None, False, PB_SET_ERROR ''varint overflow'' (adv (length g) st))
     else (Some (word_of_nat (varint_val g)), False, adv (length g) st))"
proof -
  from s obtain b bs where c: "content st = b # bs" by (cases "content st") auto
  have left: "1 \<le> bytes_left st" using length_stream_content [OF wf] c by simp
  note def = pb_decode_varint32_eof_def [of st, unfolded pb_readbyte_buf [OF wf c] prod.case option.case]
  have big: "\<not> unat b < 128" using s c multi by (auto split: if_splits)
  with s c obtain g' where g: "g = b # g'" and s': "varint_split bs = Some (g', r)" by (auto split: if_splits)
  have b: "b AND 0x80 \<noteq> 0" using big and_0x80_iff [of b] by simp
  have "unat b mod 128 < 2 ^ (7 * 1)" by simp
  from varint32_loop_buf [of "adv 1 st" g' r 1, OF _ _ _ _ this] s' c l g wf left padded_Cons [of 0 b g']
  have loop: "varint32_loop 7 (word_of_nat (unat b mod 128)) (adv 1 st) =
    (Some (word_of_nat (varint_val g), word_of_nat (7 * length g), last g), adv (length g) st)"
    using varint_split_app [OF s'] by (simp del: of_nat_mult)
  have "length g < 11" using l(1) by simp
  then have pos: "(word_of_nat (7 * length g) :: u8) = 35 \<longleftrightarrow> length g = 5"
    by (simp add: word_unat_eq_iff unat_of_nat del: of_nat_mult)
  with def b loop show ?thesis by (simp add: ucast_low7 del: of_nat_mult)
qed

lemma pb_decode_varint32_buf:
  assumes wf: "wf_stream st" and s: "varint_split (content st) = Some (g, r)" and l: "length g \<le> 5"
  shows "pb_decode_varint32_eof st =
    (if varint_val g < 2 ^ 32 then (Some (word_of_nat (varint_val g)), False, adv (length g) st)
     else (None, False, PB_SET_ERROR ''varint overflow'' (adv (length g) st)))"
proof (cases "length g = 1")
  case True
  then obtain b where g: "g = [b]" by (auto simp: length_Suc_conv)
  with varint_split_app [OF s] have c: "content st = b # r" and b: "unat b < 128" by auto
  have "b AND 0x80 = 0" using b and_0x80_iff [of b] by simp
  with b show ?thesis by (simp add: pb_decode_varint32_eof_def pb_readbyte_buf [OF wf c] g)
next
  case multi: False
  from varint_split_app [OF s] have ne: "g \<noteq> []" and lb: "unat (last g) < 128" by auto
  have top: "last g AND 0x70 \<noteq> 0 \<longleftrightarrow> 16 \<le> unat (last g)"
    using and_0x70 [OF lb] by (simp add: not_less)
  have "length g = 5 \<and> last g AND 0x70 \<noteq> 0 \<longleftrightarrow> \<not> varint_val g < 2 ^ 32"
  proof (cases "length g = 5")
    case True
    then have "varint_val g div 2 ^ 28 = unat (last g)" using varint_val_last [OF ne] lb by simp
    moreover have "\<not> varint_val g < 2 ^ 32 \<longleftrightarrow> 16 \<le> varint_val g div 2 ^ 28"
      by (simp add: less_eq_div_iff_mult_less_eq not_less)
    ultimately show ?thesis using True top by simp
  next
    case False
    then have "(128 :: nat) ^ length g \<le> 128 ^ 4" using l by (intro power_increasing) simp_all
    with varint_val_bound [of g] False show ?thesis by simp
  qed
  with pb_decode_varint32_multi [OF wf s _ _ multi] l show ?thesis by auto
qed

end
