(* ===== verification/Pb_Output.thy ===== *)
theory Pb_Output
  imports Pb_Varint
begin

text \<open>
  The output streams of nanopb: \<open>emits w xs\<close> is the contract of an encoder, which appends \<open>xs\<close> or,
  without room for them, fails; it composes.
\<close>

unbundle bit_operations_syntax

text \<open>Streams into a buffer or without a callback, and the room they have.\<close>

definition plain_stream :: "'s pb_ostream \<Rightarrow> bool" where
  "plain_stream st \<longleftrightarrow> (case sink st of Sizing \<Rightarrow> True | Buffer ys \<Rightarrow> True | Writer f s \<Rightarrow> False) \<and>
     max_size st < size_lim \<and> (\<not> is_sizing st \<longrightarrow> bytes_written st \<le> max_size st)"

definition has_room :: "nat \<Rightarrow> 's pb_ostream \<Rightarrow> bool" where
  "has_room n st \<longleftrightarrow> (if is_sizing st then bytes_written st + n < size_lim else bytes_written st + n \<le> max_size st)"

definition put :: "bytes \<Rightarrow> 's pb_ostream \<Rightarrow> 's pb_ostream" where
  "put xs st = st\<lparr>sink := (case sink st of Buffer ys \<Rightarrow> Buffer (ys @ xs) | k \<Rightarrow> k), bytes_written := bytes_written st + length xs\<rparr>"

lemma put_simps [simp]:
  "bytes_written (put xs st) = bytes_written st + length xs" "max_size (put xs st) = max_size st"
  "is_sizing (put xs st) = is_sizing st" "errmsg (put xs st) = errmsg st"
  by (auto simp: put_def is_sizing_def split: pb_sink.splits)

lemma put_put [simp]: "put ys (put xs st) = put (xs @ ys) st"
  by (simp add: put_def split: pb_sink.splits)

lemma put_Nil [simp]: "put [] st = st"
  by (cases st) (auto simp: put_def split: pb_sink.splits)

lemma plain_put [simp]: "plain_stream st \<Longrightarrow> has_room (length xs) st \<Longrightarrow> plain_stream (put xs st)"
  by (auto simp: plain_stream_def has_room_def put_def is_sizing_def split: pb_sink.splits)

lemma has_room_put [simp]: "has_room n (put xs st) \<longleftrightarrow> has_room (length xs + n) st"
  by (simp add: has_room_def add.assoc)

lemma has_room_mono: "has_room n st \<Longrightarrow> m \<le> n \<Longrightarrow> has_room m st"
  by (auto simp: has_room_def split: if_splits)

lemma pb_write_put:
  assumes "plain_stream st" "has_room (length xs) st"
  shows "pb_write xs (length xs) st = (True, put xs st)"
proof (cases "sink st")
  case (Buffer ys)
  with assms have "bytes_written st + length xs < size_lim" "bytes_written st + length xs \<le> max_size st"
    by (auto simp: has_room_def plain_stream_def is_sizing_def)
  with Buffer show ?thesis
    by (auto simp: pb_write_def is_sizing_def ostream_callback_def put_def)
next
  case Sizing
  with assms have "bytes_written st + length xs < size_lim" by (simp add: has_room_def is_sizing_def)
  with Sizing show ?thesis by (simp add: pb_write_def is_sizing_def put_def)
qed (use assms(1) in \<open>simp add: plain_stream_def\<close>)

text \<open>The failure for want of room, which no request below \<open>2^64\<close> in all escapes.\<close>

lemma pb_write_full:
  assumes "plain_stream st" "\<not> is_sizing st" "\<not> has_room n st" "bytes_written st + n < size_lim"
  shows "pb_write xs n st = (False, PB_SET_ERROR ''stream full'' st)"
  using assms by (auto simp: pb_write_def has_room_def plain_stream_def)

definition emits :: "('s pb_ostream \<Rightarrow> bool \<times> 's pb_ostream) \<Rightarrow> bytes \<Rightarrow> bool" where
  "emits w xs \<longleftrightarrow> (\<forall>st. plain_stream st \<longrightarrow>
     (has_room (length xs) st \<longrightarrow> w st = (True, put xs st)) \<and>
     (\<not> has_room (length xs) st \<longrightarrow> \<not> is_sizing st \<longrightarrow> bytes_written st + length xs < size_lim \<longrightarrow>
        \<not> fst (w st) \<and> errmsg (snd (w st)) \<noteq> None))"

lemma emitsD: "emits w xs \<Longrightarrow> plain_stream st \<Longrightarrow> has_room (length xs) st \<Longrightarrow> w st = (True, put xs st)"
  by (simp add: emits_def)

lemma emits_full:
  "emits w xs \<Longrightarrow> plain_stream st \<Longrightarrow> \<not> has_room (length xs) st \<Longrightarrow> \<not> is_sizing st \<Longrightarrow>
    bytes_written st + length xs < size_lim \<Longrightarrow> \<not> fst (w st) \<and> errmsg (snd (w st)) \<noteq> None"
  by (simp add: emits_def)

lemma emits_write: "emits (pb_write xs (length xs)) xs"
  unfolding emits_def
  by (auto simp: pb_write_put pb_write_full PB_SET_ERROR_def split: option.splits)

lemma emits_write_n: "n = length xs \<Longrightarrow> emits (pb_write xs n) xs"
  using emits_write by simp

lemma emits_seq:
  assumes 1: "emits w1 xs" and 2: "emits w2 ys"
  shows "emits (\<lambda>st. case w1 st of (False, st) \<Rightarrow> (False, st) | (True, st) \<Rightarrow> w2 st) (xs @ ys)"
  unfolding emits_def
proof (intro allI impI)
  fix st :: "'a pb_ostream"
  assume p: "plain_stream st"
  let ?w = "\<lambda>st. case w1 st of (False, st) \<Rightarrow> (False, st) | (True, st) \<Rightarrow> w2 st"
  have "?w st = (True, put (xs @ ys) st)" if r: "has_room (length (xs @ ys)) st"
  proof -
    have x: "has_room (length xs) st" by (rule has_room_mono [OF r]) simp
    from emitsD [OF 1 p x] emitsD [OF 2 plain_put [OF p x]] r show ?thesis by simp
  qed
  moreover have "\<not> fst (?w st) \<and> errmsg (snd (?w st)) \<noteq> None"
    if r: "\<not> has_room (length (xs @ ys)) st" and s: "\<not> is_sizing st" and l: "bytes_written st + length (xs @ ys) < size_lim"
  proof (cases "has_room (length xs) st")
    case True
    from emitsD [OF 1 p True] emits_full [OF 2 plain_put [OF p True]] r s l show ?thesis by simp
  next
    case False
    from emits_full [OF 1 p False s] l show ?thesis by (cases "w1 st"; cases "fst (w1 st)") simp_all
  qed
  ultimately show "(has_room (length (xs @ ys)) st \<longrightarrow> ?w st = (True, put (xs @ ys) st)) \<and>
     (\<not> has_room (length (xs @ ys)) st \<longrightarrow> \<not> is_sizing st \<longrightarrow> bytes_written st + length (xs @ ys) < size_lim \<longrightarrow>
        \<not> fst (?w st) \<and> errmsg (snd (?w st)) \<noteq> None)" by blast
qed

lemma emits_skip: "emits (Pair True) []"
  by (auto simp: emits_def has_room_def plain_stream_def)

subsection \<open>The primitive encoders\<close>

lemma emits_varint: "emits (pb_encode_varint v) (varint_bytes (unat v))"
  unfolding pb_encode_varint_bytes [abs_def] by (rule emits_write)

text \<open>Zigzag: the signed values in order of magnitude, \<open>0, -1, 1, -2, \<dots>\<close>.\<close>

definition zigzag :: "int \<Rightarrow> nat" where
  "zigzag i = (if i < 0 then nat (- 2 * i - 1) else nat (2 * i))"

lemma zigzag_word: "(if sint v < 0 then NOT (push_bit 1 v) else push_bit 1 v) = (word_of_nat (zigzag (sint (v :: u64))) :: u64)"
proof -
  have p: "push_bit 1 v = word_of_int (2 * sint v)"
    using push_bit_of_int [of 1 "sint v", where ?'a = "64 word"] by (simp add: push_bit_eq_mult mult.commute)
  have n: "NOT (push_bit 1 v) = word_of_int (- 2 * sint v - 1)"
    unfolding p by (simp add: not_eq_complement)
  show ?thesis
  proof (cases "sint v < 0")
    case True
    then have "(word_of_nat (zigzag (sint v)) :: u64) = word_of_int (- 2 * sint v - 1)"
      unfolding zigzag_def by (simp only: if_True) (subst of_nat_nat, simp_all)
    with True n show ?thesis by simp
  next
    case False
    then have "(word_of_nat (zigzag (sint v)) :: u64) = word_of_int (2 * sint v)"
      unfolding zigzag_def by (simp only: if_False) (subst of_nat_nat, simp_all)
    with False p show ?thesis by simp
  qed
qed

lemma zigzag_bound: "zigzag (sint (v :: u64)) < 2 ^ 64"
  using sint_greater_eq [of v] sint_less [of v] by (auto simp: zigzag_def)

lemma emits_svarint: "emits (pb_encode_svarint v) (varint_bytes (zigzag (sint v)))"
  using emits_varint [of "word_of_nat (zigzag (sint v))"] zigzag_bound [of v]
  by (simp add: pb_encode_svarint_def [abs_def] zigzag_word Let_def unat_of_nat)

lemma zigzag_undo:
  fixes v :: u64
  defines "w \<equiv> (word_of_nat (zigzag (sint v)) :: u64)"
  shows "(if w AND 1 \<noteq> 0 then NOT (drop_bit 1 w) else drop_bit 1 w) = v"
proof -
  have sgn: "sint v < 0 \<longleftrightarrow> bit v 63" using bit_last_iff [of v] by simp
  have w: "w = (if bit v 63 then NOT (push_bit 1 v) else push_bit 1 v)"
    unfolding w_def zigzag_word [symmetric] sgn ..
  have "w AND 1 \<noteq> 0 \<longleftrightarrow> bit w 0"
    using and_exp_eq_0_iff_not_bit [of w 0] by (simp only: power_0 not_not)
  also have "\<dots> \<longleftrightarrow> bit v 63" unfolding w by (simp add: bit_not_iff bit_push_bit_iff del: bit_0 push_bit_Suc push_bit_numeral)
  finally have odd: "w AND 1 \<noteq> 0 \<longleftrightarrow> bit v 63" .
  show ?thesis
  proof (cases "bit v 63")
    case True
    have "NOT (drop_bit 1 (NOT (push_bit 1 v))) = v"
    proof (rule bit_word_eqI)
      fix n assume "n < LENGTH(64)"
      then show "bit (NOT (drop_bit 1 (NOT (push_bit 1 v)))) n = bit v n"
        using True by (cases "n = 63") (auto simp: bit_simps simp del: push_bit_Suc)
    qed
    with True odd w show ?thesis by simp
  next
    case False
    have "drop_bit 1 (push_bit 1 v) = v"
    proof (rule bit_word_eqI)
      fix n assume "n < LENGTH(64)"
      then show "bit (drop_bit 1 (push_bit 1 v)) n = bit v n"
        using False by (cases "n = 63") (auto simp: bit_simps simp del: push_bit_Suc)
    qed
    with False odd w show ?thesis by simp
  qed
qed

text \<open>Fixed-width values are little-endian.\<close>

definition fixed32_bytes :: "u32 \<Rightarrow> bytes" where
  "fixed32_bytes v = map (\<lambda>i. ucast (drop_bit (8 * i) v)) [0..<4]"

definition fixed64_bytes :: "u64 \<Rightarrow> bytes" where
  "fixed64_bytes v = map (\<lambda>i. ucast (drop_bit (8 * i) v)) [0..<8]"

lemma length_fixed [simp]: "length (fixed32_bytes v) = 4" "length (fixed64_bytes w) = 8"
  by (simp_all add: fixed32_bytes_def fixed64_bytes_def)

lemma ucast_and_ff:
  assumes "8 \<le> LENGTH('a)" shows "(ucast (w AND 0xFF) :: u8) = ucast (w :: 'a :: len word)"
proof -
  have m: "(0xFF :: 'a word) = mask 8" by (simp add: mask_eq_exp_minus_1)
  show ?thesis unfolding m by (rule bit_word_eqI) (use assms in \<open>auto simp: bit_simps\<close>)
qed

lemma upt_4: "[0..<4] = [0, 1, 2, 3 :: nat]" and upt_8: "[0..<8] = [0, 1, 2, 3, 4, 5, 6, 7 :: nat]"
  by (simp_all add: upt_conv_Cons)

lemma fixed32_list: "fixed32_bytes v = [ucast v, ucast (drop_bit 8 v), ucast (drop_bit 16 v), ucast (drop_bit 24 v)]"
  by (simp add: fixed32_bytes_def upt_4)

lemma fixed64_list: "fixed64_bytes v = [ucast v, ucast (drop_bit 8 v), ucast (drop_bit 16 v), ucast (drop_bit 24 v),
    ucast (drop_bit 32 v), ucast (drop_bit 40 v), ucast (drop_bit 48 v), ucast (drop_bit 56 v)]"
  by (simp add: fixed64_bytes_def upt_8)

lemma pb_encode_fixed32_write: "pb_encode_fixed32 v st = pb_write (fixed32_bytes v) 4 st"
  by (simp add: pb_encode_fixed32_def ucast_and_ff fixed32_list)

lemma emits_fixed32: "emits (pb_encode_fixed32 v) (fixed32_bytes v)"
  unfolding pb_encode_fixed32_write [abs_def] by (rule emits_write_n) simp

lemma pb_encode_fixed64_write: "pb_encode_fixed64 v st = pb_write (fixed64_bytes v) 8 st"
  by (simp add: pb_encode_fixed64_def ucast_and_ff fixed64_list)

lemma emits_fixed64: "emits (pb_encode_fixed64 v) (fixed64_bytes v)"
  unfolding pb_encode_fixed64_write [abs_def] by (rule emits_write_n) simp

lemma byte_split: "(ucast (ucast w :: u8) :: 'a word) OR push_bit 8 (drop_bit 8 w) = (w :: 'a :: len word)"
proof (rule bit_word_eqI)
  fix n assume "n < LENGTH('a)"
  then show "bit ((ucast (ucast w :: u8) :: 'a word) OR push_bit 8 (drop_bit 8 w)) n = bit w n"
    by (cases "n < 8") (auto simp: bit_simps)
qed

lemma pb_decode_fixed32_buf:
  assumes "wf_stream st" "content st = fixed32_bytes v @ r"
  shows "pb_decode_fixed32 st = (Some v, adv 4 st)"
proof -
  have "4 \<le> bytes_left st" using length_stream_content [OF assms(1)] assms(2) by simp
  from pb_read_buf [OF assms(1) this, of False] have r: "pb_read False 4 st = (Some (fixed32_bytes v), adv 4 st)"
    by (simp add: assms(2))
  note sp = byte_split [of v] byte_split [of "drop_bit 8 v"] byte_split [of "drop_bit 16 v"] byte_split [of "drop_bit 24 v"]
  have "drop_bit 32 v = 0" by (simp add: drop_bit_eq_0_iff)
  with sp have "v = ucast (ucast v :: u8) OR push_bit 8 (ucast (ucast (drop_bit 8 v) :: u8) OR
      push_bit 8 (ucast (ucast (drop_bit 16 v) :: u8) OR push_bit 8 (ucast (ucast (drop_bit 24 v) :: u8))))"
    by simp
  then show ?thesis
    by (simp add: pb_decode_fixed32_def r fixed32_list or.assoc push_bit_or)
qed

lemma pb_decode_fixed64_buf:
  assumes "wf_stream st" "content st = fixed64_bytes v @ r"
  shows "pb_decode_fixed64 st = (Some v, adv 8 st)"
proof -
  have "8 \<le> bytes_left st" using length_stream_content [OF assms(1)] assms(2) by simp
  from pb_read_buf [OF assms(1) this, of False] have r: "pb_read False 8 st = (Some (fixed64_bytes v), adv 8 st)"
    by (simp add: assms(2))
  note sp = byte_split [of v] byte_split [of "drop_bit 8 v"] byte_split [of "drop_bit 16 v"] byte_split [of "drop_bit 24 v"]
    byte_split [of "drop_bit 32 v"] byte_split [of "drop_bit 40 v"] byte_split [of "drop_bit 48 v"] byte_split [of "drop_bit 56 v"]
  have "drop_bit 64 v = 0" by (simp add: drop_bit_eq_0_iff)
  with sp have "v = ucast (ucast v :: u8) OR push_bit 8 (ucast (ucast (drop_bit 8 v) :: u8) OR
      push_bit 8 (ucast (ucast (drop_bit 16 v) :: u8) OR push_bit 8 (ucast (ucast (drop_bit 24 v) :: u8) OR
      push_bit 8 (ucast (ucast (drop_bit 32 v) :: u8) OR push_bit 8 (ucast (ucast (drop_bit 40 v) :: u8) OR
      push_bit 8 (ucast (ucast (drop_bit 48 v) :: u8) OR push_bit 8 (ucast (ucast (drop_bit 56 v) :: u8))))))))"
    by simp
  then show ?thesis
    by (simp add: pb_decode_fixed64_def r fixed64_list or.assoc push_bit_or)
qed

subsection \<open>Strings and tags\<close>

definition string_bytes :: "bytes \<Rightarrow> bytes" where
  "string_bytes xs = varint_bytes (length xs) @ xs"

lemma emits_string: "n = length xs \<Longrightarrow> n < size_lim \<Longrightarrow> emits (pb_encode_string xs n) (string_bytes xs)"
  using emits_seq [OF emits_varint [of "word_of_nat n"] emits_write [of xs]]
  by (simp add: pb_encode_string_def [abs_def] string_bytes_def unat_of_nat)

definition tag_bytes :: "u32 \<Rightarrow> u32 \<Rightarrow> bytes" where
  "tag_bytes wire_type tag = varint_bytes (8 * unat tag + unat wire_type)"

lemma tag_word:
  assumes "unat (wt :: u32) < 8"
  shows "unat (push_bit 3 (ucast (tag :: u32)) OR ucast wt :: u64) = 8 * unat tag + unat wt"
proof -
  have "unat tag < 2 ^ 32" using unsigned_less [of tag, where ?'a = nat] by simp
  then have "unat (ucast tag :: u64) < 2 ^ (LENGTH(64) - 3)" by (simp add: unat_ucast_up)
  from unat_push_bit_or [OF this] assms show ?thesis by (simp add: unat_ucast_up)
qed

lemma emits_tag: "unat wt < 8 \<Longrightarrow> emits (pb_encode_tag wt tag) (tag_bytes wt tag)"
  using emits_varint [of "push_bit 3 (ucast tag) OR ucast wt"]
  by (simp add: pb_encode_tag_def [abs_def] tag_bytes_def tag_word)

text \<open>A tag that fits 29 bits is read back.\<close>

lemma pb_decode_tag_buf:
  assumes wf: "wf_stream st" and c: "content st = tag_bytes wt tag @ r" and wt: "unat wt < 8" and tag: "0 < unat tag" "unat tag < 2 ^ 29"
  shows "pb_decode_tag st = (Some (wt, tag), False, adv (length (tag_bytes wt tag)) st)"
proof -
  let ?n = "8 * unat tag + unat wt"
  have n: "?n < 2 ^ 32" using wt tag by simp
  have s: "varint_split (content st) = Some (varint_bytes ?n, r)" by (simp add: c tag_bytes_def)
  have "length (varint_bytes ?n) \<le> Suc 4" using n by (intro varint_bytes_length) simp
  with pb_decode_varint32_buf [OF wf s] n have d: "pb_decode_varint32_eof st =
      (Some (word_of_nat ?n), False, adv (length (varint_bytes ?n)) st)"
    by simp
  have u: "unat (word_of_nat ?n :: u32) = ?n" using n by (simp add: unat_of_nat del: of_nat_add of_nat_mult)
  have m7: "(7 :: u32) = mask 3" by (simp add: mask_eq_exp_minus_1)
  have "unat (word_of_nat ?n AND 7 :: u32) = unat wt"
    unfolding m7 unat_and_mask u using wt by simp
  moreover have "unat (drop_bit 3 (word_of_nat ?n :: u32)) = unat tag"
    unfolding unat_drop_bit u using wt by simp
  moreover have "(word_of_nat ?n :: u32) \<noteq> 0" using u tag(1) by (metis add_is_0 mult_is_0 not_gr_zero unat_0 zero_neq_numeral)
  ultimately show ?thesis
    using d by (simp add: pb_decode_tag_def tag_bytes_def word_unat_eq_iff del: of_nat_add of_nat_mult)
qed

lemma pb_decode_varint32_bytes:
  assumes "wf_stream st" "content st = varint_bytes n @ r" "n < 2 ^ 32"
  shows "pb_decode_varint32 st = (Some (word_of_nat n), adv (length (varint_bytes n)) st)"
proof -
  have s: "varint_split (content st) = Some (varint_bytes n, r)" by (simp add: assms(2))
  have "length (varint_bytes n) \<le> Suc 4" using assms(3) by (intro varint_bytes_length) simp
  with pb_decode_varint32_buf [OF assms(1) s] assms(3) show ?thesis
    by (simp add: pb_decode_varint32_def)
qed

end
