(* ===== verification/Memory.thy ===== *)
theory Memory
  imports Prelude
begin

text \<open>
  Memory as the C code sees it: bytes at 64-bit addresses, little-endian loads and stores, and the blocks of
  the allocator. Regions of addresses state what a function may change.
\<close>

unbundle bit_operations_syntax

type_synonym addr = u64

record heap =
  mem :: "addr \<Rightarrow> u8"
  blocks :: "addr \<Rightarrow> nat option"

definition load_bytes :: "heap \<Rightarrow> addr \<Rightarrow> nat \<Rightarrow> bytes" where
  "load_bytes h a n = map (\<lambda>i. mem h (a + word_of_nat i)) [0..<n]"

definition store_bytes :: "addr \<Rightarrow> bytes \<Rightarrow> heap \<Rightarrow> heap" where
  "store_bytes a xs h = h\<lparr>mem := \<lambda>x. if unat (x - a) < length xs then xs ! unat (x - a) else mem h x\<rparr>"

definition load_u16 :: "heap \<Rightarrow> addr \<Rightarrow> u16" where "load_u16 h a = word_of_nat (le_val (load_bytes h a 2))"
definition load_u32 :: "heap \<Rightarrow> addr \<Rightarrow> u32" where "load_u32 h a = word_of_nat (le_val (load_bytes h a 4))"
definition load_u64 :: "heap \<Rightarrow> addr \<Rightarrow> u64" where "load_u64 h a = word_of_nat (le_val (load_bytes h a 8))"
definition store_u16 :: "addr \<Rightarrow> u16 \<Rightarrow> heap \<Rightarrow> heap" where "store_u16 a v = store_bytes a (le_bytes 2 (unat v))"
definition store_u32 :: "addr \<Rightarrow> u32 \<Rightarrow> heap \<Rightarrow> heap" where "store_u32 a v = store_bytes a (le_bytes 4 (unat v))"
definition store_u64 :: "addr \<Rightarrow> u64 \<Rightarrow> heap \<Rightarrow> heap" where "store_u64 a v = store_bytes a (le_bytes 8 (unat v))"

subsection \<open>Loads after stores\<close>

text \<open>Two regions of memory without a common byte.\<close>

definition apart :: "addr \<Rightarrow> nat \<Rightarrow> addr \<Rightarrow> nat \<Rightarrow> bool" where
  "apart a n b m \<longleftrightarrow> (\<forall>i<n. \<forall>j<m. a + word_of_nat i \<noteq> b + word_of_nat j)"

lemma length_load_bytes [simp]: "length (load_bytes h a n) = n"
  by (simp add: load_bytes_def)

lemma unat_word_of_nat_u64: "i < size_lim \<Longrightarrow> unat (word_of_nat i :: u64) = i"
  by (simp add: unat_of_nat)

lemma mem_store_bytes_in:
  "i < length xs \<Longrightarrow> length xs \<le> size_lim \<Longrightarrow> mem (store_bytes a xs h) (a + word_of_nat i) = xs ! i"
  by (simp add: store_bytes_def unat_word_of_nat_u64)

lemma mem_store_bytes_out: "(\<And>i. i < length xs \<Longrightarrow> x \<noteq> a + word_of_nat i) \<Longrightarrow> mem (store_bytes a xs h) x = mem h x"
proof -
  assume o: "\<And>i. i < length xs \<Longrightarrow> x \<noteq> a + word_of_nat i"
  have "\<not> unat (x - a) < length xs"
  proof
    assume "unat (x - a) < length xs"
    from o [OF this] show False by simp
  qed
  then show ?thesis by (simp add: store_bytes_def)
qed

lemma load_store_same: "length xs = n \<Longrightarrow> n \<le> size_lim \<Longrightarrow> load_bytes (store_bytes a xs h) a n = xs"
  by (auto simp: load_bytes_def mem_store_bytes_in intro!: nth_equalityI)

lemma load_store_apart: "apart a (length xs) b n \<Longrightarrow> load_bytes (store_bytes a xs h) b n = load_bytes h b n"
  unfolding load_bytes_def apart_def by (intro map_cong refl mem_store_bytes_out) (simp, metis)

lemma apart_sym: "apart a n b m \<Longrightarrow> apart b m a n"
  unfolding apart_def by metis

lemma apart_mono: "apart a n b m \<Longrightarrow> n' \<le> n \<Longrightarrow> m' \<le> m \<Longrightarrow> apart a n' b m'"
  unfolding apart_def by (meson less_le_trans)

lemma store_bytes_Nil [simp]: "store_bytes a [] h = h"
  by (simp add: store_bytes_def)

lemma blocks_store_bytes [simp]: "blocks (store_bytes a xs h) = blocks h"
  by (simp add: store_bytes_def)

lemma le_val_bound: "le_val bs < 256 ^ length bs"
  unfolding le_val_def using be_val_bound [of "rev bs"] by simp

lemma length_le_bytes [simp]: "length (le_bytes n v) = n"
  by (simp add: le_bytes_def)

lemma le_bytes_le_val [simp]: "le_bytes (length bs) (le_val bs) = bs"
  using be_bytes_be_val [of "rev bs"] by (simp add: le_bytes_def le_val_def)

lemma le_val_le_bytes: "v < 256 ^ n \<Longrightarrow> le_val (le_bytes n v) = v"
  by (simp add: le_bytes_def le_val_def be_val_be_bytes_id)

lemma le_bytes_load: "le_bytes n (le_val (load_bytes h a n)) = load_bytes h a n"
  using le_bytes_le_val [of "load_bytes h a n"] by simp

lemma load_store_u32: "load_u32 (store_u32 a v h) a = v"
proof -
  have "unat v < 256 ^ 4" using unsigned_less [of v, where ?'a = nat] by simp
  then show ?thesis by (simp add: load_u32_def store_u32_def load_store_same le_val_le_bytes)
qed

subsection \<open>Regions\<close>

text \<open>The heaps that agree outside of a set of addresses.\<close>

definition same_outside :: "addr set \<Rightarrow> heap \<Rightarrow> heap \<Rightarrow> bool" where
  "same_outside F h h' \<longleftrightarrow> (\<forall>a. a \<notin> F \<longrightarrow> mem h' a = mem h a)"

definition region :: "addr \<Rightarrow> nat \<Rightarrow> addr set" where
  "region p n = (\<lambda>i. p + word_of_nat i) ` {..<n}"

lemma same_outside_refl [simp]: "same_outside F h h"
  by (simp add: same_outside_def)

lemma same_outside_trans: "same_outside F h1 h2 \<Longrightarrow> same_outside G h2 h3 \<Longrightarrow> F \<union> G \<subseteq> H \<Longrightarrow> same_outside H h1 h3"
  unfolding same_outside_def by (metis UnI1 UnI2 subsetD)

lemma same_outside_mono: "same_outside F h h' \<Longrightarrow> F \<subseteq> G \<Longrightarrow> same_outside G h h'"
  unfolding same_outside_def by blast

lemma same_outside_store: "region a (length xs) \<subseteq> F \<Longrightarrow> same_outside F h (store_bytes a xs h)"
  unfolding same_outside_def region_def by (intro allI impI mem_store_bytes_out) auto

lemma load_bytes_cong: "(\<And>x. x \<in> region a n \<Longrightarrow> mem h' x = mem h x) \<Longrightarrow> load_bytes h' a n = load_bytes h a n"
  by (simp add: load_bytes_def region_def)

lemma load_bytes_outside: "same_outside F h h' \<Longrightarrow> region a n \<inter> F = {} \<Longrightarrow> load_bytes h' a n = load_bytes h a n"
  by (intro load_bytes_cong) (auto simp: same_outside_def)

lemma region_mono: "m \<le> n \<Longrightarrow> region p m \<subseteq> region p n"
  by (auto simp: region_def)

lemma region_sub: "k + m \<le> n \<Longrightarrow> region (p + word_of_nat k) m \<subseteq> region p n"
proof
  fix x assume "k + m \<le> n" "x \<in> region (p + word_of_nat k) m"
  then obtain i where "i < m" "x = p + word_of_nat (k + i)" by (auto simp: region_def add.assoc)
  then show "x \<in> region p n" using \<open>k + m \<le> n\<close> unfolding region_def by (intro image_eqI [of _ _ "k + i"]) simp_all
qed

definition agree :: "addr set \<Rightarrow> heap \<Rightarrow> heap \<Rightarrow> bool" where
  "agree R h h' \<longleftrightarrow> (\<forall>x\<in>R. mem h' x = mem h x)"

lemma agree_mono: "agree R h h' \<Longrightarrow> Q \<subseteq> R \<Longrightarrow> agree Q h h'"
  by (auto simp: agree_def)

lemma agree_outside: "same_outside F h h' \<Longrightarrow> R \<inter> F = {} \<Longrightarrow> agree R h h'"
  by (auto simp: agree_def same_outside_def)

lemma agree_load: "agree (region p n) h h' \<Longrightarrow> load_bytes h' p n = load_bytes h p n"
  by (intro load_bytes_cong) (simp add: agree_def)

lemma agree_u32: "agree (region p 4) h h' \<Longrightarrow> load_u32 h' p = load_u32 h p"
  by (simp add: load_u32_def agree_load)

lemma region_disjoint:
  assumes "a + n \<le> b" "b + m \<le> size_lim"
  shows "region (q + word_of_nat a) n \<inter> region (q + word_of_nat b) m = {}"
proof -
  have "q + word_of_nat a + word_of_nat i \<noteq> q + word_of_nat b + word_of_nat j" if "i < n" "j < m" for i j
  proof -
    have "unat (word_of_nat (a + i) :: addr) = a + i" "unat (word_of_nat (b + j) :: addr) = b + j"
      using assms that by (simp_all add: unat_of_nat del: of_nat_add)
    then have "(word_of_nat (a + i) :: addr) \<noteq> word_of_nat (b + j)" using assms that by (metis add_less_cancel_left leD le_add1 order.strict_trans2)
    then show ?thesis by (simp add: add.assoc)
  qed
  then show ?thesis unfolding region_def by blast
qed

end
