(* ===== verification/Pb_Common.thy ===== *)
theory Pb_Common
  imports Memory
begin

text \<open>
  nanopb: field descriptors (\<open>pb.h\<close>) and the field iterator of \<open>pb_common.c\<close>. A descriptor array is
  a list that ends with the terminator \<open>PB_LAST_FIELD\<close>; a pointer into it is an index. Addresses are
  64-bit words. Walking with the iterator from any field visits every field once and computes the
  address of each from the sizes of those before it.
\<close>

unbundle bit_operations_syntax

record pb_field =
  ftag :: u32
  ftype :: u8
  data_offset :: u32
  size_offset :: u32
  data_size :: u32
  array_size :: u32
  fptr :: addr

abbreviation PB_SIZE_MAX :: u32 where "PB_SIZE_MAX \<equiv> - 1"

definition PB_LTYPE_BOOL :: u8 where "PB_LTYPE_BOOL = 0x00"
definition PB_LTYPE_VARINT :: u8 where "PB_LTYPE_VARINT = 0x01"
definition PB_LTYPE_UVARINT :: u8 where "PB_LTYPE_UVARINT = 0x02"
definition PB_LTYPE_SVARINT :: u8 where "PB_LTYPE_SVARINT = 0x03"
definition PB_LTYPE_FIXED32 :: u8 where "PB_LTYPE_FIXED32 = 0x04"
definition PB_LTYPE_FIXED64 :: u8 where "PB_LTYPE_FIXED64 = 0x05"
definition PB_LTYPE_LAST_PACKABLE :: u8 where "PB_LTYPE_LAST_PACKABLE = 0x05"
definition PB_LTYPE_BYTES :: u8 where "PB_LTYPE_BYTES = 0x06"
definition PB_LTYPE_STRING :: u8 where "PB_LTYPE_STRING = 0x07"
definition PB_LTYPE_SUBMESSAGE :: u8 where "PB_LTYPE_SUBMESSAGE = 0x08"
definition PB_LTYPE_EXTENSION :: u8 where "PB_LTYPE_EXTENSION = 0x09"
definition PB_LTYPE_FIXED_LENGTH_BYTES :: u8 where "PB_LTYPE_FIXED_LENGTH_BYTES = 0x0A"

definition PB_HTYPE_REQUIRED :: u8 where "PB_HTYPE_REQUIRED = 0x00"
definition PB_HTYPE_OPTIONAL :: u8 where "PB_HTYPE_OPTIONAL = 0x10"
definition PB_HTYPE_REPEATED :: u8 where "PB_HTYPE_REPEATED = 0x20"
definition PB_HTYPE_ONEOF :: u8 where "PB_HTYPE_ONEOF = 0x30"

definition PB_ATYPE_STATIC :: u8 where "PB_ATYPE_STATIC = 0x00"
definition PB_ATYPE_POINTER :: u8 where "PB_ATYPE_POINTER = 0x80"
definition PB_ATYPE_CALLBACK :: u8 where "PB_ATYPE_CALLBACK = 0x40"

definition PB_ATYPE :: "u8 \<Rightarrow> u8" where "PB_ATYPE x = x AND 0xC0"
definition PB_HTYPE :: "u8 \<Rightarrow> u8" where "PB_HTYPE x = x AND 0x30"
definition PB_LTYPE :: "u8 \<Rightarrow> u8" where "PB_LTYPE x = x AND 0x0F"

lemmas ltypes = PB_LTYPE_BOOL_def PB_LTYPE_VARINT_def PB_LTYPE_UVARINT_def PB_LTYPE_SVARINT_def PB_LTYPE_FIXED32_def
  PB_LTYPE_FIXED64_def PB_LTYPE_LAST_PACKABLE_def PB_LTYPE_BYTES_def PB_LTYPE_STRING_def PB_LTYPE_SUBMESSAGE_def
  PB_LTYPE_EXTENSION_def PB_LTYPE_FIXED_LENGTH_BYTES_def
lemmas htypes = PB_HTYPE_REQUIRED_def PB_HTYPE_OPTIONAL_def PB_HTYPE_REPEATED_def PB_HTYPE_ONEOF_def
lemmas atypes = PB_ATYPE_STATIC_def PB_ATYPE_POINTER_def PB_ATYPE_CALLBACK_def
lemmas type_parts = PB_ATYPE_def PB_HTYPE_def PB_LTYPE_def

definition PB_LAST_FIELD :: pb_field where
  "PB_LAST_FIELD = \<lparr>ftag = 0, ftype = 0, data_offset = 0, size_offset = 0, data_size = 0, array_size = 0, fptr = 0\<rparr>"

record pb_field_iter =
  start :: "pb_field list"
  pos :: nat
  required_field_index :: nat
  dest_struct :: addr
  pData :: addr
  pSize :: addr

text \<open>\<open>iter->pos\<close> dereferenced.\<close>

definition cur :: "pb_field_iter \<Rightarrow> pb_field" where
  "cur iter = start iter ! pos iter"

definition pb_field_iter_begin :: "pb_field list \<Rightarrow> addr \<Rightarrow> bool \<times> pb_field_iter" where
  "pb_field_iter_begin flds dest =
     (let f = flds ! 0; d = dest + ucast (data_offset f)
      in (ftag f \<noteq> 0,
          \<lparr>start = flds, pos = 0, required_field_index = 0, dest_struct = dest, pData = d,
           pSize = d + scast (size_offset f)\<rparr>))"

definition pb_field_iter_next :: "pb_field_iter \<Rightarrow> bool \<times> pb_field_iter" where
  "pb_field_iter_next iter =
     (let prev_field = cur iter in
      if ftag prev_field = 0 then (False, iter)
      else
        let iter = iter\<lparr>pos := pos iter + 1\<rparr>; f = cur iter in
        if ftag f = 0 then (False, snd (pb_field_iter_begin (start iter) (dest_struct iter)))
        else if PB_HTYPE (ftype prev_field) = PB_HTYPE_ONEOF \<and> PB_HTYPE (ftype f) = PB_HTYPE_ONEOF \<and>
                data_offset f = PB_SIZE_MAX
        then (True, iter)
        else
          let prev_size = (ucast (data_size prev_field) :: u64);
              prev_size = (if PB_ATYPE (ftype prev_field) = PB_ATYPE_STATIC \<and> PB_HTYPE (ftype prev_field) = PB_HTYPE_REPEATED
                           then prev_size * ucast (array_size prev_field)
                           else if PB_ATYPE (ftype prev_field) = PB_ATYPE_POINTER then 8
                           else prev_size);
              iter = (if PB_HTYPE (ftype prev_field) = PB_HTYPE_REQUIRED
                      then iter\<lparr>required_field_index := required_field_index iter + 1\<rparr> else iter);
              d = pData iter + prev_size + ucast (data_offset f)
          in (True, iter\<lparr>pData := d, pSize := d + scast (size_offset f)\<rparr>))"

text \<open>
  The loop of \<open>pb_field_iter_find\<close>, which goes round until it is back at \<open>first\<close>. The fuel bounds the
  fields looked at; their number is enough.
\<close>

primrec iter_find_loop :: "nat \<Rightarrow> nat \<Rightarrow> u32 \<Rightarrow> pb_field_iter \<Rightarrow> bool \<times> pb_field_iter" where
  "iter_find_loop 0 first tag iter = (False, iter)"
| "iter_find_loop (Suc n) first tag iter =
     (if ftag (cur iter) = tag \<and> PB_LTYPE (ftype (cur iter)) \<noteq> PB_LTYPE_EXTENSION then (True, iter)
      else
        let iter = snd (pb_field_iter_next iter)
        in if pos iter \<noteq> first then iter_find_loop n first tag iter else (False, iter))"

definition pb_field_iter_find :: "u32 \<Rightarrow> pb_field_iter \<Rightarrow> bool \<times> pb_field_iter" where
  "pb_field_iter_find tag iter = iter_find_loop (length (start iter)) (pos iter) tag iter"

subsection \<open>The iterator goes round the fields\<close>

text \<open>A descriptor array: fields with tags, and the terminator.\<close>

definition wf_fields :: "pb_field list \<Rightarrow> bool" where
  "wf_fields flds \<longleftrightarrow> (\<exists>fs. flds = fs @ [PB_LAST_FIELD] \<and> (\<forall>f\<in>set fs. ftag f \<noteq> 0))"

abbreviation nfields :: "pb_field list \<Rightarrow> nat" where "nfields flds \<equiv> length flds - 1"

primrec iter_at :: "pb_field list \<Rightarrow> addr \<Rightarrow> nat \<Rightarrow> pb_field_iter" where
  "iter_at flds dest 0 = snd (pb_field_iter_begin flds dest)"
| "iter_at flds dest (Suc k) = snd (pb_field_iter_next (iter_at flds dest k))"

lemma wf_fields_tag: "wf_fields flds \<Longrightarrow> k < length flds \<Longrightarrow> ftag (flds ! k) = 0 \<longleftrightarrow> k = nfields flds"
proof -
  assume "wf_fields flds" "k < length flds"
  then obtain fs where "flds = fs @ [PB_LAST_FIELD]" "\<forall>f\<in>set fs. ftag f \<noteq> 0" "k < Suc (length fs)"
    by (auto simp: wf_fields_def)
  then show ?thesis by (cases "k < length fs") (auto simp: nth_append PB_LAST_FIELD_def less_Suc_eq)
qed

lemma wf_fields_length: "wf_fields flds \<Longrightarrow> 0 < length flds"
  by (auto simp: wf_fields_def)

lemma iter_begin_simps [simp]:
  "start (snd (pb_field_iter_begin flds dest)) = flds" "pos (snd (pb_field_iter_begin flds dest)) = 0"
  "dest_struct (snd (pb_field_iter_begin flds dest)) = dest"
  by (simp_all add: pb_field_iter_begin_def Let_def)

lemma iter_at_start [simp]: "start (iter_at flds dest k) = flds" "dest_struct (iter_at flds dest k) = dest"
  by (induction k) (auto simp: pb_field_iter_next_def Let_def)

lemma iter_at_pos: "wf_fields flds \<Longrightarrow> k < nfields flds \<or> k = 0 \<Longrightarrow> pos (iter_at flds dest k) = k"
proof (induction k)
  case (Suc k)
  then have k: "pos (iter_at flds dest k) = k" "Suc k < nfields flds" by auto
  moreover have "ftag (flds ! k) \<noteq> 0" "ftag (flds ! Suc k) \<noteq> 0"
    using wf_fields_tag [OF Suc.prems(1), of k] wf_fields_tag [OF Suc.prems(1), of "Suc k"] k(2) by auto
  ultimately show ?case by (simp add: pb_field_iter_next_def Let_def cur_def)
qed simp

lemma cur_iter_at: "wf_fields flds \<Longrightarrow> k < nfields flds \<or> k = 0 \<Longrightarrow> cur (iter_at flds dest k) = flds ! k"
  by (simp add: cur_def iter_at_pos)

lemma iter_next_at:
  assumes "wf_fields flds" "k < nfields flds"
  shows "pb_field_iter_next (iter_at flds dest k) =
    (if Suc k < nfields flds then (True, iter_at flds dest (Suc k)) else (False, iter_at flds dest 0))"
proof -
  have p: "pos (iter_at flds dest k) = k" using assms by (simp add: iter_at_pos)
  have t: "ftag (flds ! k) \<noteq> 0" using wf_fields_tag [OF assms(1), of k] assms(2) by auto
  have t': "ftag (flds ! Suc k) = 0 \<longleftrightarrow> \<not> Suc k < nfields flds"
    using wf_fields_tag [OF assms(1), of "Suc k"] assms(2) by auto
  show ?thesis
    using t t' by (auto simp: pb_field_iter_next_def [of "iter_at flds dest k"] Let_def cur_def p)
qed

declare iter_at.simps [simp del]

lemma iter_next_empty: "wf_fields flds \<Longrightarrow> nfields flds = 0 \<Longrightarrow>
    pb_field_iter_next (iter_at flds dest 0) = (False, iter_at flds dest 0)"
  using wf_fields_tag [of flds 0] wf_fields_length [of flds]
  by (simp add: pb_field_iter_next_def Let_def cur_iter_at)

text \<open>The field with a given tag; extension ranges are not fields.\<close>

definition matches :: "pb_field list \<Rightarrow> u32 \<Rightarrow> nat \<Rightarrow> bool" where
  "matches flds tag k \<longleftrightarrow> ftag (flds ! k) = tag \<and> PB_LTYPE (ftype (flds ! k)) \<noteq> PB_LTYPE_EXTENSION"

text \<open>Going round from \<open>k\<close>, up to \<open>first\<close>: the indices visited.\<close>

lemma iter_find_loop_at:
  assumes wf: "wf_fields flds" and f: "first < nfields flds"
  shows "k < nfields flds \<Longrightarrow> (if k < first then first - k else nfields flds + first - k) \<le> n \<Longrightarrow>
    (case iter_find_loop n first tag (iter_at flds dest k) of
       (True, it) \<Rightarrow> (\<exists>j<nfields flds. matches flds tag j \<and> it = iter_at flds dest j)
     | (False, it) \<Rightarrow> it = iter_at flds dest first \<and>
         (\<forall>j<nfields flds. (if k < first then k \<le> j \<and> j < first else k \<le> j \<or> j < first) \<longrightarrow> \<not> matches flds tag j))"
proof (induction n arbitrary: k)
  case 0
  then show ?case using f by (auto split: if_splits)
next
  case (Suc n)
  let ?N = "nfields flds"
  show ?case
  proof (cases "matches flds tag k")
    case True
    then have e: "iter_find_loop (Suc n) first tag (iter_at flds dest k) = (True, iter_at flds dest k)"
      using Suc.prems(1) wf by (simp add: cur_iter_at matches_def)
    show ?thesis unfolding e prod.case bool.case by (intro exI [of _ k] conjI refl True Suc.prems(1))
  next
    case False
    define k' where "k' = (if Suc k < ?N then Suc k else 0)"
    have next': "snd (pb_field_iter_next (iter_at flds dest k)) = iter_at flds dest k'"
      using iter_next_at [OF wf Suc.prems(1)] by (simp add: k'_def)
    have k': "k' < ?N" "pos (iter_at flds dest k') = k'"
      using f wf by (auto simp: k'_def iter_at_pos)
    have step: "iter_find_loop (Suc n) first tag (iter_at flds dest k) =
        (if k' \<noteq> first then iter_find_loop n first tag (iter_at flds dest k') else (False, iter_at flds dest k'))"
    proof -
      have "\<not> (ftag (cur (iter_at flds dest k)) = tag \<and> PB_LTYPE (ftype (cur (iter_at flds dest k))) \<noteq> PB_LTYPE_EXTENSION)"
        using False Suc.prems(1) wf by (simp add: cur_iter_at matches_def)
      then show ?thesis unfolding iter_find_loop.simps Let_def next' k'(2) by (rule if_not_P)
    qed
    show ?thesis
    proof (cases "k' = first")
      case True
      then have one: "j = k" if "j < ?N" "if k < first then k \<le> j \<and> j < first else k \<le> j \<or> j < first" for j
        using that Suc.prems(1) by (auto simp: k'_def split: if_splits)
      have e: "iter_find_loop (Suc n) first tag (iter_at flds dest k) = (False, iter_at flds dest first)"
        using step True by simp
      from one False show ?thesis unfolding e prod.case bool.case by metis
    next
      case ne: False
      have m: "(if k' < first then first - k' else ?N + first - k') \<le> n"
        using Suc.prems ne f by (auto simp: k'_def split: if_splits)
      have cover: "j = k \<or> (if k' < first then k' \<le> j \<and> j < first else k' \<le> j \<or> j < first)"
        if "j < ?N" "if k < first then k \<le> j \<and> j < first else k \<le> j \<or> j < first" for j
        using that Suc.prems(1) ne f by (auto simp: k'_def split: if_splits)
      show ?thesis
      proof (cases "iter_find_loop n first tag (iter_at flds dest k')")
        case (Pair ok it)
        note ih = Suc.IH [OF k'(1) m, unfolded Pair prod.case]
        have e: "iter_find_loop (Suc n) first tag (iter_at flds dest k) = (ok, it)"
          using step ne Pair by simp
        show ?thesis
        proof (cases ok)
          case True
          with ih show ?thesis unfolding e prod.case by simp
        next
          case no: False
          then have o: "ok = False" by simp
          from ih [unfolded o bool.case] have "it = iter_at flds dest first"
            "\<And>j. j < ?N \<Longrightarrow> (if k' < first then k' \<le> j \<and> j < first else k' \<le> j \<or> j < first) \<Longrightarrow> \<not> matches flds tag j"
            by blast+
          with False cover show ?thesis unfolding e prod.case o bool.case by metis
        qed
      qed
    qed
  qed
qed

lemma pb_field_iter_find_at:
  assumes wf: "wf_fields flds" and k: "k < nfields flds" and f: "pb_field_iter_find tag (iter_at flds dest k) = (ok, it)"
  shows "if ok then \<exists>j<nfields flds. matches flds tag j \<and> it = iter_at flds dest j
    else it = iter_at flds dest k \<and> (\<forall>j<nfields flds. \<not> matches flds tag j)"
proof -
  have p: "pos (iter_at flds dest k) = k" using assms by (simp add: iter_at_pos)
  have m: "(if k < k then k - k else nfields flds + k - k) \<le> length flds" by simp
  have l: "iter_find_loop (length flds) k tag (iter_at flds dest k) = (ok, it)"
    using f by (simp add: pb_field_iter_find_def p)
  have c: "(if k < k then k \<le> j \<and> j < k else k \<le> j \<or> j < k)" for j by auto
  show ?thesis
    using iter_find_loop_at [OF wf k k m, of tag dest, unfolded l prod.case] c by (cases ok) simp_all
qed

text \<open>With distinct tags, the iterator found does not depend on where the search began.\<close>

lemma pb_field_iter_find_unique:
  assumes wf: "wf_fields flds" and k: "k < nfields flds" and j: "j < nfields flds" "matches flds tag j"
    and u: "\<And>i. i < nfields flds \<Longrightarrow> matches flds tag i \<Longrightarrow> i = j"
  shows "pb_field_iter_find tag (iter_at flds dest k) = (True, iter_at flds dest j)"
proof -
  obtain ok it where f: "pb_field_iter_find tag (iter_at flds dest k) = (ok, it)" by fastforce
  note r = pb_field_iter_find_at [OF wf k f]
  have ok using r j by (cases ok) simp_all
  with r obtain i where "i < nfields flds" "matches flds tag i" "it = iter_at flds dest i" by auto
  with u f \<open>ok\<close> show ?thesis by simp
qed

lemma pb_field_iter_find_none:
  assumes wf: "wf_fields flds" and k: "k < nfields flds" and n: "\<And>i. i < nfields flds \<Longrightarrow> \<not> matches flds tag i"
  shows "pb_field_iter_find tag (iter_at flds dest k) = (False, iter_at flds dest k)"
proof -
  obtain ok it where f: "pb_field_iter_find tag (iter_at flds dest k) = (ok, it)" by fastforce
  note r = pb_field_iter_find_at [OF wf k f]
  have "\<not> ok" using r n by (cases ok) auto
  with r f show ?thesis by simp
qed

end
