(* ===== verification/Pb_Properties.thy ===== *)
theory Pb_Properties
  imports Pb_Output Pb_Common
begin

text \<open>
  The properties of the nanopb streams: what the encoders write the decoders read, skipping,
  bounds, and the varints on which the 32-bit reader goes wrong.
\<close>

unbundle bit_operations_syntax

subsection \<open>Encoding into a buffer, decoding from one\<close>

text \<open>The bytes an encoder leaves in a buffer of \<open>n\<close> bytes, and a stream over a byte string.\<close>

definition encoded :: "(unit pb_ostream \<Rightarrow> bool \<times> unit pb_ostream) \<Rightarrow> nat \<Rightarrow> bytes option" where
  "encoded w n =
     (case w (pb_ostream_from_buffer n) of
        (False, st) \<Rightarrow> None
      | (True, st) \<Rightarrow> (case sink st of Buffer xs \<Rightarrow> Some xs | Sizing \<Rightarrow> None | Writer f s \<Rightarrow> None))"

definition stream_of :: "bytes \<Rightarrow> 's pb_istream" where
  "stream_of bs = pb_istream_from_buffer bs (length bs)"

lemma stream_of_simps [simp]: "wf_stream (stream_of bs)" "content (stream_of bs) = bs" "bytes_left (stream_of bs) = length bs"
  "src_bytes (stream_of bs) = bs"
  by (simp_all add: stream_of_def pb_istream_from_buffer_content) (simp_all add: pb_istream_from_buffer_def src_bytes_def)

lemma adv_stream_of: "k = length xs \<Longrightarrow> adv k (stream_of (xs @ r)) = stream_of r"
  by (simp add: adv_def stream_of_def pb_istream_from_buffer_def src_bytes_def)

lemma encoded_emits:
  assumes e: "emits w xs" and n: "n < size_lim" and l: "length xs < size_lim"
  shows "encoded w n = (if length xs \<le> n then Some xs else None)"
proof -
  let ?st = "pb_ostream_from_buffer n :: unit pb_ostream"
  have p: "plain_stream ?st" "\<not> is_sizing ?st" "bytes_written ?st = 0" "max_size ?st = n" "sink ?st = Buffer []"
    using n by (simp_all add: pb_ostream_from_buffer_def plain_stream_def is_sizing_def)
  have r: "has_room k ?st \<longleftrightarrow> k \<le> n" for k using p by (simp add: has_room_def)
  show ?thesis
  proof (cases "length xs \<le> n")
    case True
    with emitsD [OF e p(1)] r show ?thesis by (simp add: encoded_def put_def p)
  next
    case False
    with emits_full [OF e p(1) _ p(2)] r l p have "\<not> fst (w ?st)" by simp
    then show ?thesis using False by (cases "w ?st") (simp add: encoded_def)
  qed
qed

lemma encoded_Some: "emits w xs \<Longrightarrow> n < size_lim \<Longrightarrow> length xs < size_lim \<Longrightarrow> encoded w n = Some ys \<longleftrightarrow> ys = xs \<and> length xs \<le> n"
  using encoded_emits [of w xs n] by (auto split: if_splits)

text \<open>Reading what was written, for a stream of the bytes and more behind them.\<close>

lemma decode_varint_bytes:
  assumes "m < 2 ^ 64" shows "pb_decode_varint (stream_of (varint_bytes m @ r)) = (Some (word_of_nat m), stream_of r)"
proof -
  have "m < 128 ^ Suc 9" using assms by simp
  from varint_bytes_length [OF this] have l: "length (varint_bytes m) \<le> 10" by simp
  have s: "varint_split (content (stream_of (varint_bytes m @ r))) = Some (varint_bytes m, r)" by simp
  from pb_decode_varint_buf [OF _ s l] show ?thesis by (simp add: adv_stream_of)
qed

lemma decode_svarint_bytes:
  "pb_decode_svarint (stream_of (varint_bytes (zigzag (sint v)) @ r)) = (Some v, stream_of r)"
  by (simp only: pb_decode_svarint_def decode_varint_bytes [OF zigzag_bound] prod.case option.case zigzag_undo)

lemma decode_fixed_bytes:
  "pb_decode_fixed32 (stream_of (fixed32_bytes v @ r)) = (Some v, stream_of r)"
  "pb_decode_fixed64 (stream_of (fixed64_bytes w @ r)) = (Some w, stream_of r)"
  using pb_decode_fixed32_buf [of "stream_of (fixed32_bytes v @ r)" v r] pb_decode_fixed64_buf [of "stream_of (fixed64_bytes w @ r)" w r]
  by (simp_all add: adv_stream_of)

lemma size_lim_10: "k \<le> 10 \<Longrightarrow> k < size_lim" by simp

lemma varint_bytes_length_64: "m < 2 ^ 64 \<Longrightarrow> length (varint_bytes m) \<le> 10"
  using varint_bytes_length [of m 9] by simp

subsection \<open>Skipping\<close>

lemma pb_skip_varint_buf:
  "wf_stream st \<Longrightarrow> varint_split (content st) = Some (g, r) \<Longrightarrow> pb_skip_varint st = (True, adv (length g) st)"
proof (induction "content st" arbitrary: st g)
  case Nil
  from Nil(1) [symmetric] Nil(3) show ?case by simp
next
  case (Cons b bs)
  note c = Cons.hyps(2) [symmetric]
  have left: "1 \<le> bytes_left st" using length_stream_content [OF Cons.prems(1)] c by simp
  from pb_read_buf [OF Cons.prems(1) left, of False] c have rd: "pb_read False 1 st = (Some [b], adv 1 st)" by simp
  show ?case
  proof (cases "unat b < 128")
    case True
    with Cons.prems(2) c have g: "g = [b]" by simp
    have "b AND 0x80 = 0" using True and_0x80_iff [of b] by simp
    then show ?thesis using rd g by (simp add: pb_skip_varint.simps [of st])
  next
    case False
    with Cons.prems(2) c obtain g' where g: "g = b # g'" and s: "varint_split bs = Some (g', r)" by (auto split: if_splits)
    have b: "b AND 0x80 \<noteq> 0" using False and_0x80_iff [of b] by simp
    have wf: "wf_stream (adv 1 st)" using Cons.prems(1) left by simp
    have cs: "bs = content (adv 1 st)" by (simp add: c)
    from Cons.hyps(1) [OF cs wf s [unfolded cs]] have "pb_skip_varint (adv 1 st) = (True, adv (length g') (adv 1 st))" .
    then show ?thesis using rd b g by (simp add: pb_skip_varint.simps [of st])
  qed
qed

lemma pb_skip_varint_bytes:
  "wf_stream st \<Longrightarrow> content st = varint_bytes m @ r \<Longrightarrow> pb_skip_varint st = (True, adv (length (varint_bytes m)) st)"
  by (rule pb_skip_varint_buf [of _ _ r]) simp_all

lemma pb_skip_bytes_buf: "wf_stream st \<Longrightarrow> n \<le> bytes_left st \<Longrightarrow> pb_skip_bytes n st = (True, adv n st)"
  by (simp add: pb_skip_bytes_def pb_read_buf)

lemma pb_skip_string_buf:
  assumes "wf_stream st" "content st = string_bytes xs @ r" "length xs < 2 ^ 32"
  shows "pb_skip_string st = (True, adv (length (string_bytes xs)) st)"
proof -
  let ?v = "varint_bytes (length xs)"
  have c: "content st = ?v @ xs @ r" using assms(2) by (simp add: string_bytes_def)
  have l: "bytes_left st = length ?v + length xs + length r" using length_stream_content [OF assms(1)] c by simp
  have "unat (word_of_nat (length xs) :: u32) = length xs" using assms(3) by (simp add: unat_of_nat)
  with pb_decode_varint32_bytes [OF assms(1) c assms(3)] l assms(1) show ?thesis
    by (simp add: pb_skip_string_def pb_skip_bytes_buf string_bytes_def)
qed

lemma pb_make_string_substream_buf:
  assumes "wf_stream st" "content st = string_bytes xs @ r" "length xs < 2 ^ 32"
  shows "pb_make_string_substream st =
    (Some ((adv (length (varint_bytes (length xs))) st)\<lparr>bytes_left := length xs\<rparr>),
     (adv (length (varint_bytes (length xs))) st)\<lparr>bytes_left := length r\<rparr>)"
proof -
  let ?v = "varint_bytes (length xs)"
  have c: "content st = ?v @ xs @ r" using assms(2) by (simp add: string_bytes_def)
  have l: "bytes_left st = length ?v + length xs + length r" using length_stream_content [OF assms(1)] c by simp
  have "unat (word_of_nat (length xs) :: u32) = length xs" using assms(3) by (simp add: unat_of_nat)
  with pb_decode_varint32_bytes [OF assms(1) c assms(3)] l show ?thesis
    by (simp add: pb_make_string_substream_def)
qed

subsection \<open>The properties\<close>

text \<open>
  C35: the integers of the wire format are read back as they were written, behind them nothing is
  touched, and a varint takes at most ten bytes, one of 32 bits at most five.
\<close>

theorem pb_integers_roundtrip:
  assumes n: "n < size_lim"
  shows "(encoded (pb_encode_varint v) n = Some xs \<longrightarrow>
      length xs \<le> 10 \<and> pb_decode_varint (stream_of (xs @ r)) = (Some v, stream_of r)) \<and>
    (encoded (pb_encode_varint (ucast (w :: u32))) n = Some xs \<longrightarrow>
      length xs \<le> 5 \<and> pb_decode_varint32 (stream_of (xs @ r)) = (Some w, stream_of r)) \<and>
    (encoded (pb_encode_svarint v) n = Some xs \<longrightarrow>
      length xs \<le> 10 \<and> pb_decode_svarint (stream_of (xs @ r)) = (Some v, stream_of r)) \<and>
    (encoded (pb_encode_fixed32 w) n = Some xs \<longrightarrow>
      length xs = 4 \<and> pb_decode_fixed32 (stream_of (xs @ r)) = (Some w, stream_of r)) \<and>
    (encoded (pb_encode_fixed64 v) n = Some xs \<longrightarrow>
      length xs = 8 \<and> pb_decode_fixed64 (stream_of (xs @ r)) = (Some v, stream_of r)) \<and>
    (10 \<le> n \<longrightarrow> encoded (pb_encode_varint v) n \<noteq> None \<and> encoded (pb_encode_svarint v) n \<noteq> None \<and>
      encoded (pb_encode_fixed64 v) n \<noteq> None)"
proof -
  have lv: "length (varint_bytes (unat v)) \<le> 10" "length (varint_bytes (zigzag (sint v))) \<le> 10"
    by (rule varint_bytes_length_u64, rule varint_bytes_length_64 [OF zigzag_bound])
  have lw: "length (varint_bytes (unat w)) \<le> 5" by (rule varint_bytes_length_u32)
  have uw: "unat (ucast w :: u64) = unat w" by (simp add: unat_ucast_up)
  have bw: "unat w < 2 ^ 32" and bv: "unat v < 2 ^ 64"
    using unsigned_less [where ?'a = nat, of w] unsigned_less [where ?'a = nat, of v] by simp_all
  note e = encoded_Some [OF emits_varint n, of v] encoded_Some [OF emits_svarint n, of v] encoded_Some [OF emits_fixed32 n, of w]
    encoded_Some [OF emits_fixed64 n, of v] encoded_Some [OF emits_varint n, of "ucast w"]
  have d32: "pb_decode_varint32 (stream_of (varint_bytes (unat w) @ r)) = (Some w, stream_of r)"
    using pb_decode_varint32_bytes [of "stream_of (varint_bytes (unat w) @ r)" "unat w" r] bw by (simp add: adv_stream_of)
  show ?thesis
    using lv lw uw e decode_varint_bytes [OF bv, of r] d32 decode_svarint_bytes [of v r] decode_fixed_bytes(1) [of w r]
      decode_fixed_bytes(2) [of v r] encoded_emits [OF emits_varint n, of v] encoded_emits [OF emits_svarint n, of v]
      encoded_emits [OF emits_fixed64 n, of v]
    by auto
qed

lemma pb_integers_roundtrip_witness:
  "encoded (pb_encode_varint 300) 16 = Some [0xAC, 0x02] \<and>
   pb_decode_varint (stream_of ([0xAC, 0x02] @ [7])) = (Some 300, stream_of [7])"
proof -
  have e: "encoded (pb_encode_varint 300) 16 = Some [0xAC, 0x02]"
    using encoded_emits [OF emits_varint, of 16 300] by (simp add: varint_bytes.simps)
  have "pb_decode_varint (stream_of ([0xAC, 0x02] @ [7])) = (Some 300, stream_of [7])"
    by (rule pb_integers_roundtrip [of 16, THEN conjunct1, THEN mp, THEN conjunct2]) (simp, rule e)
  with e show ?thesis by (rule conjI)
qed

text \<open>
  C38: for a varint of up to five bytes the 32-bit reader agrees with the 64-bit one: it returns
  the same value when that fits 32 bits, fails with an overflow error when not, and leaves the stream
  behind the varint either way.
\<close>

theorem pb_varint32_agrees:
  assumes "wf_stream st" "varint_split (content st) = Some (g, r)" "length g \<le> 5"
  shows "\<exists>v st'. pb_decode_varint st = (Some v, st') \<and> content st' = r \<and>
    pb_decode_varint32 st = (if unat v < 2 ^ 32 then (Some (ucast v), st') else (None, PB_SET_ERROR ''varint overflow'' st'))"
proof -
  let ?n = "varint_val g" and ?st = "adv (length g) st"
  have "(128 :: nat) ^ length g \<le> 128 ^ 5" using assms(3) by (intro power_increasing) simp_all
  with varint_val_bound [of g] have n: "?n < 2 ^ 64" by simp
  then have u: "unat (word_of_nat ?n :: u64) = ?n" by (simp add: unat_of_nat)
  have "length g \<le> 10" using assms(3) by simp
  from pb_decode_varint_buf [OF assms(1,2) this] have d: "pb_decode_varint st = (Some (word_of_nat ?n), ?st)" .
  have c: "content ?st = r" using varint_split_app [OF assms(2)] by simp
  have uc: "(ucast (word_of_nat ?n :: u64) :: u32) = word_of_nat ?n"
    using of_nat_unat [of "word_of_nat ?n :: u64", where ?'a = "32 word"] u by metis
  have "pb_decode_varint32 st = (if ?n < 2 ^ 32 then (Some (word_of_nat ?n), ?st) else (None, PB_SET_ERROR ''varint overflow'' ?st))"
    unfolding pb_decode_varint32_def pb_decode_varint32_buf [OF assms] by (simp split: if_splits)
  with d c u uc show ?thesis by (intro exI [of _ "word_of_nat ?n"] exI [of _ ?st]) simp
qed

lemma pb_varint32_agrees_witness:
  "\<exists>v st'. pb_decode_varint (stream_of [0x80, 0x80, 0x80, 0x80, 0x10, 7] :: unit pb_istream) = (Some v, st') \<and> content st' = [7] \<and>
    pb_decode_varint32 (stream_of [0x80, 0x80, 0x80, 0x80, 0x10, 7]) =
      (if unat v < 2 ^ 32 then (Some (ucast v), st') else (None, PB_SET_ERROR ''varint overflow'' st'))"
  by (rule pb_varint32_agrees [of _ "[0x80, 0x80, 0x80, 0x80, 0x10]"]) simp_all

lemma padded_bound: "padded_from k g \<Longrightarrow> varint_val g < 128 ^ k"
proof (induction g arbitrary: k)
  case (Cons b g)
  show ?case
  proof (cases k)
    case 0
    with Cons.prems have "unat b mod 128 = 0" "padded_from 0 g"
      using unat_and_0x7f [of b] by (auto simp: padded_from_def)
    with Cons.IH [of 0] 0 show ?thesis by simp
  next
    case (Suc m)
    with Cons.prems have "varint_val g < 128 ^ m" by (intro Cons.IH) (simp add: padded_from_def)
    moreover have "unat b mod 128 < 128" by simp
    ultimately show ?thesis using Suc by simp
  qed
qed simp

text \<open>
  C39: on a varint padded with empty groups to six to ten bytes the 32-bit reader does not check the
  fifth byte: it returns the value modulo \<open>2^32\<close> where the 64-bit reader, on the same bytes, gives the
  value. The same value in five bytes is refused when it does not fit.
\<close>

theorem pb_varint32_truncates:
  assumes "wf_stream st" "varint_split (content st) = Some (g, r)" "5 < length g" "length g \<le> 10" "padded_from 5 g"
  shows "\<exists>v w st'. pb_decode_varint st = (Some v, st') \<and> unat v = varint_val g \<and> content st' = r \<and>
    pb_decode_varint32 st = (Some w, st') \<and> unat w = varint_val g mod 2 ^ 32"
proof (intro exI conjI)
  have "varint_val g < 128 ^ 5" by (rule padded_bound [OF assms(5)])
  then have n: "varint_val g < 2 ^ 64" by simp
  show "pb_decode_varint st = (Some (word_of_nat (varint_val g)), adv (length g) st)"
    by (rule pb_decode_varint_buf [OF assms(1,2,4)])
  show "unat (word_of_nat (varint_val g) :: u64) = varint_val g" using n by (simp add: unat_of_nat)
  show "content (adv (length g) st) = r" using varint_split_app [OF assms(2)] by simp
  have "length g \<noteq> 1" "length g \<noteq> 5" using assms(3) by simp_all
  with pb_decode_varint32_multi [OF assms(1,2,4,5)]
  show "pb_decode_varint32 st = (Some (word_of_nat (varint_val g)), adv (length g) st)"
    by (simp add: pb_decode_varint32_def)
  show "unat (word_of_nat (varint_val g) :: u32) = varint_val g mod 2 ^ 32" by (simp add: unat_of_nat)
qed

lemma pb_varint32_truncates_witness:
  "\<exists>v w st'. pb_decode_varint (stream_of [0x85, 0x80, 0x80, 0x80, 0x90, 0x00, 7] :: unit pb_istream) = (Some v, st') \<and>
    unat v = 2 ^ 32 + 5 \<and> content st' = [7] \<and>
    pb_decode_varint32 (stream_of [0x85, 0x80, 0x80, 0x80, 0x90, 0x00, 7]) = (Some w, st') \<and> unat w = 5"
  using pb_varint32_truncates [of "stream_of [0x85, 0x80, 0x80, 0x80, 0x90, 0x00, 7] :: unit pb_istream" "[0x85, 0x80, 0x80, 0x80, 0x90, 0x00]" "[7]"]
  by (simp add: padded_from_def)

text \<open>
  The byte-sized bit position: 37 continuation bytes bring it round to 3, and the next byte is taken into
  the result again, where the 64-bit reader stops with an error.
\<close>

lemma varint32_position_wraps:
  "fst (pb_decode_varint32 (stream_of (replicate 37 0x80 @ [1]))) = Some 8 \<and>
   fst (pb_decode_varint (stream_of (replicate 37 0x80 @ [1]))) = None"
proof -
  note ev = stream_of_def pb_istream_from_buffer_def pb_decode_varint32_def pb_decode_varint32_eof_def pb_decode_varint_def
    pb_readbyte_def istream_callback_def buf_read_def varint32_loop.simps varint_loop.simps PB_SET_ERROR_def
  have "replicate 37 (0x80 :: u8) @ [1] = [0x80, 0x80, 0x80, 0x80, 0x80, 0x80, 0x80, 0x80, 0x80, 0x80, 0x80, 0x80, 0x80,
     0x80, 0x80, 0x80, 0x80, 0x80, 0x80, 0x80, 0x80, 0x80, 0x80, 0x80, 0x80, 0x80, 0x80, 0x80, 0x80, 0x80, 0x80, 0x80,
     0x80, 0x80, 0x80, 0x80, 0x80, 1]"
    by (simp add: eval_nat_numeral)
  then show ?thesis by (simp add: ev)
qed

text \<open>
  C37: skipping passes over any field: behind the tag of a field of each of the four wire types, as the
  encoders write it, \<open>pb_skip_field\<close> stops at the first byte that is not of the field.
\<close>

theorem pb_skip_field_exact:
  assumes n: "n < size_lim" and tag: "0 < unat tag" "unat tag < 2 ^ 29" and ys: "length ys < 2 ^ 32"
    and w: "(wt, w) \<in> {(PB_WT_VARINT, pb_encode_varint v), (PB_WT_64BIT, pb_encode_fixed64 v),
      (PB_WT_STRING, pb_encode_string ys (length ys)), (PB_WT_32BIT, pb_encode_fixed32 u)}"
    and xs: "encoded (\<lambda>st. case pb_encode_tag wt tag st of (False, st) \<Rightarrow> (False, st) | (True, st) \<Rightarrow> w st) n = Some xs"
  shows "\<exists>st. pb_decode_tag (stream_of (xs @ r)) = (Some (wt, tag), False, st) \<and> pb_skip_field wt st = (True, stream_of r)"
proof -
  let ?t = "tag_bytes wt tag"
  have ld: "length (varint_bytes m) \<le> 10" if "m < 2 ^ 64" for m using that by (rule varint_bytes_length_64)
  have wt: "unat wt < 8" using w by (auto simp: wire_types)
  obtain d where e: "emits w d" and ld: "length d < 2 ^ 33"
    and skip: "\<And>st :: 'a pb_istream. wf_stream st \<Longrightarrow> content st = d @ r \<Longrightarrow> pb_skip_field wt st = (True, adv (length d) st)"
  proof -
    consider "wt = PB_WT_VARINT" "w = pb_encode_varint v" | "wt = PB_WT_64BIT" "w = pb_encode_fixed64 v"
      | "wt = PB_WT_STRING" "w = pb_encode_string ys (length ys)" | "wt = PB_WT_32BIT" "w = pb_encode_fixed32 u"
      using w by blast
    then show thesis
    proof cases
      case 1
      show thesis
        by (rule that [of "varint_bytes (unat v)"])
          (use 1 varint_bytes_length_u64 [of v] in \<open>auto simp: emits_varint pb_skip_field_def pb_skip_varint_bytes\<close>)
    next
      case 2
      have "8 \<le> bytes_left st" if "wf_stream st" "content st = fixed64_bytes v @ r" for st :: "'a pb_istream"
        using length_stream_content [OF that(1)] that(2) by simp
      with 2 show thesis
        by (intro that [of "fixed64_bytes v"]) (auto simp: emits_fixed64 pb_skip_field_def wire_types pb_skip_bytes_buf)
    next
      case 3
      have "length (varint_bytes (length ys)) \<le> 10" using ys by (intro varint_bytes_length_64) simp
      then show thesis
        by (intro that [of "string_bytes ys"])
          (use 3 ys pb_skip_string_buf in \<open>auto simp: emits_string [unfolded string_bytes_def] pb_skip_field_def wire_types string_bytes_def\<close>)
    next
      case 4
      have "4 \<le> bytes_left st" if "wf_stream st" "content st = fixed32_bytes u @ r" for st :: "'a pb_istream"
        using length_stream_content [OF that(1)] that(2) by simp
      with 4 show thesis
        by (intro that [of "fixed32_bytes u"]) (auto simp: emits_fixed32 pb_skip_field_def wire_types pb_skip_bytes_buf)
    qed
  qed
  have "8 * unat tag + unat wt < 2 ^ 64" using tag wt by simp
  then have "length ?t \<le> 10" unfolding tag_bytes_def by (rule varint_bytes_length_64)
  then have "length (?t @ d) < size_lim" using ld by simp
  from encoded_Some [OF emits_seq [OF emits_tag [OF wt] e] n this, THEN iffD1, OF xs] have x: "xs = ?t @ d" by (rule conjunct1)
  have c: "content (stream_of (xs @ r)) = ?t @ d @ r" by (simp add: x)
  from pb_decode_tag_buf [OF _ c wt tag] have dt: "pb_decode_tag (stream_of (xs @ r)) = (Some (wt, tag), False, stream_of (d @ r))"
    by (simp add: x adv_stream_of)
  from skip [of "stream_of (d @ r)"] dt show ?thesis by (intro exI [of _ "stream_of (d @ r)"]) (simp add: adv_stream_of)
qed

lemma pb_skip_field_exact_witness:
  "encoded (\<lambda>st. case pb_encode_tag PB_WT_STRING 5 st of (False, st) \<Rightarrow> (False, st) | (True, st) \<Rightarrow> pb_encode_string [9, 8] 2 st) 16
     = Some [0x2A, 2, 9, 8] \<and>
   (\<exists>st. pb_decode_tag (stream_of ([0x2A, 2, 9, 8] @ [1]) :: unit pb_istream) = (Some (PB_WT_STRING, 5), False, st) \<and>
     pb_skip_field PB_WT_STRING st = (True, stream_of [1]))"
proof -
  have t: "emits (pb_encode_tag PB_WT_STRING 5) (tag_bytes PB_WT_STRING 5)"
    by (rule emits_tag) (simp add: PB_WT_STRING_def)
  have x: "tag_bytes PB_WT_STRING 5 @ string_bytes [9, 8] = [0x2A, 2, 9, 8]"
    by (simp add: wire_types tag_bytes_def string_bytes_def varint_bytes.simps)
  have e: "encoded (\<lambda>st. case pb_encode_tag PB_WT_STRING 5 st of (False, st) \<Rightarrow> (False, st) | (True, st) \<Rightarrow> pb_encode_string [9, 8] 2 st) 16
     = Some [0x2A, 2, 9, 8]"
    using encoded_emits [OF emits_seq [OF t emits_string [of 2 "[9, 8]"]], of 16] by (simp add: x)
  have w: "(PB_WT_STRING, pb_encode_string [9, 8] 2) \<in> {(PB_WT_VARINT, pb_encode_varint 0), (PB_WT_64BIT, pb_encode_fixed64 0),
      (PB_WT_STRING, pb_encode_string [9, 8] (length ([9, 8] :: bytes))), (PB_WT_32BIT, pb_encode_fixed32 0)}"
    by (simp add: numeral_2_eq_2)
  from e show ?thesis
    by (intro conjI pb_skip_field_exact [OF _ _ _ _ w e]) simp_all
qed

subsection \<open>Reading stays inside the buffer\<close>

text \<open>The stream after an operation: it has moved on by the bytes it no longer counts.\<close>

definition moved :: "'s pb_istream \<Rightarrow> 's pb_istream \<Rightarrow> bool" where
  "moved st st' \<longleftrightarrow> wf_stream st' \<and>
     (\<exists>k\<le>bytes_left st. src_bytes st' = drop k (src_bytes st) \<and> bytes_left st' + k = bytes_left st)"

lemma moved_refl: "wf_stream st \<Longrightarrow> moved st st"
  by (auto simp: moved_def)

lemma moved_trans: "moved a b \<Longrightarrow> moved b c \<Longrightarrow> moved a c"
  by (auto simp: moved_def intro: exI [of _ "_ + _"]) (metis add.assoc add.commute drop_drop le_add2)

lemma moved_wf: "moved a b \<Longrightarrow> wf_stream b"
  by (simp add: moved_def)

lemma moved_adv: "wf_stream st \<Longrightarrow> k \<le> bytes_left st \<Longrightarrow> moved st (adv k st)"
  by (auto simp: moved_def)

lemma moved_error: "moved a b \<Longrightarrow> moved a (PB_SET_ERROR msg b)"
  by (auto simp: moved_def wf_stream_def is_buf_read_def src_bytes_def)

lemma moved_read: "wf_stream st \<Longrightarrow> pb_read null n st = (r, st') \<Longrightarrow> moved st st'"
  by (cases "n \<le> bytes_left st") (auto simp: pb_read_buf pb_read_short not_le moved_adv moved_refl moved_error)

lemma moved_readbyte: "wf_stream st \<Longrightarrow> pb_readbyte st = (r, st') \<Longrightarrow> moved st st'"
proof (cases "content st")
  case Nil
  moreover assume "wf_stream st" "pb_readbyte st = (r, st')"
  ultimately show ?thesis using length_stream_content [of st] by (auto simp: pb_readbyte_end moved_refl moved_error)
next
  case (Cons b bs)
  moreover assume "wf_stream st" "pb_readbyte st = (r, st')"
  ultimately show ?thesis using length_stream_content [of st] by (auto simp: pb_readbyte_buf intro!: moved_adv)
qed

lemma moved_varint32_loop:
  "wf_stream st \<Longrightarrow> varint32_loop bitpos result st = (r, st') \<Longrightarrow> moved st st'"
proof (induction bitpos result st arbitrary: r st' rule: varint32_loop.induct)
  case (1 bitpos result st)
  obtain rb st1 where b: "pb_readbyte st = (rb, st1)" by fastforce
  note m = moved_readbyte [OF "1.prems"(1) b]
  show ?case
  proof (cases rb)
    case None
    with "1.prems"(2) b m show ?thesis by (simp add: varint32_loop.simps [of bitpos])
  next
    case (Some byte)
    note run = "1.prems"(2) [unfolded varint32_loop.simps [of bitpos] b Some prod.case option.case Let_def]
    show ?thesis
      using run m moved_error [OF m] moved_trans [OF m "1.IH" [OF b [symmetric] Some refl]] moved_wf [OF m]
      by (auto split: if_splits)
  qed
qed

lemma moved_varint_loop:
  "wf_stream st \<Longrightarrow> varint_loop bitpos result st = (r, st') \<Longrightarrow> moved st st'"
proof (induction bitpos result st arbitrary: r st' rule: varint_loop.induct)
  case (1 bitpos result st)
  obtain rb st1 where b: "pb_readbyte st = (rb, st1)" by fastforce
  note m = moved_readbyte [OF "1.prems"(1) b]
  show ?case
  proof (cases "bitpos \<ge> 64 \<or> rb = None")
    case True
    with "1.prems" b m show ?thesis
      by (auto simp: varint_loop.simps [of bitpos] moved_refl moved_error split: if_splits)
  next
    case False
    then obtain byte where rb: "rb = Some byte" and p: "\<not> bitpos \<ge> 64" by auto
    note run = "1.prems"(2) [unfolded varint_loop.simps [of bitpos] b rb prod.case option.case Let_def]
    show ?thesis
      using run p m moved_trans [OF m "1.IH" [OF p b [symmetric] rb refl]] moved_wf [OF m]
      by (auto split: if_splits)
  qed
qed

lemma moved_varint32_eof:
  assumes "wf_stream st" "pb_decode_varint32_eof st = (r, eof, st')" shows "moved st st'"
proof -
  obtain rb st1 where b: "pb_readbyte st = (rb, st1)" by fastforce
  note m = moved_readbyte [OF assms(1) b]
  show ?thesis
  proof (cases rb)
    case None
    with assms(2) b m show ?thesis by (simp add: pb_decode_varint32_eof_def)
  next
    case (Some byte)
    obtain rl st2 where l: "varint32_loop 7 (ucast (byte AND 0x7F)) st1 = (rl, st2)" by fastforce
    from moved_trans [OF m moved_varint32_loop [OF moved_wf [OF m] l]] have m2: "moved st st2" .
    show ?thesis
      using assms(2) [unfolded pb_decode_varint32_eof_def b Some prod.case option.case l] m m2 moved_error [OF m2]
      by (auto split: if_splits option.splits)
  qed
qed

lemma moved_varint32: "wf_stream st \<Longrightarrow> pb_decode_varint32 st = (r, st') \<Longrightarrow> moved st st'"
  by (auto simp: pb_decode_varint32_def dest: moved_varint32_eof split: prod.splits)

lemma moved_varint: "wf_stream st \<Longrightarrow> pb_decode_varint st = (r, st') \<Longrightarrow> moved st st'"
  by (auto simp: pb_decode_varint_def dest: moved_varint_loop)

lemma moved_skip_bytes: "wf_stream st \<Longrightarrow> pb_skip_bytes n st = (r, st') \<Longrightarrow> moved st st'"
  by (auto simp: pb_skip_bytes_def dest: moved_read split: prod.splits)

lemma moved_skip_varint: "wf_stream st \<Longrightarrow> pb_skip_varint st = (r, st') \<Longrightarrow> moved st st'"
proof (induction st arbitrary: r st' rule: pb_skip_varint.induct)
  case (1 st)
  obtain rb st1 where b: "pb_read False 1 st = (rb, st1)" by fastforce
  note m = moved_read [OF "1.prems"(1) b]
  show ?case
  proof (cases rb)
    case None
    with "1.prems"(2) b m show ?thesis by (simp add: pb_skip_varint.simps [of st])
  next
    case (Some byte)
    note run = "1.prems"(2) [unfolded pb_skip_varint.simps [of st] b Some prod.case option.case]
    show ?thesis
      using run m moved_trans [OF m "1.IH" [OF b [symmetric] Some]] moved_wf [OF m] by (auto split: if_splits)
  qed
qed

lemma moved_skip_string: "wf_stream st \<Longrightarrow> pb_skip_string st = (r, st') \<Longrightarrow> moved st st'"
proof -
  assume wf: "wf_stream st" and r: "pb_skip_string st = (r, st')"
  obtain rn st1 where n: "pb_decode_varint32 st = (rn, st1)" by fastforce
  note m = moved_varint32 [OF wf n]
  with r n moved_trans [OF m moved_skip_bytes [OF moved_wf [OF m]]] show ?thesis
    by (cases rn) (auto simp: pb_skip_string_def)
qed

lemma moved_skip_field: "wf_stream st \<Longrightarrow> pb_skip_field wt st = (r, st') \<Longrightarrow> moved st st'"
  by (auto simp: pb_skip_field_def moved_refl moved_error moved_skip_varint moved_skip_bytes moved_skip_string split: if_splits)

lemma moved_raw_loop: "wf_stream st \<Longrightarrow> raw_varint_loop n st = (r, st') \<Longrightarrow> moved st st'"
proof (induction n st arbitrary: r st' rule: raw_varint_loop.induct)
  case (2 room st)
  obtain rb st1 where b: "pb_read False 1 st = (rb, st1)" by fastforce
  note m = moved_read [OF "2.prems"(1) b]
  show ?case
  proof (cases rb)
    case None
    with "2.prems"(2) b m show ?thesis by simp
  next
    case (Some byte)
    obtain rl st2 where l: "raw_varint_loop room st1 = (rl, st2)" by fastforce
    note run = "2.prems"(2) [unfolded raw_varint_loop.simps b Some prod.case option.case l]
    show ?thesis
    proof (cases "byte ! 0 AND 0x80 = 0")
      case True
      with run m show ?thesis by simp
    next
      case False
      with run have "st' = st2" by simp
      with moved_trans [OF m "2.IH" [OF b [symmetric] Some False moved_wf [OF m] l]] show ?thesis by simp
    qed
  qed
qed (simp add: moved_refl)

text \<open>
  The operations, in any order, with what is done to the substream of a string between
  \<open>pb_make_string_substream\<close> and \<open>pb_close_string_substream\<close>.
\<close>

inductive reads :: "'s pb_istream \<Rightarrow> 's pb_istream \<Rightarrow> bool" where
  none: "reads st st"
| read: "reads st st1 \<Longrightarrow> pb_read null n st1 = (r, st') \<Longrightarrow> reads st st'"
| byte: "reads st st1 \<Longrightarrow> pb_readbyte st1 = (b, st') \<Longrightarrow> reads st st'"
| varint32: "reads st st1 \<Longrightarrow> pb_decode_varint32_eof st1 = (v, eof, st') \<Longrightarrow> reads st st'"
| varint: "reads st st1 \<Longrightarrow> pb_decode_varint st1 = (v64, st') \<Longrightarrow> reads st st'"
| svarint: "reads st st1 \<Longrightarrow> pb_decode_svarint st1 = (v64, st') \<Longrightarrow> reads st st'"
| fixed32: "reads st st1 \<Longrightarrow> pb_decode_fixed32 st1 = (v, st') \<Longrightarrow> reads st st'"
| fixed64: "reads st st1 \<Longrightarrow> pb_decode_fixed64 st1 = (v64, st') \<Longrightarrow> reads st st'"
| tag: "reads st st1 \<Longrightarrow> pb_decode_tag st1 = (t, eof, st') \<Longrightarrow> reads st st'"
| skip: "reads st st1 \<Longrightarrow> pb_skip_field wt st1 = (ok, st') \<Longrightarrow> reads st st'"
| raw: "reads st st1 \<Longrightarrow> read_raw_value n wt st1 = (r, st') \<Longrightarrow> reads st st'"
| short: "reads st st1 \<Longrightarrow> pb_make_string_substream st1 = (None, st') \<Longrightarrow> reads st st'"
| sub: "reads st st1 \<Longrightarrow> pb_make_string_substream st1 = (Some s, st2) \<Longrightarrow> reads s s' \<Longrightarrow>
    pb_close_string_substream st2 s' = (ok, st') \<Longrightarrow> reads st st'"

lemma moved_make_close:
  assumes wf: "wf_stream st" and mk: "pb_make_string_substream st = (Some s, st2)"
  shows "wf_stream s" "moved s s' \<Longrightarrow> pb_close_string_substream st2 s' = (ok, st') \<Longrightarrow> ok \<and> moved st st'"
proof -
  obtain rn st1 where n: "pb_decode_varint32 st = (rn, st1)" by fastforce
  note m = moved_varint32 [OF wf n]
  from mk n obtain n where s: "n \<le> bytes_left st1" "s = st1\<lparr>bytes_left := n\<rparr>" "st2 = st1\<lparr>bytes_left := bytes_left st1 - n\<rparr>"
    by (cases rn) (auto simp: pb_make_string_substream_def not_less split: if_splits)
  have wf1: "wf_stream st1" by (rule moved_wf [OF m])
  show wfs: "wf_stream s" using wf1 s(1,2) by (auto simp: wf_stream_def is_buf_read_def src_bytes_def)
  assume ms: "moved s s'" and close: "pb_close_string_substream st2 s' = (ok, st')"
  then obtain k where k: "k \<le> n" "src_bytes s' = drop k (src_bytes st1)" "bytes_left s' + k = n" "wf_stream s'"
    using s(2) by (auto simp: moved_def src_bytes_def)
  have "(if bytes_left s' \<noteq> 0 then pb_skip_bytes (bytes_left s') s' else (True, s')) = (True, adv (bytes_left s') s')"
    using k(4) by (simp add: pb_skip_bytes_buf adv_0)
  with close have c: "ok" "st' = st2\<lparr>source := source (adv (bytes_left s') s'), errmsg := errmsg s'\<rparr>"
    by (auto simp: pb_close_string_substream_def)
  have "src_bytes st' = drop n (src_bytes st1)" "bytes_left st' = bytes_left st1 - n" "is_buf_read st'"
    using c(2) s(3) k by (auto simp: src_bytes_def is_buf_read_def add.commute)
  then have "moved st1 st'" using s(1) wf1 by (auto simp: moved_def wf_stream_def)
  with c(1) moved_trans [OF m] show "ok \<and> moved st st'" by blast
qed

lemma reads_moved: "reads st st' \<Longrightarrow> wf_stream st \<longrightarrow> moved st st'"
proof (induction rule: reads.induct)
  case (none st) show ?case by (simp add: moved_refl)
next
  case (read st st1 null n r st') then show ?case using moved_trans moved_read moved_wf by metis
next
  case (byte st st1 b st') then show ?case using moved_trans moved_readbyte moved_wf by metis
next
  case (varint32 st st1 v eof st') then show ?case using moved_trans moved_varint32_eof moved_wf by metis
next
  case (varint st st1 v64 st') then show ?case using moved_trans moved_varint moved_wf by metis
next
  case (svarint st st1 v64 st')
  then have "\<exists>v. pb_decode_varint st1 = (v, st')"
    by (auto simp: pb_decode_svarint_def split: prod.splits option.splits)
  with svarint.IH show ?case using moved_trans moved_varint moved_wf by metis
next
  case (fixed32 st st1 v st')
  then have "\<exists>v. pb_read False 4 st1 = (v, st')"
    by (auto simp: pb_decode_fixed32_def split: prod.splits option.splits)
  with fixed32.IH show ?case using moved_trans moved_read moved_wf by metis
next
  case (fixed64 st st1 v64 st')
  then have "\<exists>v. pb_read False 8 st1 = (v, st')"
    by (auto simp: pb_decode_fixed64_def split: prod.splits option.splits)
  with fixed64.IH show ?case using moved_trans moved_read moved_wf by metis
next
  case (tag st st1 t eof st')
  then have "\<exists>v e. pb_decode_varint32_eof st1 = (v, e, st')"
    by (auto simp: pb_decode_tag_def split: prod.splits option.splits if_splits)
  with tag.IH show ?case using moved_trans moved_varint32_eof moved_wf by metis
next
  case (skip st st1 wt ok st') then show ?case using moved_trans moved_skip_field moved_wf by metis
next
  case (raw st st1 n wt r st')
  have "moved st1 st'" if "wf_stream st1"
    using raw.hyps(2) that
    by (auto simp: read_raw_value_def moved_refl moved_error dest: moved_raw_loop moved_read split: if_splits)
  with raw.IH show ?case using moved_trans moved_wf by metis
next
  case (short st st1 st')
  have "moved st1 st'" if wf: "wf_stream st1"
  proof (cases "pb_decode_varint32 st1")
    case (Pair rn st2)
    note m = moved_varint32 [OF wf Pair]
    with short.hyps(2) Pair moved_error [OF m] show ?thesis
      by (cases rn) (auto simp: pb_make_string_substream_def split: if_splits)
  qed
  with short.IH show ?case using moved_trans moved_wf by metis
next
  case (sub st st1 s st2 s' ok st')
  have "moved st1 st'" if wf: "wf_stream st1"
    using moved_make_close [OF wf sub.hyps(2)] sub.IH(2) sub.hyps(4) by blast
  with sub.IH(1) show ?case using moved_trans moved_wf by metis
qed

text \<open>
  C36: reading from a buffer, whatever the bytes in it: after any operations, substreams of strings
  included, the stream still counts no more bytes than its buffer has left, and it has moved on by
  just as many as it counts fewer; the substream of a string always closes.
\<close>

theorem pb_reads_inside:
  assumes "reads st st'" "wf_stream st"
  shows "wf_stream st' \<and> bytes_left st' \<le> bytes_left st \<and>
    src_bytes st' = drop (bytes_left st - bytes_left st') (src_bytes st)"
proof -
  from reads_moved [OF assms(1)] assms(2)
  obtain k where "wf_stream st'" "src_bytes st' = drop k (src_bytes st)" "bytes_left st' + k = bytes_left st"
    by (auto simp: moved_def)
  moreover from this have "k = bytes_left st - bytes_left st'" by simp
  ultimately show ?thesis by simp
qed

lemma pb_reads_inside_witness:
  "wf_stream (stream_of [9] :: unit pb_istream) \<and> bytes_left (stream_of [9] :: unit pb_istream) \<le> bytes_left (stream_of [7, 9] :: unit pb_istream) \<and>
   src_bytes (stream_of [9] :: unit pb_istream) =
     drop (bytes_left (stream_of [7, 9] :: unit pb_istream) - bytes_left (stream_of [9] :: unit pb_istream)) (src_bytes (stream_of [7, 9] :: unit pb_istream))"
proof (rule pb_reads_inside)
  have "pb_readbyte (stream_of [7, 9] :: unit pb_istream) = (Some 7, stream_of [9])"
    using pb_readbyte_buf [of "stream_of [7, 9] :: unit pb_istream" 7 "[9]"] adv_stream_of [of 1 "[7]" "[9]", where ?'a = unit] by simp
  then show "reads (stream_of [7, 9] :: unit pb_istream) (stream_of [9])" by (rule reads.byte [OF reads.none])
qed simp


subsection \<open>The field iterator\<close>

text \<open>
  From whichever field the iterator stands on, \<open>pb_field_iter_find\<close> finds the field with the tag
  wherever it is, or reports that there is none and stands where it stood; extension ranges are not
  found, and walking on by \<open>pb_field_iter_next\<close> comes round to the first field with its address.
\<close>

theorem pb_iterator_cycle:
  assumes wf: "wf_fields flds" and k: "k < nfields flds"
  shows "(\<forall>tag ok it. pb_field_iter_find tag (iter_at flds dest k) = (ok, it) \<longrightarrow>
      (if ok then \<exists>j<nfields flds. matches flds tag j \<and> it = iter_at flds dest j
       else it = iter_at flds dest k \<and> (\<forall>j<nfields flds. \<not> matches flds tag j))) \<and>
    cur (iter_at flds dest k) = flds ! k \<and>
    pb_field_iter_next (iter_at flds dest k) =
      (if Suc k < nfields flds then (True, iter_at flds dest (Suc k)) else (False, snd (pb_field_iter_begin flds dest)))"
proof (intro conjI allI impI)
  show "cur (iter_at flds dest k) = flds ! k" using cur_iter_at [OF wf, of k] k by simp
  show "pb_field_iter_next (iter_at flds dest k) =
      (if Suc k < nfields flds then (True, iter_at flds dest (Suc k)) else (False, snd (pb_field_iter_begin flds dest)))"
    using iter_next_at [OF wf k] by (simp only: iter_at.simps(1))
qed (rule pb_field_iter_find_at [OF wf k])

lemma pb_iterator_cycle_witness:
  "let f = PB_LAST_FIELD\<lparr>ftag := 1, data_size := 4\<rparr>; g = PB_LAST_FIELD\<lparr>ftag := 2, data_size := 8, data_offset := 4\<rparr>;
       flds = [f, g, PB_LAST_FIELD]
   in cur (iter_at flds 0x1000 1) = g \<and> pb_field_iter_next (iter_at flds 0x1000 1) = (False, snd (pb_field_iter_begin flds 0x1000)) \<and>
      pData (iter_at flds 0x1000 1) = 0x1008"
proof -
  let ?f = "PB_LAST_FIELD\<lparr>ftag := 1, data_size := 4\<rparr>" and ?g = "PB_LAST_FIELD\<lparr>ftag := 2, data_size := 8, data_offset := 4\<rparr>"
  let ?flds = "[?f, ?g, PB_LAST_FIELD]"
  have wf: "wf_fields ?flds"
    unfolding wf_fields_def by (intro exI [of _ "[?f, ?g]"]) (simp add: PB_LAST_FIELD_def)
  have "pData (iter_at ?flds 0x1000 1) = 0x1008"
    by (simp add: iter_at.simps pb_field_iter_begin_def pb_field_iter_next_def cur_def PB_LAST_FIELD_def Let_def
        PB_HTYPE_def PB_ATYPE_def htypes atypes)
  with pb_iterator_cycle [OF wf, of 1 "0x1000"] show ?thesis by (simp add: Let_def)
qed

end
