(* ===== verification/Pb_Memory.thy ===== *)
theory Pb_Memory
  imports Pb_Stream Pb_Common
begin

text \<open>
  The heap behind \<open>pb_realloc\<close> and \<open>pb_free\<close> of nanopb. Where a new block goes is a parameter of the model.
\<close>

unbundle bit_operations_syntax

text \<open>The pointer \<open>realloc\<close> returns (0 on failure) and the heap; the contents move with the block.\<close>

type_synonym placement = "heap \<Rightarrow> addr \<Rightarrow> nat \<Rightarrow> addr option"

definition pb_realloc :: "placement \<Rightarrow> addr \<Rightarrow> nat \<Rightarrow> heap \<Rightarrow> addr \<times> heap" where
  "pb_realloc al p n h =
     (case al h p n of
        None \<Rightarrow> (0, h)
      | Some q \<Rightarrow>
          let old = (case blocks h p of None \<Rightarrow> 0 | Some k \<Rightarrow> k);
              h' = store_bytes q (load_bytes h p (min old n)) h
          in (q, h'\<lparr>blocks := (blocks h')(p := None, q := Some n)\<rparr>))"

definition pb_free :: "addr \<Rightarrow> heap \<Rightarrow> heap" where
  "pb_free p h = (if p = 0 then h else h\<lparr>blocks := (blocks h)(p := None)\<rparr>)"

end
