(* ===== verification/Pb_Fields.thy ===== *)
theory Pb_Fields
  imports Pb_Memory
begin

text \<open>
  nanopb: the decoders and encoders of single values (the \<open>pb_dec_\<close> and \<open>pb_enc_\<close> functions), between a
  stream and memory. Integers are stored at the width of the field and checked not to lose anything.
\<close>

unbundle bit_operations_syntax

text \<open>The environment of a call: the tables and functions the code reaches through pointers.\<close>

record 's pb_env =
  desc :: "addr \<Rightarrow> pb_field list"
  user_decode :: "addr \<Rightarrow> 's pb_istream \<Rightarrow> pb_field \<Rightarrow> addr \<Rightarrow> heap \<Rightarrow> bool \<times> 's pb_istream \<times> heap"
  ext_decode :: "addr \<Rightarrow> 's pb_istream \<Rightarrow> addr \<Rightarrow> u32 \<Rightarrow> u32 \<Rightarrow> heap \<Rightarrow> bool \<times> 's pb_istream \<times> heap"
  user_encode :: "addr \<Rightarrow> 's pb_ostream \<Rightarrow> pb_field \<Rightarrow> addr \<Rightarrow> heap \<Rightarrow> bool \<times> 's pb_ostream"
  ext_encode :: "addr \<Rightarrow> 's pb_ostream \<Rightarrow> addr \<Rightarrow> heap \<Rightarrow> bool \<times> 's pb_ostream"
  realloc_addr :: placement
  local_addr :: "nat \<Rightarrow> addr"

text \<open>Layout of \<open>pb_extension_t\<close> and \<open>pb_extension_type_t\<close>.\<close>

definition ext_type :: "heap \<Rightarrow> addr \<Rightarrow> addr" where "ext_type h e = load_u64 h e"
definition ext_dest :: "heap \<Rightarrow> addr \<Rightarrow> addr" where "ext_dest h e = load_u64 h (e + 8)"
definition ext_next :: "heap \<Rightarrow> addr \<Rightarrow> addr" where "ext_next h e = load_u64 h (e + 16)"
definition ext_found_at :: "addr \<Rightarrow> addr" where "ext_found_at e = e + 24"

text \<open>The array at \<open>extension->type->arg\<close>, whose first element describes the extension field.\<close>

definition ext_field :: "'s pb_env \<Rightarrow> heap \<Rightarrow> addr \<Rightarrow> pb_field list" where
  "ext_field env h e = desc env (load_u64 h (ext_type h e + 16))"

text \<open>The result of a decoder, and of one that may have none (\<open>None\<close>).\<close>

type_synonym 's pb_result = "bool \<times> 's pb_istream \<times> heap"
type_synonym 's pb_dec = "'s pb_istream \<Rightarrow> heap \<Rightarrow> 's pb_result option"

definition pb_fail :: "string \<Rightarrow> 's pb_istream \<Rightarrow> heap \<Rightarrow> 's pb_result" where
  "pb_fail msg st h = (False, PB_SET_ERROR msg st, h)"

text \<open>\<open>if (!e) return false;\<close> before what follows.\<close>

definition pb_then :: "'s pb_result option \<Rightarrow> 's pb_dec \<Rightarrow> 's pb_result option" where
  "pb_then r f =
     (case r of
        None \<Rightarrow> None
      | Some (False, st, h) \<Rightarrow> Some (False, st, h)
      | Some (True, st, h) \<Rightarrow> f st h)"

text \<open>\<open>pb_read\<close> into memory.\<close>

definition pb_read_mem :: "nat \<Rightarrow> addr \<Rightarrow> 's pb_istream \<Rightarrow> heap \<Rightarrow> 's pb_result" where
  "pb_read_mem n dest st h =
     (case pb_read False n st of
        (None, st) \<Rightarrow> (False, st, h)
      | (Some xs, st) \<Rightarrow> (True, st, store_bytes dest xs h))"

subsection \<open>Decoding scalars\<close>

definition pb_dec_bool :: "addr \<Rightarrow> 's pb_istream \<Rightarrow> heap \<Rightarrow> 's pb_result" where
  "pb_dec_bool dest st h =
     (case pb_decode_varint32 st of
        (None, st) \<Rightarrow> (False, st, h)
      | (Some v, st) \<Rightarrow> (True, st, store_bytes dest [if v \<noteq> 0 then 1 else 0] h))"

definition pb_decode_bool :: "addr \<Rightarrow> 's pb_istream \<Rightarrow> heap \<Rightarrow> 's pb_result" where
  "pb_decode_bool dest st h = pb_dec_bool dest st h"

text \<open>
  The casts of a 64-bit value to the size of the field, with the store: \<open>clamped\<close> and the heap;
  \<open>None\<close> for a size that is none of the four.
\<close>

definition store_signed :: "u32 \<Rightarrow> addr \<Rightarrow> u64 \<Rightarrow> heap \<Rightarrow> (u64 \<times> heap) option" where
  "store_signed sz dest v h =
     (if sz = 8 then Some (v, store_u64 dest v h)
      else if sz = 4 then Some (scast (ucast v :: u32), store_u32 dest (ucast v) h)
      else if sz = 2 then Some (scast (ucast v :: u16), store_u16 dest (ucast v) h)
      else if sz = 1 then Some (scast (ucast v :: u8), store_bytes dest [ucast v] h)
      else None)"

definition store_unsigned :: "u32 \<Rightarrow> addr \<Rightarrow> u64 \<Rightarrow> heap \<Rightarrow> (u64 \<times> heap) option" where
  "store_unsigned sz dest v h =
     (if sz = 8 then Some (v, store_u64 dest v h)
      else if sz = 4 then Some (ucast (ucast v :: u32), store_u32 dest (ucast v) h)
      else if sz = 2 then Some (ucast (ucast v :: u16), store_u16 dest (ucast v) h)
      else if sz = 1 then Some (ucast (ucast v :: u8), store_bytes dest [ucast v] h)
      else None)"

text \<open>The tail of the three integer decoders.\<close>

definition check_clamped :: "(u64 \<times> heap) option \<Rightarrow> u64 \<Rightarrow> 's pb_istream \<Rightarrow> heap \<Rightarrow> 's pb_result" where
  "check_clamped r v st h =
     (case r of
        None \<Rightarrow> pb_fail ''invalid data_size'' st h
      | Some (clamped, h) \<Rightarrow> if clamped \<noteq> v then pb_fail ''integer too large'' st h else (True, st, h))"

definition pb_dec_varint :: "pb_field \<Rightarrow> addr \<Rightarrow> 's pb_istream \<Rightarrow> heap \<Rightarrow> 's pb_result" where
  "pb_dec_varint field dest st h =
     (case pb_decode_varint st of
        (None, st) \<Rightarrow> (False, st, h)
      | (Some v, st) \<Rightarrow>
          let svalue = (if data_size field = 8 then v else scast (ucast v :: u32))
          in check_clamped (store_signed (data_size field) dest svalue h) svalue st h)"

definition pb_dec_uvarint :: "pb_field \<Rightarrow> addr \<Rightarrow> 's pb_istream \<Rightarrow> heap \<Rightarrow> 's pb_result" where
  "pb_dec_uvarint field dest st h =
     (case pb_decode_varint st of
        (None, st) \<Rightarrow> (False, st, h)
      | (Some v, st) \<Rightarrow> check_clamped (store_unsigned (data_size field) dest v h) v st h)"

definition pb_dec_svarint :: "pb_field \<Rightarrow> addr \<Rightarrow> 's pb_istream \<Rightarrow> heap \<Rightarrow> 's pb_result" where
  "pb_dec_svarint field dest st h =
     (case pb_decode_svarint st of
        (None, st) \<Rightarrow> (False, st, h)
      | (Some v, st) \<Rightarrow> check_clamped (store_signed (data_size field) dest v h) v st h)"

definition pb_dec_fixed32 :: "addr \<Rightarrow> 's pb_istream \<Rightarrow> heap \<Rightarrow> 's pb_result" where
  "pb_dec_fixed32 dest st h =
     (case pb_decode_fixed32 st of (None, st) \<Rightarrow> (False, st, h) | (Some v, st) \<Rightarrow> (True, st, store_u32 dest v h))"

definition pb_dec_fixed64 :: "addr \<Rightarrow> 's pb_istream \<Rightarrow> heap \<Rightarrow> 's pb_result" where
  "pb_dec_fixed64 dest st h =
     (case pb_decode_fixed64 st of (None, st) \<Rightarrow> (False, st, h) | (Some v, st) \<Rightarrow> (True, st, store_u64 dest v h))"

subsection \<open>Decoding byte strings\<close>

text \<open>\<open>allocate_field\<close>: the sizes are of type \<open>size_t\<close>.\<close>

definition allocate_field :: "'s pb_env \<Rightarrow> addr \<Rightarrow> nat \<Rightarrow> nat \<Rightarrow> 's pb_istream \<Rightarrow> heap \<Rightarrow> 's pb_result" where
  "allocate_field env pdata dsize asize st h =
     (if dsize = 0 \<or> asize = 0 then pb_fail ''invalid size'' st h
      else if (dsize \<ge> 2 ^ 32 \<or> asize \<ge> 2 ^ 32) \<and> (size_lim - 1) div asize < dsize
      then pb_fail ''size too large'' st h
      else
        (case pb_realloc (realloc_addr env) (load_u64 h pdata) ((asize * dsize) mod size_lim) h of
           (p, h) \<Rightarrow> if p = 0 then pb_fail ''realloc failed'' st h else (True, st, store_u64 pdata p h)))"

definition PB_BYTES_ARRAY_T_ALLOCSIZE :: "nat \<Rightarrow> nat" where
  "PB_BYTES_ARRAY_T_ALLOCSIZE n = (n + 4) mod size_lim"

definition pb_dec_bytes :: "'s pb_env \<Rightarrow> pb_field \<Rightarrow> addr \<Rightarrow> 's pb_istream \<Rightarrow> heap \<Rightarrow> 's pb_result" where
  "pb_dec_bytes env field dest st h =
     (case pb_decode_varint32 st of
        (None, st) \<Rightarrow> (False, st, h)
      | (Some sz, st) \<Rightarrow>
          if sz > PB_SIZE_MAX then pb_fail ''bytes overflow'' st h
          else
            let alloc_size = PB_BYTES_ARRAY_T_ALLOCSIZE (unat sz) in
            if unat sz > alloc_size then pb_fail ''size too large'' st h
            else
              let fill = (\<lambda>bdest st h. pb_read_mem (unat sz) (bdest + 4) st (store_u32 bdest sz h)) in
              if PB_ATYPE (ftype field) = PB_ATYPE_POINTER then
                (case allocate_field env dest alloc_size 1 st h of
                   (False, st, h) \<Rightarrow> (False, st, h)
                 | (True, st, h) \<Rightarrow> fill (load_u64 h dest) st h)
              else if alloc_size > unat (data_size field) then pb_fail ''bytes overflow'' st h
              else fill dest st h)"

definition pb_dec_string :: "'s pb_env \<Rightarrow> pb_field \<Rightarrow> addr \<Rightarrow> 's pb_istream \<Rightarrow> heap \<Rightarrow> 's pb_result" where
  "pb_dec_string env field dest st h =
     (case pb_decode_varint32 st of
        (None, st) \<Rightarrow> (False, st, h)
      | (Some sz, st) \<Rightarrow>
          let alloc_size = unat (sz + 1) in
          if alloc_size < unat sz then pb_fail ''size too large'' st h
          else
            let fill = (\<lambda>dest st h.
                  case pb_read_mem (unat sz) dest st h of
                    (status, st, h) \<Rightarrow> (status, st, store_bytes (dest + ucast sz) [0] h)) in
            if PB_ATYPE (ftype field) = PB_ATYPE_POINTER then
              (case allocate_field env dest alloc_size 1 st h of
                 (False, st, h) \<Rightarrow> (False, st, h)
               | (True, st, h) \<Rightarrow> fill (load_u64 h dest) st h)
            else if alloc_size > unat (data_size field) then pb_fail ''string overflow'' st h
            else fill dest st h)"

definition pb_dec_fixed_length_bytes :: "pb_field \<Rightarrow> addr \<Rightarrow> 's pb_istream \<Rightarrow> heap \<Rightarrow> 's pb_result" where
  "pb_dec_fixed_length_bytes field dest st h =
     (case pb_decode_varint32 st of
        (None, st) \<Rightarrow> (False, st, h)
      | (Some sz, st) \<Rightarrow>
          if sz > PB_SIZE_MAX then pb_fail ''bytes overflow'' st h
          else if sz = 0 then (True, st, store_bytes dest (replicate (unat (data_size field)) 0) h)
          else if sz \<noteq> data_size field then pb_fail ''incorrect fixed length bytes size'' st h
          else pb_read_mem (unat (data_size field)) dest st h)"

subsection \<open>Encoding scalars\<close>

definition safe_read_bool :: "heap \<Rightarrow> addr \<Rightarrow> bool" where
  "safe_read_bool h p = (mem h p \<noteq> 0)"

definition pb_enc_fail :: "string \<Rightarrow> 's pb_ostream \<Rightarrow> bool \<times> 's pb_ostream" where
  "pb_enc_fail msg st = (False, PB_SET_ERROR msg st)"

definition pb_enc_bool :: "heap \<Rightarrow> addr \<Rightarrow> 's pb_ostream \<Rightarrow> bool \<times> 's pb_ostream" where
  "pb_enc_bool h src st = pb_encode_varint (if safe_read_bool h src then 1 else 0) st"

text \<open>The loads, sign- or zero-extended to 64 bits.\<close>

definition load_signed :: "u32 \<Rightarrow> heap \<Rightarrow> addr \<Rightarrow> u64 option" where
  "load_signed sz h src =
     (if sz = 1 then Some (scast (mem h src))
      else if sz = 2 then Some (scast (load_u16 h src))
      else if sz = 4 then Some (scast (load_u32 h src))
      else if sz = 8 then Some (load_u64 h src)
      else None)"

definition load_unsigned :: "u32 \<Rightarrow> heap \<Rightarrow> addr \<Rightarrow> u64 option" where
  "load_unsigned sz h src =
     (if sz = 1 then Some (ucast (mem h src))
      else if sz = 2 then Some (ucast (load_u16 h src))
      else if sz = 4 then Some (ucast (load_u32 h src))
      else if sz = 8 then Some (load_u64 h src)
      else None)"

definition pb_enc_varint :: "pb_field \<Rightarrow> heap \<Rightarrow> addr \<Rightarrow> 's pb_ostream \<Rightarrow> bool \<times> 's pb_ostream" where
  "pb_enc_varint field h src st =
     (case load_signed (data_size field) h src of
        None \<Rightarrow> pb_enc_fail ''invalid data_size'' st
      | Some v \<Rightarrow> pb_encode_varint v st)"

definition pb_enc_uvarint :: "pb_field \<Rightarrow> heap \<Rightarrow> addr \<Rightarrow> 's pb_ostream \<Rightarrow> bool \<times> 's pb_ostream" where
  "pb_enc_uvarint field h src st =
     (case load_unsigned (data_size field) h src of
        None \<Rightarrow> pb_enc_fail ''invalid data_size'' st
      | Some v \<Rightarrow> pb_encode_varint v st)"

definition pb_enc_svarint :: "pb_field \<Rightarrow> heap \<Rightarrow> addr \<Rightarrow> 's pb_ostream \<Rightarrow> bool \<times> 's pb_ostream" where
  "pb_enc_svarint field h src st =
     (case load_signed (data_size field) h src of
        None \<Rightarrow> pb_enc_fail ''invalid data_size'' st
      | Some v \<Rightarrow> pb_encode_svarint v st)"

definition pb_enc_fixed32 :: "heap \<Rightarrow> addr \<Rightarrow> 's pb_ostream \<Rightarrow> bool \<times> 's pb_ostream" where
  "pb_enc_fixed32 h src st = pb_encode_fixed32 (load_u32 h src) st"

definition pb_enc_fixed64 :: "heap \<Rightarrow> addr \<Rightarrow> 's pb_ostream \<Rightarrow> bool \<times> 's pb_ostream" where
  "pb_enc_fixed64 h src st = pb_encode_fixed64 (load_u64 h src) st"

subsection \<open>Encoding byte strings\<close>

definition pb_enc_bytes :: "pb_field \<Rightarrow> heap \<Rightarrow> addr \<Rightarrow> 's pb_ostream \<Rightarrow> bool \<times> 's pb_ostream" where
  "pb_enc_bytes field h src st =
     (if src = 0 then pb_encode_string [] 0 st
      else
        let sz = unat (load_u32 h src) in
        if PB_ATYPE (ftype field) = PB_ATYPE_STATIC \<and> PB_BYTES_ARRAY_T_ALLOCSIZE sz > unat (data_size field)
        then pb_enc_fail ''bytes size exceeded'' st
        else pb_encode_string (load_bytes h (src + 4) sz) sz st)"

text \<open>
  The length of a string, up to \<open>max_size\<close>. The search ends at a zero byte; \<open>max_size\<close> bounds it also
  where the code's bound is \<open>SIZE_MAX\<close>.
\<close>

function string_size :: "heap \<Rightarrow> addr \<Rightarrow> nat \<Rightarrow> nat \<Rightarrow> nat" where
  "string_size h p limit sz =
     (if sz < limit \<and> mem h p \<noteq> 0 then string_size h (p + 1) limit (sz + 1) else sz)"
  by pat_completeness auto
termination
  by (relation "measure (\<lambda>(h, p, limit, sz). limit - sz)") auto

declare string_size.simps [simp del]

definition pb_enc_string :: "pb_field \<Rightarrow> heap \<Rightarrow> addr \<Rightarrow> 's pb_ostream \<Rightarrow> bool \<times> 's pb_ostream" where
  "pb_enc_string field h src st =
     (let limit = (if PB_ATYPE (ftype field) = PB_ATYPE_POINTER then size_lim - 1 else unat (data_size field));
          sz = (if src = 0 then 0 else string_size h src limit 0)
      in pb_encode_string (load_bytes h src sz) sz st)"

definition pb_enc_fixed_length_bytes :: "pb_field \<Rightarrow> heap \<Rightarrow> addr \<Rightarrow> 's pb_ostream \<Rightarrow> bool \<times> 's pb_ostream" where
  "pb_enc_fixed_length_bytes field h src st =
     pb_encode_string (load_bytes h src (unat (data_size field))) (unat (data_size field)) st"

end
