(* ===== verification/Pb_Encode.thy ===== *)
theory Pb_Encode
  imports Pb_Fields
begin

text \<open>
  nanopb: encoding of messages, \<open>pb_encode.c\<close> from \<open>encode_array\<close> on. The recursion through submessages
  is cut off by a level \<open>n\<close>, which also bounds the list of extensions; \<open>None\<close> means that it ran out,
  or that the code called through a null or wild entry of a function table. Encoding only reads memory.
\<close>

unbundle bit_operations_syntax

type_synonym 's pb_enc = "'s pb_ostream \<Rightarrow> (bool \<times> 's pb_ostream) option"

text \<open>\<open>if (!e) return false;\<close> before what follows.\<close>

definition enc_then :: "(bool \<times> 's pb_ostream) option \<Rightarrow> 's pb_enc \<Rightarrow> (bool \<times> 's pb_ostream) option" where
  "enc_then r f =
     (case r of
        None \<Rightarrow> None
      | Some (False, st) \<Rightarrow> Some (False, st)
      | Some (True, st) \<Rightarrow> f st)"

subsection \<open>Tags and submessages\<close>

definition pb_encode_tag_for_field :: "pb_field \<Rightarrow> 's pb_ostream \<Rightarrow> bool \<times> 's pb_ostream" where
  "pb_encode_tag_for_field field st =
     (let t = PB_LTYPE (ftype field) in
      if t = PB_LTYPE_BOOL \<or> t = PB_LTYPE_VARINT \<or> t = PB_LTYPE_UVARINT \<or> t = PB_LTYPE_SVARINT
      then pb_encode_tag PB_WT_VARINT (ftag field) st
      else if t = PB_LTYPE_FIXED32 then pb_encode_tag PB_WT_32BIT (ftag field) st
      else if t = PB_LTYPE_FIXED64 then pb_encode_tag PB_WT_64BIT (ftag field) st
      else if t = PB_LTYPE_BYTES \<or> t = PB_LTYPE_STRING \<or> t = PB_LTYPE_SUBMESSAGE \<or> t = PB_LTYPE_FIXED_LENGTH_BYTES
      then pb_encode_tag PB_WT_STRING (ftag field) st
      else pb_enc_fail ''invalid field type'' st)"

text \<open>The second half of \<open>pb_encode_submessage\<close>: the message goes into a stream limited to its size.\<close>

definition encode_limited :: "nat \<Rightarrow> 's pb_enc \<Rightarrow> 's pb_enc" where
  "encode_limited sz enc st =
     (if is_sizing st then Some (pb_write [] sz st)
      else if (bytes_written st + sz) mod size_lim > max_size st then Some (pb_enc_fail ''stream full'' st)
      else
        case enc \<lparr>errmsg = None, sink = sink st, max_size = sz, bytes_written = 0\<rparr> of
          None \<Rightarrow> None
        | Some (status, substream) \<Rightarrow>
            let st = st\<lparr>bytes_written := (bytes_written st + bytes_written substream) mod size_lim,
                        sink := sink substream, errmsg := errmsg substream\<rparr>
            in if bytes_written substream \<noteq> sz then Some (pb_enc_fail ''submsg size changed'' st)
               else Some (status, st))"

text \<open>\<open>enc\<close> is \<open>pb_encode\<close> of the submessage, called once for its size and once to write it.\<close>

definition encode_submessage :: "'s pb_enc \<Rightarrow> 's pb_enc" where
  "encode_submessage enc st =
     (case enc PB_OSTREAM_SIZING of
        None \<Rightarrow> None
      | Some (False, substream) \<Rightarrow> Some (False, st\<lparr>errmsg := errmsg substream\<rparr>)
      | Some (True, substream) \<Rightarrow>
          let sz = bytes_written substream
          in enc_then (Some (pb_encode_varint (word_of_nat sz) st)) (encode_limited sz enc))"

definition pb_enc_submessage :: "(addr \<Rightarrow> addr \<Rightarrow> 's pb_enc) \<Rightarrow> pb_field \<Rightarrow> addr \<Rightarrow> 's pb_enc" where
  "pb_enc_submessage enc field src st =
     (if fptr field = 0 then Some (pb_enc_fail ''invalid field descriptor'' st)
      else encode_submessage (enc (fptr field) src) st)"

text \<open>The table \<open>PB_ENCODERS\<close>, at the type of the field; \<open>enc\<close> encodes the message of an array of fields.\<close>

definition pb_encoder :: "(addr \<Rightarrow> addr \<Rightarrow> 's pb_enc) \<Rightarrow> pb_field \<Rightarrow> heap \<Rightarrow> addr \<Rightarrow> 's pb_enc" where
  "pb_encoder enc field h src st =
     (let t = PB_LTYPE (ftype field) in
      if t = PB_LTYPE_BOOL then Some (pb_enc_bool h src st)
      else if t = PB_LTYPE_VARINT then Some (pb_enc_varint field h src st)
      else if t = PB_LTYPE_UVARINT then Some (pb_enc_uvarint field h src st)
      else if t = PB_LTYPE_SVARINT then Some (pb_enc_svarint field h src st)
      else if t = PB_LTYPE_FIXED32 then Some (pb_enc_fixed32 h src st)
      else if t = PB_LTYPE_FIXED64 then Some (pb_enc_fixed64 h src st)
      else if t = PB_LTYPE_BYTES then Some (pb_enc_bytes field h src st)
      else if t = PB_LTYPE_STRING then Some (pb_enc_string field h src st)
      else if t = PB_LTYPE_SUBMESSAGE then pb_enc_submessage enc field src st
      else if t = PB_LTYPE_FIXED_LENGTH_BYTES then Some (pb_enc_fixed_length_bytes field h src st)
      else None)"

subsection \<open>Arrays\<close>

text \<open>The loops of \<open>encode_array\<close> over the \<open>count\<close> items from \<open>p\<close> on.\<close>

primrec items_loop :: "nat \<Rightarrow> (addr \<Rightarrow> 's pb_enc) \<Rightarrow> u32 \<Rightarrow> addr \<Rightarrow> 's pb_enc" where
  "items_loop 0 item dsize p st = Some (True, st)"
| "items_loop (Suc count) item dsize p st = enc_then (item p st) (items_loop count item dsize (p + ucast dsize))"

text \<open>The size of a packed array, by a sizing stream unless it is known; \<open>Some None\<close> when that fails.\<close>

definition packed_size :: "pb_field \<Rightarrow> nat \<Rightarrow> 's pb_enc \<Rightarrow> nat option option" where
  "packed_size field count all =
     (if PB_LTYPE (ftype field) = PB_LTYPE_FIXED32 then Some (Some (4 * count))
      else if PB_LTYPE (ftype field) = PB_LTYPE_FIXED64 then Some (Some (8 * count))
      else
        case all PB_OSTREAM_SIZING of
          None \<Rightarrow> None
        | Some (ok, sizestream) \<Rightarrow> Some (if ok then Some (bytes_written sizestream) else None))"

definition encode_packed :: "pb_field \<Rightarrow> nat \<Rightarrow> 's pb_enc \<Rightarrow> 's pb_enc" where
  "encode_packed field count all st =
     enc_then (Some (pb_encode_tag PB_WT_STRING (ftag field) st))
       (\<lambda>st. case packed_size field count all of
               None \<Rightarrow> None
             | Some None \<Rightarrow> Some (False, st)
             | Some (Some sz) \<Rightarrow>
                 enc_then (Some (pb_encode_varint (word_of_nat sz) st))
                   (\<lambda>st. if is_sizing st then Some (pb_write [] sz st) else all st))"

definition encode_array :: "pb_field \<Rightarrow> heap \<Rightarrow> addr \<Rightarrow> u32 \<Rightarrow> (addr \<Rightarrow> 's pb_enc) \<Rightarrow> 's pb_enc" where
  "encode_array field h pdata count func st =
     (let a = PB_ATYPE (ftype field); t = PB_LTYPE (ftype field) in
      if count = 0 then Some (True, st)
      else if a \<noteq> PB_ATYPE_POINTER \<and> count > array_size field then Some (pb_enc_fail ''array max size exceeded'' st)
      else if t \<le> PB_LTYPE_LAST_PACKABLE
      then encode_packed field (unat count) (items_loop (unat count) func (data_size field) pdata) st
      else
        items_loop (unat count)
          (\<lambda>p st. enc_then (Some (pb_encode_tag_for_field field st))
             (func (if a = PB_ATYPE_POINTER \<and> (t = PB_LTYPE_STRING \<or> t = PB_LTYPE_BYTES) then load_u64 h p else p)))
          (data_size field) pdata st)"

subsection \<open>Default values\<close>

text \<open>
  The answer that the count or the flag of a field gives, with its address \<open>psize\<close>; \<open>None\<close> for the
  fields that are left to the comparison of their value.
\<close>

definition presence_default :: "pb_field \<Rightarrow> heap \<Rightarrow> addr \<Rightarrow> bool option" where
  "presence_default field h psize =
     (let t = PB_HTYPE (ftype field) in
      if t = PB_HTYPE_REQUIRED then Some False
      else if t = PB_HTYPE_REPEATED then
        if size_offset field \<noteq> 0 then Some (load_u32 h psize = 0)
        else if PB_ATYPE (ftype field) = PB_ATYPE_STATIC then Some False else None
      else if t = PB_HTYPE_ONEOF then Some (load_u32 h psize = 0)
      else if t = PB_HTYPE_OPTIONAL \<and> size_offset field \<noteq> 0 then Some (\<not> safe_read_bool h psize)
      else None)"

text \<open>The \<open>do\<close> loop over the fields of a submessage, which ends at the first that is not zero.\<close>

primrec default_loop :: "nat \<Rightarrow> (pb_field \<Rightarrow> addr \<Rightarrow> bool option) \<Rightarrow> pb_field_iter \<Rightarrow> bool option" where
  "default_loop 0 check iter = None"
| "default_loop (Suc k) check iter =
     (case check (cur iter) (pData iter) of
        None \<Rightarrow> None
      | Some False \<Rightarrow> Some False
      | Some True \<Rightarrow>
          (case pb_field_iter_next iter of
             (False, iter) \<Rightarrow> Some True
           | (True, iter) \<Rightarrow> default_loop k check iter))"

primrec pb_check_proto3_default_value :: "nat \<Rightarrow> 's pb_env \<Rightarrow> heap \<Rightarrow> pb_field \<Rightarrow> addr \<Rightarrow> bool option" where
  "pb_check_proto3_default_value 0 env h field pdata = None"
| "pb_check_proto3_default_value (Suc n) env h field pdata =
     (let t = PB_LTYPE (ftype field);
          zero_bytes = list_all (\<lambda>b. b = 0) (load_bytes h pdata (unat (data_size field)))
      in case presence_default field h (pdata + scast (size_offset field)) of
           Some r \<Rightarrow> Some r
         | None \<Rightarrow>
             if PB_ATYPE (ftype field) = PB_ATYPE_STATIC then
               if t = PB_LTYPE_BYTES then Some (load_u32 h pdata = 0)
               else if t = PB_LTYPE_STRING then Some (mem h pdata = 0)
               else if t = PB_LTYPE_FIXED_LENGTH_BYTES then Some (data_size field = 0)
               else if t = PB_LTYPE_SUBMESSAGE then
                 let flds = desc env (fptr field)
                 in (case pb_field_iter_begin flds pdata of
                       (False, iter) \<Rightarrow> Some True
                     | (True, iter) \<Rightarrow> default_loop (length flds) (pb_check_proto3_default_value n env h) iter)
               else Some zero_bytes
             else Some zero_bytes)"

subsection \<open>One field\<close>

text \<open>What \<open>pSize\<close> points at: the local \<open>implicit_has\<close>, or memory.\<close>

datatype size_ref = Implicit | Stored addr

definition basic_size_ref :: "pb_field \<Rightarrow> addr \<Rightarrow> size_ref" where
  "basic_size_ref field pdata =
     (if size_offset field \<noteq> 0 then Stored (pdata + scast (size_offset field)) else Implicit)"

text \<open>
  \<open>implicit_has\<close> when the switch is reached. It is uninitialised for a static field with a
  stored flag or count, where it is not read.
\<close>

definition basic_implicit_has :: "nat \<Rightarrow> 's pb_env \<Rightarrow> heap \<Rightarrow> pb_field \<Rightarrow> addr \<Rightarrow> bool option" where
  "basic_implicit_has n env h field pdata =
     (if PB_ATYPE (ftype field) = PB_ATYPE_POINTER then Some (load_u64 h pdata \<noteq> 0)
      else if size_offset field = 0 \<and> PB_HTYPE (ftype field) = PB_HTYPE_OPTIONAL
      then map_option Not (pb_check_proto3_default_value n env h field pdata)
      else Some True)"

text \<open>
  The switch of \<open>encode_basic_field\<close>, with \<open>pData\<close> and the values read through \<open>pSize\<close> as they are
  behind the pointer handling. A oneof field without a stored count would be read past \<open>implicit_has\<close>.
\<close>

definition encode_switch ::
  "pb_field \<Rightarrow> heap \<Rightarrow> size_ref \<Rightarrow> bool \<Rightarrow> addr \<Rightarrow> (addr \<Rightarrow> 's pb_enc) \<Rightarrow> 's pb_enc" where
  "encode_switch field h psize has pdata func st =
     (let t = PB_HTYPE (ftype field);
          tagged = (\<lambda>st. enc_then (Some (pb_encode_tag_for_field field st)) (func pdata))
      in if t = PB_HTYPE_REQUIRED then
           if pdata = 0 then Some (pb_enc_fail ''missing required field'' st) else tagged st
         else if t = PB_HTYPE_OPTIONAL then
           if (case psize of Implicit \<Rightarrow> has | Stored p \<Rightarrow> safe_read_bool h p) then tagged st else Some (True, st)
         else if t = PB_HTYPE_REPEATED then
           encode_array field h pdata (case psize of Implicit \<Rightarrow> array_size field | Stored p \<Rightarrow> load_u32 h p) func st
         else
           case psize of
             Implicit \<Rightarrow> None
           | Stored p \<Rightarrow> if load_u32 h p = ftag field then tagged st else Some (True, st))"

definition encode_basic_field ::
  "nat \<Rightarrow> 's pb_env \<Rightarrow> (addr \<Rightarrow> addr \<Rightarrow> 's pb_enc) \<Rightarrow> heap \<Rightarrow> pb_field \<Rightarrow> addr \<Rightarrow> 's pb_enc" where
  "encode_basic_field n env enc h field pdata st =
     (case basic_implicit_has n env h field pdata of
        None \<Rightarrow> None
      | Some has \<Rightarrow>
          encode_switch field h (basic_size_ref field pdata) has
            (if PB_ATYPE (ftype field) = PB_ATYPE_POINTER then load_u64 h pdata else pdata)
            (pb_encoder enc field h) st)"

definition encode_callback_field :: "'s pb_env \<Rightarrow> heap \<Rightarrow> pb_field \<Rightarrow> addr \<Rightarrow> 's pb_ostream \<Rightarrow> bool \<times> 's pb_ostream" where
  "encode_callback_field env h field pdata st =
     (if load_u64 h pdata \<noteq> 0 then
        (case user_encode env (load_u64 h pdata) st field (pdata + 8) h of
           (False, st) \<Rightarrow> pb_enc_fail ''callback error'' st
         | (True, st) \<Rightarrow> (True, st))
      else (True, st))"

definition encode_field ::
  "nat \<Rightarrow> 's pb_env \<Rightarrow> (addr \<Rightarrow> addr \<Rightarrow> 's pb_enc) \<Rightarrow> heap \<Rightarrow> pb_field \<Rightarrow> addr \<Rightarrow> 's pb_enc" where
  "encode_field n env enc h field pdata st =
     (let a = PB_ATYPE (ftype field) in
      if a = PB_ATYPE_STATIC \<or> a = PB_ATYPE_POINTER then encode_basic_field n env enc h field pdata st
      else if a = PB_ATYPE_CALLBACK then Some (encode_callback_field env h field pdata st)
      else Some (pb_enc_fail ''invalid field type'' st))"

subsection \<open>Extensions\<close>

definition default_extension_encoder ::
  "nat \<Rightarrow> 's pb_env \<Rightarrow> (addr \<Rightarrow> addr \<Rightarrow> 's pb_enc) \<Rightarrow> heap \<Rightarrow> addr \<Rightarrow> 's pb_enc" where
  "default_extension_encoder n env enc h e st =
     (let field = ext_field env h e ! 0 in
      if PB_ATYPE (ftype field) = PB_ATYPE_POINTER then encode_field n env enc h field (e + 8) st
      else encode_field n env enc h field (ext_dest h e) st)"

primrec encode_extension_loop ::
  "nat \<Rightarrow> nat \<Rightarrow> 's pb_env \<Rightarrow> (addr \<Rightarrow> addr \<Rightarrow> 's pb_enc) \<Rightarrow> heap \<Rightarrow> addr \<Rightarrow> 's pb_enc" where
  "encode_extension_loop 0 n env enc h e st = None"
| "encode_extension_loop (Suc k) n env enc h e st =
     (if e \<noteq> 0 then
        let func = load_u64 h (ext_type h e + 8) in
        enc_then (if func \<noteq> 0 then Some (ext_encode env func st e h) else default_extension_encoder n env enc h e st)
          (encode_extension_loop k n env enc h (ext_next h e))
      else Some (True, st))"

definition encode_extension_field ::
  "nat \<Rightarrow> 's pb_env \<Rightarrow> (addr \<Rightarrow> addr \<Rightarrow> 's pb_enc) \<Rightarrow> heap \<Rightarrow> addr \<Rightarrow> 's pb_enc" where
  "encode_extension_field n env enc h pdata st = encode_extension_loop n n env enc h (load_u64 h pdata) st"

subsection \<open>Messages\<close>

text \<open>The \<open>do\<close> loop of \<open>pb_encode\<close>.\<close>

primrec encode_loop :: "nat \<Rightarrow> (pb_field_iter \<Rightarrow> 's pb_enc) \<Rightarrow> pb_field_iter \<Rightarrow> 's pb_enc" where
  "encode_loop 0 f iter st = None"
| "encode_loop (Suc k) f iter st =
     enc_then (f iter st)
       (\<lambda>st. case pb_field_iter_next iter of
               (False, iter) \<Rightarrow> Some (True, st)
             | (True, iter) \<Rightarrow> encode_loop k f iter st)"

definition encode_one ::
  "nat \<Rightarrow> 's pb_env \<Rightarrow> (addr \<Rightarrow> addr \<Rightarrow> 's pb_enc) \<Rightarrow> heap \<Rightarrow> pb_field_iter \<Rightarrow> 's pb_enc" where
  "encode_one n env enc h iter st =
     (if PB_LTYPE (ftype (cur iter)) = PB_LTYPE_EXTENSION then encode_extension_field n env enc h (pData iter) st
      else encode_field n env enc h (cur iter) (pData iter) st)"

primrec pb_encode :: "nat \<Rightarrow> 's pb_env \<Rightarrow> heap \<Rightarrow> pb_field list \<Rightarrow> addr \<Rightarrow> 's pb_enc" where
  "pb_encode 0 env h flds src st = None"
| "pb_encode (Suc n) env h flds src st =
     (case pb_field_iter_begin flds src of
        (False, iter) \<Rightarrow> Some (True, st)
      | (True, iter) \<Rightarrow>
          encode_loop (length flds) (encode_one n env (\<lambda>p src. pb_encode n env h (desc env p) src) h) iter st)"

definition pb_encode_submessage :: "nat \<Rightarrow> 's pb_env \<Rightarrow> heap \<Rightarrow> pb_field list \<Rightarrow> addr \<Rightarrow> 's pb_enc" where
  "pb_encode_submessage n env h flds src = encode_submessage (pb_encode n env h flds src)"

definition pb_encode_delimited :: "nat \<Rightarrow> 's pb_env \<Rightarrow> heap \<Rightarrow> pb_field list \<Rightarrow> addr \<Rightarrow> 's pb_enc" where
  "pb_encode_delimited n env h flds src st = pb_encode_submessage n env h flds src st"

definition pb_encode_nullterminated :: "nat \<Rightarrow> 's pb_env \<Rightarrow> heap \<Rightarrow> pb_field list \<Rightarrow> addr \<Rightarrow> 's pb_enc" where
  "pb_encode_nullterminated n env h flds src st =
     enc_then (pb_encode n env h flds src st) (\<lambda>st. Some (pb_write [0] 1 st))"

text \<open>The size, or \<open>Some None\<close> on failure.\<close>

definition pb_get_encoded_size :: "nat \<Rightarrow> 's pb_env \<Rightarrow> heap \<Rightarrow> pb_field list \<Rightarrow> addr \<Rightarrow> nat option option" where
  "pb_get_encoded_size n env h flds src =
     (case pb_encode n env h flds src PB_OSTREAM_SIZING of
        None \<Rightarrow> None
      | Some (ok, st) \<Rightarrow> Some (if ok then Some (bytes_written st) else None))"

end
