(* ===== verification/Pb_Decode.thy ===== *)
theory Pb_Decode
  imports Pb_Fields
begin

text \<open>
  nanopb: decoding of messages, \<open>pb_decode.c\<close> from \<open>decode_static_field\<close> on. The recursion through
  submessages, linked extensions and their release is cut off by a level \<open>n\<close>, the loops by a count that
  the bytes left bound; \<open>None\<close> means that it ran out, or that the code called through a null or wild
  entry of a function table.
\<close>

unbundle bit_operations_syntax

subsection \<open>Extensions\<close>

definition iter_from_extension :: "'s pb_env \<Rightarrow> heap \<Rightarrow> addr \<Rightarrow> pb_field_iter" where
  "iter_from_extension env h e =
     (let flds = ext_field env h e;
          iter = (snd (pb_field_iter_begin flds (ext_dest h e)))\<lparr>pData := ext_dest h e, pSize := ext_found_at e\<rparr>
      in if PB_ATYPE (ftype (flds ! 0)) = PB_ATYPE_POINTER then iter\<lparr>pData := e + 8\<rparr> else iter)"

text \<open>A loop over the list of extensions that starts at \<open>e\<close>.\<close>

primrec ext_loop :: "nat \<Rightarrow> (addr \<Rightarrow> heap \<Rightarrow> heap option) \<Rightarrow> addr \<Rightarrow> heap \<Rightarrow> heap option" where
  "ext_loop 0 f e h = None"
| "ext_loop (Suc n) f e h =
     (if e = 0 then Some h
      else case f e h of
             None \<Rightarrow> None
           | Some h \<Rightarrow> ext_loop n f (ext_next h e) h)"

text \<open>A \<open>do\<close> loop over the fields of a message, from where the iterator stands to the end.\<close>

primrec fields_loop :: "nat \<Rightarrow> (pb_field_iter \<Rightarrow> heap \<Rightarrow> heap option) \<Rightarrow> pb_field_iter \<Rightarrow> heap \<Rightarrow> heap option" where
  "fields_loop 0 f iter h = None"
| "fields_loop (Suc n) f iter h =
     (case f iter h of
        None \<Rightarrow> None
      | Some h \<Rightarrow>
          (case pb_field_iter_next iter of
             (False, iter) \<Rightarrow> Some h
           | (True, iter) \<Rightarrow> fields_loop n f iter h))"

subsection \<open>Default values\<close>

definition set_message_defaults_with ::
  "(pb_field_iter \<Rightarrow> heap \<Rightarrow> heap option) \<Rightarrow> pb_field list \<Rightarrow> addr \<Rightarrow> heap \<Rightarrow> heap option" where
  "set_message_defaults_with set_field flds dest h =
     (case pb_field_iter_begin flds dest of
        (False, iter) \<Rightarrow> Some h
      | (True, iter) \<Rightarrow> fields_loop (length flds) set_field iter h)"

text \<open>The static case of \<open>pb_field_set_to_default\<close>.\<close>

definition set_static_default ::
  "'s pb_env \<Rightarrow> (pb_field_iter \<Rightarrow> heap \<Rightarrow> heap option) \<Rightarrow> pb_field_iter \<Rightarrow> heap \<Rightarrow> heap option" where
  "set_static_default env set_field iter h =
     (let f = cur iter; type = ftype f;
          set_data = (\<lambda>h.
            if PB_LTYPE type = PB_LTYPE_SUBMESSAGE
            then set_message_defaults_with set_field (desc env (fptr f)) (pData iter) h
            else if fptr f \<noteq> 0
            then Some (store_bytes (pData iter) (load_bytes h (fptr f) (unat (data_size f))) h)
            else Some (store_bytes (pData iter) (replicate (unat (data_size f)) 0) h))
      in if PB_HTYPE type = PB_HTYPE_OPTIONAL \<and> pSize iter \<noteq> pData iter
         then set_data (store_bytes (pSize iter) [0] h)
         else if PB_HTYPE type = PB_HTYPE_REPEATED \<or> PB_HTYPE type = PB_HTYPE_ONEOF
         then Some (store_u32 (pSize iter) 0 h)
         else set_data h)"

primrec pb_field_set_to_default :: "nat \<Rightarrow> 's pb_env \<Rightarrow> pb_field_iter \<Rightarrow> heap \<Rightarrow> heap option" where
  "pb_field_set_to_default 0 env iter h = None"
| "pb_field_set_to_default (Suc n) env iter h =
     (let type = ftype (cur iter) in
      if PB_LTYPE type = PB_LTYPE_EXTENSION then
        ext_loop n
          (\<lambda>e h. let h = store_bytes (ext_found_at e) [0] h
                 in pb_field_set_to_default n env (iter_from_extension env h e) h)
          (load_u64 h (pData iter)) h
      else if PB_ATYPE type = PB_ATYPE_STATIC then
        set_static_default env (pb_field_set_to_default n env) iter h
      else if PB_ATYPE type = PB_ATYPE_POINTER then
        (let h = store_u64 (pData iter) 0 h
         in if PB_HTYPE type = PB_HTYPE_REPEATED \<or> PB_HTYPE type = PB_HTYPE_ONEOF
            then Some (store_u32 (pSize iter) 0 h) else Some h)
      else Some h)"

definition pb_message_set_to_defaults :: "nat \<Rightarrow> 's pb_env \<Rightarrow> pb_field list \<Rightarrow> addr \<Rightarrow> heap \<Rightarrow> heap option" where
  "pb_message_set_to_defaults n env flds dest h =
     set_message_defaults_with (pb_field_set_to_default n env) flds dest h"

subsection \<open>Release\<close>

definition pb_release_with ::
  "(pb_field_iter \<Rightarrow> heap \<Rightarrow> heap option) \<Rightarrow> pb_field list \<Rightarrow> addr \<Rightarrow> heap \<Rightarrow> heap option" where
  "pb_release_with release_field flds dest h =
     (if dest = 0 then Some h
      else
        case pb_field_iter_begin flds dest of
          (False, iter) \<Rightarrow> Some h
        | (True, iter) \<Rightarrow> fields_loop (length flds) release_field iter h)"

text \<open>\<open>while (count--)\<close> over the submessages of an array.\<close>

primrec release_items ::
  "(pb_field_iter \<Rightarrow> heap \<Rightarrow> heap option) \<Rightarrow> pb_field list \<Rightarrow> u32 \<Rightarrow> nat \<Rightarrow> addr \<Rightarrow> heap \<Rightarrow> heap option" where
  "release_items release_field flds dsize 0 item h = Some h"
| "release_items release_field flds dsize (Suc count) item h =
     (case pb_release_with release_field flds item h of
        None \<Rightarrow> None
      | Some h \<Rightarrow> release_items release_field flds dsize count (item + ucast dsize) h)"

text \<open>The number of submessages in a field.\<close>

definition release_count :: "pb_field_iter \<Rightarrow> heap \<Rightarrow> u32" where
  "release_count iter h =
     (let f = cur iter; type = ftype f in
      if PB_HTYPE type = PB_HTYPE_REPEATED then
        let count = (if PB_ATYPE type = PB_ATYPE_STATIC \<and> pSize iter = pData iter then array_size f
                     else load_u32 h (pSize iter))
        in if PB_ATYPE type = PB_ATYPE_STATIC \<and> count > array_size f then array_size f else count
      else 1)"

text \<open>\<open>while (count--)\<close> over the entries of an array of strings or byte strings.\<close>

primrec free_entries :: "nat \<Rightarrow> addr \<Rightarrow> heap \<Rightarrow> heap" where
  "free_entries 0 item h = h"
| "free_entries (Suc count) item h = free_entries count (item + 8) (store_u64 item 0 (pb_free (load_u64 h item) h))"

text \<open>The end of \<open>pb_release_single_field\<close>, for pointer fields.\<close>

definition release_pointer :: "pb_field_iter \<Rightarrow> heap \<Rightarrow> heap" where
  "release_pointer iter h =
     (let type = ftype (cur iter) in
      if PB_ATYPE type = PB_ATYPE_POINTER then
        let h = (if PB_HTYPE type = PB_HTYPE_REPEATED \<and>
                    (PB_LTYPE type = PB_LTYPE_STRING \<or> PB_LTYPE type = PB_LTYPE_BYTES)
                 then free_entries (unat (load_u32 h (pSize iter))) (load_u64 h (pData iter)) h else h);
            h = (if PB_HTYPE type = PB_HTYPE_REPEATED then store_u32 (pSize iter) 0 h else h)
        in store_u64 (pData iter) 0 (pb_free (load_u64 h (pData iter)) h)
      else h)"

primrec pb_release_single_field :: "nat \<Rightarrow> 's pb_env \<Rightarrow> pb_field_iter \<Rightarrow> heap \<Rightarrow> heap option" where
  "pb_release_single_field 0 env iter h = None"
| "pb_release_single_field (Suc n) env iter h =
     (let f = cur iter; type = ftype f in
      if PB_HTYPE type = PB_HTYPE_ONEOF \<and> load_u32 h (pSize iter) \<noteq> ftag f then Some h
      else
        map_option (release_pointer iter)
          (if PB_LTYPE type = PB_LTYPE_EXTENSION then
             ext_loop n (\<lambda>e h. pb_release_single_field n env (iter_from_extension env h e) h)
               (load_u64 h (pData iter)) h
           else if PB_LTYPE type = PB_LTYPE_SUBMESSAGE \<and> PB_ATYPE type \<noteq> PB_ATYPE_CALLBACK then
             let item = (if PB_ATYPE type = PB_ATYPE_POINTER then load_u64 h (pData iter) else pData iter)
             in if item \<noteq> 0
                then release_items (pb_release_single_field n env) (desc env (fptr f)) (data_size f)
                       (unat (release_count iter h)) item h
                else Some h
           else Some h))"

definition pb_release :: "nat \<Rightarrow> 's pb_env \<Rightarrow> pb_field list \<Rightarrow> addr \<Rightarrow> heap \<Rightarrow> heap option" where
  "pb_release n env flds dest h = pb_release_with (pb_release_single_field n env) flds dest h"

text \<open>The result, the iterator and the heap of \<open>pb_release_union_field\<close>.\<close>

definition pb_release_union_field ::
  "nat \<Rightarrow> 's pb_env \<Rightarrow> pb_field_iter \<Rightarrow> 's pb_istream \<Rightarrow> heap \<Rightarrow> (bool \<times> pb_field_iter \<times> 's pb_istream \<times> heap) option" where
  "pb_release_union_field n env iter st h =
     (let old_tag = load_u32 h (pSize iter); new_tag = ftag (cur iter) in
      if old_tag = 0 \<or> old_tag = new_tag then Some (True, iter, st, h)
      else
        case pb_field_iter_find old_tag iter of
          (False, iter) \<Rightarrow> Some (False, iter, PB_SET_ERROR ''invalid union tag'' st, h)
        | (True, iter) \<Rightarrow>
            (case pb_release_single_field n env iter h of
               None \<Rightarrow> None
             | Some h \<Rightarrow>
                 (case pb_field_iter_find new_tag iter of
                    (False, iter) \<Rightarrow> Some (False, iter, PB_SET_ERROR ''iterator error'' st, h)
                  | (True, iter) \<Rightarrow> Some (True, iter, st, h))))"

subsection \<open>One field\<close>

text \<open>
  The recursive call of a decoder on a submessage: with or without initialisation, the array of
  fields and the address of the structure.
\<close>

type_synonym 's pb_sub = "bool \<Rightarrow> addr \<Rightarrow> addr \<Rightarrow> 's pb_dec"

definition pb_dec_submessage :: "'s pb_sub \<Rightarrow> pb_field \<Rightarrow> addr \<Rightarrow> 's pb_dec" where
  "pb_dec_submessage dec field dest st h =
     (case pb_make_string_substream st of
        (None, st) \<Rightarrow> Some (False, st, h)
      | (Some substream, st) \<Rightarrow>
          if fptr field = 0 then Some (pb_fail ''invalid field descriptor'' st h)
          else
            case dec (PB_HTYPE (ftype field) = PB_HTYPE_REPEATED) (fptr field) dest substream h of
              None \<Rightarrow> None
            | Some (status, substream, h) \<Rightarrow>
                (case pb_close_string_substream st substream of
                   (False, st) \<Rightarrow> Some (False, st, h)
                 | (True, st) \<Rightarrow> Some (status, st, h)))"

text \<open>The table \<open>PB_DECODERS\<close>, at the type of the field.\<close>

definition pb_decoder :: "'s pb_env \<Rightarrow> 's pb_sub \<Rightarrow> pb_field \<Rightarrow> addr \<Rightarrow> 's pb_dec" where
  "pb_decoder env dec field dest st h =
     (let t = PB_LTYPE (ftype field) in
      if t = PB_LTYPE_BOOL then Some (pb_dec_bool dest st h)
      else if t = PB_LTYPE_VARINT then Some (pb_dec_varint field dest st h)
      else if t = PB_LTYPE_UVARINT then Some (pb_dec_uvarint field dest st h)
      else if t = PB_LTYPE_SVARINT then Some (pb_dec_svarint field dest st h)
      else if t = PB_LTYPE_FIXED32 then Some (pb_dec_fixed32 dest st h)
      else if t = PB_LTYPE_FIXED64 then Some (pb_dec_fixed64 dest st h)
      else if t = PB_LTYPE_BYTES then Some (pb_dec_bytes env field dest st h)
      else if t = PB_LTYPE_STRING then Some (pb_dec_string env field dest st h)
      else if t = PB_LTYPE_SUBMESSAGE then pb_dec_submessage dec field dest st h
      else if t = PB_LTYPE_FIXED_LENGTH_BYTES then Some (pb_dec_fixed_length_bytes field dest st h)
      else None)"

definition item_at :: "addr \<Rightarrow> u32 \<Rightarrow> u32 \<Rightarrow> addr" where
  "item_at base dsize i = base + ucast (dsize * i)"

text \<open>The loop over a packed array: the status, the substream and the heap when it ends.\<close>

primrec packed_loop :: "nat \<Rightarrow> (addr \<Rightarrow> 's pb_dec) \<Rightarrow> pb_field_iter \<Rightarrow> 's pb_dec" where
  "packed_loop 0 func iter substream h = None"
| "packed_loop (Suc n) func iter substream h =
     (let sz = load_u32 h (pSize iter) in
      if bytes_left substream > 0 \<and> sz < array_size (cur iter) then
        pb_then (func (item_at (pData iter) (data_size (cur iter)) sz) substream h)
          (\<lambda>substream h. packed_loop n func iter substream (store_u32 (pSize iter) (load_u32 h (pSize iter) + 1) h))
      else Some (True, substream, h))"

definition is_packed :: "u32 \<Rightarrow> u8 \<Rightarrow> bool" where
  "is_packed wire_type type = (wire_type = PB_WT_STRING \<and> PB_LTYPE type \<le> PB_LTYPE_LAST_PACKABLE)"

definition decode_static_field :: "'s pb_env \<Rightarrow> 's pb_sub \<Rightarrow> u32 \<Rightarrow> pb_field_iter \<Rightarrow> nat \<Rightarrow> 's pb_dec" where
  "decode_static_field env dec wire_type iter n st h =
     (let f = cur iter; type = ftype f; func = pb_decoder env dec f in
      if PB_HTYPE type = PB_HTYPE_REQUIRED then func (pData iter) st h
      else if PB_HTYPE type = PB_HTYPE_OPTIONAL then
        func (pData iter) st (if pSize iter \<noteq> pData iter then store_bytes (pSize iter) [1] h else h)
      else if PB_HTYPE type = PB_HTYPE_REPEATED then
        if is_packed wire_type type then
          (case pb_make_string_substream st of
             (None, st) \<Rightarrow> Some (False, st, h)
           | (Some substream, st) \<Rightarrow>
               (case packed_loop (Suc (bytes_left substream)) func iter substream h of
                  None \<Rightarrow> None
                | Some (status, substream, h) \<Rightarrow>
                    if bytes_left substream \<noteq> 0 then Some (pb_fail ''array overflow'' st h)
                    else
                      case pb_close_string_substream st substream of
                        (False, st) \<Rightarrow> Some (False, st, h)
                      | (True, st) \<Rightarrow> Some (status, st, h)))
        else
          let sz = load_u32 h (pSize iter); item = item_at (pData iter) (data_size f) sz;
              h = store_u32 (pSize iter) (sz + 1) h
          in if sz \<ge> array_size f then Some (pb_fail ''array overflow'' st h) else func item st h
      else
        let h = store_u32 (pSize iter) (ftag f) h in
        if PB_LTYPE type = PB_LTYPE_SUBMESSAGE then
          let h = store_bytes (pData iter) (replicate (unat (data_size f)) 0) h
          in (case pb_message_set_to_defaults n env (desc env (fptr f)) (pData iter) h of
                None \<Rightarrow> None
              | Some h \<Rightarrow> func (pData iter) st h)
        else func (pData iter) st h)"

text \<open>\<open>initialize_pointer_field\<close>\<close>

definition initialize_pointer_field :: "nat \<Rightarrow> 's pb_env \<Rightarrow> pb_field_iter \<Rightarrow> addr \<Rightarrow> heap \<Rightarrow> heap option" where
  "initialize_pointer_field n env iter item h =
     (let f = cur iter; t = PB_LTYPE (ftype f) in
      if t = PB_LTYPE_STRING \<or> t = PB_LTYPE_BYTES then Some (store_u64 item 0 h)
      else if t = PB_LTYPE_SUBMESSAGE then
        pb_message_set_to_defaults n env (desc env (fptr f)) item
          (store_bytes item (replicate (unat (data_size f)) 0) h)
      else Some h)"

text \<open>The item is initialised and decoded.\<close>

definition decode_item :: "'s pb_env \<Rightarrow> 's pb_sub \<Rightarrow> pb_field_iter \<Rightarrow> nat \<Rightarrow> addr \<Rightarrow> 's pb_dec" where
  "decode_item env dec iter n item st h =
     (case initialize_pointer_field n env iter item h of
        None \<Rightarrow> None
      | Some h \<Rightarrow> pb_decoder env dec (cur iter) item st h)"

text \<open>
  The loop over a packed array in allocated memory, which grows by the number of entries the rest of
  the substream is guessed to hold. The first error message may go to the stream itself.
\<close>

primrec pointer_packed_loop ::
  "nat \<Rightarrow> 's pb_env \<Rightarrow> (addr \<Rightarrow> 's pb_dec) \<Rightarrow> pb_field_iter \<Rightarrow> nat \<Rightarrow> 's pb_istream \<Rightarrow> 's pb_istream \<Rightarrow> heap \<Rightarrow>
     (bool \<times> 's pb_istream \<times> 's pb_istream \<times> heap) option" where
  "pointer_packed_loop 0 env item_func iter allocated st substream h = None"
| "pointer_packed_loop (Suc n) env item_func iter allocated st substream h =
     (let f = cur iter; sz = load_u32 h (pSize iter) in
      if bytes_left substream = 0 then Some (True, st, substream, h)
      else if sz = PB_SIZE_MAX
      then Some (False, st\<lparr>errmsg := Some ''too many array entries''\<rparr>, substream, h)
      else
        let grow = unat sz + 1 > allocated;
            remain = (bytes_left substream - 1) div unat (data_size f) + 1;
            allocated' = (if \<not> grow then allocated
                          else if remain < unat PB_SIZE_MAX - allocated then allocated + remain
                          else allocated + 1)
        in case (if grow then allocate_field env (pData iter) (unat (data_size f)) allocated' substream h
                 else (True, substream, h)) of
             (False, substream, h) \<Rightarrow> Some (False, st, substream, h)
           | (True, substream, h) \<Rightarrow>
               (case item_func (item_at (load_u64 h (pData iter)) (data_size f) sz) substream h of
                  None \<Rightarrow> None
                | Some (False, substream, h) \<Rightarrow> Some (False, st, substream, h)
                | Some (True, substream, h) \<Rightarrow>
                    pointer_packed_loop n env item_func iter allocated' st substream
                      (store_u32 (pSize iter) (load_u32 h (pSize iter) + 1) h)))"

definition decode_pointer_field :: "'s pb_env \<Rightarrow> 's pb_sub \<Rightarrow> u32 \<Rightarrow> pb_field_iter \<Rightarrow> nat \<Rightarrow> 's pb_dec" where
  "decode_pointer_field env dec wire_type iter n st h =
     (let f = cur iter; type = ftype f; t = PB_LTYPE type in
      if PB_HTYPE type \<noteq> PB_HTYPE_REPEATED then
        (case (if t = PB_LTYPE_SUBMESSAGE \<and> load_u64 h (pData iter) \<noteq> 0
               then pb_release_single_field n env iter h else Some h) of
           None \<Rightarrow> None
         | Some h \<Rightarrow>
             let h = (if PB_HTYPE type = PB_HTYPE_ONEOF then store_u32 (pSize iter) (ftag f) h else h) in
             if t = PB_LTYPE_STRING \<or> t = PB_LTYPE_BYTES then pb_decoder env dec f (pData iter) st h
             else
               pb_then (Some (allocate_field env (pData iter) (unat (data_size f)) 1 st h))
                 (\<lambda>st h. decode_item env dec iter n (load_u64 h (pData iter)) st h))
      else if is_packed wire_type type then
        (case pb_make_string_substream st of
           (None, st) \<Rightarrow> Some (False, st, h)
         | (Some substream, st) \<Rightarrow>
             (case pointer_packed_loop (Suc (bytes_left substream)) env (decode_item env dec iter n) iter
                     (unat (load_u32 h (pSize iter))) st substream h of
                None \<Rightarrow> None
              | Some (status, st, substream, h) \<Rightarrow>
                  (case pb_close_string_substream st substream of
                     (False, st) \<Rightarrow> Some (False, st, h)
                   | (True, st) \<Rightarrow> Some (status, st, h))))
      else
        let sz = load_u32 h (pSize iter) in
        if sz = PB_SIZE_MAX then Some (pb_fail ''too many array entries'' st h)
        else
          pb_then (Some (allocate_field env (pData iter) (unat (data_size f)) (unat (sz + 1)) st h))
            (\<lambda>st h.
               let sz = load_u32 h (pSize iter); item = item_at (load_u64 h (pData iter)) (data_size f) sz
               in decode_item env dec iter n item st (store_u32 (pSize iter) (sz + 1) h)))"

text \<open>
  \<open>pCallback\<close> points at the function and its argument. The callback is called until it has read the
  whole substream; the count bounds the calls.
\<close>

primrec callback_loop :: "nat \<Rightarrow> ('s pb_istream \<Rightarrow> heap \<Rightarrow> 's pb_result) \<Rightarrow> 's pb_dec" where
  "callback_loop 0 decode substream h = None"
| "callback_loop (Suc n) decode substream h =
     (case decode substream h of
        (False, substream, h) \<Rightarrow> Some (False, substream, h)
      | (True, substream, h) \<Rightarrow>
          if bytes_left substream \<noteq> 0 then callback_loop n decode substream h
          else Some (True, substream, h))"

definition decode_callback_field :: "'s pb_env \<Rightarrow> u32 \<Rightarrow> pb_field_iter \<Rightarrow> 's pb_dec" where
  "decode_callback_field env wire_type iter st h =
     (let pCallback = pData iter;
          decode = (\<lambda>st h. user_decode env (load_u64 h pCallback) st (cur iter) (pCallback + 8) h)
      in
      if pCallback = 0 \<or> load_u64 h pCallback = 0 then (case pb_skip_field wire_type st of (ok, st) \<Rightarrow> Some (ok, st, h))
      else if wire_type = PB_WT_STRING then
        (case pb_make_string_substream st of
           (None, st) \<Rightarrow> Some (False, st, h)
         | (Some substream, st) \<Rightarrow>
             (case callback_loop (Suc (bytes_left substream)) decode substream h of
                None \<Rightarrow> None
              | Some (False, substream, h) \<Rightarrow> Some (pb_fail ''callback failed'' st h)
              | Some (True, substream, h) \<Rightarrow>
                  (case pb_close_string_substream st substream of (ok, st) \<Rightarrow> Some (ok, st, h))))
      else
        (case read_raw_value 10 wire_type st of
           (None, st) \<Rightarrow> Some (False, st, h)
         | (Some buffer, st) \<Rightarrow>
             (case decode (pb_istream_from_buffer buffer (length buffer)) h of (ok, substream, h) \<Rightarrow> Some (ok, st, h))))"

definition decode_field :: "'s pb_env \<Rightarrow> 's pb_sub \<Rightarrow> u32 \<Rightarrow> pb_field_iter \<Rightarrow> nat \<Rightarrow> 's pb_dec" where
  "decode_field env dec wire_type iter n st h =
     (case (if PB_HTYPE (ftype (cur iter)) = PB_HTYPE_ONEOF then pb_release_union_field n env iter st h
            else Some (True, iter, st, h)) of
        None \<Rightarrow> None
      | Some (False, iter, st, h) \<Rightarrow> Some (False, st, h)
      | Some (True, iter, st, h) \<Rightarrow>
          let a = PB_ATYPE (ftype (cur iter)) in
          if a = PB_ATYPE_STATIC then decode_static_field env dec wire_type iter n st h
          else if a = PB_ATYPE_POINTER then decode_pointer_field env dec wire_type iter n st h
          else if a = PB_ATYPE_CALLBACK then decode_callback_field env wire_type iter st h
          else Some (pb_fail ''invalid field type'' st h))"

subsection \<open>Extension fields of a message\<close>

definition default_extension_decoder :: "'s pb_env \<Rightarrow> 's pb_sub \<Rightarrow> nat \<Rightarrow> addr \<Rightarrow> u32 \<Rightarrow> u32 \<Rightarrow> 's pb_dec" where
  "default_extension_decoder env dec n e tag wire_type st h =
     (if ftag (ext_field env h e ! 0) \<noteq> tag then Some (True, st, h)
      else
        let iter = iter_from_extension env h e
        in decode_field env dec wire_type iter n st (store_bytes (ext_found_at e) [1] h))"

text \<open>The loop ends at the first extension that has read something; \<open>left\<close> are the bytes left before it.\<close>

primrec extension_loop :: "nat \<Rightarrow> 's pb_env \<Rightarrow> 's pb_sub \<Rightarrow> nat \<Rightarrow> nat \<Rightarrow> u32 \<Rightarrow> u32 \<Rightarrow> addr \<Rightarrow> 's pb_dec" where
  "extension_loop 0 env dec n left tag wire_type e st h = None"
| "extension_loop (Suc k) env dec n left tag wire_type e st h =
     (if e \<noteq> 0 \<and> left = bytes_left st then
        let func = load_u64 h (ext_type h e) in
        pb_then (if func \<noteq> 0 then Some (ext_decode env func st e tag wire_type h)
                 else default_extension_decoder env dec n e tag wire_type st h)
          (\<lambda>st h. extension_loop k env dec n left tag wire_type (ext_next h e) st h)
      else Some (True, st, h))"

definition decode_extension :: "'s pb_env \<Rightarrow> 's pb_sub \<Rightarrow> nat \<Rightarrow> u32 \<Rightarrow> u32 \<Rightarrow> pb_field_iter \<Rightarrow> 's pb_dec" where
  "decode_extension env dec n tag wire_type iter st h =
     extension_loop n env dec n (bytes_left st) tag wire_type (load_u64 h (pData iter)) st h"

primrec find_extension_loop :: "nat \<Rightarrow> nat \<Rightarrow> pb_field_iter \<Rightarrow> bool \<times> pb_field_iter" where
  "find_extension_loop 0 first iter = (False, iter)"
| "find_extension_loop (Suc n) first iter =
     (if PB_LTYPE (ftype (cur iter)) = PB_LTYPE_EXTENSION then (True, iter)
      else
        let iter = snd (pb_field_iter_next iter)
        in if pos iter \<noteq> first then find_extension_loop n first iter else (False, iter))"

definition find_extension_field :: "pb_field_iter \<Rightarrow> bool \<times> pb_field_iter" where
  "find_extension_field iter = find_extension_loop (length (start iter)) (pos iter) iter"

subsection \<open>The message loop\<close>

abbreviation PB_MAX_REQUIRED_FIELDS :: nat where "PB_MAX_REQUIRED_FIELDS \<equiv> 64"

text \<open>
  The local variables of \<open>pb_decode_noinit\<close>. \<open>fixed_count_field\<close> is the index of the field, and
  \<open>fixed_count_size\<close>, which has its address taken, is at \<open>slot\<close>.
\<close>

record pb_locals =
  it :: pb_field_iter
  fields_seen :: "u32 list"
  extension_range_start :: u32
  fixed_count_field :: "nat option"

text \<open>The ways a pass of the loop ends: \<open>return false\<close>, \<open>break\<close>, or on to the next.\<close>

datatype pass_end = Failed | Stop | Next

type_synonym 's pass = "(pass_end \<times> pb_locals \<times> 's pb_istream \<times> heap) option"

text \<open>A tag without a field: an extension if there is one, or skipped.\<close>

definition skip_unknown :: "u32 \<Rightarrow> pb_locals \<Rightarrow> 's pb_istream \<Rightarrow> heap \<Rightarrow> 's pass" where
  "skip_unknown wire_type l st h =
     (case pb_skip_field wire_type st of (ok, st) \<Rightarrow> Some (if ok then Next else Failed, l, st, h))"

definition unknown_field :: "'s pb_env \<Rightarrow> 's pb_sub \<Rightarrow> nat \<Rightarrow> u32 \<Rightarrow> u32 \<Rightarrow> pb_locals \<Rightarrow> 's pb_istream \<Rightarrow> heap \<Rightarrow> 's pass" where
  "unknown_field env dec n tag wire_type l st h =
     (if tag \<ge> extension_range_start l then
        case find_extension_field (it l) of
          (found, iter) \<Rightarrow>
            let l = l\<lparr>it := iter, extension_range_start := (if found then ftag (cur iter) else - 1)\<rparr> in
            if tag \<ge> extension_range_start l then
              (case decode_extension env dec n tag wire_type iter st h of
                 None \<Rightarrow> None
               | Some (False, st', h) \<Rightarrow> Some (Failed, l, st', h)
               | Some (True, st', h) \<Rightarrow>
                   if bytes_left st \<noteq> bytes_left st' then Some (Next, l, st', h)
                   else skip_unknown wire_type l st' h)
            else skip_unknown wire_type l st h
      else skip_unknown wire_type l st h)"

text \<open>The bookkeeping for a fixed count field and for a required field; \<open>None\<close> is the wrong size.\<close>

definition note_fixed_count :: "addr \<Rightarrow> pb_locals \<Rightarrow> heap \<Rightarrow> (pb_locals \<times> heap) option" where
  "note_fixed_count slot l h =
     (let iter = it l in
      if PB_HTYPE (ftype (cur iter)) = PB_HTYPE_REPEATED \<and> pSize iter = pData iter then
        let l' = l\<lparr>it := iter\<lparr>pSize := slot\<rparr>\<rparr> in
        if fixed_count_field l \<noteq> Some (pos iter) then
          (case fixed_count_field l of
             None \<Rightarrow> Some (l'\<lparr>fixed_count_field := Some (pos iter)\<rparr>, store_u32 slot 0 h)
           | Some k \<Rightarrow>
               if load_u32 h slot \<noteq> array_size (start iter ! k) then None
               else Some (l'\<lparr>fixed_count_field := Some (pos iter)\<rparr>, store_u32 slot 0 h))
        else Some (l', h)
      else Some (l, h))"

definition note_required :: "pb_locals \<Rightarrow> pb_locals" where
  "note_required l =
     (let i = required_field_index (it l) in
      if PB_HTYPE (ftype (cur (it l))) = PB_HTYPE_REQUIRED \<and> i < PB_MAX_REQUIRED_FIELDS
      then l\<lparr>fields_seen := (fields_seen l)[i div 32 := fields_seen l ! (i div 32) OR push_bit (i mod 32) 1]\<rparr>
      else l)"

definition decode_pass :: "'s pb_env \<Rightarrow> 's pb_sub \<Rightarrow> nat \<Rightarrow> addr \<Rightarrow> pb_locals \<Rightarrow> 's pb_istream \<Rightarrow> heap \<Rightarrow> 's pass" where
  "decode_pass env dec n slot l st h =
     (case pb_decode_tag st of
        (None, eof, st) \<Rightarrow> Some (if eof then Stop else Failed, l, st, h)
      | (Some (wire_type, tag), eof, st) \<Rightarrow>
          (case pb_field_iter_find tag (it l) of
             (False, iter) \<Rightarrow> unknown_field env dec n tag wire_type (l\<lparr>it := iter\<rparr>) st h
           | (True, iter) \<Rightarrow>
               (case note_fixed_count slot (l\<lparr>it := iter\<rparr>) h of
                  None \<Rightarrow> Some (Failed, l, PB_SET_ERROR ''wrong size for fixed count field'' st, h)
                | Some (l, h) \<Rightarrow>
                    let l = note_required l in
                    (case decode_field env dec wire_type (it l) n st h of
                       None \<Rightarrow> None
                     | Some (ok, st, h) \<Rightarrow> Some (if ok then Next else Failed, l, st, h)))))"

primrec message_loop :: "nat \<Rightarrow> 's pb_env \<Rightarrow> 's pb_sub \<Rightarrow> nat \<Rightarrow> addr \<Rightarrow> pb_locals \<Rightarrow> 's pb_istream \<Rightarrow> heap \<Rightarrow> 's pass" where
  "message_loop 0 env dec n slot l st h = None"
| "message_loop (Suc k) env dec n slot l st h =
     (if bytes_left st = 0 then Some (Stop, l, st, h)
      else
        case decode_pass env dec n slot l st h of
          None \<Rightarrow> None
        | Some (Failed, l, st, h) \<Rightarrow> Some (Failed, l, st, h)
        | Some (Stop, l, st, h) \<Rightarrow> Some (Stop, l, st, h)
        | Some (Next, l, st, h) \<Rightarrow> message_loop k env dec n slot l st h)"

text \<open>The number of required fields: to the end of the array from where the iterator stands.\<close>

primrec required_loop :: "nat \<Rightarrow> pb_field_iter \<Rightarrow> nat \<times> u8 \<times> pb_field_iter" where
  "required_loop 0 iter = (required_field_index iter, ftype (cur iter), iter)"
| "required_loop (Suc k) iter =
     (case pb_field_iter_next iter of
        (False, iter') \<Rightarrow> (required_field_index iter, ftype (cur iter), iter')
      | (True, iter') \<Rightarrow> required_loop k iter')"

definition required_count :: "pb_field_iter \<Rightarrow> nat" where
  "required_count iter =
     (case required_loop (length (start iter)) iter of
        (req_field_count, last_type, iter) \<Rightarrow>
          let c = (if PB_HTYPE last_type = PB_HTYPE_REQUIRED \<and> ftag (cur iter) \<noteq> 0
                   then req_field_count + 1 else req_field_count)
          in if c > PB_MAX_REQUIRED_FIELDS then PB_MAX_REQUIRED_FIELDS else c)"

definition all_required_seen :: "u32 list \<Rightarrow> nat \<Rightarrow> bool" where
  "all_required_seen seen c =
     ((\<forall>i\<in>set [0..<c div 32]. seen ! i = - 1) \<and>
      (c mod 32 \<noteq> 0 \<longrightarrow> seen ! (c div 32) = drop_bit (32 - c mod 32) (- 1)))"

text \<open>The checks behind the loop.\<close>

definition final_checks :: "addr \<Rightarrow> pb_locals \<Rightarrow> 's pb_istream \<Rightarrow> heap \<Rightarrow> 's pb_result" where
  "final_checks slot l st h =
     (if (case fixed_count_field l of
            None \<Rightarrow> False
          | Some k \<Rightarrow> load_u32 h slot \<noteq> array_size (start (it l) ! k))
      then pb_fail ''wrong size for fixed count field'' st h
      else
        let c = required_count (it l)
        in if c > 0 \<and> \<not> all_required_seen (fields_seen l) c then pb_fail ''missing required field'' st h
           else (True, st, h))"

definition noinit_body :: "'s pb_env \<Rightarrow> 's pb_sub \<Rightarrow> nat \<Rightarrow> pb_field list \<Rightarrow> addr \<Rightarrow> 's pb_dec" where
  "noinit_body env dec n flds dest st h =
     (let slot = local_addr env n;
          l = \<lparr>it = snd (pb_field_iter_begin flds dest), fields_seen = [0, 0], extension_range_start = 0,
               fixed_count_field = None\<rparr>
      in case message_loop (Suc (bytes_left st)) env dec n slot l st (store_u32 slot 0 h) of
           None \<Rightarrow> None
         | Some (Failed, l, st, h) \<Rightarrow> Some (False, st, h)
         | Some (e, l, st, h) \<Rightarrow> Some (final_checks slot l st h))"

text \<open>\<open>pb_decode\<close>, given \<open>pb_decode_noinit\<close>\<close>

definition decode_with :: "nat \<Rightarrow> 's pb_env \<Rightarrow> (pb_field list \<Rightarrow> addr \<Rightarrow> 's pb_dec) \<Rightarrow> pb_field list \<Rightarrow> addr \<Rightarrow> 's pb_dec" where
  "decode_with n env noinit flds dest st h =
     (case pb_message_set_to_defaults n env flds dest h of
        None \<Rightarrow> None
      | Some h \<Rightarrow>
          (case noinit flds dest st h of
             None \<Rightarrow> None
           | Some (True, st, h) \<Rightarrow> Some (True, st, h)
           | Some (False, st, h) \<Rightarrow> map_option (\<lambda>h. (False, st, h)) (pb_release n env flds dest h)))"

primrec pb_decode_noinit :: "nat \<Rightarrow> 's pb_env \<Rightarrow> pb_field list \<Rightarrow> addr \<Rightarrow> 's pb_dec" where
  "pb_decode_noinit 0 env flds dest st h = None"
| "pb_decode_noinit (Suc n) env flds dest st h =
     noinit_body env
       (\<lambda>init p dest st h.
          if init then decode_with n env (pb_decode_noinit n env) (desc env p) dest st h
          else pb_decode_noinit n env (desc env p) dest st h)
       n flds dest st h"

definition pb_decode :: "nat \<Rightarrow> 's pb_env \<Rightarrow> pb_field list \<Rightarrow> addr \<Rightarrow> 's pb_dec" where
  "pb_decode n env flds dest st h = decode_with n env (pb_decode_noinit n env) flds dest st h"

text \<open>The two delimited variants differ in the decoder they call.\<close>

definition decode_delimited :: "'s pb_dec \<Rightarrow> 's pb_dec" where
  "decode_delimited decode st h =
     (case pb_make_string_substream st of
        (None, st) \<Rightarrow> Some (False, st, h)
      | (Some substream, st) \<Rightarrow>
          (case decode substream h of
             None \<Rightarrow> None
           | Some (status, substream, h) \<Rightarrow>
               (case pb_close_string_substream st substream of
                  (False, st) \<Rightarrow> Some (False, st, h)
                | (True, st) \<Rightarrow> Some (status, st, h))))"

definition pb_decode_delimited_noinit :: "nat \<Rightarrow> 's pb_env \<Rightarrow> pb_field list \<Rightarrow> addr \<Rightarrow> 's pb_dec" where
  "pb_decode_delimited_noinit n env flds dest = decode_delimited (pb_decode_noinit n env flds dest)"

definition pb_decode_delimited :: "nat \<Rightarrow> 's pb_env \<Rightarrow> pb_field list \<Rightarrow> addr \<Rightarrow> 's pb_dec" where
  "pb_decode_delimited n env flds dest = decode_delimited (pb_decode n env flds dest)"

definition pb_decode_nullterminated :: "nat \<Rightarrow> 's pb_env \<Rightarrow> pb_field list \<Rightarrow> addr \<Rightarrow> 's pb_dec" where
  "pb_decode_nullterminated n env flds dest st h = pb_decode n env flds dest st h"

end
