(* ===== verification/Pb_Contract.thy ===== *)
theory Pb_Contract
  imports Pb_Properties Pb_Encode Pb_Decode
begin

text \<open>
  nanopb: the contracts of the message code. \<open>writes w xs\<close> is the contract of an encoder that may not
  return, \<open>decodes\<close> that of a decoder, a triple with the memory it may change; they compose, and
  what memory elsewhere says is kept.
\<close>

unbundle bit_operations_syntax

subsection \<open>Contracts\<close>

definition writes :: "'s pb_enc \<Rightarrow> bytes \<Rightarrow> bool" where
  "writes w xs \<longleftrightarrow> (\<forall>st. plain_stream st \<longrightarrow> errmsg st = None \<longrightarrow>
     (has_room (length xs) st \<longrightarrow> w st = Some (True, put xs st)) \<and>
     (\<not> has_room (length xs) st \<longrightarrow> \<not> is_sizing st \<longrightarrow> bytes_written st + length xs < size_lim \<longrightarrow>
        (\<exists>st'. w st = Some (False, st') \<and> errmsg st' \<noteq> None)))"

lemma writesD:
  "writes w xs \<Longrightarrow> plain_stream st \<Longrightarrow> errmsg st = None \<Longrightarrow> has_room (length xs) st \<Longrightarrow> w st = Some (True, put xs st)"
  by (simp add: writes_def)

lemma writes_full:
  "writes w xs \<Longrightarrow> plain_stream st \<Longrightarrow> errmsg st = None \<Longrightarrow> \<not> has_room (length xs) st \<Longrightarrow> \<not> is_sizing st \<Longrightarrow>
    bytes_written st + length xs < size_lim \<Longrightarrow> \<exists>st'. w st = Some (False, st') \<and> errmsg st' \<noteq> None"
  by (simp add: writes_def)

lemma writes_emits:
  assumes "emits w xs" shows "writes (\<lambda>st. Some (w st)) xs"
  unfolding writes_def
proof (intro allI impI conjI)
  fix st :: "'a pb_ostream" assume "plain_stream st"
  then show "Some (w st) = Some (True, put xs st)" if "has_room (length xs) st"
    using that by (simp add: emitsD [OF assms])
  assume "\<not> has_room (length xs) st" "\<not> is_sizing st" "bytes_written st + length xs < size_lim"
  from emits_full [OF assms \<open>plain_stream st\<close> this] show "\<exists>st'. Some (w st) = Some (False, st') \<and> errmsg st' \<noteq> None"
    by (cases "w st") auto
qed

lemma writes_skip: "writes (\<lambda>st. Some (True, st)) []"
  by (auto simp: writes_def has_room_def plain_stream_def)

lemma writes_seq:
  assumes 1: "writes w1 xs" and 2: "writes w2 ys"
  shows "writes (\<lambda>st. enc_then (w1 st) w2) (xs @ ys)"
  unfolding writes_def
proof (intro allI impI conjI)
  fix st :: "'a pb_ostream"
  assume p: "plain_stream st" "errmsg st = None"
  let ?w = "\<lambda>st. enc_then (w1 st) w2"
  show "?w st = Some (True, put (xs @ ys) st)" if r: "has_room (length (xs @ ys)) st"
  proof -
    have x: "has_room (length xs) st" by (rule has_room_mono [OF r]) simp
    from writesD [OF 1 p x] writesD [OF 2 plain_put [OF p(1) x]] r p(2) show ?thesis by (simp add: enc_then_def)
  qed
  show "\<exists>st'. ?w st = Some (False, st') \<and> errmsg st' \<noteq> None"
    if r: "\<not> has_room (length (xs @ ys)) st" and s: "\<not> is_sizing st" and l: "bytes_written st + length (xs @ ys) < size_lim"
  proof (cases "has_room (length xs) st")
    case True
    from writesD [OF 1 p True] writes_full [OF 2 plain_put [OF p(1) True]] r s l p(2) show ?thesis
      by (simp add: enc_then_def)
  next
    case False
    have "bytes_written st + length xs < size_lim" using l by simp
    from writes_full [OF 1 p False s this] show ?thesis by (auto simp: enc_then_def)
  qed
qed

text \<open>
  On a stream that begins with \<open>xs\<close>, and memory that satisfies \<open>A\<close>, the decoder takes \<open>xs\<close> and leaves
  memory that satisfies \<open>B\<close>, changed in \<open>F\<close> only.
\<close>

definition decodes :: "'s pb_dec \<Rightarrow> bytes \<Rightarrow> (heap \<Rightarrow> bool) \<Rightarrow> (heap \<Rightarrow> bool) \<Rightarrow> addr set \<Rightarrow> bool" where
  "decodes D xs A B F \<longleftrightarrow> (\<forall>st h r. wf_stream st \<longrightarrow> content st = xs @ r \<longrightarrow> A h \<longrightarrow>
     (\<exists>h'. D st h = Some (True, adv (length xs) st, h') \<and> B h' \<and> same_outside F h h'))"

lemma decodesE:
  assumes "decodes D xs A B F" "wf_stream st" "content st = xs @ r" "A h"
  obtains h' where "D st h = Some (True, adv (length xs) st, h')" "B h'" "same_outside F h h'"
  using assms unfolding decodes_def by blast

lemma decodesI:
  "(\<And>st h r. wf_stream st \<Longrightarrow> content st = xs @ r \<Longrightarrow> A h \<Longrightarrow>
     \<exists>h'. D st h = Some (True, adv (length xs) st, h') \<and> B h' \<and> same_outside F h h') \<Longrightarrow> decodes D xs A B F"
  unfolding decodes_def by blast

lemma decodes_conseq:
  assumes "decodes D xs A B F" "\<And>h. A' h \<Longrightarrow> A h" "\<And>h. B h \<Longrightarrow> B' h" "F \<subseteq> F'"
  shows "decodes D xs A' B' F'"
proof (rule decodesI)
  fix st :: "'a pb_istream" and h r assume "wf_stream st" "content st = xs @ r" "A' h"
  from decodesE [OF assms(1) this(1,2) assms(2) [OF this(3)]] obtain h' where
    "D st h = Some (True, adv (length xs) st, h')" "B h'" "same_outside F h h'" .
  with assms(3,4) show "\<exists>h'. D st h = Some (True, adv (length xs) st, h') \<and> B' h' \<and> same_outside F' h h'"
    by (blast intro: same_outside_mono)
qed

text \<open>The frame: what memory outside of \<open>F\<close> says stays true.\<close>

lemma decodes_frame:
  assumes "decodes D xs A B F" "\<And>h h'. Q h \<Longrightarrow> same_outside F h h' \<Longrightarrow> Q h'"
  shows "decodes D xs (\<lambda>h. A h \<and> Q h) (\<lambda>h. B h \<and> Q h) F"
proof (rule decodesI)
  fix st :: "'a pb_istream" and h r assume st: "wf_stream st" "content st = xs @ r" and h: "A h \<and> Q h"
  from decodesE [OF assms(1) st conjunct1 [OF h]] obtain h' where
    "D st h = Some (True, adv (length xs) st, h')" "B h'" "same_outside F h h'" .
  with assms(2) [OF conjunct2 [OF h]] show
    "\<exists>h'. D st h = Some (True, adv (length xs) st, h') \<and> (B h' \<and> Q h') \<and> same_outside F h h'" by blast
qed

lemma wf_stream_suffix: "wf_stream st \<Longrightarrow> content st = xs @ r \<Longrightarrow> wf_stream (adv (length xs) st)"
  using length_stream_content [of st] by simp

lemma decodes_seq:
  assumes 1: "decodes D1 xs A B F" and 2: "decodes D2 ys B C G" and H: "F \<union> G \<subseteq> H"
  shows "decodes (\<lambda>st h. pb_then (D1 st h) D2) (xs @ ys) A C H"
proof (rule decodesI)
  fix st :: "'a pb_istream" and h r assume wf: "wf_stream st" and c: "content st = (xs @ ys) @ r" and "A h"
  then have c1: "content st = xs @ ys @ r" by simp
  from decodesE [OF 1 wf c1 \<open>A h\<close>] obtain h1 where
    d1: "D1 st h = Some (True, adv (length xs) st, h1)" "B h1" "same_outside F h h1" .
  have c2: "content (adv (length xs) st) = ys @ r" using c1 by simp
  from decodesE [OF 2 wf_stream_suffix [OF wf c1] c2 d1(2)] obtain h2 where
    d2: "D2 (adv (length xs) st) h1 = Some (True, adv (length ys) (adv (length xs) st), h2)" "C h2" "same_outside G h1 h2" .
  have "pb_then (D1 st h) D2 = Some (True, adv (length (xs @ ys)) st, h2)"
    by (simp add: pb_then_def d1(1) d2(1))
  with d2(2) same_outside_trans [OF d1(3) d2(3) H]
  show "\<exists>h'. pb_then (D1 st h) D2 = Some (True, adv (length (xs @ ys)) st, h') \<and> C h' \<and> same_outside H h h'" by blast
qed

end
