(* ===== verification/Pb_Value.thy ===== *)
theory Pb_Value
  imports Pb_Contract
begin

text \<open>
  nanopb: single values between memory and a stream. A value is the byte string that memory holds
  for it, and \<open>value_bytes\<close> its encoding.
\<close>

unbundle bit_operations_syntax

subsection \<open>Values in memory\<close>

abbreviation width :: "pb_field \<Rightarrow> nat" where "width f \<equiv> unat (data_size f)"

text \<open>The bytes that hold the value of a field of static type at an address.\<close>

definition value_image :: "pb_field \<Rightarrow> heap \<Rightarrow> addr \<Rightarrow> bytes" where
  "value_image f h p =
     (let t = PB_LTYPE (ftype f) in
      if t = PB_LTYPE_BYTES then load_bytes h p (4 + unat (load_u32 h p))
      else if t = PB_LTYPE_STRING then load_bytes h p (Suc (string_size h p (width f) 0))
      else load_bytes h p (width f))"

text \<open>The fields whose size the code knows, and the byte strings that are values of a field.\<close>

definition scalar_field :: "pb_field \<Rightarrow> bool" where
  "scalar_field f \<longleftrightarrow>
     (let t = PB_LTYPE (ftype f); n = data_size f in
      t = PB_LTYPE_BOOL \<and> n = 1 \<or>
      (t = PB_LTYPE_VARINT \<or> t = PB_LTYPE_UVARINT \<or> t = PB_LTYPE_SVARINT) \<and> (n = 1 \<or> n = 2 \<or> n = 4 \<or> n = 8) \<or>
      t = PB_LTYPE_FIXED32 \<and> n = 4 \<or> t = PB_LTYPE_FIXED64 \<and> n = 8 \<or>
      t = PB_LTYPE_BYTES \<or> t = PB_LTYPE_STRING \<or> t = PB_LTYPE_FIXED_LENGTH_BYTES)"

definition good_image :: "pb_field \<Rightarrow> bytes \<Rightarrow> bool" where
  "good_image f bs \<longleftrightarrow>
     (let t = PB_LTYPE (ftype f) in
      if t = PB_LTYPE_BOOL then bs = [0] \<or> bs = [1]
      else if t = PB_LTYPE_BYTES then 4 \<le> length bs \<and> le_val (take 4 bs) + 4 = length bs \<and> length bs \<le> width f
      else if t = PB_LTYPE_STRING then bs \<noteq> [] \<and> last bs = 0 \<and> 0 \<notin> set (butlast bs) \<and> length bs \<le> width f
      else length bs = width f)"

text \<open>A little-endian two's complement number, extended to 64 bits.\<close>

definition signed_of :: "bytes \<Rightarrow> u64" where
  "signed_of bs =
     (if length bs = 1 then scast (word_of_nat (le_val bs) :: u8)
      else if length bs = 2 then scast (word_of_nat (le_val bs) :: u16)
      else if length bs = 4 then scast (word_of_nat (le_val bs) :: u32)
      else word_of_nat (le_val bs))"

definition value_bytes :: "pb_field \<Rightarrow> bytes \<Rightarrow> bytes" where
  "value_bytes f bs =
     (let t = PB_LTYPE (ftype f) in
      if t = PB_LTYPE_BOOL then varint_bytes (if hd bs \<noteq> 0 then 1 else 0)
      else if t = PB_LTYPE_VARINT then varint_bytes (unat (signed_of bs))
      else if t = PB_LTYPE_UVARINT then varint_bytes (le_val bs)
      else if t = PB_LTYPE_SVARINT then varint_bytes (zigzag (sint (signed_of bs)))
      else if t = PB_LTYPE_BYTES then string_bytes (drop 4 bs)
      else if t = PB_LTYPE_STRING then string_bytes (butlast bs)
      else if t = PB_LTYPE_FIXED_LENGTH_BYTES then string_bytes bs
      else bs)"

lemma width_bound: "width f < 2 ^ 32"
  using unsigned_less [of "data_size f", where ?'a = nat] by simp

lemma le_bytes_val_n: "length bs = n \<Longrightarrow> le_bytes n (le_val bs) = bs"
  using le_bytes_le_val [of bs] by simp

lemma le_val_bound_n: "length bs = n \<Longrightarrow> le_val bs < 256 ^ n"
  using le_val_bound [of bs] by simp

text \<open>Truncating what was extended.\<close>

lemma extend_truncate:
  "(ucast (scast (w8 :: u8) :: u64) :: u8) = w8" "(ucast (scast (w16 :: u16) :: u64) :: u16) = w16"
  "(ucast (scast (w32 :: u32) :: u64) :: u32) = w32"
  by (rule bit_word_eqI, simp add: bit_simps)+

lemma extend_via_32:
  "(scast (ucast (scast (w8 :: u8) :: u64) :: u32) :: u64) = scast w8"
  "(scast (ucast (scast (w16 :: u16) :: u64) :: u32) :: u64) = scast w16"
  "(scast (ucast (scast (w32 :: u32) :: u64) :: u32) :: u64) = scast w32"
  by (rule bit_word_eqI, auto simp: bit_simps min_def)+

lemma le_bytes_Suc: "le_bytes (Suc n) v = word_of_nat v # le_bytes n (v div 256)"
  by (simp add: le_bytes_def)

lemma ucast_drop_nat: "(ucast (drop_bit k w) :: u8) = word_of_nat (unat w div 2 ^ k)"
  unfolding unat_drop_bit [symmetric] by simp

lemma fixed32_le: "fixed32_bytes v = le_bytes 4 (unat v)"
proof -
  have "(4 :: nat) = Suc (Suc (Suc (Suc 0)))" by simp
  then show ?thesis
    by (simp only: fixed32_list le_bytes_Suc ucast_drop_nat) (simp add: le_bytes_def div_mult2_eq [symmetric])
qed

lemma fixed64_le: "fixed64_bytes v = le_bytes 8 (unat v)"
proof -
  have "(8 :: nat) = Suc (Suc (Suc (Suc (Suc (Suc (Suc (Suc 0)))))))" by simp
  then show ?thesis
    by (simp only: fixed64_list le_bytes_Suc ucast_drop_nat) (simp add: le_bytes_def div_mult2_eq [symmetric])
qed

subsection \<open>Encoding a value\<close>

lemma length_string_size: "sz \<le> string_size h p limit sz \<and> (sz \<le> limit \<longrightarrow> string_size h p limit sz \<le> limit)"
proof (induction h p limit sz rule: string_size.induct)
  case (1 h p limit sz)
  then show ?case by (auto simp: string_size.simps [of h p limit sz] split: if_splits)
qed

lemma string_size_stop:
  "(\<And>i. i < m \<Longrightarrow> mem h (p + word_of_nat i) \<noteq> 0) \<Longrightarrow> mem h (p + word_of_nat m) = 0 \<Longrightarrow> k + m < limit \<Longrightarrow>
    string_size h p limit k = k + m"
proof (induction m arbitrary: p k)
  case 0
  then show ?case by (simp add: string_size.simps [of h p])
next
  case (Suc m)
  have "mem h p \<noteq> 0" using Suc.prems(1) [of 0] by simp
  moreover have "string_size h (p + 1) limit (k + 1) = k + 1 + m"
  proof (rule Suc.IH)
    show "mem h (p + 1 + word_of_nat i) \<noteq> 0" if "i < m" for i using Suc.prems(1) [of "Suc i"] that by (simp add: ac_simps)
    show "mem h (p + 1 + word_of_nat m) = 0" using Suc.prems(2) by (simp add: ac_simps)
  qed (use Suc.prems(3) in simp)
  ultimately show ?case using Suc.prems(3) by (simp add: string_size.simps [of h p])
qed

lemma load_bytes_1: "load_bytes h p 1 = [mem h p]" "load_bytes h p (Suc 0) = [mem h p]"
  by (simp_all add: load_bytes_def)

lemma take_load_bytes: "k \<le> n \<Longrightarrow> take k (load_bytes h p n) = load_bytes h p k"
  by (simp add: load_bytes_def take_map)

lemma drop_load_bytes: "drop k (load_bytes h p n) = load_bytes h (p + word_of_nat k) (n - k)"
  by (rule nth_equalityI) (simp_all add: load_bytes_def less_diff_conv ac_simps)

lemma butlast_load_bytes: "butlast (load_bytes h p (Suc n)) = load_bytes h p n"
  by (simp add: load_bytes_def)

lemma le_val_single: "le_val [b] = unat b"
  by (simp add: le_val_def)

lemma load_signed_image:
  "sz = 1 \<or> sz = 2 \<or> sz = 4 \<or> sz = 8 \<Longrightarrow> load_signed sz h p = Some (signed_of (load_bytes h p (unat sz)))"
  by (auto simp: load_signed_def signed_of_def load_bytes_1 le_val_single load_u16_def load_u32_def load_u64_def)

lemma ucast_of_nat_small: "n < 2 ^ LENGTH('a) \<Longrightarrow> (ucast (word_of_nat n :: 'a :: len word) :: u64) = word_of_nat n"
  by (metis of_nat_inverse of_nat_unat)

lemma load_unsigned_image:
  assumes "sz = 1 \<or> sz = 2 \<or> sz = 4 \<or> sz = 8"
  shows "load_unsigned sz h p = Some (word_of_nat (le_val (load_bytes h p (unat sz))))"
proof -
  have b: "le_val (load_bytes h p n) < 256 ^ n" for n by (rule le_val_bound_n) simp
  have "load_bytes h p 1 = [mem h p]" by (simp add: load_bytes_def)
  with assms b [of 2] b [of 4] show ?thesis
    by (auto simp: load_unsigned_def load_bytes_1 le_val_single load_u16_def load_u32_def load_u64_def
        ucast_of_nat_small)
qed

lemma unat_load_u32: "unat (load_u32 h p) = le_val (load_bytes h p 4)"
  using le_val_bound_n [of "load_bytes h p 4" 4] by (simp add: load_u32_def unat_of_nat)

lemma unat_load_u64: "unat (load_u64 h p) = le_val (load_bytes h p 8)"
  using le_val_bound_n [of "load_bytes h p 8" 8] by (simp add: load_u64_def unat_of_nat)

lemma scalar_cases:
  assumes "scalar_field f"
  obtains (BOOL) "PB_LTYPE (ftype f) = PB_LTYPE_BOOL" "data_size f = 1"
  | (VARINT) "PB_LTYPE (ftype f) = PB_LTYPE_VARINT" "data_size f = 1 \<or> data_size f = 2 \<or> data_size f = 4 \<or> data_size f = 8"
  | (UVARINT) "PB_LTYPE (ftype f) = PB_LTYPE_UVARINT" "data_size f = 1 \<or> data_size f = 2 \<or> data_size f = 4 \<or> data_size f = 8"
  | (SVARINT) "PB_LTYPE (ftype f) = PB_LTYPE_SVARINT" "data_size f = 1 \<or> data_size f = 2 \<or> data_size f = 4 \<or> data_size f = 8"
  | (FIXED32) "PB_LTYPE (ftype f) = PB_LTYPE_FIXED32" "data_size f = 4"
  | (FIXED64) "PB_LTYPE (ftype f) = PB_LTYPE_FIXED64" "data_size f = 8"
  | (BYTES) "PB_LTYPE (ftype f) = PB_LTYPE_BYTES"
  | (STRING) "PB_LTYPE (ftype f) = PB_LTYPE_STRING"
  | (FIXED_LENGTH) "PB_LTYPE (ftype f) = PB_LTYPE_FIXED_LENGTH_BYTES"
  using assms unfolding scalar_field_def Let_def by blast

lemma writes_value:
  assumes f: "scalar_field f" and a: "PB_ATYPE (ftype f) = PB_ATYPE_STATIC" and p: "p \<noteq> 0"
    and good: "good_image f (value_image f h p)"
  shows "writes (pb_encoder enc f h p) (value_bytes f (value_image f h p))"
  using f
proof (cases rule: scalar_cases)
  case BOOL
  have "(pb_encoder enc f h p :: 'a pb_enc) = (\<lambda>st. Some (pb_encode_varint (if mem h p \<noteq> 0 then 1 else 0) st))"
    by (simp add: fun_eq_iff pb_encoder_def BOOL pb_enc_bool_def safe_read_bool_def)
  moreover have "value_bytes f (value_image f h p) = varint_bytes (unat (if mem h p \<noteq> 0 then 1 else 0 :: u64))"
    by (simp add: value_bytes_def value_image_def BOOL load_bytes_1 ltypes)
  ultimately show ?thesis using writes_emits [OF emits_varint] by metis
next
  case VARINT
  then have "(pb_encoder enc f h p :: 'a pb_enc) = (\<lambda>st. Some (pb_encode_varint (signed_of (load_bytes h p (width f))) st))"
    by (simp add: fun_eq_iff pb_encoder_def pb_enc_varint_def load_signed_image ltypes)
  then show ?thesis
    using writes_emits [OF emits_varint] VARINT(1) by (simp add: value_bytes_def value_image_def ltypes)
next
  case UVARINT
  then have e: "(pb_encoder enc f h p :: 'a pb_enc) = (\<lambda>st. Some (pb_encode_varint (word_of_nat (le_val (load_bytes h p (width f)))) st))"
    by (simp add: fun_eq_iff pb_encoder_def pb_enc_uvarint_def load_unsigned_image ltypes)
  have "width f \<le> 8" using UVARINT(2) by auto
  then have "(256 :: nat) ^ width f \<le> 256 ^ 8" by (intro power_increasing) simp_all
  then have "le_val (load_bytes h p (width f)) < 2 ^ 64"
    using le_val_bound_n [of "load_bytes h p (width f)" "width f"] by simp
  then have "unat (word_of_nat (le_val (load_bytes h p (width f))) :: u64) = le_val (load_bytes h p (width f))"
    by (simp add: unat_of_nat)
  then show ?thesis unfolding e
    using writes_emits [OF emits_varint [of "word_of_nat (le_val (load_bytes h p (width f)))"]] UVARINT(1)
    by (simp add: value_bytes_def value_image_def ltypes)
next
  case SVARINT
  then have "(pb_encoder enc f h p :: 'a pb_enc) = (\<lambda>st. Some (pb_encode_svarint (signed_of (load_bytes h p (width f))) st))"
    by (simp add: fun_eq_iff pb_encoder_def pb_enc_svarint_def load_signed_image ltypes)
  then show ?thesis
    using writes_emits [OF emits_svarint] SVARINT(1) by (simp add: value_bytes_def value_image_def ltypes)
next
  case FIXED32
  then have e: "(pb_encoder enc f h p :: 'a pb_enc) = (\<lambda>st. Some (pb_encode_fixed32 (load_u32 h p) st))"
    by (simp add: fun_eq_iff pb_encoder_def pb_enc_fixed32_def ltypes)
  have "fixed32_bytes (load_u32 h p) = load_bytes h p 4" by (simp add: fixed32_le unat_load_u32 le_bytes_val_n)
  then show ?thesis unfolding e
    using writes_emits [OF emits_fixed32 [of "load_u32 h p"]] FIXED32 by (simp add: value_bytes_def value_image_def ltypes)
next
  case FIXED64
  then have e: "(pb_encoder enc f h p :: 'a pb_enc) = (\<lambda>st. Some (pb_encode_fixed64 (load_u64 h p) st))"
    by (simp add: fun_eq_iff pb_encoder_def pb_enc_fixed64_def ltypes)
  have "fixed64_bytes (load_u64 h p) = load_bytes h p 8" by (simp add: fixed64_le unat_load_u64 le_bytes_val_n)
  then show ?thesis unfolding e
    using writes_emits [OF emits_fixed64 [of "load_u64 h p"]] FIXED64 by (simp add: value_bytes_def value_image_def ltypes)
next
  case BYTES
  let ?n = "unat (load_u32 h p)"
  have n: "?n < 2 ^ 32" using unsigned_less [of "load_u32 h p", where ?'a = nat] by simp
  have "4 + ?n \<le> width f" using good BYTES by (simp add: good_image_def value_image_def ltypes)
  then have e: "(pb_encoder enc f h p :: 'a pb_enc) = (\<lambda>st. Some (pb_encode_string (load_bytes h (p + 4) ?n) ?n st))"
    using n p by (simp add: fun_eq_iff pb_encoder_def pb_enc_bytes_def PB_BYTES_ARRAY_T_ALLOCSIZE_def BYTES ltypes Let_def)
  have "drop 4 (value_image f h p) = load_bytes h (p + 4) ?n"
    using BYTES by (simp add: value_image_def drop_load_bytes ltypes)
  then show ?thesis unfolding e
    using writes_emits [OF emits_string [of ?n "load_bytes h (p + 4) ?n"]] n BYTES by (simp add: value_bytes_def ltypes)
next
  case STRING
  let ?n = "string_size h p (width f) 0"
  have "?n \<le> width f" using length_string_size [of 0 h p "width f"] by simp
  then have n: "?n < size_lim" using width_bound [of f] by simp
  have e: "(pb_encoder enc f h p :: 'a pb_enc) = (\<lambda>st. Some (pb_encode_string (load_bytes h p ?n) ?n st))"
    using p by (simp add: fun_eq_iff pb_encoder_def pb_enc_string_def a STRING ltypes atypes Let_def)
  show ?thesis unfolding e
    using writes_emits [OF emits_string [of ?n "load_bytes h p ?n"]] n STRING
    by (simp add: value_bytes_def value_image_def butlast_load_bytes ltypes)
next
  case FIXED_LENGTH
  have n: "width f < size_lim" using width_bound [of f] by simp
  have e: "(pb_encoder enc f h p :: 'a pb_enc) = (\<lambda>st. Some (pb_encode_string (load_bytes h p (width f)) (width f) st))"
    by (simp add: fun_eq_iff pb_encoder_def pb_enc_fixed_length_bytes_def FIXED_LENGTH ltypes)
  show ?thesis unfolding e
    using writes_emits [OF emits_string [of "width f" "load_bytes h p (width f)"]] n FIXED_LENGTH
    by (simp add: value_bytes_def value_image_def ltypes)
qed

subsection \<open>Decoding a value\<close>

lemma decode_varint_stream:
  assumes "wf_stream st" "content st = varint_bytes m @ r" "m < 2 ^ 64"
  shows "pb_decode_varint st = (Some (word_of_nat m), adv (length (varint_bytes m)) st)"
proof -
  have s: "varint_split (content st) = Some (varint_bytes m, r)" by (simp add: assms(2))
  from pb_decode_varint_buf [OF assms(1) s varint_bytes_length_64 [OF assms(3)]] show ?thesis by simp
qed

lemma decode_svarint_stream:
  assumes "wf_stream st" "content st = varint_bytes (zigzag (sint v)) @ r"
  shows "pb_decode_svarint st = (Some v, adv (length (varint_bytes (zigzag (sint v)))) st)"
  by (simp only: pb_decode_svarint_def decode_varint_stream [OF assms zigzag_bound] prod.case option.case zigzag_undo)

lemma pb_read_stream:
  "wf_stream st \<Longrightarrow> content st = xs @ r \<Longrightarrow> pb_read False (length xs) st = (Some xs, adv (length xs) st)"
  using pb_read_buf [of st "length xs" False] length_stream_content [of st] by simp

lemma pb_read_mem_stream:
  "wf_stream st \<Longrightarrow> content st = xs @ r \<Longrightarrow> n = length xs \<Longrightarrow>
    pb_read_mem n dest st h = (True, adv (length xs) st, store_bytes dest xs h)"
  by (simp add: pb_read_mem_def pb_read_stream)

text \<open>The length in front of a string, then the string.\<close>

lemma decode_length_stream:
  assumes wf: "wf_stream st" and c: "content st = string_bytes xs @ r" and n: "length xs < 2 ^ 32"
  obtains st1 where "pb_decode_varint32 st = (Some (word_of_nat (length xs)), st1)" "wf_stream st1" "content st1 = xs @ r"
    "adv (length xs) st1 = adv (length (string_bytes xs)) st" "unat (word_of_nat (length xs) :: u32) = length xs"
proof -
  let ?st1 = "adv (length (varint_bytes (length xs))) st"
  have c': "content st = varint_bytes (length xs) @ xs @ r" using c by (simp add: string_bytes_def)
  show thesis
  proof (rule that [of ?st1])
    show "pb_decode_varint32 st = (Some (word_of_nat (length xs)), ?st1)" by (rule pb_decode_varint32_bytes [OF wf c' n])
    show "wf_stream ?st1" by (rule wf_stream_suffix [OF wf c'])
    show "content ?st1 = xs @ r" using c' by simp
    show "adv (length xs) ?st1 = adv (length (string_bytes xs)) st" by (simp add: string_bytes_def)
    show "unat (word_of_nat (length xs) :: u32) = length xs" using n by (simp add: unat_of_nat)
  qed
qed

lemma unat_diff_u64:
  "unat (y - w) = (if unat w \<le> unat y then unat y - unat w else unat y + size_lim - unat w)" for y w :: u64
  by (simp add: unat_sub_if_size word_size)

lemma mem_store_bytes: "mem (store_bytes a xs h) x = (if unat (x - a) < length xs then xs ! unat (x - a) else mem h x)"
  by (simp add: store_bytes_def)

lemma store_bytes_append:
  assumes "length xs + length ys \<le> size_lim"
  shows "store_bytes (a + word_of_nat (length xs)) ys (store_bytes a xs h) = store_bytes a (xs @ ys) h"
proof -
  have "(if unat (x - (a + word_of_nat (length xs))) < length ys then ys ! unat (x - (a + word_of_nat (length xs)))
      else if unat (x - a) < length xs then xs ! unat (x - a) else mem h x) =
    (if unat (x - a) < length (xs @ ys) then (xs @ ys) ! unat (x - a) else mem h x)" (is "?l = ?r") for x
  proof (cases "length ys = 0")
    case False
    then have lx: "length xs < size_lim" using assms by (cases ys) simp_all
    then have ux: "unat (word_of_nat (length xs) :: addr) = length xs" by (simp add: unat_of_nat)
    define i where "i = unat (x - a)"
    have i: "i < size_lim" using unsigned_less [of "x - a", where ?'a = nat] by (simp add: i_def)
    have d: "x - (a + word_of_nat (length xs)) = (x - a) - word_of_nat (length xs)" by simp
    show ?thesis
    proof (cases "i < length xs")
      case True
      have "unat (x - (a + word_of_nat (length xs))) = i + size_lim - length xs"
        unfolding d unat_diff_u64 [of "x - a"] ux i_def [symmetric] using True by simp
      moreover have "\<not> i + size_lim - length xs < length ys" using assms by simp
      ultimately show ?thesis using True by (simp add: nth_append flip: i_def)
    next
      case ge: False
      have "unat (x - (a + word_of_nat (length xs))) = i - length xs"
        unfolding d unat_diff_u64 [of "x - a"] ux i_def [symmetric] using ge by simp
      with ge show ?thesis by (auto simp: nth_append simp flip: i_def)
    qed
  qed simp
  then have "mem (store_bytes (a + word_of_nat (length xs)) ys (store_bytes a xs h)) x = mem (store_bytes a (xs @ ys) h) x" for x
    unfolding mem_store_bytes .
  then show ?thesis by (intro heap.equality ext) simp_all
qed

lemma unat_le_val:
  "length bs = 1 \<Longrightarrow> unat (word_of_nat (le_val bs) :: u8) = le_val bs"
  "length bs = 2 \<Longrightarrow> unat (word_of_nat (le_val bs) :: u16) = le_val bs"
  "length bs = 4 \<Longrightarrow> unat (word_of_nat (le_val bs) :: u32) = le_val bs"
  "length bs = 8 \<Longrightarrow> unat (word_of_nat (le_val bs) :: u64) = le_val bs"
  using le_val_bound [of bs] by (simp_all add: unat_of_nat)

lemma store_image:
  "length bs = 1 \<Longrightarrow> store_bytes a [word_of_nat (le_val bs)] h = store_bytes a bs h"
  "length bs = 2 \<Longrightarrow> store_u16 a (word_of_nat (le_val bs)) h = store_bytes a bs h"
  "length bs = 4 \<Longrightarrow> store_u32 a (word_of_nat (le_val bs)) h = store_bytes a bs h"
  "length bs = 8 \<Longrightarrow> store_u64 a (word_of_nat (le_val bs)) h = store_bytes a bs h"
proof -
  show "store_bytes a [word_of_nat (le_val bs)] h = store_bytes a bs h" if l: "length bs = 1"
  proof -
    obtain b where "bs = [b]" using l by (cases bs) auto
    then show ?thesis by (simp add: le_val_single)
  qed
qed (simp_all add: store_u16_def store_u32_def store_u64_def unat_le_val le_bytes_val_n)

lemma store_signed_image:
  "sz = 1 \<or> sz = 2 \<or> sz = 4 \<or> sz = 8 \<Longrightarrow> length bs = unat sz \<Longrightarrow>
    store_signed sz dest (signed_of bs) h = Some (signed_of bs, store_bytes dest bs h)"
  by (elim disjE) (simp_all add: store_signed_def signed_of_def extend_truncate store_image)

lemma ucast_le_val:
  "length bs = 1 \<Longrightarrow> (ucast (word_of_nat (le_val bs) :: u64) :: u8) = word_of_nat (le_val bs)"
  "length bs = 2 \<Longrightarrow> (ucast (word_of_nat (le_val bs) :: u64) :: u16) = word_of_nat (le_val bs)"
  "length bs = 4 \<Longrightarrow> (ucast (word_of_nat (le_val bs) :: u64) :: u32) = word_of_nat (le_val bs)"
  using le_val_bound [of bs] by (simp_all add: word_unat_eq_iff unat_ucast_down unat_of_nat)

lemma store_unsigned_image:
  "sz = 1 \<or> sz = 2 \<or> sz = 4 \<or> sz = 8 \<Longrightarrow> length bs = unat sz \<Longrightarrow>
    store_unsigned sz dest (word_of_nat (le_val bs)) h = Some (word_of_nat (le_val bs), store_bytes dest bs h)"
  using le_val_bound [of bs]
  by (elim disjE) (simp_all add: store_unsigned_def ucast_le_val store_image ucast_of_nat_small)

lemma signed_via_32:
  assumes "sz = 1 \<or> sz = 2 \<or> sz = 4 \<or> sz = (8 :: u32)" "length bs = unat sz"
  shows "(if sz = 8 then signed_of bs else scast (ucast (signed_of bs) :: u32)) = signed_of bs"
  using assms by (elim disjE) (simp_all add: signed_of_def extend_via_32)

lemma le_val_bound_u64: "length bs \<le> 8 \<Longrightarrow> le_val bs < 2 ^ 64"
proof -
  assume "length bs \<le> 8"
  then have "(256 :: nat) ^ length bs \<le> 256 ^ 8" by (intro power_increasing) simp_all
  with le_val_bound [of bs] show ?thesis by simp
qed

lemma good_image_string:
  assumes "PB_LTYPE (ftype f) = PB_LTYPE_STRING" "good_image f bs"
  obtains xs where "bs = xs @ [0]" "0 \<notin> set xs" "length xs < width f"
proof (rule that)
  have g: "bs \<noteq> []" "last bs = 0" "0 \<notin> set (butlast bs)" "length bs \<le> width f"
    using assms by (simp_all add: good_image_def ltypes)
  then show "bs = butlast bs @ [0]" by (metis append_butlast_last_id)
  show "0 \<notin> set (butlast bs)" by (rule g)
  show "length (butlast bs) < width f" using g(1,4) by (cases bs) simp_all
qed

lemma decode_value_bytes:
  assumes f: "PB_LTYPE (ftype f) = PB_LTYPE_BYTES" and a: "PB_ATYPE (ftype f) = PB_ATYPE_STATIC" and g: "good_image f bs"
    and wf: "wf_stream st" and c: "content st = string_bytes (drop 4 bs) @ r"
  shows "pb_dec_bytes env f dest st h = (True, adv (length (string_bytes (drop 4 bs))) st, store_bytes dest bs h)"
proof -
  let ?xs = "drop 4 bs"
  have l: "4 \<le> length bs" "le_val (take 4 bs) + 4 = length bs" "length bs \<le> width f"
    using f g by (simp_all add: good_image_def ltypes)
  then have n: "length ?xs < 2 ^ 32" "length bs < 2 ^ 32" using width_bound [of f] by simp_all
  obtain st1 where st1: "pb_decode_varint32 st = (Some (word_of_nat (length ?xs)), st1)" "wf_stream st1" "content st1 = ?xs @ r"
    "adv (length ?xs) st1 = adv (length (string_bytes ?xs)) st" "unat (word_of_nat (length ?xs) :: u32) = length ?xs"
    by (rule decode_length_stream [OF wf c n(1)])
  have al: "PB_BYTES_ARRAY_T_ALLOCSIZE (length ?xs) = length bs"
    using l(1) n(2) by (simp add: PB_BYTES_ARRAY_T_ALLOCSIZE_def)
  have "take 4 bs = le_bytes 4 (length ?xs)"
    using l le_bytes_val_n [of "take 4 bs" 4] by (metis add_diff_cancel_right' length_drop length_take min.absorb2)
  then have "store_u32 dest (word_of_nat (length ?xs)) h = store_bytes dest (take 4 bs) h"
    by (simp only: store_u32_def st1(5))
  moreover have "store_bytes (dest + 4) ?xs (store_bytes dest (take 4 bs) h) = store_bytes dest bs h"
    using store_bytes_append [of "take 4 bs" ?xs dest h] l n(2) by simp
  ultimately have fill: "pb_read_mem (length ?xs) (dest + 4) st1 (store_u32 dest (word_of_nat (length ?xs)) h) =
      (True, adv (length ?xs) st1, store_bytes dest bs h)"
    using pb_read_mem_stream [OF st1(2,3) refl] by simp
  have m: "\<not> word_of_nat (length ?xs) > PB_SIZE_MAX" "\<not> length ?xs > length bs" "\<not> length bs > unat (data_size f)"
    using l(3) by simp_all
  have na: "PB_ATYPE (ftype f) \<noteq> PB_ATYPE_POINTER" using a by (simp add: atypes)
  show ?thesis
    unfolding pb_dec_bytes_def st1(1) prod.case option.case Let_def st1(5) al if_not_P [OF m(1)] if_not_P [OF m(2)]
      if_not_P [OF m(3)] if_not_P [OF na] fill st1(4) ..
qed

lemma decode_value_string:
  assumes f: "PB_LTYPE (ftype f) = PB_LTYPE_STRING" and a: "PB_ATYPE (ftype f) = PB_ATYPE_STATIC" and g: "good_image f bs"
    and wf: "wf_stream st" and c: "content st = string_bytes (butlast bs) @ r"
  shows "pb_dec_string env f dest st h = (True, adv (length (string_bytes (butlast bs))) st, store_bytes dest bs h)"
proof -
  obtain xs where xs: "bs = xs @ [0]" "0 \<notin> set xs" "length xs < width f" by (rule good_image_string [OF f g])
  have n: "length xs < 2 ^ 32" "Suc (length xs) < 2 ^ 32" using width_bound [of f] xs(3) by simp_all
  have c': "content st = string_bytes xs @ r" using c xs(1) by simp
  obtain st1 where st1: "pb_decode_varint32 st = (Some (word_of_nat (length xs)), st1)" "wf_stream st1" "content st1 = xs @ r"
    "adv (length xs) st1 = adv (length (string_bytes xs)) st" "unat (word_of_nat (length xs) :: u32) = length xs"
    by (rule decode_length_stream [OF wf c' n(1)])
  have al: "unat (word_of_nat (length xs) + 1 :: u32) = Suc (length xs)"
  proof -
    have "(word_of_nat (length xs) + 1 :: u32) = word_of_nat (Suc (length xs))" by simp
    moreover have "unat (word_of_nat (Suc (length xs)) :: u32) = Suc (length xs)"
      using n(2) by (simp add: unat_of_nat del: of_nat_Suc)
    ultimately show ?thesis by (simp only:)
  qed
  have uc: "(ucast (word_of_nat (length xs) :: u32) :: addr) = word_of_nat (length xs)"
    using ucast_of_nat_small [where ?'a = 32] n(1) by simp
  have fill: "pb_read_mem (length xs) dest st1 h = (True, adv (length xs) st1, store_bytes dest xs h)"
    by (rule pb_read_mem_stream [OF st1(2,3) refl])
  have st: "store_bytes (dest + word_of_nat (length xs)) [0] (store_bytes dest xs h) = store_bytes dest bs h"
    using store_bytes_append [of xs "[0]" dest h] n(2) xs(1) by simp
  show ?thesis
    unfolding pb_dec_string_def st1(1) prod.case option.case Let_def al st1(5) uc
    using xs a fill st by (simp add: atypes st1(4))
qed

lemma decode_value_fixed_length:
  assumes g: "length bs = width f" and wf: "wf_stream st" and c: "content st = string_bytes bs @ r"
  shows "pb_dec_fixed_length_bytes f dest st h = (True, adv (length (string_bytes bs)) st, store_bytes dest bs h)"
proof -
  have n: "length bs < 2 ^ 32" using width_bound [of f] g by simp
  obtain st1 where st1: "pb_decode_varint32 st = (Some (word_of_nat (length bs)), st1)" "wf_stream st1" "content st1 = bs @ r"
    "adv (length bs) st1 = adv (length (string_bytes bs)) st" "unat (word_of_nat (length bs) :: u32) = length bs"
    by (rule decode_length_stream [OF wf c n])
  have d: "(word_of_nat (length bs) :: u32) = data_size f" using g by simp
  have m: "\<not> data_size f > PB_SIZE_MAX" by simp
  show ?thesis
  proof (cases "data_size f = 0")
    case True
    then have "bs = []" using g by simp
    then show ?thesis
      unfolding pb_dec_fixed_length_bytes_def st1(1) prod.case option.case d if_not_P [OF m] if_P [OF True]
      using True st1(2,4) by (simp add: adv_0)
  next
    case False
    then show ?thesis
      unfolding pb_dec_fixed_length_bytes_def st1(1) prod.case option.case d if_not_P [OF m] if_not_P [OF False]
      using pb_read_mem_stream [OF st1(2,3) g [symmetric]] st1(4) by simp
  qed
qed

lemma decode_value:
  assumes f: "scalar_field f" and a: "PB_ATYPE (ftype f) = PB_ATYPE_STATIC" and g: "good_image f bs"
    and wf: "wf_stream st" and c: "content st = value_bytes f bs @ r"
  shows "pb_decoder env dec f dest st h = Some (True, adv (length (value_bytes f bs)) st, store_bytes dest bs h)"
  using f
proof (cases rule: scalar_cases)
  case BOOL
  let ?n = "if hd bs \<noteq> 0 then 1 else 0 :: nat"
  have v: "value_bytes f bs = varint_bytes ?n" using BOOL by (simp add: value_bytes_def ltypes)
  have "?n < 2 ^ 32" by simp
  from pb_decode_varint32_bytes [OF wf c [unfolded v] this]
  have "pb_decode_varint32 st = (Some (word_of_nat ?n), adv (length (varint_bytes ?n)) st)" .
  moreover have "bs = [0] \<or> bs = [1]" using g BOOL by (simp add: good_image_def ltypes)
  ultimately show ?thesis using BOOL by (auto simp: v pb_decoder_def pb_dec_bool_def)
next
  case VARINT
  have l: "length bs = width f" using g VARINT(1) by (simp add: good_image_def ltypes)
  have v: "value_bytes f bs = varint_bytes (unat (signed_of bs))" using VARINT(1) by (simp add: value_bytes_def ltypes)
  have "unat (signed_of bs) < 2 ^ 64" using unsigned_less [of "signed_of bs", where ?'a = nat] by simp
  from decode_varint_stream [OF wf c [unfolded v] this] VARINT show ?thesis
    by (simp add: v pb_decoder_def pb_dec_varint_def check_clamped_def Let_def signed_via_32 [OF VARINT(2) l]
        store_signed_image [OF VARINT(2) l] ltypes)
next
  case UVARINT
  have l: "length bs = width f" using g UVARINT(1) by (simp add: good_image_def ltypes)
  have v: "value_bytes f bs = varint_bytes (le_val bs)" using UVARINT(1) by (simp add: value_bytes_def ltypes)
  have "length bs \<le> 8" using l UVARINT(2) by auto
  from decode_varint_stream [OF wf c [unfolded v] le_val_bound_u64 [OF this]] UVARINT show ?thesis
    by (simp add: v pb_decoder_def pb_dec_uvarint_def check_clamped_def store_unsigned_image [OF UVARINT(2) l] ltypes)
next
  case SVARINT
  have l: "length bs = width f" using g SVARINT(1) by (simp add: good_image_def ltypes)
  have v: "value_bytes f bs = varint_bytes (zigzag (sint (signed_of bs)))" using SVARINT(1) by (simp add: value_bytes_def ltypes)
  from decode_svarint_stream [OF wf c [unfolded v]] SVARINT show ?thesis
    by (simp add: v pb_decoder_def pb_dec_svarint_def check_clamped_def store_signed_image [OF SVARINT(2) l] ltypes)
next
  case FIXED32
  have l: "length bs = 4" using g FIXED32 by (simp add: good_image_def ltypes)
  then have v: "value_bytes f bs = fixed32_bytes (word_of_nat (le_val bs))"
    using FIXED32(1) by (simp add: value_bytes_def fixed32_le unat_le_val le_bytes_val_n ltypes)
  from pb_decode_fixed32_buf [OF wf c [unfolded v]] FIXED32(1) show ?thesis
    by (simp add: v pb_decoder_def pb_dec_fixed32_def store_image(3) [OF l] ltypes)
next
  case FIXED64
  have l: "length bs = 8" using g FIXED64 by (simp add: good_image_def ltypes)
  then have v: "value_bytes f bs = fixed64_bytes (word_of_nat (le_val bs))"
    using FIXED64(1) by (simp add: value_bytes_def fixed64_le unat_le_val le_bytes_val_n ltypes)
  from pb_decode_fixed64_buf [OF wf c [unfolded v]] FIXED64(1) show ?thesis
    by (simp add: v pb_decoder_def pb_dec_fixed64_def store_image(4) [OF l] ltypes)
next
  case BYTES
  have v: "value_bytes f bs = string_bytes (drop 4 bs)" using BYTES by (simp add: value_bytes_def ltypes)
  from decode_value_bytes [OF BYTES a g wf c [unfolded v]] BYTES show ?thesis
    by (simp add: v pb_decoder_def ltypes)
next
  case STRING
  have v: "value_bytes f bs = string_bytes (butlast bs)" using STRING by (simp add: value_bytes_def ltypes)
  from decode_value_string [OF STRING a g wf c [unfolded v]] STRING show ?thesis
    by (simp add: v pb_decoder_def ltypes)
next
  case FIXED_LENGTH
  have v: "value_bytes f bs = string_bytes bs" using FIXED_LENGTH by (simp add: value_bytes_def ltypes)
  have l: "length bs = width f" using g FIXED_LENGTH by (simp add: good_image_def ltypes)
  from decode_value_fixed_length [OF l wf c [unfolded v]] FIXED_LENGTH show ?thesis
    by (simp add: v pb_decoder_def ltypes)
qed

text \<open>The image is all that the value depends on.\<close>

lemma good_image_length: "scalar_field f \<Longrightarrow> good_image f bs \<Longrightarrow> length bs \<le> width f"
  by (erule scalar_cases) (auto simp: good_image_def ltypes)

lemma nth_load_bytes: "i < n \<Longrightarrow> load_bytes h p n ! i = mem h (p + word_of_nat i)"
  by (simp add: load_bytes_def)

lemma value_image_load:
  assumes f: "scalar_field f" and g: "good_image f bs" and l: "load_bytes h p (length bs) = bs"
  shows "value_image f h p = bs"
  using f
proof (cases rule: scalar_cases)
  case BOOL
  then have "length bs = width f" using g by (auto simp: good_image_def ltypes)
  with l BOOL show ?thesis by (simp add: value_image_def ltypes)
next
  case BYTES
  have b: "4 \<le> length bs" "le_val (take 4 bs) + 4 = length bs" using g BYTES by (simp_all add: good_image_def ltypes)
  have "load_bytes h p 4 = take 4 bs" using take_load_bytes [OF b(1), of h p] l by simp
  then have "4 + unat (load_u32 h p) = length bs" using b(2) by (simp add: unat_load_u32)
  with l BYTES show ?thesis by (simp add: value_image_def ltypes)
next
  case STRING
  obtain xs where xs: "bs = xs @ [0]" "0 \<notin> set xs" "length xs < width f" by (rule good_image_string [OF STRING g])
  have m: "mem h (p + word_of_nat i) = bs ! i" if "i < length bs" for i
    using nth_load_bytes [OF that, of h p] l by simp
  have "string_size h p (width f) 0 = 0 + length xs"
  proof (rule string_size_stop)
    show "mem h (p + word_of_nat i) \<noteq> 0" if "i < length xs" for i
      using m [of i] that xs by (metis nth_append nth_mem length_append_singleton less_Suc_eq)
    show "mem h (p + word_of_nat (length xs)) = 0" using m [of "length xs"] xs(1) by simp
  qed (use xs(3) in simp)
  then show ?thesis using l STRING xs(1) by (simp add: value_image_def ltypes)
qed (use g l in \<open>simp_all add: good_image_def value_image_def ltypes\<close>)

lemma value_image_self: "scalar_field f \<Longrightarrow> good_image f (value_image f h p) \<Longrightarrow>
    load_bytes h p (length (value_image f h p)) = value_image f h p"
  by (auto simp: value_image_def Let_def)

lemma value_image_cong:
  assumes "scalar_field f" "good_image f (value_image f h p)" "\<And>x. x \<in> region p (width f) \<Longrightarrow> mem h' x = mem h x"
  shows "value_image f h' p = value_image f h p"
proof (rule value_image_load [OF assms(1,2)])
  have "load_bytes h' p (length (value_image f h p)) = load_bytes h p (length (value_image f h p))"
    using assms(3) region_mono [OF good_image_length [OF assms(1,2)], of p] by (intro load_bytes_cong) blast
  then show "load_bytes h' p (length (value_image f h p)) = value_image f h p"
    using value_image_self [OF assms(1,2)] by simp
qed

lemma decodes_value:
  assumes f: "scalar_field f" and a: "PB_ATYPE (ftype f) = PB_ATYPE_STATIC" and g: "good_image f bs"
  shows "decodes (pb_decoder env dec f dest) (value_bytes f bs) (\<lambda>h. True) (\<lambda>h. value_image f h dest = bs) (region dest (width f))"
proof (rule decodesI, intro exI conjI)
  fix st :: "'a pb_istream" and h r assume "wf_stream st" "content st = value_bytes f bs @ r"
  then show "pb_decoder env dec f dest st h = Some (True, adv (length (value_bytes f bs)) st, store_bytes dest bs h)"
    by (rule decode_value [OF f a g])
  have l: "length bs \<le> width f" by (rule good_image_length [OF f g])
  then have "length bs \<le> size_lim" using width_bound [of f] by simp
  then show "value_image f (store_bytes dest bs h) dest = bs"
    by (intro value_image_load [OF f g] load_store_same) simp_all
  show "same_outside (region dest (width f)) h (store_bytes dest bs h)"
    by (intro same_outside_store region_mono l)
qed

end
