(* ===== verification/Pb_Message.thy ===== *)
theory Pb_Message
  imports Pb_Value
begin

text \<open>
  nanopb: what a message in memory means, as a tree of values, and its encoding as a function of the
  tree, for messages of static fields: required and optional fields, arrays with a count, and
  submessages of the same kind down to a depth \<open>d\<close>.
\<close>

unbundle bit_operations_syntax

subsection \<open>Message trees\<close>

datatype pb_value = Raw bytes | Message "pb_value list list"

text \<open>Where the fields of a message are, relative to its structure.\<close>

definition doff :: "pb_field list \<Rightarrow> nat \<Rightarrow> addr" where "doff flds k = pData (iter_at flds 0 k)"
definition poff :: "pb_field list \<Rightarrow> nat \<Rightarrow> addr" where "poff flds k = pSize (iter_at flds 0 k)"

abbreviation is_sub :: "pb_field \<Rightarrow> bool" where "is_sub f \<equiv> PB_LTYPE (ftype f) = PB_LTYPE_SUBMESSAGE"
abbreviation is_required :: "pb_field \<Rightarrow> bool" where "is_required f \<equiv> PB_HTYPE (ftype f) = PB_HTYPE_REQUIRED"
abbreviation is_optional :: "pb_field \<Rightarrow> bool" where "is_optional f \<equiv> PB_HTYPE (ftype f) = PB_HTYPE_OPTIONAL"
abbreviation is_repeated :: "pb_field \<Rightarrow> bool" where "is_repeated f \<equiv> PB_HTYPE (ftype f) = PB_HTYPE_REPEATED"
abbreviation packable :: "pb_field \<Rightarrow> bool" where "packable f \<equiv> PB_LTYPE (ftype f) \<le> PB_LTYPE_LAST_PACKABLE"

definition nth_item :: "pb_field \<Rightarrow> addr \<Rightarrow> nat \<Rightarrow> addr" where
  "nth_item f q i = q + word_of_nat (i * width f)"

text \<open>\<open>sub\<close> gives the tree of the submessage of a field at an address.\<close>

definition item_value :: "(pb_field \<Rightarrow> addr \<Rightarrow> pb_value) \<Rightarrow> pb_field \<Rightarrow> heap \<Rightarrow> addr \<Rightarrow> pb_value" where
  "item_value sub f h q = (if is_sub f then sub f q else Raw (value_image f h q))"

definition field_values :: "(pb_field \<Rightarrow> addr \<Rightarrow> pb_value) \<Rightarrow> pb_field \<Rightarrow> heap \<Rightarrow> addr \<Rightarrow> addr \<Rightarrow> pb_value list" where
  "field_values sub f h q s =
     (if is_required f then [item_value sub f h q]
      else if is_optional f then if safe_read_bool h s then [item_value sub f h q] else []
      else map (\<lambda>i. item_value sub f h (nth_item f q i)) [0..<unat (load_u32 h s)])"

primrec message_at :: "nat \<Rightarrow> 's pb_env \<Rightarrow> pb_field list \<Rightarrow> heap \<Rightarrow> addr \<Rightarrow> pb_value" where
  "message_at 0 env flds h p = Message []"
| "message_at (Suc d) env flds h p =
     Message (map (\<lambda>k. field_values (\<lambda>f. message_at d env (desc env (fptr f)) h) (flds ! k) h (p + doff flds k) (p + poff flds k))
       [0..<nfields flds])"

subsection \<open>The encoding of a tree\<close>

definition field_wt :: "pb_field \<Rightarrow> u32" where
  "field_wt f =
     (let t = PB_LTYPE (ftype f) in
      if t = PB_LTYPE_FIXED32 then PB_WT_32BIT
      else if t = PB_LTYPE_FIXED64 then PB_WT_64BIT
      else if t \<le> PB_LTYPE_LAST_PACKABLE then PB_WT_VARINT
      else PB_WT_STRING)"

definition item_bytes :: "(pb_field \<Rightarrow> pb_value \<Rightarrow> bytes) \<Rightarrow> pb_field \<Rightarrow> pb_value \<Rightarrow> bytes" where
  "item_bytes sub f v = (case v of Raw bs \<Rightarrow> value_bytes f bs | Message vss \<Rightarrow> string_bytes (sub f v))"

text \<open>The records of a field, a wire type and what follows the tag: one for each value, or one for all.\<close>

definition field_records :: "(pb_field \<Rightarrow> pb_value \<Rightarrow> bytes) \<Rightarrow> pb_field \<Rightarrow> pb_value list \<Rightarrow> (u32 \<times> bytes) list" where
  "field_records sub f vs =
     (if is_repeated f \<and> packable f
      then if vs = [] then [] else [(PB_WT_STRING, string_bytes (concat (map (item_bytes sub f) vs)))]
      else map (\<lambda>v. (field_wt f, item_bytes sub f v)) vs)"

definition record_bytes :: "pb_field \<Rightarrow> u32 \<times> bytes \<Rightarrow> bytes" where
  "record_bytes f r = tag_bytes (fst r) (ftag f) @ snd r"

definition field_bytes :: "(pb_field \<Rightarrow> pb_value \<Rightarrow> bytes) \<Rightarrow> pb_field \<Rightarrow> pb_value list \<Rightarrow> bytes" where
  "field_bytes sub f vs = concat (map (record_bytes f) (field_records sub f vs))"

primrec message_bytes :: "nat \<Rightarrow> 's pb_env \<Rightarrow> pb_field list \<Rightarrow> pb_value \<Rightarrow> bytes" where
  "message_bytes 0 env flds v = []"
| "message_bytes (Suc d) env flds v =
     (case v of
        Raw bs \<Rightarrow> []
      | Message vss \<Rightarrow>
          concat (map (\<lambda>k. field_bytes (\<lambda>f. message_bytes d env (desc env (fptr f))) (flds ! k) (vss ! k)) [0..<nfields flds]))"

subsection \<open>Trees that have an encoding\<close>

definition good_item ::
  "(pb_field \<Rightarrow> pb_value \<Rightarrow> bool) \<Rightarrow> (pb_field \<Rightarrow> pb_value \<Rightarrow> bytes) \<Rightarrow> pb_field \<Rightarrow> pb_value \<Rightarrow> bool" where
  "good_item good sub f v =
     (case v of
        Raw bs \<Rightarrow> \<not> is_sub f \<and> good_image f bs
      | Message vss \<Rightarrow> is_sub f \<and> good f v \<and> length (sub f v) < 2 ^ 32)"

text \<open>Text must end within its array, truth values must be 0 or 1, lengths and counts must fit.\<close>

definition good_values ::
  "(pb_field \<Rightarrow> pb_value \<Rightarrow> bool) \<Rightarrow> (pb_field \<Rightarrow> pb_value \<Rightarrow> bytes) \<Rightarrow> pb_field \<Rightarrow> pb_value list \<Rightarrow> bool" where
  "good_values good sub f vs \<longleftrightarrow>
     list_all (good_item good sub f) vs \<and>
     (is_required f \<and> length vs = 1 \<or> is_optional f \<and> length vs \<le> 1 \<or>
      is_repeated f \<and> length vs \<le> unat (array_size f) \<and> length (concat (map (item_bytes sub f) vs)) < 2 ^ 32)"

primrec good_message :: "nat \<Rightarrow> 's pb_env \<Rightarrow> pb_field list \<Rightarrow> pb_value \<Rightarrow> bool" where
  "good_message 0 env flds v = False"
| "good_message (Suc d) env flds v =
     (case v of
        Raw bs \<Rightarrow> False
      | Message vss \<Rightarrow>
          length vss = nfields flds \<and>
          list_all (\<lambda>k. good_values (\<lambda>f. good_message d env (desc env (fptr f)))
             (\<lambda>f. message_bytes d env (desc env (fptr f))) (flds ! k) (vss ! k)) [0..<nfields flds])"

subsection \<open>Descriptors\<close>

text \<open>The memory of field \<open>k\<close>: its data, and its flag or count.\<close>

definition data_extent :: "pb_field \<Rightarrow> nat" where
  "data_extent f = (if is_repeated f then unat (array_size f) * width f else width f)"

definition flag_extent :: "pb_field \<Rightarrow> nat" where
  "flag_extent f = (if is_required f then 0 else if is_optional f then 1 else 4)"

definition field_foot :: "pb_field list \<Rightarrow> addr \<Rightarrow> nat \<Rightarrow> addr set" where
  "field_foot flds p k =
     region (p + doff flds k) (data_extent (flds ! k)) \<union> region (p + poff flds k) (flag_extent (flds ! k))"

definition static_field :: "(pb_field \<Rightarrow> bool) \<Rightarrow> pb_field \<Rightarrow> bool" where
  "static_field sub f \<longleftrightarrow>
     0 < unat (ftag f) \<and> unat (ftag f) < 2 ^ 29 \<and> PB_ATYPE (ftype f) = PB_ATYPE_STATIC \<and>
     (is_required f \<or> (is_optional f \<or> is_repeated f) \<and> size_offset f \<noteq> 0) \<and>
     (scalar_field f \<or> is_sub f \<and> fptr f \<noteq> 0 \<and> sub f) \<and>
     0 < width f \<and> unat (array_size f) * width f < 2 ^ 32"

text \<open>A descriptor of static fields for structures of \<open>sz\<close> bytes, in which no two fields share memory.\<close>

primrec static_message :: "nat \<Rightarrow> 's pb_env \<Rightarrow> pb_field list \<Rightarrow> nat \<Rightarrow> bool" where
  "static_message 0 env flds sz = False"
| "static_message (Suc d) env flds sz \<longleftrightarrow>
     wf_fields flds \<and> distinct (map ftag flds) \<and>
     (\<forall>k<nfields flds. static_field (\<lambda>f. static_message d env (desc env (fptr f)) (width f)) (flds ! k)) \<and>
     (\<forall>k<nfields flds. field_foot flds 0 k \<subseteq> region 0 sz \<and>
        region (doff flds k) (data_extent (flds ! k)) \<inter> region (poff flds k) (flag_extent (flds ! k)) = {} \<and>
        (\<forall>j<k. field_foot flds 0 k \<inter> field_foot flds 0 j = {}))"

subsection \<open>Addresses\<close>

lemma iter_at_shift:
  "pData (iter_at flds dst k) = dst + doff flds k \<and> pSize (iter_at flds dst k) = dst + poff flds k \<and>
    pos (iter_at flds dst k) = pos (iter_at flds 0 k) \<and>
    required_field_index (iter_at flds dst k) = required_field_index (iter_at flds 0 k)"
proof (induction k)
  case 0
  show ?case by (simp add: iter_at.simps doff_def poff_def pb_field_iter_begin_def Let_def)
next
  case (Suc k)
  then show ?case
    by (simp add: iter_at.simps doff_def poff_def pb_field_iter_next_def cur_def pb_field_iter_begin_def Let_def)
qed

lemma region_shift: "region (p + a) n = (+) p ` region a n"
  by (auto simp: region_def image_image add.assoc)

lemma field_foot_shift: "field_foot flds p k = (+) p ` field_foot flds 0 k"
  unfolding field_foot_def region_shift [of p] by (simp add: image_Un)

lemma shift_disjoint: "A \<inter> B = {} \<Longrightarrow> (+) (p :: addr) ` A \<inter> (+) p ` B = {}"
  by auto

lemma pSize_pData:
  assumes wf: "wf_fields flds" and k: "k < nfields flds"
    and no: "\<And>i. i < nfields flds \<Longrightarrow> PB_HTYPE (ftype (flds ! i)) \<noteq> PB_HTYPE_ONEOF"
  shows "poff flds k = doff flds k + scast (size_offset (flds ! k))"
proof (cases k)
  case 0
  then show ?thesis by (simp add: poff_def doff_def iter_at.simps pb_field_iter_begin_def Let_def)
next
  case (Suc j)
  then have j: "j < nfields flds" "Suc j < nfields flds" using k by auto
  have p: "pos (iter_at flds 0 j) = j" using wf j by (simp add: iter_at_pos)
  have "ftag (flds ! j) \<noteq> 0" "ftag (flds ! Suc j) \<noteq> 0"
    using wf_fields_tag [OF wf, of j] wf_fields_tag [OF wf, of "Suc j"] j by auto
  then show ?thesis using no [OF j(1)]
    by (simp add: Suc poff_def doff_def iter_at.simps pb_field_iter_next_def Let_def cur_def p)
qed

lemma static_messageD:
  assumes "static_message (Suc d) env flds sz"
  shows "wf_fields flds" "distinct (map ftag flds)"
    "\<And>k. k < nfields flds \<Longrightarrow> static_field (\<lambda>f. static_message d env (desc env (fptr f)) (width f)) (flds ! k)"
    "\<And>k. k < nfields flds \<Longrightarrow> field_foot flds 0 k \<subseteq> region 0 sz"
    "\<And>k. k < nfields flds \<Longrightarrow> PB_HTYPE (ftype (flds ! k)) \<noteq> PB_HTYPE_ONEOF"
  using assms by (simp_all add: static_field_def) (auto simp: htypes)

lemma field_foot_region:
  assumes "static_message (Suc d) env flds sz" "k < nfields flds"
  shows "field_foot flds p k \<subseteq> region p sz"
proof -
  have "(+) p ` field_foot flds 0 k \<subseteq> (+) p ` region 0 sz" using static_messageD(4) [OF assms] by (rule image_mono)
  then show ?thesis using region_shift [of p 0 sz] by (simp add: field_foot_shift [of flds p])
qed

end
