(* ===== verification/Pb_Write.thy ===== *)
theory Pb_Write
  imports Pb_Message
begin

text \<open>
  nanopb: \<open>pb_encode\<close> writes the encoding of the tree that memory holds, or fails for want of room.
\<close>

unbundle bit_operations_syntax

subsection \<open>Submessages and arrays\<close>

lemma plain_sizing [simp]: "plain_stream PB_OSTREAM_SIZING" "is_sizing PB_OSTREAM_SIZING" "bytes_written PB_OSTREAM_SIZING = 0"
  "errmsg PB_OSTREAM_SIZING = None"
  by (simp_all add: PB_OSTREAM_SIZING_def plain_stream_def is_sizing_def)

lemma writes_sizing: "writes w xs \<Longrightarrow> length xs < size_lim \<Longrightarrow> w PB_OSTREAM_SIZING = Some (True, put xs PB_OSTREAM_SIZING)"
  by (intro writesD) (simp_all add: has_room_def)

lemma pb_write_sizing:
  assumes "is_sizing st" "has_room (length xs) st"
  shows "pb_write [] (length xs) st = (True, put xs st)"
proof -
  have "sink st = Sizing" using assms(1) by (simp add: is_sizing_def split: pb_sink.splits)
  with assms show ?thesis by (simp add: pb_write_def has_room_def put_def)
qed

lemma writes_limited:
  assumes w: "writes enc xs" and l: "length xs < size_lim"
  shows "writes (encode_limited (length xs) enc) xs"
  unfolding writes_def
proof (intro allI impI conjI)
  fix st :: "'a pb_ostream"
  assume p: "plain_stream st" and e: "errmsg st = None"
  show "encode_limited (length xs) enc st = Some (True, put xs st)" if r: "has_room (length xs) st"
  proof (cases "is_sizing st")
    case True
    with r show ?thesis by (simp add: encode_limited_def pb_write_sizing)
  next
    case False
    then obtain ys where s: "sink st = Buffer ys" using p by (auto simp: is_sizing_def plain_stream_def split: pb_sink.splits)
    have b: "bytes_written st + length xs \<le> max_size st" "max_size st < size_lim"
      using r False p by (simp_all add: has_room_def plain_stream_def)
    define sub where "sub = \<lparr>errmsg = None, sink = sink st, max_size = length xs, bytes_written = 0\<rparr>"
    have "plain_stream sub" "errmsg sub = None" "has_room (length xs) sub"
      using l by (simp_all add: sub_def s plain_stream_def is_sizing_def has_room_def)
    from writesD [OF w this] have "enc sub = Some (True, put xs sub)" .
    then have "encode_limited (length xs) enc st =
        Some (True, st\<lparr>bytes_written := bytes_written st + length xs, sink := sink (put xs sub), errmsg := None\<rparr>)"
      using False b by (simp add: encode_limited_def sub_def [symmetric] Let_def) (simp add: sub_def)
    also have "st\<lparr>bytes_written := bytes_written st + length xs, sink := sink (put xs sub), errmsg := None\<rparr> = put xs st"
      using e by (cases st) (simp add: put_def sub_def s [unfolded pb_ostream.select_convs])
    finally show ?thesis .
  qed
  show "\<exists>st'. encode_limited (length xs) enc st = Some (False, st') \<and> errmsg st' \<noteq> None"
    if "\<not> has_room (length xs) st" "\<not> is_sizing st" "bytes_written st + length xs < size_lim"
    using that e by (simp add: encode_limited_def has_room_def pb_enc_fail_def PB_SET_ERROR_def)
qed

lemma writes_varint_length: "n < size_lim \<Longrightarrow> writes (\<lambda>st. Some (pb_encode_varint (word_of_nat n) st)) (varint_bytes n)"
  using writes_emits [OF emits_varint [of "word_of_nat n"]] by (simp add: unat_of_nat)

lemma writes_submessage:
  assumes w: "writes enc xs" and l: "length xs < size_lim"
  shows "writes (encode_submessage enc) (string_bytes xs)"
proof -
  have "encode_submessage enc = (\<lambda>st. enc_then (Some (pb_encode_varint (word_of_nat (length xs)) st)) (encode_limited (length xs) enc))"
    by (simp add: fun_eq_iff encode_submessage_def writes_sizing [OF w l] Let_def)
  then show ?thesis
    using writes_seq [OF writes_varint_length [OF l] writes_limited [OF w l]] by (simp add: string_bytes_def)
qed

lemma writes_items:
  assumes "\<And>i. i < n \<Longrightarrow> writes (item (p + word_of_nat (i * unat ds))) (bs i)"
  shows "writes (items_loop n item ds p) (concat (map bs [0..<n]))"
  using assms
proof (induction n arbitrary: p bs)
  case 0
  have "(items_loop 0 item ds p :: 'a pb_enc) = (\<lambda>st. Some (True, st))" by (simp add: fun_eq_iff)
  then show ?case using writes_skip by simp
next
  case (Suc n)
  have "(items_loop (Suc n) item ds p :: 'a pb_enc) = (\<lambda>st. enc_then (item p st) (items_loop n item ds (p + ucast ds)))"
    by (simp add: fun_eq_iff)
  moreover have "writes (items_loop n item ds (p + ucast ds)) (concat (map (\<lambda>i. bs (Suc i)) [0..<n]))"
  proof (rule Suc.IH)
    fix i assume "i < n"
    then have "writes (item (p + word_of_nat (Suc i * unat ds))) (bs (Suc i))" by (intro Suc.prems) simp
    moreover have "p + word_of_nat (Suc i * unat ds) = p + ucast ds + word_of_nat (i * unat ds)"
      by (simp add: algebra_simps)
    ultimately show "writes (item (p + ucast ds + word_of_nat (i * unat ds))) (bs (Suc i))" by (simp only:)
  qed
  moreover have "writes (item p) (bs 0)" using Suc.prems [of 0] by simp
  moreover have "map bs [0..<Suc n] = bs 0 # map (\<lambda>i. bs (Suc i)) [0..<n]"
    by (simp only: upt_conv_Cons [OF zero_less_Suc]) (simp add: map_Suc_upt [symmetric] del: upt_Suc)
  ultimately show ?case using writes_seq by simp
qed

subsection \<open>One field\<close>

lemma scalar_types:
  assumes "scalar_field f"
  shows "PB_LTYPE (ftype f) \<in> {PB_LTYPE_BOOL, PB_LTYPE_VARINT, PB_LTYPE_UVARINT, PB_LTYPE_SVARINT, PB_LTYPE_FIXED32, PB_LTYPE_FIXED64,
      PB_LTYPE_BYTES, PB_LTYPE_STRING, PB_LTYPE_FIXED_LENGTH_BYTES}"
  using assms by (cases rule: scalar_cases) simp_all

lemma scalar_not_sub: "scalar_field f \<Longrightarrow> \<not> is_sub f"
  using scalar_types [of f] by (auto simp: ltypes)

lemma writes_tag_for_field:
  assumes "scalar_field f \<or> is_sub f"
  shows "writes (\<lambda>st. Some (pb_encode_tag_for_field f st)) (tag_bytes (field_wt f) (ftag f))"
proof -
  have "(pb_encode_tag_for_field f :: 'a pb_ostream \<Rightarrow> _) = pb_encode_tag (field_wt f) (ftag f)"
    using assms scalar_types [of f] by (auto simp: fun_eq_iff pb_encode_tag_for_field_def field_wt_def ltypes)
  moreover have "unat (field_wt f) < 8" by (simp add: field_wt_def Let_def wire_types)
  ultimately show ?thesis using writes_emits [OF emits_tag] by simp
qed

text \<open>
  What the encoder of submessages has to satisfy: \<open>enc\<close> writes the tree \<open>sub\<close> sees at an address, if
  it is good.
\<close>

definition sub_writes ::
  "(addr \<Rightarrow> addr \<Rightarrow> 's pb_enc) \<Rightarrow> (pb_field \<Rightarrow> addr \<Rightarrow> pb_value) \<Rightarrow> (pb_field \<Rightarrow> pb_value \<Rightarrow> bool) \<Rightarrow>
     (pb_field \<Rightarrow> pb_value \<Rightarrow> bytes) \<Rightarrow> pb_field \<Rightarrow> addr set \<Rightarrow> bool" where
  "sub_writes enc sub good bytes f D \<longleftrightarrow>
     (\<forall>q. region q (width f) \<subseteq> D \<longrightarrow> good f (sub f q) \<longrightarrow> writes (enc (fptr f) q) (bytes f (sub f q)))"

lemma writes_item:
  assumes f: "scalar_field f \<or> is_sub f \<and> fptr f \<noteq> 0" and a: "PB_ATYPE (ftype f) = PB_ATYPE_STATIC" and q: "q \<noteq> 0"
    and s: "is_sub f \<Longrightarrow> sub_writes enc sub good bytes f D" and D: "region q (width f) \<subseteq> D"
    and g: "good_item good bytes f (item_value sub f h q)"
  shows "writes (pb_encoder enc f h q) (item_bytes bytes f (item_value sub f h q))"
proof (cases "is_sub f")
  case True
  then obtain vss where v: "item_value sub f h q = Message vss" "sub f q = Message vss"
    using g by (auto simp: good_item_def item_value_def split: pb_value.splits)
  have "writes (enc (fptr f) q) (bytes f (sub f q))" "length (bytes f (sub f q)) < size_lim"
    using s [OF True, unfolded sub_writes_def, rule_format, OF D] g v by (simp_all add: good_item_def)
  moreover have "(pb_encoder enc f h q :: 'a pb_enc) = encode_submessage (enc (fptr f) q)"
    using True f scalar_not_sub [of f] by (auto simp: fun_eq_iff pb_encoder_def pb_enc_submessage_def ltypes)
  ultimately show ?thesis using v by (simp add: item_bytes_def writes_submessage)
next
  case False
  then have v: "item_value sub f h q = Raw (value_image f h q)" by (simp add: item_value_def)
  with False f g have "scalar_field f" "good_image f (value_image f h q)" by (simp_all add: good_item_def)
  from writes_value [OF this(1) a q this(2)] show ?thesis by (simp add: v item_bytes_def)
qed

lemma nth_item_ucast: "nth_item f q i = q + word_of_nat (i * unat (data_size f))"
  by (simp add: nth_item_def)

lemma length_concat_const: "(\<And>x. x \<in> set xs \<Longrightarrow> length (g x) = n) \<Longrightarrow> length (concat (map g xs)) = n * length xs"
  by (induction xs) auto

lemma packed_size_writes:
  assumes w: "writes all xs" and l: "length xs < size_lim"
    and 4: "PB_LTYPE (ftype f) = PB_LTYPE_FIXED32 \<Longrightarrow> length xs = 4 * n"
    and 8: "PB_LTYPE (ftype f) = PB_LTYPE_FIXED64 \<Longrightarrow> length xs = 8 * n"
  shows "packed_size f n all = Some (Some (length xs))"
  using 4 8 by (simp add: packed_size_def writes_sizing [OF w l])

lemma writes_packed:
  assumes w: "writes all xs" and l: "length xs < size_lim" and ps: "packed_size f n all = Some (Some (length xs))"
  shows "writes (encode_packed f n all) (tag_bytes PB_WT_STRING (ftag f) @ string_bytes xs)"
proof -
  have body: "writes (\<lambda>st. if is_sizing st then Some (pb_write [] (length xs) st) else all st) xs"
    using w unfolding writes_def by (auto simp: pb_write_sizing)
  have "encode_packed f n all = (\<lambda>st. enc_then (Some (pb_encode_tag PB_WT_STRING (ftag f) st))
      (\<lambda>st. enc_then (Some (pb_encode_varint (word_of_nat (length xs)) st))
        (\<lambda>st. if is_sizing st then Some (pb_write [] (length xs) st) else all st)))"
    by (simp add: fun_eq_iff encode_packed_def ps)
  moreover have "writes (\<lambda>st :: 'a pb_ostream. Some (pb_encode_tag PB_WT_STRING (ftag f) st)) (tag_bytes PB_WT_STRING (ftag f))"
    by (intro writes_emits emits_tag) (simp add: wire_types)
  ultimately show ?thesis
    using writes_seq [OF _ writes_seq [OF writes_varint_length [OF l] body]] by (simp add: string_bytes_def)
qed

text \<open>The items of an array, and their trees.\<close>

abbreviation array_values :: "(pb_field \<Rightarrow> addr \<Rightarrow> pb_value) \<Rightarrow> pb_field \<Rightarrow> heap \<Rightarrow> addr \<Rightarrow> nat \<Rightarrow> pb_value list" where
  "array_values sub f h q n \<equiv> map (\<lambda>i. item_value sub f h (nth_item f q i)) [0..<n]"

lemma fixed_item_length:
  assumes f: "scalar_field f" and g: "good_item good bytes f v" and t: "PB_LTYPE (ftype f) = t" "t = PB_LTYPE_FIXED32 \<and> n = 4 \<or> t = PB_LTYPE_FIXED64 \<and> n = 8"
  shows "length (item_bytes bytes f v) = n"
  using f t g
  by (cases rule: scalar_cases) (auto simp: good_item_def item_bytes_def value_bytes_def good_image_def ltypes split: pb_value.splits)

lemma writes_array:
  assumes f: "scalar_field f \<or> is_sub f \<and> fptr f \<noteq> 0" and a: "PB_ATYPE (ftype f) = PB_ATYPE_STATIC" and r: "is_repeated f"
    and q: "\<And>i. i < unat count \<Longrightarrow> nth_item f q i \<noteq> 0"
    and s: "is_sub f \<Longrightarrow> sub_writes enc sub good bytes f D"
    and D: "\<And>i. i < unat count \<Longrightarrow> region (nth_item f q i) (width f) \<subseteq> D"
    and g: "good_values good bytes f (array_values sub f h q (unat count))"
  shows "writes (encode_array f h q count (pb_encoder enc f h)) (field_bytes bytes f (array_values sub f h q (unat count)))"
proof -
  let ?vs = "array_values sub f h q (unat count)" and ?b = "\<lambda>i. item_bytes bytes f (item_value sub f h (nth_item f q i))"
  have gi: "good_item good bytes f v" if "v \<in> set ?vs" for v using g that unfolding good_values_def list_all_iff by blast
  have total: "length (concat (map ?b [0..<unat count])) < 2 ^ 32" and n: "unat count \<le> unat (array_size f)"
    using g r by (auto simp: good_values_def htypes comp_def)
  have items: "writes (pb_encoder enc f h (nth_item f q i)) (?b i)" if "i < unat count" for i
    by (rule writes_item [OF f a q [OF that] s D [OF that] gi]) (use that in auto)
  show ?thesis
  proof (cases "count = 0")
    case True
    then have "(encode_array f h q count (pb_encoder enc f h) :: 'a pb_enc) = (\<lambda>st. Some (True, st))"
      by (simp add: fun_eq_iff encode_array_def)
    moreover have "field_bytes bytes f ?vs = []" using True by (simp add: field_bytes_def field_records_def)
    ultimately show ?thesis using writes_skip by simp
  next
    case c: False
    then have c0: "unat count \<noteq> 0" by (simp add: unat_eq_0)
    have guards: "PB_ATYPE (ftype f) \<noteq> PB_ATYPE_POINTER" "\<not> count > array_size f"
      using a n by (simp_all add: atypes word_le_nat_alt not_less)
    show ?thesis
    proof (cases "packable f")
      case True
      then have sf: "scalar_field f" using f by (auto simp: ltypes)
      let ?all = "items_loop (unat count) (pb_encoder enc f h) (data_size f) q :: 'a pb_enc"
      let ?xs = "concat (map ?b [0..<unat count])"
      have all: "writes ?all ?xs" by (rule writes_items) (use items in \<open>simp add: nth_item_ucast\<close>)
      have e: "(encode_array f h q count (pb_encoder enc f h) :: 'a pb_enc) = encode_packed f (unat count) ?all"
        unfolding fun_eq_iff encode_array_def Let_def if_not_P [OF c] using guards True by simp
      have fl: "length ?xs = m * unat count" if "PB_LTYPE (ftype f) = t" "t = PB_LTYPE_FIXED32 \<and> m = 4 \<or> t = PB_LTYPE_FIXED64 \<and> m = 8" for m t
      proof -
        have "length ?xs = m * length [0..<unat count]"
          by (rule length_concat_const) (rule fixed_item_length [OF sf gi that], simp)
        then show ?thesis by simp
      qed
      have l: "length ?xs < size_lim" using total by simp
      have ps: "packed_size f (unat count) ?all = Some (Some (length ?xs))"
        by (rule packed_size_writes [OF all l]) (use fl in auto)
      have "field_bytes bytes f ?vs = tag_bytes PB_WT_STRING (ftag f) @ string_bytes ?xs"
        using True r c0 by (simp add: field_bytes_def field_records_def record_bytes_def comp_def)
      then show ?thesis unfolding e using writes_packed [OF all l ps] by simp
    next
      case False
      let ?item = "\<lambda>p st. enc_then (Some (pb_encode_tag_for_field f st)) (pb_encoder enc f h p) :: (bool \<times> 'a pb_ostream) option"
      have e: "(encode_array f h q count (pb_encoder enc f h) :: 'a pb_enc) = items_loop (unat count) ?item (data_size f) q"
        unfolding fun_eq_iff encode_array_def Let_def if_not_P [OF c] using guards False by simp
      have b: "field_bytes bytes f ?vs = concat (map (\<lambda>i. tag_bytes (field_wt f) (ftag f) @ ?b i) [0..<unat count])"
        using False by (simp add: field_bytes_def field_records_def record_bytes_def comp_def)
      show ?thesis unfolding e b
      proof (rule writes_items)
        fix i assume i: "i < unat count"
        have "scalar_field f \<or> is_sub f" using f by blast
        from writes_seq [OF writes_tag_for_field [OF this] items [OF i]]
        show "writes (?item (q + word_of_nat (i * unat (data_size f)))) (tag_bytes (field_wt f) (ftag f) @ ?b i)"
          by (simp add: nth_item_ucast)
      qed
    qed
  qed
qed

lemma writes_field:
  assumes f: "static_field sf f" and s: "is_sub f \<Longrightarrow> sub_writes enc sub good bytes f D"
    and ps: "s = q + scast (size_offset f)" and D: "region q (data_extent f) \<subseteq> D" and z: "0 \<notin> D"
    and g: "good_values good bytes f (field_values sub f h q s)"
  shows "writes (encode_field n env enc h f q) (field_bytes bytes f (field_values sub f h q s))"
proof -
  let ?vs = "field_values sub f h q s" and ?v = "item_value sub f h q"
  have a: "PB_ATYPE (ftype f) = PB_ATYPE_STATIC" and fs: "scalar_field f \<or> is_sub f \<and> fptr f \<noteq> 0"
    and fs': "scalar_field f \<or> is_sub f" and ht: "is_required f \<or> (is_optional f \<or> is_repeated f) \<and> size_offset f \<noteq> 0"
    using f by (auto simp: static_field_def)
  have w: "0 < width f" using f by (simp add: static_field_def)
  have in_region: "x \<in> region x m" if "0 < m" for x m using that by (auto simp: region_def intro!: image_eqI [of _ _ 0])
  have e: "(encode_field n env enc h f q :: 'a pb_enc) =
      encode_switch f h (basic_size_ref f q) True q (pb_encoder enc f h)" if "size_offset f \<noteq> 0 \<or> \<not> is_optional f"
  proof -
    have "basic_implicit_has n env h f q = Some True" using that a by (auto simp: basic_implicit_has_def atypes)
    with a show ?thesis by (simp add: fun_eq_iff encode_field_def encode_basic_field_def Let_def atypes)
  qed
  have one: "writes (\<lambda>st. enc_then (Some (pb_encode_tag_for_field f st)) (pb_encoder enc f h q)) (tag_bytes (field_wt f) (ftag f) @ item_bytes bytes f ?v)"
    if "\<not> is_repeated f" "good_item good bytes f ?v"
  proof (rule writes_seq [OF writes_tag_for_field [OF fs'] writes_item [OF fs a _ s _ that(2)]])
    have "region q (width f) \<subseteq> D" using D that(1) by (simp add: data_extent_def)
    then show "q \<noteq> 0" "region q (width f) \<subseteq> D" using in_region [OF w, of q] z by auto
  qed
  have fb: "field_bytes bytes f [?v] = tag_bytes (field_wt f) (ftag f) @ item_bytes bytes f ?v" if "\<not> is_repeated f"
    using that by (simp add: field_bytes_def field_records_def record_bytes_def)
  consider (req) "is_required f" | (opt) "is_optional f" "size_offset f \<noteq> 0" | (rep) "is_repeated f" "size_offset f \<noteq> 0"
    using ht by blast
  then show ?thesis
  proof cases
    case req
    have nr: "\<not> is_repeated f" "\<not> is_optional f" using req by (simp_all add: htypes)
    have gi: "good_item good bytes f ?v" using g req by (simp add: good_values_def field_values_def)
    have "region q (width f) \<subseteq> D" using D nr by (simp add: data_extent_def)
    then have "q \<noteq> 0" using in_region [OF w, of q] z by auto
    then have "(encode_field n env enc h f q :: 'a pb_enc) = (\<lambda>st. enc_then (Some (pb_encode_tag_for_field f st)) (pb_encoder enc f h q))"
      using req e nr by (simp add: fun_eq_iff encode_switch_def)
    with one [OF nr(1) gi] fb [OF nr(1)] req show ?thesis by (simp add: field_values_def)
  next
    case opt
    have nr: "\<not> is_repeated f" "\<not> is_required f" using opt by (simp_all add: htypes)
    have e': "(encode_field n env enc h f q :: 'a pb_enc) = (\<lambda>st. if safe_read_bool h s
        then enc_then (Some (pb_encode_tag_for_field f st)) (pb_encoder enc f h q) else Some (True, st))"
      using opt e nr by (simp add: fun_eq_iff encode_switch_def basic_size_ref_def ps)
    show ?thesis
    proof (cases "safe_read_bool h s")
      case True
      then have v: "?vs = [?v]" using opt nr by (simp add: field_values_def)
      have gi: "good_item good bytes f ?v" using g unfolding v by (simp add: good_values_def)
      show ?thesis unfolding v fb [OF nr(1)] e' using True one [OF nr(1) gi] by simp
    next
      case False
      then have "field_bytes bytes f ?vs = []" using opt nr by (simp add: field_values_def field_bytes_def field_records_def)
      then show ?thesis unfolding e' using False writes_skip by simp
    qed
  next
    case rep
    have nr: "\<not> is_optional f" "\<not> is_required f" using rep by (simp_all add: htypes)
    have v: "?vs = array_values sub f h q (unat (load_u32 h s))" using rep nr by (simp add: field_values_def)
    have e': "(encode_field n env enc h f q :: 'a pb_enc) = encode_array f h q (load_u32 h s) (pb_encoder enc f h)"
      using rep e nr by (simp add: fun_eq_iff encode_switch_def basic_size_ref_def ps)
    have c: "unat (load_u32 h s) \<le> unat (array_size f)"
      using g nr unfolding v by (simp add: good_values_def)
    have r: "region (nth_item f q i) (width f) \<subseteq> D" if "i < unat (load_u32 h s)" for i
    proof -
      have "Suc i \<le> unat (array_size f)" using that c by simp
      then have "Suc i * width f \<le> unat (array_size f) * width f" by (rule mult_le_mono1)
      then have "region (nth_item f q i) (width f) \<subseteq> region q (data_extent f)"
        unfolding nth_item_def by (intro region_sub) (simp add: data_extent_def rep)
      with D show ?thesis by blast
    qed
    show ?thesis unfolding v e'
    proof (rule writes_array [OF fs a rep(1) _ s r g [unfolded v]])
      show "nth_item f q i \<noteq> 0" if "i < unat (load_u32 h s)" for i
        using r [OF that] in_region [OF w, of "nth_item f q i"] z by auto
    qed
  qed
qed

subsection \<open>Messages\<close>

lemma writes_encode_loop:
  assumes wf: "wf_fields flds" and w: "\<And>k. k < nfields flds \<Longrightarrow> writes (f (iter_at flds src k)) (bs k)"
  shows "k < nfields flds \<Longrightarrow> nfields flds - k \<le> m \<Longrightarrow>
    writes (encode_loop m f (iter_at flds src k)) (concat (map bs [k..<nfields flds]))"
proof (induction m arbitrary: k)
  case (Suc m)
  note next' = iter_next_at [OF wf Suc.prems(1), of src]
  have u: "[k..<nfields flds] = k # [Suc k..<nfields flds]" using Suc.prems(1) by (rule upt_conv_Cons)
  show ?case
  proof (cases "Suc k < nfields flds")
    case True
    then have "(encode_loop (Suc m) f (iter_at flds src k) :: 'a pb_enc) =
        (\<lambda>st. enc_then (f (iter_at flds src k) st) (encode_loop m f (iter_at flds src (Suc k))))"
      using next' by (simp add: fun_eq_iff)
    with writes_seq [OF w [OF Suc.prems(1)] Suc.IH [OF True]] Suc.prems show ?thesis unfolding u by simp
  next
    case False
    then have "(encode_loop (Suc m) f (iter_at flds src k) :: 'a pb_enc) =
        (\<lambda>st. enc_then (f (iter_at flds src k) st) (\<lambda>st. Some (True, st)))"
      using next' by (simp add: fun_eq_iff)
    with writes_seq [OF w [OF Suc.prems(1)] writes_skip] False show ?thesis unfolding u by simp
  qed
qed simp

theorem pb_encode_writes:
  assumes "static_message d env flds sz" "d \<le> n" "0 \<notin> region p sz" "good_message d env flds (message_at d env flds h p)"
  shows "writes (pb_encode n env h flds p) (message_bytes d env flds (message_at d env flds h p))"
  using assms
proof (induction d arbitrary: n flds sz p)
  case (Suc d)
  from Suc.prems(2) obtain m where n: "n = Suc m" "d \<le> m" by (cases n) auto
  note sm = static_messageD [OF Suc.prems(1)]
  let ?sub = "\<lambda>f. message_at d env (desc env (fptr f)) h" and ?good = "\<lambda>f. good_message d env (desc env (fptr f))"
    and ?bytes = "\<lambda>f. message_bytes d env (desc env (fptr f))" and ?enc = "\<lambda>q src. pb_encode m env h (desc env q) src :: 'a pb_enc"
  let ?vs = "\<lambda>k. field_values (?sub) (flds ! k) h (p + doff flds k) (p + poff flds k)"
  have g: "good_values ?good ?bytes (flds ! k) (?vs k)" if "k < nfields flds" for k
    using Suc.prems(4) that by (simp add: list_all_iff)
  have one: "writes (encode_one m env ?enc h (iter_at flds p k)) (field_bytes ?bytes (flds ! k) (?vs k))" if k: "k < nfields flds" for k
  proof -
    let ?f = "flds ! k"
    have ne: "PB_LTYPE (ftype ?f) \<noteq> PB_LTYPE_EXTENSION"
      using sm(3) [OF k] by (auto simp: static_field_def ltypes elim!: scalar_cases)
    have e: "encode_one m env ?enc h (iter_at flds p k) = encode_field m env ?enc h ?f (p + doff flds k)"
      using ne k sm(1) by (simp add: fun_eq_iff encode_one_def cur_iter_at iter_at_shift)
    have po: "p + poff flds k = p + doff flds k + scast (size_offset ?f)"
      using pSize_pData [OF sm(1) k sm(5)] by simp
    have D: "region (p + doff flds k) (data_extent ?f) \<subseteq> region p sz"
      using field_foot_region [OF Suc.prems(1) k, of p] by (simp add: field_foot_def)
    have sub: "sub_writes ?enc ?sub ?good ?bytes ?f (region p sz)" if "is_sub ?f"
      unfolding sub_writes_def
    proof (intro allI impI)
      fix q assume q: "region q (width ?f) \<subseteq> region p sz" "?good ?f (?sub ?f q)"
      have "static_message d env (desc env (fptr ?f)) (width ?f)"
        using sm(3) [OF k] that by (auto simp: static_field_def ltypes elim!: scalar_cases)
      from Suc.IH [OF this n(2) _ q(2)] q(1) Suc.prems(3) show "writes (?enc (fptr ?f) q) (?bytes ?f (?sub ?f q))" by blast
    qed
    show ?thesis unfolding e by (rule writes_field [OF sm(3) [OF k] sub po D Suc.prems(3) g [OF k]])
  qed
  have bytes: "message_bytes (Suc d) env flds (message_at (Suc d) env flds h p) =
      concat (map (\<lambda>k. field_bytes ?bytes (flds ! k) (?vs k)) [0..<nfields flds])"
    by (auto intro!: arg_cong [of _ _ concat])
  show ?case
  proof (cases "nfields flds = 0")
    case True
    then have "fst (pb_field_iter_begin flds p) = False"
      using wf_fields_tag [OF sm(1), of 0] wf_fields_length [OF sm(1)] by (simp add: pb_field_iter_begin_def Let_def)
    then obtain it where "pb_field_iter_begin flds p = (False, it)" by (cases "pb_field_iter_begin flds p") auto
    then have "(pb_encode n env h flds p :: 'a pb_enc) = (\<lambda>st. Some (True, st))"
      by (simp add: fun_eq_iff n)
    then show ?thesis unfolding bytes using True writes_skip by simp
  next
    case False
    then have "fst (pb_field_iter_begin flds p)"
      using wf_fields_tag [OF sm(1), of 0] wf_fields_length [OF sm(1)] by (simp add: pb_field_iter_begin_def Let_def)
    then have "pb_field_iter_begin flds p = (True, iter_at flds p 0)" by (simp add: iter_at.simps prod_eq_iff)
    then have "(pb_encode n env h flds p :: 'a pb_enc) = encode_loop (length flds) (encode_one m env ?enc h) (iter_at flds p 0)"
      by (simp add: fun_eq_iff n)
    moreover have "writes (encode_loop (length flds) (encode_one m env ?enc h) (iter_at flds p 0))
        (concat (map (\<lambda>k. field_bytes ?bytes (flds ! k) (?vs k)) [0..<nfields flds]))"
      by (rule writes_encode_loop [OF sm(1)]) (use one False in simp_all)
    ultimately show ?thesis unfolding bytes by simp
  qed
qed simp

end
