(* ===== verification/Pb_Ready.thy ===== *)
theory Pb_Ready
  imports Pb_Message
begin

text \<open>
  nanopb: what a message says depends on its memory only, and setting the fields to their defaults makes
  the memory ready for decoding: flags and counts are zero, down through the submessages.
\<close>

unbundle bit_operations_syntax

subsection \<open>Dependence on memory\<close>

lemma agree_bool: "agree (region p 1) h h' \<Longrightarrow> safe_read_bool h' p = safe_read_bool h p"
  using agree_load [of p 1 h h'] by (simp add: safe_read_bool_def load_bytes_1)

text \<open>The parts of a field within its memory.\<close>

lemma nth_item_region:
  assumes "i < unat (array_size f)" "is_repeated f"
  shows "region (nth_item f q i) (width f) \<subseteq> region q (data_extent f)"
proof -
  have "Suc i \<le> unat (array_size f)" using assms(1) by simp
  then have "Suc i * width f \<le> unat (array_size f) * width f" by (rule mult_le_mono1)
  then show ?thesis unfolding nth_item_def by (intro region_sub) (simp add: data_extent_def assms(2))
qed

text \<open>What is required of the trees of submessages: a good one does not change with memory elsewhere.\<close>

definition local_sub ::
  "(heap \<Rightarrow> pb_field \<Rightarrow> addr \<Rightarrow> pb_value) \<Rightarrow> (pb_field \<Rightarrow> pb_value \<Rightarrow> bool) \<Rightarrow> pb_field \<Rightarrow> bool" where
  "local_sub sub good f \<longleftrightarrow>
     (\<forall>h h' q. good f (sub h f q) \<longrightarrow> agree (region q (width f)) h h' \<longrightarrow> sub h' f q = sub h f q)"

lemma item_value_cong:
  assumes f: "scalar_field f \<or> is_sub f" and l: "is_sub f \<Longrightarrow> local_sub sub good f"
    and g: "good_item good bytes f (item_value (sub h) f h q)" and a: "agree (region q (width f)) h h'"
  shows "item_value (sub h') f h' q = item_value (sub h) f h q"
proof (cases "is_sub f")
  case True
  then have "good f (sub h f q)" using g by (auto simp: item_value_def good_item_def split: pb_value.splits)
  with l [OF True] a show ?thesis using True by (simp add: item_value_def local_sub_def)
next
  case False
  then have "scalar_field f" "good_image f (value_image f h q)" using f g by (simp_all add: item_value_def good_item_def)
  then have "value_image f h' q = value_image f h q" by (rule value_image_cong) (use a in \<open>simp add: agree_def\<close>)
  with False show ?thesis by (simp add: item_value_def)
qed

lemma field_values_cong:
  assumes f: "static_field sf f" and l: "is_sub f \<Longrightarrow> local_sub sub good f"
    and g: "good_values good bytes f (field_values (sub h) f h q s)"
    and a: "agree (region q (data_extent f)) h h'" "agree (region s (flag_extent f)) h h'"
  shows "field_values (sub h') f h' q s = field_values (sub h) f h q s"
proof -
  have fs: "scalar_field f \<or> is_sub f" and ht: "is_required f \<or> is_optional f \<or> is_repeated f"
    using f by (auto simp: static_field_def)
  have gi: "good_item good bytes f v" if "v \<in> set (field_values (sub h) f h q s)" for v
    using g that unfolding good_values_def list_all_iff by blast
  note item = item_value_cong [OF fs l, where bytes = bytes]
  consider (req) "is_required f" | (opt) "is_optional f" | (rep) "is_repeated f" using ht by blast
  then show ?thesis
  proof cases
    case req
    then have d: "data_extent f = width f" by (simp add: data_extent_def htypes)
    have "item_value (sub h') f h' q = item_value (sub h) f h q"
      by (rule item) (use gi req a d in \<open>simp_all add: field_values_def\<close>)
    then show ?thesis using req by (simp add: field_values_def)
  next
    case opt
    then have d: "data_extent f = width f" and fl: "flag_extent f = 1" by (simp_all add: data_extent_def flag_extent_def htypes)
    have b: "safe_read_bool h' s = safe_read_bool h s" using a(2) fl by (intro agree_bool) simp
    have nr: "\<not> is_required f" using opt by (simp add: htypes)
    show ?thesis
    proof (cases "safe_read_bool h s")
      case True
      have "item_value (sub h') f h' q = item_value (sub h) f h q"
        by (rule item) (use gi opt nr True a d in \<open>simp_all add: field_values_def\<close>)
      then show ?thesis using opt nr True b by (simp add: field_values_def)
    next
      case False
      then show ?thesis using opt nr b by (simp add: field_values_def)
    qed
  next
    case rep
    then have nr: "\<not> is_required f" "\<not> is_optional f" and fl: "flag_extent f = 4" by (simp_all add: htypes flag_extent_def)
    have c: "load_u32 h' s = load_u32 h s" using a(2) fl by (intro agree_u32) simp
    have n: "unat (load_u32 h s) \<le> unat (array_size f)"
      using g nr by (simp add: good_values_def field_values_def)
    have "item_value (sub h') f h' (nth_item f q i) = item_value (sub h) f h (nth_item f q i)" if i: "i < unat (load_u32 h s)" for i
    proof (rule item)
      show "good_item good bytes f (item_value (sub h) f h (nth_item f q i))"
        by (rule gi) (use i nr in \<open>simp add: field_values_def\<close>)
      show "agree (region (nth_item f q i) (width f)) h h'"
        using agree_mono [OF a(1) nth_item_region [OF _ rep]] i n by simp
    qed
    then show ?thesis using nr c by (simp add: field_values_def)
  qed
qed

lemma field_foot_agree:
  assumes "agree (field_foot flds p k) h h'"
  shows "agree (region (p + doff flds k) (data_extent (flds ! k))) h h'"
    "agree (region (p + poff flds k) (flag_extent (flds ! k))) h h'"
  using assms by (auto simp: field_foot_def agree_def)

lemma message_at_cong:
  assumes "static_message d env flds sz" "good_message d env flds (message_at d env flds h p)" "agree (region p sz) h h'"
  shows "message_at d env flds h' p = message_at d env flds h p"
  using assms
proof (induction d arbitrary: flds sz p h h')
  case (Suc d)
  note sm = static_messageD [OF Suc.prems(1)]
  let ?sub = "\<lambda>h f. message_at d env (desc env (fptr f)) h" and ?good = "\<lambda>f. good_message d env (desc env (fptr f))"
    and ?bytes = "\<lambda>f. message_bytes d env (desc env (fptr f))"
  have "field_values (?sub h') (flds ! k) h' (p + doff flds k) (p + poff flds k) =
      field_values (?sub h) (flds ! k) h (p + doff flds k) (p + poff flds k)" if k: "k < nfields flds" for k
  proof (rule field_values_cong [OF sm(3) [OF k]])
    let ?f = "flds ! k"
    show "local_sub ?sub ?good ?f" if "is_sub ?f"
    proof -
      have "static_message d env (desc env (fptr ?f)) (width ?f)"
        using sm(3) [OF k] that by (auto simp: static_field_def ltypes elim!: scalar_cases)
      from Suc.IH [OF this] show ?thesis unfolding local_sub_def by blast
    qed
    show "good_values ?good ?bytes ?f (field_values (?sub h) ?f h (p + doff flds k) (p + poff flds k))"
      using Suc.prems(2) k by (simp add: list_all_iff)
    have "agree (field_foot flds p k) h h'"
      by (rule agree_mono [OF Suc.prems(3) field_foot_region [OF Suc.prems(1) k]])
    then show "agree (region (p + doff flds k) (data_extent ?f)) h h'"
      "agree (region (p + poff flds k) (flag_extent ?f)) h h'" by (rule field_foot_agree)+
  qed
  then show ?case by simp
qed simp

subsection \<open>Memory ready for decoding\<close>

definition field_ready :: "(pb_field \<Rightarrow> addr \<Rightarrow> bool) \<Rightarrow> pb_field \<Rightarrow> heap \<Rightarrow> addr \<Rightarrow> addr \<Rightarrow> bool" where
  "field_ready sub f h q s \<longleftrightarrow>
     (if is_repeated f then load_u32 h s = 0
      else (is_optional f \<longrightarrow> \<not> safe_read_bool h s) \<and> (is_sub f \<longrightarrow> sub f q))"

primrec message_ready :: "nat \<Rightarrow> 's pb_env \<Rightarrow> pb_field list \<Rightarrow> heap \<Rightarrow> addr \<Rightarrow> bool" where
  "message_ready 0 env flds h p \<longleftrightarrow> False"
| "message_ready (Suc d) env flds h p \<longleftrightarrow>
     (\<forall>k<nfields flds. field_ready (\<lambda>f. message_ready d env (desc env (fptr f)) h) (flds ! k) h (p + doff flds k) (p + poff flds k))"

lemma static_sub:
  assumes "static_message (Suc d) env flds sz" "k < nfields flds" "is_sub (flds ! k)"
  shows "static_message d env (desc env (fptr (flds ! k))) (width (flds ! k))" "fptr (flds ! k) \<noteq> 0"
  using static_messageD(3) [OF assms(1,2)] assms(3) by (auto simp: static_field_def ltypes elim!: scalar_cases)

lemma field_ready_cong:
  assumes f: "static_field sf f" and r: "field_ready (sub h) f h q s"
    and l: "is_sub f \<Longrightarrow> sub h f q \<Longrightarrow> agree (region q (width f)) h h' \<Longrightarrow> sub h' f q"
    and a: "agree (region q (data_extent f)) h h'" "agree (region s (flag_extent f)) h h'"
  shows "field_ready (sub h') f h' q s"
proof (cases "is_repeated f")
  case True
  then have "load_u32 h' s = load_u32 h s" using a(2) by (intro agree_u32) (simp add: flag_extent_def htypes)
  with True r show ?thesis by (simp add: field_ready_def)
next
  case False
  then have "agree (region q (width f)) h h'" using a(1) by (simp add: data_extent_def)
  moreover have "safe_read_bool h' s = safe_read_bool h s" if "is_optional f"
    using a(2) that by (intro agree_bool) (simp add: flag_extent_def htypes)
  ultimately show ?thesis using r l False by (auto simp: field_ready_def)
qed

lemma message_ready_cong:
  assumes "static_message d env flds sz" "message_ready d env flds h p" "agree (region p sz) h h'"
  shows "message_ready d env flds h' p"
  using assms
proof (induction d arbitrary: flds sz p)
  case (Suc d)
  note sm = static_messageD [OF Suc.prems(1)]
  show ?case unfolding message_ready.simps
  proof (intro allI impI)
    fix k assume k: "k < nfields flds"
    have a: "agree (field_foot flds p k) h h'"
      by (rule agree_mono [OF Suc.prems(3) field_foot_region [OF Suc.prems(1) k]])
    show "field_ready (\<lambda>f. message_ready d env (desc env (fptr f)) h') (flds ! k) h' (p + doff flds k) (p + poff flds k)"
      by (rule field_ready_cong [OF sm(3) [OF k], where sub = "\<lambda>h f. message_ready d env (desc env (fptr f)) h"])
        (use Suc.prems(2) k field_foot_agree [OF a] Suc.IH static_sub(1) [OF Suc.prems(1) k] in auto)
  qed
qed simp

subsection \<open>The loop over the fields\<close>

text \<open>
  Each step establishes \<open>P k\<close> and changes \<open>F k\<close>; what holds of the other fields stays true.
\<close>

lemma fields_loop_run:
  assumes wf: "wf_fields flds"
    and step: "\<And>k h. k < nfields flds \<Longrightarrow> \<exists>h'. f (iter_at flds p k) h = Some h' \<and> P k h' \<and> same_outside (F k) h h'"
    and stable: "\<And>j k h h'. j < nfields flds \<Longrightarrow> k < nfields flds \<Longrightarrow> j \<noteq> k \<Longrightarrow> P j h \<Longrightarrow> same_outside (F k) h h' \<Longrightarrow> P j h'"
  shows "k < nfields flds \<Longrightarrow> nfields flds - k \<le> m \<Longrightarrow> (\<And>j. j < k \<Longrightarrow> P j h) \<Longrightarrow>
    \<exists>h'. fields_loop m f (iter_at flds p k) h = Some h' \<and> (\<forall>j<nfields flds. P j h') \<and>
      same_outside (\<Union>j<nfields flds. F j) h h'"
proof (induction m arbitrary: k h)
  case (Suc m)
  obtain h1 where h1: "f (iter_at flds p k) h = Some h1" "P k h1" "same_outside (F k) h h1"
    using step [OF Suc.prems(1)] by blast
  have all: "P j h1" if "j < Suc k" for j
  proof (cases "j = k")
    case False
    then have j: "j < k" using that by simp
    with Suc.prems(1) have "j < nfields flds" by simp
    from stable [OF this Suc.prems(1) False Suc.prems(3) [OF j] h1(3)] show ?thesis .
  qed (use h1(2) in simp)
  have sub: "F k \<subseteq> (\<Union>j<nfields flds. F j)" using Suc.prems(1) by blast
  note next' = iter_next_at [OF wf Suc.prems(1), of p]
  show ?case
  proof (cases "Suc k < nfields flds")
    case True
    have "nfields flds - Suc k \<le> m" using Suc.prems(2) by simp
    from Suc.IH [OF True this all] obtain h' where
      h': "fields_loop m f (iter_at flds p (Suc k)) h1 = Some h'" "\<forall>j<nfields flds. P j h'"
      "same_outside (\<Union>j<nfields flds. F j) h1 h'" by blast
    have "fields_loop (Suc m) f (iter_at flds p k) h = Some h'" using h1(1) next' True h'(1) by simp
    with h'(2) same_outside_trans [OF h1(3) h'(3), of "\<Union>j<nfields flds. F j"] sub show ?thesis by blast
  next
    case False
    then have "fields_loop (Suc m) f (iter_at flds p k) h = Some h1" using h1(1) next' by simp
    moreover have "\<forall>j<nfields flds. P j h1" using all False by auto
    ultimately show ?thesis using same_outside_mono [OF h1(3) sub] by blast
  qed
qed simp

lemma foot_disjoint:
  assumes "static_message (Suc d) env flds sz" "j < nfields flds" "k < nfields flds" "j \<noteq> k"
  shows "field_foot flds p j \<inter> field_foot flds p k = {}"
proof -
  have "field_foot flds 0 j \<inter> field_foot flds 0 k = {}"
  proof -
    have d: "field_foot flds 0 b \<inter> field_foot flds 0 a = {}" if "a < b" "b < nfields flds" for a b
      using assms(1) that by simp
    from assms(4) consider "j < k" | "k < j" by linarith
    then show ?thesis by cases (use d [of j k] d [of k j] assms(2,3) in \<open>simp_all add: Int_commute\<close>)
  qed
  then show ?thesis unfolding field_foot_shift [of flds p] by (rule shift_disjoint)
qed

lemma data_flag_disjoint:
  assumes "static_message (Suc d) env flds sz" "k < nfields flds"
  shows "region (p + doff flds k) (data_extent (flds ! k)) \<inter> region (p + poff flds k) (flag_extent (flds ! k)) = {}"
proof -
  have "region (doff flds k) (data_extent (flds ! k)) \<inter> region (poff flds k) (flag_extent (flds ! k)) = {}"
    using assms by simp
  then show ?thesis unfolding region_shift [of p] by (rule shift_disjoint)
qed

lemma foot_subs: "region (p + doff flds k) (data_extent (flds ! k)) \<subseteq> field_foot flds p k"
  "region (p + poff flds k) (flag_extent (flds ! k)) \<subseteq> field_foot flds p k"
  by (auto simp: field_foot_def)

subsection \<open>Default values\<close>

lemma load_u32_store_0: "load_u32 (store_u32 a 0 h) a = 0" by (rule load_store_u32)

lemma length_store_u32: "same_outside (region a 4) h (store_u32 a v h)"
  unfolding store_u32_def by (rule same_outside_store) simp

lemma message_defaults_from:
  assumes wf: "wf_fields flds"
    and loop: "0 < nfields flds \<Longrightarrow> \<exists>h'. fields_loop (length flds) f (iter_at flds p 0) h = Some h' \<and> Q h'"
    and none: "nfields flds = 0 \<Longrightarrow> Q h"
  shows "\<exists>h'. set_message_defaults_with f flds p h = Some h' \<and> Q h'"
proof (cases "nfields flds = 0")
  case True
  then obtain it where "pb_field_iter_begin flds p = (False, it)"
    using wf_fields_tag [OF wf, of 0] wf_fields_length [OF wf] by (cases "pb_field_iter_begin flds p") (simp add: pb_field_iter_begin_def Let_def)
  then show ?thesis using none [OF True] by (simp add: set_message_defaults_with_def)
next
  case False
  then have "pb_field_iter_begin flds p = (True, iter_at flds p 0)"
    using wf_fields_tag [OF wf, of 0] wf_fields_length [OF wf] by (simp add: iter_at.simps prod_eq_iff pb_field_iter_begin_def Let_def)
  then show ?thesis using loop False by (simp add: set_message_defaults_with_def)
qed

text \<open>One field, given how submessages are set.\<close>

lemma static_default:
  assumes f: "static_field sf (cur iter)" and r: "pData iter = q" "pSize iter = s"
    and sub: "\<And>h. is_sub (cur iter) \<Longrightarrow> \<exists>h'. set_message_defaults_with g (desc env (fptr (cur iter))) q h = Some h' \<and> ready h' (cur iter) q \<and>
        same_outside (region q (width (cur iter))) h h'"
    and dj: "region q (data_extent (cur iter)) \<inter> region s (flag_extent (cur iter)) = {}"
  shows "\<exists>h'. set_static_default env g iter h = Some h' \<and> field_ready (ready h') (cur iter) h' q s \<and>
    same_outside (region q (data_extent (cur iter)) \<union> region s (flag_extent (cur iter))) h h'"
proof -
  let ?f = "cur iter"
  have ht: "is_required ?f \<or> is_optional ?f \<or> is_repeated ?f" and w: "0 < width ?f"
    using f by (auto simp: static_field_def)
  define set_data where "set_data = (\<lambda>h. if is_sub ?f then set_message_defaults_with g (desc env (fptr ?f)) q h
      else if fptr ?f \<noteq> 0 then Some (store_bytes q (load_bytes h (fptr ?f) (width ?f)) h)
      else Some (store_bytes q (replicate (width ?f) 0) h))"
  have data: "\<exists>h'. set_data h = Some h' \<and> (is_sub ?f \<longrightarrow> ready h' ?f q) \<and> same_outside (region q (width ?f)) h h'" for h
  proof (cases "is_sub ?f")
    case True
    with sub [of h] show ?thesis by (auto simp: set_data_def)
  next
    case False
    have "same_outside (region q (width ?f)) h (store_bytes q xs h)" if "length xs = width ?f" for xs
      using that by (intro same_outside_store) simp
    with False show ?thesis by (cases "fptr ?f = 0") (simp_all add: set_data_def)
  qed
  have eq: "set_static_default env g iter h =
      (if is_optional ?f \<and> s \<noteq> q then set_data (store_bytes s [0] h)
       else if is_repeated ?f \<or> PB_HTYPE (ftype ?f) = PB_HTYPE_ONEOF then Some (store_u32 s 0 h) else set_data h)"
    unfolding set_static_default_def Let_def set_data_def r ..
  consider (req) "is_required ?f" | (opt) "is_optional ?f" | (rep) "is_repeated ?f" using ht by blast
  then show ?thesis
  proof cases
    case req
    then have x: "\<not> is_optional ?f" "\<not> is_repeated ?f" "PB_HTYPE (ftype ?f) \<noteq> PB_HTYPE_ONEOF" "data_extent ?f = width ?f"
      by (simp_all add: htypes data_extent_def)
    obtain h' where "set_data h = Some h'" "is_sub ?f \<longrightarrow> ready h' ?f q" "same_outside (region q (width ?f)) h h'"
      using data by blast
    with x show ?thesis unfolding eq
      by (intro exI [of _ h']) (auto simp: field_ready_def elim: same_outside_mono)
  next
    case opt
    then have x: "\<not> is_repeated ?f" "data_extent ?f = width ?f" "flag_extent ?f = 1"
      by (simp_all add: htypes data_extent_def flag_extent_def)
    have "q \<in> region q (width ?f)" "s \<in> region s 1" using w by (auto simp: region_def intro!: image_eqI [of _ _ 0])
    with dj x have ne: "s \<noteq> q" by auto
    obtain h' where h': "set_data (store_bytes s [0] h) = Some h'" "is_sub ?f \<longrightarrow> ready h' ?f q"
      "same_outside (region q (width ?f)) (store_bytes s [0] h) h'" using data by blast
    have "agree (region s 1) (store_bytes s [0] h) h'" by (rule agree_outside [OF h'(3)]) (use dj x in auto)
    then have "safe_read_bool h' s = safe_read_bool (store_bytes s [0] h) s" by (rule agree_bool)
    also have "\<dots> = False" by (simp add: safe_read_bool_def store_bytes_def)
    finally have fl: "\<not> safe_read_bool h' s" by simp
    have "same_outside (region s 1) h (store_bytes s [0] h)" by (rule same_outside_store) simp
    from same_outside_trans [OF this h'(3)] x
    have "same_outside (region q (data_extent ?f) \<union> region s (flag_extent ?f)) h h'" by simp
    with h' fl opt ne x show ?thesis unfolding eq by (intro exI [of _ h']) (simp add: field_ready_def)
  next
    case rep
    then have x: "\<not> is_optional ?f" "flag_extent ?f = 4" by (simp_all add: htypes flag_extent_def)
    have "same_outside (region q (data_extent ?f) \<union> region s (flag_extent ?f)) h (store_u32 s 0 h)"
      by (rule same_outside_mono [OF length_store_u32]) (use x in auto)
    with rep x show ?thesis unfolding eq by (intro exI [of _ "store_u32 s 0 h"]) (simp add: field_ready_def load_u32_store_0)
  qed
qed

lemma set_defaults_ready:
  assumes "static_message d env flds sz" "d \<le> n"
  shows "\<exists>h'. pb_message_set_to_defaults n env flds p h = Some h' \<and> message_ready d env flds h' p \<and>
    same_outside (region p sz) h h'"
  using assms
proof (induction d arbitrary: n flds sz p h)
  case (Suc d)
  from Suc.prems(2) obtain m where n: "n = Suc m" "d \<le> m" by (cases n) auto
  note sm = static_messageD [OF Suc.prems(1)]
  let ?ready = "\<lambda>h f. message_ready d env (desc env (fptr f)) h"
  let ?P = "\<lambda>k h. field_ready (?ready h) (flds ! k) h (p + doff flds k) (p + poff flds k)"
  have step: "\<exists>h'. pb_field_set_to_default n env (iter_at flds p k) h = Some h' \<and> ?P k h' \<and> same_outside (field_foot flds p k) h h'"
    if k: "k < nfields flds" for k h
  proof -
    let ?f = "flds ! k"
    have c: "cur (iter_at flds p k) = ?f" using sm(1) k by (simp add: cur_iter_at)
    have "PB_LTYPE (ftype ?f) \<noteq> PB_LTYPE_EXTENSION" "PB_ATYPE (ftype ?f) = PB_ATYPE_STATIC"
      using sm(3) [OF k] by (auto simp: static_field_def ltypes elim!: scalar_cases)
    then have e: "pb_field_set_to_default n env (iter_at flds p k) h =
        set_static_default env (pb_field_set_to_default m env) (iter_at flds p k) h"
      unfolding n by (simp add: c)
    have sub: "\<exists>h'. set_message_defaults_with (pb_field_set_to_default m env) (desc env (fptr ?f)) (p + doff flds k) h = Some h' \<and>
        ?ready h' ?f (p + doff flds k) \<and> same_outside (region (p + doff flds k) (width ?f)) h h'" if "is_sub ?f" for h
      using Suc.IH [OF static_sub(1) [OF Suc.prems(1) k that] n(2)] unfolding pb_message_set_to_defaults_def .
    show ?thesis unfolding e field_foot_def
      using static_default [of _ "iter_at flds p k" "p + doff flds k" "p + poff flds k" "pb_field_set_to_default m env" env ?ready h,
          unfolded c, OF sm(3) [OF k] _ _ sub data_flag_disjoint [OF Suc.prems(1) k]]
      by (simp add: iter_at_shift)
  qed
  have stable: "?P j h'" if j: "j < nfields flds" and k: "k < nfields flds" and jk: "j \<noteq> k" and P: "?P j h"
    and so: "same_outside (field_foot flds p k) h h'" for j k h h'
  proof -
    have a: "agree (field_foot flds p j) h h'" by (rule agree_outside [OF so foot_disjoint [OF Suc.prems(1) j k jk]])
    show ?thesis
      by (rule field_ready_cong [where sub = ?ready, OF sm(3) [OF j] P _ field_foot_agree [OF a]])
        (use message_ready_cong static_sub(1) [OF Suc.prems(1) j] in blast)
  qed
  have un: "(\<Union>j<nfields flds. field_foot flds p j) \<subseteq> region p sz" using field_foot_region [OF Suc.prems(1)] by blast
  show ?case unfolding pb_message_set_to_defaults_def
  proof (rule message_defaults_from [OF sm(1)])
    assume "0 < nfields flds"
    then have "\<exists>h'. fields_loop (length flds) (pb_field_set_to_default n env) (iter_at flds p 0) h = Some h' \<and>
        (\<forall>j<nfields flds. ?P j h') \<and> same_outside (\<Union>j<nfields flds. field_foot flds p j) h h'"
      by (intro fields_loop_run [where P = ?P, OF sm(1) step stable]) simp_all
    then show "\<exists>h'. fields_loop (length flds) (pb_field_set_to_default n env) (iter_at flds p 0) h = Some h' \<and>
        message_ready (Suc d) env flds h' p \<and> same_outside (region p sz) h h'"
      unfolding message_ready.simps using same_outside_mono [OF _ un] by blast
  qed simp
qed simp

end
