(* ===== verification/Pb_Read.thy ===== *)
theory Pb_Read
  imports Pb_Ready
begin

text \<open>
  nanopb: \<open>pb_decode\<close> of the encoding of a tree leaves memory that holds the tree. A field takes a
  sequence of records, each of which adds to it; the records of a message are taken in the order
  they come, and the required fields are found to be there.
\<close>

unbundle bit_operations_syntax

subsection \<open>Submessages\<close>

text \<open>As \<open>decodes\<close>, for a decoder that reads to the end of its stream.\<close>

definition reads_all :: "'s pb_dec \<Rightarrow> bytes \<Rightarrow> (heap \<Rightarrow> bool) \<Rightarrow> (heap \<Rightarrow> bool) \<Rightarrow> addr set \<Rightarrow> bool" where
  "reads_all D xs A B F \<longleftrightarrow> (\<forall>st h. wf_stream st \<longrightarrow> content st = xs \<longrightarrow> A h \<longrightarrow>
     (\<exists>h'. D st h = Some (True, adv (length xs) st, h') \<and> B h' \<and> same_outside F h h'))"

lemma reads_allE:
  assumes "reads_all D xs A B F" "wf_stream st" "content st = xs" "A h"
  obtains h' where "D st h = Some (True, adv (length xs) st, h')" "B h'" "same_outside F h h'"
  using assms unfolding reads_all_def by blast

lemma substream_run:
  assumes wf: "wf_stream st" and c: "content st = string_bytes xs @ r" and l: "length xs < 2 ^ 32"
  obtains sub st2 where "pb_make_string_substream st = (Some sub, st2)" "wf_stream sub" "content sub = xs"
    "bytes_left sub = length xs" "pb_close_string_substream st2 (adv (length xs) sub) = (True, adv (length (string_bytes xs)) st)"
proof -
  let ?v = "length (varint_bytes (length xs))"
  let ?sub = "(adv ?v st)\<lparr>bytes_left := length xs\<rparr>" and ?st2 = "(adv ?v st)\<lparr>bytes_left := length r\<rparr>"
  have n: "bytes_left st = ?v + length xs + length r" using length_stream_content [OF wf] c by (simp add: string_bytes_def)
  obtain src where src: "source st = Buf src" "bytes_left st \<le> length src" "src_bytes st = src" using wf by (rule wf_streamE)
  have sub: "source ?sub = Buf (drop ?v src)" "src_bytes ?sub = drop ?v src" by (simp_all add: src src_bytes_def)
  show thesis
  proof (rule that [of ?sub ?st2])
    show "pb_make_string_substream st = (Some ?sub, ?st2)" by (rule pb_make_string_substream_buf [OF wf c l])
    show "wf_stream ?sub" unfolding wf_stream_def using n src(2) sub by (simp add: is_buf_read_def)
    have "take (bytes_left st) src = varint_bytes (length xs) @ xs @ r" using c src(3) by (simp add: content_def string_bytes_def)
    then have "take (length xs) (drop ?v (take (bytes_left st) src)) = xs" by simp
    then show "content ?sub = xs" unfolding content_def sub using n by (simp add: drop_take)
    show "pb_close_string_substream ?st2 (adv (length xs) ?sub) = (True, adv (length (string_bytes xs)) st)"
      using n src by (cases st) (simp add: pb_close_string_substream_def adv_def src_bytes_def string_bytes_def add.commute)
  qed simp
qed

lemma decodes_submessage:
  assumes r: "reads_all (dec (is_repeated f) (fptr f) q) xs A B F" and f: "fptr f \<noteq> 0" and l: "length xs < 2 ^ 32"
  shows "decodes (pb_dec_submessage dec f q) (string_bytes xs) A B F"
proof (rule decodesI)
  fix st :: "'a pb_istream" and h r' assume wf: "wf_stream st" "content st = string_bytes xs @ r'" and "A h"
  obtain sub st2 where sub: "pb_make_string_substream st = (Some sub, st2)" "wf_stream sub" "content sub = xs"
    "bytes_left sub = length xs" "pb_close_string_substream st2 (adv (length xs) sub) = (True, adv (length (string_bytes xs)) st)"
    by (rule substream_run [OF wf l])
  obtain h' where "dec (is_repeated f) (fptr f) q sub h = Some (True, adv (length xs) sub, h')" "B h'" "same_outside F h h'"
    by (rule reads_allE [OF r sub(2,3) \<open>A h\<close>])
  with sub f show "\<exists>h'. pb_dec_submessage dec f q st h = Some (True, adv (length (string_bytes xs)) st, h') \<and> B h' \<and> same_outside F h h'"
    by (simp add: pb_dec_submessage_def)
qed

subsection \<open>Items\<close>

text \<open>
  What the decoder of submessages has to satisfy: it reads a good tree into memory that is ready, or that it
  makes ready itself; \<open>S\<close> is memory for its local variables.
\<close>

definition sub_reads ::
  "'s pb_sub \<Rightarrow> (heap \<Rightarrow> pb_field \<Rightarrow> addr \<Rightarrow> pb_value) \<Rightarrow> (heap \<Rightarrow> pb_field \<Rightarrow> addr \<Rightarrow> bool) \<Rightarrow> (pb_field \<Rightarrow> pb_value \<Rightarrow> bool) \<Rightarrow>
     (pb_field \<Rightarrow> pb_value \<Rightarrow> bytes) \<Rightarrow> pb_field \<Rightarrow> addr set \<Rightarrow> addr set \<Rightarrow> bool" where
  "sub_reads dec sub ready good bytes f D S \<longleftrightarrow>
     (\<forall>q v. region q (width f) \<subseteq> D \<longrightarrow> good f v \<longrightarrow>
        reads_all (dec (is_repeated f) (fptr f) q) (bytes f v) (\<lambda>h. is_repeated f \<or> ready h f q) (\<lambda>h. sub h f q = v)
          (region q (width f) \<union> S))"

lemma decodes_item:
  assumes f: "scalar_field f \<or> is_sub f \<and> fptr f \<noteq> 0" and a: "PB_ATYPE (ftype f) = PB_ATYPE_STATIC"
    and s: "is_sub f \<Longrightarrow> sub_reads dec sub ready good bytes f D S" and D: "region q (width f) \<subseteq> D"
    and g: "good_item good bytes f v"
  shows "decodes (pb_decoder env dec f q) (item_bytes bytes f v) (\<lambda>h. is_sub f \<longrightarrow> is_repeated f \<or> ready h f q)
    (\<lambda>h. item_value (sub h) f h q = v) (region q (width f) \<union> S)"
proof (cases "is_sub f")
  case True
  then obtain vss where v: "v = Message vss" using g by (auto simp: good_item_def split: pb_value.splits)
  have g': "good f v" "length (bytes f v) < 2 ^ 32" using g v by (simp_all add: good_item_def)
  have nz: "fptr f \<noteq> 0" using f True by (auto simp: ltypes elim!: scalar_cases)
  have "pb_decoder env dec f q = pb_dec_submessage dec f q" using True by (simp add: fun_eq_iff pb_decoder_def ltypes)
  moreover have "decodes (pb_dec_submessage dec f q) (string_bytes (bytes f v)) (\<lambda>h. is_repeated f \<or> ready h f q)
      (\<lambda>h. sub h f q = v) (region q (width f) \<union> S)"
    by (rule decodes_submessage [OF _ nz g'(2)]) (rule s [OF True, unfolded sub_reads_def, rule_format, OF D g'(1)])
  ultimately show ?thesis using True v by (simp add: item_bytes_def item_value_def)
next
  case False
  then obtain bs where v: "v = Raw bs" using g by (auto simp: good_item_def split: pb_value.splits)
  have sf: "scalar_field f" "good_image f bs" using g f False v by (simp_all add: good_item_def)
  show ?thesis
    unfolding v item_bytes_def pb_value.case
    by (rule decodes_conseq [OF decodes_value [OF sf(1) a sf(2)]]) (use False in \<open>auto simp: item_value_def\<close>)
qed

subsection \<open>Sequences of records\<close>

text \<open>\<open>D l\<close> reads a record with label \<open>l\<close> and changes \<open>F l\<close>.\<close>

primrec chain :: "('l \<Rightarrow> 's pb_dec) \<Rightarrow> ('l \<Rightarrow> addr set) \<Rightarrow> (heap \<Rightarrow> bool) \<Rightarrow> ('l \<times> bytes) list \<Rightarrow> (heap \<Rightarrow> bool) \<Rightarrow> bool" where
  "chain D F A [] B \<longleftrightarrow> (\<forall>h. A h \<longrightarrow> B h)"
| "chain D F A (r # rs) B \<longleftrightarrow> (\<exists>M. decodes (D (fst r)) (snd r) A M (F (fst r)) \<and> chain D F M rs B)"

lemma chain_pre: "chain D F A rs B \<Longrightarrow> (\<And>h. A' h \<Longrightarrow> A h) \<Longrightarrow> chain D F A' rs B"
  by (cases rs) (auto intro: decodes_conseq)

lemma chain_append: "chain D F A rs B \<Longrightarrow> chain D F B ss C \<Longrightarrow> chain D F A (rs @ ss) C"
proof (induction rs arbitrary: A)
  case Nil
  then show ?case by (auto intro: chain_pre)
qed auto

lemma chain_frame:
  assumes "chain D F A rs B" "\<And>l h h'. l \<in> fst ` set rs \<Longrightarrow> Q h \<Longrightarrow> same_outside (F l) h h' \<Longrightarrow> Q h'"
  shows "chain D F (\<lambda>h. A h \<and> Q h) rs (\<lambda>h. B h \<and> Q h)"
  using assms
proof (induction rs arbitrary: A)
  case (Cons r rs)
  then obtain M where M: "decodes (D (fst r)) (snd r) A M (F (fst r))" "chain D F M rs B" by auto
  have "decodes (D (fst r)) (snd r) (\<lambda>h. A h \<and> Q h) (\<lambda>h. M h \<and> Q h) (F (fst r))"
    by (rule decodes_frame [OF M(1)]) (use Cons.prems(2) [of "fst r"] in auto)
  moreover have "chain D F (\<lambda>h. M h \<and> Q h) rs (\<lambda>h. B h \<and> Q h)"
    by (rule Cons.IH [OF M(2)]) (use Cons.prems(2) in auto)
  ultimately show ?case by auto
qed simp

subsection \<open>Arrays in memory\<close>

lemma nth_item_disjoint:
  assumes "i \<noteq> j" "i < unat (array_size f)" "j < unat (array_size f)" "unat (array_size f) * width f < 2 ^ 32"
  shows "region (nth_item f q i) (width f) \<inter> region (nth_item f q j) (width f) = {}"
proof -
  have b: "Suc k * width f \<le> unat (array_size f) * width f" if "k < unat (array_size f)" for k
    using that by (intro mult_le_mono1) simp
  have d: "region (nth_item f q a) (width f) \<inter> region (nth_item f q b) (width f) = {}" if "a < b" "b < unat (array_size f)" for a b
  proof -
    have "Suc a * width f \<le> b * width f" using that by (intro mult_le_mono1) simp
    then show ?thesis unfolding nth_item_def
      by (intro region_disjoint) (use b [OF that(2)] assms(4) in simp_all)
  qed
  from assms(1) consider "i < j" | "j < i" by linarith
  then show ?thesis by cases (use d [of i j] d [of j i] assms(2,3) in \<open>simp_all add: Int_commute\<close>)
qed

lemma item_at_nth:
  assumes "i < unat (array_size f)" "unat (array_size f) * width f < 2 ^ 32"
  shows "item_at q (data_size f) (word_of_nat i) = nth_item f q i"
proof -
  have "i * width f \<le> unat (array_size f) * width f" using assms(1) by (intro mult_le_mono1) simp
  then have n: "i * width f < 2 ^ 32" using assms(2) by (rule le_less_trans)
  have "data_size f * word_of_nat i = (word_of_nat (i * width f) :: u32)" by (simp add: mult.commute)
  from ucast_of_nat_small [where ?'a = 32, of "i * width f"] n
  have "(ucast (word_of_nat (i * width f) :: u32) :: addr) = word_of_nat (i * width f)" by simp
  then show ?thesis by (simp only: item_at_def nth_item_def \<open>data_size f * word_of_nat i = word_of_nat (i * width f)\<close>)
qed

text \<open>The first items of an array and its count.\<close>

definition array_state :: "(heap \<Rightarrow> pb_field \<Rightarrow> addr \<Rightarrow> pb_value) \<Rightarrow> pb_field \<Rightarrow> addr \<Rightarrow> addr \<Rightarrow> pb_value list \<Rightarrow> heap \<Rightarrow> bool" where
  "array_state sub f q s vs h \<longleftrightarrow>
     load_u32 h s = word_of_nat (length vs) \<and>
     (\<forall>i<length vs. item_value (sub h) f h (nth_item f q i) = vs ! i)"

lemma array_state_values:
  assumes "is_repeated f" "array_state sub f q s vs h" "length vs \<le> unat (array_size f)"
  shows "field_values (sub h) f h q s = vs"
proof -
  have "unat (array_size f) < 2 ^ 32" using unsigned_less [of "array_size f", where ?'a = nat] by simp
  then have "unat (load_u32 h s) = length vs" using assms(2,3) by (simp add: array_state_def unat_of_nat)
  with assms show ?thesis
    by (auto simp: field_values_def array_state_def htypes intro!: nth_equalityI)
qed

text \<open>Reading one more item, and counting it before or after.\<close>

lemma array_state_snoc:
  assumes st: "array_state sub f q s vs h" and len: "length vs < unat (array_size f)" and sz: "unat (array_size f) * width f < 2 ^ 32"
    and rep: "is_repeated f" and f: "scalar_field f \<or> is_sub f" and l: "is_sub f \<Longrightarrow> local_sub sub good f"
    and g: "list_all (good_item good bytes f) vs"
    and so: "same_outside (region (nth_item f q (length vs)) (width f) \<union> region s 4 \<union> S) h h'"
    and c: "load_u32 h' s = load_u32 h s + 1" and v: "item_value (sub h') f h' (nth_item f q (length vs)) = v"
    and dj: "region q (data_extent f) \<inter> region s 4 = {}" "region q (data_extent f) \<inter> S = {}"
  shows "array_state sub f q s (vs @ [v]) h'"
  unfolding array_state_def
proof (intro conjI allI impI)
  show "load_u32 h' s = word_of_nat (length (vs @ [v]))" using c st by (simp add: array_state_def)
  fix i assume i: "i < length (vs @ [v])"
  show "item_value (sub h') f h' (nth_item f q i) = (vs @ [v]) ! i"
  proof (cases "i = length vs")
    case False
    then have i: "i < length vs" using i by simp
    have n: "i < unat (array_size f)" using i len by simp
    have o: "item_value (sub h) f h (nth_item f q i) = vs ! i" using st i by (simp add: array_state_def)
    have "region (nth_item f q i) (width f) \<subseteq> region q (data_extent f)" by (rule nth_item_region [OF n rep])
    moreover have "region (nth_item f q i) (width f) \<inter> region (nth_item f q (length vs)) (width f) = {}"
      by (rule nth_item_disjoint [OF False n len sz])
    ultimately have "agree (region (nth_item f q i) (width f)) h h'"
      by (intro agree_outside [OF so]) (use dj in blast)
    from item_value_cong [OF f l _ this, where bytes = bytes] o i g show ?thesis
      by (simp add: nth_append list_all_length)
  qed (use v in simp)
qed

subsection \<open>Fields\<close>

lemma decode_static:
  assumes "static_field sf f" "cur iter = f"
  shows "decode_field env dec wt iter n st h = decode_static_field env dec wt iter n st h"
  using assms by (auto simp: decode_field_def static_field_def Let_def htypes atypes)

lemma decodes_required:
  assumes f: "static_field sf f" and i: "cur iter = f" "pData iter = q" and r: "is_required f"
    and s: "is_sub f \<Longrightarrow> sub_reads dec sub ready good bytes f D S" and D: "region q (data_extent f) \<subseteq> D"
    and g: "good_item good bytes f v"
  shows "decodes (decode_field env dec wt iter n) (item_bytes bytes f v) (\<lambda>h. field_ready (ready h) f h q s)
    (\<lambda>h. field_values (sub h) f h q s = [v]) (region q (width f) \<union> S)"
proof -
  have nr: "\<not> is_repeated f" "\<not> is_optional f" using r by (simp_all add: htypes)
  then have D': "region q (width f) \<subseteq> D" using D by (simp add: data_extent_def)
  have fs: "scalar_field f \<or> is_sub f \<and> fptr f \<noteq> 0" "PB_ATYPE (ftype f) = PB_ATYPE_STATIC" using f by (auto simp: static_field_def)
  have e: "decode_field env dec wt iter n = pb_decoder env dec f q"
    using r by (simp add: fun_eq_iff decode_static [OF f i(1)] decode_static_field_def i Let_def)
  show ?thesis unfolding e
    by (rule decodes_conseq [OF decodes_item [OF fs s D' g]]) (use nr r in \<open>simp_all add: field_ready_def field_values_def\<close>)
qed

lemma decodes_optional:
  assumes f: "static_field sf f" and i: "cur iter = f" "pData iter = q" "pSize iter = s" and r: "is_optional f" and ne: "s \<noteq> q"
    and sr: "is_sub f \<Longrightarrow> sub_reads dec sub ready good bytes f D S" and D: "region q (data_extent f) \<subseteq> D"
    and g: "good_item good bytes f v"
    and dj: "region q (data_extent f) \<inter> region s 1 = {}" "region s 1 \<inter> S = {}"
    and cong: "\<And>h h'. is_sub f \<Longrightarrow> ready h f q \<Longrightarrow> agree (region q (width f)) h h' \<Longrightarrow> ready h' f q"
  shows "decodes (decode_field env dec wt iter n) (item_bytes bytes f v) (\<lambda>h. field_ready (ready h) f h q s)
    (\<lambda>h. field_values (sub h) f h q s = [v]) (region q (width f) \<union> region s 1 \<union> S)"
proof (rule decodesI)
  fix st :: "'a pb_istream" and h r' assume wf: "wf_stream st" "content st = item_bytes bytes f v @ r'" and rd: "field_ready (ready h) f h q s"
  have nr: "\<not> is_repeated f" "\<not> is_required f" using r by (simp_all add: htypes)
  have D': "region q (width f) \<subseteq> D" and dj': "region q (width f) \<inter> region s 1 = {}" using D dj nr by (simp_all add: data_extent_def)
  have fs: "scalar_field f \<or> is_sub f \<and> fptr f \<noteq> 0" "PB_ATYPE (ftype f) = PB_ATYPE_STATIC" using f by (auto simp: static_field_def)
  let ?h1 = "store_bytes s [1] h"
  have so1: "same_outside (region s 1) h ?h1" by (rule same_outside_store) simp
  have rd1: "is_sub f \<longrightarrow> is_repeated f \<or> ready ?h1 f q"
    using rd cong [OF _ _ agree_outside [OF so1 dj']] nr by (simp add: field_ready_def)
  obtain h' where h': "pb_decoder env dec f q st ?h1 = Some (True, adv (length (item_bytes bytes f v)) st, h')"
    "item_value (sub h') f h' q = v" "same_outside (region q (width f) \<union> S) ?h1 h'"
    by (rule decodesE [OF decodes_item [OF fs sr D' g] wf rd1])
  have "agree (region s 1) ?h1 h'" by (rule agree_outside [OF h'(3)]) (use dj' dj(2) in blast)
  then have "safe_read_bool h' s" by (simp add: agree_bool) (simp add: safe_read_bool_def store_bytes_def)
  then have "field_values (sub h') f h' q s = [v]" using h'(2) nr r by (simp add: field_values_def)
  moreover have "decode_field env dec wt iter n st h = Some (True, adv (length (item_bytes bytes f v)) st, h')"
    using r ne nr h'(1) by (simp add: decode_static [OF f i(1)] decode_static_field_def i Let_def)
  moreover have "same_outside (region q (width f) \<union> region s 1 \<union> S) h h'"
    by (rule same_outside_trans [OF so1 h'(3)]) blast
  ultimately show "\<exists>h'. decode_field env dec wt iter n st h = Some (True, adv (length (item_bytes bytes f v)) st, h') \<and>
    field_values (sub h') f h' q s = [v] \<and> same_outside (region q (width f) \<union> region s 1 \<union> S) h h'" by blast
qed

lemma array_state_le: "length vs \<le> unat (array_size f) \<Longrightarrow> unat (word_of_nat (length vs) :: u32) = length vs"
proof -
  assume "length vs \<le> unat (array_size f)"
  moreover have "unat (array_size f) < 2 ^ 32" using unsigned_less [of "array_size f", where ?'a = nat] by simp
  ultimately show ?thesis by (simp add: unat_of_nat)
qed

lemma decodes_array_item:
  assumes f: "static_field sf f" and i: "cur iter = f" "pData iter = q" "pSize iter = s" and r: "is_repeated f" and np: "\<not> packable f"
    and sr: "is_sub f \<Longrightarrow> sub_reads dec sub ready good bytes f D S" and l: "is_sub f \<Longrightarrow> local_sub sub good f"
    and D: "region q (data_extent f) \<subseteq> D" and len: "length vs < unat (array_size f)"
    and g: "list_all (good_item good bytes f) vs" "good_item good bytes f v"
    and dj: "region q (data_extent f) \<inter> region s 4 = {}" "region q (data_extent f) \<inter> S = {}" "region s 4 \<inter> S = {}"
  shows "decodes (decode_field env dec wt iter n) (item_bytes bytes f v) (array_state sub f q s vs)
    (array_state sub f q s (vs @ [v])) (region q (data_extent f) \<union> region s 4 \<union> S)"
proof (rule decodesI)
  fix st :: "'a pb_istream" and h r' assume wf: "wf_stream st" "content st = item_bytes bytes f v @ r'" and st: "array_state sub f q s vs h"
  have fs: "scalar_field f \<or> is_sub f \<and> fptr f \<noteq> 0" "PB_ATYPE (ftype f) = PB_ATYPE_STATIC" and fs': "scalar_field f \<or> is_sub f"
    and sz: "unat (array_size f) * width f < 2 ^ 32" using f by (auto simp: static_field_def)
  let ?q = "nth_item f q (length vs)" and ?h1 = "store_u32 s (word_of_nat (length vs) + 1) h"
  have q: "region ?q (width f) \<subseteq> region q (data_extent f)" by (rule nth_item_region [OF len r])
  have u: "unat (word_of_nat (length vs) :: u32) = length vs" using len by (intro array_state_le [of _ f]) simp
  have guard: "\<not> word_of_nat (length vs) \<ge> array_size f" using len u by (simp add: word_le_nat_alt)
  have rd: "is_sub f \<longrightarrow> is_repeated f \<or> ready ?h1 f ?q" using r by simp
  have q': "region ?q (width f) \<subseteq> D" using q D by blast
  obtain h' where h': "pb_decoder env dec f ?q st ?h1 = Some (True, adv (length (item_bytes bytes f v)) st, h')"
    "item_value (sub h') f h' ?q = v" "same_outside (region ?q (width f) \<union> S) ?h1 h'"
    by (rule decodesE [OF decodes_item [OF fs sr q' g(2)] wf rd])
  have so1: "same_outside (region s 4) h ?h1" by (rule length_store_u32)
  have so: "same_outside (region ?q (width f) \<union> region s 4 \<union> S) h h'" by (rule same_outside_trans [OF so1 h'(3)]) blast
  have c0: "load_u32 h s = word_of_nat (length vs)" using st by (simp add: array_state_def)
  have "load_u32 h' s = load_u32 ?h1 s" by (rule agree_u32, rule agree_outside [OF h'(3)]) (use q dj in blast)
  then have c: "load_u32 h' s = load_u32 h s + 1" using c0 by (simp add: load_store_u32)
  have "array_state sub f q s (vs @ [v]) h'"
    by (rule array_state_snoc [OF st len sz r fs' l g(1) so c h'(2) dj(1,2)])
  moreover have "decode_field env dec wt iter n st h = Some (True, adv (length (item_bytes bytes f v)) st, h')"
    using r np guard h'(1) item_at_nth [OF len sz, of q]
    by (simp add: decode_static [OF f i(1)] decode_static_field_def i Let_def htypes is_packed_def c0)
  moreover have "same_outside (region q (data_extent f) \<union> region s 4 \<union> S) h h'"
    by (rule same_outside_mono [OF so]) (use q in blast)
  ultimately show "\<exists>h'. decode_field env dec wt iter n st h = Some (True, adv (length (item_bytes bytes f v)) st, h') \<and>
    array_state sub f q s (vs @ [v]) h' \<and> same_outside (region q (data_extent f) \<union> region s 4 \<union> S) h h'" by blast
qed

lemma item_bytes_nonempty:
  assumes "scalar_field f" "packable f" "good_item good bytes f v"
  shows "item_bytes bytes f v \<noteq> []"
  using assms by (auto elim!: scalar_cases simp: good_item_def item_bytes_def value_bytes_def good_image_def ltypes split: pb_value.splits)

lemma packed_loop_run:
  assumes f: "static_field sf f" and i: "cur iter = f" "pData iter = q" "pSize iter = s" and r: "is_repeated f" and pk: "packable f"
    and dj: "region q (data_extent f) \<inter> region s 4 = {}"
  shows "\<lbrakk>wf_stream st; content st = concat (map (item_bytes bytes f) ws); array_state sub f q s vs h;
      length vs + length ws \<le> unat (array_size f); list_all (good_item good bytes f) (vs @ ws); length ws < m\<rbrakk> \<Longrightarrow>
    \<exists>h'. packed_loop m (pb_decoder env dec f) iter st h = Some (True, adv (length (content st)) st, h') \<and>
      array_state sub f q s (vs @ ws) h' \<and> same_outside (region q (data_extent f) \<union> region s 4) h h'"
proof (induction ws arbitrary: m vs st h)
  case Nil
  then have "bytes_left st = 0" using length_stream_content [of st] by simp
  with Nil show ?case by (cases m) (auto simp: adv_0)
next
  case (Cons v ws)
  then obtain m' where m: "m = Suc m'" "length ws < m'" by (cases m) auto
  have nsub: "\<not> is_sub f" and sf: "scalar_field f" and at: "PB_ATYPE (ftype f) = PB_ATYPE_STATIC"
    and sz: "unat (array_size f) * width f < 2 ^ 32" using f pk by (auto simp: static_field_def ltypes)
  have len: "length vs < unat (array_size f)" using Cons.prems(4) by simp
  have g: "list_all (good_item good bytes f) vs" "good_item good bytes f v" using Cons.prems(5) by simp_all
  let ?q = "nth_item f q (length vs)" and ?x = "item_bytes bytes f v" and ?rest = "concat (map (item_bytes bytes f) ws)"
  have q: "region ?q (width f) \<subseteq> region q (data_extent f)" by (rule nth_item_region [OF len r])
  have cnt: "content st = ?x @ ?rest" using Cons.prems(2) by simp
  have "content st \<noteq> []" using cnt item_bytes_nonempty [OF sf pk g(2)] by simp
  then have ne: "0 < bytes_left st" using length_stream_content [OF Cons.prems(1)] by (cases "content st") auto
  have c0: "load_u32 h s = word_of_nat (length vs)" using Cons.prems(3) by (simp add: array_state_def)
  have u: "unat (word_of_nat (length vs) :: u32) = length vs" using len by (intro array_state_le [of _ f]) simp
  have lt: "load_u32 h s < array_size f" using c0 u len by (simp add: word_less_nat_alt)
  have "decodes (pb_decoder env dec f ?q) ?x (\<lambda>h. is_sub f \<longrightarrow> is_repeated f \<or> False) (\<lambda>h. item_value (sub h) f h ?q = v)
      (region ?q (width f) \<union> {})"
    by (rule decodes_item [where ready = "\<lambda>h f q. False", OF _ at _ subset_refl g(2)]) (use sf nsub in auto)
  from decodesE [OF this Cons.prems(1) cnt] nsub obtain h1 where
    h1: "pb_decoder env dec f ?q st h = Some (True, adv (length ?x) st, h1)" "item_value (sub h1) f h1 ?q = v"
    "same_outside (region ?q (width f)) h h1" by auto
  let ?h2 = "store_u32 s (load_u32 h1 s + 1) h1"
  have so12: "same_outside (region s 4) h1 ?h2" by (rule length_store_u32)
  have c1: "load_u32 h1 s = load_u32 h s" by (rule agree_u32, rule agree_outside [OF h1(3)]) (use q dj in blast)
  have so2: "same_outside (region ?q (width f) \<union> region s 4 \<union> {}) h ?h2" by (rule same_outside_trans [OF h1(3) so12]) simp
  have v2: "item_value (sub ?h2) f ?h2 ?q = v"
    using item_value_cong [where sub = sub and good = good and bytes = bytes and h = h1 and h' = ?h2 and q = ?q, OF disjI1 [OF sf]]
      nsub g(2) h1(2) agree_outside [OF so12, of "region ?q (width f)"] q dj by blast
  have st2: "array_state sub f q s (vs @ [v]) ?h2"
    by (rule array_state_snoc [where good = good and bytes = bytes, OF Cons.prems(3) len sz r disjI1 [OF sf] _ g(1) so2 _ v2 dj])
      (use nsub in \<open>simp_all add: load_store_u32 c1\<close>)
  have wf1: "wf_stream (adv (length ?x) st)" by (rule wf_stream_suffix [OF Cons.prems(1) cnt])
  have "\<exists>h'. packed_loop m' (pb_decoder env dec f) iter (adv (length ?x) st) ?h2 =
        Some (True, adv (length (content (adv (length ?x) st))) (adv (length ?x) st), h') \<and>
      array_state sub f q s ((vs @ [v]) @ ws) h' \<and> same_outside (region q (data_extent f) \<union> region s 4) ?h2 h'"
    by (rule Cons.IH [OF wf1 _ st2 _ _ m(2)]) (use cnt Cons.prems(4,5) in simp_all)
  then obtain h' where h': "packed_loop m' (pb_decoder env dec f) iter (adv (length ?x) st) ?h2 =
        Some (True, adv (length ?rest) (adv (length ?x) st), h')"
      "array_state sub f q s ((vs @ [v]) @ ws) h'" "same_outside (region q (data_extent f) \<union> region s 4) ?h2 h'"
    using cnt by auto
  have "packed_loop m (pb_decoder env dec f) iter st h = packed_loop m' (pb_decoder env dec f) iter (adv (length ?x) st) ?h2"
    unfolding m(1) packed_loop.simps(2) Let_def i c0 item_at_nth [OF len sz, of q] h1(1) pb_then_def option.case prod.case bool.case
    using ne lt c0 by simp
  moreover have "same_outside (region q (data_extent f) \<union> region s 4) h h'"
    by (rule same_outside_trans [OF so2 h'(3)]) (use q in blast)
  ultimately show ?case using h' cnt by (intro exI [of _ h']) simp
qed

lemma decodes_packed:
  assumes f: "static_field sf f" and i: "cur iter = f" "pData iter = q" "pSize iter = s" and r: "is_repeated f" and pk: "packable f"
    and dj: "region q (data_extent f) \<inter> region s 4 = {}"
    and g: "list_all (good_item good bytes f) vs" "length vs \<le> unat (array_size f)" "length (concat (map (item_bytes bytes f) vs)) < 2 ^ 32"
  shows "decodes (decode_field env dec PB_WT_STRING iter n) (string_bytes (concat (map (item_bytes bytes f) vs))) (array_state sub f q s [])
    (array_state sub f q s vs) (region q (data_extent f) \<union> region s 4)"
proof (rule decodesI)
  let ?xs = "concat (map (item_bytes bytes f) vs)"
  fix st :: "'a pb_istream" and h r' assume wf: "wf_stream st" "content st = string_bytes ?xs @ r'" and st: "array_state sub f q s [] h"
  have sf: "scalar_field f" using f pk by (auto simp: static_field_def ltypes)
  obtain ss st2 where ss: "pb_make_string_substream st = (Some ss, st2)" "wf_stream ss" "content ss = ?xs"
    "bytes_left ss = length ?xs" "pb_close_string_substream st2 (adv (length ?xs) ss) = (True, adv (length (string_bytes ?xs)) st)"
    by (rule substream_run [OF wf g(3)])
  have "length vs \<le> length ?xs" using g(1)
  proof (induction vs)
    case (Cons v vs)
    then have "item_bytes bytes f v \<noteq> []" using item_bytes_nonempty [OF sf pk, of good bytes v] by simp
    then have "1 \<le> length (item_bytes bytes f v)" by (simp add: Suc_leI)
    with Cons show ?case by simp
  qed simp
  then have m: "length vs < Suc (bytes_left ss)" using ss(4) by simp
  have "\<exists>h'. packed_loop (Suc (bytes_left ss)) (pb_decoder env dec f) iter ss h = Some (True, adv (length (content ss)) ss, h') \<and>
      array_state sub f q s ([] @ vs) h' \<and> same_outside (region q (data_extent f) \<union> region s 4) h h'"
    by (rule packed_loop_run [where good = good, OF f i r pk dj ss(2,3) st _ _ m]) (use g in simp_all)
  then obtain h' where h': "packed_loop (Suc (bytes_left ss)) (pb_decoder env dec f) iter ss h = Some (True, adv (length ?xs) ss, h')"
      "array_state sub f q s vs h'" "same_outside (region q (data_extent f) \<union> region s 4) h h'" using ss(3) by auto
  have "is_packed PB_WT_STRING (ftype f)" using pk by (simp add: is_packed_def)
  then have "decode_field env dec PB_WT_STRING iter n st h = Some (True, adv (length (string_bytes ?xs)) st, h')"
    using r ss h'(1) by (simp add: decode_static [OF f i(1)] decode_static_field_def i(1) Let_def htypes del: packed_loop.simps)
  with h' show "\<exists>h'. decode_field env dec PB_WT_STRING iter n st h = Some (True, adv (length (string_bytes ?xs)) st, h') \<and>
    array_state sub f q s vs h' \<and> same_outside (region q (data_extent f) \<union> region s 4) h h'" by blast
qed

lemma array_chain:
  assumes D: "D l = decode_field env dec wt iter n" and F: "region q (data_extent f) \<union> region s 4 \<union> S \<subseteq> F l"
    and item: "\<And>vs v. length vs < unat (array_size f) \<Longrightarrow> list_all (good_item good bytes f) vs \<Longrightarrow> good_item good bytes f v \<Longrightarrow>
      decodes (decode_field env dec wt iter n) (item_bytes bytes f v) (array_state sub f q s vs) (array_state sub f q s (vs @ [v]))
        (region q (data_extent f) \<union> region s 4 \<union> S)"
  shows "length vs + length ws \<le> unat (array_size f) \<Longrightarrow> list_all (good_item good bytes f) (vs @ ws) \<Longrightarrow>
    chain D F (array_state sub f q s vs) (map (\<lambda>v. (l, item_bytes bytes f v)) ws) (array_state sub f q s (vs @ ws))"
proof (induction ws arbitrary: vs)
  case (Cons w ws)
  have "decodes (D l) (item_bytes bytes f w) (array_state sub f q s vs) (array_state sub f q s (vs @ [w])) (F l)"
    unfolding D by (rule decodes_conseq [OF item _ _ F]) (use Cons.prems in simp_all)
  moreover have "chain D F (array_state sub f q s (vs @ [w])) (map (\<lambda>v. (l, item_bytes bytes f v)) ws) (array_state sub f q s ((vs @ [w]) @ ws))"
    by (rule Cons.IH) (use Cons.prems in simp_all)
  ultimately show ?case by auto
qed simp

lemma field_chain:
  assumes f: "static_field sf f" and i: "cur iter = f" "pData iter = q" "pSize iter = s"
    and D: "\<And>wt. D (k, wt) = decode_field env dec wt iter n"
    and F: "\<And>wt. F (k, wt) = region q (data_extent f) \<union> region s (flag_extent f) \<union> S"
    and sr: "is_sub f \<Longrightarrow> sub_reads dec sub ready good bytes f (region q (data_extent f)) S" and l: "is_sub f \<Longrightarrow> local_sub sub good f"
    and dj: "region q (data_extent f) \<inter> region s (flag_extent f) = {}" "region q (data_extent f) \<inter> S = {}" "region s (flag_extent f) \<inter> S = {}"
    and cong: "\<And>h h'. is_sub f \<Longrightarrow> ready h f q \<Longrightarrow> agree (region q (width f)) h h' \<Longrightarrow> ready h' f q"
    and g: "good_values good bytes f vs"
  shows "chain D F (\<lambda>h. field_ready (ready h) f h q s) (map (\<lambda>r. ((k, fst r), snd r)) (field_records bytes f vs))
    (\<lambda>h. field_values (sub h) f h q s = vs)"
proof -
  have ht: "is_required f \<or> is_optional f \<or> is_repeated f" and w: "0 < width f" using f by (auto simp: static_field_def)
  have gi: "list_all (good_item good bytes f) vs" using g by (simp add: good_values_def)
  consider (req) "is_required f" | (opt) "is_optional f" | (rep) "is_repeated f" using ht by blast
  then show ?thesis
  proof cases
    case req
    then have nr: "\<not> is_repeated f" "\<not> is_optional f" "data_extent f = width f" by (simp_all add: htypes data_extent_def)
    then obtain v where vs: "vs = [v]" using g by (cases vs) (auto simp: good_values_def req)
    have "decodes (D (k, field_wt f)) (item_bytes bytes f v) (\<lambda>h. field_ready (ready h) f h q s) (\<lambda>h. field_values (sub h) f h q s = [v]) (F (k, field_wt f))"
      unfolding D F
      by (rule decodes_conseq [OF decodes_required [OF f i(1,2) req sr subset_refl]]) (use gi vs nr in auto)
    then show ?thesis using nr unfolding vs by (auto simp: field_records_def)
  next
    case opt
    then have nr: "\<not> is_repeated f" "\<not> is_required f" "data_extent f = width f" "flag_extent f = 1"
      by (simp_all add: htypes data_extent_def flag_extent_def)
    have "q \<in> region q (width f)" "s \<in> region s 1" using w by (auto simp: region_def intro!: image_eqI [of _ _ 0])
    with dj(1) nr have ne: "s \<noteq> q" by auto
    show ?thesis
    proof (cases vs)
      case Nil
      then show ?thesis using opt nr by (auto simp: field_records_def field_ready_def field_values_def)
    next
      case (Cons v vs')
      then have vs: "vs = [v]" using g nr opt by (auto simp: good_values_def)
      have "decodes (D (k, field_wt f)) (item_bytes bytes f v) (\<lambda>h. field_ready (ready h) f h q s) (\<lambda>h. field_values (sub h) f h q s = [v]) (F (k, field_wt f))"
        unfolding D F nr
        by (rule decodes_optional [OF f i opt ne sr subset_refl _ _ _ cong, unfolded nr]) (use gi vs nr dj in simp_all)
      then show ?thesis using nr unfolding vs by (auto simp: field_records_def)
    qed
  next
    case rep
    then have nr: "\<not> is_required f" "\<not> is_optional f" "flag_extent f = 4" by (simp_all add: htypes flag_extent_def)
    have len: "length vs \<le> unat (array_size f)" "length (concat (map (item_bytes bytes f) vs)) < 2 ^ 32"
      using g nr by (simp_all add: good_values_def)
    have pre: "field_ready (ready h) f h q s \<Longrightarrow> array_state sub f q s [] h" for h
      using rep by (simp add: field_ready_def array_state_def)
    have post: "array_state sub f q s vs h \<Longrightarrow> field_values (sub h) f h q s = vs" for h
      by (rule array_state_values [OF rep _ len(1)])
    show ?thesis
    proof (cases "packable f")
      case True
      show ?thesis
      proof (cases "vs = []")
        case True
        then show ?thesis using pre post rep by (auto simp: field_records_def)
      next
        case False
        have "decodes (D (k, PB_WT_STRING)) (string_bytes (concat (map (item_bytes bytes f) vs))) (\<lambda>h. field_ready (ready h) f h q s)
            (\<lambda>h. field_values (sub h) f h q s = vs) (F (k, PB_WT_STRING))"
          unfolding D F nr
          by (rule decodes_conseq [OF decodes_packed [OF f i rep \<open>packable f\<close> dj(1) [unfolded nr] gi len] pre post]) auto
        then show ?thesis using rep True False by (auto simp: field_records_def)
      qed
    next
      case False
      have "chain D F (array_state sub f q s []) (map (\<lambda>v. ((k, field_wt f), item_bytes bytes f v)) vs) (array_state sub f q s ([] @ vs))"
      proof (rule array_chain [where good = good and S = S and wt = "field_wt f" and iter = iter and n = n and dec = dec and env = env])
        show "D (k, field_wt f) = decode_field env dec (field_wt f) iter n" by (rule D)
        show "region q (data_extent f) \<union> region s 4 \<union> S \<subseteq> F (k, field_wt f)" using F nr by simp
        show "decodes (decode_field env dec (field_wt f) iter n) (item_bytes bytes f v) (array_state sub f q s vs) (array_state sub f q s (vs @ [v]))
            (region q (data_extent f) \<union> region s 4 \<union> S)"
          if "length vs < unat (array_size f)" "list_all (good_item good bytes f) vs" "good_item good bytes f v" for vs v
          by (rule decodes_array_item [OF f i rep False sr l subset_refl that]) (use dj nr in simp_all)
      qed (use len gi in simp_all)
      then have "chain D F (\<lambda>h. field_ready (ready h) f h q s) (map (\<lambda>v. ((k, field_wt f), item_bytes bytes f v)) vs) (array_state sub f q s vs)"
        using pre by (auto elim: chain_pre)
      then have "chain D F (\<lambda>h. field_ready (ready h) f h q s) (map (\<lambda>v. ((k, field_wt f), item_bytes bytes f v)) vs @ []) (\<lambda>h. field_values (sub h) f h q s = vs)"
        by (rule chain_append) (use post in simp)
      then show ?thesis using False by (simp add: field_records_def comp_def)
    qed
  qed
qed

text \<open>All fields one after the other.\<close>

lemma fields_chain:
  assumes one: "\<And>k. k < N \<Longrightarrow> chain D F (P k) (rs k) (Q k)" "\<And>k l. k < N \<Longrightarrow> l \<in> fst ` set (rs k) \<Longrightarrow> fst l = k"
    and stable: "\<And>j l h h'. j < N \<Longrightarrow> fst l < N \<Longrightarrow> fst l \<noteq> j \<Longrightarrow> P j h \<Longrightarrow> same_outside (F l) h h' \<Longrightarrow> P j h'"
      "\<And>j l h h'. j < N \<Longrightarrow> fst l < N \<Longrightarrow> fst l \<noteq> j \<Longrightarrow> Q j h \<Longrightarrow> same_outside (F l) h h' \<Longrightarrow> Q j h'"
  shows "n \<le> N \<Longrightarrow> chain D F (\<lambda>h. \<forall>j<N. P j h) (concat (map rs [0..<n])) (\<lambda>h. (\<forall>j<n. Q j h) \<and> (\<forall>j. n \<le> j \<and> j < N \<longrightarrow> P j h))"
proof (induction n)
  case (Suc n)
  let ?R = "\<lambda>h. (\<forall>j<n. Q j h) \<and> (\<forall>j. Suc n \<le> j \<and> j < N \<longrightarrow> P j h)"
  have n: "n < N" using Suc.prems by simp
  have "chain D F (\<lambda>h. P n h \<and> ?R h) (rs n) (\<lambda>h. Q n h \<and> ?R h)"
  proof (rule chain_frame [OF one(1) [OF n]])
    fix l h h' assume l: "l \<in> fst ` set (rs n)" and R: "?R h" and so: "same_outside (F l) h h'"
    have ln: "fst l = n" by (rule one(2) [OF n l])
    show "?R h'" using R stable [OF _ _ _ _ so] n ln by (metis Suc_le_eq less_le_trans less_imp_le nat_neq_iff)
  qed
  then have "chain D F (\<lambda>h. (\<forall>j<n. Q j h) \<and> (\<forall>j. n \<le> j \<and> j < N \<longrightarrow> P j h)) (rs n) (\<lambda>h. Q n h \<and> ?R h)"
    by (rule chain_pre) (use n in auto)
  from chain_append [OF Suc.IH this]
  have "chain D F (\<lambda>h. \<forall>j<N. P j h) (concat (map rs [0..<n]) @ rs n) (\<lambda>h. Q n h \<and> ?R h)" using n by simp
  then have "chain D F (\<lambda>h. \<forall>j<N. P j h) ((concat (map rs [0..<n]) @ rs n) @ []) (\<lambda>h. (\<forall>j<Suc n. Q j h) \<and> (\<forall>j. Suc n \<le> j \<and> j < N \<longrightarrow> P j h))"
    by (rule chain_append) (auto simp: less_Suc_eq)
  then show ?case by simp
qed simp

end
