(* ===== verification/Pb_Loop.thy ===== *)
theory Pb_Loop
  imports Pb_Read
begin

text \<open>
  nanopb: the loop of \<open>pb_decode_noinit\<close> over the records of a message, and the check that the required
  fields were there.
\<close>

unbundle bit_operations_syntax

subsection \<open>Required fields\<close>

definition required_before :: "pb_field list \<Rightarrow> nat \<Rightarrow> nat" where
  "required_before flds k = length (filter (\<lambda>i. is_required (flds ! i)) [0..<k])"

lemma required_before_simps [simp]: "required_before flds 0 = 0"
  "required_before flds (Suc k) = required_before flds k + (if is_required (flds ! k) then 1 else 0)"
  by (simp_all add: required_before_def)

lemma required_index:
  assumes wf: "wf_fields flds" and no: "\<And>i. i < nfields flds \<Longrightarrow> PB_HTYPE (ftype (flds ! i)) \<noteq> PB_HTYPE_ONEOF"
  shows "k < nfields flds \<Longrightarrow> required_field_index (iter_at flds p k) = required_before flds k"
proof (induction k)
  case 0
  show ?case by (simp add: iter_at.simps pb_field_iter_begin_def Let_def)
next
  case (Suc k)
  then have k: "k < nfields flds" by simp
  have pk: "pos (iter_at flds p k) = k" using wf k by (simp add: iter_at_pos)
  have "ftag (flds ! k) \<noteq> 0" "ftag (flds ! Suc k) \<noteq> 0"
    using wf_fields_tag [OF wf, of k] wf_fields_tag [OF wf, of "Suc k"] Suc.prems by auto
  then show ?case using Suc.IH [OF k] no [OF k]
    by (simp add: iter_at.simps pb_field_iter_next_def Let_def cur_def pk)
qed

lemma required_before_mono: "j \<le> k \<Longrightarrow> required_before flds j \<le> required_before flds k"
  by (induction rule: dec_induct) auto

lemma required_before_less: "k < n \<Longrightarrow> is_required (flds ! k) \<Longrightarrow> required_before flds k < required_before flds n"
  using required_before_mono [of "Suc k" n flds] by simp

lemma required_before_onto: "i < required_before flds n \<Longrightarrow> \<exists>k<n. is_required (flds ! k) \<and> required_before flds k = i"
proof (induction n)
  case (Suc n)
  show ?case
  proof (cases "i < required_before flds n")
    case True
    with Suc.IH show ?thesis by (auto intro: less_SucI)
  next
    case False
    then have "is_required (flds ! n)" "i = required_before flds n" using Suc.prems by (auto split: if_splits)
    then show ?thesis by (intro exI [of _ n]) simp
  qed
qed simp

text \<open>The bits of \<open>fields_seen\<close>.\<close>

definition seen_set :: "nat set \<Rightarrow> pb_locals \<Rightarrow> bool" where
  "seen_set S l \<longleftrightarrow> length (fields_seen l) = 2 \<and> (\<forall>i<64. bit (fields_seen l ! (i div 32)) (i mod 32) \<longleftrightarrow> i \<in> S)"

lemma bit_note: "k < 32 \<Longrightarrow> bit (push_bit k (1 :: u32)) n \<longleftrightarrow> n = k"
  unfolding push_bit_of_1 by (auto simp: bit_exp_iff)

lemma seen_note:
  assumes "seen_set S l"
  shows "seen_set (S \<union> (if is_required (cur (it l)) then {required_field_index (it l)} else {})) (note_required l)"
proof -
  define i where "i = required_field_index (it l)"
  show ?thesis
  proof (cases "is_required (cur (it l)) \<and> i < 64")
    case True
    let ?seen = "fields_seen l"
    have len: "length ?seen = 2" using assms by (simp add: seen_set_def)
    have bits: "bit ((?seen[i div 32 := ?seen ! (i div 32) OR push_bit (i mod 32) 1]) ! (j div 32)) (j mod 32) \<longleftrightarrow> j \<in> S \<or> j = i"
      if j: "j < 64" for j
    proof (cases "j div 32 = i div 32")
      case same: True
      have "i < 2 * 32" using True by simp
      then have "i div 32 < 2" by (rule less_mult_imp_div_less)
      then have "bit ((?seen[i div 32 := ?seen ! (i div 32) OR push_bit (i mod 32) 1]) ! (j div 32)) (j mod 32) \<longleftrightarrow>
          bit (?seen ! (j div 32)) (j mod 32) \<or> j mod 32 = i mod 32"
        using same len by (simp only: nth_list_update_eq bit_or_iff) (simp only: bit_note mod_less_divisor zero_less_numeral)
      moreover have "j mod 32 = i mod 32 \<longleftrightarrow> j = i" using same by (metis div_mult_mod_eq)
      ultimately show ?thesis using assms j by (simp add: seen_set_def)
    next
      case False
      then have "j \<noteq> i" by auto
      then show ?thesis using False assms j by (simp add: seen_set_def)
    qed
    show ?thesis using True bits len by (auto simp: seen_set_def note_required_def i_def [symmetric] Let_def)
  next
    case False
    then have "note_required l = l" by (auto simp: note_required_def i_def Let_def)
    then show ?thesis using assms False by (auto simp: seen_set_def i_def)
  qed
qed

lemma all_seen:
  assumes s: "seen_set {..<R} l" shows "all_required_seen (fields_seen l) (min 64 R)"
proof -
  have bits: "bit (fields_seen l ! (i div 32)) (i mod 32) \<longleftrightarrow> i < R" if "i < 64" for i
    using s that by (simp add: seen_set_def)
  have "fields_seen l ! w = - 1" if w: "w < min 64 R div 32" for w
  proof (rule bit_word_eqI)
    fix n assume n: "n < LENGTH(32)"
    have "32 * Suc w \<le> 32 * (min 64 R div 32)" using w by (intro mult_le_mono2) simp
    also have "\<dots> \<le> min 64 R" by (rule times_div_less_eq_dividend)
    finally have "32 * w + n < min 64 R" using n by simp
    then show "bit (fields_seen l ! w) n = bit (- 1 :: u32) n" using bits [of "32 * w + n"] n by (simp add: bit_minus_1_iff)
  qed
  moreover have "fields_seen l ! (min 64 R div 32) = drop_bit (32 - min 64 R mod 32) (- 1)" if m: "min 64 R mod 32 \<noteq> 0"
  proof (rule bit_word_eqI)
    fix n assume n: "n < LENGTH(32)"
    let ?w = "min 64 R div 32"
    have R: "min 64 R = R" using m by (cases "R \<le> 64") auto
    then have r: "R < 64" using m by (metis min.cobounded1 nat_less_le mod_self dvd_imp_mod_0 numeral_Bit0 mult_2 mod_mult_self2_is_0)
    have "R div 32 < 2" using r by (intro less_mult_imp_div_less) simp
    moreover have "n < 32" using n by simp
    ultimately have i: "32 * ?w + n < 64" unfolding R by linarith
    have "bit (fields_seen l ! ?w) n \<longleftrightarrow> 32 * ?w + n < R" using bits [OF i] n by simp
    also have "\<dots> \<longleftrightarrow> n < R mod 32" using R by (metis add_less_cancel_left mult_div_mod_eq)
    also have "\<dots> \<longleftrightarrow> bit (drop_bit (32 - min 64 R mod 32) (- 1 :: u32)) n"
      using n R by (simp add: bit_mask_iff)
    finally show "bit (fields_seen l ! ?w) n = bit (drop_bit (32 - min 64 R mod 32) (- 1 :: u32)) n" .
  qed
  ultimately show ?thesis by (simp add: all_required_seen_def)
qed

lemma required_loop_end:
  assumes wf: "wf_fields flds"
  shows "k < nfields flds \<Longrightarrow> nfields flds - k \<le> m \<Longrightarrow>
    required_loop m (iter_at flds p k) =
      (required_field_index (iter_at flds p (nfields flds - 1)), ftype (flds ! (nfields flds - 1)), iter_at flds p 0)"
proof (induction m arbitrary: k)
  case (Suc m)
  note next' = iter_next_at [OF wf Suc.prems(1), of p]
  show ?case
  proof (cases "Suc k < nfields flds")
    case True
    have "nfields flds - Suc k \<le> m" using Suc.prems(2) by simp
    from Suc.IH [OF True this] next' True show ?thesis by simp
  next
    case False
    then have "k = nfields flds - 1" using Suc.prems(1) by simp
    with next' False wf Suc.prems(1) show ?thesis by (simp add: cur_iter_at)
  qed
qed simp

lemma required_count_all:
  assumes wf: "wf_fields flds" and no: "\<And>i. i < nfields flds \<Longrightarrow> PB_HTYPE (ftype (flds ! i)) \<noteq> PB_HTYPE_ONEOF" and k: "k < nfields flds"
  shows "required_count (iter_at flds p k) = min 64 (required_before flds (nfields flds))"
proof -
  let ?n = "nfields flds - 1"
  have n: "?n < nfields flds" "nfields flds = Suc ?n" using k by simp_all
  have t: "ftag (cur (iter_at flds p 0)) \<noteq> 0" using wf_fields_tag [OF wf, of 0] wf_fields_length [OF wf] wf k by (simp add: cur_iter_at)
  have l: "required_loop (length flds) (iter_at flds p k) = (required_before flds ?n, ftype (flds ! ?n), iter_at flds p 0)"
    using required_loop_end [OF wf k, of "length flds" p] required_index [OF wf no n(1), of p] by simp
  have "required_before flds (nfields flds) = required_before flds ?n + (if is_required (flds ! ?n) then 1 else 0)"
    by (subst n(2)) (rule required_before_simps(2))
  then show ?thesis unfolding required_count_def iter_at_start l prod.case Let_def using t by simp
qed

subsection \<open>The loop\<close>

text \<open>
  A label is the index of a field and the wire type of a record of it. Between the records of a message
  the iterator is at one of the fields, and \<open>fields_seen\<close> holds the required fields that were read.
\<close>

type_synonym label = "nat \<times> u32"

definition labelled_bytes :: "pb_field list \<Rightarrow> (label \<times> bytes) list \<Rightarrow> bytes" where
  "labelled_bytes flds rs = concat (map (\<lambda>r. record_bytes (flds ! fst (fst r)) (snd (fst r), snd r)) rs)"

definition noted :: "pb_field list \<Rightarrow> nat \<Rightarrow> nat set" where
  "noted flds k = (if is_required (flds ! k) then {required_before flds k} else {})"

definition loop_inv :: "pb_field list \<Rightarrow> addr \<Rightarrow> nat set \<Rightarrow> pb_locals \<Rightarrow> bool" where
  "loop_inv flds p S l \<longleftrightarrow>
     (\<exists>j<nfields flds. it l = iter_at flds p j) \<and> fixed_count_field l = None \<and> seen_set S l"

lemma scast_nonzero: "x \<noteq> 0 \<Longrightarrow> (scast (x :: u32) :: addr) \<noteq> 0"
proof
  assume "x \<noteq> 0" and z: "(scast x :: addr) = 0"
  have "bit x n \<longleftrightarrow> bit (0 :: u32) n" if n: "n < 32" for n
  proof -
    have "bit (scast x :: addr) n \<longleftrightarrow> bit x n" using n by (simp add: bit_signed_iff)
    then show ?thesis using z by simp
  qed
  then have "x = 0" by (intro bit_word_eqI) simp
  with \<open>x \<noteq> 0\<close> show False ..
qed

lemma static_find:
  assumes sm: "static_message (Suc d) env flds sz" and k: "k < nfields flds" and j: "j < nfields flds"
  shows "pb_field_iter_find (ftag (flds ! k)) (iter_at flds p j) = (True, iter_at flds p k)"
proof (rule pb_field_iter_find_unique)
  note s = static_messageD [OF sm]
  show "wf_fields flds" by (rule s)
  show "matches flds (ftag (flds ! k)) k" using s(3) [OF k] by (auto simp: matches_def static_field_def ltypes elim!: scalar_cases)
  fix i assume "i < nfields flds" "matches flds (ftag (flds ! k)) i"
  moreover have "nfields flds \<le> length flds" by simp
  ultimately show "i = k" using nth_eq_iff_index_eq [OF s(2), of i k] k by (simp add: matches_def)
qed (use k j in simp_all)

lemma static_not_fixed_count:
  assumes sm: "static_message (Suc d) env flds sz" and k: "k < nfields flds" and i: "it l = iter_at flds p k"
  shows "note_fixed_count slot l h = Some (l, h)"
proof -
  note s = static_messageD [OF sm]
  have c: "cur (iter_at flds p k) = flds ! k" by (rule cur_iter_at [OF s(1)]) (use k in simp)
  have "pSize (it l) \<noteq> pData (it l)" if "is_repeated (flds ! k)"
  proof -
    have "size_offset (flds ! k) \<noteq> 0" using s(3) [OF k] that by (auto simp: static_field_def htypes)
    from scast_nonzero [OF this] show ?thesis using pSize_pData [OF s(1) k s(5)] iter_at_shift [of flds p k] i by simp
  qed
  then show ?thesis by (auto simp: note_fixed_count_def Let_def i c)
qed

lemma decode_pass_record:
  assumes sm: "static_message (Suc d) env flds sz" and k: "k < nfields flds" and wt: "unat wt < 8"
    and dec: "decodes (decode_field env dec wt (iter_at flds p k) n) xs A M F"
    and inv: "loop_inv flds p S l" and wf: "wf_stream st" and c: "content st = record_bytes (flds ! k) (wt, xs) @ r" and A: "A h"
  shows "\<exists>l' h'. decode_pass env dec n slot l st h = Some (Next, l', adv (length (record_bytes (flds ! k) (wt, xs))) st, h') \<and>
    loop_inv flds p (S \<union> noted flds k) l' \<and> M h' \<and> same_outside F h h'"
proof -
  note s = static_messageD [OF sm]
  let ?f = "flds ! k" and ?t = "tag_bytes wt (ftag (flds ! k))"
  obtain j where j: "j < nfields flds" "it l = iter_at flds p j" using inv by (auto simp: loop_inv_def)
  let ?l = "l\<lparr>it := iter_at flds p k\<rparr>"
  have cu: "cur (iter_at flds p k) = ?f" by (rule cur_iter_at [OF s(1)]) (use k in simp)
  have tag: "0 < unat (ftag ?f)" "unat (ftag ?f) < 2 ^ 29" using s(3) [OF k] by (simp_all add: static_field_def)
  have c1: "content st = ?t @ xs @ r" using c by (simp add: record_bytes_def)
  have t: "pb_decode_tag st = (Some (wt, ftag ?f), False, adv (length ?t) st)" by (rule pb_decode_tag_buf [OF wf c1 wt tag])
  have fc: "note_fixed_count slot ?l h = Some (?l, h)" by (rule static_not_fixed_count [OF sm k]) simp
  have it: "it (note_required ?l) = iter_at flds p k" by (simp add: note_required_def Let_def)
  have c2: "content (adv (length ?t) st) = xs @ r" using c1 by simp
  from decodesE [OF dec wf_stream_suffix [OF wf c1] c2 A] obtain h' where
    h': "decode_field env dec wt (iter_at flds p k) n (adv (length ?t) st) h = Some (True, adv (length xs) (adv (length ?t) st), h')"
      "M h'" "same_outside F h h'" .
  have "seen_set S ?l" using inv by (simp add: loop_inv_def seen_set_def)
  from seen_note [OF this] have "seen_set (S \<union> noted flds k) (note_required ?l)"
    using required_index [OF s(1) s(5) k, of p] by (simp add: noted_def cu split: if_splits)
  then have "loop_inv flds p (S \<union> noted flds k) (note_required ?l)"
    using inv k it by (auto simp: loop_inv_def note_required_def Let_def)
  moreover have "decode_pass env dec n slot l st h = Some (Next, note_required ?l, adv (length (record_bytes ?f (wt, xs))) st, h')"
    unfolding decode_pass_def t prod.case option.case j(2) static_find [OF sm k j(1)] bool.case fc Let_def it h'(1)
    by (simp add: record_bytes_def add.commute)
  ultimately show ?thesis using h'(2,3) by blast
qed

lemma message_loop_run:
  assumes sm: "static_message (Suc d) env flds sz"
    and D: "\<And>k wt. D (k, wt) = decode_field env dec wt (iter_at flds p k) n"
  shows "chain D F A rs B \<Longrightarrow> (\<And>k wt. (k, wt) \<in> fst ` set rs \<Longrightarrow> k < nfields flds \<and> unat wt < 8) \<Longrightarrow>
    loop_inv flds p S l \<Longrightarrow> wf_stream st \<Longrightarrow> content st = labelled_bytes flds rs \<Longrightarrow> A h \<Longrightarrow> bytes_left st < m \<Longrightarrow>
    \<exists>l' h'. message_loop m env dec n slot l st h = Some (Stop, l', adv (length (labelled_bytes flds rs)) st, h') \<and>
      loop_inv flds p (S \<union> (\<Union>x\<in>fst ` set rs. noted flds (fst x))) l' \<and> B h' \<and> same_outside (\<Union>x\<in>fst ` set rs. F x) h h'"
proof (induction rs arbitrary: A S l st h m)
  case Nil
  then obtain m' where m: "m = Suc m'" by (cases m) auto
  have "bytes_left st = 0" using Nil.prems(4,5) length_stream_content [of st] by (simp add: labelled_bytes_def)
  then show ?case using Nil.prems by (auto simp: m labelled_bytes_def adv_0)
next
  case (Cons r rs)
  obtain k wt xs where r: "r = ((k, wt), xs)" by (metis surj_pair)
  obtain M where M: "decodes (decode_field env dec wt (iter_at flds p k) n) xs A M (F (k, wt))" "chain D F M rs B"
    using Cons.prems(1) D by (auto simp: r)
  let ?x = "record_bytes (flds ! k) (wt, xs)"
  obtain m' where m: "m = Suc m'" "bytes_left st \<le> m'" using Cons.prems(7) by (cases m) auto
  have kw: "k < nfields flds" "unat wt < 8" using Cons.prems(2) [of k wt] by (simp_all add: r)
  have c: "content st = ?x @ labelled_bytes flds rs" using Cons.prems(5) by (simp add: r labelled_bytes_def)
  have ne: "0 < length ?x" by (simp add: record_bytes_def tag_bytes_def)
  have left: "bytes_left st = length ?x + length (labelled_bytes flds rs)" using length_stream_content [OF Cons.prems(4)] c by simp
  obtain l1 h1 where 1: "decode_pass env dec n slot l st h = Some (Next, l1, adv (length ?x) st, h1)"
      "loop_inv flds p (S \<union> noted flds k) l1" "M h1" "same_outside (F (k, wt)) h h1"
    using decode_pass_record [OF sm kw M(1) Cons.prems(3,4) c Cons.prems(6)] by blast
  have ok: "wf_stream (adv (length ?x) st)" "content (adv (length ?x) st) = labelled_bytes flds rs"
      "bytes_left st - length ?x < m'"
    using wf_stream_suffix [OF Cons.prems(4) c] c left m(2) ne by (simp, simp, linarith)
  have fuel: "bytes_left (adv (length ?x) st) < m'" using ok(3) by (simp only: adv_simps)
  obtain l2 h2 where 2: "message_loop m' env dec n slot l1 (adv (length ?x) st) h1 =
        Some (Stop, l2, adv (length (labelled_bytes flds rs)) (adv (length ?x) st), h2)"
      "loop_inv flds p (S \<union> noted flds k \<union> (\<Union>x\<in>fst ` set rs. noted flds (fst x))) l2" "B h2"
      "same_outside (\<Union>x\<in>fst ` set rs. F x) h1 h2"
    using Cons.IH [OF M(2) _ 1(2) ok(1,2) 1(3) fuel] Cons.prems(2) by fastforce
  have "bytes_left st \<noteq> 0" using left ne by simp
  then have "message_loop m env dec n slot l st h = Some (Stop, l2, adv (length (labelled_bytes flds (r # rs))) st, h2)"
    by (simp add: m(1) 1(1) 2(1)) (simp add: r labelled_bytes_def)
  moreover have "same_outside (\<Union>x\<in>fst ` set (r # rs). F x) h h2"
    by (rule same_outside_trans [OF 1(4) 2(4)]) (simp add: r)
  moreover have "S \<union> (\<Union>x\<in>fst ` set (r # rs). noted flds (fst x)) = S \<union> noted flds k \<union> (\<Union>x\<in>fst ` set rs. noted flds (fst x))"
    by (simp add: r Un_assoc)
  ultimately show ?case using 2(2,3) by (metis (no_types, lifting))
qed

end
