(* ===== verification/Pb_Roundtrip.thy ===== *)
theory Pb_Roundtrip
  imports Pb_Write Pb_Loop
begin

text \<open>
  nanopb: the decoder of messages against the encoding of a tree, by induction on the depth of the
  descriptor, and the round trip: memory that was encoded and decoded elsewhere means the same.
\<close>

unbundle bit_operations_syntax

text \<open>The memory of the local variables whose address is taken, on the levels below \<open>n\<close>.\<close>

definition slots :: "'s pb_env \<Rightarrow> nat \<Rightarrow> addr set" where
  "slots env n = (\<Union>m<n. region (local_addr env m) 4)"

lemma slots_Suc: "slots env (Suc n) = slots env n \<union> region (local_addr env n) 4"
  by (auto simp: slots_def less_Suc_eq)

lemma decode_with_reads:
  assumes sm: "static_message d env flds sz" "d \<le> n"
    and r: "reads_all (noinit flds p) xs (\<lambda>h. message_ready d env flds h p) B (region p sz \<union> S)"
  shows "reads_all (decode_with n env noinit flds p) xs (\<lambda>h. True) B (region p sz \<union> S)"
  unfolding reads_all_def
proof (intro allI impI)
  fix st :: "'a pb_istream" and h assume st: "wf_stream st" "content st = xs"
  obtain h1 where h1: "pb_message_set_to_defaults n env flds p h = Some h1" "message_ready d env flds h1 p" "same_outside (region p sz) h h1"
    using set_defaults_ready [OF sm] by blast
  obtain h2 where h2: "noinit flds p st h1 = Some (True, adv (length xs) st, h2)" "B h2" "same_outside (region p sz \<union> S) h1 h2"
    by (rule reads_allE [OF r st h1(2)])
  have "same_outside (region p sz \<union> S) h h2" by (rule same_outside_trans [OF h1(3) h2(3)]) simp
  with h1(1) h2(1,2) show "\<exists>h'. decode_with n env noinit flds p st h = Some (True, adv (length xs) st, h') \<and> B h' \<and>
    same_outside (region p sz \<union> S) h h'" by (simp add: decode_with_def)
qed

subsection \<open>The records of a message\<close>

definition message_records :: "nat \<Rightarrow> 's pb_env \<Rightarrow> pb_field list \<Rightarrow> pb_value list list \<Rightarrow> nat \<Rightarrow> (label \<times> bytes) list" where
  "message_records d env flds vss k =
     map (\<lambda>r. ((k, fst r), snd r)) (field_records (\<lambda>f. message_bytes d env (desc env (fptr f))) (flds ! k) (vss ! k))"

lemma labelled_append: "labelled_bytes flds (rs @ ss) = labelled_bytes flds rs @ labelled_bytes flds ss"
  by (simp add: labelled_bytes_def)

lemma labelled_message:
  "labelled_bytes flds (concat (map (message_records d env flds vss) [0..<nfields flds])) = message_bytes (Suc d) env flds (Message vss)"
proof -
  let ?b = "\<lambda>k. field_bytes (\<lambda>f. message_bytes d env (desc env (fptr f))) (flds ! k) (vss ! k)"
  have "labelled_bytes flds (message_records d env flds vss k) = ?b k" for k
    by (simp add: labelled_bytes_def message_records_def field_bytes_def comp_def)
  then have "labelled_bytes flds (concat (map (message_records d env flds vss) ks)) = concat (map ?b ks)" for ks
    by (induction ks) (simp_all add: labelled_append, simp add: labelled_bytes_def)
  then show ?thesis by simp
qed

lemma record_label: "x \<in> fst ` set (message_records d env flds vss k) \<Longrightarrow> fst x = k \<and> unat (snd x) < 8"
  by (auto simp: message_records_def field_records_def field_wt_def Let_def wire_types split: if_splits)

lemma record_labels:
  "x \<in> fst ` set (concat (map (message_records d env flds vss) [0..<n])) \<Longrightarrow> fst x < n \<and> unat (snd x) < 8"
  using record_label [of x d env flds vss] by (cases x) force

lemma noted_all:
  assumes good: "good_message (Suc d) env flds (Message vss)"
  shows "(\<Union>x\<in>fst ` set (concat (map (message_records d env flds vss) [0..<nfields flds])). noted flds (fst x)) =
    {..<required_before flds (nfields flds)}"
proof (intro equalityI subsetI)
  let ?N = "nfields flds" and ?R = "\<lambda>k. fst ` set (message_records d env flds vss k)"
  fix i assume "i \<in> (\<Union>x\<in>fst ` set (concat (map (message_records d env flds vss) [0..<?N])). noted flds (fst x))"
  then obtain x where x: "x \<in> fst ` set (concat (map (message_records d env flds vss) [0..<?N]))" "i \<in> noted flds (fst x)" by blast
  with record_labels [OF x(1)] show "i \<in> {..<required_before flds ?N}"
    by (auto simp: noted_def required_before_less split: if_splits)
next
  let ?N = "nfields flds"
  fix i assume "i \<in> {..<required_before flds ?N}"
  then obtain k where k: "k < ?N" "is_required (flds ! k)" "required_before flds k = i"
    using required_before_onto [of i flds ?N] by auto
  have "good_values (\<lambda>f. good_message d env (desc env (fptr f))) (\<lambda>f. message_bytes d env (desc env (fptr f))) (flds ! k) (vss ! k)"
    using good k(1) by (simp add: list_all_iff)
  then have "length (vss ! k) = 1" using k(2) by (auto simp: good_values_def htypes)
  then have "message_records d env flds vss k \<noteq> []" using k(2) by (auto simp: message_records_def field_records_def htypes)
  then obtain x where x: "x \<in> fst ` set (message_records d env flds vss k)" by fastforce
  have "x \<in> fst ` set (concat (map (message_records d env flds vss) [0..<?N]))" using x k(1) by force
  moreover have "i \<in> noted flds (fst x)" using record_label [OF x] k by (simp add: noted_def)
  ultimately show "i \<in> (\<Union>x\<in>fst ` set (concat (map (message_records d env flds vss) [0..<?N])). noted flds (fst x))" by blast
qed

lemma local_message:
  assumes "static_message d env (desc env (fptr f)) (width f)"
  shows "local_sub (\<lambda>h f. message_at d env (desc env (fptr f)) h) (\<lambda>f. good_message d env (desc env (fptr f))) f"
  unfolding local_sub_def using message_at_cong [OF assms] by blast

lemma message_chain:
  assumes sm: "static_message (Suc d) env flds sz" and good: "good_message (Suc d) env flds (Message vss)" and dj: "region p sz \<inter> S = {}"
    and sub: "\<And>k. k < nfields flds \<Longrightarrow> is_sub (flds ! k) \<Longrightarrow>
      sub_reads dec (\<lambda>h f. message_at d env (desc env (fptr f)) h) (\<lambda>h f. message_ready d env (desc env (fptr f)) h)
        (\<lambda>f. good_message d env (desc env (fptr f))) (\<lambda>f. message_bytes d env (desc env (fptr f)))
        (flds ! k) (region (p + doff flds k) (data_extent (flds ! k))) S"
  shows "chain (\<lambda>(k, wt). decode_field env dec wt (iter_at flds p k) n) (\<lambda>(k, wt). field_foot flds p k \<union> S)
    (\<lambda>h. message_ready (Suc d) env flds h p) (concat (map (message_records d env flds vss) [0..<nfields flds]))
    (\<lambda>h. message_at (Suc d) env flds h p = Message vss)"
proof -
  let ?N = "nfields flds" and ?sub = "\<lambda>h f. message_at d env (desc env (fptr f)) h" and ?ready = "\<lambda>h f. message_ready d env (desc env (fptr f)) h"
    and ?good = "\<lambda>f. good_message d env (desc env (fptr f))" and ?bytes = "\<lambda>f. message_bytes d env (desc env (fptr f))"
  let ?D = "\<lambda>(k, wt). decode_field env dec wt (iter_at flds p k) n" and ?F = "\<lambda>(k :: nat, wt :: u32). field_foot flds p k \<union> S"
  let ?P = "\<lambda>k h. field_ready (?ready h) (flds ! k) h (p + doff flds k) (p + poff flds k)"
    and ?Q = "\<lambda>k h. field_values (?sub h) (flds ! k) h (p + doff flds k) (p + poff flds k) = vss ! k"
  note s = static_messageD [OF sm]
  have gv: "good_values ?good ?bytes (flds ! k) (vss ! k)" if "k < ?N" for k using good that by (simp add: list_all_iff)
  have loc: "local_sub ?sub ?good (flds ! k)" if "k < ?N" "is_sub (flds ! k)" for k
    by (rule local_message [OF static_sub(1) [OF sm that]])
  have fS: "field_foot flds p k \<inter> S = {}" if "k < ?N" for k using field_foot_region [OF sm that, of p] dj by blast
  have away: "agree (field_foot flds p j) h h'" if "j < ?N" "fst l < ?N" "fst l \<noteq> j" "same_outside (?F l) h h'" for j l h h'
    by (rule agree_outside [OF that(4)]) (use foot_disjoint [OF sm that(1,2), of p] that(3) fS [OF that(1)] in \<open>auto simp: split_beta\<close>)
  have "chain ?D ?F (\<lambda>h. \<forall>j<?N. ?P j h) (concat (map (message_records d env flds vss) [0..<?N]))
    (\<lambda>h. (\<forall>j<?N. ?Q j h) \<and> (\<forall>j. ?N \<le> j \<and> j < ?N \<longrightarrow> ?P j h))"
  proof (rule fields_chain [where P = ?P and Q = ?Q and N = ?N])
    fix k assume k: "k < ?N"
    have it: "cur (iter_at flds p k) = flds ! k" by (rule cur_iter_at [OF s(1)]) (use k in simp)
    have dS: "region (p + doff flds k) (data_extent (flds ! k)) \<inter> S = {}" "region (p + poff flds k) (flag_extent (flds ! k)) \<inter> S = {}"
      using fS [OF k] foot_subs [of p flds k] by blast+
    show "chain ?D ?F (?P k) (message_records d env flds vss k) (?Q k)"
      unfolding message_records_def
    proof (rule field_chain [OF s(3) [OF k] it, where n = n and env = env and dec = dec and S = S and ready = ?ready and sub = ?sub])
      show "?ready h' (flds ! k) (p + doff flds k)"
        if "is_sub (flds ! k)" "?ready h (flds ! k) (p + doff flds k)" "agree (region (p + doff flds k) (width (flds ! k))) h h'" for h h'
        by (rule message_ready_cong [OF static_sub(1) [OF sm k that(1)] that(2,3)])
    qed (use iter_at_shift [of flds p k] sub [OF k] loc [OF k] data_flag_disjoint [OF sm k, of p] dS gv [OF k] in \<open>simp_all add: field_foot_def\<close>)
  next
    show "fst l = k" if "l \<in> fst ` set (message_records d env flds vss k)" for k l using record_label [OF that] by simp
  next
    fix j l h h' assume j: "j < ?N" "fst l < ?N" "fst l \<noteq> j" and "?P j h" "same_outside (?F l) h h'"
    note a = field_foot_agree [OF away [OF j \<open>same_outside (?F l) h h'\<close>]]
    show "?P j h'"
      by (rule field_ready_cong [where sub = ?ready and h = h, OF s(3) [OF j(1)] \<open>?P j h\<close> _ a])
        (rule message_ready_cong [OF static_sub(1) [OF sm j(1)]])
  next
    fix j l h h' assume j: "j < ?N" "fst l < ?N" "fst l \<noteq> j" and q: "?Q j h" "same_outside (?F l) h h'"
    note a = field_foot_agree [OF away [OF j q(2)]]
    have "good_values ?good ?bytes (flds ! j) (field_values (?sub h) (flds ! j) h (p + doff flds j) (p + poff flds j))"
      unfolding q(1) by (rule gv [OF j(1)])
    from field_values_cong [OF s(3) [OF j(1)] loc [OF j(1)] this a] q(1) show "?Q j h'" by simp
  qed simp
  then have "chain ?D ?F (\<lambda>h. \<forall>j<?N. ?P j h) (concat (map (message_records d env flds vss) [0..<?N]) @ [])
    (\<lambda>h. message_at (Suc d) env flds h p = Message vss)"
    by (rule chain_append) (use good in \<open>auto intro: nth_equalityI\<close>)
  then show ?thesis by simp
qed

subsection \<open>The end of a message\<close>

lemma final_checks_pass:
  assumes wf: "wf_fields flds" and no: "\<And>i. i < nfields flds \<Longrightarrow> PB_HTYPE (ftype (flds ! i)) \<noteq> PB_HTYPE_ONEOF"
    and inv: "loop_inv flds p {..<required_before flds (nfields flds)} l"
  shows "final_checks slot l st h = (True, st, h)"
proof -
  obtain j where j: "j < nfields flds" "it l = iter_at flds p j" and fc: "fixed_count_field l = None"
    and seen: "seen_set {..<required_before flds (nfields flds)} l" using inv by (auto simp: loop_inv_def)
  have "required_count (it l) = min 64 (required_before flds (nfields flds))" unfolding j(2) by (rule required_count_all [OF wf no j(1)])
  with all_seen [OF seen] fc show ?thesis by (simp add: final_checks_def)
qed

lemma final_checks_empty:
  assumes "wf_fields flds" "nfields flds = 0" "it l = iter_at flds p 0" "fixed_count_field l = None"
  shows "final_checks slot l st h = (True, st, h)"
proof -
  have len: "length flds = Suc 0" using assms(2) wf_fields_length [OF assms(1)] by (cases flds) simp_all
  have t: "ftag (cur (iter_at flds p 0)) = 0" using wf_fields_tag [OF assms(1), of 0] len assms(1) by (simp add: cur_iter_at)
  then have "pb_field_iter_next (iter_at flds p 0) = (False, iter_at flds p 0)" by (simp add: pb_field_iter_next_def)
  then have "required_count (iter_at flds p 0) = 0"
    using t len by (simp add: required_count_def) (simp add: iter_at.simps pb_field_iter_begin_def Let_def)
  with assms(3,4) show ?thesis by (simp add: final_checks_def)
qed

subsection \<open>Messages\<close>

lemma noinit_body_reads:
  assumes sm: "static_message (Suc d) env flds sz" and good: "good_message (Suc d) env flds (Message vss)"
    and dj: "region p sz \<inter> (S \<union> region (local_addr env n) 4) = {}"
    and sub: "\<And>k. k < nfields flds \<Longrightarrow> is_sub (flds ! k) \<Longrightarrow>
      sub_reads dec (\<lambda>h f. message_at d env (desc env (fptr f)) h) (\<lambda>h f. message_ready d env (desc env (fptr f)) h)
        (\<lambda>f. good_message d env (desc env (fptr f))) (\<lambda>f. message_bytes d env (desc env (fptr f)))
        (flds ! k) (region (p + doff flds k) (data_extent (flds ! k))) S"
  shows "reads_all (noinit_body env dec n flds p) (message_bytes (Suc d) env flds (Message vss)) (\<lambda>h. message_ready (Suc d) env flds h p)
    (\<lambda>h. message_at (Suc d) env flds h p = Message vss) (region p sz \<union> (S \<union> region (local_addr env n) 4))"
  unfolding reads_all_def
proof (intro allI impI)
  let ?N = "nfields flds" and ?slot = "local_addr env n" and ?xs = "message_bytes (Suc d) env flds (Message vss)"
  let ?rs = "concat (map (message_records d env flds vss) [0..<?N])"
  let ?D = "\<lambda>(k, wt). decode_field env dec wt (iter_at flds p k) n" and ?F = "\<lambda>(k :: nat, wt :: u32). field_foot flds p k \<union> S"
  let ?l = "\<lparr>it = iter_at flds p 0, fields_seen = [0, 0], extension_range_start = 0, fixed_count_field = None\<rparr> :: pb_locals"
  note s = static_messageD [OF sm]
  fix st :: "'a pb_istream" and h assume wf: "wf_stream st" and c: "content st = ?xs" and r: "message_ready (Suc d) env flds h p"
  let ?h = "store_u32 ?slot 0 h"
  have so: "same_outside (region ?slot 4) h ?h" by (rule length_store_u32)
  have r': "message_ready (Suc d) env flds ?h p"
    by (rule message_ready_cong [OF sm r]) (rule agree_outside [OF so], use dj in blast)
  have body: "noinit_body env dec n flds p st h =
      (case message_loop (Suc (bytes_left st)) env dec n ?slot ?l st ?h of
         None \<Rightarrow> None
       | Some (Failed, l, st, h) \<Rightarrow> Some (False, st, h)
       | Some (e, l, st, h) \<Rightarrow> Some (final_checks ?slot l st h))"
    by (simp add: noinit_body_def Let_def iter_at.simps)
  have ch: "chain ?D ?F (\<lambda>h. message_ready (Suc d) env flds h p) ?rs (\<lambda>h. message_at (Suc d) env flds h p = Message vss)"
    by (rule message_chain [OF sm good _ sub]) (use dj in blast)+
  have lab: "content st = labelled_bytes flds ?rs" using c labelled_message by metis
  show "\<exists>h'. noinit_body env dec n flds p st h = Some (True, adv (length ?xs) st, h') \<and>
    message_at (Suc d) env flds h' p = Message vss \<and> same_outside (region p sz \<union> (S \<union> region ?slot 4)) h h'"
  proof (cases "?N = 0")
    case True
    then have xs: "?xs = []" by simp
    have "bytes_left st = 0" using length_stream_content [OF wf] unfolding c xs by simp
    then have loop: "message_loop (Suc (bytes_left st)) env dec n ?slot ?l st ?h = Some (Stop, ?l, st, ?h)" by simp
    have "final_checks ?slot ?l st ?h = (True, st, ?h)" by (rule final_checks_empty [OF s(1) True]) simp_all
    then have "noinit_body env dec n flds p st h = Some (True, adv (length ?xs) st, ?h)"
      unfolding body loop xs using wf by (simp add: adv_0)
    moreover have "message_at (Suc d) env flds ?h p = Message vss" using ch True r' by simp
    ultimately show ?thesis using same_outside_mono [OF so, of "region p sz \<union> (S \<union> region ?slot 4)"] by blast
  next
    case False
    have "\<exists>j<?N. it ?l = iter_at flds p j" using False by (intro exI [of _ 0]) simp
    moreover have "seen_set {} ?l" by (simp add: seen_set_def nth_Cons')
    ultimately have inv: "loop_inv flds p {} ?l" by (simp add: loop_inv_def)
    have labs: "k < ?N \<and> unat wt < 8" if "(k, wt) \<in> fst ` set ?rs" for k wt using record_labels [OF that] by simp
    have m: "bytes_left st < Suc (bytes_left st)" by simp
    have "\<exists>l' h'. message_loop (Suc (bytes_left st)) env dec n ?slot ?l st ?h = Some (Stop, l', adv (length (labelled_bytes flds ?rs)) st, h') \<and>
      loop_inv flds p ({} \<union> (\<Union>x\<in>fst ` set ?rs. noted flds (fst x))) l' \<and> message_at (Suc d) env flds h' p = Message vss \<and>
      same_outside (\<Union>x\<in>fst ` set ?rs. ?F x) ?h h'"
      by (rule message_loop_run [OF sm, where D = ?D, OF _ ch labs inv wf lab r' m]) simp
    then obtain l' h' where run: "message_loop (Suc (bytes_left st)) env dec n ?slot ?l st ?h = Some (Stop, l', adv (length (labelled_bytes flds ?rs)) st, h')"
      "loop_inv flds p ({} \<union> (\<Union>x\<in>fst ` set ?rs. noted flds (fst x))) l'" "message_at (Suc d) env flds h' p = Message vss"
      "same_outside (\<Union>x\<in>fst ` set ?rs. ?F x) ?h h'" by (elim exE conjE)
    have "loop_inv flds p {..<required_before flds ?N} l'" using run(2) unfolding noted_all [OF good] by simp
    from final_checks_pass [OF s(1) s(5) this] have "noinit_body env dec n flds p st h = Some (True, adv (length ?xs) st, h')"
      unfolding body run(1) labelled_message by simp
    moreover have "same_outside (region p sz \<union> (S \<union> region ?slot 4)) h h'"
    proof (rule same_outside_trans [OF so run(4)])
      have "?F x \<subseteq> region p sz \<union> S" if "x \<in> fst ` set ?rs" for x
        using field_foot_region [OF sm, of "fst x" p] record_labels [OF that] by (auto simp: split_beta)
      then have sub: "(\<Union>x\<in>fst ` set ?rs. ?F x) \<subseteq> region p sz \<union> S" by (rule UN_least)
      have "B \<union> X \<subseteq> A \<union> (T \<union> B)" if "X \<subseteq> A \<union> T" for X A B T :: "addr set" using that by blast
      from this [OF sub] show "region ?slot 4 \<union> (\<Union>x\<in>fst ` set ?rs. ?F x) \<subseteq> region p sz \<union> (S \<union> region ?slot 4)" .
    qed
    ultimately show ?thesis using run(3) by blast
  qed
qed

theorem pb_decode_noinit_reads:
  assumes "static_message d env flds sz" "d \<le> n" "good_message d env flds v" "region p sz \<inter> slots env n = {}"
  shows "reads_all (pb_decode_noinit n env flds p) (message_bytes d env flds v) (\<lambda>h. message_ready d env flds h p)
    (\<lambda>h. message_at d env flds h p = v) (region p sz \<union> slots env n)"
  using assms
proof (induction d arbitrary: n flds sz p v)
  case (Suc d)
  from Suc.prems(2) obtain m where n: "n = Suc m" "d \<le> m" by (cases n) auto
  obtain vss where v: "v = Message vss" using Suc.prems(3) by (cases v) auto
  let ?dec = "\<lambda>init q dest st h. if init then decode_with m env (pb_decode_noinit m env) (desc env q) dest st h
     else pb_decode_noinit m env (desc env q) dest st h"
  have e: "pb_decode_noinit n env flds p = noinit_body env ?dec m flds p" by (simp add: n fun_eq_iff)
  have D: "region (p + doff flds k) (data_extent (flds ! k)) \<inter> slots env m = {}" if "k < nfields flds" for k
    using field_foot_region [OF Suc.prems(1) that, of p] foot_subs(1) [of p flds k] Suc.prems(4) by (auto simp: n slots_Suc)
  have sub: "sub_reads ?dec (\<lambda>h f. message_at d env (desc env (fptr f)) h) (\<lambda>h f. message_ready d env (desc env (fptr f)) h)
        (\<lambda>f. good_message d env (desc env (fptr f))) (\<lambda>f. message_bytes d env (desc env (fptr f)))
        (flds ! k) (region (p + doff flds k) (data_extent (flds ! k))) (slots env m)"
    if k: "k < nfields flds" "is_sub (flds ! k)" for k
    unfolding sub_reads_def
  proof (intro allI impI)
    fix q w assume q: "region q (width (flds ! k)) \<subseteq> region (p + doff flds k) (data_extent (flds ! k))"
      and w: "good_message d env (desc env (fptr (flds ! k))) w"
    have dj: "region q (width (flds ! k)) \<inter> slots env m = {}" using q D [OF k(1)] by blast
    note ss = static_sub(1) [OF Suc.prems(1) k]
    note ih = Suc.IH [OF ss n(2) w dj]
    show "reads_all (?dec (is_repeated (flds ! k)) (fptr (flds ! k)) q) (message_bytes d env (desc env (fptr (flds ! k))) w)
        (\<lambda>h. is_repeated (flds ! k) \<or> message_ready d env (desc env (fptr (flds ! k))) h q)
        (\<lambda>h. message_at d env (desc env (fptr (flds ! k))) h q = w) (region q (width (flds ! k)) \<union> slots env m)"
      using ih decode_with_reads [OF ss n(2), where noinit = "pb_decode_noinit m env", OF ih] by (cases "is_repeated (flds ! k)") simp_all
  qed
  have dj: "region p sz \<inter> (slots env m \<union> region (local_addr env m) 4) = {}" using Suc.prems(4) by (simp add: n slots_Suc)
  show ?case unfolding e v
    using noinit_body_reads [OF Suc.prems(1) Suc.prems(3) [unfolded v] dj sub] by (simp only: n(1) slots_Suc)
qed simp

lemma pb_decode_reads:
  assumes "static_message d env flds sz" "d \<le> n" "good_message d env flds v" "region p sz \<inter> slots env n = {}"
  shows "reads_all (pb_decode n env flds p) (message_bytes d env flds v) (\<lambda>h. True)
    (\<lambda>h. message_at d env flds h p = v) (region p sz \<union> slots env n)"
proof -
  have "pb_decode n env flds p = decode_with n env (pb_decode_noinit n env) flds p" by (simp add: fun_eq_iff pb_decode_def)
  then show ?thesis using decode_with_reads [OF assms(1,2), where noinit = "pb_decode_noinit n env", OF pb_decode_noinit_reads [OF assms]] by simp
qed

subsection \<open>Properties\<close>

definition sent :: "nat \<Rightarrow> bytes \<Rightarrow> 's pb_ostream" where
  "sent room xs = \<lparr>errmsg = None, sink = Buffer xs, max_size = room, bytes_written = length xs\<rparr>"

lemma writes_to_buffer:
  fixes w :: "'s pb_enc"
  assumes w: "writes w xs" and room: "room < size_lim"
  shows "length xs \<le> room \<Longrightarrow> w (pb_ostream_from_buffer room) = Some (True, sent room xs)"
    and "room < length xs \<Longrightarrow> length xs < size_lim \<Longrightarrow> \<exists>st. w (pb_ostream_from_buffer room) = Some (False, st) \<and> errmsg st \<noteq> None"
proof -
  let ?st = "pb_ostream_from_buffer room :: 's pb_ostream"
  have p: "plain_stream ?st" "errmsg ?st = None" "\<not> is_sizing ?st" "has_room k ?st \<longleftrightarrow> k \<le> room" "bytes_written ?st = 0" for k
    using room by (simp_all add: pb_ostream_from_buffer_def plain_stream_def is_sizing_def has_room_def)
  show "w ?st = Some (True, sent room xs)" if "length xs \<le> room"
    using writesD [OF w p(1,2)] that p(4) by (simp add: put_def pb_ostream_from_buffer_def sent_def)
  show "\<exists>st. w ?st = Some (False, st) \<and> errmsg st \<noteq> None" if "room < length xs" "length xs < size_lim"
    using writes_full [OF w p(1,2) _ p(3)] that p(4,5) by simp
qed

text \<open>
  C2: \<open>pb_decode\<close> is the inverse of \<open>pb_encode\<close>. Let a structure at \<open>p\<close> be described by static fields (required
  and optional ones, arrays with a count, packed or not, of all scalar types, byte strings, text and submessages), and hold
  values that have an encoding. Then \<open>pb_get_encoded_size\<close> tells the number of bytes, \<open>pb_encode\<close> writes that many
  into a buffer that has room for them, and \<open>pb_decode\<close> of these bytes, into any other structure and whatever memory
  held before, returns true, uses up the stream, makes the structure hold the same values, and leaves alone
  all memory but the structure and its own variables.
\<close>

theorem pb_message_roundtrip:
  fixes env :: "'s pb_env"
  assumes sm: "static_message d env flds sz" "d \<le> n" and p: "0 \<notin> region p sz" and good: "good_message d env flds (message_at d env flds h p)"
    and room: "length (message_bytes d env flds (message_at d env flds h p)) \<le> room" "room < size_lim" and q: "region q sz \<inter> slots env n = {}"
  shows "\<exists>xs. pb_get_encoded_size n env h flds p = Some (Some (length xs)) \<and>
    pb_encode n env h flds p (pb_ostream_from_buffer room) = Some (True, sent room xs) \<and>
    (\<exists>h''. pb_decode n env flds q (stream_of xs) h' = Some (True, stream_of [], h'') \<and>
       message_at d env flds h'' q = message_at d env flds h p \<and> same_outside (region q sz \<union> slots env n) h' h'')"
proof -
  let ?v = "message_at d env flds h p"
  let ?xs = "message_bytes d env flds ?v"
  have w: "writes (pb_encode n env h flds p) ?xs" by (rule pb_encode_writes [OF sm p good])
  have "length ?xs < size_lim" using room by simp
  from writes_sizing [OF w this] have "pb_get_encoded_size n env h flds p = Some (Some (length ?xs))"
    by (simp add: pb_get_encoded_size_def PB_OSTREAM_SIZING_def)
  moreover have "pb_encode n env h flds p (pb_ostream_from_buffer room) = Some (True, sent room ?xs)"
    by (rule writes_to_buffer(1) [OF w room(2,1)])
  moreover obtain h'' where h'': "pb_decode n env flds q (stream_of ?xs) h' = Some (True, adv (length ?xs) (stream_of ?xs), h'')"
    "message_at d env flds h'' q = ?v" "same_outside (region q sz \<union> slots env n) h' h''"
    by (rule reads_allE [OF pb_decode_reads [OF sm good q], of "stream_of ?xs" h']) simp_all
  moreover have "adv (length ?xs) (stream_of ?xs) = (stream_of [] :: 's pb_istream)" using adv_stream_of [of "length ?xs" ?xs "[]"] by simp
  ultimately show ?thesis by (intro exI [of _ ?xs] conjI exI [of _ h'']) simp_all
qed

text \<open>
  A structure with a number, a submessage that holds a number, an optional truth value and an array of up to two
  signed numbers, which are written packed.
\<close>

definition sample_number :: pb_field where
  "sample_number = PB_LAST_FIELD\<lparr>ftag := 1, ftype := PB_LTYPE_UVARINT, data_size := 4\<rparr>"
definition sample_sub :: pb_field where
  "sample_sub = PB_LAST_FIELD\<lparr>ftag := 2, ftype := PB_LTYPE_SUBMESSAGE, data_size := 2, fptr := 0x80\<rparr>"
definition sample_bool :: pb_field where
  "sample_bool = PB_LAST_FIELD\<lparr>ftag := 3, ftype := PB_HTYPE_OPTIONAL, data_size := 1, data_offset := 1, size_offset := - 1\<rparr>"
definition sample_array :: pb_field where
  "sample_array = PB_LAST_FIELD\<lparr>ftag := 4, ftype := PB_HTYPE_REPEATED OR PB_LTYPE_SVARINT, data_size := 4, data_offset := 4, size_offset := - 4, array_size := 2\<rparr>"
definition sample_small :: pb_field where
  "sample_small = PB_LAST_FIELD\<lparr>ftag := 1, ftype := PB_LTYPE_UVARINT, data_size := 2\<rparr>"

definition sample_inner :: "pb_field list" where "sample_inner = [sample_small, PB_LAST_FIELD]"
definition sample_fields :: "pb_field list" where
  "sample_fields = [sample_number, sample_sub, sample_bool, sample_array, PB_LAST_FIELD]"

definition sample_env :: "unit pb_env" where
  "sample_env = \<lparr>desc = (\<lambda>a. sample_inner), user_decode = (\<lambda>a st f p h. (False, st, h)), ext_decode = (\<lambda>a st e t w h. (False, st, h)),
     user_encode = (\<lambda>a st f p h. (False, st)), ext_encode = (\<lambda>a st e h. (False, st)), realloc_addr = (\<lambda>h a n. None), local_addr = (\<lambda>n. 0x8000 + 4 * word_of_nat n)\<rparr>"

definition sample_heap :: heap where
  "sample_heap = store_bytes 0x1000 [0x2C, 1, 0, 0, 7, 0, 1, 1, 2, 0, 0, 0, 0xFF, 0xFF, 0xFF, 0xFF, 5, 0, 0, 0] \<lparr>mem = (\<lambda>a. 0), blocks = (\<lambda>a. None)\<rparr>"

definition sample_value :: pb_value where
  "sample_value = Message [[Raw [0x2C, 1, 0, 0]], [Message [[Raw [7, 0]]]], [Raw [1]], [Raw [0xFF, 0xFF, 0xFF, 0xFF], Raw [5, 0, 0, 0]]]"

lemma sample_value: "message_at (Suc (Suc 0)) sample_env sample_fields sample_heap 0x1000 = sample_value"
  by code_simp

lemma sample_field_simps [simp]:
  "ftag sample_number = 1" "ftype sample_number = 2" "data_size sample_number = 4" "array_size sample_number = 0"
  "ftag sample_sub = 2" "ftype sample_sub = 8" "data_size sample_sub = 2" "array_size sample_sub = 0" "fptr sample_sub = 0x80"
  "ftag sample_bool = 3" "ftype sample_bool = 0x10" "data_size sample_bool = 1" "array_size sample_bool = 0" "size_offset sample_bool = - 1"
  "ftag sample_array = 4" "ftype sample_array = 0x23" "data_size sample_array = 4" "array_size sample_array = 2" "size_offset sample_array = - 4"
  "ftag sample_small = 1" "ftype sample_small = 2" "data_size sample_small = 2" "array_size sample_small = 0"
  "ftag PB_LAST_FIELD = 0" "desc sample_env a = sample_inner"
  by (simp_all add: sample_number_def sample_sub_def sample_bool_def sample_array_def sample_small_def sample_env_def PB_LAST_FIELD_def ltypes htypes)

lemmas sample_simps = ltypes htypes atypes type_parts

lemma sample_offsets:
  "map (doff sample_fields) [0, 1, 2, 3] = [0, 4, 7, 12]" "map (poff sample_fields) [0, 1, 2, 3] = [0, 4, 6, 8]"
  "doff sample_inner 0 = 0" "poff sample_inner 0 = 0"
  by code_simp+

lemma region_numeral: "region p 0 = {}" "region p (numeral k) = insert (p + word_of_nat (pred_numeral k)) (region p (pred_numeral k))"
  "region p (Suc n) = insert (p + word_of_nat n) (region p n)"
  by (simp_all add: region_def lessThan_nat_numeral lessThan_Suc)

lemma sample_foot:
  "field_foot sample_fields 0 0 = region 0 4" "field_foot sample_fields 0 (Suc 0) = region 4 2"
  "field_foot sample_fields 0 2 = region 7 1 \<union> region 6 1" "field_foot sample_fields 0 3 = region 12 8 \<union> region 8 4"
  "field_foot sample_inner 0 0 = region 0 2"
  using sample_offsets by (simp_all add: field_foot_def data_extent_def flag_extent_def sample_fields_def sample_inner_def sample_simps region_numeral)

lemma less_4: "k < 4 \<longleftrightarrow> k = 0 \<or> k = Suc 0 \<or> k = 2 \<or> k = (3 :: nat)"
  "k < 3 \<longleftrightarrow> k = 0 \<or> k = Suc 0 \<or> k = (2 :: nat)" "k < 2 \<longleftrightarrow> k = 0 \<or> k = Suc 0"
  by auto

lemma sample_feet:
  "k < 4 \<Longrightarrow> field_foot sample_fields 0 k \<subseteq> region 0 20"
  "k < 4 \<Longrightarrow> region (doff sample_fields k) (data_extent (sample_fields ! k)) \<inter> region (poff sample_fields k) (flag_extent (sample_fields ! k)) = {}"
  "k < 4 \<Longrightarrow> j < k \<Longrightarrow> field_foot sample_fields 0 k \<inter> field_foot sample_fields 0 j = {}"
  subgoal by (auto simp: less_4 sample_foot region_numeral)
  subgoal using sample_offsets by (auto simp: less_4 data_extent_def flag_extent_def sample_fields_def sample_simps region_numeral)
  subgoal by (auto simp: less_4 sample_foot region_numeral)
  done

lemma sample_inner_static: "static_message (Suc 0) sample_env sample_inner 2"
proof -
  have "wf_fields sample_inner" unfolding wf_fields_def sample_inner_def by (intro exI [of _ "[sample_small]"]) simp
  then show ?thesis unfolding static_message.simps
    using sample_foot(5) sample_offsets(3,4)
    by (simp add: sample_inner_def static_field_def scalar_field_def sample_simps Let_def data_extent_def flag_extent_def region_numeral)
qed

lemma sample_static: "static_message (Suc (Suc 0)) sample_env sample_fields 20"
proof -
  have "wf_fields sample_fields" unfolding wf_fields_def sample_fields_def
    by (intro exI [of _ "[sample_number, sample_sub, sample_bool, sample_array]"]) simp
  moreover have "static_field (\<lambda>f. static_message (Suc 0) sample_env (desc sample_env (fptr f)) (width f)) (sample_fields ! k)"
    if "k < nfields sample_fields" for k
  proof -
    from that consider "k = 0" | "k = 1" | "k = 2" | "k = 3" by (simp add: sample_fields_def) linarith
    then show ?thesis using sample_inner_static
      by cases (simp_all add: sample_fields_def static_field_def scalar_field_def sample_simps Let_def del: static_message.simps)
  qed
  moreover have "nfields sample_fields = 4" "distinct (map ftag sample_fields)" by (simp_all add: sample_fields_def)
  ultimately show ?thesis unfolding static_message.simps(2) [of "Suc 0"] using sample_feet by auto
qed

lemma varint_300: "varint_bytes 300 = [0xAC, 2]"
  by (simp add: varint_bytes_large varint_bytes_small)

lemma sample_inner_bytes: "message_bytes (Suc 0) sample_env sample_inner (Message [[Raw [7, 0]]]) = [8, 7]"
  by (simp add: sample_inner_def sample_simps field_bytes_def field_records_def record_bytes_def field_wt_def item_bytes_def value_bytes_def Let_def
    tag_bytes_def varint_bytes_small le_val_def be_val_def wire_types)

lemma sample_inner_good: "good_message (Suc 0) sample_env sample_inner (Message [[Raw [7, 0]]])"
  by (simp add: sample_inner_def sample_simps good_values_def good_item_def good_image_def Let_def)

lemma sample_upt: "[0..<4] = [0, 1, 2, 3 :: nat]"
  by (simp add: upt_rec)

lemma sample_bytes: "message_bytes (Suc (Suc 0)) sample_env sample_fields sample_value = [8, 0xAC, 2, 0x12, 2, 8, 7, 0x18, 1, 0x22, 2, 1, 10]"
  unfolding message_bytes.simps(2) [of "Suc 0"] sample_value_def pb_value.case sample_fields_def
  by (simp add: sample_upt sample_inner_bytes sample_simps field_bytes_def field_records_def record_bytes_def field_wt_def item_bytes_def value_bytes_def Let_def
    tag_bytes_def string_bytes_def varint_bytes_small varint_300 le_val_def be_val_def wire_types signed_of_def zigzag_def del: message_bytes.simps)

lemma sample_good: "good_message (Suc (Suc 0)) sample_env sample_fields sample_value"
  unfolding good_message.simps(2) [of "Suc 0"] sample_value_def pb_value.case sample_fields_def
  by (simp add: sample_upt sample_inner_bytes sample_inner_good sample_simps good_values_def good_item_def good_image_def Let_def item_bytes_def value_bytes_def
    varint_bytes_small le_val_def be_val_def signed_of_def zigzag_def del: message_bytes.simps good_message.simps)

lemma sample_places: "0 \<notin> region 0x1000 20" "region 0x2000 20 \<inter> slots sample_env (Suc (Suc 0)) = {}"
proof -
  have "slots sample_env (Suc (Suc 0)) = region 0x8000 4 \<union> region 0x8004 4"
    by (simp add: slots_Suc sample_env_def) (simp add: slots_def Un_commute)
  then show "region 0x2000 20 \<inter> slots sample_env (Suc (Suc 0)) = {}" by (simp add: region_numeral)
qed (simp add: region_numeral)

lemma pb_message_roundtrip_witness:
  "message_at 2 sample_env sample_fields sample_heap 0x1000 =
     Message [[Raw [0x2C, 1, 0, 0]], [Message [[Raw [7, 0]]]], [Raw [1]], [Raw [0xFF, 0xFF, 0xFF, 0xFF], Raw [5, 0, 0, 0]]] \<and>
   (\<exists>xs. pb_get_encoded_size 2 sample_env sample_heap sample_fields 0x1000 = Some (Some (length xs)) \<and>
     pb_encode 2 sample_env sample_heap sample_fields 0x1000 (pb_ostream_from_buffer 13) = Some (True, sent 13 xs) \<and>
     (\<exists>h''. pb_decode 2 sample_env sample_fields 0x2000 (stream_of xs) \<lparr>mem = (\<lambda>a. 7), blocks = (\<lambda>a. None)\<rparr> = Some (True, stream_of [], h'') \<and>
        message_at 2 sample_env sample_fields h'' 0x2000 = message_at 2 sample_env sample_fields sample_heap 0x1000 \<and>
        same_outside (region 0x2000 20 \<union> slots sample_env 2) \<lparr>mem = (\<lambda>a. 7), blocks = (\<lambda>a. None)\<rparr> h''))"
  unfolding numeral_2_eq_2
proof (intro conjI pb_message_roundtrip [OF sample_static])
  show "message_at (Suc (Suc 0)) sample_env sample_fields sample_heap 0x1000 =
      Message [[Raw [0x2C, 1, 0, 0]], [Message [[Raw [7, 0]]]], [Raw [1]], [Raw [0xFF, 0xFF, 0xFF, 0xFF], Raw [5, 0, 0, 0]]]"
    using sample_value by (simp only: sample_value_def)
  show "good_message (Suc (Suc 0)) sample_env sample_fields (message_at (Suc (Suc 0)) sample_env sample_fields sample_heap 0x1000)"
    unfolding sample_value by (rule sample_good)
  show "length (message_bytes (Suc (Suc 0)) sample_env sample_fields (message_at (Suc (Suc 0)) sample_env sample_fields sample_heap 0x1000)) \<le> 13"
    unfolding sample_value sample_bytes by simp
qed (simp_all only: sample_places order_refl, simp_all)

text \<open>
  C34: A structure of static fields (as in the round trip of \<open>pb_encode\<close> and \<open>pb_decode\<close>: required and optional fields and arrays with a count,
  no pointer, callback, extension, \<open>oneof\<close> or proto3 field, in it or in its submessages) whose values have an encoding
  of less than \<open>2^64\<close> bytes, and whose encoding does not fit, is refused: \<open>pb_encode\<close> into a smaller buffer returns false with an error, never a truncated
  message that claims to be whole.
\<close>

theorem pb_encode_no_room:
  fixes env :: "'s pb_env"
  assumes "static_message d env flds sz" "d \<le> n" "0 \<notin> region p sz" "good_message d env flds (message_at d env flds h p)"
    and "pb_get_encoded_size n env h flds p = Some (Some k)" "room < k" "length (message_bytes d env flds (message_at d env flds h p)) < size_lim"
  shows "\<exists>st. pb_encode n env h flds p (pb_ostream_from_buffer room) = Some (False, st) \<and> errmsg st \<noteq> None"
proof -
  let ?xs = "message_bytes d env flds (message_at d env flds h p)"
  have w: "writes (pb_encode n env h flds p) ?xs" by (rule pb_encode_writes [OF assms(1-4)])
  have "k = length ?xs" using writes_sizing [OF w assms(7)] assms(5) by (simp add: pb_get_encoded_size_def PB_OSTREAM_SIZING_def)
  then show ?thesis using assms(6,7) by (intro writes_to_buffer(2) [OF w]) simp_all
qed

lemma sample_encoded_size: "pb_get_encoded_size (Suc (Suc 0)) sample_env sample_heap sample_fields 0x1000 = Some (Some 13)"
proof -
  have "writes (pb_encode (Suc (Suc 0)) sample_env sample_heap sample_fields 0x1000)
      (message_bytes (Suc (Suc 0)) sample_env sample_fields (message_at (Suc (Suc 0)) sample_env sample_fields sample_heap 0x1000))"
    by (rule pb_encode_writes [OF sample_static order_refl sample_places(1)]) (unfold sample_value, rule sample_good)
  from writes_sizing [OF this] show ?thesis unfolding sample_value sample_bytes
    by (simp add: pb_get_encoded_size_def PB_OSTREAM_SIZING_def)
qed

lemma pb_encode_no_room_witness:
  "pb_get_encoded_size 2 sample_env sample_heap sample_fields 0x1000 = Some (Some 13) \<and>
   (\<exists>st. pb_encode 2 sample_env sample_heap sample_fields 0x1000 (pb_ostream_from_buffer 12) = Some (False, st) \<and> errmsg st \<noteq> None)"
  unfolding numeral_2_eq_2
proof (intro conjI sample_encoded_size pb_encode_no_room [OF sample_static order_refl sample_places(1) _ sample_encoded_size])
  show "good_message (Suc (Suc 0)) sample_env sample_fields (message_at (Suc (Suc 0)) sample_env sample_fields sample_heap 0x1000)"
    unfolding sample_value by (rule sample_good)
  show "length (message_bytes (Suc (Suc 0)) sample_env sample_fields (message_at (Suc (Suc 0)) sample_env sample_fields sample_heap 0x1000)) < size_lim"
    unfolding sample_value sample_bytes by simp
qed simp

text \<open>
  C33: Messages behind one another. Let a structure be described by static fields (required and optional ones and arrays with a
  count, no pointer, callback, extension, \<open>oneof\<close> or proto3 field, in it or in its submessages) and hold values that have
  an encoding, of less than \<open>2^32\<close> bytes since the reader takes the length prefix as 32 bits. Then \<open>pb_encode_delimited\<close> writes
  it into any buffer with ten more bytes of room, and \<open>pb_decode_delimited\<close> reads the values back from what was written, into any other
  structure and whatever memory held before, leaves all other memory alone, and leaves the stream at what follows.
\<close>

theorem pb_delimited_roundtrip:
  fixes env :: "'s pb_env"
  assumes sm: "static_message d env flds sz" "d \<le> n" and p: "0 \<notin> region p sz" and good: "good_message d env flds (message_at d env flds h p)"
    and lim: "length (message_bytes d env flds (message_at d env flds h p)) < 2 ^ 32"
    and room: "length (message_bytes d env flds (message_at d env flds h p)) + 10 \<le> room" "room < size_lim" and q: "region q sz \<inter> slots env n = {}"
  shows "\<exists>xs. pb_encode_delimited n env h flds p (pb_ostream_from_buffer room) = Some (True, sent room xs) \<and>
    (\<exists>h''. pb_decode_delimited n env flds q (stream_of (xs @ r)) h' = Some (True, stream_of r, h'') \<and>
       message_at d env flds h'' q = message_at d env flds h p \<and> same_outside (region q sz \<union> slots env n) h' h'')"
proof -
  let ?v = "message_at d env flds h p"
  let ?xs = "message_bytes d env flds ?v"
  let ?ys = "string_bytes ?xs"
  have l: "length ?xs < 2 ^ 32" "length ?xs < size_lim" using lim room by simp_all
  have "length (varint_bytes (length ?xs)) \<le> Suc 9" by (rule varint_bytes_length) (use l(1) in simp)
  then have ys: "length ?ys \<le> room" "room < size_lim" using room by (simp_all add: string_bytes_def)
  have "pb_encode_delimited n env h flds p = encode_submessage (pb_encode n env h flds p)"
    by (simp add: pb_encode_delimited_def pb_encode_submessage_def fun_eq_iff)
  then have "writes (pb_encode_delimited n env h flds p) ?ys"
    using writes_submessage [OF pb_encode_writes [OF sm p good] l(2)] by (simp only:)
  then have enc: "pb_encode_delimited n env h flds p (pb_ostream_from_buffer room) = Some (True, sent room ?ys)"
    by (rule writes_to_buffer(1) [OF _ ys(2,1)])
  obtain sub st2 where sub: "pb_make_string_substream (stream_of (?ys @ r) :: 's pb_istream) = (Some sub, st2)" "wf_stream sub" "content sub = ?xs"
    "pb_close_string_substream st2 (adv (length ?xs) sub) = (True, adv (length ?ys) (stream_of (?ys @ r)))"
    by (rule substream_run [of "stream_of (?ys @ r)" ?xs r]) (use l in simp_all)
  obtain h'' where h'': "pb_decode n env flds q sub h' = Some (True, adv (length ?xs) sub, h'')"
    "message_at d env flds h'' q = ?v" "same_outside (region q sz \<union> slots env n) h' h''"
    by (rule reads_allE [OF pb_decode_reads [OF sm good q] sub(2,3)]) simp_all
  have "pb_decode_delimited n env flds q (stream_of (?ys @ r)) h' = Some (True, stream_of r, h'')"
    by (simp add: pb_decode_delimited_def decode_delimited_def sub(1,4) h''(1) adv_stream_of)
  with enc h''(2,3) show ?thesis by (intro exI [of _ ?ys] conjI exI [of _ h'']) simp_all
qed

lemma pb_delimited_roundtrip_witness:
  "\<exists>xs. pb_encode_delimited 2 sample_env sample_heap sample_fields 0x1000 (pb_ostream_from_buffer 23) = Some (True, sent 23 xs) \<and>
    (\<exists>h''. pb_decode_delimited 2 sample_env sample_fields 0x2000 (stream_of (xs @ [5, 6])) \<lparr>mem = (\<lambda>a. 7), blocks = (\<lambda>a. None)\<rparr> =
         Some (True, stream_of [5, 6], h'') \<and>
       message_at 2 sample_env sample_fields h'' 0x2000 = message_at 2 sample_env sample_fields sample_heap 0x1000 \<and>
       same_outside (region 0x2000 20 \<union> slots sample_env 2) \<lparr>mem = (\<lambda>a. 7), blocks = (\<lambda>a. None)\<rparr> h'')"
  unfolding numeral_2_eq_2
proof (rule pb_delimited_roundtrip [OF sample_static])
  show "good_message (Suc (Suc 0)) sample_env sample_fields (message_at (Suc (Suc 0)) sample_env sample_fields sample_heap 0x1000)"
    unfolding sample_value by (rule sample_good)
  show "length (message_bytes (Suc (Suc 0)) sample_env sample_fields (message_at (Suc (Suc 0)) sample_env sample_fields sample_heap 0x1000)) + 10 \<le> 23"
    unfolding sample_value sample_bytes by simp
  show "length (message_bytes (Suc (Suc 0)) sample_env sample_fields (message_at (Suc (Suc 0)) sample_env sample_fields sample_heap 0x1000)) < 2 ^ 32"
    unfolding sample_value sample_bytes by simp
qed (simp_all only: sample_places order_refl, simp_all)

end
