(* ===== verification/Modes.thy ===== *)
theory Modes
  imports Memory
begin

text \<open>
  The modes of operation of \<open>crypto/fipsmodule/modes\<close>: counter, output feedback and cipher feedback mode
  (\<open>ctr.c\<close>, \<open>ofb.c\<close>, \<open>cfb.c\<close>), which turn a block cipher into a stream cipher. The block cipher is a parameter, \<open>block\<close>, with the key applied: a function on 16 bytes.
\<close>

unbundle bit_operations_syntax

subsection \<open>Words in byte arrays\<close>

text \<open>\<open>load_word_le(b + n)\<close> and \<open>store_word_le(b + n, w)\<close>.\<close>

definition load_word_le :: "bytes \<Rightarrow> nat \<Rightarrow> u64" where
  "load_word_le b n = word_of_nat (le_val (take 8 (drop n b)))"

definition store_word_le :: "bytes \<Rightarrow> nat \<Rightarrow> u64 \<Rightarrow> bytes" where
  "store_word_le b n w = blit n (le_bytes 8 (unat w)) b"

definition xor_bytes :: "bytes \<Rightarrow> bytes \<Rightarrow> bytes" where
  "xor_bytes a b = map2 (XOR) a b"

lemma length_xor_bytes [simp]: "length (xor_bytes a b) = min (length a) (length b)"
  by (simp add: xor_bytes_def)

lemma xor_bytes_commute: "xor_bytes a b = xor_bytes b a"
  unfolding xor_bytes_def by (induction a b rule: list_induct2') (auto simp: xor.commute)

lemma xor_bytes_cancel: "length a \<le> length b \<Longrightarrow> xor_bytes (xor_bytes a b) b = a"
  unfolding xor_bytes_def by (induction a b rule: list_induct2') (auto simp: xor.assoc)

lemma xor_bytes_append: "length a = length c \<Longrightarrow> xor_bytes (a @ b) (c @ d) = xor_bytes a c @ xor_bytes b d"
  by (simp add: xor_bytes_def)

lemma le_val_Cons: "le_val (b # bs) = unat b + 256 * le_val bs"
  by (simp add: le_val_def)

lemma xor_split:
  assumes "x < 256" "y < 256"
  shows "(x + 256 * m) XOR (y + 256 * n) = (x XOR y) + 256 * (m XOR n :: nat)"
proof -
  let ?a = "x + 256 * m" and ?b = "y + 256 * n"
  have t: "take_bit 8 ?a = x" "take_bit 8 ?b = y" "drop_bit 8 ?a = m" "drop_bit 8 ?b = n"
    using assms by (simp_all add: take_bit_eq_mod drop_bit_eq_div)
  have "?a XOR ?b = push_bit 8 (drop_bit 8 (?a XOR ?b)) + take_bit 8 (?a XOR ?b)" by (rule bits_ident [symmetric])
  also have "\<dots> = push_bit 8 (m XOR n) + (x XOR y)" by (simp only: drop_bit_xor take_bit_xor t)
  finally show ?thesis by (simp add: push_bit_eq_mult)
qed

lemma le_val_xor: "length a = length b \<Longrightarrow> le_val (xor_bytes a b) = le_val a XOR le_val b"
proof (induction a b rule: list_induct2)
  case Nil
  then show ?case by (simp add: le_val_def xor_bytes_def)
next
  case (Cons x xs y ys)
  then show ?case by (simp add: le_val_Cons xor_bytes_def xor_split unsigned_xor_eq)
qed

lemma le_bytes_xor:
  assumes "length a = 8" "length b = 8"
  shows "le_bytes 8 (unat (word_of_nat (le_val a) XOR word_of_nat (le_val b) :: u64)) = xor_bytes a b"
proof -
  have "unat (word_of_nat (le_val c) :: u64) = le_val c" if "length c = 8" for c
    using le_val_bound [of c] that by (intro unat_word_of_nat_u64) simp
  then have "unat (word_of_nat (le_val a) XOR word_of_nat (le_val b) :: u64) = le_val (xor_bytes a b)"
    using assms by (simp add: unsigned_xor_eq le_val_xor)
  then show ?thesis using le_bytes_le_val [of "xor_bytes a b"] assms by simp
qed

lemma le_bytes_word: "length a = 8 \<Longrightarrow> le_bytes 8 (unat (word_of_nat (le_val a) :: u64)) = a"
  using le_bytes_le_val [of a] le_val_bound [of a] by (simp add: unat_word_of_nat_u64)

subsection \<open>The shape of the stream modes\<close>

text \<open>
  The four stream modes are the same three loops: single bytes while the current block of key stream lasts,
  whole blocks by words, and the rest by bytes after a last call of the cipher. They differ in what is done
  to the state before a block (\<open>next_block\<close>), for a byte (\<open>byte\<close>) and for 16 bytes (\<open>words\<close>). \<open>n\<close> is \<open>*num\<close>,
  the position in the current block.
\<close>

type_synonym 's byte_step = "'s \<Rightarrow> nat \<Rightarrow> u8 \<Rightarrow> u8 \<times> 's"
type_synonym 's words_step = "'s \<Rightarrow> bytes \<Rightarrow> bytes \<times> 's"

text \<open>\<open>while (n && len)\<close>: the output, the state, \<open>n\<close> and the input left.\<close>

primrec head_loop :: "'s byte_step \<Rightarrow> bytes \<Rightarrow> 's \<Rightarrow> nat \<Rightarrow> bytes \<times> 's \<times> nat \<times> bytes" where
  "head_loop byte [] s n = ([], s, n, [])"
| "head_loop byte (x # xs) s n =
     (if n = 0 then ([], s, n, x # xs)
      else
        case byte s n x of
          (y, s) \<Rightarrow>
            (case head_loop byte xs s ((n + 1) mod 16) of
               (out, s, n, rest) \<Rightarrow> (y # out, s, n, rest)))"

text \<open>\<open>while (len >= 16)\<close>\<close>

function block_loop :: "('s \<Rightarrow> 's) \<Rightarrow> 's words_step \<Rightarrow> bytes \<Rightarrow> 's \<Rightarrow> nat \<Rightarrow> bytes \<times> 's \<times> nat \<times> bytes" where
  "block_loop next_block words xs s n =
     (if 16 \<le> length xs then
        case words (next_block s) xs of
          (y, s) \<Rightarrow>
            (case block_loop next_block words (drop 16 xs) s 0 of
               (out, s, n, rest) \<Rightarrow> (y @ out, s, n, rest))
      else ([], s, n, xs))"
  by pat_completeness auto
termination
  by (relation "measure (\<lambda>(next_block, words, xs, s, n). length xs)") auto

declare block_loop.simps [simp del]

text \<open>\<open>while (len--)\<close> of the last block.\<close>

primrec tail_loop :: "'s byte_step \<Rightarrow> bytes \<Rightarrow> 's \<Rightarrow> nat \<Rightarrow> bytes \<times> 's \<times> nat" where
  "tail_loop byte [] s n = ([], s, n)"
| "tail_loop byte (x # xs) s n =
     (case byte s n x of
        (y, s) \<Rightarrow> (case tail_loop byte xs s (n + 1) of (out, s, n) \<Rightarrow> (y # out, s, n)))"

definition stream_mode :: "('s \<Rightarrow> 's) \<Rightarrow> 's byte_step \<Rightarrow> 's words_step \<Rightarrow> bytes \<Rightarrow> 's \<Rightarrow> nat \<Rightarrow> bytes \<times> 's \<times> nat" where
  "stream_mode next_block byte words xs s n =
     (case head_loop byte xs s n of
        (out1, s, n, xs) \<Rightarrow>
          (case block_loop next_block words xs s n of
             (out2, s, n, xs) \<Rightarrow>
               (case (if xs \<noteq> [] then tail_loop byte xs (next_block s) n else ([], s, n)) of
                  (out3, s, n) \<Rightarrow> (out1 @ out2 @ out3, s, n))))"

text \<open>\<open>for (n = 0; n < 16; n += sizeof(size_t))\<close>, storing the xor of two arrays.\<close>

definition xor_words :: "bytes \<Rightarrow> bytes \<Rightarrow> bytes" where
  "xor_words a b = concat (map (\<lambda>n. le_bytes 8 (unat (load_word_le a n XOR load_word_le b n))) [0, 8])"

subsection \<open>Counter mode\<close>

text \<open>The loop of \<open>ctr128_inc\<close> and \<open>ctr96_inc\<close>, from byte \<open>n - 1\<close> down.\<close>

primrec inc_loop :: "nat \<Rightarrow> u32 \<Rightarrow> bytes \<Rightarrow> bytes" where
  "inc_loop 0 c counter = counter"
| "inc_loop (Suc n) c counter =
     (let c = c + ucast (counter ! n)
      in inc_loop n (drop_bit 8 c) (counter[n := ucast c]))"

definition ctr128_inc :: "bytes \<Rightarrow> bytes" where "ctr128_inc counter = inc_loop 16 1 counter"
definition ctr96_inc :: "bytes \<Rightarrow> bytes" where "ctr96_inc counter = inc_loop 12 1 counter"

text \<open>The state is \<open>ivec\<close> and \<open>ecount_buf\<close>.\<close>

definition ctr_next :: "(bytes \<Rightarrow> bytes) \<Rightarrow> bytes \<times> bytes \<Rightarrow> bytes \<times> bytes" where
  "ctr_next block s = (case s of (ivec, ecount_buf) \<Rightarrow> (ctr128_inc ivec, block ivec))"

definition ctr_byte :: "(bytes \<times> bytes) byte_step" where
  "ctr_byte s n x = (x XOR snd s ! n, s)"

definition ctr_words :: "(bytes \<times> bytes) words_step" where
  "ctr_words s xs = (xor_words xs (snd s), s)"

definition CRYPTO_ctr128_encrypt ::
  "(bytes \<Rightarrow> bytes) \<Rightarrow> bytes \<Rightarrow> bytes \<times> bytes \<Rightarrow> nat \<Rightarrow> bytes \<times> (bytes \<times> bytes) \<times> nat" where
  "CRYPTO_ctr128_encrypt block = stream_mode (ctr_next block) ctr_byte ctr_words"

subsection \<open>Output feedback mode\<close>

definition ofb_byte :: "bytes byte_step" where
  "ofb_byte ivec n x = (x XOR ivec ! n, ivec)"

definition ofb_words :: "bytes words_step" where
  "ofb_words ivec xs = (xor_words xs ivec, ivec)"

definition CRYPTO_ofb128_encrypt :: "(bytes \<Rightarrow> bytes) \<Rightarrow> bytes \<Rightarrow> bytes \<Rightarrow> nat \<Rightarrow> bytes \<times> bytes \<times> nat" where
  "CRYPTO_ofb128_encrypt block = stream_mode block ofb_byte ofb_words"

subsection \<open>Cipher feedback mode\<close>

definition cfb_byte :: "bool \<Rightarrow> bytes byte_step" where
  "cfb_byte enc ivec n x =
     (if enc then let y = ivec ! n XOR x in (y, ivec[n := y])
      else (ivec ! n XOR x, ivec[n := x]))"

text \<open>One word of a block: the word for the output, and \<open>ivec\<close>.\<close>

definition cfb_word :: "bool \<Rightarrow> nat \<Rightarrow> bytes \<Rightarrow> bytes \<Rightarrow> u64 \<times> bytes" where
  "cfb_word enc n ivec xs =
     (if enc then
        let tmp = load_word_le ivec n XOR load_word_le xs n in (tmp, store_word_le ivec n tmp)
      else
        let t = load_word_le xs n in (load_word_le ivec n XOR t, store_word_le ivec n t))"

definition cfb_words :: "bool \<Rightarrow> bytes words_step" where
  "cfb_words enc ivec xs =
     (case cfb_word enc 0 ivec xs of
        (y0, ivec) \<Rightarrow>
          (case cfb_word enc 8 ivec xs of
             (y8, ivec) \<Rightarrow> (le_bytes 8 (unat y0) @ le_bytes 8 (unat y8), ivec)))"

definition CRYPTO_cfb128_encrypt :: "bool \<Rightarrow> (bytes \<Rightarrow> bytes) \<Rightarrow> bytes \<Rightarrow> bytes \<Rightarrow> nat \<Rightarrow> bytes \<times> bytes \<times> nat" where
  "CRYPTO_cfb128_encrypt enc block = stream_mode block (cfb_byte enc) (cfb_words enc)"

subsection \<open>The byte-wise reference\<close>

text \<open>One byte after the other, calling the cipher at the start of each block.\<close>

primrec stream_ref :: "('s \<Rightarrow> 's) \<Rightarrow> 's byte_step \<Rightarrow> bytes \<Rightarrow> 's \<Rightarrow> nat \<Rightarrow> bytes \<times> 's \<times> nat" where
  "stream_ref next_block byte [] s n = ([], s, n)"
| "stream_ref next_block byte (x # xs) s n =
     (case byte (if n = 0 then next_block s else s) n x of
        (y, s) \<Rightarrow> (case stream_ref next_block byte xs s ((n + 1) mod 16) of (out, s, n) \<Rightarrow> (y # out, s, n)))"

lemma stream_ref_append:
  "stream_ref next_block byte (xs @ ys) s n =
     (case stream_ref next_block byte xs s n of
        (out1, s, n) \<Rightarrow> (case stream_ref next_block byte ys s n of (out2, s, n) \<Rightarrow> (out1 @ out2, s, n)))"
  by (induction xs arbitrary: s n) (simp_all add: split_beta)

lemma tail_loop_append:
  "tail_loop byte (xs @ ys) s n =
     (case tail_loop byte xs s n of
        (out1, s, n) \<Rightarrow> (case tail_loop byte ys s n of (out2, s, n) \<Rightarrow> (out1 @ out2, s, n)))"
  by (induction xs arbitrary: s n) (simp_all add: split_beta)

lemma stream_ref_tail:
  "0 < n \<Longrightarrow> n + length xs < 16 \<Longrightarrow> stream_ref next_block byte xs s n = tail_loop byte xs s n"
  by (induction xs arbitrary: s n) (simp_all add: split_beta)

lemma stream_ref_block:
  assumes "length xs \<le> 16" "xs \<noteq> []"
  shows "stream_ref next_block byte xs s 0 =
    (case tail_loop byte xs (next_block s) 0 of (out, s, n) \<Rightarrow> (out, s, length xs mod 16))"
proof -
  have count: "snd (snd (tail_loop byte ys s n)) = n + length ys" for ys and s :: 'a and n
    by (induction ys arbitrary: s n) (simp_all add: split_beta)
  obtain ys z where xs: "xs = ys @ [z]" using assms(2) by (cases xs rule: rev_cases) auto
  obtain out s' n where t: "tail_loop byte ys (next_block s) 0 = (out, s', n)" by (metis surj_pair)
  have n: "n = length ys" using count [of ys "next_block s" 0] t by simp
  show ?thesis
  proof (cases ys)
    case Nil
    then show ?thesis by (simp add: xs split_beta)
  next
    case (Cons y ys')
    then have "stream_ref next_block byte ys s 0 = tail_loop byte ys (next_block s) 0"
      using stream_ref_tail [where n = "Suc 0" and xs = ys' and next_block = next_block and byte = byte] assms(1) xs
      by (simp add: split_beta)
    with Cons show ?thesis using t by (simp add: xs stream_ref_append tail_loop_append n split_beta)
  qed
qed

lemma head_loop_ref:
  assumes "n < 16" "head_loop byte xs s n = (out1, s1, n1, rest)"
  shows "stream_ref next_block byte xs s n =
      (case stream_ref next_block byte rest s1 n1 of (out2, s, n) \<Rightarrow> (out1 @ out2, s, n))
    \<and> (rest \<noteq> [] \<longrightarrow> n1 = 0) \<and> n1 < 16"
  using assms
proof (induction xs arbitrary: s n out1)
  case (Cons x xs)
  show ?case
  proof (cases "n = 0")
    case False
    obtain y s' where y: "byte s n x = (y, s')" by fastforce
    obtain out where h: "head_loop byte xs s' ((n + 1) mod 16) = (out, s1, n1, rest)" "out1 = y # out"
      using Cons.prems(2) False y by (auto split: prod.splits)
    have "(n + 1) mod 16 < 16" by simp
    from Cons.IH [OF this h(1)] show ?thesis using False y h(2) by (simp add: split_beta)
  qed (use Cons.prems in \<open>auto simp: split_beta\<close>)
qed simp

text \<open>Going by words is going by bytes.\<close>

definition words_ok :: "('s \<Rightarrow> bool) \<Rightarrow> 's byte_step \<Rightarrow> 's words_step \<Rightarrow> bool" where
  "words_ok I byte words \<longleftrightarrow>
     (\<forall>s xs. I s \<longrightarrow> 16 \<le> length xs \<longrightarrow>
        words s xs = (case tail_loop byte (take 16 xs) s 0 of (out, s, n) \<Rightarrow> (out, s)) \<and> I (snd (words s xs)))"

lemma block_loop_ref:
  assumes w: "words_ok I byte words" and I: "\<And>s. J s \<Longrightarrow> I (next_block s)" "\<And>s. I s \<Longrightarrow> J s"
  shows "block_loop next_block words xs s n = (out1, s1, n1, rest) \<Longrightarrow> J s \<Longrightarrow> (16 \<le> length xs \<Longrightarrow> n = 0) \<Longrightarrow>
    stream_ref next_block byte xs s n = (case stream_ref next_block byte rest s1 n1 of (out2, s, n) \<Rightarrow> (out1 @ out2, s, n)) \<and>
    length rest < 16 \<and> n1 = (if 16 \<le> length xs then 0 else n) \<and> (length xs < 16 \<longrightarrow> rest = xs)"
proof (induction "length xs" arbitrary: xs s n out1 rule: less_induct)
  case less
  show ?case
  proof (cases "16 \<le> length xs")
    case False
    then show ?thesis using less.prems(1) by (simp add: block_loop.simps [of _ _ xs] split_beta)
  next
    case True
    obtain y s' where y: "words (next_block s) xs = (y, s')" by fastforce
    obtain m where t: "tail_loop byte (take 16 xs) (next_block s) 0 = (y, s', m)" and s': "I s'"
      using w [unfolded words_ok_def, rule_format, OF I(1) [OF less.prems(2)] True] y
      by (cases "tail_loop byte (take 16 xs) (next_block s) 0") auto
    obtain out where o: "block_loop next_block words (drop 16 xs) s' 0 = (out, s1, n1, rest)" "out1 = y @ out"
      using less.prems(1) True y by (auto simp: block_loop.simps [of _ _ xs] split: prod.splits)
    have l: "length (drop 16 xs) < length xs" using True by simp
    have "stream_ref next_block byte (take 16 xs) s 0 = (y, s', 0)"
      using True t by (subst stream_ref_block) (auto simp: min_def)
    then have "stream_ref next_block byte xs s 0 =
        (case stream_ref next_block byte (drop 16 xs) s' 0 of (out2, s, n) \<Rightarrow> (y @ out2, s, n))"
      using stream_ref_append [of next_block byte "take 16 xs" "drop 16 xs" s 0] by simp
    with less.hyps [OF l o(1) I(2) [OF s']] less.prems(3) True o(2) show ?thesis by (auto simp: split_beta)
  qed
qed

lemma stream_mode_ref:
  assumes w: "words_ok I byte words" and I: "\<And>s. J s \<Longrightarrow> I (next_block s)" "\<And>s. I s \<Longrightarrow> J s"
    and step: "\<And>s n x. J s \<Longrightarrow> J (snd (byte s n x))" and s: "J s" and n: "n < 16"
  shows "stream_mode next_block byte words xs s n = stream_ref next_block byte xs s n"
proof -
  obtain out1 s1 n1 xs1 where h: "head_loop byte xs s n = (out1, s1, n1, xs1)" by (metis surj_pair)
  note 1 = head_loop_ref [OF n h, of next_block]
  have "J (fst (snd (head_loop byte xs s n)))" for xs n using s
    by (induction xs arbitrary: s n) (auto simp: split_beta step)
  then have "J (fst (snd (head_loop byte xs s n)))" .
  then have J1: "J s1" using h by simp
  obtain out2 s2 n2 xs2 where b: "block_loop next_block words xs1 s1 n1 = (out2, s2, n2, xs2)" by (metis surj_pair)
  have z: "16 \<le> length xs1 \<Longrightarrow> n1 = 0" using 1 by (cases xs1) auto
  note 2 = block_loop_ref [where J = J and I = I and next_block = next_block, OF w I b J1 z]
  have n2: "xs2 \<noteq> [] \<Longrightarrow> n2 = 0" using 1 2 by (auto split: if_splits)
  have count: "snd (snd (tail_loop byte ys s n)) = n + length ys" for ys and s :: 'a and n
    by (induction ys arbitrary: s n) (simp_all add: split_beta)
  have 3: "stream_ref next_block byte xs2 s2 n2 = (if xs2 \<noteq> [] then tail_loop byte xs2 (next_block s2) n2 else ([], s2, n2))"
  proof (cases "xs2 = []")
    case False
    have "length xs2 < 16" using 2 by simp
    then show ?thesis using False n2 [OF False] count [of xs2 "next_block s2" 0]
      by (subst n2 [OF False], subst stream_ref_block) (auto simp: split_beta prod_eq_iff)
  qed simp
  show ?thesis using 1 2 3 by (simp add: stream_mode_def h b split_beta)
qed

lemma stream_ref_inverse:
  assumes "\<And>s n x. byte' s n (fst (byte s n x)) = (x, snd (byte s n x))"
  shows "stream_ref next_block byte xs s n = (ys, t) \<Longrightarrow> stream_ref next_block byte' ys s n = (xs, t)"
proof (induction xs arbitrary: s n ys)
  case (Cons x xs)
  let ?s = "if n = 0 then next_block s else s"
  obtain y s' where y: "byte ?s n x = (y, s')" by fastforce
  obtain out where o: "stream_ref next_block byte xs s' ((n + 1) mod 16) = (out, t)" "ys = y # out"
    using Cons.prems y by (auto split: prod.splits)
  have "byte' ?s n y = (x, s')" using assms [of ?s n x] y by simp
  with Cons.IH [OF o(1)] o(2) show ?case by (simp add: split_beta)
qed simp

lemma xor_halves:
  assumes "length a = 16" "length b = 16"
  shows "xor_bytes a b = xor_bytes (take 8 a) (take 8 b) @ xor_bytes (drop 8 a) (drop 8 b)"
  using xor_bytes_append [of "take 8 a" "take 8 b" "drop 8 a" "drop 8 b"] assms by simp

lemma xor_words_bytes:
  assumes "16 \<le> length xs" "length b = 16"
  shows "xor_words xs b = xor_bytes (take 16 xs) b"
  using assms xor_halves [of "take 16 xs" b] by (simp add: xor_words_def load_word_le_def le_bytes_xor drop_take)

lemma drop_nth_Cons: "n < length b \<Longrightarrow> drop n b = b ! n # drop (Suc n) b"
  by (rule Cons_nth_drop_Suc [symmetric])

subsection \<open>The modes and their references\<close>

lemma ctr_tail: "n + length xs \<le> length (snd s) \<Longrightarrow> tail_loop ctr_byte xs s n = (xor_bytes xs (drop n (snd s)), s, n + length xs)"
proof (induction xs arbitrary: n)
  case (Cons x xs)
  then have "drop n (snd s) = snd s ! n # drop (Suc n) (snd s)" by (intro drop_nth_Cons) simp
  then show ?case using Cons.IH [of "Suc n"] Cons.prems by (simp add: ctr_byte_def xor_bytes_def)
qed (simp add: xor_bytes_def)

lemma ofb_tail: "n + length xs \<le> length iv \<Longrightarrow> tail_loop ofb_byte xs iv n = (xor_bytes xs (drop n iv), iv, n + length xs)"
proof (induction xs arbitrary: n)
  case (Cons x xs)
  then have "drop n iv = iv ! n # drop (Suc n) iv" by (intro drop_nth_Cons) simp
  then show ?case using Cons.IH [of "Suc n"] Cons.prems by (simp add: ofb_byte_def xor_bytes_def)
qed (simp add: xor_bytes_def)

lemma cfb_tail:
  "n + length xs \<le> length iv \<Longrightarrow> tail_loop (cfb_byte enc) xs iv n =
    (let ys = xor_bytes (take (length xs) (drop n iv)) xs
     in (ys, take n iv @ (if enc then ys else xs) @ drop (n + length xs) iv, n + length xs))"
proof (induction xs arbitrary: n iv)
  case Nil
  then show ?case by (simp add: xor_bytes_def)
next
  case (Cons x xs)
  let ?y = "iv ! n XOR x"
  let ?z = "if enc then ?y else x"
  have n: "n < length iv" "Suc n + length xs \<le> length (iv[n := ?z])" using Cons.prems by simp_all
  have d: "drop n iv = iv ! n # drop (Suc n) iv" by (rule drop_nth_Cons [OF n(1)])
  have t: "take (Suc n) (iv[n := ?z]) = take n iv @ [?z]" using n(1) by (simp add: take_Suc_conv_app_nth)
  have "cfb_byte enc iv n x = (?y, iv[n := ?z])" by (simp add: cfb_byte_def Let_def)
  moreover have "drop (Suc n) (iv[n := ?z]) = drop (Suc n) iv" "drop (Suc n + length xs) (iv[n := ?z]) = drop (Suc n + length xs) iv" by simp_all
  ultimately show ?case using Cons.IH [OF n(2)] t by (simp add: d xor_bytes_def Let_def)
qed

lemma load_word_block: "length b = 16 \<Longrightarrow> take 8 b @ take 8 (drop 8 b) = b"
  using append_take_drop_id [of 8 b] by simp

lemma store_words_block:
  assumes "length b = 16"
  shows "store_word_le (store_word_le b 0 v) 8 w = le_bytes 8 (unat v) @ le_bytes 8 (unat w)"
    "load_word_le (store_word_le b 0 v) 8 = load_word_le b 8"
  using assms by (simp_all add: store_word_le_def load_word_le_def blit_def)

lemma cfb_words_bytes:
  assumes "16 \<le> length xs" "length iv = 16"
  shows "cfb_words enc iv xs =
    (let ys = xor_bytes iv (take 16 xs) in (ys, if enc then ys else take 16 xs))"
proof -
  have p: "take 16 xs = take 8 xs @ take 8 (drop 8 xs)" using take_add [of 8 8 xs] by simp
  show ?thesis
    using assms xor_halves [of iv "take 16 xs"]
    by (simp add: cfb_words_def cfb_word_def Let_def store_words_block) (simp add: load_word_le_def le_bytes_xor le_bytes_word drop_take p)
qed

lemma ctr_words_ok: "words_ok (\<lambda>s. length (fst s) = 16 \<and> length (snd s) = 16) ctr_byte ctr_words"
  by (simp add: words_ok_def ctr_words_def ctr_tail xor_words_bytes)

lemma ofb_words_ok: "words_ok (\<lambda>iv. length iv = 16) ofb_byte ofb_words"
  by (simp add: words_ok_def ofb_words_def ofb_tail xor_words_bytes)

lemma cfb_words_ok: "words_ok (\<lambda>iv. length iv = 16) (cfb_byte enc) (cfb_words enc)"
  by (simp add: words_ok_def cfb_tail cfb_words_bytes Let_def)

lemma length_inc_loop [simp]: "length (inc_loop n c counter) = length counter"
  by (induction n arbitrary: c counter) (simp_all add: Let_def)

lemma length_ctr_inc [simp]: "length (ctr128_inc c) = length c" "length (ctr96_inc c) = length c"
  by (simp_all add: ctr128_inc_def ctr96_inc_def)

lemma ctr_ref:
  assumes "\<And>b. length b = 16 \<Longrightarrow> length (block b) = 16" "length (fst s) = 16" "n < 16"
  shows "CRYPTO_ctr128_encrypt block xs s n = stream_ref (ctr_next block) ctr_byte xs s n"
  unfolding CRYPTO_ctr128_encrypt_def
  by (rule stream_mode_ref [OF ctr_words_ok, where J = "\<lambda>s. length (fst s) = 16"])
    (use assms in \<open>auto simp: ctr_next_def ctr_byte_def split_beta\<close>)

lemma ofb_ref:
  assumes "\<And>b. length b = 16 \<Longrightarrow> length (block b) = 16" "length iv = 16" "n < 16"
  shows "CRYPTO_ofb128_encrypt block xs iv n = stream_ref block ofb_byte xs iv n"
  unfolding CRYPTO_ofb128_encrypt_def
  by (rule stream_mode_ref [OF ofb_words_ok, where J = "\<lambda>iv. length iv = 16"]) (use assms in \<open>auto simp: ofb_byte_def\<close>)

lemma cfb_ref:
  assumes "\<And>b. length b = 16 \<Longrightarrow> length (block b) = 16" "length iv = 16" "n < 16"
  shows "CRYPTO_cfb128_encrypt enc block xs iv n = stream_ref block (cfb_byte enc) xs iv n"
  unfolding CRYPTO_cfb128_encrypt_def
  by (rule stream_mode_ref [OF cfb_words_ok, where J = "\<lambda>iv. length iv = 16"]) (use assms in \<open>auto simp: cfb_byte_def Let_def\<close>)

subsection \<open>The counter\<close>

lemma inc_loop_val:
  "n \<le> length b \<Longrightarrow> unat c < 2 ^ 24 \<Longrightarrow>
    be_val (take n (inc_loop n c b)) = (be_val (take n b) + unat c) mod 256 ^ n \<and> drop n (inc_loop n c b) = drop n b"
proof (induction n arbitrary: c b)
  case (Suc n)
  let ?c = "c + ucast (b ! n)"
  let ?b = "b[n := ucast ?c]"
  have n: "n < length b" "n \<le> length ?b" using Suc.prems(1) by simp_all
  have u: "unat ?c = unat c + unat (b ! n)"
  proof -
    have "unat c < 16777216" using Suc.prems(2) by simp
    then have "unat c + unat (b ! n) < 4294967296" using unat_u8_bound [of "b ! n"] by linarith
    then show ?thesis by (simp add: unat_word_ariths unat_ucast_up mod_less)
  qed
  then have carry: "unat (drop_bit 8 ?c) = (unat c + unat (b ! n)) div 256" using u by (simp add: unat_drop_bit)
  have low: "unat (ucast ?c :: u8) = (unat c + unat (b ! n)) mod 256" by (simp add: unsigned_ucast_eq take_bit_eq_mod u)
  have "unat c < 16777216" using Suc.prems(2) by simp
  then have "unat c + unat (b ! n) < 16777216 * 256" using unat_u8_bound [of "b ! n"] by linarith
  then have "unat (drop_bit 8 ?c) < 2 ^ 24" using less_mult_imp_div_less [of _ 16777216 256] by (simp add: carry)
  note ih = Suc.IH [OF n(2) this]
  let ?r = "inc_loop n (drop_bit 8 ?c) ?b"
  have d: "drop n ?r = ucast ?c # drop (Suc n) b" using ih n(1) by (simp add: drop_nth_Cons)
  have "take (Suc n) ?r = take n ?r @ [ucast ?c]"
    using d n(1) by (simp add: take_Suc_conv_app_nth) (metis nth_via_drop)
  moreover have "take (Suc n) b = take n b @ [b ! n]" using n(1) by (rule take_Suc_conv_app_nth)
  moreover have "drop (Suc n) ?r = drop (Suc n) b" using d by (metis drop_Suc list.sel(3) tl_drop)
  moreover have "((x + y div 256) mod m) * 256 + y mod 256 = (x * 256 + y) mod (256 * m)" for x y m :: nat
  proof -
    have "(x * 256 + y) div 256 = x + y div 256" "(x * 256 + y) mod 256 = y mod 256" by simp_all
    then show ?thesis using mod_mult2_eq [of "x * 256 + y" 256 m] by simp
  qed
  note arith = this [of "be_val (take n b)" "unat c + unat (b ! n)" "256 ^ n"]
  ultimately show ?case using ih n(1) carry low by (simp add: Let_def arith add.assoc add.commute [of "unat c"])
qed simp

lemma ctr128_inc_val: "length b = 16 \<Longrightarrow> be_val (ctr128_inc b) = (be_val b + 1) mod 2 ^ 128"
  using inc_loop_val [of 16 b 1] by (simp add: ctr128_inc_def)

subsection \<open>Counter mode over a 32-bit counter\<close>

text \<open>\<open>GETU32(ivec + 12)\<close> and \<open>PUTU32(ivec + 12, v)\<close>.\<close>

definition GETU32 :: "bytes \<Rightarrow> u32" where "GETU32 ivec = word_of_nat (be_val (take 4 (drop 12 ivec)))"
definition PUTU32 :: "u32 \<Rightarrow> bytes \<Rightarrow> bytes" where "PUTU32 v ivec = blit 12 (be_bytes 4 (unat v)) ivec"

text \<open>
  \<open>func\<close> is the optimised function: it gets the input, the number of blocks and \<open>ivec\<close>. The number of blocks of
  a call and the counter after it.
\<close>

definition ctr32_blocks :: "nat \<Rightarrow> u32 \<Rightarrow> nat \<times> u32" where
  "ctr32_blocks len ctr32 =
     (let nblocks = len div 16;
          nblocks = (if nblocks > 2 ^ 28 then 2 ^ 28 else nblocks);
          ctr32 = ctr32 + word_of_nat nblocks
      in if unat ctr32 < nblocks then (nblocks - unat ctr32, 0) else (nblocks, ctr32))"

definition ctr32_advance :: "u32 \<Rightarrow> bytes \<Rightarrow> bytes" where
  "ctr32_advance ctr32 ivec = (let ivec = PUTU32 ctr32 ivec in if ctr32 = 0 then ctr96_inc ivec else ivec)"

function ctr32_loop :: "(bytes \<Rightarrow> nat \<Rightarrow> bytes \<Rightarrow> bytes) \<Rightarrow> bytes \<Rightarrow> bytes \<Rightarrow> u32 \<Rightarrow> bytes \<times> bytes \<times> bytes \<times> u32" where
  "ctr32_loop func xs ivec ctr32 =
     (if 16 \<le> length xs then
        case ctr32_blocks (length xs) ctr32 of
          (nblocks, ctr32) \<Rightarrow>
            (case ctr32_loop func (drop (16 * nblocks) xs) (ctr32_advance ctr32 ivec) ctr32 of
               (out, r) \<Rightarrow> (func (take (16 * nblocks) xs) nblocks ivec @ out, r))
      else ([], xs, ivec, ctr32))"
  by pat_completeness auto

lemma ctr32_blocks_bound:
  assumes "16 \<le> len" "ctr32_blocks len c = (nblocks, c')"
  shows "0 < nblocks" "16 * nblocks \<le> len" "unat c + nblocks \<le> 2 ^ 32" "c' = c + word_of_nat nblocks"
proof -
  define k where "k = min (len div 16) (2 ^ 28)"
  have k: "0 < k" "k \<le> len div 16" "k \<le> 2 ^ 28" using assms(1) by (simp_all add: k_def div_greater_zero_iff)
  have e: "(if 2 ^ 28 < len div 16 then 2 ^ 28 else len div 16) = k" by (simp add: k_def min_def)
  have r: "(nblocks, c') = (if unat (c + word_of_nat k) < k then (k - unat (c + word_of_nat k), 0) else (k, c + word_of_nat k))"
    using assms(2) unfolding ctr32_blocks_def Let_def e by simp
  have u: "unat (c + word_of_nat k) = (unat c + k) mod 2 ^ 32" using k(3) by (simp add: unat_word_ariths unat_of_nat)
  have c: "unat c < 2 ^ 32" using unsigned_less [of c, where ?'a = nat] by simp
  have all: "0 < nblocks \<and> nblocks \<le> k \<and> unat c + nblocks \<le> 2 ^ 32 \<and> c' = c + word_of_nat nblocks"
  proof (cases "unat c + k < 2 ^ 32")
    case True
    then have "unat (c + word_of_nat k) = unat c + k" by (simp add: u)
    with r True k(1) show ?thesis by simp
  next
    case False
    then have m: "unat (c + word_of_nat k) = unat c + k - 2 ^ 32" using c k(3) by (simp add: u mod_if)
    then have less: "unat (c + word_of_nat k) < k" using c k(1) False by linarith
    then have b: "nblocks = 2 ^ 32 - unat c" "c' = 0" using r m False by simp_all
    have "c + word_of_nat (2 ^ 32 - unat c) = (word_of_nat (unat c + (2 ^ 32 - unat c)) :: u32)" by simp
    also have "\<dots> = 0" using c by (simp add: word_of_nat_eq_0_iff)
    finally have "c + word_of_nat (2 ^ 32 - unat c) = 0" .
    with b c less m False show ?thesis by auto
  qed
  have "16 * k \<le> len" using k(2) by (simp add: less_eq_div_iff_mult_less_eq mult.commute)
  moreover have "16 * nblocks \<le> 16 * k" using all by simp
  ultimately show "0 < nblocks" "16 * nblocks \<le> len" "unat c + nblocks \<le> 2 ^ 32" "c' = c + word_of_nat nblocks"
    using all by (simp_all del: mult_le_cancel1)
qed

lemma ctr32_blocks_less: "16 \<le> len \<Longrightarrow> (nblocks, c') = ctr32_blocks len c \<Longrightarrow> len - 16 * nblocks < len"
  using ctr32_blocks_bound(1,2) [of len c nblocks c'] by simp

termination ctr32_loop
  by (relation "measure (\<lambda>(func, xs, ivec, ctr32). length xs)") (auto simp: ctr32_blocks_less)

declare ctr32_loop.simps [simp del]

definition CRYPTO_ctr128_encrypt_ctr32 ::
  "(bytes \<Rightarrow> nat \<Rightarrow> bytes \<Rightarrow> bytes) \<Rightarrow> bytes \<Rightarrow> bytes \<times> bytes \<Rightarrow> nat \<Rightarrow> bytes \<times> (bytes \<times> bytes) \<times> nat" where
  "CRYPTO_ctr128_encrypt_ctr32 func xs s n =
     (case head_loop ctr_byte xs s n of
        (out1, (ivec, ecount_buf), n, xs) \<Rightarrow>
          (case ctr32_loop func xs ivec (GETU32 ivec) of
             (out2, xs, ivec, ctr32) \<Rightarrow>
               (case (if xs \<noteq> [] then
                        tail_loop ctr_byte xs (ctr32_advance (ctr32 + 1) ivec, func (replicate 16 0) 1 ivec) n
                      else ([], (ivec, ecount_buf), n)) of
                  (out3, s, n) \<Rightarrow> (out1 @ out2 @ out3, s, n))))"

text \<open>
  What is documented of \<open>func\<close>: it performs counter mode and only deals with the lower 32 bits of the
  counter, which wrap around.
\<close>

primrec ctr32_spec :: "(bytes \<Rightarrow> bytes) \<Rightarrow> bytes \<Rightarrow> nat \<Rightarrow> bytes \<Rightarrow> bytes" where
  "ctr32_spec block xs 0 iv = []"
| "ctr32_spec block xs (Suc k) iv =
     xor_bytes (take 16 xs) (block iv) @ ctr32_spec block (drop 16 xs) k (PUTU32 (GETU32 iv + 1) iv)"

lemma PUTU32_split: "length iv = 16 \<Longrightarrow> PUTU32 v iv = take 12 iv @ be_bytes 4 (unat v)"
  by (simp add: PUTU32_def blit_def)

lemma length_PUTU32 [simp]: "length iv = 16 \<Longrightarrow> length (PUTU32 v iv) = 16"
  by (simp add: PUTU32_split)

lemma be_val_u32: "be_val (be_bytes 4 (unat (v :: u32))) = unat v"
  using unsigned_less [of v, where ?'a = nat] by (simp add: be_val_be_bytes_id)

lemma GETU32_PUTU32: "length iv = 16 \<Longrightarrow> GETU32 (PUTU32 v iv) = v"
  by (simp add: GETU32_def PUTU32_split be_val_u32)

lemma PUTU32_PUTU32: "length iv = 16 \<Longrightarrow> PUTU32 w (PUTU32 v iv) = PUTU32 w iv"
  using PUTU32_split [of "PUTU32 v iv" w] PUTU32_split [of iv] by simp

lemma ctr96_split:
  assumes "length iv = 16"
  shows "drop 12 (ctr96_inc iv) = drop 12 iv" "be_val (take 12 (ctr96_inc iv)) = (be_val (take 12 iv) + 1) mod 2 ^ 96"
  using inc_loop_val [of 12 iv 1] assms by (simp_all add: ctr96_inc_def)

lemma GETU32_advance: "length iv = 16 \<Longrightarrow> GETU32 (ctr32_advance v iv) = v"
  using ctr96_split(1) [of "PUTU32 v iv"] GETU32_PUTU32 [of iv v]
  by (cases "v = 0") (simp_all add: ctr32_advance_def Let_def GETU32_def)

lemma length_advance [simp]: "length iv = 16 \<Longrightarrow> length (ctr32_advance v iv) = 16"
  by (simp add: ctr32_advance_def Let_def)

lemma GETU32_val: "length iv = 16 \<Longrightarrow> unat (GETU32 iv) = be_val (drop 12 iv)"
  using be_val_bound [of "drop 12 iv"] by (simp add: GETU32_def unat_of_nat)

lemma ctr128_inc_advance:
  assumes iv: "length iv = 16"
  shows "ctr128_inc iv = ctr32_advance (GETU32 iv + 1) iv"
proof (rule be_val_inj)
  let ?hi = "be_val (take 12 iv)" and ?lo = "be_val (drop 12 iv)" and ?v = "GETU32 iv + 1"
  have lo: "?lo < 2 ^ 32" "unat ?v = (?lo + 1) mod 2 ^ 32"
    using be_val_bound [of "drop 12 iv"] iv GETU32_val [OF iv] by (simp_all add: unat_word_ariths)
  have V: "be_val (take 12 iv @ ys) = ?hi * 2 ^ 32 + be_val ys" if "length ys = 4" for ys
    using that by (simp add: be_val_append)
  have hi: "?hi < 2 ^ 96" using be_val_bound [of "take 12 iv"] iv by simp
  have inc: "be_val (ctr128_inc iv) = (?hi * 2 ^ 32 + ?lo + 1) mod 2 ^ 128"
    using ctr128_inc_val [OF iv] V [of "drop 12 iv"] iv by simp
  show "be_val (ctr128_inc iv) = be_val (ctr32_advance ?v iv)"
  proof (cases "?lo + 1 < 2 ^ 32")
    case True
    then have u: "unat ?v = ?lo + 1" using lo by simp
    then have "?v \<noteq> 0" by (metis add_is_0 unsigned_0 zero_neq_one)
    then have "be_val (ctr32_advance ?v iv) = ?hi * 2 ^ 32 + ?lo + 1"
      using V [of "be_bytes 4 (unat ?v)"] u be_val_u32 [of ?v] by (simp add: ctr32_advance_def Let_def PUTU32_split iv)
    moreover have "?hi * 2 ^ 32 + ?lo + 1 < 2 ^ 128" using hi True by simp
    ultimately show ?thesis using inc by simp
  next
    case False
    then have l: "?lo + 1 = 2 ^ 32" using lo(1) by simp
    then have v: "?v = 0" using lo(2) by (simp add: unat_eq_zero [symmetric])
    let ?iv = "PUTU32 0 iv"
    have len: "length ?iv = 16" using iv by simp
    note s = ctr96_split [OF len]
    have "be_val (ctr32_advance ?v iv) = be_val (take 12 (ctr96_inc ?iv) @ drop 12 (ctr96_inc ?iv))"
      by (simp add: ctr32_advance_def Let_def v)
    also have "\<dots> = ((?hi + 1) mod 2 ^ 96) * 2 ^ 32 + be_val (drop 12 ?iv)"
      using s len by (simp add: be_val_append PUTU32_split iv)
    also have "be_val (drop 12 ?iv) = 0" using be_val_u32 [of 0] by (simp add: PUTU32_split iv)
    also have "((?hi + 1) mod 2 ^ 96) * 2 ^ 32 = ((?hi + 1) * 2 ^ 32) mod (2 ^ 96 * 2 ^ 32)" by (rule mult_mod_left)
    also have "(?hi + 1) * 2 ^ 32 = ?hi * 2 ^ 32 + ?lo + 1" using l by (simp add: algebra_simps)
    finally show ?thesis using inc by simp
  qed
qed (simp add: iv)

lemma ctr128_inc_power:
  assumes iv: "length iv = 16"
  shows "0 < k \<Longrightarrow> unat (GETU32 iv) + k \<le> 2 ^ 32 \<Longrightarrow> (ctr128_inc ^^ k) iv = ctr32_advance (GETU32 iv + word_of_nat k) iv"
proof (induction k)
  case (Suc k)
  show ?case
  proof (cases "k = 0")
    case False
    let ?v = "GETU32 iv + word_of_nat k"
    have "unat ?v = unat (GETU32 iv) + k" using Suc.prems(2) by (simp add: unat_word_ariths unat_of_nat)
    then have nz: "?v \<noteq> 0" using False by (metis add_is_0 unsigned_0)
    have "(ctr128_inc ^^ Suc k) iv = ctr128_inc (PUTU32 ?v iv)" using Suc nz False by (simp add: ctr32_advance_def Let_def)
    also have "\<dots> = ctr32_advance (?v + 1) (PUTU32 ?v iv)" using iv by (simp add: ctr128_inc_advance GETU32_PUTU32)
    also have "\<dots> = ctr32_advance (?v + 1) iv" by (simp add: ctr32_advance_def PUTU32_PUTU32 iv)
    finally show ?thesis by (simp add: add.assoc add.commute [of 1])
  qed (simp add: ctr128_inc_advance iv)
qed simp

lemma block_loop_run:
  assumes b: "\<And>b. length b = 16 \<Longrightarrow> length (block b) = 16"
  shows "16 * k \<le> length xs \<Longrightarrow> length iv = 16 \<Longrightarrow> unat (GETU32 iv) + k \<le> 2 ^ 32 \<Longrightarrow>
    \<exists>buf'. block_loop (ctr_next block) ctr_words xs (iv, buf) 0 =
      (case block_loop (ctr_next block) ctr_words (drop (16 * k) xs) ((ctr128_inc ^^ k) iv, buf') 0 of
         (out, r) \<Rightarrow> (ctr32_spec block xs k iv @ out, r))"
proof (induction k arbitrary: xs iv buf)
  case (Suc k)
  have iv': "length (ctr128_inc iv) = 16" "16 * k \<le> length (drop 16 xs)" using Suc.prems by simp_all
  have one: "block_loop (ctr_next block) ctr_words xs (iv, buf) 0 =
      (case block_loop (ctr_next block) ctr_words (drop 16 xs) (ctr128_inc iv, block iv) 0 of
         (out, r) \<Rightarrow> (xor_bytes (take 16 xs) (block iv) @ out, r))"
    using Suc.prems(1) b [OF Suc.prems(2)]
    by (subst block_loop.simps) (simp add: ctr_next_def ctr_words_def xor_words_bytes split_beta)
  show ?case
  proof (cases "k = 0")
    case True
    then show ?thesis using one by (intro exI [of _ "block iv"]) (simp add: split_beta)
  next
    case False
    have v: "unat (GETU32 iv + 1) = unat (GETU32 iv) + 1" using Suc.prems(3) False by (simp add: unat_word_ariths)
    then have "GETU32 iv + 1 \<noteq> 0" by (metis add_is_0 unsigned_0 zero_neq_one)
    then have i: "ctr128_inc iv = PUTU32 (GETU32 iv + 1) iv" using Suc.prems(2) by (simp add: ctr128_inc_advance ctr32_advance_def Let_def)
    then have "unat (GETU32 (ctr128_inc iv)) + k \<le> 2 ^ 32" using Suc.prems(2,3) v by (simp add: GETU32_PUTU32)
    from Suc.IH [OF iv'(2,1) this, of "block iv"] obtain buf' where
      "block_loop (ctr_next block) ctr_words (drop 16 xs) (ctr128_inc iv, block iv) 0 =
        (case block_loop (ctr_next block) ctr_words (drop (16 * k) (drop 16 xs)) ((ctr128_inc ^^ k) (ctr128_inc iv), buf') 0 of
           (out, r) \<Rightarrow> (ctr32_spec block (drop 16 xs) k (ctr128_inc iv) @ out, r))" by blast
    moreover have "PUTU32 (1 + GETU32 iv) iv = ctr128_inc iv" using i by (simp add: add.commute)
    ultimately show ?thesis using one
      by (intro exI [of _ buf']) (simp add: split_beta funpow_swap1 add.commute)
  qed
qed (auto simp: split_beta)

lemma ctr32_loop_run:
  assumes b: "\<And>b. length b = 16 \<Longrightarrow> length (block b) = 16"
    and f: "\<And>xs k iv. length xs = 16 * k \<Longrightarrow> length iv = 16 \<Longrightarrow> func xs k iv = ctr32_spec block xs k iv"
  shows "length iv = 16 \<Longrightarrow> \<exists>out iv' buf' rest.
    ctr32_loop func xs iv (GETU32 iv) = (out, rest, iv', GETU32 iv') \<and>
    block_loop (ctr_next block) ctr_words xs (iv, buf) 0 = (out, (iv', buf'), 0, rest) \<and> length iv' = 16 \<and> length rest < 16 \<and>
    (length xs < 16 \<longrightarrow> buf' = buf \<and> rest = xs \<and> out = [] \<and> iv' = iv)"
proof (induction "length xs" arbitrary: xs iv buf rule: less_induct)
  case less
  show ?case
  proof (cases "16 \<le> length xs")
    case False
    then show ?thesis using less.prems by (simp add: ctr32_loop.simps [of _ xs] block_loop.simps [of _ _ xs])
  next
    case True
    obtain k c where kc: "ctr32_blocks (length xs) (GETU32 iv) = (k, c)" by fastforce
    note k = ctr32_blocks_bound [OF True kc]
    let ?iv = "ctr32_advance c iv"
    have iv: "(ctr128_inc ^^ k) iv = ?iv" "GETU32 ?iv = c" "length ?iv = 16"
      using ctr128_inc_power [OF less.prems k(1,3)] k(4) less.prems by (simp_all add: GETU32_advance)
    obtain buf1 where one: "block_loop (ctr_next block) ctr_words xs (iv, buf) 0 =
      (case block_loop (ctr_next block) ctr_words (drop (16 * k) xs) (?iv, buf1) 0 of
         (out, r) \<Rightarrow> (ctr32_spec block xs k iv @ out, r))"
      using block_loop_run [where block = block, OF b k(2) less.prems k(3), of buf] unfolding iv(1) by blast
    have "length (drop (16 * k) xs) < length xs" using k(1) True by simp
    from less.hyps [OF this iv(3), of buf1] obtain out iv' buf' rest where
      r: "ctr32_loop func (drop (16 * k) xs) ?iv (GETU32 ?iv) = (out, rest, iv', GETU32 iv')"
        "block_loop (ctr_next block) ctr_words (drop (16 * k) xs) (?iv, buf1) 0 = (out, (iv', buf'), 0, rest)"
        "length iv' = 16" "length rest < 16" by blast
    have "ctr32_spec block (take (16 * k) xs) k iv = ctr32_spec block xs k iv" if "16 * k \<le> length xs" for k xs iv
      using that
    proof (induction k arbitrary: xs iv)
      case (Suc k)
      then show ?case using Suc.IH [of "drop 16 xs"] by (simp add: drop_take)
    qed simp
    then have "func (take (16 * k) xs) k iv = ctr32_spec block xs k iv" using f [of "take (16 * k) xs" k iv] k(2) less.prems by simp
    then have "ctr32_loop func xs iv (GETU32 iv) = (ctr32_spec block xs k iv @ out, rest, iv', GETU32 iv')"
      using True kc r(1) iv(2) by (subst ctr32_loop.simps) simp
    with one r True show ?thesis by simp
  qed
qed

lemma xor_zeros: "length b = n \<Longrightarrow> xor_bytes (replicate n 0) b = b"
  by (simp add: xor_bytes_def map2_map_map [of _ id, simplified] zip_replicate1 comp_def)

subsection \<open>Cipher feedback of single bits and bytes\<close>

text \<open>
  \<open>cfbr_encrypt_block\<close>: the bytes stored in \<open>out\<close>, and \<open>ivec\<close>. Only the first \<open>16 + num\<close> bytes of \<open>ovec\<close> are ever
  initialised, and used.
\<close>

definition cfbr_encrypt_block :: "bool \<Rightarrow> (bytes \<Rightarrow> bytes) \<Rightarrow> nat \<Rightarrow> bytes \<Rightarrow> bytes \<Rightarrow> bytes \<times> bytes" where
  "cfbr_encrypt_block enc block nbits inp ivec =
     (if nbits = 0 \<or> nbits > 128 then ([], ivec)
      else
        let key_stream = block ivec;
            out = map (\<lambda>n. inp ! n XOR key_stream ! n) [0..<(nbits + 7) div 8];
            ovec = ivec @ (if enc then out else take ((nbits + 7) div 8) inp);
            rem = nbits mod 8; num = nbits div 8
        in (out,
            if rem = 0 then take 16 (drop num ovec)
            else map (\<lambda>n. push_bit rem (ovec ! (n + num)) OR drop_bit (8 - rem) (ovec ! (n + num + 1))) [0..<16]))"

text \<open>One pass of \<open>CRYPTO_cfb128_1_encrypt\<close>, over \<open>out\<close> and \<open>ivec\<close>.\<close>

definition cfb1_bit :: "bool \<Rightarrow> (bytes \<Rightarrow> bytes) \<Rightarrow> bytes \<Rightarrow> nat \<Rightarrow> bytes \<times> bytes \<Rightarrow> bytes \<times> bytes" where
  "cfb1_bit enc block inp n s =
     (case s of (out, ivec) \<Rightarrow>
        let c = (if inp ! (n div 8) AND push_bit (7 - n mod 8) 1 \<noteq> 0 then 0x80 else 0 :: u8) in
        case cfbr_encrypt_block enc block 1 [c] ivec of
          (d, ivec) \<Rightarrow>
            (out[n div 8 := out ! (n div 8) AND NOT (push_bit (7 - n mod 8) 1) OR drop_bit (n mod 8) (d ! 0 AND 0x80)], ivec))"

definition CRYPTO_cfb128_1_encrypt :: "bool \<Rightarrow> (bytes \<Rightarrow> bytes) \<Rightarrow> bytes \<Rightarrow> nat \<Rightarrow> bytes \<times> bytes \<Rightarrow> bytes \<times> bytes" where
  "CRYPTO_cfb128_1_encrypt enc block inp bits s = fold (cfb1_bit enc block inp) [0..<bits] s"

primrec CRYPTO_cfb128_8_encrypt :: "bool \<Rightarrow> (bytes \<Rightarrow> bytes) \<Rightarrow> bytes \<Rightarrow> bytes \<Rightarrow> bytes \<times> bytes" where
  "CRYPTO_cfb128_8_encrypt enc block [] ivec = ([], ivec)"
| "CRYPTO_cfb128_8_encrypt enc block (x # xs) ivec =
     (case cfbr_encrypt_block enc block 8 [x] ivec of
        (y, ivec) \<Rightarrow> (case CRYPTO_cfb128_8_encrypt enc block xs ivec of (out, ivec) \<Rightarrow> (y @ out, ivec)))"

lemma cfb8_inverse:
  assumes "CRYPTO_cfb128_8_encrypt True block xs iv = (ys, iv')" "length iv = 16"
  shows "CRYPTO_cfb128_8_encrypt False block ys iv = (xs, iv')"
  using assms
proof (induction xs arbitrary: iv ys)
  case (Cons x xs)
  let ?y = "x XOR block iv ! 0"
  have e: "cfbr_encrypt_block True block 8 [x] iv = ([?y], drop 1 iv @ [?y])"
    "cfbr_encrypt_block False block 8 [?y] iv = ([x], drop 1 iv @ [?y])"
    using Cons.prems(2) by (simp_all add: cfbr_encrypt_block_def Let_def xor.assoc)
  obtain out where o: "CRYPTO_cfb128_8_encrypt True block xs (drop 1 iv @ [?y]) = (out, iv')" "ys = ?y # out"
    using Cons.prems(1) by (auto simp: e split: prod.splits)
  have "length (drop 1 iv @ [?y]) = 16" using Cons.prems(2) by simp
  from Cons.IH [OF o(1) this] show ?case by (simp only: o(2) CRYPTO_cfb128_8_encrypt.simps e prod.case append_Cons append_Nil)
qed simp

text \<open>Bit \<open>n\<close> of a byte array, the first bit of a byte being its highest.\<close>

definition bit_at :: "bytes \<Rightarrow> nat \<Rightarrow> bool" where
  "bit_at b n = bit (b ! (n div 8)) (7 - n mod 8)"

lemma bit_shifted_1: "bit (push_bit k (1 :: u8)) j \<longleftrightarrow> j = k \<and> k < 8"
  unfolding push_bit_of_1 by (auto simp: bit_exp_iff)

lemma test_bit_and: "(w :: u8) AND push_bit k 1 \<noteq> 0 \<longleftrightarrow> k < 8 \<and> bit w k"
proof
  assume "w AND push_bit k 1 \<noteq> 0"
  then obtain j where "bit (w AND push_bit k 1) j" using bit_eqI [of "w AND push_bit k 1" 0] by auto
  then show "k < 8 \<and> bit w k" unfolding bit_and_iff bit_shifted_1 by auto
next
  assume "k < 8 \<and> bit w k"
  then have b: "bit (w AND push_bit k 1) k" unfolding bit_and_iff bit_shifted_1 by simp
  show "w AND push_bit k 1 \<noteq> 0"
  proof
    assume z: "w AND push_bit k 1 = 0"
    from b show False unfolding z by simp
  qed
qed

lemma bit_0x80: "bit (0x80 :: u8) j \<longleftrightarrow> j = 7"
proof -
  have "push_bit 7 (1 :: u8) = 0x80" by simp
  then show ?thesis using bit_shifted_1 [of 7 j] by (simp only: numeral_less_iff semiring_norm simp_thms)
qed

text \<open>What one pass does: one bit of the output, and one of the shift register.\<close>

definition shift_in :: "bytes \<Rightarrow> bool \<Rightarrow> bytes" where
  "shift_in iv c = map (\<lambda>n. push_bit 1 (iv ! n) OR (if n = 15 then of_bool c else drop_bit 7 (iv ! (n + 1)))) [0..<16]"

lemma top_bit: "drop_bit 7 (w :: u8) = of_bool (bit w 7)"
proof (rule bit_word_eqI)
  fix n
  show "bit (drop_bit 7 w) n = bit (of_bool (bit w 7) :: u8) n"
  proof (cases "n = 0")
    case False
    then have "\<not> bit w (7 + n)" using bit_imp_le_length [of w "7 + n"] by auto
    then show ?thesis using False by (simp add: bit_drop_bit_eq bit_of_bool_iff)
  qed (simp add: bit_drop_bit_eq bit_of_bool_iff)
qed

lemma cfbr_1:
  assumes "length iv = 16"
  shows "cfbr_encrypt_block enc block 1 [c] iv =
    ([c XOR block iv ! 0], shift_in iv (bit (if enc then c XOR block iv ! 0 else c) 7))"
proof -
  define e where "e = (if enc then c XOR block iv ! 0 else c)"
  have "push_bit 1 ((iv @ [e]) ! n) OR drop_bit 7 ((iv @ [e]) ! (n + 1)) =
      push_bit 1 (iv ! n) OR (if n = 15 then of_bool (bit e 7) else drop_bit 7 (iv ! (n + 1)))" if "n < 16" for n
    using that assms by (cases "n = 15") (simp_all only: nth_append top_bit, simp_all)
  then have "map (\<lambda>n. push_bit 1 ((iv @ [e]) ! n) OR drop_bit 7 ((iv @ [e]) ! (n + 1))) [0..<16] = shift_in iv (bit e 7)"
    unfolding shift_in_def by (intro map_cong refl) simp
  then show ?thesis by (cases enc) (simp_all add: cfbr_encrypt_block_def Let_def e_def)
qed

lemma diff_7: "a < 8 \<Longrightarrow> b < 8 \<Longrightarrow> 7 - a = 7 - b \<longleftrightarrow> a = (b :: nat)" "a < 8 \<Longrightarrow> b < 8 \<Longrightarrow> b + (7 - a) = 7 \<longleftrightarrow> a = (b :: nat)"
  by arith+

lemma cfb1_bit_step:
  assumes iv: "length iv = 16" and n: "n div 8 < length out"
  shows "\<exists>out'. cfb1_bit enc block inp n (out, iv) =
      (out', shift_in iv (if enc then bit_at inp n \<noteq> bit (block iv ! 0) 7 else bit_at inp n)) \<and> length out' = length out \<and>
    (\<forall>m. m div 8 < length out \<longrightarrow> bit_at out' m = (if m = n then bit_at inp n \<noteq> bit (block iv ! 0) 7 else bit_at out m))"
proof -
  let ?k = "7 - n mod 8"
  define c where "c = (if inp ! (n div 8) AND push_bit ?k 1 \<noteq> 0 then 0x80 else 0 :: u8)"
  define d where "d = c XOR block iv ! 0"
  let ?out = "out[n div 8 := out ! (n div 8) AND NOT (push_bit ?k 1) OR drop_bit (n mod 8) (d AND 0x80)]"
  have t: "inp ! (n div 8) AND push_bit ?k 1 \<noteq> 0 \<longleftrightarrow> bit_at inp n"
  proof -
    have "?k < 8" by (rule le_less_trans [OF diff_le_self]) simp
    then show ?thesis unfolding test_bit_and bit_at_def by (simp only: simp_thms)
  qed
  have c7: "bit c 7 = bit_at inp n" unfolding c_def t by (simp only: bit_0x80 bit_0_eq bot_apply split: if_splits) simp
  have d7: "bit d 7 \<longleftrightarrow> bit_at inp n \<noteq> bit (block iv ! 0) 7" using c7 by (simp only: d_def bit_xor_iff)
  have "cfbr_encrypt_block enc block 1 [c] iv = ([d], shift_in iv (bit (if enc then d else c) 7))"
    unfolding d_def by (rule cfbr_1 [OF iv])
  moreover have "bit (if enc then d else c) 7 = (if enc then bit_at inp n \<noteq> bit (block iv ! 0) 7 else bit_at inp n)"
    using c7 d7 by simp
  ultimately have "cfb1_bit enc block inp n (out, iv) = (?out, shift_in iv (if enc then bit_at inp n \<noteq> bit (block iv ! 0) 7 else bit_at inp n))"
    unfolding cfb1_bit_def prod.case Let_def c_def [symmetric] by (simp only: prod.case nth_Cons_0)
  moreover have "bit_at ?out m = (if m = n then bit_at inp n \<noteq> bit (block iv ! 0) 7 else bit_at out m)" if m: "m div 8 < length out" for m
  proof (cases "m div 8 = n div 8")
    case True
    have e: "bit (drop_bit (n mod 8) (d AND 0x80)) (7 - m mod 8) \<longleftrightarrow> m mod 8 = n mod 8 \<and> bit d 7"
    proof -
      have "n mod 8 + (7 - m mod 8) = 7 \<longleftrightarrow> m mod 8 = n mod 8" by (rule diff_7) simp_all
      then show ?thesis by (auto simp only: bit_drop_bit_eq bit_and_iff bit_0x80 comp_apply)
    qed
    have k: "bit (push_bit ?k (1 :: u8)) (7 - m mod 8) \<longleftrightarrow> m mod 8 = n mod 8"
    proof -
      have "7 - m mod 8 = ?k \<longleftrightarrow> m mod 8 = n mod 8" by (rule diff_7) simp_all
      then show ?thesis unfolding bit_shifted_1 by auto
    qed
    have "7 - m mod 8 < 8" by (rule le_less_trans [OF diff_le_self]) simp
    then have pb: "possible_bit TYPE(8 word) (7 - m mod 8)" unfolding possible_bit_word by simp
    have mn: "m = n \<longleftrightarrow> m mod 8 = n mod 8" using True by (metis div_mult_mod_eq)
    have "bit_at ?out m \<longleftrightarrow> bit (out ! (n div 8) AND NOT (push_bit ?k 1) OR drop_bit (n mod 8) (d AND 0x80)) (7 - m mod 8)"
      using True n by (simp add: bit_at_def)
    also have "\<dots> \<longleftrightarrow> (bit (out ! (n div 8)) (7 - m mod 8) \<and> m mod 8 \<noteq> n mod 8) \<or> (m mod 8 = n mod 8 \<and> bit d 7)"
      unfolding bit_or_iff e bit_and_iff bit_not_iff k using pb by blast
    finally show ?thesis using d7 mn True by (auto simp: bit_at_def)
  qed (auto simp: bit_at_def)
  ultimately show ?thesis by (intro exI [of _ ?out]) simp
qed

lemma cfb1_inverse:
  assumes "length iv = 16" "bits \<le> 8 * length out" "bits \<le> 8 * length out2"
    and "CRYPTO_cfb128_1_encrypt True block inp bits (out, iv) = (ys, iv1)"
  shows "\<exists>zs. CRYPTO_cfb128_1_encrypt False block ys bits (out2, iv) = (zs, iv1) \<and> length zs = length out2 \<and>
    (\<forall>m. m div 8 < length out2 \<longrightarrow> bit_at zs m = (if m < bits then bit_at inp m else bit_at out2 m))"
proof -
  have len: "length (shift_in w c) = 16" for w c by (simp add: shift_in_def)
  define enc where "enc k = CRYPTO_cfb128_1_encrypt True block inp k (out, iv)" for k
  have encS: "enc (Suc k) = cfb1_bit True block inp k (enc k)" for k by (simp add: enc_def CRYPTO_cfb128_1_encrypt_def)
  have enc: "length (fst (enc k)) = length out \<and> length (snd (enc k)) = 16" if "k \<le> bits" for k using that
  proof (induction k)
    case (Suc k)
    then have k: "length (snd (enc k)) = 16" "k div 8 < length (fst (enc k))" using assms(2) by (auto simp: div_less_iff_less_mult)
    from cfb1_bit_step [OF k, of True block inp] Suc show ?case by (auto simp: encS len)
  qed (simp add: enc_def CRYPTO_cfb128_1_encrypt_def assms)
  have step: "bit_at (fst (enc (Suc k))) m = (if m = k then bit_at inp k \<noteq> bit (block (snd (enc k)) ! 0) 7 else bit_at (fst (enc k)) m) \<and>
      snd (enc (Suc k)) = shift_in (snd (enc k)) (bit_at inp k \<noteq> bit (block (snd (enc k)) ! 0) 7)"
    if "k < bits" "m div 8 < length out" for k m
  proof -
    have k: "length (snd (enc k)) = 16" "k div 8 < length (fst (enc k))" using enc [of k] that(1) assms(2) by (auto simp: div_less_iff_less_mult)
    from cfb1_bit_step [OF k, of True block inp] enc [of k] that show ?thesis by (auto simp: encS)
  qed
  have keep: "bit_at (fst (enc j)) k = bit_at (fst (enc (Suc k))) k" if "Suc k \<le> j" "j \<le> bits" for j k
    using that
  proof (induction j rule: dec_induct)
    case (step j)
    then show ?case using \<open>\<And>m k. \<lbrakk>k < bits; m div 8 < length out\<rbrakk> \<Longrightarrow> _\<close> [of j k] assms(2) by (auto simp: div_less_iff_less_mult)
  qed simp
  have ys: "bit_at ys k \<longleftrightarrow> bit_at inp k \<noteq> bit (block (snd (enc k)) ! 0) 7" if "k < bits" for k
    using keep [of k bits] step [of k k] that assms(2,4) by (simp add: enc_def div_less_iff_less_mult)
  define dec where "dec k = CRYPTO_cfb128_1_encrypt False block ys k (out2, iv)" for k
  have decS: "dec (Suc k) = cfb1_bit False block ys k (dec k)" for k by (simp add: dec_def CRYPTO_cfb128_1_encrypt_def)
  have "snd (dec k) = snd (enc k) \<and> length (fst (dec k)) = length out2 \<and>
      (\<forall>m. m div 8 < length out2 \<longrightarrow> bit_at (fst (dec k)) m = (if m < k then bit_at inp m else bit_at out2 m))" if "k \<le> bits" for k
    using that
  proof (induction k)
    case 0
    show ?case by (simp add: dec_def enc_def CRYPTO_cfb128_1_encrypt_def)
  next
    case (Suc k)
    then have k: "k < bits" "length (snd (dec k)) = 16" "k div 8 < length (fst (dec k))"
      using enc [of k] assms(3) by (auto simp: div_less_iff_less_mult)
    obtain out' where o: "cfb1_bit False block ys k (fst (dec k), snd (dec k)) = (out', shift_in (snd (dec k)) (bit_at ys k))"
      "length out' = length (fst (dec k))"
      "\<forall>m. m div 8 < length (fst (dec k)) \<longrightarrow> bit_at out' m = (if m = k then bit_at ys k \<noteq> bit (block (snd (dec k)) ! 0) 7 else bit_at (fst (dec k)) m)"
      using cfb1_bit_step [OF k(2,3), of False block ys] by auto
    have "k div 8 < length out" using k(1) assms(2) by (auto simp: div_less_iff_less_mult)
    then have s1: "snd (enc (Suc k)) = shift_in (snd (enc k)) (bit_at ys k)" using step [OF k(1), of k] ys [OF k(1)] by simp
    have d: "dec (Suc k) = (out', shift_in (snd (dec k)) (bit_at ys k))" using o(1) by (simp add: decS)
    have ih: "snd (dec k) = snd (enc k)" "length (fst (dec k)) = length out2"
      "\<And>m. m div 8 < length out2 \<Longrightarrow> bit_at (fst (dec k)) m = (if m < k then bit_at inp m else bit_at out2 m)"
      using Suc.IH Suc.prems by simp_all
    have "bit_at out' m = (if m < Suc k then bit_at inp m else bit_at out2 m)" if "m div 8 < length out2" for m
    proof (cases "m = k")
      case True
      then show ?thesis using o(3) ys [OF k(1)] that ih(1,2) by simp blast
    next
      case False
      then show ?thesis using o(3) that ih(2) ih(3) [OF that] by simp
    qed
    then show ?case using o(2) ih(1,2) by (simp add: d s1)
  qed
  from this [of bits] show ?thesis using assms(4) by (intro exI [of _ "fst (dec bits)"]) (auto simp: dec_def enc_def prod_eq_iff)
qed

subsection \<open>Properties of the stream modes\<close>

text \<open>The output of two calls, the second with the state the first has left, and the last state.\<close>

definition two_calls :: "(bytes \<Rightarrow> 's \<Rightarrow> nat \<Rightarrow> bytes \<times> 's \<times> nat) \<Rightarrow> bytes \<Rightarrow> bytes \<Rightarrow> 's \<Rightarrow> nat \<Rightarrow> bytes \<times> 's \<times> nat" where
  "two_calls f xs xs' s n = (case f xs s n of (ys, s, n) \<Rightarrow> (case f xs' s n of (ys', s, n) \<Rightarrow> (ys @ ys', s, n)))"

lemma stream_ref_inv:
  assumes "\<And>s. P s \<Longrightarrow> P (next_block s)" "\<And>s n x. P s \<Longrightarrow> P (snd (byte s n x))"
  shows "P s \<Longrightarrow> n < 16 \<Longrightarrow> stream_ref next_block byte xs s n = (ys, t, m) \<Longrightarrow> P t \<and> m < 16"
proof (induction xs arbitrary: s n ys)
  case (Cons x xs)
  obtain y s' where y: "byte (if n = 0 then next_block s else s) n x = (y, s')" by fastforce
  then have "P s'" using assms(1) [of s] assms(2) [of "if n = 0 then next_block s else s" n x] Cons.prems(1) by (auto split: if_splits)
  obtain zs where zs: "stream_ref next_block byte xs s' ((n + 1) mod 16) = (zs, t, m)"
    using Cons.prems(3) y by (auto split: prod.splits)
  show ?case by (rule Cons.IH [OF \<open>P s'\<close> _ zs]) simp
qed simp

lemma incremental:
  assumes ref: "\<And>xs s n. P s \<Longrightarrow> n < 16 \<Longrightarrow> f xs s n = stream_ref next_block byte xs s n"
    and P: "\<And>s. P s \<Longrightarrow> P (next_block s)" "\<And>s n x. P s \<Longrightarrow> P (snd (byte s n x))" and s: "P s" "n < 16"
  shows "f (xs @ xs') s n = two_calls f xs xs' s n"
proof -
  obtain ys t m where r: "stream_ref next_block byte xs s n = (ys, t, m)" by (metis surj_pair)
  have t: "P t \<and> m < 16" by (rule stream_ref_inv [where P = P, OF _ _ s r]) (fact P)+
  have "f xs' t m = stream_ref next_block byte xs' t m" using t by (intro ref) simp_all
  then show ?thesis using r by (simp add: two_calls_def ref s stream_ref_append)
qed

text \<open>
  C15: The three stream modes work byte by byte, however their input is cut into calls: what two calls give, the second
  with the state the first has left in \<open>ivec\<close>, \<open>ecount_buf\<close> and \<open>*num\<close>, is what one call gives for both inputs, although the
  code goes by words for whole blocks only.
\<close>

theorem stream_modes_incremental:
  assumes block: "\<And>b. length b = 16 \<Longrightarrow> length (block b) = 16" and iv: "length iv = 16" and n: "n < 16"
  shows "CRYPTO_ctr128_encrypt block (xs @ xs') (iv, buf) n = two_calls (CRYPTO_ctr128_encrypt block) xs xs' (iv, buf) n \<and>
    CRYPTO_ofb128_encrypt block (xs @ xs') iv n = two_calls (CRYPTO_ofb128_encrypt block) xs xs' iv n \<and>
    CRYPTO_cfb128_encrypt enc block (xs @ xs') iv n = two_calls (CRYPTO_cfb128_encrypt enc block) xs xs' iv n"
proof (intro conjI)
  show "CRYPTO_ctr128_encrypt block (xs @ xs') (iv, buf) n = two_calls (CRYPTO_ctr128_encrypt block) xs xs' (iv, buf) n"
    by (rule incremental [where P = "\<lambda>s. length (fst s) = 16", OF ctr_ref [where block = block, OF block]])
      (use iv n in \<open>simp_all add: ctr_next_def ctr_byte_def split_beta\<close>)
  show "CRYPTO_ofb128_encrypt block (xs @ xs') iv n = two_calls (CRYPTO_ofb128_encrypt block) xs xs' iv n"
    by (rule incremental [where P = "\<lambda>s. length s = 16", OF ofb_ref [where block = block, OF block]]) (use iv n block in \<open>simp_all add: ofb_byte_def\<close>)
  show "CRYPTO_cfb128_encrypt enc block (xs @ xs') iv n = two_calls (CRYPTO_cfb128_encrypt enc block) xs xs' iv n"
    by (rule incremental [where P = "\<lambda>s. length s = 16", OF cfb_ref [where block = block, OF block]]) (use iv n block in \<open>simp_all add: cfb_byte_def Let_def\<close>)
qed

lemma stream_modes_incremental_witness:
  "CRYPTO_ctr128_encrypt rev ([1, 2, 3] @ [4]) (replicate 16 7, []) 0 = two_calls (CRYPTO_ctr128_encrypt rev) [1, 2, 3] [4] (replicate 16 7, []) 0"
  by (rule stream_modes_incremental [of rev "replicate 16 7" 0, THEN conjunct1]) simp_all

lemma mode_roundtrip:
  assumes f: "\<And>xs. f xs s n = stream_ref next_block byte xs s n" "\<And>xs. f' xs s n = stream_ref next_block byte' xs s n"
    and inv: "\<And>s n x. byte' s n (fst (byte s n x)) = (x, snd (byte s n x))"
  shows "case f xs s n of (ys, t) \<Rightarrow> f' ys s n = (xs, t)"
proof -
  obtain ys t where Pair: "f xs s n = (ys, t)" by (metis surj_pair)
  then have "stream_ref next_block byte xs s n = (ys, t)" using f(1) by simp
  from stream_ref_inverse [where byte = byte and byte' = byte', OF inv this] show ?thesis using f(2) Pair by simp
qed

text \<open>
  C14: Decryption undoes encryption from the same state, in counter and output feedback mode by encrypting again, and
  both sides end in the same state. In the 1-bit mode this holds for every bit up to the number given, and the other
  bits of the output are left as they were.
\<close>

theorem stream_modes_roundtrip:
  assumes block: "\<And>b. length b = 16 \<Longrightarrow> length (block b) = 16" and iv: "length iv = 16" and n: "n < 16"
    and out: "bits \<le> 8 * length out" "bits \<le> 8 * length out'"
  shows "(case CRYPTO_ctr128_encrypt block xs (iv, buf) n of (ys, t) \<Rightarrow> CRYPTO_ctr128_encrypt block ys (iv, buf) n = (xs, t)) \<and>
    (case CRYPTO_ofb128_encrypt block xs iv n of (ys, t) \<Rightarrow> CRYPTO_ofb128_encrypt block ys iv n = (xs, t)) \<and>
    (case CRYPTO_cfb128_encrypt True block xs iv n of (ys, t) \<Rightarrow> CRYPTO_cfb128_encrypt False block ys iv n = (xs, t)) \<and>
    (case CRYPTO_cfb128_8_encrypt True block xs iv of (ys, t) \<Rightarrow> CRYPTO_cfb128_8_encrypt False block ys iv = (xs, t)) \<and>
    (case CRYPTO_cfb128_1_encrypt True block xs bits (out, iv) of (ys, t) \<Rightarrow>
       \<exists>zs. CRYPTO_cfb128_1_encrypt False block ys bits (out', iv) = (zs, t) \<and> length zs = length out' \<and>
         (\<forall>m. m div 8 < length out' \<longrightarrow> bit_at zs m = (if m < bits then bit_at xs m else bit_at out' m)))"
proof (intro conjI)
  show "case CRYPTO_ctr128_encrypt block xs (iv, buf) n of (ys, t) \<Rightarrow> CRYPTO_ctr128_encrypt block ys (iv, buf) n = (xs, t)"
    by (rule mode_roundtrip [OF ctr_ref [where block = block, OF block] ctr_ref [where block = block, OF block]]) (use iv n in \<open>simp_all add: ctr_byte_def xor.assoc\<close>)
  show "case CRYPTO_ofb128_encrypt block xs iv n of (ys, t) \<Rightarrow> CRYPTO_ofb128_encrypt block ys iv n = (xs, t)"
    by (rule mode_roundtrip [OF ofb_ref [where block = block, OF block] ofb_ref [where block = block, OF block]]) (use iv n in \<open>simp_all add: ofb_byte_def xor.assoc\<close>)
  show "case CRYPTO_cfb128_encrypt True block xs iv n of (ys, t) \<Rightarrow> CRYPTO_cfb128_encrypt False block ys iv n = (xs, t)"
    by (rule mode_roundtrip [OF cfb_ref [where block = block, OF block] cfb_ref [where block = block, OF block]])
      (use iv n in \<open>simp_all add: cfb_byte_def Let_def xor.assoc [symmetric]\<close>)
  show "case CRYPTO_cfb128_8_encrypt True block xs iv of (ys, t) \<Rightarrow> CRYPTO_cfb128_8_encrypt False block ys iv = (xs, t)"
    using cfb8_inverse [OF _ iv] by (auto split: prod.splits)
  obtain ys t where e: "CRYPTO_cfb128_1_encrypt True block xs bits (out, iv) = (ys, t)" by (metis surj_pair)
  from cfb1_inverse [OF iv out e]
  show "case CRYPTO_cfb128_1_encrypt True block xs bits (out, iv) of (ys, t) \<Rightarrow>
       \<exists>zs. CRYPTO_cfb128_1_encrypt False block ys bits (out', iv) = (zs, t) \<and> length zs = length out' \<and>
         (\<forall>m. m div 8 < length out' \<longrightarrow> bit_at zs m = (if m < bits then bit_at xs m else bit_at out' m))"
    unfolding e prod.case .
qed

lemma stream_modes_roundtrip_witness:
  "case CRYPTO_cfb128_1_encrypt True rev [0xA5] 5 ([0], replicate 16 7) of (ys, t) \<Rightarrow>
     \<exists>zs. CRYPTO_cfb128_1_encrypt False rev ys 5 ([0xFF], replicate 16 7) = (zs, t) \<and> length zs = 1 \<and>
       (\<forall>m. m div 8 < 1 \<longrightarrow> bit_at zs m = (if m < 5 then bit_at [0xA5] m else bit_at [0xFF] m))"
  using stream_modes_roundtrip [of rev "replicate 16 7" 0 5 "[0]" "[0xFF]" "[0xA5]"] by simp

text \<open>
  C13: Counter mode over a function with a 32-bit counter is counter mode over the cipher: the output, the
  128-bit counter, into which the carry of the lower 32 bits is propagated at the right block, and \<open>*num\<close> agree, and so does
  the rest of the key stream in \<open>ecount_buf\<close> where it is used.
\<close>

theorem ctr32_equals_ctr:
  assumes block: "\<And>b. length b = 16 \<Longrightarrow> length (block b) = 16" and iv: "length iv = 16" and n: "n < 16"
    and func: "\<And>xs k iv. length xs = 16 * k \<Longrightarrow> length iv = 16 \<Longrightarrow> func xs k iv = ctr32_spec block xs k iv"
  shows "case CRYPTO_ctr128_encrypt block xs (iv, buf) n of
      (ys, (iv', buf'), m) \<Rightarrow> \<exists>buf''. CRYPTO_ctr128_encrypt_ctr32 func xs (iv, buf) n = (ys, (iv', buf''), m) \<and> (m \<noteq> 0 \<longrightarrow> buf'' = buf')"
proof -
  obtain out1 s1 n1 xs1 where h: "head_loop ctr_byte xs (iv, buf) n = (out1, s1, n1, xs1)" by (metis surj_pair)
  have "fst (snd (head_loop ctr_byte xs s n)) = s" for s n
    by (induction xs arbitrary: n) (simp_all add: ctr_byte_def split_beta)
  from this [of "(iv, buf)" n] have s1: "s1 = (iv, buf)" using h by simp
  have n1: "xs1 \<noteq> [] \<Longrightarrow> n1 = 0" using head_loop_ref [OF n h, of "ctr_next block"] by simp
  show ?thesis
  proof (cases "xs1 = []")
    case True
    then show ?thesis
      by (simp add: CRYPTO_ctr128_encrypt_def stream_mode_def CRYPTO_ctr128_encrypt_ctr32_def h s1 block_loop.simps [of _ _ "[]"] ctr32_loop.simps [of _ "[]"])
  next
    case False
    from ctr32_loop_run [where block = block and func = func, OF block func iv, of xs1 buf] obtain out2 iv2 buf2 xs2 where
      r: "ctr32_loop func xs1 iv (GETU32 iv) = (out2, xs2, iv2, GETU32 iv2)"
        "block_loop (ctr_next block) ctr_words xs1 (iv, buf) 0 = (out2, (iv2, buf2), 0, xs2)" "length iv2 = 16" by blast
    show ?thesis
    proof (cases "xs2 = []")
      case True
      then show ?thesis using n1 [OF False]
        by (simp add: CRYPTO_ctr128_encrypt_def stream_mode_def CRYPTO_ctr128_encrypt_ctr32_def h s1 r)
    next
      case rest: False
      have "func (replicate 16 0) 1 iv2 = block iv2" using func [of "replicate 16 0" 1 iv2] r(3) block [OF r(3)] xor_zeros by simp
      moreover obtain out3 iv3 buf3 m where "tail_loop ctr_byte xs2 (ctr128_inc iv2, block iv2) 0 = (out3, (iv3, buf3), m)" by (metis surj_pair)
      ultimately show ?thesis using n1 [OF False] rest r(3)
        by (simp add: CRYPTO_ctr128_encrypt_def stream_mode_def CRYPTO_ctr128_encrypt_ctr32_def h s1 r(1,2) ctr_next_def ctr128_inc_advance split_beta)
    qed
  qed
qed

lemma ctr32_equals_ctr_witness:
  "\<exists>buf. CRYPTO_ctr128_encrypt_ctr32 (ctr32_spec rev) (replicate 20 1) (replicate 16 0xFF, []) 0 =
     (fst (CRYPTO_ctr128_encrypt rev (replicate 20 1) (replicate 16 0xFF, []) 0),
      (fst (fst (snd (CRYPTO_ctr128_encrypt rev (replicate 20 1) (replicate 16 0xFF, []) 0))), buf),
      snd (snd (CRYPTO_ctr128_encrypt rev (replicate 20 1) (replicate 16 0xFF, []) 0)))"
  using ctr32_equals_ctr [of rev "replicate 16 0xFF" 0 "ctr32_spec rev" "replicate 20 1" "[]"] by (auto simp: split_beta)

end
