(* ===== verification/Cbc.thy ===== *)
theory Cbc
  imports Modes
begin

text \<open>
  Cipher block chaining, \<open>crypto/fipsmodule/modes/cbc.c\<close>, over memory: the input, the output and \<open>ivec\<close> are
  addresses, since the decryption has two loops for the ways in which input and output may overlap.
\<close>

unbundle bit_operations_syntax

subsection \<open>The code\<close>

text \<open>\<open>for (n = 0; n < 16; n += sizeof(size_t))\<close>, storing the xor of two blocks.\<close>

definition xor_block :: "addr \<Rightarrow> addr \<Rightarrow> addr \<Rightarrow> heap \<Rightarrow> heap" where
  "xor_block out a b h = fold (\<lambda>n h. store_u64 (out + n) (load_u64 h (a + n) XOR load_u64 h (b + n)) h) [0, 8] h"

text \<open>\<open>(*block)(src, dst, key)\<close>\<close>

definition call_block :: "(bytes \<Rightarrow> bytes) \<Rightarrow> addr \<Rightarrow> addr \<Rightarrow> heap \<Rightarrow> heap" where
  "call_block block src dst h = store_bytes dst (block (load_bytes h src 16)) h"

text \<open>The loop over whole blocks: \<open>in\<close>, \<open>out\<close>, \<open>len\<close> and \<open>iv\<close> when it ends, and memory.\<close>

function cbc_enc_blocks ::
  "(bytes \<Rightarrow> bytes) \<Rightarrow> addr \<Rightarrow> addr \<Rightarrow> nat \<Rightarrow> addr \<Rightarrow> heap \<Rightarrow> addr \<times> addr \<times> nat \<times> addr \<times> heap" where
  "cbc_enc_blocks block inp out n iv h =
     (if 16 \<le> n then cbc_enc_blocks block (inp + 16) (out + 16) (n - 16) out (call_block block out out (xor_block out inp iv h))
      else (inp, out, n, iv, h))"
  by pat_completeness auto
termination by (relation "measure (\<lambda>(block, inp, out, n, iv, h). n)") auto

text \<open>The loop for what is left, which pads with zeros: \<open>iv\<close> and memory.\<close>

function cbc_enc_tail :: "(bytes \<Rightarrow> bytes) \<Rightarrow> addr \<Rightarrow> addr \<Rightarrow> nat \<Rightarrow> addr \<Rightarrow> heap \<Rightarrow> addr \<times> heap" where
  "cbc_enc_tail block inp out n iv h =
     (if n = 0 then (iv, h)
      else
        let h = fold (\<lambda>i h. store_bytes (out + word_of_nat i) [mem h (inp + word_of_nat i) XOR mem h (iv + word_of_nat i)] h) [0..<min 16 n] h;
            h = fold (\<lambda>i h. store_bytes (out + word_of_nat i) [mem h (iv + word_of_nat i)] h) [min 16 n..<16] h;
            h = call_block block out out h
        in if n \<le> 16 then (out, h) else cbc_enc_tail block (inp + 16) (out + 16) (n - 16) out h)"
  by pat_completeness auto
termination by (relation "measure (\<lambda>(block, inp, out, n, iv, h). n)") auto

definition CRYPTO_cbc128_encrypt :: "(bytes \<Rightarrow> bytes) \<Rightarrow> addr \<Rightarrow> addr \<Rightarrow> nat \<Rightarrow> addr \<Rightarrow> heap \<Rightarrow> heap" where
  "CRYPTO_cbc128_encrypt block inp out n ivec h =
     (case cbc_enc_blocks block inp out n ivec h of
        (inp, out, n, iv, h) \<Rightarrow>
          (case cbc_enc_tail block inp out n iv h of
             (iv, h) \<Rightarrow> store_bytes ivec (load_bytes h iv 16) h))"

text \<open>The loop that decrypts to the output directly.\<close>

function cbc_dec_direct ::
  "(bytes \<Rightarrow> bytes) \<Rightarrow> addr \<Rightarrow> addr \<Rightarrow> nat \<Rightarrow> addr \<Rightarrow> heap \<Rightarrow> addr \<times> addr \<times> nat \<times> addr \<times> heap" where
  "cbc_dec_direct block inp out n iv h =
     (if 16 \<le> n then cbc_dec_direct block (inp + 16) (out + 16) (n - 16) inp (xor_block out out iv (call_block block inp out h))
      else (inp, out, n, iv, h))"
  by pat_completeness auto
termination by (relation "measure (\<lambda>(block, inp, out, n, iv, h). n)") auto

text \<open>One word of the loop that decrypts to \<open>tmp\<close>.\<close>

definition cbc_dec_word :: "bytes \<Rightarrow> addr \<Rightarrow> addr \<Rightarrow> addr \<Rightarrow> nat \<Rightarrow> heap \<Rightarrow> heap" where
  "cbc_dec_word tmp inp out ivec n h =
     (let c = load_u64 h (inp + word_of_nat n);
          h = store_u64 (out + word_of_nat n) (load_word_le tmp n XOR load_u64 h (ivec + word_of_nat n)) h
      in store_u64 (ivec + word_of_nat n) c h)"

function cbc_dec_buffered ::
  "(bytes \<Rightarrow> bytes) \<Rightarrow> addr \<Rightarrow> addr \<Rightarrow> nat \<Rightarrow> addr \<Rightarrow> heap \<Rightarrow> addr \<times> addr \<times> nat \<times> heap" where
  "cbc_dec_buffered block inp out n ivec h =
     (if 16 \<le> n then
        let tmp = block (load_bytes h inp 16)
        in cbc_dec_buffered block (inp + 16) (out + 16) (n - 16) ivec (fold (cbc_dec_word tmp inp out ivec) [0, 8] h)
      else (inp, out, n, h))"
  by pat_completeness auto
termination by (relation "measure (\<lambda>(block, inp, out, n, ivec, h). n)") auto

text \<open>The last loop.\<close>

function cbc_dec_tail :: "(bytes \<Rightarrow> bytes) \<Rightarrow> addr \<Rightarrow> addr \<Rightarrow> nat \<Rightarrow> addr \<Rightarrow> heap \<Rightarrow> heap" where
  "cbc_dec_tail block inp out n ivec h =
     (if n = 0 then h
      else
        let tmp = block (load_bytes h inp 16);
            h = fold (\<lambda>i h. let c = mem h (inp + word_of_nat i);
                               h = store_bytes (out + word_of_nat i) [tmp ! i XOR mem h (ivec + word_of_nat i)] h
                           in store_bytes (ivec + word_of_nat i) [c] h) [0..<min 16 n] h
        in if n \<le> 16 then fold (\<lambda>i h. store_bytes (ivec + word_of_nat i) [mem h (inp + word_of_nat i)] h) [n..<16] h
           else cbc_dec_tail block (inp + 16) (out + 16) (n - 16) ivec h)"
  by pat_completeness auto
termination by (relation "measure (\<lambda>(block, inp, out, n, ivec, h). n)") auto

definition CRYPTO_cbc128_decrypt :: "(bytes \<Rightarrow> bytes) \<Rightarrow> addr \<Rightarrow> addr \<Rightarrow> nat \<Rightarrow> addr \<Rightarrow> heap \<Rightarrow> heap" where
  "CRYPTO_cbc128_decrypt block inp out n ivec h =
     (case (if inp \<ge> 32 \<and> out \<le> inp - 32 \<or> inp < out then
              case cbc_dec_direct block inp out n ivec h of
                (inp, out, n, iv, h) \<Rightarrow> (inp, out, n, store_bytes ivec (load_bytes h iv 16) h)
            else cbc_dec_buffered block inp out n ivec h) of
        (inp, out, n, h) \<Rightarrow> cbc_dec_tail block inp out n ivec h)"

declare cbc_enc_blocks.simps [simp del] cbc_enc_tail.simps [simp del] cbc_dec_direct.simps [simp del]
  cbc_dec_buffered.simps [simp del] cbc_dec_tail.simps [simp del]

subsection \<open>Chaining\<close>

primrec cbc_enc :: "(bytes \<Rightarrow> bytes) \<Rightarrow> nat \<Rightarrow> bytes \<Rightarrow> bytes \<Rightarrow> bytes" where
  "cbc_enc E 0 iv xs = []"
| "cbc_enc E (Suc b) iv xs = (let c = E (xor_bytes (take 16 xs) iv) in c @ cbc_enc E b c (drop 16 xs))"

primrec cbc_dec :: "(bytes \<Rightarrow> bytes) \<Rightarrow> nat \<Rightarrow> bytes \<Rightarrow> bytes \<Rightarrow> bytes" where
  "cbc_dec D 0 iv xs = []"
| "cbc_dec D (Suc b) iv xs = xor_bytes (D (take 16 xs)) iv @ cbc_dec D b (take 16 xs) (drop 16 xs)"

lemma length_cbc_enc:
  "(\<And>x. length x = 16 \<Longrightarrow> length (E x) = 16) \<Longrightarrow> length iv = 16 \<Longrightarrow> length xs = 16 * b \<Longrightarrow> length (cbc_enc E b iv xs) = 16 * b"
  by (induction b arbitrary: iv xs) (simp_all add: Let_def)

lemma cbc_dec_enc:
  assumes E: "\<And>x. length x = 16 \<Longrightarrow> length (E x) = 16" and D: "\<And>x. length x = 16 \<Longrightarrow> D (E x) = x"
  shows "length iv = 16 \<Longrightarrow> length xs = 16 * b \<Longrightarrow> cbc_dec D b iv (cbc_enc E b iv xs) = xs"
proof (induction b arbitrary: iv xs)
  case (Suc b)
  let ?c = "E (xor_bytes (take 16 xs) iv)"
  have c: "length ?c = 16" "D ?c = xor_bytes (take 16 xs) iv" using Suc.prems by (simp_all add: E D)
  have "xor_bytes (xor_bytes (take 16 xs) iv) iv = take 16 xs" using Suc.prems by (intro xor_bytes_cancel) simp
  then show ?case using c Suc.IH [of ?c "drop 16 xs"] Suc.prems(2) by (simp add: Let_def)
qed simp

subsection \<open>Blocks of memory\<close>

lemma load_bytes_add: "load_bytes h a (m + n) = load_bytes h a m @ load_bytes h (a + word_of_nat m) n"
  unfolding load_bytes_def by (intro nth_equalityI) (auto simp: nth_append add.assoc simp flip: of_nat_add)

lemma load_block: "load_bytes h a (16 + n) = load_bytes h a 16 @ load_bytes h (a + 16) n"
  using load_bytes_add [of h a 16 n] by simp

lemma load_halves: "load_bytes h a 16 = load_bytes h a 8 @ load_bytes h (a + 8) 8"
  using load_bytes_add [of h a 8 8] by simp

lemma store_xor_u64: "store_u64 out (load_u64 h a XOR load_u64 h b) h = store_bytes out (xor_bytes (load_bytes h a 8) (load_bytes h b 8)) h"
  by (simp add: store_u64_def load_u64_def le_bytes_xor)

lemma load_store_halves:
  assumes "length xs = 8" "length ys = 8"
  shows "load_bytes (store_bytes (a + 8) ys (store_bytes a xs h)) a 16 = xs @ ys"
proof -
  have "region (a + word_of_nat 0) 8 \<inter> region (a + word_of_nat 8) 8 = {}" by (rule region_disjoint) simp_all
  then have "load_bytes (store_bytes (a + 8) ys (store_bytes a xs h)) a 8 = load_bytes (store_bytes a xs h) a 8"
    using assms by (intro load_bytes_outside [OF same_outside_store]) auto
  then show ?thesis using assms by (simp add: load_halves load_store_same)
qed

lemma same_outside_halves:
  assumes "length xs = 8" "length ys = 8"
  shows "same_outside (region a 16) h (store_bytes (a + 8) ys (store_bytes a xs h))"
proof (rule same_outside_trans)
  show "same_outside (region a 8) h (store_bytes a xs h)" using assms by (intro same_outside_store) simp
  show "same_outside (region (a + 8) 8) (store_bytes a xs h) (store_bytes (a + 8) ys (store_bytes a xs h))"
    using assms by (intro same_outside_store) simp
  show "region a 8 \<union> region (a + 8) 8 \<subseteq> region a 16" using region_mono [of 8 16 a] region_sub [of 8 8 16 a] by auto
qed

lemma xor_block_run:
  assumes "region (a + 8) 8 \<inter> region out 8 = {}" "region (b + 8) 8 \<inter> region out 8 = {}"
  shows "load_bytes (xor_block out a b h) out 16 = xor_bytes (load_bytes h a 16) (load_bytes h b 16)"
    "same_outside (region out 16) h (xor_block out a b h)"
proof -
  let ?x = "xor_bytes (load_bytes h a 8) (load_bytes h b 8)" and ?y = "xor_bytes (load_bytes h (a + 8) 8) (load_bytes h (b + 8) 8)"
  let ?h = "store_bytes out ?x h"
  have "same_outside (region out 8) h ?h" by (rule same_outside_store) simp
  from load_bytes_outside [OF this assms(1)] load_bytes_outside [OF this assms(2)]
  have e: "xor_block out a b h = store_bytes (out + 8) ?y ?h" by (simp add: xor_block_def store_xor_u64)
  show "load_bytes (xor_block out a b h) out 16 = xor_bytes (load_bytes h a 16) (load_bytes h b 16)"
  proof -
    have "load_bytes (store_bytes (out + 8) ?y ?h) out 16 = ?x @ ?y" by (rule load_store_halves) simp_all
    also have "\<dots> = xor_bytes (load_bytes h a 16) (load_bytes h b 16)" by (simp add: load_halves xor_bytes_append)
    finally show ?thesis unfolding e .
  qed
  show "same_outside (region out 16) h (xor_block out a b h)" unfolding e by (rule same_outside_halves) simp_all
qed

lemma call_block_run:
  assumes "\<And>x. length x = 16 \<Longrightarrow> length (block x) = 16"
  shows "load_bytes (call_block block src dst h) dst 16 = block (load_bytes h src 16)"
    "same_outside (region dst 16) h (call_block block src dst h)"
  using assms [of "load_bytes h src 16"] by (simp_all add: call_block_def load_store_same same_outside_store)

text \<open>
  The byte at \<open>in + j\<close> is not overwritten before that at \<open>out + j + k\<close> is stored: for \<open>k = 0\<close>, the output is behind the
  input, at the same place, or elsewhere.
\<close>

definition ahead :: "nat \<Rightarrow> addr \<Rightarrow> addr \<Rightarrow> nat \<Rightarrow> bool" where
  "ahead k inp out n \<longleftrightarrow> (\<forall>i<n. \<forall>j<n. inp + word_of_nat j = out + word_of_nat i \<longrightarrow> j + k \<le> i)"

lemma ahead_region:
  assumes "ahead k inp out n" "c + l \<le> n" "d + m \<le> n" "d + m \<le> c + k"
  shows "region (inp + word_of_nat c) l \<inter> region (out + word_of_nat d) m = {}"
proof -
  have "inp + word_of_nat c + word_of_nat j \<noteq> out + word_of_nat d + word_of_nat i" if "j < l" "i < m" for i j
  proof
    assume "inp + word_of_nat c + word_of_nat j = out + word_of_nat d + word_of_nat i"
    then have "inp + word_of_nat (c + j) = out + word_of_nat (d + i)" by (simp add: add.assoc)
    moreover have "d + i < n" "c + j < n" using assms(2,3) that by simp_all
    ultimately have "c + j + k \<le> d + i" using assms(1) by (simp add: ahead_def)
    then show False using assms(4) that by simp
  qed
  then show ?thesis unfolding region_def by blast
qed

lemma ahead_shift: "ahead k inp out (16 + n) \<Longrightarrow> ahead k (inp + 16) (out + 16) n"
  unfolding ahead_def
proof (intro allI impI)
  fix i j assume a: "\<forall>i<16 + n. \<forall>j<16 + n. inp + word_of_nat j = out + word_of_nat i \<longrightarrow> j + k \<le> i"
    and l: "i < n" "j < n" and e: "inp + 16 + word_of_nat j = out + 16 + word_of_nat i"
  have "inp + word_of_nat (16 + j) = out + word_of_nat (16 + i)" using e by (simp add: add.assoc)
  with a l show "j + k \<le> i" by fastforce
qed

lemma region_halves: "region p 16 \<inter> R = {} \<Longrightarrow> region (p + 8) 8 \<inter> R = {}" "region p 16 \<inter> R = {} \<Longrightarrow> region p 8 \<inter> R = {}"
  using region_mono [of 8 16 p] region_sub [of 8 8 16 p] by auto

lemma own_halves: "region (p + 8) 8 \<inter> region p 8 = {}"
  using region_disjoint [of 0 8 8 8 p] by (simp add: Int_commute)

lemma block_rest: "16 + n \<le> size_lim \<Longrightarrow> region p 16 \<inter> region (p + 16) n = {}"
  using region_disjoint [of 0 16 16 n p] by simp

lemma region_block: "region p 16 \<subseteq> region p (16 + n)" "region (p + 16) n \<subseteq> region p (16 + n)"
  using region_mono [of 16 "16 + n" p] region_sub [of 16 n "16 + n" p] by simp_all

subsection \<open>Encryption\<close>

lemma cbc_enc_run:
  assumes E: "\<And>x. length x = 16 \<Longrightarrow> length (block x) = 16" and r: "r < 16"
  shows "ahead 0 inp out (16 * b) \<Longrightarrow> region iv 16 \<inter> region out (16 * b) = {} \<Longrightarrow> 16 * b \<le> size_lim \<Longrightarrow>
    \<exists>h' iv'. cbc_enc_blocks block inp out (16 * b + r) iv h = (inp + word_of_nat (16 * b), out + word_of_nat (16 * b), r, iv', h') \<and>
      load_bytes h' out (16 * b) = cbc_enc block b (load_bytes h iv 16) (load_bytes h inp (16 * b)) \<and>
      same_outside (region out (16 * b)) h h' \<and>
      load_bytes h' iv' 16 = drop (16 * b) (load_bytes h iv 16 @ load_bytes h' out (16 * b))"
proof (induction b arbitrary: inp out iv h)
  case 0
  then show ?case using r by (simp add: cbc_enc_blocks.simps [of _ _ _ r] load_bytes_def)
next
  case (Suc b)
  let ?n = "16 * b"
  have n: "16 * Suc b = 16 + ?n" by simp
  note ah = Suc.prems(1) [unfolded n] and ivr = Suc.prems(2) [unfolded n] and sz = Suc.prems(3) [unfolded n]
  let ?h = "xor_block out inp iv h"
  let ?h1 = "call_block block out out ?h"
  let ?c = "block (xor_bytes (load_bytes h inp 16) (load_bytes h iv 16))"
  have "region (inp + 8) 8 \<inter> region out 8 = {}" using ahead_region [OF ah, of 8 8 0 8] by simp
  moreover have "region (iv + 8) 8 \<inter> region out 8 = {}" using ivr region_halves(1) [of iv "region out (16 + ?n)"] region_mono [of 8 "16 + ?n" out] by auto
  ultimately have x: "load_bytes ?h out 16 = xor_bytes (load_bytes h inp 16) (load_bytes h iv 16)" "same_outside (region out 16) h ?h"
    by (rule xor_block_run)+
  have h1: "load_bytes ?h1 out 16 = ?c" "same_outside (region out 16) h ?h1"
    using call_block_run [where block = block and src = out and dst = out and h = ?h, OF E] x same_outside_trans [OF x(2), of "region out 16" ?h1 "region out 16"] by simp_all
  have rest: "load_bytes ?h1 (inp + 16) ?n = load_bytes h (inp + 16) ?n"
    by (rule load_bytes_outside [OF h1(2)]) (use ahead_region [OF ah, of 16 ?n 0 16] in simp)
  have dj: "region out 16 \<inter> region (out + 16) ?n = {}" by (rule block_rest [OF sz])
  have "?n \<le> size_lim" using sz by simp
  from Suc.IH [OF ahead_shift [OF ah] dj this, of ?h1] obtain h' iv' where
    ih: "cbc_enc_blocks block (inp + 16) (out + 16) (?n + r) out ?h1 = (inp + 16 + word_of_nat ?n, out + 16 + word_of_nat ?n, r, iv', h')"
      "load_bytes h' (out + 16) ?n = cbc_enc block b ?c (load_bytes h (inp + 16) ?n)" "same_outside (region (out + 16) ?n) ?h1 h'"
      "load_bytes h' iv' 16 = drop ?n (?c @ load_bytes h' (out + 16) ?n)" unfolding h1(1) rest by blast
  have c: "load_bytes h' out 16 = ?c" using load_bytes_outside [OF ih(3) dj] h1(1) by simp
  have "cbc_enc_blocks block inp out (16 * Suc b + r) iv h = cbc_enc_blocks block (inp + 16) (out + 16) (?n + r) out ?h1"
    by (subst cbc_enc_blocks.simps) simp
  moreover have "load_bytes h' out (16 * Suc b) = cbc_enc block (Suc b) (load_bytes h iv 16) (load_bytes h inp (16 * Suc b))"
    unfolding n load_block c ih(2) by (simp add: Let_def)
  moreover have "same_outside (region out (16 * Suc b)) h h'" unfolding n
    by (rule same_outside_trans [OF h1(2) ih(3)]) (use region_block [of out ?n] in simp)
  moreover have "load_bytes h' iv' 16 = drop (16 * Suc b) (load_bytes h iv 16 @ load_bytes h' out (16 * Suc b))"
    unfolding n load_block [of h' out] c by (simp add: ih(4))
  ultimately show ?case using ih(1) by (intro exI [of _ h'] exI [of _ iv']) (simp add: add.assoc)
qed

lemma CRYPTO_cbc128_encrypt_blocks:
  assumes E: "\<And>x. length x = 16 \<Longrightarrow> length (block x) = 16" and ah: "ahead 0 inp out (16 * b)"
    and iv: "region ivec 16 \<inter> region out (16 * b) = {}" and sz: "16 * b \<le> size_lim"
  shows "load_bytes (CRYPTO_cbc128_encrypt block inp out (16 * b) ivec h) out (16 * b) =
      cbc_enc block b (load_bytes h ivec 16) (load_bytes h inp (16 * b))"
    "same_outside (region out (16 * b) \<union> region ivec 16) h (CRYPTO_cbc128_encrypt block inp out (16 * b) ivec h)"
    "load_bytes (CRYPTO_cbc128_encrypt block inp out (16 * b) ivec h) ivec 16 =
      drop (16 * b) (load_bytes h ivec 16 @ load_bytes (CRYPTO_cbc128_encrypt block inp out (16 * b) ivec h) out (16 * b))"
proof -
  obtain h' iv' where r: "cbc_enc_blocks block inp out (16 * b) ivec h = (inp + word_of_nat (16 * b), out + word_of_nat (16 * b), 0, iv', h')"
    "load_bytes h' out (16 * b) = cbc_enc block b (load_bytes h ivec 16) (load_bytes h inp (16 * b))"
    "same_outside (region out (16 * b)) h h'" "load_bytes h' iv' 16 = drop (16 * b) (load_bytes h ivec 16 @ load_bytes h' out (16 * b))"
    using cbc_enc_run [where block = block and r = 0, OF E _ ah iv sz, of h] by auto
  have e: "CRYPTO_cbc128_encrypt block inp out (16 * b) ivec h = store_bytes ivec (load_bytes h' iv' 16) h'"
    by (simp add: CRYPTO_cbc128_encrypt_def r(1) cbc_enc_tail.simps [of _ _ _ 0])
  have so: "same_outside (region ivec 16) h' (store_bytes ivec (load_bytes h' iv' 16) h')" by (rule same_outside_store) simp
  show "load_bytes (CRYPTO_cbc128_encrypt block inp out (16 * b) ivec h) out (16 * b) =
      cbc_enc block b (load_bytes h ivec 16) (load_bytes h inp (16 * b))"
    unfolding e using load_bytes_outside [OF so, of out "16 * b"] iv r(2) by (simp add: Int_commute)
  show "same_outside (region out (16 * b) \<union> region ivec 16) h (CRYPTO_cbc128_encrypt block inp out (16 * b) ivec h)"
    unfolding e by (rule same_outside_trans [OF r(3) so]) simp
  show "load_bytes (CRYPTO_cbc128_encrypt block inp out (16 * b) ivec h) ivec 16 =
      drop (16 * b) (load_bytes h ivec 16 @ load_bytes (CRYPTO_cbc128_encrypt block inp out (16 * b) ivec h) out (16 * b))"
    unfolding e using load_bytes_outside [OF so, of out "16 * b"] iv r(4) by (simp add: Int_commute load_store_same)
qed

subsection \<open>Decryption\<close>

lemma cbc_dec_direct_run:
  assumes D: "\<And>x. length x = 16 \<Longrightarrow> length (block x) = 16" and r: "r < 16"
  shows "ahead 32 inp out (16 * b) \<Longrightarrow> (0 < b \<Longrightarrow> region iv 16 \<inter> region out 16 = {}) \<Longrightarrow> 16 * b \<le> size_lim \<Longrightarrow>
    \<exists>h' iv'. cbc_dec_direct block inp out (16 * b + r) iv h = (inp + word_of_nat (16 * b), out + word_of_nat (16 * b), r, iv', h') \<and>
      load_bytes h' out (16 * b) = cbc_dec block b (load_bytes h iv 16) (load_bytes h inp (16 * b)) \<and>
      same_outside (region out (16 * b)) h h' \<and>
      load_bytes h' iv' 16 = drop (16 * b) (load_bytes h iv 16 @ load_bytes h inp (16 * b))"
proof (induction b arbitrary: inp out iv h)
  case 0
  then show ?case using r by (simp add: cbc_dec_direct.simps [of _ _ _ r] load_bytes_def)
next
  case (Suc b)
  let ?n = "16 * b"
  have n: "16 * Suc b = 16 + ?n" by simp
  note ah = Suc.prems(1) [unfolded n] and sz = Suc.prems(3) [unfolded n]
  have ivr: "region iv 16 \<inter> region out 16 = {}" by (rule Suc.prems(2)) simp
  let ?h = "call_block block inp out h"
  let ?h1 = "xor_block out out iv ?h"
  let ?c = "xor_bytes (block (load_bytes h inp 16)) (load_bytes h iv 16)"
  have x: "load_bytes ?h out 16 = block (load_bytes h inp 16)" "same_outside (region out 16) h ?h"
    using call_block_run [where block = block, OF D] by simp_all
  have "region (iv + 8) 8 \<inter> region out 8 = {}" using region_halves(1) [OF ivr] region_mono [of 8 16 out] by auto
  note y = xor_block_run [OF own_halves [of out] this, of ?h]
  have h1: "load_bytes ?h1 out 16 = ?c" "same_outside (region out 16) h ?h1"
    using y x load_bytes_outside [OF x(2) ivr] same_outside_trans [OF x(2) y(2), of "region out 16"] by simp_all
  have "region inp 16 \<inter> region out 16 = {}" using ahead_region [OF ah, of 0 16 0 16] by simp
  from load_bytes_outside [OF h1(2) this] have this_block: "load_bytes ?h1 inp 16 = load_bytes h inp 16" .
  have rest: "load_bytes ?h1 (inp + 16) ?n = load_bytes h (inp + 16) ?n"
    by (rule load_bytes_outside [OF h1(2)]) (use ahead_region [OF ah, of 16 ?n 0 16] in simp)
  have dj: "region out 16 \<inter> region (out + 16) ?n = {}" by (rule block_rest [OF sz])
  have next_iv: "region inp 16 \<inter> region (out + 16) 16 = {}" if "0 < b" using ahead_region [OF ah, of 0 16 16 16] that by simp
  have "?n \<le> size_lim" using sz by simp
  from Suc.IH [OF ahead_shift [OF ah] next_iv this, of ?h1] obtain h' iv' where
    ih: "cbc_dec_direct block (inp + 16) (out + 16) (?n + r) inp ?h1 = (inp + 16 + word_of_nat ?n, out + 16 + word_of_nat ?n, r, iv', h')"
      "load_bytes h' (out + 16) ?n = cbc_dec block b (load_bytes h inp 16) (load_bytes h (inp + 16) ?n)" "same_outside (region (out + 16) ?n) ?h1 h'"
      "load_bytes h' iv' 16 = drop ?n (load_bytes h inp 16 @ load_bytes h (inp + 16) ?n)" unfolding this_block rest by blast
  have c: "load_bytes h' out 16 = ?c" using load_bytes_outside [OF ih(3) dj] h1(1) by simp
  have "cbc_dec_direct block inp out (16 * Suc b + r) iv h = cbc_dec_direct block (inp + 16) (out + 16) (?n + r) inp ?h1"
    by (subst cbc_dec_direct.simps) simp
  moreover have "load_bytes h' out (16 * Suc b) = cbc_dec block (Suc b) (load_bytes h iv 16) (load_bytes h inp (16 * Suc b))"
    unfolding n load_block c ih(2) by simp
  moreover have "same_outside (region out (16 * Suc b)) h h'" unfolding n
    by (rule same_outside_trans [OF h1(2) ih(3)]) (use region_block [of out ?n] in simp)
  moreover have "load_bytes h' iv' 16 = drop (16 * Suc b) (load_bytes h iv 16 @ load_bytes h inp (16 * Suc b))"
    unfolding n load_block [of h inp] by (simp add: ih(4))
  ultimately show ?case using ih(1) by (intro exI [of _ h'] exI [of _ iv']) (simp add: add.assoc)
qed

lemma store_words: "length tmp = 16 \<Longrightarrow> store_u64 a (load_word_le tmp 0 XOR load_u64 h b) h' = store_bytes a (xor_bytes (take 8 tmp) (load_bytes h b 8)) h'"
  "length tmp = 16 \<Longrightarrow> store_u64 a (load_word_le tmp 8 XOR load_u64 h b) h' = store_bytes a (xor_bytes (drop 8 tmp) (load_bytes h b 8)) h'"
  "store_u64 a (load_u64 h b) h' = store_bytes a (load_bytes h b 8) h'"
  by (simp_all add: store_u64_def load_u64_def load_word_le_def le_bytes_xor le_bytes_word)

lemma cbc_dec_words_run:
  assumes t: "length tmp = 16" and iv: "region ivec 16 \<inter> region inp 16 = {}" "region ivec 16 \<inter> region out 16 = {}"
    and io: "region (inp + 8) 8 \<inter> region out 8 = {}"
  shows "load_bytes (fold (cbc_dec_word tmp inp out ivec) [0, 8] h) out 16 = xor_bytes tmp (load_bytes h ivec 16)"
    "load_bytes (fold (cbc_dec_word tmp inp out ivec) [0, 8] h) ivec 16 = load_bytes h inp 16"
    "same_outside (region out 16 \<union> region ivec 16) h (fold (cbc_dec_word tmp inp out ivec) [0, 8] h)"
proof -
  let ?x0 = "xor_bytes (take 8 tmp) (load_bytes h ivec 8)" and ?x1 = "xor_bytes (drop 8 tmp) (load_bytes h (ivec + 8) 8)"
    and ?c0 = "load_bytes h inp 8" and ?c1 = "load_bytes h (inp + 8) 8"
  let ?h1 = "store_bytes out ?x0 h"
  let ?h2 = "store_bytes ivec ?c0 ?h1"
  let ?h3 = "store_bytes (out + 8) ?x1 ?h2"
  let ?h4 = "store_bytes (ivec + 8) ?c1 ?h3"
  have so: "same_outside (region out 8) h ?h1" "same_outside (region ivec 8) ?h1 ?h2" "same_outside (region (out + 8) 8) ?h2 ?h3"
    "same_outside (region (ivec + 8) 8) ?h3 ?h4"
    using t by (intro same_outside_store; simp)+
  have h: "region out 8 \<subseteq> region out 16" "region (out + 8) 8 \<subseteq> region out 16" "region ivec 8 \<subseteq> region ivec 16" "region (ivec + 8) 8 \<subseteq> region ivec 16"
    "region inp 8 \<subseteq> region inp 16" "region (inp + 8) 8 \<subseteq> region inp 16"
    using region_mono [of 8 16] region_sub [of 8 8 16] by auto
  have so2: "same_outside (region out 8 \<union> region ivec 8) h ?h2" by (rule same_outside_trans [OF so(1,2)]) simp
  have l: "load_bytes ?h2 (ivec + 8) 8 = load_bytes h (ivec + 8) 8" "load_bytes ?h2 (inp + 8) 8 = ?c1"
    using h iv io own_halves [of ivec] by (intro load_bytes_outside [OF so2]; blast)+
  have w0: "cbc_dec_word tmp inp out ivec 0 h = ?h2" using t by (simp add: cbc_dec_word_def store_words Let_def)
  have w8: "cbc_dec_word tmp inp out ivec 8 ?h2 = ?h4" using t l by (simp add: cbc_dec_word_def store_words Let_def)
  have e: "fold (cbc_dec_word tmp inp out ivec) [0, 8] h = ?h4" using w0 w8 by simp
  have so34: "same_outside (region (out + 8) 8 \<union> region (ivec + 8) 8) ?h2 ?h4" by (rule same_outside_trans [OF so(3,4)]) simp
  have so24: "same_outside (region ivec 8 \<union> region (out + 8) 8 \<union> region (ivec + 8) 8) ?h1 ?h4" by (rule same_outside_trans [OF so(2) so34]) auto
  have "load_bytes ?h4 out 8 = load_bytes ?h1 out 8"
    using h iv own_halves [of out] by (intro load_bytes_outside [OF so24]) blast
  moreover have "load_bytes ?h4 (out + 8) 8 = load_bytes ?h3 (out + 8) 8"
    using h iv by (intro load_bytes_outside [OF so(4)]) blast
  ultimately have "load_bytes ?h4 out 16 = ?x0 @ ?x1" using t by (simp add: load_halves load_store_same)
  also have "\<dots> = xor_bytes tmp (load_bytes h ivec 16)" using t xor_halves [of tmp "load_bytes h ivec 16"] by (simp add: load_halves)
  finally show "load_bytes (fold (cbc_dec_word tmp inp out ivec) [0, 8] h) out 16 = xor_bytes tmp (load_bytes h ivec 16)" unfolding e .
  have "load_bytes ?h4 ivec 8 = load_bytes ?h2 ivec 8"
    using h iv own_halves [of ivec] by (intro load_bytes_outside [OF so34]) blast
  then have "load_bytes ?h4 ivec 16 = ?c0 @ ?c1" by (simp add: load_halves load_store_same)
  then show "load_bytes (fold (cbc_dec_word tmp inp out ivec) [0, 8] h) ivec 16 = load_bytes h inp 16" unfolding e by (simp add: load_halves)
  show "same_outside (region out 16 \<union> region ivec 16) h (fold (cbc_dec_word tmp inp out ivec) [0, 8] h)"
    unfolding e by (rule same_outside_trans [OF so2 so34]) (use h in blast)
qed

lemma cbc_dec_buffered_run:
  assumes D: "\<And>x. length x = 16 \<Longrightarrow> length (block x) = 16" and r: "r < 16"
  shows "ahead 0 inp out (16 * b) \<Longrightarrow> region ivec 16 \<inter> region inp (16 * b) = {} \<Longrightarrow> region ivec 16 \<inter> region out (16 * b) = {} \<Longrightarrow> 16 * b \<le> size_lim \<Longrightarrow>
    \<exists>h'. cbc_dec_buffered block inp out (16 * b + r) ivec h = (inp + word_of_nat (16 * b), out + word_of_nat (16 * b), r, h') \<and>
      load_bytes h' out (16 * b) = cbc_dec block b (load_bytes h ivec 16) (load_bytes h inp (16 * b)) \<and>
      same_outside (region out (16 * b) \<union> region ivec 16) h h' \<and>
      load_bytes h' ivec 16 = drop (16 * b) (load_bytes h ivec 16 @ load_bytes h inp (16 * b))"
proof (induction b arbitrary: inp out h)
  case 0
  then show ?case using r by (simp add: cbc_dec_buffered.simps [of _ _ _ r] load_bytes_def)
next
  case (Suc b)
  let ?n = "16 * b"
  have n: "16 * Suc b = 16 + ?n" by simp
  note ah = Suc.prems(1) [unfolded n] and ii = Suc.prems(2) [unfolded n] and ivo = Suc.prems(3) [unfolded n] and sz = Suc.prems(4) [unfolded n]
  let ?tmp = "block (load_bytes h inp 16)"
  let ?h1 = "fold (cbc_dec_word ?tmp inp out ivec) [0, 8] h"
  let ?c = "xor_bytes ?tmp (load_bytes h ivec 16)"
  have dj: "region ivec 16 \<inter> region inp 16 = {}" "region ivec 16 \<inter> region out 16 = {}" "region ivec 16 \<inter> region (inp + 16) ?n = {}"
    "region ivec 16 \<inter> region (out + 16) ?n = {}" using ii ivo region_block [of inp ?n] region_block [of out ?n] by blast+
  have "length ?tmp = 16" by (rule D) simp
  moreover have "region (inp + 8) 8 \<inter> region out 8 = {}" using ahead_region [OF ah, of 8 8 0 8] by simp
  ultimately have h1: "load_bytes ?h1 out 16 = ?c" "load_bytes ?h1 ivec 16 = load_bytes h inp 16" "same_outside (region out 16 \<union> region ivec 16) h ?h1"
    by (rule cbc_dec_words_run [OF _ dj(1,2)])+
  have "region (inp + 16) ?n \<inter> region out 16 = {}" using ahead_region [OF ah, of 16 ?n 0 16] by simp
  then have rest: "load_bytes ?h1 (inp + 16) ?n = load_bytes h (inp + 16) ?n"
    using dj(3) by (intro load_bytes_outside [OF h1(3)]) blast
  have oo: "region out 16 \<inter> region (out + 16) ?n = {}" by (rule block_rest [OF sz])
  have "?n \<le> size_lim" using sz by simp
  from Suc.IH [OF ahead_shift [OF ah] dj(3,4) this, of ?h1] obtain h' where
    ih: "cbc_dec_buffered block (inp + 16) (out + 16) (?n + r) ivec ?h1 = (inp + 16 + word_of_nat ?n, out + 16 + word_of_nat ?n, r, h')"
      "load_bytes h' (out + 16) ?n = cbc_dec block b (load_bytes h inp 16) (load_bytes h (inp + 16) ?n)"
      "same_outside (region (out + 16) ?n \<union> region ivec 16) ?h1 h'"
      "load_bytes h' ivec 16 = drop ?n (load_bytes h inp 16 @ load_bytes h (inp + 16) ?n)" unfolding h1(2) rest by blast
  have "region out 16 \<inter> (region (out + 16) ?n \<union> region ivec 16) = {}" using oo dj(2) by blast
  then have c: "load_bytes h' out 16 = ?c" using load_bytes_outside [OF ih(3)] h1(1) by simp
  have "cbc_dec_buffered block inp out (16 * Suc b + r) ivec h = cbc_dec_buffered block (inp + 16) (out + 16) (?n + r) ivec ?h1"
    by (subst cbc_dec_buffered.simps) (simp add: Let_def)
  moreover have "load_bytes h' out (16 * Suc b) = cbc_dec block (Suc b) (load_bytes h ivec 16) (load_bytes h inp (16 * Suc b))"
    unfolding n load_block c ih(2) by simp
  moreover have "same_outside (region out (16 * Suc b) \<union> region ivec 16) h h'" unfolding n
    by (rule same_outside_trans [OF h1(3) ih(3)]) (use region_block [of out ?n] in blast)
  moreover have "load_bytes h' ivec 16 = drop (16 * Suc b) (load_bytes h ivec 16 @ load_bytes h inp (16 * Suc b))"
    unfolding n load_block [of h inp] by (simp add: ih(4))
  ultimately show ?case using ih(1) by (intro exI [of _ h']) (simp add: add.assoc)
qed

lemma region_apart:
  assumes "unat p + n \<le> unat q" "unat q + m \<le> size_lim"
  shows "region p n \<inter> region q m = {}"
  using region_disjoint [OF assms, of 0] by simp

lemma ahead_pointers:
  assumes "unat inp + n \<le> size_lim" "unat out + n \<le> size_lim" "unat out + k \<le> unat inp \<or> unat inp + n \<le> unat out"
  shows "ahead k inp out n"
  unfolding ahead_def
proof (intro allI impI)
  fix i j assume l: "i < n" "j < n" and e: "inp + word_of_nat j = out + word_of_nat i"
  have "unat (p + word_of_nat i) = unat p + i" if "unat p + n \<le> size_lim" "i < n" for p :: addr and i
    using that by (simp add: unat_word_ariths unat_of_nat)
  then have "unat inp + j = unat out + i" using assms(1,2) l e by metis
  with assms(3) l show "j + k \<le> i" by linarith
qed

lemma CRYPTO_cbc128_decrypt_blocks:
  assumes D: "\<And>x. length x = 16 \<Longrightarrow> length (block x) = 16" and sz: "unat inp + 16 * b \<le> size_lim" "unat out + 16 * b \<le> size_lim"
    and io: "unat out \<le> unat inp \<or> unat inp + 16 * b \<le> unat out"
    and iv: "region ivec 16 \<inter> region inp (16 * b) = {}" "region ivec 16 \<inter> region out (16 * b) = {}"
  shows "load_bytes (CRYPTO_cbc128_decrypt block inp out (16 * b) ivec h) out (16 * b) =
      cbc_dec block b (load_bytes h ivec 16) (load_bytes h inp (16 * b)) \<and>
    load_bytes (CRYPTO_cbc128_decrypt block inp out (16 * b) ivec h) ivec 16 = drop (16 * b) (load_bytes h ivec 16 @ load_bytes h inp (16 * b)) \<and>
    same_outside (region out (16 * b) \<union> region ivec 16) h (CRYPTO_cbc128_decrypt block inp out (16 * b) ivec h)"
proof -
  have n: "16 * b \<le> size_lim" using sz by simp
  show ?thesis
  proof (cases "inp \<ge> 32 \<and> out \<le> inp - 32 \<or> inp < out")
    case True
    have "unat out + 32 \<le> unat inp \<or> unat inp + 16 * b \<le> unat out"
    proof (cases "inp < out")
      case False
      then have o: "inp \<ge> 32" "out \<le> inp - 32" using True by simp_all
      then have "unat (inp - 32) = unat inp - 32" "32 \<le> unat inp" by (simp_all add: unat_sub word_le_nat_alt)
      moreover have "unat out \<le> unat (inp - 32)" using o(2) by (simp add: word_le_nat_alt)
      ultimately show ?thesis by linarith
    qed (use io in \<open>simp add: word_less_nat_alt\<close>)
    then have ah: "ahead 32 inp out (16 * b)" by (rule ahead_pointers [OF sz])
    have "region ivec 16 \<inter> region out 16 = {}" if "0 < b" using iv(2) region_mono [of 16 "16 * b" out] that by auto
    from cbc_dec_direct_run [where block = block and r = 0, OF D _ ah this n, of h] obtain h' iv' where
      r: "cbc_dec_direct block inp out (16 * b) ivec h = (inp + word_of_nat (16 * b), out + word_of_nat (16 * b), 0, iv', h')"
        "load_bytes h' out (16 * b) = cbc_dec block b (load_bytes h ivec 16) (load_bytes h inp (16 * b))" "same_outside (region out (16 * b)) h h'"
        "load_bytes h' iv' 16 = drop (16 * b) (load_bytes h ivec 16 @ load_bytes h inp (16 * b))" by auto
    have e: "CRYPTO_cbc128_decrypt block inp out (16 * b) ivec h = store_bytes ivec (load_bytes h' iv' 16) h'"
      using True by (simp add: CRYPTO_cbc128_decrypt_def r(1) cbc_dec_tail.simps [of _ _ _ 0])
    have so: "same_outside (region ivec 16) h' (store_bytes ivec (load_bytes h' iv' 16) h')" by (rule same_outside_store) simp
    have "load_bytes (store_bytes ivec (load_bytes h' iv' 16) h') out (16 * b) = load_bytes h' out (16 * b)"
      using iv(2) by (intro load_bytes_outside [OF so]) blast
    moreover have "load_bytes (store_bytes ivec (load_bytes h' iv' 16) h') ivec 16 = load_bytes h' iv' 16" by (rule load_store_same) simp_all
    moreover have "same_outside (region out (16 * b) \<union> region ivec 16) h (store_bytes ivec (load_bytes h' iv' 16) h')"
      by (rule same_outside_trans [OF r(3) so]) simp
    ultimately show ?thesis unfolding e using r(2,4) by simp
  next
    case False
    then have "ahead 0 inp out (16 * b)" using sz by (intro ahead_pointers) (simp_all add: not_less word_le_nat_alt)
    from cbc_dec_buffered_run [where block = block and r = 0, OF D _ this iv n, of h] obtain h' where
      r: "cbc_dec_buffered block inp out (16 * b) ivec h = (inp + word_of_nat (16 * b), out + word_of_nat (16 * b), 0, h')"
        "load_bytes h' out (16 * b) = cbc_dec block b (load_bytes h ivec 16) (load_bytes h inp (16 * b))"
        "same_outside (region out (16 * b) \<union> region ivec 16) h h'"
        "load_bytes h' ivec 16 = drop (16 * b) (load_bytes h ivec 16 @ load_bytes h inp (16 * b))" by auto
    have "CRYPTO_cbc128_decrypt block inp out (16 * b) ivec h = h'"
      unfolding CRYPTO_cbc128_decrypt_def if_not_P [OF False] r(1) by (simp add: cbc_dec_tail.simps [of _ _ _ 0])
    then show ?thesis using r(2,3,4) by simp
  qed
qed

text \<open>
  C3: In memory, \<open>CRYPTO_cbc128_decrypt\<close> undoes \<open>CRYPTO_cbc128_encrypt\<close> on whole blocks, when the ciphertext is moved to another
  heap or stays where it is: for each of the two calls the output may be the input, overlap it from below by any
  distance, or lie elsewhere, which covers both loops of the decryption. Both calls leave the same chaining value in \<open>ivec\<close>, and
  the decryption changes nothing but its output and \<open>ivec\<close>.
\<close>

theorem cbc_roundtrip:
  assumes E: "\<And>x. length x = 16 \<Longrightarrow> length (E x) = 16" and D: "\<And>x. length x = 16 \<Longrightarrow> length (D x) = 16" "\<And>x. length x = 16 \<Longrightarrow> D (E x) = x"
    and sz: "unat inp + 16 * b \<le> size_lim" "unat mid + 16 * b \<le> size_lim" "unat out + 16 * b \<le> size_lim"
    and enc: "unat mid \<le> unat inp \<or> unat inp + 16 * b \<le> unat mid" "region ivec 16 \<inter> region mid (16 * b) = {}"
    and dec: "unat out \<le> unat mid \<or> unat mid + 16 * b \<le> unat out" "region ivec' 16 \<inter> region mid (16 * b) = {}" "region ivec' 16 \<inter> region out (16 * b) = {}"
    and h1: "h1 = CRYPTO_cbc128_encrypt E inp mid (16 * b) ivec h"
    and h2: "load_bytes h2 mid (16 * b) = load_bytes h1 mid (16 * b)" "load_bytes h2 ivec' 16 = load_bytes h ivec 16"
    and h3: "h3 = CRYPTO_cbc128_decrypt D mid out (16 * b) ivec' h2"
  shows "load_bytes h3 out (16 * b) = load_bytes h inp (16 * b) \<and> load_bytes h3 ivec' 16 = load_bytes h1 ivec 16 \<and>
    same_outside (region out (16 * b) \<union> region ivec' 16) h2 h3"
proof -
  have ah: "ahead 0 inp mid (16 * b)" by (rule ahead_pointers) (use sz enc in simp_all)
  have n: "16 * b \<le> size_lim" using sz by simp
  have c: "load_bytes h1 mid (16 * b) = cbc_enc E b (load_bytes h ivec 16) (load_bytes h inp (16 * b))"
    unfolding h1 by (rule CRYPTO_cbc128_encrypt_blocks(1) [OF E ah enc(2) n])
  note d = CRYPTO_cbc128_decrypt_blocks [where block = D and h = h2, OF D(1) sz(2,3) dec, folded h3]
  have "load_bytes h1 ivec 16 = drop (16 * b) (load_bytes h ivec 16 @ load_bytes h1 mid (16 * b))"
    unfolding h1 by (rule CRYPTO_cbc128_encrypt_blocks(3) [OF E ah enc(2) n])
  moreover have "cbc_dec D b (load_bytes h ivec 16) (cbc_enc E b (load_bytes h ivec 16) (load_bytes h inp (16 * b))) = load_bytes h inp (16 * b)"
    by (rule cbc_dec_enc [OF E D(2)]) simp_all
  ultimately show ?thesis using d h2 c by simp
qed

lemma cbc_roundtrip_witness:
  "let h = store_bytes 0x1000 [1, 2, 3] \<lparr>mem = (\<lambda>a. 0), blocks = (\<lambda>a. None)\<rparr>; h1 = CRYPTO_cbc128_encrypt rev 0x1000 0x1000 (16 * 2) 0x2000 h;
       h2 = store_bytes 0x3000 (load_bytes h 0x2000 16) h1; h3 = CRYPTO_cbc128_decrypt rev 0x1000 0xFF8 (16 * 2) 0x3000 h2
   in load_bytes h3 0xFF8 (16 * 2) = load_bytes h 0x1000 (16 * 2)"
  unfolding Let_def
proof (rule cbc_roundtrip [where b = 2 and ivec' = "0x3000" and ivec = "0x2000" and E = rev and inp = "0x1000", OF _ _ _ _ _ _ _ _ _ _ _ refl _ _ refl, THEN conjunct1])
  show "region 0x2000 16 \<inter> region (0x1000 :: addr) (16 * 2) = {}" "region 0x3000 16 \<inter> region (0x1000 :: addr) (16 * 2) = {}"
    "region 0x3000 16 \<inter> region (0xFF8 :: addr) (16 * 2) = {}"
    by (simp_all only: Int_commute [of "region 0x2000 16"] Int_commute [of "region 0x3000 16"]) (rule region_apart; simp)+
  have "region (0x1000 :: addr) (16 * 2) \<inter> region 0x3000 16 = {}" by (rule region_apart) simp_all
  then show "load_bytes (store_bytes 0x3000 (load_bytes h 0x2000 16) h1) 0x1000 (16 * 2) = load_bytes h1 0x1000 (16 * 2)" for h h1
    by (intro load_bytes_outside [OF same_outside_store]) auto
qed (simp_all add: load_store_same)

end
