(* ===== verification/Spec2Isabelle.thy ===== *)
theory Spec2Isabelle
  imports Bytestring_Properties Unicode Oid Ber Base64 Stack Lhash C_Strings Buf Bio_Pair Bio_Mem
    Pb_Properties Pb_Roundtrip Cbc
begin

text \<open>
  The C code of the Seda iOS app is the code it links through its Pods: BoringSSL
  (\<open>src/Seda/Pods/BoringSSL-GRPC\<close>), which terminates TLS for gRPC, and nanopb, which encodes the
  protocol buffers of Firestore. This development models the parts of it that parse and build
  untrusted bytes, and the cryptographic code around the block functions.

  Theories, bottom up:

  \<^item> \<open>Prelude\<close>: words, byte strings, big- and little-endian values, bit lemmas.
  \<^item> \<open>Const_Time\<close>: the branch-free primitives of \<open>crypto/internal.h\<close> and the memory helpers of
    \<open>crypto/mem.c\<close>; each mask is shown equal to the comparison it stands for.
  \<^item> \<open>Codec\<close>: locales \<open>prefix_code\<close> and \<open>canonical_code\<close>, the contract of a writer and its reader.
  \<^item> \<open>Comparator\<close>: C comparison functions and \<open>qsort\<close>; locale \<open>comparator\<close>.
  \<^item> \<open>Cbs\<close>, \<open>Der\<close>, \<open>Der_Element\<close>: the byte cursor \<open>CBS\<close> of \<open>crypto/bytestring/cbs.c\<close> and the DER
    reader on it. A cursor is the list of bytes it still covers; a reader returns a value or
    \<open>None\<close> (the C return 0), and the advanced cursor.
  \<^item> \<open>Cbb\<close>: the builder \<open>CBB\<close> of \<open>crypto/bytestring/cbb.c\<close>. A state is the buffer and the chain of
    open children; a handle is its depth in the chain.
  \<^item> \<open>Cbb_Buffer\<close>, \<open>Cbb_Flush\<close>, \<open>Cbb_Builder\<close>: refinement of the builder to documents with a
    stack of open frames; \<open>refines\<close> is the contract of an operation.
  \<^item> \<open>Cbb_Codec\<close>, \<open>Cbb_Roundtrip\<close>: each writer appends the encoding its reader accepts; locale
    \<open>cbb_codec\<close>, interpreted for the integers, strings and DER values.
  \<^item> \<open>Cbb_Set\<close>: sorting of SET OF contents. \<open>Cbb_Machine\<close>: the builder as a state machine whose
    steps are the operations of \<open>cbb.c\<close> and the writers of \<open>unicode.c\<close>, each with allocations of its own.
  \<^item> \<open>Unicode\<close>: \<open>crypto/bytestring/unicode.c\<close>, code points in four encodings, as codecs.
  \<^item> \<open>Oid\<close>: object identifiers to text and back, in \<open>cbs.c\<close> and \<open>cbb.c\<close>; both directions go through the
    list of arcs.
  \<^item> \<open>Ber\<close>: \<open>crypto/bytestring/ber.c\<close> and \<open>asn1_compat.c\<close>, the conversion of BER to DER, related to trees
    of elements, and what its search for BER overlooks.
  \<^item> \<open>Bytestring_Properties\<close>: the properties of the byte string library.
  \<^item> \<open>Base64\<close>: \<open>crypto/base64/base64.c\<close>, blocks and streams, encoding and decoding.
  \<^item> \<open>Stack\<close>: \<open>crypto/stack/stack.c\<close>, refined to lists, with the sorted flag as an invariant
    that makes the binary search right.
  \<^item> \<open>Lhash\<close>: \<open>crypto/lhash/lhash.c\<close>; locales \<open>hash_contract\<close> and \<open>keyed_hash_contract\<close> state
    what a hash and a comparison function owe the table, interpreted for tables of strings, which
    are refined to maps.
  \<^item> \<open>C_Strings\<close>, \<open>Buf\<close>: the string helpers of \<open>crypto/mem.c\<close> and the growable buffer of
    \<open>crypto/buf/buf.c\<close>.
  \<^item> \<open>Bio\<close>, \<open>Bio_Pair\<close>: the I/O objects of \<open>crypto/bio/bio.c\<close> and the BIO pair of
    \<open>crypto/bio/pair.c\<close>, whose two ring buffers are refined to queues.
  \<^item> \<open>Bio_Source\<close>: \<open>BIO_read_asn1\<close> and its loops, over the locale \<open>bio_source\<close>, a BIO that hands
    out a byte string in pieces; interpreted for the ends of a pair and for memory BIOs.
  \<^item> \<open>Bio_Mem\<close>: the memory BIOs of \<open>crypto/bio/bio_mem.c\<close>, over \<open>Buf\<close>, refined to a queue when they
    can be written and to a tape when not.
  \<^item> \<open>Pb_Stream\<close>: the streams of nanopb, the primitives of \<open>pb_encode.c\<close> and \<open>pb_decode.c\<close>.
    \<open>Pb_Varint\<close> and \<open>Pb_Output\<close> relate them to byte strings; \<open>emits\<close> is the contract of an encoder.
  \<^item> \<open>Pb_Common\<close>: field descriptors and their iterator, \<open>pb.h\<close> and \<open>pb_common.c\<close>.
  \<^item> \<open>Memory\<close>: byte-addressed memory with a heap: loads, stores, and the regions they leave alone.
  \<^item> \<open>Pb_Memory\<close>, \<open>Pb_Fields\<close>: allocation, and the codecs of single values between a stream and memory.
  \<^item> \<open>Pb_Decode\<close>, \<open>Pb_Encode\<close>: fields, arrays, extensions, submessages and messages, with their default
    values and their release.
  \<^item> \<open>Pb_Properties\<close>: the properties of the streams and of the iterator.
  \<^item> \<open>Pb_Contract\<close>, \<open>Pb_Value\<close>: \<open>writes\<close> and \<open>decodes\<close>, the contracts of encoders and decoders of messages, the
    second a triple with the memory it may change; the codecs of single values satisfy them.
  \<^item> \<open>Pb_Message\<close>: the specification of messages. A structure in memory is abstracted to a tree of values
    (\<open>message_at\<close>) by its array of field descriptors; \<open>message_bytes\<close> is the encoding of a tree and \<open>static_message\<close>
    says which descriptors are covered: required and optional fields and arrays with a count, of static
    allocation, whose memory does not overlap.
  \<^item> \<open>Pb_Write\<close>: the encoder implements the specification. \<open>Pb_Ready\<close>, \<open>Pb_Read\<close>, \<open>Pb_Loop\<close>: default values,
    the records of one field, and the loop of \<open>pb_decode_noinit\<close> with its invariant on the required fields seen.
  \<^item> \<open>Pb_Roundtrip\<close>: the decoder implements the specification, and the round trip of messages.
  \<^item> \<open>Modes\<close>: the counter, output feedback and cipher feedback modes of \<open>crypto/fipsmodule/modes\<close>, reduced
    to a byte-wise reference. The block cipher is a parameter, a function on 16 bytes.
  \<^item> \<open>Cbc\<close>: cipher block chaining in memory, for the overlaps of input and output that the code allows.

  Conventions. The allocator is an argument \<open>al\<close>, saying which request sizes succeed; sizes are
  natural numbers with the wrap-around of \<open>size_t\<close> written out where the code tests for it.
  Loops are structural recursions on the data, except \<open>read_all\<close>, whose fuel, the length of
  the input, is shown to be enough, \<open>read_all_loop\<close>, whose fuel, the limit on the output, is
  enough since every pass adds a byte, and \<open>convert_loop\<close>, whose fuel is one more than the length of
  the input, of which every pass takes at least a byte. In nanopb the search of the iterator has the
  number of fields as fuel, the loops over a message, a packed array and the calls of a user's
  callback have the bytes left, of which every pass takes at least one (a callback is assumed to), and
  the nesting of submessages, like the lists of extensions, is bounded by the argument \<open>n\<close> of
  \<open>pb_encode\<close> and \<open>pb_decode\<close>, which return \<open>None\<close> beyond it.

  nanopb is modelled as the app configures it, with \<open>PB_FIELD_32BIT\<close>, \<open>PB_NO_PACKED_STRUCTS\<close> and
  \<open>PB_ENABLE_MALLOC\<close>, on a little-endian target with 64-bit pointers and an \<open>uint_fast8_t\<close> of one byte. The
  arrays of fields that pointers lead to, the callbacks of the user, the placement of new blocks by
  \<open>realloc\<close> and the address of the one local variable whose address is taken are fields of \<open>pb_env\<close>. The
  state of a stream is a value that the callback returns; one that fails stores nothing.
  \<open>BIO_read_asn1\<close> is shown to end for BIOs that report the end of the data by 0 or -1, the two values
  \<open>bio_read_all\<close> looks for.

  The round trips of messages, delimited or not, and the refusal of a buffer that is too small are about encodings that \<open>pb_encode\<close> makes: fields in the order of the descriptor, arrays
  of numbers packed. Pointer fields, unions, extensions and callback fields are modelled and not part of it.

  Not modelled: the Swift app and its server script (no C), the C++ of gRPC, Firestore and the
  TLS state machine of BoringSSL, generated tables and protocol descriptors, assembly.
\<close>

end
